(* ===== verification/Toadb_Prelude.thy ===== *)
theory Toadb_Prelude
  imports Main "HOL-Library.Word" "HOL-Library.Monad_Syntax"
begin

text \<open>
  Shared vocabulary of the development.

  \<^item> machine integers: \<open>byte\<close>, \<open>u32\<close>, \<open>i32\<close> and \<open>u64\<close> are fixed-width words; an
    \<open>i32\<close> is read with \<open>sint\<close>;
  \<^item> pointers: \<open>ptr\<close> is a natural number and \<open>NULL\<close> is 0; a heap is a partial map
    from pointers, so that an access outside the allocated objects is visible;
  \<^item> operations that can fail to return normally (an access through a dangling pointer or
    out of an array, a call that blocks or loops for ever) have an \<open>option\<close> result in
    which \<open>None\<close> is the absence of a normal return;
  \<^item> the collections of rewrite rules the component theories share;
  \<^item> generic lemmas on lists and on arrays that are updated by index.
\<close>

section \<open>Types\<close>

type_synonym byte = "8 word"
type_synonym u32 = "32 word"
type_synonym i32 = "32 word"
type_synonym u64 = "64 word"

type_synonym ptr = nat

abbreviation (input) NULL :: ptr where
  "NULL \<equiv> 0"

section \<open>Collections\<close>

named_theorems heap_simps \<open>accessors of heap objects after an update\<close>
named_theorems lock_simps \<open>behaviour of the lock table and of the lock store\<close>
named_theorems page_simps \<open>reads of a page after a write\<close>

section \<open>Arrays as lists\<close>

text \<open>
  An array access with its bounds check: \<open>None\<close> is an access outside the array.
\<close>

definition arr_get :: "'a list \<Rightarrow> int \<Rightarrow> 'a option" where
  "arr_get xs i = (if 0 \<le> i \<and> i < int (length xs) then Some (xs ! nat i) else None)"

definition arr_set :: "'a list \<Rightarrow> int \<Rightarrow> 'a \<Rightarrow> 'a list option" where
  "arr_set xs i v = (if 0 \<le> i \<and> i < int (length xs) then Some (xs[nat i := v]) else None)"

lemma arr_get_nat [simp]: "i < length xs \<Longrightarrow> arr_get xs (int i) = Some (xs ! i)"
  by (simp add: arr_get_def)

lemma arr_set_nat [simp]: "i < length xs \<Longrightarrow> arr_set xs (int i) v = Some (xs[i := v])"
  by (simp add: arr_set_def)

lemma arr_get_neg [simp]: "i < 0 \<Longrightarrow> arr_get xs i = None"
  by (simp add: arr_get_def)

lemma arr_set_neg [simp]: "i < 0 \<Longrightarrow> arr_set xs i v = None"
  by (simp add: arr_set_def)

lemma arr_get_Some_iff:
  "arr_get xs i = Some v \<longleftrightarrow> 0 \<le> i \<and> i < int (length xs) \<and> v = xs ! nat i"
  by (auto simp: arr_get_def)

lemma arr_set_Some_iff:
  "arr_set xs i v = Some ys \<longleftrightarrow> 0 \<le> i \<and> i < int (length xs) \<and> ys = xs[nat i := v]"
  by (auto simp: arr_set_def)

section \<open>Generic list lemmas\<close>

lemma successively_cong_ends:
  assumes "successively P xs"
    and "\<And>a b. a \<in> set (butlast xs) \<Longrightarrow> b \<in> set (tl xs) \<Longrightarrow> P a b \<Longrightarrow> Q a b"
  shows "successively Q xs"
  using assms
proof (induction xs rule: induct_list012)
  case (3 x y zs)
  have "successively Q (y # zs)"
  proof (rule "3.IH"(2))
    show "successively P (y # zs)" using "3.prems"(1) by simp
    fix a b
    assume a: "a \<in> set (butlast (y # zs))" and b: "b \<in> set (tl (y # zs))" and P: "P a b"
    from a have "a \<in> set (butlast (x # y # zs))" by auto
    moreover from b have "b \<in> set (tl (x # y # zs))" by simp
    ultimately show "Q a b" using "3.prems"(2) P by blast
  qed
  moreover have "Q x y" using "3.prems" by simp
  ultimately show ?case by simp
qed simp_all

lemma successively_rotate:
  "successively P (x # xs @ y # ys @ [x]) \<Longrightarrow> successively P (y # ys @ x # xs @ [y])"
  by (auto simp: successively_append_iff successively_Cons hd_append split: if_splits)

lemma set_butlast_subset: "set (butlast xs) \<subseteq> set xs"
  by (auto dest: in_set_butlastD)

lemma last_in_butlast_distinct: "distinct xs \<Longrightarrow> a \<in> set (butlast xs) \<Longrightarrow> a \<noteq> last xs"
  by (induction xs) (auto split: if_splits)

lemma distinct_hd_not_in_tl: "distinct (x # xs) \<Longrightarrow> b \<in> set xs \<Longrightarrow> b \<noteq> x"
  by auto

lemma nth_list_update_cases: "i < length xs \<Longrightarrow> xs[i := v] ! j = (if j = i then v else xs ! j)"
  by simp

lemma Suc_Max_fresh:
  assumes "finite A"
  shows "Suc (Max (insert 0 A)) \<notin> A"
proof
  assume "Suc (Max (insert 0 A)) \<in> A"
  then have "Suc (Max (insert 0 A)) \<le> Max (insert 0 A)" using assms by (intro Max_ge) auto
  then show False by simp
qed

lemma find_split:
  "List.find P xs = Some x \<Longrightarrow> \<exists>ys zs. xs = ys @ x # zs \<and> (\<forall>y\<in>set ys. \<not> P y) \<and> P x"
proof (induction xs)
  case (Cons a xs)
  show ?case
  proof (cases "P a")
    case True
    with Cons.prems have "a # xs = [] @ x # xs \<and> (\<forall>y\<in>set []. \<not> P y) \<and> P x" by simp
    then show ?thesis by blast
  next
    case False
    with Cons obtain ys zs where "xs = ys @ x # zs" "\<forall>y\<in>set ys. \<not> P y" "P x" by auto
    with False have "a # xs = (a # ys) @ x # zs \<and> (\<forall>y\<in>set (a # ys). \<not> P y) \<and> P x" by simp
    then show ?thesis by blast
  qed
qed simp

section \<open>Association lists addressed by position\<close>

lemma map_of_replace_at:
  assumes "distinct (map fst xs)" and "i < length xs" and "fst (xs ! i) = k"
  shows "map_of (xs[i := (k, v)]) = (map_of xs)(k \<mapsto> v)"
proof -
  let ?ys = "take i xs" and ?zs = "drop (Suc i) xs"
  have xs: "xs = ?ys @ (k, snd (xs ! i)) # ?zs"
    using assms(2,3) id_take_nth_drop [of i xs] by (cases "xs ! i") auto
  have "distinct (map fst (?ys @ (k, snd (xs ! i)) # ?zs))" using assms(1) xs by metis
  then have k: "k \<notin> fst ` set ?ys" by auto
  have "map_of (xs[i := (k, v)]) = map_of (?ys @ (k, v) # ?zs)"
    using assms(2) by (simp add: upd_conv_take_nth_drop)
  also have "\<dots> = (map_of (?ys @ (k, snd (xs ! i)) # ?zs))(k \<mapsto> v)"
    using k by (auto simp: fun_eq_iff map_add_def dom_map_of_conv_image_fst split: option.splits)
      (metis domI dom_map_of_conv_image_fst)
  finally show ?thesis using xs by metis
qed

lemma map_of_delete_at:
  assumes "distinct (map fst xs)" and "i < length xs" and "fst (xs ! i) = k"
  shows "map_of (take i xs @ drop (Suc i) xs) = (map_of xs)(k := None)"
proof -
  let ?ys = "take i xs" and ?zs = "drop (Suc i) xs"
  have xs: "xs = ?ys @ (k, snd (xs ! i)) # ?zs"
    using assms(2,3) id_take_nth_drop [of i xs] by (cases "xs ! i") auto
  have "distinct (map fst (?ys @ (k, snd (xs ! i)) # ?zs))" using assms(1) xs by metis
  then have k: "k \<notin> fst ` set ?ys" "k \<notin> fst ` set ?zs" by auto
  then have none: "map_of ?ys k = None" "map_of ?zs k = None" by (simp_all add: map_of_eq_None_iff)
  have "map_of (?ys @ ?zs) = (map_of (?ys @ (k, snd (xs ! i)) # ?zs))(k := None)"
    using none by (auto simp: fun_eq_iff map_add_def split: option.splits)
  then show ?thesis using xs by metis
qed

lemma map_of_snoc_new:
  assumes "k \<notin> fst ` set xs"
  shows "map_of (xs @ [(k, v)]) = (map_of xs)(k \<mapsto> v)"
proof -
  from assms have "map_of xs k = None" by (simp add: map_of_eq_None_iff)
  then show ?thesis by (auto simp: fun_eq_iff map_add_def split: option.splits)
qed

lemma distinct_delete_at:
  assumes "distinct (map f xs)" and "i < length xs"
  shows "distinct (map f (take i xs @ drop (Suc i) xs))"
proof -
  have "map f xs = map f (take i xs) @ f (xs ! i) # map f (drop (Suc i) xs)"
    using id_take_nth_drop [OF assms(2)] by (metis list.simps(9) map_append)
  then show ?thesis using assms(1) by simp
qed

section \<open>Machine integers\<close>

lemma sint_unat31:
  assumes "unat (x::u32) < 2 ^ 31"
  shows "sint x = int (unat x)"
proof -
  have "int (unat x) < int (2 ^ 31)" using assms by (simp only: of_nat_less_iff)
  then have "uint x < 2 ^ 31" by simp
  then have "signed_take_bit 31 (uint x) = uint x" using uint_ge_0 [of x] by (intro signed_take_bit_int_eq_self) linarith+
  then show ?thesis by (simp add: sint_uint)
qed

text \<open>The increment of an \<^verbatim>\<open>int\<close>; its overflow has no result.\<close>

definition int_inc :: "int \<Rightarrow> int option" where
  "int_inc x = (if x < 2 ^ 31 - 1 then Some (x + 1) else None)"

lemma int_inc_small: "x < 2 ^ 31 - 1 \<Longrightarrow> int_inc x = Some (x + 1)"
  by (simp add: int_inc_def)

lemma int_inc_Some: "int_inc x = Some y \<longleftrightarrow> x < 2 ^ 31 - 1 \<and> y = x + 1"
  by (auto simp: int_inc_def)

end
