(* ===== verification/DList.thy ===== *)
theory DList
  imports Toadb_Prelude
begin

text \<open>
  The intrusive doubly linked list of \<^verbatim>\<open>src/util/dlist/list.c\<close>.

  A list node is an object with a \<open>prev\<close> and a \<open>next\<close> pointer; the heap is a partial map
  from pointers to nodes. Every pointer the C code follows is looked up in the heap, and the
  operation has no result (\<open>None\<close>) when the object does not exist. The lists are circular:
  \<open>ring h xs\<close> says that the nodes \<open>xs\<close> form one ring of the heap in that order. The
  functions of the file are shown to be safe on rings and to implement append, insertion
  after the head, removal of the head, of the last node and of any node; a list with a
  sentinel header is the ring \<open>hdr # xs\<close>. The contract is stated as the locale
  \<open>header_list\<close>, which the components that keep such lists rely on.
\<close>

section \<open>Nodes and the heap\<close>

record dnode =
  d_prev :: ptr
  d_next :: ptr

type_synonym dheap = "ptr \<rightharpoonup> dnode"

definition get_next :: "dheap \<Rightarrow> ptr \<Rightarrow> ptr option" where
  "get_next h p = map_option d_next (h p)"

definition get_prev :: "dheap \<Rightarrow> ptr \<Rightarrow> ptr option" where
  "get_prev h p = map_option d_prev (h p)"

definition set_next :: "dheap \<Rightarrow> ptr \<Rightarrow> ptr \<Rightarrow> dheap option" where
  "set_next h p v = map_option (\<lambda>n. h(p \<mapsto> n\<lparr>d_next := v\<rparr>)) (h p)"

definition set_prev :: "dheap \<Rightarrow> ptr \<Rightarrow> ptr \<Rightarrow> dheap option" where
  "set_prev h p v = map_option (\<lambda>n. h(p \<mapsto> n\<lparr>d_prev := v\<rparr>)) (h p)"

text \<open>\<^verbatim>\<open>INIT_DLIST_NODE\<close>: both pointers of the node refer to the node itself.\<close>

definition INIT_DLIST_NODE :: "dheap \<Rightarrow> ptr \<Rightarrow> dheap option" where
  "INIT_DLIST_NODE h p = do { h \<leftarrow> set_prev h p p; set_next h p p }"

section \<open>The operations of list.c\<close>

text \<open>
  Each operation takes the heap, the value of \<open>*list\<close> and the node; it returns the new
  heap, the new value of \<open>*list\<close> and the result of the C function.
\<close>

definition AddDListTail :: "dheap \<Rightarrow> ptr \<Rightarrow> ptr \<Rightarrow> (dheap \<times> ptr \<times> int) option" where
  "AddDListTail h lst node =
     (if lst = NULL then do {
        h \<leftarrow> set_prev h node node;
        h \<leftarrow> set_next h node node;
        Some (h, node, 1) }
      else do {
        h \<leftarrow> set_next h node lst;
        p \<leftarrow> get_prev h lst;
        h \<leftarrow> set_prev h node p;
        q \<leftarrow> get_prev h lst;
        h \<leftarrow> set_next h q node;
        h \<leftarrow> set_prev h lst node;
        Some (h, lst, 0) })"

definition AddDListNext :: "dheap \<Rightarrow> ptr \<Rightarrow> ptr \<Rightarrow> (dheap \<times> ptr \<times> int) option" where
  "AddDListNext h lst node =
     (if lst = NULL then do {
        h \<leftarrow> set_prev h node node;
        h \<leftarrow> set_next h node node;
        Some (h, node, 0) }
      else do {
        n \<leftarrow> get_next h lst;
        h \<leftarrow> set_next h node n;
        h \<leftarrow> set_prev h node lst;
        h \<leftarrow> set_next h lst node;
        n' \<leftarrow> get_next h node;
        h \<leftarrow> set_prev h n' node;
        Some (h, lst, 0) })"

text \<open>
  The pops take \<open>None\<close> for a null \<open>list\<close> argument and \<open>Some v\<close> for a pointer to a
  variable holding \<open>v\<close>; they return the new heap, the new head and the popped node.
\<close>

definition PopDListHeadNode ::
    "dheap \<Rightarrow> ptr option \<Rightarrow> (dheap \<times> ptr option \<times> ptr) option" where
  "PopDListHeadNode h lst =
     (case lst of
        None \<Rightarrow> Some (h, None, NULL)
      | Some head \<Rightarrow>
          if head = NULL then Some (h, Some head, NULL)
          else do {
            let node = head;
            head \<leftarrow> get_next h head;
            (h, head) \<leftarrow>
              (if head = node then Some (h, NULL)
               else do {
                 p \<leftarrow> get_prev h node;
                 h \<leftarrow> set_prev h head p;
                 p \<leftarrow> get_prev h node;
                 h \<leftarrow> set_next h p head;
                 Some (h, head) });
            h \<leftarrow> set_next h node node;
            h \<leftarrow> set_prev h node node;
            Some (h, Some head, node) })"

definition PopDListTailNode ::
    "dheap \<Rightarrow> ptr option \<Rightarrow> (dheap \<times> ptr option \<times> ptr) option" where
  "PopDListTailNode h lst =
     (case lst of
        None \<Rightarrow> Some (h, None, NULL)
      | Some head \<Rightarrow>
          if head = NULL then Some (h, Some head, NULL)
          else do {
            node \<leftarrow> get_prev h head;
            (h, head) \<leftarrow>
              (if head = node then Some (h, NULL)
               else do {
                 p \<leftarrow> get_prev h node;
                 n \<leftarrow> get_next h node;
                 h \<leftarrow> set_next h p n;
                 n \<leftarrow> get_next h node;
                 p \<leftarrow> get_prev h node;
                 h \<leftarrow> set_prev h n p;
                 Some (h, head) });
            h \<leftarrow> set_next h node node;
            h \<leftarrow> set_prev h node node;
            Some (h, Some head, node) })"

definition DelDListNode :: "dheap \<Rightarrow> ptr option \<Rightarrow> ptr \<Rightarrow> (dheap \<times> int) option" where
  "DelDListNode h lst node =
     (if lst = None \<or> lst = Some NULL then Some (h, 0)
      else do {
        p \<leftarrow> get_prev h node;
        if p = node then Some (h, 0)
        else do {
          n \<leftarrow> get_next h node;
          h \<leftarrow> set_prev h n p;
          p \<leftarrow> get_prev h node;
          n \<leftarrow> get_next h node;
          h \<leftarrow> set_next h p n;
          h \<leftarrow> set_prev h node node;
          h \<leftarrow> set_next h node node;
          Some (h, 1) } })"

text \<open>
  \<^verbatim>\<open>AddCellToListTail\<close> allocates a cell \<open>DLCell\<close> (a node and a value); \<open>cell\<close> is the
  address the allocator returns, \<open>vals\<close> the values of the cells.
\<close>

definition AddCellToListTail ::
    "dheap \<Rightarrow> (ptr \<rightharpoonup> 'v) \<Rightarrow> ptr \<Rightarrow> ptr \<Rightarrow> 'v \<Rightarrow> (dheap \<times> (ptr \<rightharpoonup> 'v) \<times> ptr \<times> int) option" where
  "AddCellToListTail h vals head cell v =
     do {
       let h = h(cell \<mapsto> \<lparr>d_prev = NULL, d_next = NULL\<rparr>);
       let vals = vals(cell \<mapsto> v);
       (h, head, _) \<leftarrow> AddDListTail h head cell;
       Some (h, vals, head, 0) }"

section \<open>Rings\<close>

text \<open>\<open>linked h a b\<close>: the next pointer of \<open>a\<close> and the previous pointer of \<open>b\<close> agree.\<close>

definition linked :: "dheap \<Rightarrow> ptr \<Rightarrow> ptr \<Rightarrow> bool" where
  "linked h a b \<longleftrightarrow> get_next h a = Some b \<and> get_prev h b = Some a"

fun ring :: "dheap \<Rightarrow> ptr list \<Rightarrow> bool" where
  "ring h [] \<longleftrightarrow> False"
| "ring h (x # xs) \<longleftrightarrow>
     distinct (x # xs) \<and> NULL \<notin> set (x # xs) \<and> set (x # xs) \<subseteq> dom h \<and>
     successively (linked h) (x # xs @ [x])"

text \<open>\<open>same_outside h h' A\<close>: the two heaps differ at most on the nodes \<open>A\<close>.\<close>

definition same_outside :: "dheap \<Rightarrow> dheap \<Rightarrow> ptr set \<Rightarrow> bool" where
  "same_outside h h' A \<longleftrightarrow> (\<forall>p. p \<notin> A \<longrightarrow> h' p = h p)"

lemma same_outsideI: "(\<And>p. p \<notin> A \<Longrightarrow> h' p = h p) \<Longrightarrow> same_outside h h' A"
  by (simp add: same_outside_def)

lemma same_outside_refl [simp]: "same_outside h h A"
  by (simp add: same_outside_def)

lemma same_outside_trans:
  "same_outside h h' A \<Longrightarrow> same_outside h' h'' B \<Longrightarrow> A \<subseteq> C \<Longrightarrow> B \<subseteq> C \<Longrightarrow> same_outside h h'' C"
  unfolding same_outside_def by (metis subsetD)

lemma linked_cong:
  "h' a = h a \<Longrightarrow> h' b = h b \<Longrightarrow> linked h a b \<Longrightarrow> linked h' a b"
  by (simp add: linked_def get_next_def get_prev_def)

lemma ring_frame:
  assumes "ring h xs" and "\<And>p. p \<in> set xs \<Longrightarrow> h' p = h p"
  shows "ring h' xs"
proof (cases xs)
  case Nil
  with assms show ?thesis by simp
next
  case (Cons x ys)
  from assms(2) Cons have same: "h' p = h p" if "p \<in> set (x # ys @ [x])" for p
    using that by auto
  have "successively (linked h') (x # ys @ [x])"
  proof (rule successively_cong_ends)
    show "successively (linked h) (x # ys @ [x])" using assms(1) Cons by simp
    fix a b
    assume "a \<in> set (butlast (x # ys @ [x]))" "b \<in> set (tl (x # ys @ [x]))" "linked h a b"
    then show "linked h' a b"
      by (intro linked_cong [of h' a h b] same) (auto dest: in_set_butlastD)
  qed
  moreover have "set (x # ys) \<subseteq> dom h'"
  proof
    fix p assume "p \<in> set (x # ys)"
    with same [of p] assms(1) Cons show "p \<in> dom h'" by (auto simp: dom_def)
  qed
  ultimately show ?thesis using assms(1) Cons by simp
qed

lemma ring_same_outside:
  "ring h xs \<Longrightarrow> same_outside h h' A \<Longrightarrow> set xs \<inter> A = {} \<Longrightarrow> ring h' xs"
  by (erule ring_frame) (auto simp: same_outside_def)

lemma ring_nonempty: "ring h xs \<Longrightarrow> xs \<noteq> []"
  by auto

lemma ring_distinct: "ring h xs \<Longrightarrow> distinct xs"
  by (cases xs) auto

lemma ring_not_NULL: "ring h xs \<Longrightarrow> x \<in> set xs \<Longrightarrow> x \<noteq> NULL"
  by (cases xs) (auto intro: Nat.gr0I)

lemma ring_dom: "ring h xs \<Longrightarrow> set xs \<subseteq> dom h"
  by (cases xs) auto

lemma ring_rotate:
  assumes "ring h (xs @ ys)" and "ys \<noteq> []"
  shows "ring h (ys @ xs)"
proof (cases xs)
  case Nil
  with assms show ?thesis by simp
next
  case (Cons x xs')
  from assms(2) obtain y ys' where ys: "ys = y # ys'" by (cases ys) auto
  from assms(1) Cons ys have "successively (linked h) (x # xs' @ y # ys' @ [x])" by simp
  then have "successively (linked h) (y # ys' @ x # xs' @ [y])" by (rule successively_rotate)
  with assms(1) Cons ys show ?thesis by auto
qed

section \<open>Pointer updates\<close>

text \<open>
  The writes as total functions; on an allocated node they are the writes of the model.
\<close>

definition upd_next :: "dheap \<Rightarrow> ptr \<Rightarrow> ptr \<Rightarrow> dheap" where
  "upd_next h p v = h(p := map_option (\<lambda>n. n\<lparr>d_next := v\<rparr>) (h p))"

definition upd_prev :: "dheap \<Rightarrow> ptr \<Rightarrow> ptr \<Rightarrow> dheap" where
  "upd_prev h p v = h(p := map_option (\<lambda>n. n\<lparr>d_prev := v\<rparr>) (h p))"

lemma set_next_dom [heap_simps]: "p \<in> dom h \<Longrightarrow> set_next h p v = Some (upd_next h p v)"
  by (auto simp: set_next_def upd_next_def)

lemma set_prev_dom [heap_simps]: "p \<in> dom h \<Longrightarrow> set_prev h p v = Some (upd_prev h p v)"
  by (auto simp: set_prev_def upd_prev_def)

lemma dom_upd_next [simp]: "dom (upd_next h p v) = dom h"
  by (auto simp: upd_next_def dom_def)

lemma dom_upd_prev [simp]: "dom (upd_prev h p v) = dom h"
  by (auto simp: upd_prev_def dom_def)

lemma get_next_upd_next [heap_simps]:
  "get_next (upd_next h p v) q = (if q = p \<and> p \<in> dom h then Some v else get_next h q)"
  by (auto simp: get_next_def upd_next_def dom_def)

lemma get_prev_upd_next [heap_simps]: "get_prev (upd_next h p v) q = get_prev h q"
  by (cases "h p") (auto simp: get_prev_def upd_next_def)

lemma get_next_upd_prev [heap_simps]: "get_next (upd_prev h p v) q = get_next h q"
  by (cases "h p") (auto simp: get_next_def upd_prev_def)

lemma get_prev_upd_prev [heap_simps]:
  "get_prev (upd_prev h p v) q = (if q = p \<and> p \<in> dom h then Some v else get_prev h q)"
  by (auto simp: get_prev_def upd_prev_def dom_def)

lemma upd_next_other [heap_simps]: "q \<noteq> p \<Longrightarrow> upd_next h p v q = h q"
  by (simp add: upd_next_def)

lemma upd_prev_other [heap_simps]: "q \<noteq> p \<Longrightarrow> upd_prev h p v q = h q"
  by (simp add: upd_prev_def)

lemma same_outside_upd_next:
  "same_outside h h' A \<Longrightarrow> p \<in> A \<Longrightarrow> same_outside h (upd_next h' p v) A"
  by (auto simp: same_outside_def upd_next_def)

lemma same_outside_upd_prev:
  "same_outside h h' A \<Longrightarrow> p \<in> A \<Longrightarrow> same_outside h (upd_prev h' p v) A"
  by (auto simp: same_outside_def upd_prev_def)

lemmas same_outside_upds = same_outside_upd_next same_outside_upd_prev same_outside_refl

text \<open>The pointers of a ring, position by position.\<close>

lemma ring_next_mid: "ring h (as @ a # b # bs) \<Longrightarrow> get_next h a = Some b"
  by (cases as) (auto simp: successively_append_iff successively_Cons linked_def)

lemma ring_prev_mid: "ring h (as @ a # b # bs) \<Longrightarrow> get_prev h b = Some a"
  by (cases as) (auto simp: successively_append_iff successively_Cons linked_def)

lemma ring_next_last: "ring h (x # xs) \<Longrightarrow> get_next h (last (x # xs)) = Some x"
  by (cases xs rule: rev_cases) (auto simp: successively_append_iff successively_Cons linked_def)

lemma ring_prev_head: "ring h (x # xs) \<Longrightarrow> get_prev h x = Some (last (x # xs))"
  by (cases xs rule: rev_cases) (auto simp: successively_append_iff successively_Cons linked_def)

lemma ring_next_head: "ring h (x # y # ys) \<Longrightarrow> get_next h x = Some y"
  using ring_next_mid [of h "[]" x y ys] by simp

text \<open>A ring is made of a chain and the link that closes it.\<close>

lemma ring_iff_chain:
  "ring h (x # xs) \<longleftrightarrow>
     distinct (x # xs) \<and> NULL \<notin> set (x # xs) \<and> set (x # xs) \<subseteq> dom h \<and>
     successively (linked h) (x # xs) \<and> linked h (last (x # xs)) x"
proof -
  have "successively (linked h) ((x # xs) @ [x]) \<longleftrightarrow>
    successively (linked h) (x # xs) \<and> linked h (last (x # xs)) x"
    by (subst successively_append_iff) simp
  then show ?thesis by auto
qed

lemma chain_transfer:
  assumes "successively (linked h) xs"
    and "\<And>a. a \<in> set (butlast xs) \<Longrightarrow> get_next h' a = get_next h a"
    and "\<And>b. b \<in> set (tl xs) \<Longrightarrow> get_prev h' b = get_prev h b"
  shows "successively (linked h') xs"
  by (rule successively_cong_ends [OF assms(1)]) (simp add: linked_def assms(2,3))

section \<open>Linking and unlinking a node\<close>

text \<open>
  The two pointer surgeries all operations perform, stated on the accessors of the new heap.
\<close>

lemma link_at_end:
  assumes r: "ring h (x # xs)" and n: "n \<notin> set (x # xs)" "n \<noteq> NULL" "n \<in> dom h'"
    and dom: "dom h \<subseteq> dom h'"
    and nxt: "\<And>a. a \<in> set (n # x # xs) \<Longrightarrow>
      get_next h' a = (if a = n then Some x else if a = last (x # xs) then Some n else get_next h a)"
    and prv: "\<And>b. b \<in> set (n # x # xs) \<Longrightarrow>
      get_prev h' b = (if b = n then Some (last (x # xs)) else if b = x then Some n else get_prev h b)"
  shows "ring h' (x # xs @ [n])"
proof -
  have d: "distinct (x # xs)" using r by simp
  have "successively (linked h') (x # xs)"
  proof (rule chain_transfer)
    show "successively (linked h) (x # xs)" using r by (simp only: ring_iff_chain)
    fix a assume a: "a \<in> set (butlast (x # xs))"
    then have "a \<in> set (x # xs)" by (rule in_set_butlastD)
    moreover have "a \<noteq> last (x # xs)" using last_in_butlast_distinct [OF d a] .
    ultimately show "get_next h' a = get_next h a" using nxt [of a] n by auto
  next
    fix b assume "b \<in> set (tl (x # xs))"
    with d have "b \<in> set (x # xs)" "b \<noteq> x" by auto
    then show "get_prev h' b = get_prev h b" using prv [of b] n by auto
  qed
  moreover have "linked h' (last (x # xs)) n"
    using nxt [of "last (x # xs)"] prv [of n] n last_in_set [of "x # xs"]
    by (auto simp: linked_def)
  ultimately have "successively (linked h') ((x # xs) @ [n])"
    by (subst successively_append_iff) simp
  moreover have "linked h' n x" using nxt [of n] prv [of x] n by (auto simp: linked_def)
  moreover have "set (x # xs @ [n]) \<subseteq> dom h'"
    using subset_trans [OF ring_dom [OF r] dom] n(3) by simp
  moreover have "distinct (x # xs @ [n])" using d n by auto
  moreover have "NULL \<notin> set (x # xs @ [n])" using r n(2) by auto
  ultimately show ?thesis by (simp only: ring_iff_chain) simp
qed

lemma unlink_node:
  assumes r: "ring h (n # xs)" and ne: "xs \<noteq> []" and dom: "dom h \<subseteq> dom h'"
    and nxt: "\<And>a. a \<in> set (n # xs) \<Longrightarrow>
      get_next h' a = (if a = n then Some n else if a = last xs then Some (hd xs) else get_next h a)"
    and prv: "\<And>b. b \<in> set (n # xs) \<Longrightarrow>
      get_prev h' b = (if b = n then Some n else if b = hd xs then Some (last xs) else get_prev h b)"
  shows "ring h' xs \<and> ring h' [n]"
proof -
  have d: "distinct (n # xs)" using r by simp
  from ne obtain y ys where xs: "xs = y # ys" by (cases xs) auto
  have "successively (linked h') xs"
  proof (rule chain_transfer)
    show "successively (linked h) xs"
      using r xs by (auto simp: ring_iff_chain simp del: ring.simps)
    fix a assume a: "a \<in> set (butlast xs)"
    then have "a \<in> set xs" by (rule in_set_butlastD)
    moreover have "a \<noteq> last xs" using last_in_butlast_distinct [OF _ a] d by simp
    ultimately show "get_next h' a = get_next h a" using nxt [of a] d by auto
  next
    fix b assume "b \<in> set (tl xs)"
    with d xs have "b \<in> set xs" "b \<noteq> hd xs" "b \<noteq> n" by auto
    then show "get_prev h' b = get_prev h b" using prv [of b] by auto
  qed
  moreover have "linked h' (last xs) y"
  proof -
    have "last xs \<in> set xs" using ne by simp
    moreover from this d have "last xs \<noteq> n" by auto
    ultimately show ?thesis using nxt [of "last xs"] prv [of y] d xs by (auto simp: linked_def)
  qed
  moreover have "set xs \<subseteq> dom h'" using subset_trans [OF ring_dom [OF r] dom] by simp
  moreover have "distinct xs" "NULL \<notin> set xs" using r by simp_all
  ultimately have "ring h' xs" unfolding xs by (simp only: ring_iff_chain simp_thms)
  moreover have "ring h' [n]"
    using nxt [of n] prv [of n] r dom by (auto simp: linked_def simp del: domIff)
  ultimately show ?thesis by blast
qed

section \<open>The operations on rings\<close>

lemma INIT_DLIST_NODE_ring:
  assumes "p \<in> dom h" and "p \<noteq> NULL"
  shows "\<exists>h'. INIT_DLIST_NODE h p = Some h' \<and> ring h' [p] \<and> same_outside h h' {p} \<and> dom h' = dom h"
proof -
  let ?h = "upd_next (upd_prev h p p) p p"
  have "INIT_DLIST_NODE h p = Some ?h" using assms by (simp add: INIT_DLIST_NODE_def heap_simps)
  moreover have "ring ?h [p]" using assms by (auto simp: linked_def heap_simps)
  moreover have "same_outside h ?h {p}" by (intro same_outside_upds) simp_all
  ultimately show ?thesis by auto
qed

lemma AddDListTail_NULL:
  assumes "n \<in> dom h" and "n \<noteq> NULL"
  shows "\<exists>h'. AddDListTail h NULL n = Some (h', n, 1) \<and> ring h' [n] \<and>
    same_outside h h' {n} \<and> dom h' = dom h"
proof -
  let ?h = "upd_next (upd_prev h n n) n n"
  have "AddDListTail h NULL n = Some (?h, n, 1)"
    using assms by (simp add: AddDListTail_def heap_simps)
  moreover have "ring ?h [n]" using assms by (auto simp: linked_def heap_simps)
  moreover have "same_outside h ?h {n}" by (intro same_outside_upds) simp_all
  ultimately show ?thesis by auto
qed

lemma AddDListTail_ring:
  assumes r: "ring h (x # xs)" and n: "n \<in> dom h" "n \<notin> set (x # xs)" "n \<noteq> NULL"
  shows "\<exists>h'. AddDListTail h x n = Some (h', x, 0) \<and> ring h' (x # xs @ [n]) \<and>
    same_outside h h' (set (n # x # xs)) \<and> dom h' = dom h"
proof -
  let ?l = "last (x # xs)"
  let ?h = "upd_prev (upd_next (upd_prev (upd_next h n x) n ?l) ?l n) x n"
  have l: "?l \<in> set (x # xs)" by (rule last_in_set) simp
  have dl: "?l \<in> dom h" "x \<in> dom h" using ring_dom [OF r] l by auto
  have ln: "?l \<noteq> n" using l n(2) by metis
  have x0: "x \<noteq> NULL" using ring_not_NULL [OF r] by simp
  have "AddDListTail h x n = Some (?h, x, 0)"
    using r n x0 dl ring_prev_head [OF r]
    by (simp add: AddDListTail_def heap_simps del: ring.simps last.simps)
  moreover have "ring ?h (x # xs @ [n])"
  proof (rule link_at_end [OF r n(2,3)])
    show "n \<in> dom ?h" "dom h \<subseteq> dom ?h" using n(1) by simp_all
    show "get_next ?h a = (if a = n then Some x else if a = ?l then Some n else get_next h a)"
      for a using n(1) dl ln by (simp add: heap_simps del: last.simps)
    show "get_prev ?h b = (if b = n then Some ?l else if b = x then Some n else get_prev h b)"
      for b using n dl ln by (simp add: heap_simps del: last.simps)
  qed
  moreover have "same_outside h ?h (set (n # x # xs))"
    using l by (intro same_outside_upds) auto
  ultimately show ?thesis by auto
qed

lemma AddDListNext_ring:
  assumes r: "ring h (x # xs)" and n: "n \<in> dom h" "n \<notin> set (x # xs)" "n \<noteq> NULL"
  shows "\<exists>h'. AddDListNext h x n = Some (h', x, 0) \<and> ring h' (x # n # xs) \<and>
    same_outside h h' (set (n # x # xs)) \<and> dom h' = dom h"
proof -
  let ?f = "hd (xs @ [x])"
  let ?h = "upd_prev (upd_next (upd_prev (upd_next h n ?f) n x) x n) ?f n"
  have f: "?f \<in> set (x # xs)" by (cases xs) auto
  have df: "?f \<in> dom h" "x \<in> dom h" using ring_dom [OF r] f by auto
  have fn: "?f \<noteq> n" using f n(2) by metis
  have x0: "x \<noteq> NULL" "x \<noteq> n" using ring_not_NULL [OF r] n by auto
  have nf: "get_next h x = Some ?f"
    using r ring_next_last [of h x "[]"] ring_next_head [of h x] by (cases xs) auto
  have eq: "AddDListNext h x n = Some (?h, x, 0)"
    using n x0 df nf by (simp add: AddDListNext_def heap_simps del: ring.simps)
  obtain y ys where rot: "xs @ [x] = y # ys" by (cases "xs @ [x]") auto
  have ry: "ring h (y # ys)" using ring_rotate [of h "[]" "x # xs"] ring_rotate [of h "[x]" xs] r rot
    by (cases xs) auto
  have last_y: "last (y # ys) = x" and set_y: "set (y # ys) = set (x # xs)"
    using arg_cong [OF rot, of last] arg_cong [OF rot, of set] by auto
  have "ring ?h (y # ys @ [n])"
  proof (rule link_at_end [OF ry])
    show "n \<notin> set (y # ys)" using n(2) set_y by simp
    show "n \<noteq> NULL" by (rule n(3))
    show "n \<in> dom ?h" "dom h \<subseteq> dom ?h" using n(1) by simp_all
    show "get_next ?h a = (if a = n then Some y else if a = last (y # ys) then Some n else get_next h a)"
      for a using n(1) df x0 rot by (simp add: heap_simps last_y del: last.simps)
    show "get_prev ?h b = (if b = n then Some (last (y # ys)) else if b = y then Some n else get_prev h b)"
      for b using n df x0 fn rot by (simp add: heap_simps last_y del: last.simps)
  qed
  moreover have "y # ys @ [n] = xs @ [x, n]" using rot by simp
  ultimately have "ring ?h (xs @ [x, n])" by (simp only:)
  then have "ring ?h (x # n # xs)" using ring_rotate [of ?h xs "[x, n]"] by simp
  moreover have "same_outside h ?h (set (n # x # xs))"
    using f by (intro same_outside_upds) auto
  ultimately show ?thesis using eq by auto
qed

text \<open>
  The removals. The caller's variable that held the head is returned as well: the pops move
  it, \<open>DelDListNode\<close> leaves it alone.
\<close>

lemma PopDListHeadNode_single:
  assumes "ring h [x]"
  shows "\<exists>h'. PopDListHeadNode h (Some x) = Some (h', Some NULL, x) \<and> ring h' [x] \<and>
    same_outside h h' {x} \<and> dom h' = dom h"
proof -
  let ?h = "upd_prev (upd_next h x x) x x"
  have x: "x \<noteq> NULL" "x \<in> dom h" "get_next h x = Some x"
    using assms ring_next_last [OF assms] by auto
  then have "PopDListHeadNode h (Some x) = Some (?h, Some NULL, x)"
    by (simp add: PopDListHeadNode_def heap_simps)
  moreover have "ring ?h [x]" using x by (auto simp: linked_def heap_simps)
  moreover have "same_outside h ?h {x}" by (intro same_outside_upds) simp_all
  ultimately show ?thesis by auto
qed

lemma PopDListHeadNode_ring:
  assumes r: "ring h (x # y # ys)"
  shows "\<exists>h'. PopDListHeadNode h (Some x) = Some (h', Some y, x) \<and>
    ring h' (y # ys) \<and> ring h' [x] \<and> same_outside h h' (set (x # y # ys)) \<and> dom h' = dom h"
proof -
  let ?l = "last (y # ys)"
  let ?h = "upd_prev (upd_next (upd_next (upd_prev h y ?l) ?l y) x x) x x"
  have l: "?l \<in> set (y # ys)" by (rule last_in_set) simp
  have d: "x \<noteq> y" "?l \<noteq> x" "x \<noteq> NULL" using r l by auto
  have dm: "x \<in> dom h" "y \<in> dom h" "?l \<in> dom h" using ring_dom [OF r] l by auto
  have prev: "get_prev h x = Some ?l" using ring_prev_head [OF r] by simp
  have "PopDListHeadNode h (Some x) = Some (?h, Some y, x)"
    using d dm prev ring_next_head [OF r]
    by (simp add: PopDListHeadNode_def heap_simps del: last.simps)
  moreover have "ring ?h (y # ys) \<and> ring ?h [x]"
  proof (rule unlink_node [OF r])
    show "get_next ?h a =
      (if a = x then Some x else if a = ?l then Some (hd (y # ys)) else get_next h a)" for a
      using d dm by (simp add: heap_simps del: last.simps)
    show "get_prev ?h b =
      (if b = x then Some x else if b = hd (y # ys) then Some ?l else get_prev h b)" for b
      using d dm by (simp add: heap_simps del: last.simps)
  qed simp_all
  moreover have "same_outside h ?h (set (x # y # ys))"
    using l by (intro same_outside_upds) (simp_all del: last.simps)
  ultimately show ?thesis by auto
qed

lemma PopDListTailNode_single:
  assumes "ring h [x]"
  shows "\<exists>h'. PopDListTailNode h (Some x) = Some (h', Some NULL, x) \<and> ring h' [x] \<and>
    same_outside h h' {x} \<and> dom h' = dom h"
proof -
  let ?h = "upd_prev (upd_next h x x) x x"
  have x: "x \<noteq> NULL" "x \<in> dom h" "get_prev h x = Some x"
    using assms ring_prev_head [OF assms] by auto
  then have "PopDListTailNode h (Some x) = Some (?h, Some NULL, x)"
    by (simp add: PopDListTailNode_def heap_simps)
  moreover have "ring ?h [x]" using x by (auto simp: linked_def heap_simps)
  moreover have "same_outside h ?h {x}" by (intro same_outside_upds) simp_all
  ultimately show ?thesis by auto
qed

lemma PopDListTailNode_ring:
  assumes r: "ring h (x # ys @ [n])"
  shows "\<exists>h'. PopDListTailNode h (Some x) = Some (h', Some x, n) \<and>
    ring h' (x # ys) \<and> ring h' [n] \<and> same_outside h h' (set (x # ys @ [n])) \<and> dom h' = dom h"
proof -
  let ?l = "last (x # ys)"
  let ?h = "upd_prev (upd_next (upd_prev (upd_next h ?l x) x ?l) n n) n n"
  have rn: "ring h (n # x # ys)" using ring_rotate [of h "x # ys" "[n]"] r by simp
  have l: "?l \<in> set (x # ys)" by (rule last_in_set) simp
  have d: "x \<noteq> n" "?l \<noteq> n" "n \<noteq> NULL" "x \<noteq> NULL" using rn l by auto
  have dm: "x \<in> dom h" "n \<in> dom h" "?l \<in> dom h" using ring_dom [OF rn] l by auto
  have nx: "get_next h n = Some x" using ring_next_head [OF rn] .
  have px: "get_prev h x = Some n" using ring_prev_head [OF r] by simp
  have pn: "get_prev h n = Some ?l" using ring_prev_head [OF rn] by simp
  have "PopDListTailNode h (Some x) = Some (?h, Some x, n)"
    using d dm nx px pn by (simp add: PopDListTailNode_def heap_simps del: last.simps)
  moreover have "ring ?h (x # ys) \<and> ring ?h [n]"
  proof (rule unlink_node [OF rn])
    show "get_next ?h a =
      (if a = n then Some n else if a = ?l then Some (hd (x # ys)) else get_next h a)" for a
      using d dm by (simp add: heap_simps del: last.simps)
    show "get_prev ?h b =
      (if b = n then Some n else if b = hd (x # ys) then Some ?l else get_prev h b)" for b
      using d dm by (simp add: heap_simps del: last.simps)
  qed simp_all
  moreover have "same_outside h ?h (set (x # ys @ [n]))"
    using l by (intro same_outside_upds) (simp_all del: last.simps, auto)
  ultimately show ?thesis by auto
qed

lemma DelDListNode_single:
  assumes "ring h [x]" and "lst \<noteq> NULL"
  shows "DelDListNode h (Some lst) x = Some (h, 0)"
  using assms ring_prev_head [OF assms(1)] by (simp add: DelDListNode_def)

lemma DelDListNode_head:
  assumes r: "ring h (n # y # ys)" and "lst \<noteq> NULL"
  shows "\<exists>h'. DelDListNode h (Some lst) n = Some (h', 1) \<and>
    ring h' (y # ys) \<and> ring h' [n] \<and> same_outside h h' (set (n # y # ys)) \<and> dom h' = dom h"
proof -
  let ?l = "last (y # ys)"
  let ?h = "upd_next (upd_prev (upd_next (upd_prev h y ?l) ?l y) n n) n n"
  have l: "?l \<in> set (y # ys)" by (rule last_in_set) simp
  have d: "n \<noteq> y" "?l \<noteq> n" using r l by auto
  have dm: "n \<in> dom h" "y \<in> dom h" "?l \<in> dom h" using ring_dom [OF r] l by auto
  have pn: "get_prev h n = Some ?l" using ring_prev_head [OF r] by simp
  have "DelDListNode h (Some lst) n = Some (?h, 1)"
    using d dm pn ring_next_head [OF r] assms(2)
    by (simp add: DelDListNode_def heap_simps del: last.simps)
  moreover have "ring ?h (y # ys) \<and> ring ?h [n]"
  proof (rule unlink_node [OF r])
    show "get_next ?h a =
      (if a = n then Some n else if a = ?l then Some (hd (y # ys)) else get_next h a)" for a
      using d dm by (simp add: heap_simps del: last.simps)
    show "get_prev ?h b =
      (if b = n then Some n else if b = hd (y # ys) then Some ?l else get_prev h b)" for b
      using d dm by (simp add: heap_simps del: last.simps)
  qed simp_all
  moreover have "same_outside h ?h (set (n # y # ys))"
    using l by (intro same_outside_upds) (simp_all del: last.simps)
  ultimately show ?thesis by auto
qed

lemma DelDListNode_ring:
  assumes r: "ring h (x # ys @ n # zs)" and "lst \<noteq> NULL"
  shows "\<exists>h'. DelDListNode h (Some lst) n = Some (h', 1) \<and>
    ring h' (x # ys @ zs) \<and> ring h' [n] \<and> same_outside h h' (set (x # ys @ n # zs)) \<and> dom h' = dom h"
proof -
  have rn: "ring h (n # zs @ x # ys)" using ring_rotate [of h "x # ys" "n # zs"] r by simp
  obtain y zs' where zs: "zs @ x # ys = y # zs'" by (cases zs) auto
  from rn zs have "ring h (n # y # zs')" by simp
  from DelDListNode_head [OF this assms(2)] obtain h' where
    del: "DelDListNode h (Some lst) n = Some (h', 1)" and "ring h' (zs @ x # ys)" "ring h' [n]"
    and out: "same_outside h h' (set (n # zs @ x # ys))" "dom h' = dom h"
    unfolding zs by blast
  moreover have "ring h' (x # ys @ zs)"
    using ring_rotate [of h' zs "x # ys"] \<open>ring h' (zs @ x # ys)\<close> by simp
  moreover have "set (n # zs @ x # ys) = set (x # ys @ n # zs)" by auto
  ultimately show ?thesis by metis
qed

section \<open>The contract of a list with a sentinel header\<close>

text \<open>
  What the users of the module rely on: a header node that is never removed and the nodes
  \<open>xs\<close> behind it. \<open>lst h hdr xs\<close> is the abstraction relation, \<open>node h p\<close> says that
  \<open>p\<close> is an allocated node, \<open>same h h' A\<close> that nothing but the nodes \<open>A\<close> changed.
\<close>

locale header_list =
  fixes lst :: "'h \<Rightarrow> ptr \<Rightarrow> ptr list \<Rightarrow> bool"
    and node :: "'h \<Rightarrow> ptr \<Rightarrow> bool"
    and same :: "'h \<Rightarrow> 'h \<Rightarrow> ptr set \<Rightarrow> bool"
    and init :: "'h \<Rightarrow> ptr \<Rightarrow> 'h option"
    and add_tail :: "'h \<Rightarrow> ptr \<Rightarrow> ptr \<Rightarrow> ('h \<times> ptr \<times> int) option"
    and pop_tail :: "'h \<Rightarrow> ptr option \<Rightarrow> ('h \<times> ptr option \<times> ptr) option"
    and del :: "'h \<Rightarrow> ptr option \<Rightarrow> ptr \<Rightarrow> ('h \<times> int) option"
  assumes lst_init: "node h p \<Longrightarrow>
      \<exists>h'. init h p = Some h' \<and> lst h' p [] \<and> same h h' {p}"
    and lst_add_tail: "lst h hdr xs \<Longrightarrow> node h n \<Longrightarrow> n \<notin> set (hdr # xs) \<Longrightarrow>
      \<exists>h'. add_tail h hdr n = Some (h', hdr, 0) \<and> lst h' hdr (xs @ [n]) \<and> same h h' (set (n # hdr # xs))"
    and lst_pop_tail: "lst h hdr (xs @ [n]) \<Longrightarrow>
      \<exists>h'. pop_tail h (Some hdr) = Some (h', Some hdr, n) \<and> lst h' hdr xs \<and>
        same h h' (set (hdr # xs @ [n]))"
    and lst_del: "lst h hdr (ys @ n # zs) \<Longrightarrow>
      \<exists>h'. del h (Some hdr) n = Some (h', 1) \<and> lst h' hdr (ys @ zs) \<and>
        same h h' (set (hdr # ys @ n # zs))"
    and lst_frame: "lst h hdr xs \<Longrightarrow> same h h' A \<Longrightarrow> set (hdr # xs) \<inter> A = {} \<Longrightarrow> lst h' hdr xs"
    and lst_distinct: "lst h hdr xs \<Longrightarrow> distinct (hdr # xs)"
    and lst_node: "lst h hdr xs \<Longrightarrow> p \<in> set (hdr # xs) \<Longrightarrow> node h p"
    and node_same: "node h p \<Longrightarrow> same h h' A \<Longrightarrow> node h' p"
    and same_trans: "same h h' A \<Longrightarrow> same h' h'' B \<Longrightarrow> A \<subseteq> C \<Longrightarrow> B \<subseteq> C \<Longrightarrow> same h h'' C"
begin

text \<open>Taking a node out of one list and appending it to another, disjoint one.\<close>

lemma move_node:
  assumes a: "lst h a (ys @ n # zs)" and b: "lst h b ws"
    and disj: "set (a # ys @ n # zs) \<inter> set (b # ws) = {}"
  shows "\<exists>h1 h2. del h (Some a) n = Some (h1, 1) \<and> add_tail h1 b n = Some (h2, b, 0) \<and>
    lst h2 a (ys @ zs) \<and> lst h2 b (ws @ [n]) \<and> same h h2 (set (a # ys @ n # zs) \<union> set (b # ws))"
proof -
  from lst_del [OF a] obtain h1 where h1: "del h (Some a) n = Some (h1, 1)" "lst h1 a (ys @ zs)"
    and s1: "same h h1 (set (a # ys @ n # zs))" by blast
  have b1: "lst h1 b ws" using lst_frame [OF b s1] disj by blast
  have n1: "node h1 n" using lst_node [OF a, of n] node_same [OF _ s1] by simp
  have "n \<notin> set (b # ws)" using disj by auto
  from lst_add_tail [OF b1 n1 this] obtain h2 where h2: "add_tail h1 b n = Some (h2, b, 0)"
    "lst h2 b (ws @ [n])" and s2: "same h1 h2 (set (n # b # ws))" by blast
  have "set (a # ys @ zs) \<inter> set (n # b # ws) = {}"
    using disj lst_distinct [OF a] by auto
  from lst_frame [OF h1(2) s2 this] have "lst h2 a (ys @ zs)" .
  moreover have "same h h2 (set (a # ys @ n # zs) \<union> set (b # ws))"
    by (rule same_trans [OF s1 s2]) auto
  ultimately show ?thesis using h1 h2 by blast
qed

text \<open>Taking the last node of one list, initialising it and appending it to another.\<close>

lemma recycle_node:
  assumes a: "lst h a (xs @ [n])" and b: "lst h b ws"
    and disj: "set (a # xs @ [n]) \<inter> set (b # ws) = {}"
  shows "\<exists>h1 h2 h3. pop_tail h (Some a) = Some (h1, Some a, n) \<and> init h1 n = Some h2 \<and>
    add_tail h2 b n = Some (h3, b, 0) \<and> lst h3 a xs \<and> lst h3 b (ws @ [n]) \<and>
    same h h3 (set (a # xs @ [n]) \<union> set (b # ws))"
proof -
  from lst_pop_tail [OF a] obtain h1 where h1: "pop_tail h (Some a) = Some (h1, Some a, n)" "lst h1 a xs"
    and s1: "same h h1 (set (a # xs @ [n]))" by blast
  have b1: "lst h1 b ws" using lst_frame [OF b s1] disj by blast
  have n1: "node h1 n" using lst_node [OF a, of n] node_same [OF _ s1] by simp
  from lst_init [OF n1] obtain h2 where h2: "init h1 n = Some h2" and s2: "same h1 h2 {n}" by blast
  have nb: "n \<notin> set (b # ws)" using disj by auto
  have na: "n \<notin> set (a # xs)" using lst_distinct [OF a] by auto
  have a2: "lst h2 a xs" using lst_frame [OF h1(2) s2] na by blast
  have b2: "lst h2 b ws" using lst_frame [OF b1 s2] nb by blast
  from lst_add_tail [OF b2 node_same [OF n1 s2] nb] obtain h3 where
    h3: "add_tail h2 b n = Some (h3, b, 0)" "lst h3 b (ws @ [n])"
    and s3: "same h2 h3 (set (n # b # ws))" by blast
  have "set (a # xs) \<inter> set (n # b # ws) = {}" using disj na by auto
  from lst_frame [OF a2 s3 this] have "lst h3 a xs" .
  moreover have "same h h3 (set (a # xs @ [n]) \<union> set (b # ws))"
    by (rule same_trans [OF s1 same_trans [OF s2 s3, of "set (n # b # ws)"]]) auto
  ultimately show ?thesis using h1 h2 h3 by blast
qed

end

text \<open>The functions of list.c meet the contract on heaps of nodes.\<close>

definition dlst :: "dheap \<Rightarrow> ptr \<Rightarrow> ptr list \<Rightarrow> bool" where
  "dlst h hdr xs \<longleftrightarrow> ring h (hdr # xs)"

definition dnode_at :: "dheap \<Rightarrow> ptr \<Rightarrow> bool" where
  "dnode_at h p \<longleftrightarrow> p \<noteq> NULL \<and> p \<in> dom h"

definition dsame :: "dheap \<Rightarrow> dheap \<Rightarrow> ptr set \<Rightarrow> bool" where
  "dsame h h' A \<longleftrightarrow> same_outside h h' A \<and> dom h' = dom h"

interpretation dl: header_list dlst dnode_at dsame INIT_DLIST_NODE AddDListTail PopDListTailNode DelDListNode
proof unfold_locales
  show "\<exists>h'. INIT_DLIST_NODE h p = Some h' \<and> dlst h' p [] \<and> dsame h h' {p}" if "dnode_at h p" for h p
    using INIT_DLIST_NODE_ring [of p h] that unfolding dnode_at_def dlst_def dsame_def by blast
  show "\<exists>h'. AddDListTail h hdr n = Some (h', hdr, 0) \<and> dlst h' hdr (xs @ [n]) \<and>
      dsame h h' (set (n # hdr # xs))"
    if "dlst h hdr xs" "dnode_at h n" "n \<notin> set (hdr # xs)" for h hdr xs n
    using AddDListTail_ring [of h hdr xs n] that unfolding dnode_at_def dlst_def dsame_def by blast
  show "\<exists>h'. PopDListTailNode h (Some hdr) = Some (h', Some hdr, n) \<and> dlst h' hdr xs \<and>
      dsame h h' (set (hdr # xs @ [n]))"
    if "dlst h hdr (xs @ [n])" for h hdr xs n
    using PopDListTailNode_ring [of h hdr xs n] that unfolding dlst_def dsame_def by blast
  show "\<exists>h'. DelDListNode h (Some hdr) n = Some (h', 1) \<and> dlst h' hdr (ys @ zs) \<and>
      dsame h h' (set (hdr # ys @ n # zs))"
    if "dlst h hdr (ys @ n # zs)" for h hdr ys n zs
    using DelDListNode_ring [of h hdr ys n zs hdr] ring_not_NULL [of h "hdr # ys @ n # zs" hdr] that
    unfolding dlst_def dsame_def by auto
  show "dlst h' hdr xs" if "dlst h hdr xs" "dsame h h' A" "set (hdr # xs) \<inter> A = {}" for h h' hdr xs A
    using ring_same_outside [of h "hdr # xs" h' A] that unfolding dlst_def dsame_def by blast
  show "distinct (hdr # xs)" if "dlst h hdr xs" for h hdr xs
    using that ring_distinct unfolding dlst_def by blast
  show "dnode_at h p" if "dlst h hdr xs" "p \<in> set (hdr # xs)" for h hdr xs p
    using that ring_dom [of h "hdr # xs"] ring_not_NULL [of h "hdr # xs" p]
    unfolding dlst_def dnode_at_def by blast
  show "dnode_at h' p" if "dnode_at h p" "dsame h h' A" for h h' p A
    using that unfolding dnode_at_def dsame_def by simp
  show "dsame h h'' C" if "dsame h h' A" "dsame h' h'' B" "A \<subseteq> C" "B \<subseteq> C" for h h' h'' A B C
    using that same_outside_trans [of h h' A h'' B C] unfolding dsame_def by simp
qed

section \<open>Properties\<close>

text \<open>Appending to a circular list. Adding a node to the tail of a well-formed ring
  succeeds, yields the ring with the node at its end (all forward and backward links
  consistent) and changes no other node of the heap.\<close>

theorem dlist_append_correct:
  assumes "ring h (x # xs)" and "n \<in> dom h" and "n \<notin> set (x # xs)" and "n \<noteq> NULL"
  shows "\<exists>h'. AddDListTail h x n = Some (h', x, 0) \<and> ring h' (x # xs @ [n]) \<and>
    same_outside h h' (set (n # x # xs))"
  using AddDListTail_ring [OF assms] by blast

theorem dlist_append_correct_witness:
  "\<exists>h'. AddDListTail [1 \<mapsto> \<lparr>d_prev = 1, d_next = 1\<rparr>, 2 \<mapsto> \<lparr>d_prev = 2, d_next = 2\<rparr>] 1 2 = Some (h', 1, 0) \<and>
     ring h' [1, 2]"
  using dlist_append_correct [of "[1 \<mapsto> \<lparr>d_prev = 1, d_next = 1\<rparr>, 2 \<mapsto> \<lparr>d_prev = 2, d_next = 2\<rparr>]" 1 "[]" 2]
  by (force simp: linked_def get_next_def get_prev_def simp del: domIff)

text \<open>Unlinking from a circular list. Deleting any node behind the header closes the
  ring over the gap, leaves the node linked to itself and changes no other node.\<close>

theorem dlist_delete_correct:
  assumes "ring h (x # ys @ n # zs)" and "lst \<noteq> NULL"
  shows "\<exists>h'. DelDListNode h (Some lst) n = Some (h', 1) \<and> ring h' (x # ys @ zs) \<and> ring h' [n] \<and>
    same_outside h h' (set (x # ys @ n # zs))"
  using DelDListNode_ring [OF assms] by blast

theorem dlist_delete_correct_witness:
  "\<exists>h'. DelDListNode [1 \<mapsto> \<lparr>d_prev = 2, d_next = 2\<rparr>, 2 \<mapsto> \<lparr>d_prev = 1, d_next = 1\<rparr>] (Some 1) 2 = Some (h', 1) \<and>
     ring h' [1] \<and> ring h' [2]"
  using dlist_delete_correct [of "[1 \<mapsto> \<lparr>d_prev = 2, d_next = 2\<rparr>, 2 \<mapsto> \<lparr>d_prev = 1, d_next = 1\<rparr>]" 1 "[]" 2 "[]" 1]
  by (force simp: linked_def get_next_def get_prev_def simp del: domIff)

end
