(* ===== verification/ResourceMgr.thy ===== *)
theory ResourceMgr
  imports DList
begin

text \<open>
  The resource owner of \<^verbatim>\<open>src/util/resourceManger/resourceMgr.c\<close>: the per-worker record of
  the buffers it holds. The pool keeps two lists with sentinel headers (\<^verbatim>\<open>DList\<close>): the
  entries in use and the free entries. \<open>resowner_inv\<close> ties the lists, the two counters and
  the entries together; every operation is shown to be safe under it, to keep it, and to
  implement the obvious operation on the sequence of owned (buffer, type) pairs. A buffer is
  named by its address.
\<close>

section \<open>State\<close>

record BufferResource =
  br_type :: int
  br_buffer :: ptr

record ResourceOnwerPool =
  ro_heap :: dheap
  ro_node :: "ptr \<rightharpoonup> BufferResource"
  freeList_hdr :: ptr
  freeNodeNum :: int
  header_hdr :: ptr
  onwerResourceNum :: int

section \<open>Operations\<close>

text \<open>
  \<^verbatim>\<open>CreateResourceOwnerPool\<close>: the pool structure holds the two list headers; \<open>f\<close> and
  \<open>u\<close> are the addresses of its members \<open>freeList\<close> and \<open>header\<close>.
\<close>

definition CreateResourceOwnerPool :: "ptr \<Rightarrow> ptr \<Rightarrow> ResourceOnwerPool option" where
  "CreateResourceOwnerPool f u = do {
     let z = \<lparr>d_prev = NULL, d_next = NULL\<rparr>;
     h \<leftarrow> INIT_DLIST_NODE [f \<mapsto> z, u \<mapsto> z] f;
     h \<leftarrow> INIT_DLIST_NODE h u;
     Some \<lparr>ro_heap = h, ro_node = Map.empty, freeList_hdr = f, freeNodeNum = 0,
           header_hdr = u, onwerResourceNum = 0\<rparr> }"

text \<open>
  \<^verbatim>\<open>GetResourceOwnerNode\<close>: a free entry if there is one, else a new one; \<open>fresh\<close> is the
  address the allocator hands out (a zeroed object).
\<close>

definition GetResourceOwnerNode :: "ptr \<Rightarrow> ResourceOnwerPool \<Rightarrow> (ptr \<times> ResourceOnwerPool) option" where
  "GetResourceOwnerNode fresh st =
     (if 0 < freeNodeNum st then do {
        (h, _, node) \<leftarrow> PopDListTailNode (ro_heap st) (Some (freeList_hdr st));
        Some (node, st\<lparr>ro_heap := h, freeNodeNum := freeNodeNum st - 1\<rparr>) }
      else
        Some (fresh, st\<lparr>ro_heap := (ro_heap st)(fresh \<mapsto> \<lparr>d_prev = NULL, d_next = NULL\<rparr>),
                        ro_node := (ro_node st)(fresh \<mapsto> \<lparr>br_type = 0, br_buffer = NULL\<rparr>)\<rparr>))"

definition AddResourceOwnerNodeToFreeList :: "ptr \<Rightarrow> ResourceOnwerPool \<Rightarrow> ResourceOnwerPool option" where
  "AddResourceOwnerNodeToFreeList node st = do {
     (h, _, _) \<leftarrow> AddDListTail (ro_heap st) (freeList_hdr st) node;
     k \<leftarrow> int_inc (freeNodeNum st);
     Some (st\<lparr>ro_heap := h, freeNodeNum := k\<rparr>) }"

definition PushResourceOwner ::
    "ptr \<Rightarrow> ptr \<Rightarrow> int \<Rightarrow> ResourceOnwerPool \<Rightarrow> (int \<times> ResourceOnwerPool) option" where
  "PushResourceOwner fresh buffer type st = do {
     (node, st) \<leftarrow> GetResourceOwnerNode fresh st;
     st \<leftarrow> (if node \<in> dom (ro_node st)
           then Some (st\<lparr>ro_node := (ro_node st)(node \<mapsto> \<lparr>br_type = type, br_buffer = buffer\<rparr>)\<rparr>)
           else None);
     h \<leftarrow> INIT_DLIST_NODE (ro_heap st) node;
     (h, _, _) \<leftarrow> AddDListTail h (header_hdr st) node;
     k \<leftarrow> int_inc (onwerResourceNum st);
     Some (0, st\<lparr>ro_heap := h, onwerResourceNum := k\<rparr>) }"

text \<open>
  The loop of \<^verbatim>\<open>ReleaseResourceOwner\<close>: from \<open>cur\<close> to the header, the first entry with the
  given buffer and type; \<open>Some None\<close> when the header is reached.
\<close>

partial_function (option) search_owner ::
    "dheap \<Rightarrow> (ptr \<rightharpoonup> BufferResource) \<Rightarrow> ptr \<Rightarrow> ptr \<Rightarrow> int \<Rightarrow> ptr \<Rightarrow> ptr option option" where
  "search_owner h nodes hdr buffer type cur =
     (if cur = hdr then Some None
      else do {
        nxt \<leftarrow> get_next h cur;
        n \<leftarrow> nodes cur;
        if br_buffer n = buffer \<and> br_type n = type then Some (Some cur)
        else search_owner h nodes hdr buffer type nxt })"

definition ReleaseResourceOwner ::
    "ptr \<Rightarrow> int \<Rightarrow> ResourceOnwerPool \<Rightarrow> (int \<times> ResourceOnwerPool) option" where
  "ReleaseResourceOwner buffer type st = do {
     cur \<leftarrow> get_next (ro_heap st) (header_hdr st);
     if onwerResourceNum st = 0 then Some (0, st)
     else do {
       found \<leftarrow> search_owner (ro_heap st) (ro_node st) (header_hdr st) buffer type cur;
       case found of
         None \<Rightarrow> Some (0, st)
       | Some node \<Rightarrow> do {
           (h, _) \<leftarrow> DelDListNode (ro_heap st) (Some (header_hdr st)) node;
           st \<leftarrow> AddResourceOwnerNodeToFreeList node
                  (st\<lparr>ro_heap := h, onwerResourceNum := onwerResourceNum st - 1\<rparr>);
           Some (1, st) } } }"

text \<open>\<^verbatim>\<open>PopResourceOwner\<close> stores a buffer through its argument only when it returns 1.\<close>

definition PopResourceOwner :: "ResourceOnwerPool \<Rightarrow> (int \<times> ptr option \<times> ResourceOnwerPool) option" where
  "PopResourceOwner st = do {
     cur \<leftarrow> get_next (ro_heap st) (header_hdr st);
     if onwerResourceNum st = 0 then Some (0, None, st)
     else if cur \<noteq> header_hdr st then do {
       (h, _) \<leftarrow> DelDListNode (ro_heap st) (Some (header_hdr st)) cur;
       n \<leftarrow> ro_node st cur;
       st \<leftarrow> AddResourceOwnerNodeToFreeList cur
              (st\<lparr>ro_heap := h, onwerResourceNum := onwerResourceNum st - 1\<rparr>);
       Some (1, Some (br_buffer n), st) }
     else Some (0, None, st) }"

section \<open>Invariant and abstraction\<close>

text \<open>The entries in use in list order, and what they own.\<close>

definition resowner_inv :: "ptr list \<Rightarrow> ptr list \<Rightarrow> ResourceOnwerPool \<Rightarrow> bool" where
  "resowner_inv us fs st \<longleftrightarrow>
     dlst (ro_heap st) (header_hdr st) us \<and> dlst (ro_heap st) (freeList_hdr st) fs \<and>
     set (header_hdr st # us) \<inter> set (freeList_hdr st # fs) = {} \<and>
     onwerResourceNum st = int (length us) \<and> freeNodeNum st = int (length fs) \<and>
     set us \<union> set fs \<subseteq> dom (ro_node st) \<and> finite (dom (ro_heap st))"

definition owned :: "ptr list \<Rightarrow> ResourceOnwerPool \<Rightarrow> (ptr \<times> int) list" where
  "owned us st = map (\<lambda>p. let n = the (ro_node st p) in (br_buffer n, br_type n)) us"

lemma dsame_finite: "dsame h h' A \<Longrightarrow> finite (dom h') = finite (dom h)"
  by (simp add: dsame_def)

text \<open>Searching the ring is searching the sequence.\<close>

lemma dlst_next:
  assumes "dlst h hdr (ys @ zs)" and "zs \<noteq> []"
  shows "get_next h (hd zs) = Some (hd (tl zs @ [hdr]))"
proof -
  from assms(2) obtain z zs' where zs: "zs = z # zs'" by (cases zs) auto
  show ?thesis
  proof (cases zs')
    case Nil
    then show ?thesis using ring_next_last [of h hdr "ys @ zs"] assms zs by (simp add: dlst_def)
  next
    case (Cons z' zs'')
    then show ?thesis using ring_next_mid [of h "hdr # ys" z z' zs''] assms zs by (simp add: dlst_def)
  qed
qed

lemma search_owner_list:
  assumes "dlst h hdr (ys @ zs)" and "set zs \<subseteq> dom nodes"
  shows "search_owner h nodes hdr b t (hd (zs @ [hdr])) =
    Some (List.find (\<lambda>p. br_buffer (the (nodes p)) = b \<and> br_type (the (nodes p)) = t) zs)"
  using assms
proof (induction zs arbitrary: ys)
  case Nil
  then show ?case by (simp add: search_owner.simps)
next
  case (Cons z zs)
  have z: "z \<noteq> hdr" using dl.lst_distinct [OF Cons.prems(1)] by auto
  from Cons.prems(2) obtain n where n: "nodes z = Some n" by auto
  have nxt: "get_next h z = Some (hd (zs @ [hdr]))"
    using dlst_next [OF Cons.prems(1)] by simp
  have "search_owner h nodes hdr b t (hd (zs @ [hdr])) =
    Some (List.find (\<lambda>p. br_buffer (the (nodes p)) = b \<and> br_type (the (nodes p)) = t) zs)"
    using Cons.IH [of "ys @ [z]"] Cons.prems by simp
  then show ?case using z n nxt by (subst search_owner.simps) simp
qed

lemma head_next: "dlst h hdr xs \<Longrightarrow> get_next h hdr = Some (hd (xs @ [hdr]))"
  using ring_next_last [of h hdr "[]"] ring_next_head [of h hdr] by (cases xs) (auto simp: dlst_def)

section \<open>Every operation keeps the invariant and implements its specification\<close>

lemma CreateResourceOwnerPool_inv:
  assumes "f \<noteq> u" and "f \<noteq> NULL" and "u \<noteq> NULL"
  shows "\<exists>st. CreateResourceOwnerPool f u = Some st \<and> resowner_inv [] [] st"
proof -
  let ?z = "\<lparr>d_prev = NULL, d_next = NULL\<rparr>"
  have "dnode_at [f \<mapsto> ?z, u \<mapsto> ?z] f" using assms by (simp add: dnode_at_def)
  from dl.lst_init [OF this] obtain h1 where h1: "INIT_DLIST_NODE [f \<mapsto> ?z, u \<mapsto> ?z] f = Some h1"
    "dlst h1 f []" and s1: "dsame [f \<mapsto> ?z, u \<mapsto> ?z] h1 {f}" by blast
  have "dnode_at h1 u"
    by (rule dl.node_same [OF _ s1]) (use assms in \<open>simp add: dnode_at_def\<close>)
  from dl.lst_init [OF this] obtain h2 where h2: "INIT_DLIST_NODE h1 u = Some h2" "dlst h2 u []"
    and s2: "dsame h1 h2 {u}" by blast
  have "dlst h2 f []" using dl.lst_frame [OF h1(2) s2] assms by auto
  then show ?thesis
    using h1 h2 assms dsame_finite [OF s1] dsame_finite [OF s2]
    by (simp add: CreateResourceOwnerPool_def resowner_inv_def)
qed

lemma AddResourceOwnerNodeToFreeList_heap:
  "AddDListTail (ro_heap st) (freeList_hdr st) node = Some (h, l, r) \<Longrightarrow> freeNodeNum st < 2 ^ 31 - 1 \<Longrightarrow>
   AddResourceOwnerNodeToFreeList node st =
     Some (st\<lparr>ro_heap := h, freeNodeNum := freeNodeNum st + 1\<rparr>)"
  by (simp add: AddResourceOwnerNodeToFreeList_def int_inc_small)

text \<open>Unlinking entry \<open>n\<close> of the entries in use and putting it on the free list.\<close>

lemma retire_entry:
  assumes inv: "resowner_inv (ys @ n # zs) fs st" and lim: "length (ys @ n # zs) + length fs < 2 ^ 31"
  shows "\<exists>h st'. DelDListNode (ro_heap st) (Some (header_hdr st)) n = Some (h, 1) \<and>
    AddResourceOwnerNodeToFreeList n
      (st\<lparr>ro_heap := h, onwerResourceNum := onwerResourceNum st - 1\<rparr>) = Some st' \<and>
    resowner_inv (ys @ zs) (fs @ [n]) st' \<and> owned (ys @ zs) st' = owned ys st @ owned zs st"
proof -
  have u: "dlst (ro_heap st) (header_hdr st) (ys @ n # zs)"
    and f: "dlst (ro_heap st) (freeList_hdr st) fs"
    and d: "set (header_hdr st # ys @ n # zs) \<inter> set (freeList_hdr st # fs) = {}"
    using inv by (auto simp: resowner_inv_def)
  from dl.move_node [OF u f d] obtain h1 h2 where
    del: "DelDListNode (ro_heap st) (Some (header_hdr st)) n = Some (h1, 1)"
    and add: "AddDListTail h1 (freeList_hdr st) n = Some (h2, freeList_hdr st, 0)"
    and l: "dlst h2 (header_hdr st) (ys @ zs)" "dlst h2 (freeList_hdr st) (fs @ [n])"
    and s: "dsame (ro_heap st) h2 (set (header_hdr st # ys @ n # zs) \<union> set (freeList_hdr st # fs))" by blast
  let ?st = "st\<lparr>onwerResourceNum := onwerResourceNum st - 1, ro_heap := h2,
    freeNodeNum := freeNodeNum st + 1\<rparr>"
  have "n \<notin> set (header_hdr st # ys @ zs)" using dl.lst_distinct [OF u] by auto
  then have "resowner_inv (ys @ zs) (fs @ [n]) ?st"
    using inv l d dsame_finite [OF s] by (auto simp: resowner_inv_def)
  moreover have "owned (ys @ zs) ?st = owned ys st @ owned zs st" by (simp add: owned_def)
  moreover have "freeNodeNum st < 2 ^ 31 - 1" using inv lim by (simp add: resowner_inv_def)
  ultimately show ?thesis
    using del add by (auto simp: AddResourceOwnerNodeToFreeList_heap)
qed

lemma PopResourceOwner_empty:
  assumes "resowner_inv [] fs st"
  shows "PopResourceOwner st = Some (0, None, st)"
  using assms head_next [of "ro_heap st" "header_hdr st" "[]"]
  by (simp add: PopResourceOwner_def resowner_inv_def)

lemma PopResourceOwner_Cons:
  assumes inv: "resowner_inv (n # us) fs st" and lim: "length (n # us) + length fs < 2 ^ 31"
  shows "\<exists>st'. PopResourceOwner st = Some (1, Some (fst (hd (owned (n # us) st))), st') \<and>
    resowner_inv us (fs @ [n]) st' \<and> owned us st' = tl (owned (n # us) st)"
proof -
  have nxt: "get_next (ro_heap st) (header_hdr st) = Some n" and ne: "n \<noteq> header_hdr st"
    using inv head_next [of "ro_heap st" "header_hdr st" "n # us"] dl.lst_distinct [of "ro_heap st" "header_hdr st" "n # us"]
    by (auto simp: resowner_inv_def)
  from inv obtain r where r: "ro_node st n = Some r" by (auto simp: resowner_inv_def)
  have cnt: "onwerResourceNum st \<noteq> 0" using inv by (simp add: resowner_inv_def)
  from retire_entry [of "[]" n us fs st] inv lim obtain h st' where
    "DelDListNode (ro_heap st) (Some (header_hdr st)) n = Some (h, 1)"
    "AddResourceOwnerNodeToFreeList n
      (st\<lparr>ro_heap := h, onwerResourceNum := onwerResourceNum st - 1\<rparr>) = Some st'"
    "resowner_inv us (fs @ [n]) st'" "owned us st' = owned us st" by (auto simp: owned_def)
  then show ?thesis
    using nxt ne r cnt by (simp add: PopResourceOwner_def owned_def Let_def)
qed

text \<open>\<^verbatim>\<open>ReleaseResourceOwner\<close> drops the first matching pair and reports whether there was one.\<close>

lemma ReleaseResourceOwner_spec:
  assumes inv: "resowner_inv us fs st" and lim: "length us + length fs < 2 ^ 31"
  shows "\<exists>st' us' fs'. ReleaseResourceOwner b t st =
      Some (if (b, t) \<in> set (owned us st) then 1 else 0, st') \<and>
    resowner_inv us' fs' st' \<and> owned us' st' = remove1 (b, t) (owned us st) \<and> length us' + length fs' = length us + length fs"
proof -
  let ?P = "\<lambda>p. br_buffer (the (ro_node st p)) = b \<and> br_type (the (ro_node st p)) = t"
  have u: "dlst (ro_heap st) (header_hdr st) ([] @ us)" and dom: "set us \<subseteq> dom (ro_node st)"
    using inv by (auto simp: resowner_inv_def)
  have nxt: "get_next (ro_heap st) (header_hdr st) = Some (hd (us @ [header_hdr st]))"
    using head_next u by simp
  have srch: "search_owner (ro_heap st) (ro_node st) (header_hdr st) b t (hd (us @ [header_hdr st]))
    = Some (List.find ?P us)"
    by (rule search_owner_list [OF u dom])
  have mem: "(b, t) \<in> set (owned xs st) \<longleftrightarrow> (\<exists>p\<in>set xs. ?P p)" for xs
    by (auto simp: owned_def Let_def image_iff)
  show ?thesis
  proof (cases "List.find ?P us")
    case None
    then have no: "(b, t) \<notin> set (owned us st)" using mem [of us] by (auto simp: find_None_iff)
    have "ReleaseResourceOwner b t st = Some (0, st)"
      using nxt srch None by (simp add: ReleaseResourceOwner_def)
    with no inv show ?thesis by (auto simp: remove1_idem)
  next
    case (Some n)
    from find_split [OF this] obtain ys zs where us: "us = ys @ n # zs"
      and before: "\<forall>y\<in>set ys. \<not> ?P y" and n: "?P n" by blast
    have yes: "(b, t) \<in> set (owned us st)" using mem [of us] us n by auto
    have "(b, t) \<notin> set (owned ys st)" using mem [of ys] before by auto
    moreover have "owned us st = owned ys st @ (b, t) # owned zs st"
      using n by (simp add: us owned_def Let_def)
    ultimately have rem: "remove1 (b, t) (owned us st) = owned ys st @ owned zs st"
      by (simp add: remove1_append)
    from retire_entry [of ys n zs fs st] inv us lim obtain h st' where
      del: "DelDListNode (ro_heap st) (Some (header_hdr st)) n = Some (h, 1)"
      "AddResourceOwnerNodeToFreeList n
        (st\<lparr>ro_heap := h, onwerResourceNum := onwerResourceNum st - 1\<rparr>) = Some st'"
      and new: "resowner_inv (ys @ zs) (fs @ [n]) st'"
      "owned (ys @ zs) st' = owned ys st @ owned zs st" by blast
    have "onwerResourceNum st \<noteq> 0" using inv us by (simp add: resowner_inv_def)
    then have "ReleaseResourceOwner b t st = Some (1, st')"
      using nxt srch Some del by (simp add: ReleaseResourceOwner_def)
    moreover have "length (ys @ zs) + length (fs @ [n]) = length us + length fs" by (simp add: us)
    ultimately show ?thesis using yes new rem by metis
  qed
qed

text \<open>\<^verbatim>\<open>PushResourceOwner\<close> appends a pair, reusing a free entry or a fresh object.\<close>

lemma PushResourceOwner_reuse:
  assumes inv: "resowner_inv us (fs @ [n]) st" and lim: "length us < 2 ^ 31 - 1"
  shows "\<exists>st'. PushResourceOwner fresh b t st = Some (0, st') \<and>
    resowner_inv (us @ [n]) fs st' \<and> owned (us @ [n]) st' = owned us st @ [(b, t)]"
proof -
  have u: "dlst (ro_heap st) (header_hdr st) us" and f: "dlst (ro_heap st) (freeList_hdr st) (fs @ [n])"
    and d: "set (freeList_hdr st # fs @ [n]) \<inter> set (header_hdr st # us) = {}"
    using inv by (auto simp: resowner_inv_def)
  from dl.recycle_node [OF f u d] obtain h1 h2 h3 where
    ops: "PopDListTailNode (ro_heap st) (Some (freeList_hdr st)) = Some (h1, Some (freeList_hdr st), n)"
    "INIT_DLIST_NODE h1 n = Some h2" "AddDListTail h2 (header_hdr st) n = Some (h3, header_hdr st, 0)"
    and l: "dlst h3 (freeList_hdr st) fs" "dlst h3 (header_hdr st) (us @ [n])"
    and s: "dsame (ro_heap st) h3 (set (freeList_hdr st # fs @ [n]) \<union> set (header_hdr st # us))" by blast
  let ?st = "st\<lparr>freeNodeNum := freeNodeNum st - 1,
    ro_node := (ro_node st)(n \<mapsto> \<lparr>br_type = t, br_buffer = b\<rparr>), ro_heap := h3,
    onwerResourceNum := onwerResourceNum st + 1\<rparr>"
  have n: "0 < freeNodeNum st" "n \<in> dom (ro_node st)" "n \<notin> set us"
    using inv d by (auto simp: resowner_inv_def)
  have nf: "n \<notin> set fs" "n \<noteq> freeList_hdr st" using dl.lst_distinct [OF f] by auto
  have "PushResourceOwner fresh b t st = Some (0, ?st)"
    using ops n lim inv by (auto simp: PushResourceOwner_def GetResourceOwnerNode_def int_inc_small resowner_inv_def)
  moreover have "resowner_inv (us @ [n]) fs ?st"
    using inv l d nf dsame_finite [OF s] by (auto simp: resowner_inv_def)
  moreover have "owned (us @ [n]) ?st = owned us st @ [(b, t)]"
    using n(3) by (auto simp: owned_def Let_def)
  ultimately show ?thesis by blast
qed

lemma PushResourceOwner_fresh:
  assumes inv: "resowner_inv us [] st" and fresh: "fresh \<notin> dom (ro_heap st)" "fresh \<noteq> NULL" and lim: "length us < 2 ^ 31 - 1"
  shows "\<exists>st'. PushResourceOwner fresh b t st = Some (0, st') \<and>
    resowner_inv (us @ [fresh]) [] st' \<and> owned (us @ [fresh]) st' = owned us st @ [(b, t)]"
proof -
  let ?h = "(ro_heap st)(fresh \<mapsto> \<lparr>d_prev = NULL, d_next = NULL\<rparr>)"
  have u: "dlst (ro_heap st) (header_hdr st) us" and f: "dlst (ro_heap st) (freeList_hdr st) []"
    and hf: "header_hdr st \<noteq> freeList_hdr st" "freeList_hdr st \<notin> set us"
    using inv by (auto simp: resowner_inv_def)
  have new: "fresh \<notin> set (header_hdr st # us)" "fresh \<noteq> freeList_hdr st"
    using ring_dom [OF u [unfolded dlst_def]] ring_dom [OF f [unfolded dlst_def]] fresh by auto
  have u0: "dlst ?h (header_hdr st) us" and f0: "dlst ?h (freeList_hdr st) []"
    using u f new unfolding dlst_def by (auto intro!: ring_frame [of "ro_heap st"] simp del: ring.simps)
  have n0: "dnode_at ?h fresh" using fresh by (simp add: dnode_at_def)
  from dl.lst_init [OF n0] obtain h2 where h2: "INIT_DLIST_NODE ?h fresh = Some h2"
    and s2: "dsame ?h h2 {fresh}" by blast
  have u2: "dlst h2 (header_hdr st) us" using dl.lst_frame [OF u0 s2] new by auto
  have f2: "dlst h2 (freeList_hdr st) []" using dl.lst_frame [OF f0 s2] new by auto
  from dl.lst_add_tail [OF u2 dl.node_same [OF n0 s2] new(1)] obtain h3 where
    h3: "AddDListTail h2 (header_hdr st) fresh = Some (h3, header_hdr st, 0)"
    "dlst h3 (header_hdr st) (us @ [fresh])" and s3: "dsame h2 h3 (set (fresh # header_hdr st # us))" by blast
  have f3: "dlst h3 (freeList_hdr st) []" using dl.lst_frame [OF f2 s3] new hf by auto
  let ?st = "st\<lparr>ro_node := (ro_node st)(fresh \<mapsto> \<lparr>br_type = t, br_buffer = b\<rparr>), ro_heap := h3,
    onwerResourceNum := onwerResourceNum st + 1\<rparr>"
  have "PushResourceOwner fresh b t st = Some (0, ?st)"
    using h2 h3 inv lim by (simp add: PushResourceOwner_def GetResourceOwnerNode_def resowner_inv_def int_inc_small)
  moreover have "resowner_inv (us @ [fresh]) [] ?st"
    using inv h3(2) f3 new hf dsame_finite [OF s2] dsame_finite [OF s3] by (auto simp: resowner_inv_def)
  moreover have "owned (us @ [fresh]) ?st = owned us st @ [(b, t)]"
    using new by (auto simp: owned_def Let_def)
  ultimately show ?thesis by blast
qed

lemma PushResourceOwner_spec:
  assumes inv: "resowner_inv us fs st" and fresh: "fresh \<notin> dom (ro_heap st)" "fresh \<noteq> NULL" and lim: "length us < 2 ^ 31 - 1"
  shows "\<exists>st' us' fs'. PushResourceOwner fresh b t st = Some (0, st') \<and>
    resowner_inv us' fs' st' \<and> owned us' st' = owned us st @ [(b, t)] \<and> length us' + length fs' \<le> Suc (length us + length fs)"
proof (cases fs rule: rev_cases)
  case Nil
  with PushResourceOwner_fresh [of us st fresh b t] assms obtain st' where "PushResourceOwner fresh b t st = Some (0, st')"
    "resowner_inv (us @ [fresh]) [] st'" "owned (us @ [fresh]) st' = owned us st @ [(b, t)]" by blast
  moreover have "length (us @ [fresh]) + length [] \<le> Suc (length us + length fs)" by simp
  ultimately show ?thesis by blast
next
  case (snoc fs' n)
  with PushResourceOwner_reuse [of us fs' n st fresh b t] inv lim obtain st' where "PushResourceOwner fresh b t st = Some (0, st')"
    "resowner_inv (us @ [n]) fs' st'" "owned (us @ [n]) st' = owned us st @ [(b, t)]" by blast
  moreover have "length (us @ [n]) + length fs' \<le> Suc (length us + length fs)" by (simp add: snoc)
  ultimately show ?thesis by blast
qed

section \<open>Runs of the resource owner\<close>

text \<open>
  A worker's session as a sequence of calls, the outcome of each call, and the abstract
  machine on the sequence of owned pairs. \<open>alloc\<close> is the allocator: the address of the
  next fresh object.
\<close>

datatype owner_op = OpPush ptr int | OpRelease ptr int | OpPop

datatype owner_out = OutRet int | OutPop "ptr option"

definition owner_exec ::
    "(ResourceOnwerPool \<Rightarrow> ptr) \<Rightarrow> owner_op \<Rightarrow> ResourceOnwerPool \<Rightarrow> (owner_out \<times> ResourceOnwerPool) option" where
  "owner_exec alloc op st =
     (case op of
        OpPush b t \<Rightarrow> do { (r, st') \<leftarrow> PushResourceOwner (alloc st) b t st; Some (OutRet r, st') }
      | OpRelease b t \<Rightarrow> do { (r, st') \<leftarrow> ReleaseResourceOwner b t st; Some (OutRet r, st') }
      | OpPop \<Rightarrow> do { (r, b, st') \<leftarrow> PopResourceOwner st; Some (OutPop b, st') })"

fun owner_run ::
    "(ResourceOnwerPool \<Rightarrow> ptr) \<Rightarrow> owner_op list \<Rightarrow> ResourceOnwerPool \<Rightarrow> (owner_out list \<times> ResourceOnwerPool) option" where
  "owner_run alloc [] st = Some ([], st)"
| "owner_run alloc (op # ops) st = do {
     (out, st) \<leftarrow> owner_exec alloc op st;
     (outs, st) \<leftarrow> owner_run alloc ops st;
     Some (out # outs, st) }"

fun owner_spec :: "owner_op \<Rightarrow> (ptr \<times> int) list \<Rightarrow> owner_out \<times> (ptr \<times> int) list" where
  "owner_spec (OpPush b t) xs = (OutRet 0, xs @ [(b, t)])"
| "owner_spec (OpRelease b t) xs = (OutRet (if (b, t) \<in> set xs then 1 else 0), remove1 (b, t) xs)"
| "owner_spec OpPop [] = (OutPop None, [])"
| "owner_spec OpPop (x # xs) = (OutPop (Some (fst x)), xs)"

fun owner_spec_run :: "owner_op list \<Rightarrow> (ptr \<times> int) list \<Rightarrow> owner_out list \<times> (ptr \<times> int) list" where
  "owner_spec_run [] xs = ([], xs)"
| "owner_spec_run (op # ops) xs =
     (let (out, xs) = owner_spec op xs; (outs, xs) = owner_spec_run ops xs in (out # outs, xs))"

definition fresh_alloc :: "(ResourceOnwerPool \<Rightarrow> ptr) \<Rightarrow> bool" where
  "fresh_alloc alloc \<longleftrightarrow>
     (\<forall>st. finite (dom (ro_heap st)) \<longrightarrow> alloc st \<notin> dom (ro_heap st) \<and> alloc st \<noteq> NULL)"

text \<open>The pool has the pairs \<open>xs\<close> and at most \<open>k\<close> entries.\<close>

definition owner_rep :: "nat \<Rightarrow> ResourceOnwerPool \<Rightarrow> (ptr \<times> int) list \<Rightarrow> bool" where
  "owner_rep k st xs \<longleftrightarrow> (\<exists>us fs. resowner_inv us fs st \<and> owned us st = xs \<and> length us + length fs \<le> k)"

lemma owner_repI: "resowner_inv us fs st \<Longrightarrow> owned us st = xs \<Longrightarrow> length us + length fs \<le> k \<Longrightarrow> owner_rep k st xs"
  by (auto simp: owner_rep_def)

lemma owner_rep_num:
  assumes "owner_rep k st xs"
  shows "onwerResourceNum st = int (length xs)"
proof -
  from assms obtain us fs where "resowner_inv us fs st" "length us = length xs"
    unfolding owner_rep_def owned_def by (metis length_map)
  then show ?thesis by (simp add: resowner_inv_def)
qed

lemma owner_exec_refines:
  assumes rep: "owner_rep k st xs" and al: "fresh_alloc alloc" and lim: "k < 2 ^ 31 - 1"
  shows "\<exists>st'. owner_exec alloc op st = Some (fst (owner_spec op xs), st') \<and>
    owner_rep (Suc k) st' (snd (owner_spec op xs))"
proof -
  from rep obtain us fs where inv: "resowner_inv us fs st" and xs: "xs = owned us st" and k: "length us + length fs \<le> k"
    by (auto simp: owner_rep_def)
  show ?thesis
  proof (cases op)
    case (OpPush b t)
    have "alloc st \<notin> dom (ro_heap st)" "alloc st \<noteq> NULL"
      using inv al by (auto simp: resowner_inv_def fresh_alloc_def)
    from PushResourceOwner_spec [OF inv this, of b t] k lim obtain st' us' fs' where "PushResourceOwner (alloc st) b t st = Some (0, st')"
      "resowner_inv us' fs' st'" "owned us' st' = owned us st @ [(b, t)]" "length us' + length fs' \<le> Suc k" by fastforce
    then show ?thesis using OpPush xs by (auto simp: owner_exec_def intro: owner_repI)
  next
    case (OpRelease b t)
    from ReleaseResourceOwner_spec [OF inv, of b t] k lim obtain st' us' fs' where
      "ReleaseResourceOwner b t st = Some (if (b, t) \<in> set (owned us st) then 1 else 0, st')"
      "resowner_inv us' fs' st'" "owned us' st' = remove1 (b, t) (owned us st)" "length us' + length fs' \<le> Suc k" by fastforce
    then show ?thesis using OpRelease xs by (auto simp: owner_exec_def intro: owner_repI)
  next
    case OpPop
    show ?thesis
    proof (cases us)
      case Nil
      then show ?thesis using inv OpPop xs k PopResourceOwner_empty [of fs st]
        by (auto simp: owner_exec_def owned_def intro: owner_repI)
    next
      case (Cons n us')
      from PopResourceOwner_Cons [of n us' fs st] inv Cons k lim obtain st' where
        "PopResourceOwner st = Some (1, Some (fst (hd (owned (n # us') st))), st')"
        "resowner_inv us' (fs @ [n]) st'" "owned us' st' = tl (owned (n # us') st)" by fastforce
      then show ?thesis using OpPop Cons xs k
        by (auto simp: owner_exec_def owned_def Let_def intro!: owner_repI)
    qed
  qed
qed

lemma owner_run_refines:
  assumes "owner_rep k st xs" and "fresh_alloc alloc" and "k + length ops < 2 ^ 31"
  shows "\<exists>st' k'. owner_run alloc ops st = Some (fst (owner_spec_run ops xs), st') \<and>
    owner_rep k' st' (snd (owner_spec_run ops xs))"
  using assms(1,3)
proof (induction ops arbitrary: xs st k)
  case (Cons op ops)
  have "k < 2 ^ 31 - 1" "Suc k + length ops < 2 ^ 31" using Cons.prems(2) by simp_all
  then obtain st1 where
    1: "owner_exec alloc op st = Some (fst (owner_spec op xs), st1)" "owner_rep (Suc k) st1 (snd (owner_spec op xs))"
    using owner_exec_refines [OF Cons.prems(1) assms(2), of op] by blast
  from Cons.IH [OF 1(2) \<open>Suc k + length ops < 2 ^ 31\<close>] 1(1) show ?case by (auto simp: Let_def split: prod.splits)
qed (simp, blast)

text \<open>C17: the resource owner implements a sequence of (buffer, type) pairs. Every
  sequence of fewer than \<open>2 ^ 31\<close> push, release and pop calls on a new pool runs without an access through a bad
  pointer and returns what the abstract sequence returns: push appends, release removes the
  first matching pair and reports whether there was one, pop takes the oldest pair; and the
  entry counter of the pool is the length of the sequence.\<close>

theorem resource_owner_refines_sequence:
  assumes "f \<noteq> u" and "f \<noteq> NULL" and "u \<noteq> NULL" and "fresh_alloc alloc" and "length ops < 2 ^ 31"
  shows "\<exists>st st'. CreateResourceOwnerPool f u = Some st \<and>
    owner_run alloc ops st = Some (fst (owner_spec_run ops []), st') \<and>
    onwerResourceNum st' = int (length (snd (owner_spec_run ops [])))"
proof -
  obtain st where st: "CreateResourceOwnerPool f u = Some st" "resowner_inv [] [] st"
    using CreateResourceOwnerPool_inv [OF assms(1-3)] by blast
  then have "owner_rep 0 st []" by (auto simp: owned_def intro: owner_repI)
  from owner_run_refines [OF this assms(4), of ops] show ?thesis
    using st owner_rep_num assms(5) by fastforce
qed

theorem resource_owner_refines_sequence_witness:
  "\<exists>st st'. CreateResourceOwnerPool 1 2 = Some st \<and>
    owner_run (\<lambda>st. Suc (Max (insert 0 (dom (ro_heap st))))) [OpPush 7 1, OpPush 8 1, OpRelease 8 1, OpPop, OpPop] st =
      Some ([OutRet 0, OutRet 0, OutRet 1, OutPop (Some 7), OutPop None], st') \<and> onwerResourceNum st' = 0"
proof -
  have "fresh_alloc (\<lambda>st. Suc (Max (insert 0 (dom (ro_heap st)))))"
    using Suc_Max_fresh by (simp add: fresh_alloc_def del: domIff)
  from resource_owner_refines_sequence [OF _ _ _ this, of 1 2 "[OpPush 7 1, OpPush 8 1, OpRelease 8 1, OpPop, OpPop]"]
  show ?thesis by simp
qed

end
