(* ===== verification/Locks.thy ===== *)
theory Locks
  imports Toadb_Prelude
begin

text \<open>
  The locks of \<^verbatim>\<open>src/util/ipc/lock\<close>: the atomic operations (\<^verbatim>\<open>atom.c\<close>), the spin lock
  (\<^verbatim>\<open>spinlock.c\<close>), the reader/writer lock (\<^verbatim>\<open>rwlock.c\<close>) and the per-worker table of held
  locks (\<^verbatim>\<open>locallock.c\<close>) through which all reader/writer locks of the server are taken.

  A pthread reader/writer lock is its state (is it held by a writer, by how many readers); a
  call that would block has no result, and an unlock does not ask who holds the lock. An increment of a C int that overflows has no result.
  The lock state of a worker is the shared store of
  locks together with its thread-local table; lock addresses are of any type \<open>'l\<close>.
\<close>

section \<open>Atomic operations\<close>

text \<open>The gcc builtins act on one cell; each function returns its result and the new cell.\<close>

definition atomic_compare_exchange :: "u32 \<Rightarrow> u32 \<Rightarrow> u32 \<Rightarrow> bool \<times> u32 \<times> u32" where
  "atomic_compare_exchange cell expected newval =
     (let current = cell; cell = (if current = expected then newval else cell)
      in (current = expected, cell, current))"

definition atomic_compare_exchange64 :: "u64 \<Rightarrow> u64 \<Rightarrow> u64 \<Rightarrow> bool \<times> u64 \<times> u64" where
  "atomic_compare_exchange64 cell expected newval =
     (let current = cell; cell = (if current = expected then newval else cell)
      in (current = expected, cell, current))"

definition atomic_fetch_add :: "u32 \<Rightarrow> u32 \<Rightarrow> u32 \<times> u32" where
  "atomic_fetch_add cell n = (cell, cell + n)"

definition atomic_fetch_sub :: "u32 \<Rightarrow> u32 \<Rightarrow> u32 \<times> u32" where
  "atomic_fetch_sub cell n = (cell, cell - n)"

definition atomic_fetch_add64 :: "u64 \<Rightarrow> u64 \<Rightarrow> u64 \<times> u64" where
  "atomic_fetch_add64 cell n = (cell, cell + n)"

definition atomic_fetch_sub64 :: "u64 \<Rightarrow> u64 \<Rightarrow> u64 \<times> u64" where
  "atomic_fetch_sub64 cell n = (cell, cell - n)"

section \<open>The spin lock\<close>

definition SPIN_DELAY_MAX :: nat where
  "SPIN_DELAY_MAX = 10000"

text \<open>
  \<^verbatim>\<open>SpinLockAquire\<close> against an arbitrary environment: \<open>busy k\<close> is the outcome of its
  \<open>k\<close>-th test \<^verbatim>\<open>TAS_SPIN\<close> (nonzero means that the lock was taken by somebody else). The
  result is whether the test-and-set succeeded, that is whether the caller owns the lock when
  the function returns, and the returned delay count. The two counters bound the loop.
\<close>

function spin_loop :: "nat \<Rightarrow> (nat \<Rightarrow> bool) \<Rightarrow> nat \<Rightarrow> nat \<Rightarrow> nat \<Rightarrow> bool \<times> nat" where
  "spin_loop limit busy k delays cur_delays =
     (if \<not> busy k then (True, delays)
      else let cur_delays = cur_delays + 1 in
        if cur_delays > limit then
          (let delays = delays + 1 in
             if delays > limit then (False, delays)
             else spin_loop limit busy (k + 1) delays 0)
        else spin_loop limit busy (k + 1) delays cur_delays)"
  by pat_completeness auto
termination
  by (relation "measures [\<lambda>(limit, busy, k, delays, cur). limit - delays,
                          \<lambda>(limit, busy, k, delays, cur). limit - cur]") auto

declare spin_loop.simps [simp del]

definition SpinLockAquire :: "(nat \<Rightarrow> bool) \<Rightarrow> bool \<times> nat" where
  "SpinLockAquire busy = spin_loop SPIN_DELAY_MAX busy 0 0 0"

text \<open>
  The loop ends with the lock exactly when one of the first \<open>(limit + 1) * (limit + 1)\<close>
  tests finds it free.
\<close>

lemma busy_step: "busy k \<Longrightarrow> (\<exists>j<Suc n. \<not> busy (k + j)) = (\<exists>j<n. \<not> busy (k + 1 + j))"
  by (simp add: Ex_less_Suc2)

lemma spin_loop_Suc_cur:
  "busy k \<Longrightarrow> cur < limit \<Longrightarrow> spin_loop limit busy k delays cur = spin_loop limit busy (k + 1) delays (cur + 1)"
  by (subst spin_loop.simps) (simp add: Let_def)

lemma spin_loop_Suc_delays:
  "busy k \<Longrightarrow> delays < limit \<Longrightarrow> spin_loop limit busy k delays limit = spin_loop limit busy (k + 1) (delays + 1) 0"
  by (subst spin_loop.simps) (simp add: Let_def)

lemma spin_loop_last: "busy k \<Longrightarrow> spin_loop limit busy k limit limit = (False, limit + 1)"
  by (subst spin_loop.simps) (simp add: Let_def)

lemma spin_loop_free: "\<not> busy k \<Longrightarrow> spin_loop limit busy k delays cur = (True, delays)"
  by (subst spin_loop.simps) simp

lemma spin_loop_iff:
  "cur \<le> limit \<Longrightarrow> delays \<le> limit \<Longrightarrow>
   n = (limit - delays) * (limit + 1) + (limit + 1 - cur) \<Longrightarrow>
   fst (spin_loop limit busy k delays cur) \<longleftrightarrow> (\<exists>j<n. \<not> busy (k + j))"
proof (induction n arbitrary: k delays cur)
  case (Suc n)
  show ?case
  proof (cases "busy k")
    case False
    then show ?thesis by (auto simp: spin_loop_free intro!: exI [of _ 0])
  next
    case busy: True
    consider "cur < limit" | "cur = limit" "delays < limit" | "cur = limit" "delays = limit"
      using Suc.prems by linarith
    then show ?thesis
    proof cases
      case 1
      then have "n = (limit - delays) * (limit + 1) + (limit + 1 - (cur + 1))" using Suc.prems by simp
      then show ?thesis
        using Suc.IH [of "cur + 1" delays "k + 1"] 1 Suc.prems(2)
          busy_step [where busy = busy and k = k and n = n] busy
        by (simp add: spin_loop_Suc_cur)
    next
      case 2
      have "limit - delays = Suc (limit - (delays + 1))" using 2 by simp
      then have "(limit - delays) * (limit + 1) = (limit + 1) + (limit - (delays + 1)) * (limit + 1)"
        by (metis mult_Suc)
      then have "n = (limit - (delays + 1)) * (limit + 1) + (limit + 1 - 0)"
        using Suc.prems(3) 2(1) by linarith
      then show ?thesis
        using Suc.IH [of 0 "delays + 1" "k + 1"] 2
          busy_step [where busy = busy and k = k and n = n] busy
        by (simp add: spin_loop_Suc_delays)
    next
      case 3
      then show ?thesis using Suc.prems busy by (simp add: spin_loop_last)
    qed
  qed
qed simp

section \<open>Reader/writer locks\<close>

datatype RWLockMode = RWLock_NULL | RWLock_READ | RWLock_WRITE

datatype LockBranch = LB_BUFFER_BLOCKS | LB_BUFFER_POOL | LB_RELCACHE_TABLES
  | LB_RELCACHE_TBLS_EXTENSION | LB_DICTIONARY_INFO | LB_SMGR_INFO | LB_VFS_INFO

text \<open>
  The part of \<^verbatim>\<open>pthread_rwlock_t\<close> the code relies on, after POSIX: the try calls return
  \<open>EBUSY\<close> where the others block (no result), unlocking a lock nobody holds is undefined
  (no result).
\<close>

record pthread_rwlock =
  pw_writer :: bool
  pw_readers :: nat

abbreviation (input) EBUSY :: int where "EBUSY \<equiv> 16"
abbreviation (input) EAGAIN :: int where "EAGAIN \<equiv> 11"

definition pthread_rwlock_rdlock :: "pthread_rwlock \<Rightarrow> (int \<times> pthread_rwlock) option" where
  "pthread_rwlock_rdlock p =
     (if pw_writer p then None else Some (0, p\<lparr>pw_readers := pw_readers p + 1\<rparr>))"

definition pthread_rwlock_wrlock :: "pthread_rwlock \<Rightarrow> (int \<times> pthread_rwlock) option" where
  "pthread_rwlock_wrlock p =
     (if pw_writer p \<or> 0 < pw_readers p then None else Some (0, p\<lparr>pw_writer := True\<rparr>))"

definition pthread_rwlock_tryrdlock :: "pthread_rwlock \<Rightarrow> int \<times> pthread_rwlock" where
  "pthread_rwlock_tryrdlock p =
     (if pw_writer p then (EBUSY, p) else (0, p\<lparr>pw_readers := pw_readers p + 1\<rparr>))"

definition pthread_rwlock_trywrlock :: "pthread_rwlock \<Rightarrow> int \<times> pthread_rwlock" where
  "pthread_rwlock_trywrlock p =
     (if pw_writer p \<or> 0 < pw_readers p then (EBUSY, p) else (0, p\<lparr>pw_writer := True\<rparr>))"

definition pthread_rwlock_unlock :: "pthread_rwlock \<Rightarrow> (int \<times> pthread_rwlock) option" where
  "pthread_rwlock_unlock p =
     (if pw_writer p then Some (0, p\<lparr>pw_writer := False\<rparr>)
      else if 0 < pw_readers p then Some (0, p\<lparr>pw_readers := pw_readers p - 1\<rparr>)
      else None)"

record RWLockInfo =
  rwlock :: pthread_rwlock
  lockMode :: RWLockMode
  branch :: LockBranch
  rlockCnt :: u32

definition InitRWLock :: "LockBranch \<Rightarrow> RWLockInfo" where
  "InitRWLock br = \<lparr>rwlock = \<lparr>pw_writer = False, pw_readers = 0\<rparr>, lockMode = RWLock_NULL,
     branch = br, rlockCnt = 0\<rparr>"

text \<open>The bookkeeping after a pthread call: the mode is recorded, read locks are counted.\<close>

definition note_mode :: "RWLockMode \<Rightarrow> RWLockInfo \<Rightarrow> RWLockInfo" where
  "note_mode mode lk =
     (let lk = (if lockMode lk \<noteq> mode then lk\<lparr>lockMode := mode\<rparr> else lk)
      in if lockMode lk = RWLock_READ
         then lk\<lparr>rlockCnt := snd (atomic_fetch_add (rlockCnt lk) 1)\<rparr> else lk)"

definition TryAcquireRWLock :: "RWLockMode \<Rightarrow> RWLockInfo \<Rightarrow> int \<times> RWLockInfo" where
  "TryAcquireRWLock mode lk =
     (if mode \<noteq> RWLock_READ \<and> mode \<noteq> RWLock_WRITE then (-1, lk)
      else let (ret, p) = (if mode = RWLock_READ then pthread_rwlock_tryrdlock (rwlock lk)
                           else pthread_rwlock_trywrlock (rwlock lk));
               lk = note_mode mode (lk\<lparr>rwlock := p\<rparr>)
           in if ret = 0 then (1, lk) else if ret = EBUSY then (0, lk) else (-1, lk))"

partial_function (option) AcquireRWLock :: "RWLockMode \<Rightarrow> RWLockInfo \<Rightarrow> (int \<times> RWLockInfo) option" where
  "AcquireRWLock mode lk =
     (if mode \<noteq> RWLock_READ \<and> mode \<noteq> RWLock_WRITE then Some (-1, lk)
      else do {
        (ret, p) \<leftarrow> (if mode = RWLock_READ then pthread_rwlock_rdlock (rwlock lk)
                     else pthread_rwlock_wrlock (rwlock lk));
        if ret \<noteq> 0 then
          (if ret = EAGAIN then AcquireRWLock mode (lk\<lparr>rwlock := p\<rparr>)
           else Some (-1, lk\<lparr>rwlock := p\<rparr>))
        else Some (0, note_mode mode (lk\<lparr>rwlock := p\<rparr>)) })"

definition ReleaseRWLock :: "RWLockMode \<Rightarrow> RWLockInfo \<Rightarrow> (int \<times> RWLockInfo) option" where
  "ReleaseRWLock mode lk = do {
     let lk = (if lockMode lk = RWLock_WRITE then lk\<lparr>lockMode := RWLock_NULL\<rparr>
               else let (old, c) = atomic_fetch_sub (rlockCnt lk) 1; lk = lk\<lparr>rlockCnt := c\<rparr>
                    in if old = 0 then lk\<lparr>lockMode := RWLock_NULL\<rparr> else lk);
     (ret, p) \<leftarrow> pthread_rwlock_unlock (rwlock lk);
     Some (if ret \<noteq> 0 then -1 else 0, lk\<lparr>rwlock := p\<rparr>) }"

section \<open>The local lock table\<close>

definition MAX_LOCAL_LOCK_NUM :: nat where
  "MAX_LOCAL_LOCK_NUM = 8"

record 'l LocalLockInfo =
  ll_lock :: "'l option"
  ll_mode :: RWLockMode
  ll_cnt :: int

text \<open>A worker sees the shared store of locks and its own table.\<close>

record 'l lockst =
  ls_store :: "'l \<Rightarrow> RWLockInfo"
  ls_table :: "'l LocalLockInfo list"
  ls_used :: nat

abbreviation empty_entry :: "'l LocalLockInfo" where
  "empty_entry \<equiv> \<lparr>ll_lock = None, ll_mode = RWLock_NULL, ll_cnt = 0\<rparr>"

definition init_table :: "'l LocalLockInfo list" where
  "init_table = replicate MAX_LOCAL_LOCK_NUM empty_entry"

function search_from :: "'l lockst \<Rightarrow> 'l option \<Rightarrow> nat \<Rightarrow> int" where
  "search_from s l pos =
     (if pos < ls_used s then
        if l = ll_lock (ls_table s ! pos) then int pos else search_from s l (pos + 1)
      else -1)"
  by pat_completeness auto
termination
  by (relation "measure (\<lambda>(s, l, pos). ls_used s - pos)") auto

declare search_from.simps [simp del]

definition SearchLocalLockTable :: "'l option \<Rightarrow> 'l lockst \<Rightarrow> int" where
  "SearchLocalLockTable l s = search_from s l 0"

text \<open>\<^verbatim>\<open>RemoveLocalLock\<close>: the entries behind \<open>rmIndex\<close> move one place down.\<close>

function shift_entries :: "'l LocalLockInfo list \<Rightarrow> nat \<Rightarrow> nat \<Rightarrow> 'l LocalLockInfo list" where
  "shift_entries t used pos =
     (if pos + 1 < used then shift_entries (t[pos := t ! (pos + 1)]) used (pos + 1) else t)"
  by pat_completeness auto
termination
  by (relation "measure (\<lambda>(t, used, pos). used - pos)") auto

declare shift_entries.simps [simp del]

definition RemoveLocalLock :: "nat \<Rightarrow> 'l lockst \<Rightarrow> 'l lockst" where
  "RemoveLocalLock rm s =
     s\<lparr>ls_table := shift_entries (ls_table s) (ls_used s) rm, ls_used := ls_used s - 1\<rparr>"

definition new_entry :: "'l \<Rightarrow> RWLockMode \<Rightarrow> 'l lockst \<Rightarrow> 'l lockst" where
  "new_entry l mode s =
     s\<lparr>ls_table := (ls_table s)[ls_used s := \<lparr>ll_lock = Some l, ll_mode = mode, ll_cnt = 1\<rparr>],
       ls_used := ls_used s + 1\<rparr>"

definition bump_entry :: "nat \<Rightarrow> int \<Rightarrow> 'l lockst \<Rightarrow> 'l lockst" where
  "bump_entry i d s =
     s\<lparr>ls_table := (ls_table s)[i := (ls_table s ! i)\<lparr>ll_cnt := ll_cnt (ls_table s ! i) + d\<rparr>]\<rparr>"

definition AcquireRWLockLocal :: "'l option \<Rightarrow> RWLockMode \<Rightarrow> 'l lockst \<Rightarrow> (int \<times> 'l lockst) option" where
  "AcquireRWLockLocal lock mode s =
     (case lock of
        None \<Rightarrow> Some (-1, s)
      | Some l \<Rightarrow>
          if ls_used s \<ge> MAX_LOCAL_LOCK_NUM then Some (-1, s)
          else let ret = SearchLocalLockTable lock s in
            if ret \<ge> 0 then
              (if ll_mode (ls_table s ! nat ret) = mode
               then do { _ \<leftarrow> int_inc (ll_cnt (ls_table s ! nat ret)); Some (0, bump_entry (nat ret) 1 s) } else Some (-2, s))
            else do {
              (r, lk) \<leftarrow> AcquireRWLock mode (ls_store s l);
              let s = s\<lparr>ls_store := (ls_store s)(l := lk)\<rparr>;
              Some (r, if r = 0 then new_entry l mode s else s) })"

definition TryAcquireRWLockLocal :: "'l option \<Rightarrow> RWLockMode \<Rightarrow> 'l lockst \<Rightarrow> (int \<times> 'l lockst) option" where
  "TryAcquireRWLockLocal lock mode s =
     (case lock of
        None \<Rightarrow> Some (-1, s)
      | Some l \<Rightarrow>
          if ls_used s \<ge> MAX_LOCAL_LOCK_NUM then Some (-1, s)
          else let ret = SearchLocalLockTable lock s in
            if ret \<ge> 0 then
              (if ll_mode (ls_table s ! nat ret) = mode
               then do { _ \<leftarrow> int_inc (ll_cnt (ls_table s ! nat ret)); Some (1, bump_entry (nat ret) 1 s) } else Some (-2, s))
            else let (r, lk) = TryAcquireRWLock mode (ls_store s l);
                     s = s\<lparr>ls_store := (ls_store s)(l := lk)\<rparr>
                 in Some (r, if r > 0 then new_entry l mode s else s))"

definition ReleaseRWLockLocal :: "'l option \<Rightarrow> RWLockMode \<Rightarrow> 'l lockst \<Rightarrow> (int \<times> 'l lockst) option" where
  "ReleaseRWLockLocal lock mode s =
     (case lock of
        None \<Rightarrow> Some (-1, s)
      | Some l \<Rightarrow>
          if ls_used s \<le> 0 then Some (-1, s)
          else let rm = SearchLocalLockTable lock s in
            if rm \<ge> 0 \<and> ll_cnt (ls_table s ! nat rm) > 1 then Some (0, bump_entry (nat rm) (-1) s)
            else do {
              (ret, lk) \<leftarrow> ReleaseRWLock mode (ls_store s l);
              let s = s\<lparr>ls_store := (ls_store s)(l := lk)\<rparr>;
              Some (ret, if ret = 0 \<and> rm \<ge> 0 then RemoveLocalLock (nat rm) s else s) })"

text \<open>
  \<^verbatim>\<open>InitializeLocalLock\<close> (\<^verbatim>\<open>ReleaseLocalLock\<close>) walks the table and releases every lock;
  \<open>localRWlockUsedPos\<close> is re-read by the loop condition.
\<close>

partial_function (option) release_locks_from :: "nat \<Rightarrow> 'l lockst \<Rightarrow> 'l lockst option" where
  "release_locks_from pos s =
     (if pos < ls_used s then do {
        s \<leftarrow> (if ll_lock (ls_table s ! pos) \<noteq> None then do {
               (_, s) \<leftarrow> ReleaseRWLockLocal (ll_lock (ls_table s ! pos)) RWLock_NULL s;
               Some (s\<lparr>ls_table := (ls_table s)[pos := empty_entry]\<rparr>) }
             else Some s);
        release_locks_from (pos + 1) s }
      else Some s)"

definition ReleaseLocalLock :: "'l lockst \<Rightarrow> 'l lockst option" where
  "ReleaseLocalLock s = do {
     s \<leftarrow> release_locks_from 0 s;
     Some (s\<lparr>ls_used := 0\<rparr>) }"

section \<open>The table as a map of held locks\<close>

definition live :: "'l lockst \<Rightarrow> 'l LocalLockInfo list" where
  "live s = take (ls_used s) (ls_table s)"

definition lockst_wf :: "'l lockst \<Rightarrow> bool" where
  "lockst_wf s \<longleftrightarrow> length (ls_table s) = MAX_LOCAL_LOCK_NUM \<and> ls_used s \<le> MAX_LOCAL_LOCK_NUM \<and>
     (\<forall>e\<in>set (live s). ll_lock e \<noteq> None \<and> 1 \<le> ll_cnt e) \<and> distinct (map ll_lock (live s))"

definition held :: "'l lockst \<Rightarrow> 'l \<rightharpoonup> RWLockMode \<times> int" where
  "held s l = map_of (map (\<lambda>e. (ll_lock e, (ll_mode e, ll_cnt e))) (live s)) (Some l)"

lemma length_live: "lockst_wf s \<Longrightarrow> length (live s) = ls_used s"
  by (simp add: lockst_wf_def live_def)

lemma live_nth: "lockst_wf s \<Longrightarrow> i < ls_used s \<Longrightarrow> live s ! i = ls_table s ! i"
  by (simp add: live_def)

text \<open>The search finds the position of a held lock and answers -1 for any other.\<close>

lemma search_from_spec:
  "(search_from s l pos = -1 \<and> (\<forall>i. pos \<le> i \<longrightarrow> i < ls_used s \<longrightarrow> ll_lock (ls_table s ! i) \<noteq> l)) \<or>
   (\<exists>i. search_from s l pos = int i \<and> pos \<le> i \<and> i < ls_used s \<and> ll_lock (ls_table s ! i) = l)"
proof (induction s l pos rule: search_from.induct)
  case (1 s l pos)
  show ?case
  proof (cases "pos < ls_used s \<and> l \<noteq> ll_lock (ls_table s ! pos)")
    case True
    then have eq: "search_from s l pos = search_from s l (pos + 1)" by (simp add: search_from.simps [of s l pos])
    from 1 True show ?thesis unfolding eq
      by (metis Suc_eq_plus1 Suc_leD le_antisym not_less_eq_eq)
  next
    case False
    then show ?thesis by (auto simp: search_from.simps [of s l pos])
  qed
qed

lemma search_held:
  assumes wf: "lockst_wf s" and "held s l = Some (m, c)"
  obtains i where "SearchLocalLockTable (Some l) s = int i" "i < ls_used s"
    "ls_table s ! i = \<lparr>ll_lock = Some l, ll_mode = m, ll_cnt = c\<rparr>"
proof -
  from assms(2) have "(Some l, m, c) \<in> set (map (\<lambda>e. (ll_lock e, (ll_mode e, ll_cnt e))) (live s))"
    unfolding held_def by (rule map_of_SomeD)
  then obtain j where j: "j < length (live s)" "ll_lock (live s ! j) = Some l"
    "ll_mode (live s ! j) = m" "ll_cnt (live s ! j) = c"
    by (auto simp: in_set_conv_nth)
  with wf have ju: "j < ls_used s" and tj: "ls_table s ! j = live s ! j"
    by (simp_all add: length_live live_nth)
  have "ll_lock (ls_table s ! j) = Some l" using tj j by simp
  then obtain i where i: "search_from s (Some l) 0 = int i" "i < ls_used s" "ll_lock (ls_table s ! i) = Some l"
    using search_from_spec [of s "Some l" 0] ju by auto
  have "i = j"
  proof (rule ccontr)
    assume "i \<noteq> j"
    moreover have "distinct (map ll_lock (live s))" using wf by (simp add: lockst_wf_def)
    ultimately have "ll_lock (live s ! i) \<noteq> ll_lock (live s ! j)"
      using i ju wf by (simp add: distinct_conv_nth length_live)
    then show False using i j wf by (simp add: live_nth)
  qed
  then show ?thesis using that [of i] i j tj
    by (cases "ls_table s ! i") (simp add: SearchLocalLockTable_def)
qed

lemma search_not_held:
  assumes wf: "lockst_wf s" and "held s l = None"
  shows "SearchLocalLockTable (Some l) s = -1"
proof -
  have "ll_lock (ls_table s ! i) \<noteq> Some l" if "i < ls_used s" for i
  proof -
    have "live s ! i \<in> set (live s)" using that wf by (simp add: length_live)
    with assms(2) have "ll_lock (live s ! i) \<noteq> Some l"
      by (auto simp: held_def map_of_eq_None_iff image_iff)
    with that wf show ?thesis by (simp add: live_nth)
  qed
  then show ?thesis using search_from_spec [of s "Some l" 0] by (auto simp: SearchLocalLockTable_def)
qed

text \<open>The three table updates.\<close>

lemma live_new_entry:
  "lockst_wf s \<Longrightarrow> ls_used s < MAX_LOCAL_LOCK_NUM \<Longrightarrow>
   live (new_entry l m s) = live s @ [\<lparr>ll_lock = Some l, ll_mode = m, ll_cnt = 1\<rparr>]"
  by (simp add: live_def new_entry_def lockst_wf_def take_Suc_conv_app_nth)

lemma held_new_entry:
  assumes "lockst_wf s" and "ls_used s < MAX_LOCAL_LOCK_NUM" and "held s l = None"
  shows "held (new_entry l m s) = (held s)(l \<mapsto> (m, 1))" and "lockst_wf (new_entry l m s)"
proof -
  have new: "Some l \<notin> ll_lock ` set (live s)"
    using assms(3) by (auto simp: held_def map_of_eq_None_iff image_iff)
  then have new': "Some l \<notin> fst ` set (map (\<lambda>e. (ll_lock e, (ll_mode e, ll_cnt e))) (live s))"
    by auto
  show "held (new_entry l m s) = (held s)(l \<mapsto> (m, 1))"
    using assms map_of_snoc_new [OF new', of "(m, 1)"]
    by (simp add: fun_eq_iff held_def live_new_entry)
  have "length (ls_table (new_entry l m s)) = MAX_LOCAL_LOCK_NUM"
    "ls_used (new_entry l m s) \<le> MAX_LOCAL_LOCK_NUM"
    using assms by (simp_all add: new_entry_def lockst_wf_def)
  then show "lockst_wf (new_entry l m s)"
    using new assms by (auto simp: lockst_wf_def live_new_entry)
qed

lemma live_bump_entry:
  "i < ls_used s \<Longrightarrow> live (bump_entry i d s) = (live s)[i := (ls_table s ! i)\<lparr>ll_cnt := ll_cnt (ls_table s ! i) + d\<rparr>]"
  by (simp add: live_def bump_entry_def take_update_swap)

lemma held_bump_entry:
  assumes wf: "lockst_wf s" and i: "i < ls_used s"
    "ls_table s ! i = \<lparr>ll_lock = Some l, ll_mode = m, ll_cnt = c\<rparr>" and c: "1 \<le> c + d"
  shows "held (bump_entry i d s) = (held s)(l \<mapsto> (m, c + d))" and "lockst_wf (bump_entry i d s)"
proof -
  let ?f = "\<lambda>e. (ll_lock e, (ll_mode e, ll_cnt e))"
  have il: "i < length (live s)" "live s ! i = ls_table s ! i"
    using wf i(1) by (simp_all add: length_live live_nth)
  have d: "distinct (map fst (map ?f (live s)))" using wf by (simp add: lockst_wf_def comp_def)
  have "map ?f (live (bump_entry i d s)) = (map ?f (live s))[i := (Some l, (m, c + d))]"
    using i by (simp add: live_bump_entry map_update)
  then have "map_of (map ?f (live (bump_entry i d s))) = (map_of (map ?f (live s)))(Some l \<mapsto> (m, c + d))"
    using map_of_replace_at [OF d, of i "Some l"] il i by simp
  then show "held (bump_entry i d s) = (held s)(l \<mapsto> (m, c + d))"
    by (simp add: held_def fun_eq_iff)
  have locks: "map ll_lock (live (bump_entry i d s)) = map ll_lock (live s)"
    using i il by (simp add: live_bump_entry map_update list_update_same_conv)
  have "\<forall>e\<in>set (live (bump_entry i d s)). ll_lock e \<noteq> None \<and> 1 \<le> ll_cnt e"
    using wf i c by (auto simp: live_bump_entry lockst_wf_def dest!: set_update_subset_insert [THEN subsetD])
  with locks wf show "lockst_wf (bump_entry i d s)"
    by (simp add: lockst_wf_def) (simp add: bump_entry_def)
qed

lemma shift_entries_spec:
  "pos < used \<Longrightarrow> used \<le> length t \<Longrightarrow>
   length (shift_entries t used pos) = length t \<and>
   take (used - 1) (shift_entries t used pos) = take pos t @ drop (Suc pos) (take used t)"
proof (induction t used pos rule: shift_entries.induct)
  case (1 t used pos)
  show ?case
  proof (cases "pos + 1 < used")
    case True
    let ?t = "t[pos := t ! (pos + 1)]"
    have IH: "length (shift_entries ?t used (pos + 1)) = length ?t \<and>
      take (used - 1) (shift_entries ?t used (pos + 1)) =
        take (pos + 1) ?t @ drop (Suc (pos + 1)) (take used ?t)"
      using 1 True by simp
    have "take (pos + 1) ?t = take pos t @ [t ! (pos + 1)]"
      using True 1 by (simp add: take_Suc_conv_app_nth)
    moreover have "drop (Suc (pos + 1)) (take used ?t) = drop (Suc (Suc pos)) (take used t)"
      by (simp add: take_update_swap)
    moreover have "drop (Suc pos) (take used t) = t ! (pos + 1) # drop (Suc (Suc pos)) (take used t)"
      using True 1 by (simp add: Cons_nth_drop_Suc [symmetric])
    ultimately show ?thesis
      using True IH by (subst (1 2) shift_entries.simps) simp
  next
    case False
    with 1 have "used = Suc pos" by simp
    with False show ?thesis by (subst (1 2) shift_entries.simps) simp
  qed
qed

lemma live_RemoveLocalLock:
  "lockst_wf s \<Longrightarrow> i < ls_used s \<Longrightarrow>
   live (RemoveLocalLock i s) = take i (live s) @ drop (Suc i) (live s)"
  using shift_entries_spec [of i "ls_used s" "ls_table s"]
  by (simp add: live_def RemoveLocalLock_def lockst_wf_def min_def)

lemma held_RemoveLocalLock:
  assumes wf: "lockst_wf s" and i: "i < ls_used s" "ll_lock (ls_table s ! i) = Some l"
  shows "held (RemoveLocalLock i s) = (held s)(l := None)" and "lockst_wf (RemoveLocalLock i s)"
proof -
  let ?f = "\<lambda>e. (ll_lock e, (ll_mode e, ll_cnt e))"
  have il: "i < length (live s)" "live s ! i = ls_table s ! i"
    using wf i(1) by (simp_all add: length_live live_nth)
  have d: "distinct (map fst (map ?f (live s)))" using wf by (simp add: lockst_wf_def comp_def)
  have "map_of (map ?f (live (RemoveLocalLock i s))) = (map_of (map ?f (live s)))(Some l := None)"
    using map_of_delete_at [OF d, of i "Some l"] il i wf
    by (simp add: live_RemoveLocalLock take_map drop_map)
  then show "held (RemoveLocalLock i s) = (held s)(l := None)" by (simp add: held_def fun_eq_iff)
  have "distinct (map ll_lock (take i (live s) @ drop (Suc i) (live s)))"
    using wf il(1) by (intro distinct_delete_at) (simp add: lockst_wf_def)
  moreover have "set (take i (live s) @ drop (Suc i) (live s)) \<subseteq> set (live s)"
    by (auto dest: in_set_takeD in_set_dropD)
  ultimately show "lockst_wf (RemoveLocalLock i s)"
    using wf i shift_entries_spec [of i "ls_used s" "ls_table s"]
    by (auto simp: lockst_wf_def live_RemoveLocalLock) (simp_all add: RemoveLocalLock_def)
qed

section \<open>Effect of the table operations on the held locks\<close>

lemma held_store [simp]: "held (s\<lparr>ls_store := x\<rparr>) = held s"
  by (simp add: held_def live_def fun_eq_iff)

lemma lockst_wf_store [simp]: "lockst_wf (s\<lparr>ls_store := x\<rparr>) = lockst_wf s"
  by (simp add: lockst_wf_def live_def)

lemma table_ops_store [simp]:
  "ls_store (new_entry l m s) = ls_store s" "ls_store (bump_entry i d s) = ls_store s"
  "ls_store (RemoveLocalLock i s) = ls_store s"
  by (simp_all add: new_entry_def bump_entry_def RemoveLocalLock_def)

lemma note_mode_rwlock [simp]: "rwlock (note_mode m lk) = rwlock lk"
  by (simp add: note_mode_def Let_def)

lemma AcquireRWLock_simps [lock_simps]:
  "mode = RWLock_READ \<Longrightarrow> AcquireRWLock mode lk =
     (if pw_writer (rwlock lk) then None
      else Some (0, note_mode mode (lk\<lparr>rwlock := (rwlock lk)\<lparr>pw_readers := pw_readers (rwlock lk) + 1\<rparr>\<rparr>)))"
  "mode = RWLock_WRITE \<Longrightarrow> AcquireRWLock mode lk =
     (if pw_writer (rwlock lk) \<or> 0 < pw_readers (rwlock lk) then None
      else Some (0, note_mode mode (lk\<lparr>rwlock := (rwlock lk)\<lparr>pw_writer := True\<rparr>\<rparr>)))"
  "mode \<noteq> RWLock_READ \<Longrightarrow> mode \<noteq> RWLock_WRITE \<Longrightarrow> AcquireRWLock mode lk = Some (-1, lk)"
  by (subst AcquireRWLock.simps; simp add: pthread_rwlock_rdlock_def pthread_rwlock_wrlock_def)+

text \<open>
  What a pthread lock grants: \<open>grants m p p'\<close> takes lock state \<open>p\<close> to \<open>p'\<close> by
  admitting a holder in mode \<open>m\<close>, \<open>drops m p p'\<close> by letting one go.
\<close>

definition grants :: "RWLockMode \<Rightarrow> pthread_rwlock \<Rightarrow> pthread_rwlock \<Rightarrow> bool" where
  "grants m p p' \<longleftrightarrow>
     (m = RWLock_READ \<and> \<not> pw_writer p \<and> p' = p\<lparr>pw_readers := pw_readers p + 1\<rparr>) \<or>
     (m = RWLock_WRITE \<and> \<not> pw_writer p \<and> pw_readers p = 0 \<and> p' = p\<lparr>pw_writer := True\<rparr>)"

definition drops :: "pthread_rwlock \<Rightarrow> pthread_rwlock \<Rightarrow> bool" where
  "drops p p' \<longleftrightarrow>
     (pw_writer p \<and> p' = p\<lparr>pw_writer := False\<rparr>) \<or>
     (\<not> pw_writer p \<and> 0 < pw_readers p \<and> p' = p\<lparr>pw_readers := pw_readers p - 1\<rparr>)"

lemma AcquireRWLock_grants:
  assumes "AcquireRWLock m lk = Some (r, lk')"
  shows "(r = 0 \<and> grants m (rwlock lk) (rwlock lk')) \<or> (r = -1 \<and> lk' = lk)"
  using assms
  by (cases m) (auto simp: AcquireRWLock_simps grants_def split: if_splits)

lemma TryAcquireRWLock_grants:
  assumes "TryAcquireRWLock m lk = (r, lk')"
  shows "(r = 1 \<and> grants m (rwlock lk) (rwlock lk')) \<or> (r \<in> {0, -1} \<and> rwlock lk' = rwlock lk)"
  using assms
  by (cases m) (auto simp: TryAcquireRWLock_def pthread_rwlock_tryrdlock_def pthread_rwlock_trywrlock_def
      grants_def split: if_splits)

lemma ReleaseRWLock_drops:
  assumes "ReleaseRWLock m lk = Some (r, lk')"
  shows "r = 0 \<and> drops (rwlock lk) (rwlock lk')"
  using assms
  by (auto simp: ReleaseRWLock_def pthread_rwlock_unlock_def drops_def Let_def
      split: if_splits prod.splits)

lemma ReleaseRWLock_returns:
  "drops (rwlock lk) p \<Longrightarrow> \<exists>lk'. ReleaseRWLock m lk = Some (0, lk')"
  by (auto simp: ReleaseRWLock_def pthread_rwlock_unlock_def drops_def Let_def
      split: if_splits prod.splits)

text \<open>
  The three operations of the local table on a lock \<open>l\<close>: the new table as a map, and the
  new state of the lock.
\<close>

definition same_rwlocks :: "'l lockst \<Rightarrow> 'l lockst \<Rightarrow> bool" where
  "same_rwlocks s s' \<longleftrightarrow> (\<forall>k. rwlock (ls_store s' k) = rwlock (ls_store s k))"

definition only_rwlock :: "'l \<Rightarrow> 'l lockst \<Rightarrow> 'l lockst \<Rightarrow> bool" where
  "only_rwlock l s s' \<longleftrightarrow> (\<forall>k. k \<noteq> l \<longrightarrow> rwlock (ls_store s' k) = rwlock (ls_store s k))"

definition enters :: "'l \<Rightarrow> RWLockMode \<Rightarrow> 'l lockst \<Rightarrow> 'l lockst \<Rightarrow> bool" where
  "enters l m s s' \<longleftrightarrow>
     (case held s l of
        None \<Rightarrow> held s' = (held s)(l \<mapsto> (m, 1)) \<and> only_rwlock l s s' \<and>
                grants m (rwlock (ls_store s l)) (rwlock (ls_store s' l))
      | Some (m', c) \<Rightarrow> m' = m \<and> held s' = (held s)(l \<mapsto> (m, c + 1)) \<and> same_rwlocks s s')"

definition leaves :: "'l \<Rightarrow> 'l lockst \<Rightarrow> 'l lockst \<Rightarrow> bool" where
  "leaves l s s' \<longleftrightarrow>
     (case held s l of
        None \<Rightarrow> held s' = held s \<and> only_rwlock l s s' \<and>
                drops (rwlock (ls_store s l)) (rwlock (ls_store s' l))
      | Some (m, c) \<Rightarrow>
          if c > 1 then held s' = (held s)(l \<mapsto> (m, c - 1)) \<and> same_rwlocks s s'
          else held s' = (held s)(l := None) \<and> only_rwlock l s s' \<and>
               drops (rwlock (ls_store s l)) (rwlock (ls_store s' l)))"

lemma AcquireRWLockLocal_held:
  assumes wf: "lockst_wf s" and h: "held s l = Some (m', c)"
  obtains i where "i < ls_used s" "ls_table s ! i = \<lparr>ll_lock = Some l, ll_mode = m', ll_cnt = c\<rparr>"
    "AcquireRWLockLocal (Some l) m s =
       (if MAX_LOCAL_LOCK_NUM \<le> ls_used s then Some (-1, s)
        else if m' = m then (if c < 2 ^ 31 - 1 then Some (0, bump_entry i 1 s) else None) else Some (-2, s))"
    "TryAcquireRWLockLocal (Some l) m s =
       (if MAX_LOCAL_LOCK_NUM \<le> ls_used s then Some (-1, s)
        else if m' = m then (if c < 2 ^ 31 - 1 then Some (1, bump_entry i 1 s) else None) else Some (-2, s))"
proof -
  obtain i where i: "SearchLocalLockTable (Some l) s = int i" "i < ls_used s"
    "ls_table s ! i = \<lparr>ll_lock = Some l, ll_mode = m', ll_cnt = c\<rparr>"
    using search_held [OF wf h] .
  then show ?thesis
    by (intro that [of i]) (simp_all add: AcquireRWLockLocal_def TryAcquireRWLockLocal_def Let_def int_inc_def)
qed

lemma held_cnt: "lockst_wf s \<Longrightarrow> held s l = Some (m, c) \<Longrightarrow> 1 \<le> c"
  by (auto simp: held_def lockst_wf_def dest!: map_of_SomeD)

lemma AcquireRWLockLocal_effect:
  assumes wf: "lockst_wf s" and acq: "AcquireRWLockLocal (Some l) m s = Some (r, s')"
  shows "lockst_wf s' \<and> (if r = 0 then enters l m s s' else r < 0 \<and> s' = s)"
proof (cases "held s l")
  case (Some mc)
  obtain m' c where mc: "held s l = Some (m', c)" using Some by (cases mc) simp
  then obtain i where i: "i < ls_used s" "ls_table s ! i = \<lparr>ll_lock = Some l, ll_mode = m', ll_cnt = c\<rparr>"
    and eq: "AcquireRWLockLocal (Some l) m s =
       (if MAX_LOCAL_LOCK_NUM \<le> ls_used s then Some (-1, s)
        else if m' = m then (if c < 2 ^ 31 - 1 then Some (0, bump_entry i 1 s) else None) else Some (-2, s))"
    using AcquireRWLockLocal_held [OF wf, of l m' c m] by metis
  show ?thesis
    using acq eq mc wf held_bump_entry [OF wf i, of 1] held_cnt [OF wf mc]
    by (auto simp: enters_def same_rwlocks_def split: if_splits)
next
  case None
  show ?thesis
  proof (cases "MAX_LOCAL_LOCK_NUM \<le> ls_used s")
    case True
    then show ?thesis using acq wf by (simp add: AcquireRWLockLocal_def)
  next
    case False
    then obtain lk where lk: "AcquireRWLock m (ls_store s l) = Some (r, lk)"
      and s': "s' = (let s = s\<lparr>ls_store := (ls_store s)(l := lk)\<rparr> in if r = 0 then new_entry l m s else s)"
      using acq search_not_held [OF wf None]
      by (auto simp: AcquireRWLockLocal_def Let_def split: Option.bind_splits)
    let ?s = "s\<lparr>ls_store := (ls_store s)(l := lk)\<rparr>"
    have ne: "held (new_entry l m ?s) = (held ?s)(l \<mapsto> (m, 1))" "lockst_wf (new_entry l m ?s)"
      using held_new_entry [of ?s l m] wf None False by simp_all
    show ?thesis
      using AcquireRWLock_grants [OF lk] s' ne wf None
      by (auto simp: enters_def only_rwlock_def Let_def)
  qed
qed

lemma TryAcquireRWLockLocal_effect:
  assumes wf: "lockst_wf s" and acq: "TryAcquireRWLockLocal (Some l) m s = Some (r, s')"
  shows "lockst_wf s' \<and> (if r > 0 then enters l m s s' else held s' = held s \<and> same_rwlocks s s')"
proof (cases "held s l")
  case (Some mc)
  obtain m' c where mc: "held s l = Some (m', c)" using Some by (cases mc) simp
  then obtain i where i: "i < ls_used s" "ls_table s ! i = \<lparr>ll_lock = Some l, ll_mode = m', ll_cnt = c\<rparr>"
    and eq: "TryAcquireRWLockLocal (Some l) m s =
       (if MAX_LOCAL_LOCK_NUM \<le> ls_used s then Some (-1, s)
        else if m' = m then (if c < 2 ^ 31 - 1 then Some (1, bump_entry i 1 s) else None) else Some (-2, s))"
    using AcquireRWLockLocal_held [OF wf, of l m' c m] by metis
  show ?thesis
    using acq eq mc wf held_bump_entry [OF wf i, of 1] held_cnt [OF wf mc]
    by (auto simp: enters_def same_rwlocks_def split: if_splits)
next
  case None
  show ?thesis
  proof (cases "MAX_LOCAL_LOCK_NUM \<le> ls_used s")
    case True
    then show ?thesis using acq wf by (auto simp: TryAcquireRWLockLocal_def same_rwlocks_def)
  next
    case False
    then obtain lk where lk: "TryAcquireRWLock m (ls_store s l) = (r, lk)"
      and s': "s' = (let s = s\<lparr>ls_store := (ls_store s)(l := lk)\<rparr> in if r > 0 then new_entry l m s else s)"
      using acq search_not_held [OF wf None]
      by (auto simp: TryAcquireRWLockLocal_def Let_def split: prod.splits)
    let ?s = "s\<lparr>ls_store := (ls_store s)(l := lk)\<rparr>"
    have ne: "held (new_entry l m ?s) = (held ?s)(l \<mapsto> (m, 1))" "lockst_wf (new_entry l m ?s)"
      using held_new_entry [of ?s l m] wf None False by simp_all
    show ?thesis
      using TryAcquireRWLock_grants [OF lk] s' ne wf None
      by (auto simp: enters_def only_rwlock_def same_rwlocks_def Let_def)
  qed
qed

lemma ReleaseRWLockLocal_effect:
  assumes wf: "lockst_wf s" and h: "held s l = Some (m', c)"
    and rel: "ReleaseRWLockLocal (Some l) m s = Some (r, s')"
  shows "lockst_wf s' \<and> r = 0 \<and> leaves l s s'"
proof -
  obtain i where i: "SearchLocalLockTable (Some l) s = int i" "i < ls_used s"
    "ls_table s ! i = \<lparr>ll_lock = Some l, ll_mode = m', ll_cnt = c\<rparr>"
    using search_held [OF wf h] .
  show ?thesis
  proof (cases "c > 1")
    case True
    then have "r = 0" "s' = bump_entry i (-1) s"
      using rel i by (simp_all add: ReleaseRWLockLocal_def Let_def)
    then show ?thesis
      using True h held_bump_entry [OF wf i(2,3), of "-1"] by (simp add: leaves_def same_rwlocks_def)
  next
    case False
    then obtain lk where lk: "ReleaseRWLock m (ls_store s l) = Some (r, lk)"
      and s': "s' = (let s = s\<lparr>ls_store := (ls_store s)(l := lk)\<rparr> in if r = 0 then RemoveLocalLock i s else s)"
      using rel i by (auto simp: ReleaseRWLockLocal_def Let_def split: Option.bind_splits)
    let ?s = "s\<lparr>ls_store := (ls_store s)(l := lk)\<rparr>"
    have rm: "held (RemoveLocalLock i ?s) = (held ?s)(l := None)" "lockst_wf (RemoveLocalLock i ?s)"
      using held_RemoveLocalLock [of ?s i l] wf i by simp_all
    show ?thesis
      using ReleaseRWLock_drops [OF lk] s' rm wf h False
      by (auto simp: leaves_def only_rwlock_def Let_def)
  qed
qed

section \<open>The release of all locks\<close>

text \<open>
  The loop at \<open>pos\<close>, for a worker that started it in \<open>s\<close>: the entries before \<open>pos\<close> are cleared, and the locks of those behind it have not been
  touched. Every lock is as before or was unlocked once.
\<close>

definition touched :: "'l lockst \<Rightarrow> 'l lockst \<Rightarrow> bool" where
  "touched s t \<longleftrightarrow> (\<forall>l. rwlock (ls_store t l) = rwlock (ls_store s l) \<or> held s l \<noteq> None \<and> drops (rwlock (ls_store s l)) (rwlock (ls_store t l)))"

definition rest_of :: "nat \<Rightarrow> 'l lockst \<Rightarrow> 'l LocalLockInfo list" where
  "rest_of pos t = drop pos (take (ls_used t) (ls_table t))"

definition releasing :: "'l lockst \<Rightarrow> nat \<Rightarrow> 'l lockst \<Rightarrow> bool" where
  "releasing s pos t \<longleftrightarrow> length (ls_table t) = MAX_LOCAL_LOCK_NUM \<and> ls_used t \<le> MAX_LOCAL_LOCK_NUM \<and> touched s t \<and>
     (\<forall>i < pos. i < ls_used t \<longrightarrow> ll_lock (ls_table t ! i) = None) \<and> distinct (map ll_lock (rest_of pos t)) \<and>
     (\<forall>e \<in> set (rest_of pos t). \<exists>l. ll_lock e = Some l \<and> held s l \<noteq> None \<and> rwlock (ls_store t l) = rwlock (ls_store s l))"

lemma search_first:
  "k \<le> pos \<Longrightarrow> pos < ls_used t \<Longrightarrow> ll_lock (ls_table t ! pos) = Some l \<Longrightarrow> (\<And>i. k \<le> i \<Longrightarrow> i < pos \<Longrightarrow> ll_lock (ls_table t ! i) = None) \<Longrightarrow>
   search_from t (Some l) k = int pos"
proof (induction "pos - k" arbitrary: k)
  case 0
  then show ?case by (subst search_from.simps) simp
next
  case (Suc d)
  then have "search_from t (Some l) (k + 1) = int pos" by (intro Suc.hyps(1)) simp_all
  moreover have "ll_lock (ls_table t ! k) = None" using Suc.hyps(2) Suc.prems(4) [of k] by simp
  ultimately show ?case using Suc.hyps(2) Suc.prems(1,2) by (subst search_from.simps) simp
qed

lemma rest_of_Cons: "pos < ls_used t \<Longrightarrow> ls_used t \<le> length (ls_table t) \<Longrightarrow> rest_of pos t = ls_table t ! pos # rest_of (Suc pos) t"
  by (simp add: rest_of_def Cons_nth_drop_Suc [symmetric])

lemma held_first:
  assumes "releasing s pos t" "pos < ls_used t"
  obtains l where "ll_lock (ls_table t ! pos) = Some l" "held s l \<noteq> None" "rwlock (ls_store t l) = rwlock (ls_store s l)"
    "SearchLocalLockTable (Some l) t = int pos" "\<forall>e \<in> set (rest_of (Suc pos) t). ll_lock e \<noteq> Some l"
proof -
  have r: "rest_of pos t = ls_table t ! pos # rest_of (Suc pos) t" using assms by (intro rest_of_Cons) (simp_all add: releasing_def)
  then obtain l where l: "ll_lock (ls_table t ! pos) = Some l" "held s l \<noteq> None" "rwlock (ls_store t l) = rwlock (ls_store s l)"
    using assms(1) by (auto simp: releasing_def)
  have "SearchLocalLockTable (Some l) t = int pos"
    unfolding SearchLocalLockTable_def using assms l(1) by (intro search_first) (simp_all add: releasing_def)
  moreover have "\<forall>e \<in> set (rest_of (Suc pos) t). ll_lock e \<noteq> Some l"
  proof -
    have "distinct (map ll_lock (rest_of pos t))" using assms(1) by (simp add: releasing_def)
    then have "Some l \<notin> ll_lock ` set (rest_of (Suc pos) t)" using r l(1) by simp
    then show ?thesis by (metis imageI)
  qed
  ultimately show ?thesis using l by (intro that [of l])
qed

lemma releasing_kept:
  assumes r: "releasing s pos t" "pos < ls_used t" and u: "ls_used t' = ls_used t" "ls_store t' = ls_store t" "ls_table t' = (ls_table t)[pos := empty_entry]"
  shows "releasing s (Suc pos) t'"
proof -
  have "rest_of (Suc pos) t' = rest_of (Suc pos) t" by (simp add: rest_of_def u drop_take drop_update_cancel)
  moreover have "rest_of pos t = ls_table t ! pos # rest_of (Suc pos) t" using r by (intro rest_of_Cons) (simp_all add: releasing_def)
  ultimately show ?thesis using r u by (auto simp: releasing_def touched_def nth_list_update less_Suc_eq)
qed

lemma releasing_dropped:
  assumes r: "releasing s pos t" "pos < ls_used t" and l: "ll_lock (ls_table t ! pos) = Some l" "held s l \<noteq> None"
    "rwlock (ls_store t l) = rwlock (ls_store s l)" "\<forall>e \<in> set (rest_of (Suc pos) t). ll_lock e \<noteq> Some l" and d: "drops (rwlock (ls_store t l)) (rwlock lk)"
    and u: "ls_used t' = ls_used t - 1" "ls_store t' = (ls_store t)(l := lk)" "ls_table t' = (shift_entries (ls_table t) (ls_used t) pos)[pos := empty_entry]"
  shows "releasing s (Suc pos) t'"
proof -
  have len: "ls_used t \<le> length (ls_table t)" using r(1) by (simp add: releasing_def)
  from shift_entries_spec [OF r(2) len] have sh: "length (shift_entries (ls_table t) (ls_used t) pos) = length (ls_table t)"
    "take (ls_used t - 1) (shift_entries (ls_table t) (ls_used t) pos) = take pos (ls_table t) @ drop (Suc pos) (take (ls_used t) (ls_table t))" by simp_all
  have "rest_of (Suc pos) t' = drop (Suc pos) (take pos (ls_table t) @ drop (Suc pos) (take (ls_used t) (ls_table t)))"
    unfolding rest_of_def u sh(2) [symmetric] by (simp add: take_update_swap drop_update_cancel)
  then have rest: "rest_of (Suc pos) t' = drop 1 (rest_of (Suc pos) t)" using r(2) len by (simp add: rest_of_def)
  have rp: "rest_of pos t = ls_table t ! pos # rest_of (Suc pos) t" using rest_of_Cons [OF r(2) len] .
  have sub: "e \<in> set (rest_of (Suc pos) t') \<Longrightarrow> e \<in> set (rest_of (Suc pos) t)" for e unfolding rest by (meson in_set_dropD)
  have "distinct (map ll_lock (rest_of (Suc pos) t))" using r(1) rp by (simp add: releasing_def)
  then have "distinct (map ll_lock (rest_of (Suc pos) t'))" unfolding rest drop_map [symmetric] by (rule distinct_drop)
  moreover have "\<exists>l'. ll_lock e = Some l' \<and> held s l' \<noteq> None \<and> rwlock (ls_store t' l') = rwlock (ls_store s l')" if "e \<in> set (rest_of (Suc pos) t')" for e
  proof -
    have e: "e \<in> set (rest_of (Suc pos) t)" using sub that .
    moreover have "e \<in> set (rest_of pos t)" using e rp by simp
    ultimately show ?thesis using r(1) l(4) u(2) by (fastforce simp: releasing_def)
  qed
  moreover have "ll_lock (ls_table t' ! i) = None" if "i < Suc pos" "i < ls_used t'" for i
  proof (cases "i = pos")
    case True
    then show ?thesis using that len r(2) sh(1) by (simp add: u)
  next
    case False
    then have i: "i < pos" using that(1) by simp
    have "shift_entries (ls_table t) (ls_used t) pos ! i = take (ls_used t - 1) (shift_entries (ls_table t) (ls_used t) pos) ! i" using that(2) by (simp add: u)
    also have "\<dots> = ls_table t ! i" unfolding sh(2) using i r(2) len by (simp add: nth_append)
    finally show ?thesis using r(1) i that(2) False by (simp add: u releasing_def)
  qed
  moreover have "touched s t'" using r(1) d l(2,3) u(2) by (auto simp: releasing_def touched_def)
  moreover have "ls_used t' \<le> MAX_LOCAL_LOCK_NUM" using r(1) by (auto simp: releasing_def u)
  ultimately show ?thesis using r(1) u sh(1) by (simp add: releasing_def)
qed

lemma release_locks_from_touches:
  "releasing s pos t \<Longrightarrow> release_locks_from pos t = Some t' \<Longrightarrow> touched s t' \<and> length (ls_table t') = MAX_LOCAL_LOCK_NUM"
proof (induction "ls_used t - pos" arbitrary: pos t rule: less_induct)
  case less
  show ?case
  proof (cases "pos < ls_used t")
    case False
    then show ?thesis using less.prems by (subst (asm) release_locks_from.simps) (simp add: releasing_def)
  next
    case True
    obtain l where l: "ll_lock (ls_table t ! pos) = Some l" "held s l \<noteq> None" "rwlock (ls_store t l) = rwlock (ls_store s l)"
      "SearchLocalLockTable (Some l) t = int pos" "\<forall>e \<in> set (rest_of (Suc pos) t). ll_lock e \<noteq> Some l"
      using held_first [OF less.prems(1) True] .
    obtain r t1 where t1: "ReleaseRWLockLocal (Some l) RWLock_NULL t = Some (r, t1)"
      "release_locks_from (pos + 1) (t1\<lparr>ls_table := (ls_table t1)[pos := empty_entry]\<rparr>) = Some t'"
      using less.prems(2) True l(1) by (subst (asm) release_locks_from.simps) (auto split: Option.bind_splits)
    let ?t = "t1\<lparr>ls_table := (ls_table t1)[pos := empty_entry]\<rparr>"
    have "releasing s (Suc pos) ?t \<and> ls_used ?t \<le> ls_used t"
    proof (cases "ll_cnt (ls_table t ! pos) > 1")
      case cnt: True
      then have "t1 = bump_entry pos (-1) t" using t1(1) True l(4) by (simp add: ReleaseRWLockLocal_def Let_def)
      then show ?thesis using releasing_kept [OF less.prems(1) True, of ?t] by (simp add: bump_entry_def)
    next
      case cnt: False
      obtain lk where lk: "ReleaseRWLock RWLock_NULL (ls_store t l) = Some (r, lk)"
        and s1: "t1 = (let t = t\<lparr>ls_store := (ls_store t)(l := lk)\<rparr> in if r = 0 then RemoveLocalLock pos t else t)"
        using t1(1) True l(4) cnt by (auto simp: ReleaseRWLockLocal_def Let_def split: Option.bind_splits)
      note d = ReleaseRWLock_drops [OF lk]
      then show ?thesis using releasing_dropped [OF less.prems(1) True l(1-3,5), of lk ?t] s1 by (simp add: RemoveLocalLock_def)
    qed
    moreover from this have "ls_used ?t - (pos + 1) < ls_used t - pos" using True by linarith
    ultimately show ?thesis using less.hyps [of ?t "pos + 1"] t1(2) by simp
  qed
qed

lemma ReleaseLocalLock_effect:
  assumes "lockst_wf s" "ReleaseLocalLock s = Some s'"
  shows "lockst_wf s' \<and> held s' = Map.empty \<and> touched s s'"
proof -
  have "held s l \<noteq> None" if "e \<in> set (live s)" "ll_lock e = Some l" for e l
  proof -
    have "Some l \<in> ll_lock ` set (live s)" using that by (metis imageI)
    then show ?thesis by (simp add: held_def map_of_eq_None_iff image_comp comp_def)
  qed
  then have "releasing s 0 s" using assms(1) by (fastforce simp: releasing_def lockst_wf_def touched_def rest_of_def live_def)
  then show ?thesis using release_locks_from_touches [of s 0 s] assms(2)
    by (auto simp: ReleaseLocalLock_def lockst_wf_def live_def held_def touched_def split: Option.bind_splits)
qed

section \<open>Workers sharing the locks\<close>

text \<open>
  The workers of the server: one shared store of locks and one local table per worker. A step
  is a complete call of one worker. The workers of \<open>lock_step\<close> are disciplined: they release only locks that their
  table holds. The code does not check this; \<open>foreign_lock_taken_over\<close> below is about a worker that is not.
\<close>

record 'l locksys =
  sy_store :: "'l \<Rightarrow> RWLockInfo"
  sy_tabs :: "('l LocalLockInfo list \<times> nat) list"

definition worker :: "'l locksys \<Rightarrow> nat \<Rightarrow> 'l lockst" where
  "worker sy i = \<lparr>ls_store = sy_store sy, ls_table = fst (sy_tabs sy ! i), ls_used = snd (sy_tabs sy ! i)\<rparr>"

definition put_worker :: "'l locksys \<Rightarrow> nat \<Rightarrow> 'l lockst \<Rightarrow> 'l locksys" where
  "put_worker sy i s = \<lparr>sy_store = ls_store s, sy_tabs = (sy_tabs sy)[i := (ls_table s, ls_used s)]\<rparr>"

definition init_locksys :: "nat \<Rightarrow> ('l \<Rightarrow> LockBranch) \<Rightarrow> 'l locksys" where
  "init_locksys n br = \<lparr>sy_store = (\<lambda>l. InitRWLock (br l)), sy_tabs = replicate n (init_table, 0)\<rparr>"

inductive lock_step :: "'l locksys \<Rightarrow> 'l locksys \<Rightarrow> bool" where
  acquire: "i < length (sy_tabs sy) \<Longrightarrow> AcquireRWLockLocal (Some l) m (worker sy i) = Some (r, s) \<Longrightarrow>
    lock_step sy (put_worker sy i s)"
| try_acquire: "i < length (sy_tabs sy) \<Longrightarrow> TryAcquireRWLockLocal (Some l) m (worker sy i) = Some (r, s) \<Longrightarrow>
    lock_step sy (put_worker sy i s)"
| release: "i < length (sy_tabs sy) \<Longrightarrow> held (worker sy i) l \<noteq> None \<Longrightarrow>
    ReleaseRWLockLocal (Some l) m (worker sy i) = Some (r, s) \<Longrightarrow>
    lock_step sy (put_worker sy i s)"
| release_all: "i < length (sy_tabs sy) \<Longrightarrow> ReleaseLocalLock (worker sy i) = Some s \<Longrightarrow>
    lock_step sy (put_worker sy i s)"

inductive lock_reachable :: "nat \<Rightarrow> ('l \<Rightarrow> LockBranch) \<Rightarrow> 'l locksys \<Rightarrow> bool" for n br where
  init: "lock_reachable n br (init_locksys n br)"
| step: "lock_reachable n br sy \<Longrightarrow> lock_step sy sy' \<Longrightarrow> lock_reachable n br sy'"

inductive_cases lock_stepE: "lock_step sy sy'"

text \<open>
  The modes in which the workers hold a lock, and the agreement of the lock with them. A lock may have holders that no table knows:
  \<^verbatim>\<open>ReleaseLocalLock\<close> forgets some.
\<close>

definition mode_in :: "'l \<Rightarrow> 'l lockst \<Rightarrow> RWLockMode option" where
  "mode_in l s = map_option fst (held s l)"

definition modes :: "'l locksys \<Rightarrow> 'l \<Rightarrow> RWLockMode option list" where
  "modes sy l = map (\<lambda>i. mode_in l (worker sy i)) [0..<length (sy_tabs sy)]"

definition agrees :: "pthread_rwlock \<Rightarrow> RWLockMode option list \<Rightarrow> bool" where
  "agrees p ms \<longleftrightarrow> set ms \<subseteq> {None, Some RWLock_READ, Some RWLock_WRITE} \<and>
     (if pw_writer p then pw_readers p = 0 \<and> count_list ms (Some RWLock_READ) = 0 \<and> count_list ms (Some RWLock_WRITE) \<le> 1
      else count_list ms (Some RWLock_READ) \<le> pw_readers p \<and> count_list ms (Some RWLock_WRITE) = 0)"

definition locksys_inv :: "'l locksys \<Rightarrow> bool" where
  "locksys_inv sy \<longleftrightarrow> (\<forall>i<length (sy_tabs sy). lockst_wf (worker sy i)) \<and>
     (\<forall>l. agrees (rwlock (sy_store sy l)) (modes sy l))"

lemma count_list_update:
  "i < length xs \<Longrightarrow>
   count_list (xs[i := y]) z + (if xs ! i = z then 1 else 0) = count_list xs z + (if y = z then 1 else 0)"
proof (induction xs arbitrary: i)
  case (Cons x xs)
  show ?case
  proof (cases i)
    case (Suc j)
    then show ?thesis using Cons.IH [of j] Cons.prems by (auto split: if_splits)
  qed (auto split: if_splits)
qed simp

lemma count_list_pos: "x \<in> set xs \<Longrightarrow> 0 < count_list xs x"
  by (metis count_list_0_iff gr0I)

lemma worker_put [simp]:
  "i < length (sy_tabs sy) \<Longrightarrow> worker (put_worker sy i s) i = s"
  "i \<noteq> j \<Longrightarrow> worker (put_worker sy i s) j = (worker sy j)\<lparr>ls_store := ls_store s\<rparr>"
  by (simp_all add: worker_def put_worker_def)

lemma modes_put:
  "i < length (sy_tabs sy) \<Longrightarrow> modes (put_worker sy i s) l = (modes sy l)[i := mode_in l s]"
  by (rule nth_equalityI)
    (auto simp: modes_def nth_list_update mode_in_def put_worker_def worker_def held_def live_def)

lemma modes_nth:
  "i < length (sy_tabs sy) \<Longrightarrow> modes sy l ! i = mode_in l (worker sy i)"
  "length (modes sy l) = length (sy_tabs sy)"
  by (simp_all add: modes_def)

lemma agrees_grants:
  assumes ag: "agrees p ms" and i: "i < length ms" "ms ! i = None" and g: "grants m p p'"
  shows "agrees p' (ms[i := Some m])"
proof -
  have "set (ms[i := Some m]) \<subseteq> {None, Some RWLock_READ, Some RWLock_WRITE}"
    using ag g set_update_subset_insert [of ms i "Some m"] unfolding agrees_def grants_def by blast
  then show ?thesis
    using ag i g count_list_update [of i ms "Some m" "Some RWLock_READ"]
      count_list_update [of i ms "Some m" "Some RWLock_WRITE"]
    by (auto simp: agrees_def grants_def)
qed

lemma agrees_drops:
  assumes ag: "agrees p ms" and i: "i < length ms" "ms ! i = Some m" and d: "drops p p'"
  shows "agrees p' (ms[i := None])"
proof -
  have m: "m = RWLock_READ \<or> m = RWLock_WRITE"
    using ag i nth_mem [of i ms] by (auto simp: agrees_def)
  have pos: "0 < count_list ms (Some m)" using i count_list_pos nth_mem by metis
  have "set (ms[i := None]) \<subseteq> {None, Some RWLock_READ, Some RWLock_WRITE}"
    using ag set_update_subset_insert [of ms i "None"] unfolding agrees_def by blast
  then show ?thesis
    using ag i d m pos count_list_update [of i ms "None" "Some RWLock_READ"]
      count_list_update [of i ms "None" "Some RWLock_WRITE"]
    by (auto simp: agrees_def drops_def split: if_splits)
qed

lemma agrees_forgets:
  assumes "agrees p ms" and "i < length ms"
  shows "agrees p (ms[i := None])"
proof -
  have "set (ms[i := None]) \<subseteq> {None, Some RWLock_READ, Some RWLock_WRITE}"
    using assms set_update_subset_insert [of ms i None] unfolding agrees_def by blast
  then show ?thesis
    using assms count_list_update [of i ms None "Some RWLock_READ"] count_list_update [of i ms None "Some RWLock_WRITE"]
    by (auto simp: agrees_def split: if_splits)
qed

lemma agrees_drop_exists:
  assumes "agrees p ms" and "i < length ms" and "ms ! i = Some m"
  shows "\<exists>p'. drops p p'"
proof -
  have "m = RWLock_READ \<or> m = RWLock_WRITE"
    using assms nth_mem [of i ms] by (auto simp: agrees_def)
  moreover have "0 < count_list ms (Some m)" using assms count_list_pos nth_mem by metis
  ultimately show ?thesis using assms by (auto simp: agrees_def drops_def split: if_splits)
qed

text \<open>
  A worker's call keeps the invariant when it leaves every lock in agreement with the
  worker's new table.
\<close>

lemma locksys_inv_put:
  assumes inv: "locksys_inv sy" and i: "i < length (sy_tabs sy)" and wf: "lockst_wf s"
    and ag: "\<And>l. agrees (rwlock (ls_store s l)) ((modes sy l)[i := mode_in l s])"
  shows "locksys_inv (put_worker sy i s)"
proof -
  have "lockst_wf (worker (put_worker sy i s) j)" if "j < length (sy_tabs sy)" for j
    using inv i wf that by (cases "i = j") (simp_all add: locksys_inv_def)
  moreover have "agrees (rwlock (sy_store (put_worker sy i s) l)) (modes (put_worker sy i s) l)" for l
    using ag [of l] i by (simp add: modes_put) (simp add: put_worker_def)
  ultimately show ?thesis by (simp add: locksys_inv_def) (simp add: put_worker_def)
qed

lemma mode_in_cong: "held s' l = held s l \<Longrightarrow> mode_in l s' = mode_in l s"
  by (simp add: mode_in_def)

lemma agrees_unchanged:
  assumes inv: "locksys_inv sy" and i: "i < length (sy_tabs sy)"
    and "rwlock (ls_store s l) = rwlock (sy_store sy l)" and "mode_in l s = mode_in l (worker sy i)"
  shows "agrees (rwlock (ls_store s l)) ((modes sy l)[i := mode_in l s])"
proof -
  have "(modes sy l)[i := mode_in l s] = modes sy l"
    using assms(4) i by (metis list_update_id modes_nth(1))
  then show ?thesis using inv assms(3) by (simp add: locksys_inv_def)
qed

lemma worker_store [simp]: "ls_store (worker sy i) = sy_store sy"
  by (simp add: worker_def)

lemma enters_keeps_inv:
  assumes inv: "locksys_inv sy" and i: "i < length (sy_tabs sy)" and wf: "lockst_wf s"
    and en: "enters l m (worker sy i) s"
  shows "locksys_inv (put_worker sy i s)"
proof (rule locksys_inv_put [OF inv i wf])
  fix k
  show "agrees (rwlock (ls_store s k)) ((modes sy k)[i := mode_in k s])"
  proof (cases "k = l \<and> held (worker sy i) l = None")
    case True
    then have "mode_in k s = Some m" "modes sy k ! i = None" "grants m (rwlock (sy_store sy k)) (rwlock (ls_store s k))"
      using en i by (simp_all add: enters_def mode_in_def modes_nth)
    then show ?thesis
      using agrees_grants [of "rwlock (sy_store sy k)" "modes sy k" i m] inv i
      by (simp add: locksys_inv_def modes_nth)
  next
    case False
    then show ?thesis
      using en by (intro agrees_unchanged [OF inv i])
        (auto simp: enters_def mode_in_def only_rwlock_def same_rwlocks_def split: option.splits)
  qed
qed

lemma leaves_keeps_inv:
  assumes inv: "locksys_inv sy" and i: "i < length (sy_tabs sy)" and wf: "lockst_wf s"
    and h: "held (worker sy i) l = Some (m, c)" and lv: "leaves l (worker sy i) s"
  shows "locksys_inv (put_worker sy i s)"
proof (rule locksys_inv_put [OF inv i wf])
  fix k
  show "agrees (rwlock (ls_store s k)) ((modes sy k)[i := mode_in k s])"
  proof (cases "k = l \<and> \<not> c > 1")
    case True
    then have "mode_in k s = None" "modes sy k ! i = Some m" "drops (rwlock (sy_store sy k)) (rwlock (ls_store s k))"
      using lv h i by (simp_all add: leaves_def mode_in_def modes_nth)
    then show ?thesis
      using agrees_drops [of "rwlock (sy_store sy k)" "modes sy k" i m] inv i
      by (simp add: locksys_inv_def modes_nth)
  next
    case False
    then show ?thesis
      using lv h by (intro agrees_unchanged [OF inv i])
        (auto simp: leaves_def mode_in_def only_rwlock_def same_rwlocks_def split: if_splits)
  qed
qed

lemma lock_step_inv:
  assumes st: "lock_step sy sy'" and inv: "locksys_inv sy"
  shows "locksys_inv sy'"
  using st
proof (cases rule: lock_step.cases)
  case (acquire i l m r s)
  then have wf: "lockst_wf (worker sy i)" using inv by (simp add: locksys_inv_def)
  note eff = AcquireRWLockLocal_effect [OF wf acquire(3)]
  show ?thesis
  proof (cases "r = 0")
    case True
    then show ?thesis using eff acquire enters_keeps_inv [OF inv acquire(2)] by auto
  next
    case False
    then have "s = worker sy i" using eff by simp
    moreover have "agrees (rwlock (ls_store (worker sy i) k)) ((modes sy k)[i := mode_in k (worker sy i)])" for k
      by (intro agrees_unchanged [OF inv acquire(2)]) simp_all
    ultimately show ?thesis using acquire(1) locksys_inv_put [OF inv acquire(2) wf] by simp
  qed
next
  case (try_acquire i l m r s)
  then have wf: "lockst_wf (worker sy i)" using inv by (simp add: locksys_inv_def)
  note eff = TryAcquireRWLockLocal_effect [OF wf try_acquire(3)]
  show ?thesis
  proof (cases "r > 0")
    case True
    then show ?thesis using eff try_acquire enters_keeps_inv [OF inv try_acquire(2)] by auto
  next
    case False
    then have "agrees (rwlock (ls_store s k)) ((modes sy k)[i := mode_in k s])" for k
      using eff by (intro agrees_unchanged [OF inv try_acquire(2)] mode_in_cong) (simp_all add: same_rwlocks_def)
    then show ?thesis using eff try_acquire locksys_inv_put [OF inv try_acquire(2)] by simp
  qed
next
  case (release i l m r s)
  then have wf: "lockst_wf (worker sy i)" using inv by (simp add: locksys_inv_def)
  obtain m' c where h: "held (worker sy i) l = Some (m', c)" using release(3) by auto
  from ReleaseRWLockLocal_effect [OF wf h release(4)] show ?thesis
    using release leaves_keeps_inv [OF inv release(2) _ h] by auto
next
  case (release_all i s)
  then have wf: "lockst_wf (worker sy i)" using inv by (simp add: locksys_inv_def)
  note eff = ReleaseLocalLock_effect [OF wf release_all(3)]
  have "agrees (rwlock (ls_store s k)) ((modes sy k)[i := mode_in k s])" for k
  proof -
    have ag: "agrees (rwlock (sy_store sy k)) (modes sy k)" "i < length (modes sy k)" using inv release_all(2) by (simp_all add: locksys_inv_def modes_nth)
    have n: "mode_in k s = None" using eff by (simp add: mode_in_def)
    from eff consider "rwlock (ls_store s k) = rwlock (sy_store sy k)"
      | "held (worker sy i) k \<noteq> None" "drops (rwlock (sy_store sy k)) (rwlock (ls_store s k))" by (auto simp: touched_def)
    then show ?thesis
    proof cases
      case 1
      then show ?thesis using agrees_forgets [OF ag] n by simp
    next
      case 2
      then show ?thesis using agrees_drops [OF ag] n release_all(2) by (auto simp: modes_nth mode_in_def)
    qed
  qed
  then show ?thesis using locksys_inv_put [OF inv release_all(2), of s] eff release_all(1) by simp
qed

lemma init_locksys_inv: "locksys_inv (init_locksys n br)"
proof -
  have "held (worker (init_locksys n br) i) l = None" if "i < n" for i l
    using that by (simp add: held_def live_def worker_def init_locksys_def)
  then have "modes (init_locksys n br) l = replicate n None" for l
    by (auto simp: modes_def mode_in_def init_locksys_def intro!: nth_equalityI)
  moreover have "lockst_wf (worker (init_locksys n br) i)" if "i < n" for i
    using that by (simp add: lockst_wf_def live_def worker_def init_locksys_def init_table_def)
  moreover have "count_list (replicate n None) (Some x) = 0" for x :: RWLockMode
    by (simp add: count_list_0_iff)
  ultimately show ?thesis
    by (simp add: locksys_inv_def agrees_def InitRWLock_def init_locksys_def set_replicate_conv_if)
qed

lemma lock_reachable_inv: "lock_reachable n br sy \<Longrightarrow> locksys_inv sy"
  by (induction rule: lock_reachable.induct) (auto intro: init_locksys_inv lock_step_inv)

lemma count_list_two:
  "i < j \<Longrightarrow> j < length xs \<Longrightarrow> xs ! i = x \<Longrightarrow> xs ! j = x \<Longrightarrow> 2 \<le> count_list xs x"
proof (induction xs arbitrary: i j)
  case (Cons a xs)
  show ?case
  proof (cases i)
    case 0
    then have "x \<in> set xs" using Cons.prems by (cases j) auto
    then show ?thesis using 0 Cons.prems count_list_pos [of x xs] by simp
  next
    case (Suc i')
    then show ?thesis using Cons.IH [of i' "j - 1"] Cons.prems by (cases j) auto
  qed
qed simp

lemma agrees_exclusive:
  assumes ag: "agrees p ms" and "i < length ms" "ms ! i = Some RWLock_WRITE"
    and "j < length ms" "ms ! j \<noteq> None"
  shows "i = j"
proof -
  have w: "0 < count_list ms (Some RWLock_WRITE)" using assms count_list_pos nth_mem by metis
  then have "Some RWLock_READ \<notin> set ms" using ag by (auto simp: agrees_def count_list_0_iff split: if_splits)
  moreover have "ms ! j \<in> set ms" using assms by simp
  ultimately have "ms ! j = Some RWLock_WRITE" using ag assms(5) by (auto simp: agrees_def)
  moreover have "count_list ms (Some RWLock_WRITE) \<le> 1" using ag by (simp add: agrees_def split: if_splits)
  ultimately show ?thesis
    using count_list_two [of i j ms "Some RWLock_WRITE"] count_list_two [of j i ms "Some RWLock_WRITE"] assms
    by (cases i j rule: linorder_cases) auto
qed

lemma ReleaseRWLockLocal_returns:
  assumes wf: "lockst_wf s" and h: "held s l = Some (m', c)"
    and d: "c > 1 \<or> drops (rwlock (ls_store s l)) p"
  obtains s' where "ReleaseRWLockLocal (Some l) m s = Some (0, s')"
proof -
  obtain i where i: "SearchLocalLockTable (Some l) s = int i" "i < ls_used s"
    "ls_table s ! i = \<lparr>ll_lock = Some l, ll_mode = m', ll_cnt = c\<rparr>"
    using search_held [OF wf h] .
  show ?thesis
  proof (cases "c > 1")
    case True
    then show ?thesis using i by (intro that) (simp add: ReleaseRWLockLocal_def Let_def)
  next
    case False
    then obtain lk where "ReleaseRWLock m (ls_store s l) = Some (0, lk)"
      using ReleaseRWLock_returns d by metis
    then show ?thesis using i False by (intro that) (simp add: ReleaseRWLockLocal_def Let_def)
  qed
qed

section \<open>Using a lock and giving it back\<close>

text \<open>\<open>locks_eq s s'\<close>: the worker holds the same locks and every lock is in the same state.\<close>

definition locks_eq :: "'l lockst \<Rightarrow> 'l lockst \<Rightarrow> bool" where
  "locks_eq s s' \<longleftrightarrow> lockst_wf s' \<and> held s' = held s \<and> same_rwlocks s s'"

lemma locks_eq_refl: "lockst_wf s \<Longrightarrow> locks_eq s s"
  by (simp add: locks_eq_def same_rwlocks_def)

lemma locks_eq_trans: "locks_eq s s' \<Longrightarrow> locks_eq s' s'' \<Longrightarrow> locks_eq s s''"
  by (simp add: locks_eq_def same_rwlocks_def)

lemma ls_used_card:
  assumes "lockst_wf s"
  shows "ls_used s = card (dom (held s))"
proof -
  let ?f = "\<lambda>e. (ll_lock e, (ll_mode e, ll_cnt e))"
  have "Some ` dom (held s) = ll_lock ` set (live s)"
  proof
    show "Some ` dom (held s) \<subseteq> ll_lock ` set (live s)"
      by (force simp: held_def dest: map_of_SomeD)
    show "ll_lock ` set (live s) \<subseteq> Some ` dom (held s)"
    proof
      fix x assume "x \<in> ll_lock ` set (live s)"
      then obtain e where e: "e \<in> set (live s)" "x = ll_lock e" by blast
      with assms obtain l where l: "x = Some l" by (auto simp: lockst_wf_def)
      have "map_of (map ?f (live s)) x \<noteq> None" 
        using e by (simp add: map_of_eq_None_iff image_image)
      then show "x \<in> Some ` dom (held s)" using l by (auto simp: held_def)
    qed
  qed
  then have "card (dom (held s)) = card (ll_lock ` set (live s))"
    by (metis card_image inj_Some inj_on_subset subset_UNIV)
  also have "\<dots> = length (live s)"
    using assms distinct_card [of "map ll_lock (live s)"] by (simp add: lockst_wf_def)
  finally show ?thesis using assms by (simp add: length_live)
qed

lemma locks_eq_used: "lockst_wf s \<Longrightarrow> locks_eq s s' \<Longrightarrow> ls_used s' = ls_used s"
  by (simp add: locks_eq_def ls_used_card)

text \<open>A free lock is granted, by the blocking and by the trying call.\<close>

definition lock_free :: "'l \<Rightarrow> 'l lockst \<Rightarrow> bool" where
  "lock_free l s \<longleftrightarrow> held s l = None \<and> \<not> pw_writer (rwlock (ls_store s l)) \<and> pw_readers (rwlock (ls_store s l)) = 0"

lemma lock_free_eq: "locks_eq s s' \<Longrightarrow> lock_free l s' = lock_free l s"
  by (simp add: locks_eq_def lock_free_def same_rwlocks_def)

lemma AcquireRWLockLocal_free:
  assumes wf: "lockst_wf s" and room: "ls_used s < MAX_LOCAL_LOCK_NUM" and fr: "lock_free l s"
    and m: "m = RWLock_READ \<or> m = RWLock_WRITE"
  obtains s' where "AcquireRWLockLocal (Some l) m s = Some (0, s')" "lockst_wf s'" "enters l m s s'"
proof -
  have "SearchLocalLockTable (Some l) s = -1" using search_not_held [OF wf] fr by (simp add: lock_free_def)
  then obtain s' where s': "AcquireRWLockLocal (Some l) m s = Some (0, s')"
    using room fr m by (auto simp: AcquireRWLockLocal_def lock_free_def AcquireRWLock_simps)
  from AcquireRWLockLocal_effect [OF wf s'] that s' show ?thesis by simp
qed

lemma TryAcquireRWLockLocal_free:
  assumes wf: "lockst_wf s" and room: "ls_used s < MAX_LOCAL_LOCK_NUM" and fr: "lock_free l s"
    and m: "m = RWLock_READ \<or> m = RWLock_WRITE"
  obtains s' where "TryAcquireRWLockLocal (Some l) m s = Some (1, s')" "lockst_wf s'" "enters l m s s'"
proof -
  have "SearchLocalLockTable (Some l) s = -1" using search_not_held [OF wf] fr by (simp add: lock_free_def)
  then obtain s' where s': "TryAcquireRWLockLocal (Some l) m s = Some (1, s')"
    using room fr m by (auto simp: TryAcquireRWLockLocal_def lock_free_def TryAcquireRWLock_def
        pthread_rwlock_tryrdlock_def pthread_rwlock_trywrlock_def)
  from TryAcquireRWLockLocal_effect [OF wf s'] that s' show ?thesis by simp
qed

lemma enters_released:
  assumes wf: "lockst_wf s" and wf1: "lockst_wf s1" and en: "enters l m s s1"
  obtains s2 where "ReleaseRWLockLocal (Some l) m' s1 = Some (0, s2)" "locks_eq s s2"
proof -
  obtain c where h1: "held s1 l = Some (m, c)"
    using en by (auto simp: enters_def split: option.splits)
  have "c > 1 \<or> (\<exists>p. drops (rwlock (ls_store s1 l)) p)"
    using en h1 held_cnt [OF wf, of l]
    by (auto simp: enters_def grants_def drops_def split: option.splits)
  then obtain s2 where s2: "ReleaseRWLockLocal (Some l) m' s1 = Some (0, s2)"
    using ReleaseRWLockLocal_returns [OF wf1 h1] by metis
  have wf2: "lockst_wf s2" and lv: "leaves l s1 s2"
    using ReleaseRWLockLocal_effect [OF wf1 h1 s2] by simp_all
  have "held s2 = held s"
    using en lv h1 held_cnt [OF wf, of l]
    by (force simp: enters_def leaves_def fun_eq_iff split: option.splits if_splits)
  moreover have "rwlock (ls_store s2 k) = rwlock (ls_store s k)" for k
    using en lv h1 held_cnt [OF wf, of l]
    by (cases "k = l") (auto simp: enters_def leaves_def only_rwlock_def same_rwlocks_def grants_def drops_def
        split: option.splits if_splits)
  ultimately show ?thesis using that s2 wf2 by (simp add: locks_eq_def same_rwlocks_def)
qed

section \<open>Properties\<close>

text \<open>C14: mutual exclusion. As long as the workers release only locks that their own tables hold (the release of all locks at the
  end of a session included), a lock held by one worker for writing is held by no other worker in any mode, in every state they can
  reach.\<close>

theorem write_lock_exclusive:
  assumes "lock_reachable n br sy"
    and "i < length (sy_tabs sy)" and "held (worker sy i) l = Some (RWLock_WRITE, c)"
    and "j < length (sy_tabs sy)" and "held (worker sy j) l = Some (m, d)"
  shows "i = j"
proof (rule agrees_exclusive)
  show "agrees (rwlock (sy_store sy l)) (modes sy l)"
    using lock_reachable_inv [OF assms(1)] by (simp add: locksys_inv_def)
qed (use assms in \<open>simp_all add: modes_nth mode_in_def\<close>)

text \<open>A concrete run: worker 0 of two takes a lock for writing.\<close>

abbreviation (input) ex_taken :: "unit locksys" where
  "ex_taken \<equiv> \<lparr>sy_store = (\<lambda>_. \<lparr>rwlock = \<lparr>pw_writer = True, pw_readers = 0\<rparr>, lockMode = RWLock_WRITE,
       branch = LB_BUFFER_POOL, rlockCnt = 0\<rparr>),
     sy_tabs = [(init_table[0 := \<lparr>ll_lock = Some (), ll_mode = RWLock_WRITE, ll_cnt = 1\<rparr>], 1), (init_table, 0)]\<rparr>"

lemma ex_taken_acquired:
  "AcquireRWLockLocal (Some ()) RWLock_WRITE (worker (init_locksys 2 (\<lambda>_. LB_BUFFER_POOL)) 0) =
     Some (0, worker ex_taken 0)"
proof -
  let ?i = "init_locksys 2 (\<lambda>_::unit. LB_BUFFER_POOL)"
  have "search_from (worker ?i 0) (Some ()) 0 = -1"
    by (subst search_from.simps) (simp add: worker_def init_locksys_def)
  then show ?thesis
    by (simp add: AcquireRWLockLocal_def SearchLocalLockTable_def worker_def init_locksys_def InitRWLock_def
        MAX_LOCAL_LOCK_NUM_def numeral_2_eq_2 AcquireRWLock_simps note_mode_def new_entry_def Let_def fun_eq_iff)
qed

lemma ex_taken_reachable: "lock_reachable 2 (\<lambda>_. LB_BUFFER_POOL) ex_taken"
proof -
  let ?i = "init_locksys 2 (\<lambda>_::unit. LB_BUFFER_POOL)"
  have "lock_step ?i (put_worker ?i 0 (worker ex_taken 0))"
    using ex_taken_acquired by (rule lock_step.acquire [rotated]) (simp add: init_locksys_def)
  moreover have "put_worker ?i 0 (worker ex_taken 0) = ex_taken"
    by (simp add: put_worker_def worker_def init_locksys_def numeral_2_eq_2)
  ultimately show ?thesis using lock_reachable.init lock_reachable.step by metis
qed

lemma ex_taken_held: "held (worker ex_taken 0) () = Some (RWLock_WRITE, 1)"
  by (simp add: held_def live_def worker_def init_table_def MAX_LOCAL_LOCK_NUM_def numeral_eq_Suc)

theorem write_lock_exclusive_witness:
  "lock_reachable 2 (\<lambda>_. LB_BUFFER_POOL) ex_taken \<and>
   held (worker ex_taken 0) () = Some (RWLock_WRITE, 1) \<and> held (worker ex_taken 1) () = None"
proof -
  have "held (worker ex_taken 1) () = None"
  proof (rule ccontr)
    assume "held (worker ex_taken 1) () \<noteq> None"
    then obtain m d where "held (worker ex_taken 1) () = Some (m, d)" by auto
    then show False
      using write_lock_exclusive [OF ex_taken_reachable _ ex_taken_held, of 1 m d] by simp
  qed
  then show ?thesis using ex_taken_reachable ex_taken_held by simp
qed

text \<open>C15: a release of a held lock returns. In every state that is reachable by workers releasing only locks of their own tables
  (the release of all locks at the end of a session included), the unlock of
  a lock that the worker's table holds is defined, returns 0 and gives the hold back: the
  count goes down, and the last release empties the entry.\<close>

theorem release_of_held_returns:
  assumes "lock_reachable n br sy"
    and "i < length (sy_tabs sy)" and "held (worker sy i) l = Some (m, c)"
  shows "\<exists>s. ReleaseRWLockLocal (Some l) mode (worker sy i) = Some (0, s) \<and>
           held s = (held (worker sy i))(l := (if c > 1 then Some (m, c - 1) else None))"
proof -
  have inv: "locksys_inv sy" using lock_reachable_inv [OF assms(1)] .
  then have wf: "lockst_wf (worker sy i)" using assms(2) by (simp add: locksys_inv_def)
  have "modes sy l ! i = Some m" using assms(2,3) by (simp add: modes_nth mode_in_def)
  then obtain p where "drops (rwlock (sy_store sy l)) p"
    using agrees_drop_exists [of "rwlock (sy_store sy l)" "modes sy l" i m] inv assms(2)
    by (auto simp: locksys_inv_def modes_nth)
  then obtain s where s: "ReleaseRWLockLocal (Some l) mode (worker sy i) = Some (0, s)"
    using ReleaseRWLockLocal_returns [OF wf assms(3)] by (metis worker_store)
  then show ?thesis
    using ReleaseRWLockLocal_effect [OF wf assms(3) s] assms(3)
    by (auto simp: leaves_def split: if_splits)
qed

theorem release_of_held_returns_witness:
  "\<exists>s. ReleaseRWLockLocal (Some ()) RWLock_WRITE (worker ex_taken 0) = Some (0, s) \<and> held s () = None"
  using release_of_held_returns [OF ex_taken_reachable _ ex_taken_held, of RWLock_WRITE] by force

text \<open>
  The lock after an acquire and a release: all that may be different is the recorded mode, which is the mode of the acquire until the
  last release resets it. The release of a read lock compares the count before the subtraction with 0, so it resets nothing.
\<close>

definition mode_left :: "RWLockMode \<Rightarrow> RWLockInfo \<Rightarrow> RWLockMode" where
  "mode_left m lk = (if m = RWLock_READ \<and> rlockCnt lk + 1 \<noteq> 0 then RWLock_READ else RWLock_NULL)"

lemma AcquireRWLock_released:
  "AcquireRWLock m lk = Some (0, lk') \<Longrightarrow> ReleaseRWLock m' lk' = Some (0, lk\<lparr>lockMode := mode_left m lk\<rparr>)"
proof -
  assume acq: "AcquireRWLock m lk = Some (0, lk')"
  show ?thesis
  proof (cases m)
    case RWLock_READ
    then show ?thesis
      using acq
      by (cases lk; cases "rwlock lk")
        (auto simp: AcquireRWLock_simps ReleaseRWLock_def note_mode_def pthread_rwlock_unlock_def mode_left_def Let_def
          atomic_fetch_add_def atomic_fetch_sub_def split: if_splits; simp add: add.commute add.inverse_unique)
  next
    case RWLock_WRITE
    then show ?thesis
      using acq
      by (cases lk; cases "rwlock lk")
        (auto simp: AcquireRWLock_simps ReleaseRWLock_def note_mode_def pthread_rwlock_unlock_def mode_left_def Let_def
          split: if_splits)
  qed (use acq in \<open>simp add: AcquireRWLock_simps\<close>)
qed

lemma bump_entry_store [simp]: "ls_store (bump_entry i d s) = ls_store s"
  by (simp add: bump_entry_def)

lemma acquire_release_store:
  assumes wf: "lockst_wf s" and acq: "AcquireRWLockLocal (Some l) m s = Some (0, s1)"
    and rel: "ReleaseRWLockLocal (Some l) m' s1 = Some (0, s2)"
  shows "ls_store s2 = (if held s l = None then (ls_store s)(l := (ls_store s l)\<lparr>lockMode := mode_left m (ls_store s l)\<rparr>) else ls_store s)"
proof -
  have wf1: "lockst_wf s1" and en: "enters l m s s1" using AcquireRWLockLocal_effect [OF wf acq] by simp_all
  obtain c where h1: "held s1 l = Some (m, c)" using en by (auto simp: enters_def split: option.splits)
  obtain i where i: "SearchLocalLockTable (Some l) s1 = int i" "i < ls_used s1"
    "ls_table s1 ! i = \<lparr>ll_lock = Some l, ll_mode = m, ll_cnt = c\<rparr>"
    using search_held [OF wf1 h1] .
  show ?thesis
  proof (cases "held s l")
    case None
    then have c: "c = 1" using en h1 by (simp add: enters_def)
    obtain lk where lk: "AcquireRWLock m (ls_store s l) = Some (0, lk)" and st: "ls_store s1 = (ls_store s)(l := lk)"
      using acq search_not_held [OF wf None]
      by (auto simp: AcquireRWLockLocal_def new_entry_def Let_def split: Option.bind_splits if_splits)
    have "ReleaseRWLock m' (ls_store s1 l) = Some (0, (ls_store s l)\<lparr>lockMode := mode_left m (ls_store s l)\<rparr>)"
      using AcquireRWLock_released [OF lk] by (simp add: st)
    then show ?thesis
      using rel i c None by (auto simp: ReleaseRWLockLocal_def RemoveLocalLock_def Let_def st)
  next
    case (Some mc)
    obtain m0 c0 where h: "held s l = Some (m0, c0)" using Some by (cases mc) simp
    then have "c > 1" using en h1 held_cnt [OF wf h] by (simp add: enters_def)
    then have "ls_store s2 = ls_store s1" using rel i by (auto simp: ReleaseRWLockLocal_def Let_def)
    moreover have "ls_store s1 = ls_store s"
    proof (rule AcquireRWLockLocal_held [OF wf h, of m])
      fix j
      assume "AcquireRWLockLocal (Some l) m s =
       (if MAX_LOCAL_LOCK_NUM \<le> ls_used s then Some (-1, s)
        else if m0 = m then (if c0 < 2 ^ 31 - 1 then Some (0, bump_entry j 1 s) else None) else Some (-2, s))"
      then show ?thesis using acq by (auto split: if_splits)
    qed
    ultimately show ?thesis using h by simp
  qed
qed

text \<open>C16: acquire followed by release, exactly. When a worker acquires a lock and then
  releases it, the release returns 0, the table is as before, and so is every lock but for the recorded mode of the lock itself: for a lock
  that the worker did not hold before, the mode stays \<open>RWLock_READ\<close> after a read lock (unless the count of readers wraps around) and is
  \<open>RWLock_NULL\<close> after a write lock. In particular the state of every pthread lock is as before.\<close>

theorem acquire_release_neutral:
  assumes "lockst_wf s" and "AcquireRWLockLocal (Some l) m s = Some (0, s1)"
  shows "\<exists>s2. ReleaseRWLockLocal (Some l) m' s1 = Some (0, s2) \<and> held s2 = held s \<and> ls_used s2 = ls_used s \<and>
           ls_store s2 = (if held s l = None
             then (ls_store s)(l := (ls_store s l)\<lparr>lockMode := mode_left m (ls_store s l)\<rparr>) else ls_store s) \<and>
           (\<forall>k. rwlock (ls_store s2 k) = rwlock (ls_store s k))"
proof -
  have "lockst_wf s1" "enters l m s s1" using AcquireRWLockLocal_effect [OF assms] by simp_all
  then obtain s2 where s2: "ReleaseRWLockLocal (Some l) m' s1 = Some (0, s2)" "locks_eq s s2"
    using enters_released [OF assms(1)] by metis
  then show ?thesis
    using acquire_release_store [OF assms s2(1)] locks_eq_used [OF assms(1) s2(2)]
    by (auto simp: locks_eq_def same_rwlocks_def)
qed

theorem acquire_release_neutral_witness:
  "\<exists>s2. ReleaseRWLockLocal (Some ()) RWLock_WRITE (worker ex_taken 0) = Some (0, s2) \<and>
     held s2 () = None \<and> \<not> pw_writer (rwlock (ls_store s2 ()))"
proof -
  let ?i = "worker (init_locksys 2 (\<lambda>_::unit. LB_BUFFER_POOL)) 0"
  have wf: "lockst_wf ?i"
    using init_locksys_inv [of 2 "\<lambda>_::unit. LB_BUFFER_POOL"] by (simp add: locksys_inv_def init_locksys_def)
  have "held ?i () = None" by (simp add: held_def live_def worker_def init_locksys_def)
  moreover have "\<not> pw_writer (rwlock (ls_store ?i ()))" by (simp add: init_locksys_def InitRWLock_def)
  ultimately show ?thesis
    using acquire_release_neutral [OF wf ex_taken_acquired, of RWLock_WRITE] by metis
qed


abbreviation (input) ex_thief :: "bool lockst" where
  "ex_thief \<equiv> \<lparr>ls_store = (\<lambda>_. \<lparr>rwlock = \<lparr>pw_writer = True, pw_readers = 0\<rparr>, lockMode = RWLock_WRITE,
       branch = LB_BUFFER_POOL, rlockCnt = 0\<rparr>),
     ls_table = init_table[0 := \<lparr>ll_lock = Some True, ll_mode = RWLock_WRITE, ll_cnt = 1\<rparr>], ls_used = 1\<rparr>"


text \<open>C19: the release of all locks at the end of a session misses locks. With two
  different locks held once each, \<^verbatim>\<open>ReleaseLocalLock\<close> unlocks the first, drops the
  second from the table and leaves it locked: the table is empty and nobody can unlock it.\<close>

theorem ReleaseLocalLock_forgets_second:
  assumes "lockst_wf s" and "ls_used s = 2" and "l1 \<noteq> l2"
    and "ls_table s ! 0 = \<lparr>ll_lock = Some l1, ll_mode = m1, ll_cnt = 1\<rparr>"
    and "ls_table s ! 1 = \<lparr>ll_lock = Some l2, ll_mode = m2, ll_cnt = 1\<rparr>"
    and "drops (rwlock (ls_store s l1)) p"
  shows "\<exists>s'. ReleaseLocalLock s = Some s' \<and> ls_used s' = 0 \<and>
           rwlock (ls_store s' l1) = p \<and> rwlock (ls_store s' l2) = rwlock (ls_store s l2)"
proof -
  have search: "SearchLocalLockTable (Some l1) s = 0"
    unfolding SearchLocalLockTable_def using assms(2,4) by (subst search_from.simps) simp
  obtain lk where lk: "ReleaseRWLock RWLock_NULL (ls_store s l1) = Some (0, lk)"
    using ReleaseRWLock_returns assms(6) by metis
  have p: "rwlock lk = p"
    using ReleaseRWLock_drops [OF lk] assms(6) by (auto simp: drops_def)
  let ?s = "RemoveLocalLock 0 (s\<lparr>ls_store := (ls_store s)(l1 := lk)\<rparr>)"
  have "ReleaseRWLockLocal (Some l1) RWLock_NULL s = Some (0, ?s)"
    using search lk assms(2,4) by (simp add: ReleaseRWLockLocal_def Let_def)
  moreover have used: "ls_used ?s = 1" using assms(2) by (simp add: RemoveLocalLock_def)
  ultimately have "release_locks_from 0 s = Some (?s\<lparr>ls_table := (ls_table ?s)[0 := empty_entry]\<rparr>)"
    using assms(2,4) by (simp add: release_locks_from.simps [of 0] release_locks_from.simps [of "Suc 0"])
  then have "ReleaseLocalLock s = Some (?s\<lparr>ls_table := (ls_table ?s)[0 := empty_entry], ls_used := 0\<rparr>)"
    by (simp add: ReleaseLocalLock_def)
  then show ?thesis using p assms(3) by auto
qed

abbreviation (input) ex_two :: "bool lockst" where
  "ex_two \<equiv> \<lparr>ls_store = (\<lambda>_. \<lparr>rwlock = \<lparr>pw_writer = True, pw_readers = 0\<rparr>, lockMode = RWLock_WRITE,
       branch = LB_BUFFER_POOL, rlockCnt = 0\<rparr>),
     ls_table = init_table[0 := \<lparr>ll_lock = Some True, ll_mode = RWLock_WRITE, ll_cnt = 1\<rparr>,
       1 := \<lparr>ll_lock = Some False, ll_mode = RWLock_WRITE, ll_cnt = 1\<rparr>], ls_used = 2\<rparr>"

theorem ReleaseLocalLock_forgets_second_witness:
  "\<exists>s'. ReleaseLocalLock ex_two = Some s' \<and> ls_used s' = 0 \<and> \<not> pw_writer (rwlock (ls_store s' True)) \<and>
     pw_writer (rwlock (ls_store s' False))"
proof -
  have "lockst_wf ex_two"
    by (auto simp: lockst_wf_def live_def init_table_def MAX_LOCAL_LOCK_NUM_def numeral_eq_Suc)
  then show ?thesis
    using ReleaseLocalLock_forgets_second [of ex_two True False RWLock_WRITE RWLock_WRITE
        "\<lparr>pw_writer = False, pw_readers = 0\<rparr>"]
    by (auto simp: drops_def init_table_def MAX_LOCAL_LOCK_NUM_def numeral_eq_Suc)
qed

text \<open>C20: the spin lock waits a bounded time only. \<^verbatim>\<open>SpinLockAquire\<close> returns owning
  the lock exactly when one of its first \<open>(SPIN_DELAY_MAX + 1)\<^sup>2\<close> tests finds the lock
  free; otherwise it returns all the same, without the lock.\<close>

theorem SpinLockAquire_owns_iff:
  "fst (SpinLockAquire busy) \<longleftrightarrow> (\<exists>j < (SPIN_DELAY_MAX + 1)\<^sup>2. \<not> busy j)"
  using spin_loop_iff [of 0 SPIN_DELAY_MAX 0 "(SPIN_DELAY_MAX + 1)\<^sup>2" busy 0]
  by (simp add: SpinLockAquire_def power2_eq_square)

end
