(* ===== verification/Hashtab.thy ===== *)
theory Hashtab
  imports Toadb_Prelude
begin

unbundle bit_operations_syntax

text \<open>
  The partitioned hash table of \<^verbatim>\<open>src/util/hashtable/hashtab.c\<close>, which maps buffer tags
  to buffers.

  The elements are objects of a heap, linked by their \<open>link\<close> field into the free list and
  into one chain per bucket; a value is the bytes behind the element header. Each segment has
  its buckets and its lock. Locks are flags: taking a taken lock has no result. Every access
  of the segment array, of a bucket array and of an element is checked.

  The hash function (\<^verbatim>\<open>spooky_hash64\<close>) is only stored in the table by this file, the keys
  come from the caller. The table is shown to implement a finite map from (key, key bytes) to
  values; the interface is the locale \<open>hash_map\<close>.
\<close>

section \<open>Power-of-two arithmetic\<close>

definition getAlignNum :: "u32 \<Rightarrow> u64" where
  "getAlignNum num =
     (let mask = ucast (num - 1) :: u64;
          mask = mask OR drop_bit 1 mask;
          mask = mask OR drop_bit 2 mask;
          mask = mask OR drop_bit 4 mask;
          mask = mask OR drop_bit 8 mask;
          mask = mask OR drop_bit 16 mask
      in mask + 1)"

function shift_loop :: "u64 \<Rightarrow> int \<Rightarrow> int" where
  "shift_loop key shift =
     (let key = drop_bit 1 key in if key \<noteq> 0 then shift_loop key (shift + 1) else shift)"
  by pat_completeness auto
termination
proof (relation "measure (\<lambda>(key, shift). unat key)")
  fix key x :: u64 and shift :: int
  assume x: "x = drop_bit 1 key" and "x \<noteq> 0"
  then have "key \<noteq> 0" by auto
  then have "unat key \<noteq> 0" by (simp add: unat_eq_0)
  moreover have "unat (drop_bit 1 key) = unat key div 2"
    by (simp add: drop_bit_eq_div unat_div)
  ultimately show "((x, shift + 1), key, shift) \<in> measure (\<lambda>(key, shift). unat key)"
    using x by simp
qed simp

declare shift_loop.simps [simp del]

definition getShiftNum :: "u64 \<Rightarrow> int" where
  "getShiftNum key = shift_loop key 0"

section \<open>The table\<close>

text \<open>\<^verbatim>\<open>memcmp\<close> of \<open>n\<close> bytes; comparing beyond the end of an operand has no result.\<close>

fun memcmp :: "nat \<Rightarrow> byte list \<Rightarrow> byte list \<Rightarrow> int option" where
  "memcmp 0 xs ys = Some 0"
| "memcmp (Suc n) (x # xs) (y # ys) =
     (if x = y then memcmp n xs ys else Some (if x < y then -1 else 1))"
| "memcmp (Suc n) _ _ = None"

record HashElement =
  he_link :: ptr
  hashKey :: u64
  he_value :: "byte list"

record HashSegment =
  segLock :: bool
  segBuckets :: "ptr list"

record HashTableInfo =
  initNum :: int
  maxNum :: int
  partitionNum :: int
  valueSize :: nat
  keyValueSize :: nat
  ht_buckets :: ptr
  freeHashElementList :: ptr
  freeListLock :: bool
  freeNum :: int
  partitionMask :: u64
  bucketMask :: u64
  partitionShift :: int
  bucketShift :: int
  hashSegmentSize :: int
  segmentArray :: "HashSegment list"
  usedNum :: int
  ht_heap :: "ptr \<rightharpoonup> HashElement"

datatype HashOp = HASH_FIND | HASH_INSERT | HASH_DELETE | HASH_NULL

definition HASH_ELEMENT_SIZE :: nat where
  "HASH_ELEMENT_SIZE = 16"

definition HASH_SEGMENT_SIZE :: int where
  "HASH_SEGMENT_SIZE = 32"

definition HASH_BITS :: int where
  "HASH_BITS = 64"

section \<open>Creation\<close>

text \<open>
  The elements lie behind the table header in one zeroed block at \<open>base\<close>;
  \<open>init_elements\<close> is the loop that threads the free list through them: it links element
  \<open>index - 1\<close> (at \<open>element\<close>) to the next one.
\<close>

definition zero_element :: "nat \<Rightarrow> HashElement" where
  "zero_element vs = \<lparr>he_link = NULL, hashKey = 0, he_value = replicate vs 0\<rparr>"

function init_elements ::
    "int \<Rightarrow> nat \<Rightarrow> int \<Rightarrow> ptr \<Rightarrow> (ptr \<rightharpoonup> HashElement) \<Rightarrow> (ptr \<rightharpoonup> HashElement)" where
  "init_elements maxnum vs index element h =
     (if index < maxnum then
        init_elements maxnum vs (index + 1) (element + vs + HASH_ELEMENT_SIZE)
          (h(element \<mapsto> (zero_element vs)\<lparr>he_link := element + vs + HASH_ELEMENT_SIZE\<rparr>))
      else h(element \<mapsto> (zero_element vs)\<lparr>he_link := NULL\<rparr>))"
  by pat_completeness auto
termination
  by (relation "measure (\<lambda>(m, vs, i, e, h). nat (m - i))") auto

declare init_elements.simps [simp del]

text \<open>\<^verbatim>\<open>GetHashTableSize\<close> in the 32-bit arithmetic of its \<open>int\<close> result.\<close>

definition sizeof_HashSegment :: u64 where
  "sizeof_HashSegment = 16"

definition sizeof_HashTableInfo :: u64 where
  "sizeof_HashTableInfo = 160"

definition GetHashTableSize :: "i32 \<Rightarrow> i32 \<Rightarrow> i32 \<Rightarrow> i32" where
  "GetHashTableSize partNum maxnum vs =
     (let len = ucast (getAlignNum maxnum * (scast vs + of_nat HASH_ELEMENT_SIZE)) :: i32;
          len = ucast (scast len + getAlignNum partNum * (sizeof_HashSegment + scast len)) :: i32;
          len = ucast (scast len + sizeof_HashTableInfo) :: i32
      in len)"

definition InitHashTable :: "HashTableInfo \<Rightarrow> HashTableInfo" where
  "InitHashTable t =
     t\<lparr>freeHashElementList := ht_buckets t,
       ht_heap := init_elements (maxNum t) (valueSize t) 1 (ht_buckets t) Map.empty,
       freeNum := maxNum t, freeListLock := False, usedNum := 0,
       segmentArray := replicate (nat (partitionNum t))
         \<lparr>segLock = False, segBuckets = replicate (nat (hashSegmentSize t)) NULL\<rparr>\<rparr>"

text \<open>
  The end of the table in its block: the header, the elements, the segments and their buckets. \<^verbatim>\<open>GetHashTableSize\<close>
  does not count the buckets.
\<close>

definition layout_end :: "int \<Rightarrow> int \<Rightarrow> nat \<Rightarrow> int" where
  "layout_end parts elems vs = uint sizeof_HashTableInfo + elems * (int vs + int HASH_ELEMENT_SIZE) +
     parts * uint sizeof_HashSegment + parts * (HASH_SEGMENT_SIZE * 8)"

text \<open>
  \<open>base\<close> is the address of the first element and \<open>nl\<close> the length of the name. There is no result when parts of the
  table lie outside of the block, or when its size is no \<^verbatim>\<open>int\<close>. A shift by the full width of the key (one
  partition) is undefined.
\<close>

definition HashTableCreate :: "i32 \<Rightarrow> i32 \<Rightarrow> i32 \<Rightarrow> nat \<Rightarrow> nat \<Rightarrow> nat \<Rightarrow> ptr \<Rightarrow> HashTableInfo option" where
  "HashTableCreate partNum maxSize initSize vs kvs nl base =
     (let len = sint (GetHashTableSize partNum maxSize (of_nat vs)) + int nl;
          bm = getAlignNum maxSize; bs = getShiftNum bm; bm = NOT (bm - 1);
          pm = getAlignNum partNum; ps = HASH_BITS - getShiftNum pm
      in if 2 ^ 31 \<le> int vs \<or> 2 ^ 31 \<le> len \<or> len < layout_end (sint partNum) (sint maxSize) vs then None
         else if ps < 0 \<or> HASH_BITS \<le> ps then None
         else let pm = NOT (push_bit (nat ps) 1 - 1)
         in Some (InitHashTable
              \<lparr>initNum = sint initSize, maxNum = sint maxSize, partitionNum = sint partNum,
               valueSize = vs, keyValueSize = kvs, ht_buckets = base,
               freeHashElementList = NULL, freeListLock = False, freeNum = 0,
               partitionMask = pm, bucketMask = bm, partitionShift = ps, bucketShift = bs,
               hashSegmentSize = HASH_SEGMENT_SIZE, segmentArray = [], usedNum = 0,
               ht_heap = Map.empty\<rparr>))"

section \<open>Locks and indices\<close>

definition HashLockPartition :: "int \<Rightarrow> HashTableInfo \<Rightarrow> HashTableInfo option" where
  "HashLockPartition p t = do {
     seg \<leftarrow> arr_get (segmentArray t) p;
     if segLock seg then None
     else do { a \<leftarrow> arr_set (segmentArray t) p (seg\<lparr>segLock := True\<rparr>); Some (t\<lparr>segmentArray := a\<rparr>) } }"

definition HashLockPartitionRelease :: "int \<Rightarrow> HashTableInfo \<Rightarrow> HashTableInfo option" where
  "HashLockPartitionRelease p t = do {
     seg \<leftarrow> arr_get (segmentArray t) p;
     a \<leftarrow> arr_set (segmentArray t) p (seg\<lparr>segLock := False\<rparr>);
     Some (t\<lparr>segmentArray := a\<rparr>) }"

definition HashLockFreeList :: "HashTableInfo \<Rightarrow> HashTableInfo option" where
  "HashLockFreeList t = (if freeListLock t then None else Some (t\<lparr>freeListLock := True\<rparr>))"

definition HashLockReleaseFreeList :: "HashTableInfo \<Rightarrow> HashTableInfo" where
  "HashLockReleaseFreeList t = t\<lparr>freeListLock := False\<rparr>"

text \<open>
  In C \<open>>>\<close> and \<open>%\<close> bind tighter than \<open>&\<close>: the key is masked last.
\<close>

definition GetPartitionIndex :: "u64 \<Rightarrow> HashTableInfo \<Rightarrow> int" where
  "GetPartitionIndex key t = sint (ucast (key AND drop_bit (nat (partitionShift t)) (partitionMask t)) :: i32)"

definition GetBucketIndex :: "u64 \<Rightarrow> HashTableInfo \<Rightarrow> int" where
  "GetBucketIndex key t =
     sint (ucast (key AND (NOT (partitionMask t) mod word_of_int (hashSegmentSize t))) :: i32)"

definition bucket_get :: "HashTableInfo \<Rightarrow> int \<Rightarrow> int \<Rightarrow> ptr option" where
  "bucket_get t p b = do { seg \<leftarrow> arr_get (segmentArray t) p; arr_get (segBuckets seg) b }"

definition bucket_set :: "HashTableInfo \<Rightarrow> int \<Rightarrow> int \<Rightarrow> ptr \<Rightarrow> HashTableInfo option" where
  "bucket_set t p b e = do {
     seg \<leftarrow> arr_get (segmentArray t) p;
     bs \<leftarrow> arr_set (segBuckets seg) b e;
     a \<leftarrow> arr_set (segmentArray t) p (seg\<lparr>segBuckets := bs\<rparr>);
     Some (t\<lparr>segmentArray := a\<rparr>) }"

section \<open>Chains\<close>

text \<open>The test of both bucket loops, short-circuited as in C.\<close>

definition element_matches :: "HashTableInfo \<Rightarrow> HashElement \<Rightarrow> u64 \<Rightarrow> byte list \<Rightarrow> bool option" where
  "element_matches t e key value =
     (if hashKey e = key then do { c \<leftarrow> memcmp (keyValueSize t) (he_value e) value; Some (c = 0) }
      else Some False)"

partial_function (option) GetHashEntryFromBucket ::
    "HashTableInfo \<Rightarrow> ptr \<Rightarrow> u64 \<Rightarrow> byte list \<Rightarrow> ptr option" where
  "GetHashEntryFromBucket t element key value =
     (if element = NULL then Some NULL
      else do {
        e \<leftarrow> ht_heap t element;
        m \<leftarrow> element_matches t e key value;
        if m then Some element else GetHashEntryFromBucket t (he_link e) key value })"

text \<open>
  The loop of \<^verbatim>\<open>DeleteHashEntryFromBucket\<close>: the new head of the bucket, the unlinked
  element (or null) and the table.
\<close>

partial_function (option) delete_loop ::
    "HashTableInfo \<Rightarrow> ptr \<Rightarrow> ptr \<Rightarrow> ptr \<Rightarrow> u64 \<Rightarrow> byte list \<Rightarrow> (ptr \<times> ptr \<times> HashTableInfo) option" where
  "delete_loop t head element preelement key value =
     (if element = NULL then Some (head, NULL, t)
      else do {
        e \<leftarrow> ht_heap t element;
        m \<leftarrow> element_matches t e key value;
        if m then do {
          let head = (if preelement = element then he_link e else head);
          pe \<leftarrow> ht_heap t preelement;
          Some (head, element,
            t\<lparr>ht_heap := (ht_heap t)(preelement \<mapsto> pe\<lparr>he_link := he_link e\<rparr>), usedNum := usedNum t - 1\<rparr>) }
        else delete_loop t head (he_link e) element key value })"

definition DeleteHashEntryFromBucket ::
    "HashTableInfo \<Rightarrow> int \<Rightarrow> int \<Rightarrow> u64 \<Rightarrow> byte list \<Rightarrow> (ptr \<times> HashTableInfo) option" where
  "DeleteHashEntryFromBucket t p b key value = do {
     head \<leftarrow> bucket_get t p b;
     (head, element, t) \<leftarrow> delete_loop t head head head key value;
     t \<leftarrow> bucket_set t p b head;
     Some (element, t) }"

definition GetFromFreeList :: "HashTableInfo \<Rightarrow> (ptr \<times> HashTableInfo) option" where
  "GetFromFreeList t = do {
     t \<leftarrow> HashLockFreeList t;
     (entry, t) \<leftarrow>
       (if freeHashElementList t \<noteq> NULL then do {
          let entry = freeHashElementList t;
          e \<leftarrow> ht_heap t entry;
          Some (entry, t\<lparr>freeHashElementList := he_link e,
                         ht_heap := (ht_heap t)(entry \<mapsto> e\<lparr>he_link := NULL\<rparr>),
                         freeNum := freeNum t - 1\<rparr>) }
        else Some (NULL, t));
     Some (entry, HashLockReleaseFreeList t) }"

definition PutFreeList :: "ptr \<Rightarrow> HashTableInfo \<Rightarrow> HashTableInfo option" where
  "PutFreeList entry t =
     (if entry = NULL then Some t
      else do {
        t \<leftarrow> HashLockFreeList t;
        e \<leftarrow> ht_heap t entry;
        Some (HashLockReleaseFreeList
          (t\<lparr>ht_heap := (ht_heap t)(entry \<mapsto> e\<lparr>he_link := freeHashElementList t\<rparr>),
             freeHashElementList := entry, freeNum := freeNum t + 1\<rparr>)) })"

section \<open>The operations\<close>

definition HashDeleteEntry :: "u64 \<Rightarrow> byte list \<Rightarrow> HashTableInfo \<Rightarrow> (int \<times> HashTableInfo) option" where
  "HashDeleteEntry key value t = do {
     let p = GetPartitionIndex key t;
     t \<leftarrow> HashLockPartition p t;
     let b = GetBucketIndex key t;
     (entry, t) \<leftarrow> DeleteHashEntryFromBucket t p b key value;
     t \<leftarrow> HashLockPartitionRelease p t;
     if entry \<noteq> NULL then do { t \<leftarrow> PutFreeList entry t; Some (0, t) } else Some (-1, t) }"

definition HashFindEntry :: "u64 \<Rightarrow> byte list \<Rightarrow> int \<Rightarrow> HashTableInfo \<Rightarrow> ptr option" where
  "HashFindEntry key value part t = do {
     let b = GetBucketIndex key t;
     head \<leftarrow> bucket_get t part b;
     GetHashEntryFromBucket t head key value }"

text \<open>\<^verbatim>\<open>valueCopy\<close> overwrites the first \<open>n\<close> bytes of the element's value.\<close>

definition valueCopy :: "ptr \<Rightarrow> byte list \<Rightarrow> nat \<Rightarrow> HashTableInfo \<Rightarrow> HashTableInfo option" where
  "valueCopy entry value n t = do {
     e \<leftarrow> ht_heap t entry;
     if n \<le> length value \<and> n \<le> length (he_value e)
     then Some (t\<lparr>ht_heap := (ht_heap t)(entry \<mapsto> e\<lparr>he_value := take n value @ drop n (he_value e)\<rparr>)\<rparr>)
     else None }"

definition HashGetFreeEntry :: "u64 \<Rightarrow> byte list \<Rightarrow> HashTableInfo \<Rightarrow> (ptr \<times> HashOp \<times> HashTableInfo) option" where
  "HashGetFreeEntry key value t = do {
     let p = GetPartitionIndex key t;
     t \<leftarrow> HashLockPartition p t;
     let b = GetBucketIndex key t;
     head \<leftarrow> bucket_get t p b;
     entry \<leftarrow> GetHashEntryFromBucket t head key value;
     if entry \<noteq> NULL then do {
       t \<leftarrow> HashLockPartitionRelease p t;
       Some (entry, HASH_FIND, t) }
     else do {
       (entry, t) \<leftarrow> GetFromFreeList t;
       if entry = NULL then do {
         t \<leftarrow> HashLockPartitionRelease p t;
         Some (NULL, HASH_NULL, t) }
       else do {
         head \<leftarrow> bucket_get t p b;
         e \<leftarrow> ht_heap t entry;
         t \<leftarrow> bucket_set (t\<lparr>ht_heap := (ht_heap t)(entry \<mapsto> e\<lparr>he_link := head\<rparr>)\<rparr>) p b entry;
         let t = t\<lparr>usedNum := usedNum t + 1\<rparr>;
         e \<leftarrow> ht_heap t entry;
         t \<leftarrow> valueCopy entry value (valueSize t) (t\<lparr>ht_heap := (ht_heap t)(entry \<mapsto> e\<lparr>hashKey := key\<rparr>)\<rparr>);
         t \<leftarrow> HashLockPartitionRelease p t;
         Some (entry, HASH_INSERT, t) } } }"

definition GetEntryValue :: "ptr \<Rightarrow> HashTableInfo \<Rightarrow> byte list option" where
  "GetEntryValue element t = map_option he_value (ht_heap t element)"

section \<open>Bit smearing\<close>

lemma bit_or_shift: "bit (x OR drop_bit n x) i \<longleftrightarrow> bit x i \<or> bit x (i + n)" for x :: u64
  by (auto simp: bit_simps add.commute)

text \<open>The bits of the smeared mask: some bit at or above the position is set.\<close>

lemma getAlignNum_bit:
  "bit (getAlignNum num - 1) i \<longleftrightarrow> (\<exists>j<32. bit (num - 1) (i + j))"
proof -
  define x where "x = (ucast (num - 1) :: u64)"
  define x1 where "x1 = x OR drop_bit 1 x"
  define x2 where "x2 = x1 OR drop_bit 2 x1"
  define x3 where "x3 = x2 OR drop_bit 4 x2"
  define x4 where "x4 = x3 OR drop_bit 8 x3"
  define x5 where "x5 = x4 OR drop_bit 16 x4"
  have ex: "(\<exists>j<n + n. P (i + j)) \<longleftrightarrow> (\<exists>j<n. P (i + j)) \<or> (\<exists>j<n. P (i + n + j))" for n i :: nat and P
  proof
    assume "\<exists>j<n + n. P (i + j)"
    then obtain j where "j < n + n" "P (i + j)" by blast
    then have "j < n \<and> P (i + j) \<or> j - n < n \<and> P (i + n + (j - n))" by auto
    then show "(\<exists>j<n. P (i + j)) \<or> (\<exists>j<n. P (i + n + j))" by blast
  next
    assume "(\<exists>j<n. P (i + j)) \<or> (\<exists>j<n. P (i + n + j))"
    then obtain j where "j < n" "P (i + j) \<or> P (i + (n + j))" by (auto simp: add.assoc)
    then have "j < n + n \<and> P (i + j) \<or> n + j < n + n \<and> P (i + (n + j))" by auto
    then show "\<exists>j<n + n. P (i + j)" by blast
  qed
  have 1: "bit x1 i \<longleftrightarrow> (\<exists>j<2. bit x (i + j))" for i
    by (auto simp: x1_def bit_or_shift numeral_2_eq_2 less_Suc_eq)
  have 2: "bit x2 i \<longleftrightarrow> (\<exists>j<4. bit x (i + j))" for i
    using ex [of 2 "bit x" i] by (simp add: x2_def bit_or_shift 1)
  have 3: "bit x3 i \<longleftrightarrow> (\<exists>j<8. bit x (i + j))" for i
    using ex [of 4 "bit x" i] by (simp add: x3_def bit_or_shift 2)
  have 4: "bit x4 i \<longleftrightarrow> (\<exists>j<16. bit x (i + j))" for i
    using ex [of 8 "bit x" i] by (simp add: x4_def bit_or_shift 3)
  have 5: "bit x5 i \<longleftrightarrow> (\<exists>j<32. bit x (i + j))" for i
    using ex [of 16 "bit x" i] by (simp add: x5_def bit_or_shift 4)
  have "getAlignNum num - 1 = x5"
    by (simp add: getAlignNum_def Let_def x5_def x4_def x3_def x2_def x1_def x_def)
  moreover have "bit x k \<longleftrightarrow> bit (num - 1) k" for k
    using bit_imp_le_length [of "num - 1" k] by (auto simp: x_def bit_simps)
  ultimately show ?thesis by (simp add: 5)
qed

text \<open>\<open>bits n\<close>: the number of binary digits of \<open>n\<close>.\<close>

definition bits :: "nat \<Rightarrow> nat" where
  "bits n = (LEAST k. n < 2 ^ k)"

lemma bits_bound: "n < 2 ^ bits n"
  unfolding bits_def by (rule LeastI [of _ n]) (rule less_exp)

lemma bits_least: "n < 2 ^ k \<Longrightarrow> bits n \<le> k"
  unfolding bits_def by (rule Least_le)

lemma bits_lower: "0 < bits n \<Longrightarrow> 2 ^ (bits n - 1) \<le> n"
proof (rule ccontr)
  assume "0 < bits n" "\<not> 2 ^ (bits n - 1) \<le> n"
  then have "bits n \<le> bits n - 1" by (intro bits_least) simp
  then show False using \<open>0 < bits n\<close> by simp
qed

lemma bits_iff: "i < bits n \<longleftrightarrow> 2 ^ i \<le> n"
proof
  assume i: "i < bits n"
  then have "(2::nat) ^ i \<le> 2 ^ (bits n - 1)" by (intro power_increasing) auto
  also have "\<dots> \<le> n" using i by (intro bits_lower) simp
  finally show "2 ^ i \<le> n" .
next
  assume "2 ^ i \<le> n"
  also have "n < 2 ^ bits n" by (rule bits_bound)
  finally show "i < bits n" by simp
qed

lemma top_bit:
  fixes n :: nat
  assumes "2 ^ i \<le> n"
  shows "\<exists>j\<ge>i. bit n j"
proof -
  let ?k = "bits n - 1"
  have i: "i < bits n" using assms bits_iff by simp
  then have "2 ^ ?k \<le> n" by (intro bits_lower) simp
  moreover have "n < 2 * 2 ^ ?k" using bits_bound [of n] i
    by (metis Suc_pred' gr_zeroI not_less_zero power_Suc)
  ultimately have "n div 2 ^ ?k = 1"
    by (intro div_nat_eqI) simp_all
  then have "bit n ?k" by (simp add: bit_iff_odd)
  then show ?thesis using i by (intro exI [of _ ?k]) simp
qed

lemma bit_ge: "bit n j \<Longrightarrow> i \<le> j \<Longrightarrow> 2 ^ i \<le> n" for n :: nat
proof (rule ccontr)
  assume b: "bit n j" and ij: "i \<le> j" and "\<not> 2 ^ i \<le> n"
  then have "n < 2 ^ i" by simp
  also have "(2::nat) ^ i \<le> 2 ^ j" using ij by (rule power_increasing) simp
  finally show False using b by (simp add: bit_iff_odd)
qed

lemma unat_lt_2p: "unat (x :: u32) < 2 ^ 32"
  using unsigned_less [of x] by simp

lemma getAlignNum_mask: "getAlignNum num - 1 = mask (bits (unat (num - 1)))"
proof (rule bit_eqI)
  fix i assume "possible_bit TYPE(64 word) i"
  have "(\<exists>j<32. bit (num - 1) (i + j)) \<longleftrightarrow> 2 ^ i \<le> unat (num - 1)"
  proof
    assume "\<exists>j<32. bit (num - 1) (i + j)"
    then obtain j where "bit (unat (num - 1)) (i + j)" by (auto simp: bit_unsigned_iff)
    then show "2 ^ i \<le> unat (num - 1)" by (rule bit_ge) simp
  next
    assume "2 ^ i \<le> unat (num - 1)"
    then obtain j where j: "j \<ge> i" "bit (num - 1) j" using top_bit by (metis bit_unsigned_iff)
    then have "j < 32" using bit_imp_le_length [of "num - 1" j] by simp
    then show "\<exists>j<32. bit (num - 1) (i + j)" using j by (intro exI [of _ "j - i"]) simp
  qed
  then show "bit (getAlignNum num - 1) i = bit (mask (bits (unat (num - 1))) :: u64) i"
    using \<open>possible_bit TYPE(64 word) i\<close> by (simp add: getAlignNum_bit bit_mask_iff bits_iff)
qed

lemma getAlignNum_eq: "getAlignNum num = 2 ^ bits (unat (num - 1))"
proof -
  have "getAlignNum num = mask (bits (unat (num - 1))) + 1"
    by (metis diff_add_cancel getAlignNum_mask)
  also have "\<dots> = 2 ^ bits (unat (num - 1))" by (simp add: mask_eq_exp_minus_1)
  finally show ?thesis .
qed

lemma bits_le_32: "bits (unat (num :: u32)) \<le> 32"
  using unat_lt_2p by (rule bits_least)

lemma shift_loop_exp: "k < 64 \<Longrightarrow> shift_loop (2 ^ k) s = s + int k"
proof (induction k arbitrary: s)
  case 0
  then show ?case by (subst shift_loop.simps) (simp add: drop_bit_eq_div)
next
  case (Suc k)
  have "drop_bit 1 (2 ^ Suc k :: u64) = 2 ^ k"
  proof (rule bit_eqI)
    fix n assume "possible_bit TYPE(64 word) n"
    then show "bit (drop_bit 1 (2 ^ Suc k :: u64)) n = bit (2 ^ k :: u64) n"
      using Suc.prems by (auto simp: bit_simps)
  qed
  moreover have "(2 ^ k :: u64) \<noteq> 0" using Suc.prems by (simp add: exp_eq_zero_iff)
  ultimately show ?case using Suc by (subst shift_loop.simps) (simp add: Let_def)
qed

lemma getShiftNum_exp: "k < 64 \<Longrightarrow> getShiftNum (2 ^ k) = int k"
  by (simp add: getShiftNum_def shift_loop_exp)

section \<open>The indices\<close>

lemma sint_ucast_small:
  fixes x :: "'a::len word"
  assumes "uint x < 2 ^ 31"
  shows "sint (ucast x :: 32 word) = uint x"
proof -
  have "uint (ucast x :: 32 word) = uint x"
    using assms by (simp add: unsigned_ucast_eq take_bit_int_eq_self)
  then show ?thesis
    using assms signed_take_bit_int_eq_self [OF order_trans [OF _ unsigned_greater_eq [of x]], of 31]
    by (simp add: sint_uint)
qed

lemma push_bit_minus_1: "push_bit n 1 - 1 = (mask n :: u64)"
  by (simp add: mask_eq_exp_minus_1 push_bit_of_1)

lemma drop_high_mask: "p \<le> 64 \<Longrightarrow> drop_bit (64 - p) (NOT (mask (64 - p))) = (mask p :: u64)"
  by (rule bit_eqI) (auto simp: bit_simps)

lemma mask_mod_32: "5 \<le> n \<Longrightarrow> (mask n :: u64) mod 32 = mask 5"
  using take_bit_eq_mod [of 5 "mask n :: u64"] by (simp add: min_def)

lemma uint_and_mask: "uint (x AND mask p) = uint x mod 2 ^ p" for x :: u64
  by (metis take_bit_eq_mask take_bit_eq_mod unsigned_take_bit_eq)

lemma key_and_mask_index:
  "p \<le> 31 \<Longrightarrow> sint (ucast (key AND mask p) :: i32) = uint key mod 2 ^ p" for key :: u64
proof -
  assume p: "p \<le> 31"
  have "uint key mod 2 ^ p < 2 ^ p" by simp
  also have "(2::int) ^ p \<le> 2 ^ 31" using p by (intro power_increasing) auto
  finally show ?thesis by (simp add: sint_ucast_small uint_and_mask)
qed

text \<open>
  Tables whose masks are set up for \<open>2 ^ p\<close> partitions: the partition index is the low
  \<open>p\<close> bits of the key, the bucket index its low five bits.
\<close>

definition masks_for :: "nat \<Rightarrow> HashTableInfo \<Rightarrow> bool" where
  "masks_for p t \<longleftrightarrow> p \<le> 31 \<and> partitionShift t = 64 - int p \<and>
     partitionMask t = NOT (mask (64 - p)) \<and> hashSegmentSize t = 32"

lemma GetPartitionIndex_eq: "masks_for p t \<Longrightarrow> GetPartitionIndex key t = uint key mod 2 ^ p"
proof -
  assume m: "masks_for p t"
  then have "nat (partitionShift t) = 64 - p" "p \<le> 31" by (simp_all add: masks_for_def)
  with m show ?thesis by (simp add: GetPartitionIndex_def masks_for_def drop_high_mask key_and_mask_index)
qed

lemma GetBucketIndex_eq: "masks_for p t \<Longrightarrow> GetBucketIndex key t = uint key mod 32"
  using mask_mod_32 [of "64 - p"] key_and_mask_index [of 5 key]
  by (auto simp: GetBucketIndex_def masks_for_def)

lemma unat_minus_1:
  assumes "1 < sint (pn :: i32)"
  shows "int (unat (pn - 1)) = sint pn - 1"
proof -
  have "sint pn < 2 ^ 31" using sint_range_size [of pn] by (simp add: word_size)
  then have "uint pn = sint pn"
    using assms by (simp add: uint_sint take_bit_int_eq_self)
  moreover from this have "uint (pn - 1) = uint pn - 1"
    using assms by (simp add: uint_sub_if' uint_1)
  ultimately show ?thesis by simp
qed

lemma part_bits:
  assumes "1 < sint (pn :: i32)" and n: "n = unat (pn - 1)"
  shows "0 < bits n" "bits n \<le> 31" "sint pn \<le> 2 ^ bits n" "2 ^ bits n < 2 * sint pn"
proof -
  have u: "int n = sint pn - 1" unfolding n using assms(1) by (rule unat_minus_1)
  have "int n < 2 ^ 31" using sint_range_size [of pn] by (simp add: word_size u)
  then have "n < 2 ^ 31" by (metis of_nat_less_numeral_power_cancel_iff)
  then show "bits n \<le> 31" by (rule bits_least)
  show pos: "0 < bits n" using bits_iff [of 0 n] u assms by simp
  have "int n < 2 ^ bits n" using bits_bound [of n] by simp
  then show "sint pn \<le> 2 ^ bits n" using u by simp
  have "2 ^ (bits n - 1) \<le> int n" using bits_lower [OF pos] by simp
  then show "2 ^ bits n < 2 * sint pn" using pos u by (simp add: power_eq_if)
qed

lemma uint_scast_pos:
  assumes "0 \<le> sint (x :: i32)"
  shows "uint (scast x :: u64) = sint x"
proof -
  have "sint x < 2 ^ 31" using sint_range_size [of x] by (simp add: word_size)
  moreover have "uint (scast x :: u64) = sint x mod 2 ^ 64" by (simp only: scast_eq uint_word_of_int len_of_numeral_defs) simp
  ultimately show ?thesis using assms by simp
qed

lemma uint_add_small: "uint x + uint y < 2 ^ 64 \<Longrightarrow> uint (x + y) = uint x + uint y" for x y :: u64
  by (simp add: uint_plus_if')

lemma uint_mult_small: "uint x * uint y < 2 ^ 64 \<Longrightarrow> uint (x * y) = uint x * uint y" for x y :: u64
  by (simp add: uint_word_ariths)

lemma align_bits:
  assumes "0 < sint (n :: i32)"
  obtains k where "uint (getAlignNum n) = 2 ^ k" "sint n \<le> 2 ^ k" "2 ^ k < 2 * sint n" "k \<le> 31"
proof -
  let ?k = "bits (unat (n - 1))"
  have k: "?k \<le> 31 \<and> sint n \<le> 2 ^ ?k \<and> 2 ^ ?k < 2 * sint n"
  proof (cases "sint n = 1")
    case True
    then have "n = 1" by (intro signed_word_eqI) simp
    moreover have "bits 0 = 0" using bits_least [of 0 0] by simp
    ultimately show ?thesis by simp
  next
    case False
    then show ?thesis using part_bits(2-4) [OF _ refl, of n] assms by simp
  qed
  have "(2 :: int) ^ ?k \<le> 2 ^ 31" using k by (intro power_increasing) simp_all
  then have "uint (2 ^ ?k :: u64) = 2 ^ ?k" unfolding word_of_int_2p [symmetric] uint_word_of_int by (intro mod_pos_pos_trivial) simp_all
  then show ?thesis using k by (intro that [of ?k]) (simp_all add: getAlignNum_eq)
qed

text \<open>The number of bytes that \<^verbatim>\<open>GetHashTableSize\<close> gives, where it does not overflow.\<close>

lemma GetHashTableSize_eq:
  assumes "int vs < 2 ^ 31" "e = uint (getAlignNum ms) * (int vs + 16)" "T = e + uint (getAlignNum pn) * (16 + e) + 160" "T < 2 ^ 31"
  shows "sint (GetHashTableSize pn ms (of_nat vs)) = T"
proof -
  have e: "0 \<le> e" unfolding assms(2) by simp
  then have e2: "0 \<le> uint (getAlignNum pn) * (16 + e)" by simp
  have pos: "0 \<le> e" "0 \<le> uint (getAlignNum pn) * (16 + e)" "e \<le> T" "uint (getAlignNum pn) * (16 + e) < 2 ^ 31" using e e2 assms(3,4) by linarith+
  have "sint (of_nat vs :: i32) = int vs" using assms(1) by (simp add: signed_of_nat signed_take_bit_int_eq_self)
  then have v: "uint (scast (of_nat vs :: i32) + of_nat HASH_ELEMENT_SIZE :: u64) = int vs + 16"
    using uint_scast_pos [of "of_nat vs"] assms(1) by (subst uint_add_small) (simp_all add: HASH_ELEMENT_SIZE_def)
  let ?l1 = "ucast (getAlignNum ms * (scast (of_nat vs :: i32) + of_nat HASH_ELEMENT_SIZE)) :: i32"
  have "uint (getAlignNum ms * (scast (of_nat vs :: i32) + of_nat HASH_ELEMENT_SIZE) :: u64) = e"
    using v assms(2) pos assms(4) by (subst uint_mult_small) simp_all
  then have l1: "sint ?l1 = e" using pos assms(4) by (subst sint_ucast_small) simp_all
  let ?l2 = "ucast (scast ?l1 + getAlignNum pn * (sizeof_HashSegment + scast ?l1)) :: i32"
  have s1: "uint (scast ?l1 :: u64) = e" using uint_scast_pos [of ?l1] l1 pos by simp
  have "uint (sizeof_HashSegment + scast ?l1) = 16 + e" using s1 pos assms(4) by (subst uint_add_small) (simp_all add: sizeof_HashSegment_def)
  then have "uint (getAlignNum pn * (sizeof_HashSegment + scast ?l1)) = uint (getAlignNum pn) * (16 + e)"
    using pos by (subst uint_mult_small) simp_all
  then have "uint (scast ?l1 + getAlignNum pn * (sizeof_HashSegment + scast ?l1)) = T - 160"
    using s1 pos assms(3,4) by (subst uint_add_small) simp_all
  then have l2: "sint ?l2 = T - 160" using assms(3,4) pos by (subst sint_ucast_small) simp_all
  have "uint (scast ?l2 :: u64) = T - 160" using uint_scast_pos [of ?l2] l2 assms(3) pos by simp
  then have "uint (scast ?l2 + sizeof_HashTableInfo) = T"
    using assms(3,4) pos by (subst uint_add_small) (simp_all add: sizeof_HashTableInfo_def)
  then show ?thesis using assms(4) by (simp add: GetHashTableSize_def Let_def sint_ucast_small)
qed

text \<open>
  The elements take the room of the 32 buckets of a segment at least, and the size is an \<^verbatim>\<open>int\<close>.
\<close>

definition block_fits :: "int \<Rightarrow> int \<Rightarrow> nat \<Rightarrow> nat \<Rightarrow> bool" where
  "block_fits parts elems vs nl \<longleftrightarrow> 256 \<le> elems * (int vs + 16) \<and> 2 * elems * (int vs + 16) * (1 + 2 * parts) + 32 * parts + 160 + int nl < 2 ^ 31"

lemma create_fits:
  assumes "0 < sint pn" "0 < sint ms" "block_fits (sint pn) (sint ms) vs nl"
  defines "len \<equiv> sint (GetHashTableSize pn ms (of_nat vs)) + int nl"
  shows "int vs < 2 ^ 31" "len < 2 ^ 31" "layout_end (sint pn) (sint ms) vs \<le> len"
proof -
  obtain k where k: "uint (getAlignNum ms) = 2 ^ k" "sint ms \<le> 2 ^ k" "2 ^ k < 2 * sint ms" using align_bits [OF assms(2)] .
  obtain j where j: "uint (getAlignNum pn) = 2 ^ j" "sint pn \<le> 2 ^ j" "2 ^ j < 2 * sint pn" using align_bits [OF assms(1)] .
  define E where "E = int vs + 16"
  define m where "m = sint ms * E"
  define e where "e = 2 ^ k * E"
  have E: "16 \<le> E" by (simp add: E_def)
  have b: "256 \<le> m" "2 * m * (1 + 2 * sint pn) + 32 * sint pn + 160 + int nl < 2 ^ 31"
    using assms(3) by (simp_all add: block_fits_def m_def E_def algebra_simps)
  have e: "m \<le> e" "e \<le> 2 * m" using k E by (simp_all add: m_def e_def mult_right_mono)
  have "1 * E \<le> m" unfolding m_def using assms(2) E by (intro mult_right_mono) simp_all
  moreover have "0 \<le> m * (sint pn * 4)" using b(1) assms(1) by simp
  moreover have "m * 2 + m * (sint pn * 4) + sint pn * 32 + 160 + int nl < 2 ^ 31" using b(2) by (simp add: algebra_simps)
  ultimately have "E < 2 ^ 31" using b(1) assms(1) by linarith
  then show vs: "int vs < 2 ^ 31" by (simp add: E_def)
  let ?T = "e + 2 ^ j * (16 + e) + 160"
  have "2 ^ j * (16 + e) \<le> (2 * sint pn) * (16 + 2 * m)" using j e b(1) by (intro mult_mono) simp_all
  then have T: "?T + int nl < 2 ^ 31" using e(2) b(2) by (simp add: algebra_simps)
  then have len: "len = ?T + int nl"
    using GetHashTableSize_eq [of vs e ms ?T pn] vs k(1) j(1) by (simp add: len_def e_def E_def)
  then show "len < 2 ^ 31" using T by simp
  have "sint pn * (16 + 256) \<le> 2 ^ j * (16 + e)" using j(2) e(1) b(1) assms(1) by (intro mult_mono) simp_all
  moreover have "uint sizeof_HashTableInfo = 160" "uint sizeof_HashSegment = 16" by (simp_all add: sizeof_HashTableInfo_def sizeof_HashSegment_def)
  ultimately show "layout_end (sint pn) (sint ms) vs \<le> len"
    using len e(1) by (simp add: layout_end_def HASH_SEGMENT_SIZE_def HASH_ELEMENT_SIZE_def m_def E_def algebra_simps)
qed

lemma HashTableCreate_masks:
  assumes "HashTableCreate pn ms is vs kvs nl base = Some t" and "1 < sint pn"
  shows "masks_for (bits (unat (pn - 1))) t"
proof -
  let ?p = "bits (unat (pn - 1))"
  have p: "?p \<le> 31" "getShiftNum (getAlignNum pn) = int ?p"
    using part_bits(2) [OF assms(2) refl] by (simp_all add: getAlignNum_eq getShiftNum_exp)
  then have "nat (HASH_BITS - int ?p) = 64 - ?p" by (simp add: HASH_BITS_def)
  then show ?thesis
    using assms(1) p
    by (auto simp: HashTableCreate_def Let_def masks_for_def InitHashTable_def HASH_BITS_def HASH_SEGMENT_SIZE_def
        mask_eq_exp_minus_1 split: if_splits)
qed

section \<open>Chains as lists\<close>

fun chain :: "(ptr \<rightharpoonup> HashElement) \<Rightarrow> ptr \<Rightarrow> ptr list \<Rightarrow> bool" where
  "chain h p [] \<longleftrightarrow> p = NULL"
| "chain h p (x # xs) \<longleftrightarrow> p = x \<and> x \<noteq> NULL \<and> (\<exists>e. h x = Some e \<and> chain h (he_link e) xs)"

lemma chain_frame: "chain h p xs \<Longrightarrow> (\<And>x. x \<in> set xs \<Longrightarrow> h' x = h x) \<Longrightarrow> chain h' p xs"
  by (induction xs arbitrary: p) auto

lemma chain_dom: "chain h p xs \<Longrightarrow> x \<in> set xs \<Longrightarrow> x \<in> dom h \<and> x \<noteq> NULL"
  by (induction xs arbitrary: p) auto

lemma chain_NULL [simp]: "chain h NULL xs \<longleftrightarrow> xs = []"
  by (cases xs) auto

text \<open>Taking an element out of a chain, behind \<open>q\<close> or at its head.\<close>

lemma chain_unlink:
  assumes "chain h p (as @ q # n # zs)" and "distinct (as @ q # n # zs)" and "h n = Some e" and "h q = Some f"
  shows "chain (h(q \<mapsto> f\<lparr>he_link := he_link e\<rparr>)) p (as @ q # zs)"
  using assms
proof (induction as arbitrary: p)
  case Nil
  then have "chain h (he_link e) zs" by auto
  then have "chain (h(q \<mapsto> f\<lparr>he_link := he_link e\<rparr>)) (he_link e) zs"
    by (rule chain_frame) (use Nil.prems in auto)
  then show ?case using Nil.prems by (simp add: fun_upd_def)
next
  case (Cons a as)
  then show ?case by auto
qed

text \<open>Keys of the elements.\<close>

definition ekey :: "HashTableInfo \<Rightarrow> ptr \<Rightarrow> u64 \<times> byte list" where
  "ekey t x = (let e = the (ht_heap t x) in (hashKey e, take (keyValueSize t) (he_value e)))"

lemma memcmp_eq: "n \<le> length xs \<Longrightarrow> n \<le> length ys \<Longrightarrow>
  \<exists>c. memcmp n xs ys = Some c \<and> (c = 0 \<longleftrightarrow> take n xs = take n ys)"
proof (induction n xs ys rule: memcmp.induct)
  case (2 n x xs y ys)
  then show ?case by (cases "x = y") auto
qed auto

definition wf_value :: "HashTableInfo \<Rightarrow> byte list \<Rightarrow> bool" where
  "wf_value t v \<longleftrightarrow> keyValueSize t \<le> length v"

lemma element_matches_eq:
  assumes "ht_heap t x = Some e" and "wf_value t (he_value e)" and "wf_value t v"
  shows "element_matches t e k v = Some (ekey t x = (k, take (keyValueSize t) v))"
  using memcmp_eq [of "keyValueSize t" "he_value e" v] assms
  by (auto simp: element_matches_def ekey_def wf_value_def)

lemma GetHashEntryFromBucket_find:
  assumes "chain (ht_heap t) p xs" and "\<And>x e. x \<in> set xs \<Longrightarrow> ht_heap t x = Some e \<Longrightarrow> wf_value t (he_value e)"
    and "wf_value t v"
  shows "GetHashEntryFromBucket t p k v =
    Some (case List.find (\<lambda>x. ekey t x = (k, take (keyValueSize t) v)) xs of None \<Rightarrow> NULL | Some x \<Rightarrow> x)"
  using assms
proof (induction xs arbitrary: p)
  case Nil
  then show ?case by (subst GetHashEntryFromBucket.simps) simp
next
  case (Cons x xs)
  then obtain e where e: "p = x" "x \<noteq> NULL" "ht_heap t x = Some e" "chain (ht_heap t) (he_link e) xs" by auto
  have IH: "GetHashEntryFromBucket t (he_link e) k v =
    Some (case List.find (\<lambda>x. ekey t x = (k, take (keyValueSize t) v)) xs of None \<Rightarrow> NULL | Some x \<Rightarrow> x)"
    using e(4) Cons.prems(2) assms(3) by (intro Cons.IH) auto
  have "element_matches t e k v = Some (ekey t x = (k, take (keyValueSize t) v))"
    using Cons.prems(2) e assms(3) by (intro element_matches_eq) auto
  then show ?case using e IH by (subst GetHashEntryFromBucket.simps) simp
qed

text \<open>The delete loop: nothing to delete, or the first matching element is bypassed.\<close>

lemma delete_loop_none:
  assumes "chain (ht_heap t) el xs" and "\<And>x e. x \<in> set xs \<Longrightarrow> ht_heap t x = Some e \<Longrightarrow> wf_value t (he_value e)"
    and "wf_value t v" and "\<And>x. x \<in> set xs \<Longrightarrow> ekey t x \<noteq> (k, take (keyValueSize t) v)"
  shows "delete_loop t head el pre k v = Some (head, NULL, t)"
  using assms
proof (induction xs arbitrary: el pre)
  case Nil
  then show ?case by (subst delete_loop.simps) simp
next
  case (Cons x xs)
  then obtain e where e: "el = x" "x \<noteq> NULL" "ht_heap t x = Some e" "chain (ht_heap t) (he_link e) xs" by auto
  have "delete_loop t head (he_link e) x k v = Some (head, NULL, t)"
    using e(4) Cons.prems by (intro Cons.IH) auto
  moreover have "element_matches t e k v = Some False"
    using Cons.prems e element_matches_eq [of t x e v k] by auto
  ultimately show ?case using e by (subst delete_loop.simps) simp
qed

lemma delete_loop_found:
  assumes "chain (ht_heap t) el (ys @ n # zs)"
    and "\<And>x e. x \<in> set (ys @ [n]) \<Longrightarrow> ht_heap t x = Some e \<Longrightarrow> wf_value t (he_value e)"
    and "wf_value t v" and "\<And>x. x \<in> set ys \<Longrightarrow> ekey t x \<noteq> (k, take (keyValueSize t) v)"
    and "ekey t n = (k, take (keyValueSize t) v)" and "ht_heap t n = Some en"
    and "q = last ((if pre = el then [] else [pre]) @ ys @ (if pre = el \<and> ys = [] then [n] else []))"
    and "ht_heap t q = Some eq" and "distinct (ys @ [n])" and "pre = el \<or> pre \<notin> set (ys @ [n])"
  shows "delete_loop t head el pre k v =
    Some (if pre = el \<and> ys = [] then he_link en else head, n,
      t\<lparr>ht_heap := (ht_heap t)(q \<mapsto> eq\<lparr>he_link := he_link en\<rparr>), usedNum := usedNum t - 1\<rparr>)"
  using assms
proof (induction ys arbitrary: el pre)
  case Nil
  then have "el = n" "n \<noteq> NULL" by auto
  moreover have "element_matches t en k v = Some True"
    using Nil.prems element_matches_eq [of t n en v k] by auto
  moreover have "q = (if pre = el then n else pre)" using Nil.prems(7) by simp
  ultimately show ?case using Nil.prems(6,8) by (subst delete_loop.simps) auto
next
  case (Cons y ys)
  then obtain e where e: "el = y" "y \<noteq> NULL" "ht_heap t y = Some e" "chain (ht_heap t) (he_link e) (ys @ n # zs)"
    by auto
  have ne: "y \<noteq> he_link e" using e(4) Cons.prems(9) by (cases ys) auto
  have "q = last (y # ys)" using Cons.prems(7) by (auto split: if_splits)
  then have "delete_loop t head (he_link e) y k v =
    Some (if y = he_link e \<and> ys = [] then he_link en else head, n,
      t\<lparr>ht_heap := (ht_heap t)(q \<mapsto> eq\<lparr>he_link := he_link en\<rparr>), usedNum := usedNum t - 1\<rparr>)"
    using e(4) Cons.prems ne by (intro Cons.IH) auto
  moreover have "element_matches t e k v = Some False"
    using Cons.prems e element_matches_eq [of t y e v k] by auto
  ultimately show ?case using e ne by (subst delete_loop.simps) auto
qed

section \<open>The table as a map\<close>

definition pidx :: "HashTableInfo \<Rightarrow> u64 \<Rightarrow> nat" where
  "pidx t k = nat (GetPartitionIndex k t)"

definition bidx :: "HashTableInfo \<Rightarrow> u64 \<Rightarrow> nat" where
  "bidx t k = nat (GetBucketIndex k t)"

text \<open>
  \<open>c p b\<close> is the chain of bucket \<open>b\<close> of segment \<open>p\<close>, \<open>fs\<close> the free list; the
  table has at least \<open>2 ^ lg\<close> segments and its masks are made for that number.
\<close>

definition ht_inv :: "nat \<Rightarrow> (nat \<Rightarrow> nat \<Rightarrow> ptr list) \<Rightarrow> ptr list \<Rightarrow> HashTableInfo \<Rightarrow> bool" where
  "ht_inv lg c fs t \<longleftrightarrow>
     masks_for lg t \<and> 2 ^ lg \<le> length (segmentArray t) \<and>
     (\<forall>p<length (segmentArray t). \<not> segLock (segmentArray t ! p) \<and>
        length (segBuckets (segmentArray t ! p)) = 32) \<and> \<not> freeListLock t \<and>
     (\<forall>p<length (segmentArray t). \<forall>b<32. chain (ht_heap t) (segBuckets (segmentArray t ! p) ! b) (c p b)) \<and>
     chain (ht_heap t) (freeHashElementList t) fs \<and> distinct fs \<and>
     (\<forall>p b. \<forall>x\<in>set (c p b). x \<notin> set fs \<and> pidx t (fst (ekey t x)) = p \<and> bidx t (fst (ekey t x)) = b) \<and>
     (\<forall>p b. distinct (map (ekey t) (c p b))) \<and>
     (\<forall>x e. ht_heap t x = Some e \<longrightarrow> length (he_value e) = valueSize t) \<and>
     keyValueSize t \<le> valueSize t \<and> freeNum t = int (length fs)"

definition entry_of :: "(nat \<Rightarrow> nat \<Rightarrow> ptr list) \<Rightarrow> HashTableInfo \<Rightarrow> u64 \<times> byte list \<Rightarrow> ptr option" where
  "entry_of c t kv = List.find (\<lambda>x. ekey t x = kv) (c (pidx t (fst kv)) (bidx t (fst kv)))"

definition ht_map :: "(nat \<Rightarrow> nat \<Rightarrow> ptr list) \<Rightarrow> HashTableInfo \<Rightarrow> u64 \<times> byte list \<rightharpoonup> byte list" where
  "ht_map c t kv = map_option (\<lambda>x. he_value (the (ht_heap t x))) (entry_of c t kv)"

lemma ht_invD:
  assumes "ht_inv lg c fs t"
  shows "masks_for lg t" "2 ^ lg \<le> length (segmentArray t)"
    "\<And>p. p < length (segmentArray t) \<Longrightarrow> \<not> segLock (segmentArray t ! p)"
    "\<And>p. p < length (segmentArray t) \<Longrightarrow> length (segBuckets (segmentArray t ! p)) = 32"
    "\<not> freeListLock t"
    "\<And>p b. p < length (segmentArray t) \<Longrightarrow> b < 32 \<Longrightarrow>
       chain (ht_heap t) (segBuckets (segmentArray t ! p) ! b) (c p b)"
    "chain (ht_heap t) (freeHashElementList t) fs" "distinct fs"
    "\<And>p b x. x \<in> set (c p b) \<Longrightarrow> x \<notin> set fs"
    "\<And>p b x. x \<in> set (c p b) \<Longrightarrow> pidx t (fst (ekey t x)) = p"
    "\<And>p b x. x \<in> set (c p b) \<Longrightarrow> bidx t (fst (ekey t x)) = b"
    "\<And>p b. distinct (map (ekey t) (c p b))"
    "\<And>x e. ht_heap t x = Some e \<Longrightarrow> length (he_value e) = valueSize t"
    "keyValueSize t \<le> valueSize t" "freeNum t = int (length fs)"
  using assms unfolding ht_inv_def by auto

lemma idx_bounds:
  assumes "ht_inv lg c fs t"
  shows "pidx t k < length (segmentArray t)" "bidx t k < 32"
    "GetPartitionIndex k t = int (pidx t k)" "GetBucketIndex k t = int (bidx t k)"
proof -
  note m = ht_invD(1) [OF assms]
  have "uint k mod 2 ^ lg < 2 ^ lg" "0 \<le> uint k mod 2 ^ lg" by simp_all
  moreover have "(2::int) ^ lg \<le> int (length (segmentArray t))"
    using ht_invD(2) [OF assms] by (metis of_nat_le_iff of_nat_numeral of_nat_power)
  ultimately have "uint k mod 2 ^ lg < int (length (segmentArray t))" "0 \<le> uint k mod 2 ^ lg" by linarith+
  then show "pidx t k < length (segmentArray t)" "GetPartitionIndex k t = int (pidx t k)"
    by (simp_all add: pidx_def GetPartitionIndex_eq [OF m] nat_less_iff)
  show "bidx t k < 32" "GetBucketIndex k t = int (bidx t k)"
    by (simp_all add: bidx_def GetBucketIndex_eq [OF m] nat_less_iff)
qed

text \<open>Taking a free lock and giving it back leaves the table as it was.\<close>

definition lock_seg :: "nat \<Rightarrow> bool \<Rightarrow> HashTableInfo \<Rightarrow> HashTableInfo" where
  "lock_seg p v t = t\<lparr>segmentArray := (segmentArray t)[p := (segmentArray t ! p)\<lparr>segLock := v\<rparr>]\<rparr>"

lemma lock_seg_simps [simp]:
  "ht_heap (lock_seg p v t) = ht_heap t" "keyValueSize (lock_seg p v t) = keyValueSize t"
  "valueSize (lock_seg p v t) = valueSize t" "freeHashElementList (lock_seg p v t) = freeHashElementList t"
  "freeListLock (lock_seg p v t) = freeListLock t" "usedNum (lock_seg p v t) = usedNum t"
  "freeNum (lock_seg p v t) = freeNum t" "length (segmentArray (lock_seg p v t)) = length (segmentArray t)"
  "GetBucketIndex k (lock_seg p v t) = GetBucketIndex k t"
  "GetPartitionIndex k (lock_seg p v t) = GetPartitionIndex k t"
  "ekey (lock_seg p v t) = ekey t" "wf_value (lock_seg p v t) = wf_value t"
  by (simp_all add: lock_seg_def GetBucketIndex_def GetPartitionIndex_def ekey_def wf_value_def fun_eq_iff)

lemma segLock_False_id: "\<not> segLock s \<Longrightarrow> s\<lparr>segLock := False\<rparr> = s"
  by (cases s) simp

lemma lock_unlock:
  "p < length (segmentArray t) \<Longrightarrow> \<not> segLock (segmentArray t ! p) \<Longrightarrow> lock_seg p False (lock_seg p v t) = t"
  by (simp add: lock_seg_def segLock_False_id)

lemma HashLockPartition_free:
  "p < length (segmentArray t) \<Longrightarrow> \<not> segLock (segmentArray t ! p) \<Longrightarrow>
   HashLockPartition (int p) t = Some (lock_seg p True t)"
  by (simp add: HashLockPartition_def lock_seg_def)

lemma HashLockPartitionRelease_eq:
  "p < length (segmentArray t) \<Longrightarrow> HashLockPartitionRelease (int p) t = Some (lock_seg p False t)"
  by (simp add: HashLockPartitionRelease_def lock_seg_def)

lemma bucket_get_eq:
  "p < length (segmentArray t) \<Longrightarrow> b < length (segBuckets (segmentArray t ! p)) \<Longrightarrow>
   bucket_get t (int p) (int b) = Some (segBuckets (segmentArray t ! p) ! b)"
  by (simp add: bucket_get_def)

lemma bucket_get_lock [simp]: "bucket_get (lock_seg p v t) q b = bucket_get t q b"
proof (cases "nat q = p")
  case True
  then show ?thesis by (cases "p < length (segmentArray t)") (auto simp: bucket_get_def lock_seg_def arr_get_def)
next
  case False
  then show ?thesis by (simp add: bucket_get_def lock_seg_def arr_get_def)
qed

definition put_bucket :: "nat \<Rightarrow> nat \<Rightarrow> ptr \<Rightarrow> HashTableInfo \<Rightarrow> HashTableInfo" where
  "put_bucket p b x t = t\<lparr>segmentArray := (segmentArray t)[p :=
     (segmentArray t ! p)\<lparr>segBuckets := (segBuckets (segmentArray t ! p))[b := x]\<rparr>]\<rparr>"

lemma bucket_set_eq:
  "p < length (segmentArray t) \<Longrightarrow> b < length (segBuckets (segmentArray t ! p)) \<Longrightarrow>
   bucket_set t (int p) (int b) x = Some (put_bucket p b x t)"
  by (simp add: bucket_set_def put_bucket_def)

text \<open>The search in a bucket, in terms of the map.\<close>

lemma wf_element:
  assumes "ht_inv lg c fs t" and "ht_heap t x = Some e"
  shows "wf_value t (he_value e)"
  using ht_invD(13) [OF assms] ht_invD(14) [OF assms(1)] by (simp add: wf_value_def)

lemma bucket_search:
  assumes inv: "ht_inv lg c fs t" and v: "wf_value t v"
  shows "bucket_get t (int (pidx t k)) (int (bidx t k)) = Some (segBuckets (segmentArray t ! pidx t k) ! bidx t k)"
    and "GetHashEntryFromBucket (lock_seg p w t) (segBuckets (segmentArray t ! pidx t k) ! bidx t k) k v =
      Some (case entry_of c t (k, take (keyValueSize t) v) of None \<Rightarrow> NULL | Some x \<Rightarrow> x)"
proof -
  note b = idx_bounds [OF inv, of k]
  show "bucket_get t (int (pidx t k)) (int (bidx t k)) = Some (segBuckets (segmentArray t ! pidx t k) ! bidx t k)"
    using b ht_invD(4) [OF inv b(1)] by (simp add: bucket_get_eq)
  have "chain (ht_heap (lock_seg p w t)) (segBuckets (segmentArray t ! pidx t k) ! bidx t k) (c (pidx t k) (bidx t k))"
    using ht_invD(6) [OF inv b(1,2)] by simp
  from GetHashEntryFromBucket_find [OF this, of v k] v wf_element [OF inv]
  show "GetHashEntryFromBucket (lock_seg p w t) (segBuckets (segmentArray t ! pidx t k) ! bidx t k) k v =
      Some (case entry_of c t (k, take (keyValueSize t) v) of None \<Rightarrow> NULL | Some x \<Rightarrow> x)"
    by (simp add: entry_of_def)
qed

lemma find_SomeD: "List.find P xs = Some x \<Longrightarrow> x \<in> set xs \<and> P x"
  by (induction xs) (auto split: if_splits)

lemma entry_ofD:
  assumes "ht_inv lg c fs t" and "entry_of c t kv = Some x"
  shows "x \<in> set (c (pidx t (fst kv)) (bidx t (fst kv)))" "ekey t x = kv" "x \<noteq> NULL" "x \<in> dom (ht_heap t)"
proof -
  show x: "x \<in> set (c (pidx t (fst kv)) (bidx t (fst kv)))" and "ekey t x = kv"
    using find_SomeD assms(2) unfolding entry_of_def by fast+
  show "x \<noteq> NULL" "x \<in> dom (ht_heap t)"
    using chain_dom [OF ht_invD(6) [OF assms(1) idx_bounds(1,2) [OF assms(1)]] x] by simp_all
qed

lemma HashFindEntry_spec:
  assumes inv: "ht_inv lg c fs t" and v: "wf_value t v"
  shows "HashFindEntry k v (GetPartitionIndex k t) (lock_seg p w t) =
    Some (case entry_of c t (k, take (keyValueSize t) v) of None \<Rightarrow> NULL | Some x \<Rightarrow> x)"
  using bucket_search(1) [OF inv v, of k] bucket_search(2) [OF inv v, of p w k] idx_bounds(3,4) [OF inv, of k]
  by (simp add: HashFindEntry_def)

section \<open>Insertion\<close>

definition inserted :: "nat \<Rightarrow> nat \<Rightarrow> ptr \<Rightarrow> HashElement \<Rightarrow> u64 \<Rightarrow> byte list \<Rightarrow> HashTableInfo \<Rightarrow> HashTableInfo" where
  "inserted p b x e k v t =
     put_bucket p b x (t\<lparr>freeHashElementList := he_link e, freeNum := freeNum t - 1, usedNum := usedNum t + 1,
       ht_heap := (ht_heap t)(x \<mapsto> e\<lparr>he_link := segBuckets (segmentArray t ! p) ! b, hashKey := k,
         he_value := take (valueSize t) v @ drop (valueSize t) (he_value e)\<rparr>)\<rparr>)"

lemma put_unlock:
  "p < length (segmentArray t) \<Longrightarrow> \<not> segLock (segmentArray t ! p) \<Longrightarrow>
   lock_seg p False (put_bucket p b x (lock_seg p True t)) = put_bucket p b x t"
  by (cases "segmentArray t ! p") (simp add: lock_seg_def put_bucket_def)

lemma lock_seg_upd:
  "(lock_seg p w t)\<lparr>ht_heap := h\<rparr> = lock_seg p w (t\<lparr>ht_heap := h\<rparr>)"
  "(lock_seg p w t)\<lparr>usedNum := n\<rparr> = lock_seg p w (t\<lparr>usedNum := n\<rparr>)"
  "(lock_seg p w t)\<lparr>freeNum := n\<rparr> = lock_seg p w (t\<lparr>freeNum := n\<rparr>)"
  "(lock_seg p w t)\<lparr>freeListLock := l\<rparr> = lock_seg p w (t\<lparr>freeListLock := l\<rparr>)"
  "(lock_seg p w t)\<lparr>freeHashElementList := f\<rparr> = lock_seg p w (t\<lparr>freeHashElementList := f\<rparr>)"
  by (simp_all add: lock_seg_def)

lemma put_bucket_upd:
  "(put_bucket p b x t)\<lparr>ht_heap := h\<rparr> = put_bucket p b x (t\<lparr>ht_heap := h\<rparr>)"
  "(put_bucket p b x t)\<lparr>usedNum := n\<rparr> = put_bucket p b x (t\<lparr>usedNum := n\<rparr>)"
  "(put_bucket p b x t)\<lparr>freeNum := n\<rparr> = put_bucket p b x (t\<lparr>freeNum := n\<rparr>)"
  "(put_bucket p b x t)\<lparr>freeListLock := l\<rparr> = put_bucket p b x (t\<lparr>freeListLock := l\<rparr>)"
  "(put_bucket p b x t)\<lparr>freeHashElementList := f\<rparr> = put_bucket p b x (t\<lparr>freeHashElementList := f\<rparr>)"
  by (simp_all add: put_bucket_def)

lemma put_bucket_simps [simp]:
  "ht_heap (put_bucket p b x t) = ht_heap t" "keyValueSize (put_bucket p b x t) = keyValueSize t"
  "valueSize (put_bucket p b x t) = valueSize t" "freeHashElementList (put_bucket p b x t) = freeHashElementList t"
  "freeListLock (put_bucket p b x t) = freeListLock t" "usedNum (put_bucket p b x t) = usedNum t"
  "freeNum (put_bucket p b x t) = freeNum t" "maxNum (put_bucket p b x t) = maxNum t"
  "length (segmentArray (put_bucket p b x t)) = length (segmentArray t)"
  by (simp_all add: put_bucket_def)

lemma segBuckets_lock [simp]: "segBuckets (segmentArray (lock_seg p w t) ! q) = segBuckets (segmentArray t ! q)"
  by (cases "p < length (segmentArray t)") (auto simp: lock_seg_def nth_list_update list_update_beyond)

lemma freeListLock_id: "\<not> freeListLock t \<Longrightarrow> t\<lparr>freeListLock := False\<rparr> = t"
  by (cases t) simp

lemma GetFromFreeList_Cons:
  assumes "\<not> freeListLock t" and "freeHashElementList t = x" "x \<noteq> NULL" and "ht_heap t x = Some e"
  shows "GetFromFreeList t = Some (x, t\<lparr>freeHashElementList := he_link e,
    ht_heap := (ht_heap t)(x \<mapsto> e\<lparr>he_link := NULL\<rparr>), freeNum := freeNum t - 1\<rparr>)"
  using assms by (simp add: GetFromFreeList_def HashLockFreeList_def HashLockReleaseFreeList_def)

lemma GetFromFreeList_Nil:
  assumes "\<not> freeListLock t" and "freeHashElementList t = NULL"
  shows "GetFromFreeList t = Some (NULL, t)"
  using assms by (simp add: GetFromFreeList_def HashLockFreeList_def HashLockReleaseFreeList_def freeListLock_id)

lemma HashGetFreeEntry_found:
  assumes inv: "ht_inv lg c fs t" and v: "wf_value t v" and "entry_of c t (k, take (keyValueSize t) v) = Some x"
  shows "HashGetFreeEntry k v t = Some (x, HASH_FIND, t)"
  using bucket_search(1) [OF inv v, of k] bucket_search(2) [OF inv v, of "pidx t k" True k]
    idx_bounds [OF inv, of k] assms(3) entry_ofD(3) [OF inv assms(3)]
    ht_invD(3) [OF inv idx_bounds(1) [OF inv]]
  by (simp add: HashGetFreeEntry_def HashLockPartition_free HashLockPartitionRelease_eq lock_unlock)

lemma HashGetFreeEntry_full:
  assumes inv: "ht_inv lg c [] t" and v: "wf_value t v" and "entry_of c t (k, take (keyValueSize t) v) = None"
  shows "HashGetFreeEntry k v t = Some (NULL, HASH_NULL, t)"
  using bucket_search(1) [OF inv v, of k] bucket_search(2) [OF inv v, of "pidx t k" True k]
    idx_bounds [OF inv, of k] assms(3) ht_invD(3) [OF inv idx_bounds(1) [OF inv]] ht_invD(5,7) [OF inv]
  by (simp add: HashGetFreeEntry_def HashLockPartition_free HashLockPartitionRelease_eq lock_unlock
      GetFromFreeList_Nil)

lemma HashGetFreeEntry_insert:
  assumes inv: "ht_inv lg c (x # fs) t" and v: "valueSize t \<le> length v"
    and none: "entry_of c t (k, take (keyValueSize t) v) = None" and x: "ht_heap t x = Some e"
  shows "HashGetFreeEntry k v t = Some (x, HASH_INSERT, inserted (pidx t k) (bidx t k) x e k v t)"
proof -
  let ?p = "pidx t k" and ?b = "bidx t k"
  note ib = idx_bounds [OF inv, of k]
  have wv: "wf_value t v" using v ht_invD(14) [OF inv] by (simp add: wf_value_def)
  note s1 = bucket_search(1) [OF inv wv, of k] and s2 = bucket_search(2) [OF inv wv, of ?p True k]
  have nl: "\<not> segLock (segmentArray t ! ?p)" and lb: "length (segBuckets (segmentArray t ! ?p)) = 32"
    using ht_invD(3,4) [OF inv ib(1)] by simp_all
  have f: "freeHashElementList t = x" "x \<noteq> NULL" using ht_invD(7) [OF inv] by auto
  have gf: "GetFromFreeList (lock_seg ?p True t) = Some (x, lock_seg ?p True (t\<lparr>freeHashElementList := he_link e,
    ht_heap := (ht_heap t)(x \<mapsto> e\<lparr>he_link := NULL\<rparr>), freeNum := freeNum t - 1\<rparr>))"
    using ht_invD(5) [OF inv] f x by (subst GetFromFreeList_Cons [of _ x e]) (simp_all add: lock_seg_upd)
  have bg: "bucket_get (t\<lparr>freeHashElementList := he_link e,
      ht_heap := (ht_heap t)(x \<mapsto> e\<lparr>he_link := NULL\<rparr>), freeNum := freeNum t - 1\<rparr>) (int ?p) (int ?b) =
    Some (segBuckets (segmentArray t ! ?p) ! ?b)"
    using s1 by (simp add: bucket_get_def)
  have lv: "valueSize t \<le> length (he_value e)" using ht_invD(13) [OF inv x] by simp
  show ?thesis
    using s1 s2 ib none nl lb gf bg f v lv
    by (simp add: HashGetFreeEntry_def HashLockPartition_free HashLockPartitionRelease_eq bucket_set_eq
        lock_seg_upd put_bucket_upd valueCopy_def put_unlock inserted_def Let_def)
qed


text \<open>The new chains, and the invariant and the map after an insertion.\<close>

definition cons_chain :: "nat \<Rightarrow> nat \<Rightarrow> ptr \<Rightarrow> (nat \<Rightarrow> nat \<Rightarrow> ptr list) \<Rightarrow> nat \<Rightarrow> nat \<Rightarrow> ptr list" where
  "cons_chain p b x c p' b' = (if p' = p \<and> b' = b then x # c p b else c p' b')"

lemma put_bucket_nth:
  "p < length (segmentArray t) \<Longrightarrow> q < length (segmentArray t) \<Longrightarrow>
   segmentArray (put_bucket p b x t) ! q = (if q = p
     then (segmentArray t ! p)\<lparr>segBuckets := (segBuckets (segmentArray t ! p))[b := x]\<rparr> else segmentArray t ! q)"
  by (simp add: put_bucket_def nth_list_update)

lemma idx_put_bucket [simp]:
  "pidx (put_bucket p b x t) = pidx t" "bidx (put_bucket p b x t) = bidx t"
  "masks_for lg (put_bucket p b x t) = masks_for lg t" "ekey (put_bucket p b x t) = ekey t"
  by (simp_all add: put_bucket_def fun_eq_iff pidx_def bidx_def GetPartitionIndex_def GetBucketIndex_def
      masks_for_def ekey_def)

lemma idx_upd [simp]:
  "pidx (t\<lparr>freeHashElementList := f, freeNum := m, usedNum := n, ht_heap := h\<rparr>) = pidx t"
  "bidx (t\<lparr>freeHashElementList := f, freeNum := m, usedNum := n, ht_heap := h\<rparr>) = bidx t"
  "masks_for lg (t\<lparr>freeHashElementList := f, freeNum := m, usedNum := n, ht_heap := h\<rparr>) = masks_for lg t"
  by (simp_all add: fun_eq_iff pidx_def bidx_def GetPartitionIndex_def GetBucketIndex_def masks_for_def)

lemma inserted_simps:
  "pidx (inserted p b x e k v t) = pidx t" "bidx (inserted p b x e k v t) = bidx t"
  "masks_for lg (inserted p b x e k v t) = masks_for lg t"
  "ht_heap (inserted p b x e k v t) = (ht_heap t)(x \<mapsto> e\<lparr>he_link := segBuckets (segmentArray t ! p) ! b,
     hashKey := k, he_value := take (valueSize t) v @ drop (valueSize t) (he_value e)\<rparr>)"
  "valueSize (inserted p b x e k v t) = valueSize t" "keyValueSize (inserted p b x e k v t) = keyValueSize t"
  "freeNum (inserted p b x e k v t) = freeNum t - 1" "usedNum (inserted p b x e k v t) = usedNum t + 1"
  "freeListLock (inserted p b x e k v t) = freeListLock t"
  "freeHashElementList (inserted p b x e k v t) = he_link e"
  "length (segmentArray (inserted p b x e k v t)) = length (segmentArray t)"
  "maxNum (inserted p b x e k v t) = maxNum t"
  by (simp_all add: inserted_def)

lemma inserted_nth:
  "p < length (segmentArray t) \<Longrightarrow> q < length (segmentArray t) \<Longrightarrow>
   segmentArray (inserted p b x e k v t) ! q = (if q = p
     then (segmentArray t ! p)\<lparr>segBuckets := (segBuckets (segmentArray t ! p))[b := x]\<rparr> else segmentArray t ! q)"
  by (simp add: inserted_def put_bucket_nth)

lemma ekey_inserted:
  assumes "valueSize t \<le> length v" and "keyValueSize t \<le> valueSize t"
  shows "ekey (inserted p b x e k v t) y = (if y = x then (k, take (keyValueSize t) v) else ekey t y)"
  using assms by (simp add: ekey_def inserted_simps min_def)

lemma entry_of_None: "entry_of c t kv = None \<longleftrightarrow> kv \<notin> ekey t ` set (c (pidx t (fst kv)) (bidx t (fst kv)))"
  by (auto simp: entry_of_def find_None_iff)

lemma inserted_inv:
  assumes inv: "ht_inv lg c (x # fs) t" and v: "valueSize t \<le> length v"
    and none: "entry_of c t (k, take (keyValueSize t) v) = None" and x: "ht_heap t x = Some e"
  shows "ht_inv lg (cons_chain (pidx t k) (bidx t k) x c) fs (inserted (pidx t k) (bidx t k) x e k v t)"
proof -
  let ?p = "pidx t k" and ?b = "bidx t k" and ?t = "inserted (pidx t k) (bidx t k) x e k v t"
  note ib = idx_bounds [OF inv, of k] and D = ht_invD [OF inv]
  note ek = ekey_inserted [OF v D(14), of ?p ?b x e k]
  have xc: "x \<notin> set (c p b)" for p b using D(9) by fastforce
  have fc: "chain (ht_heap t) (he_link e) fs" "x \<noteq> NULL" "x \<notin> set fs" using D(7,8) x by auto
  have fr: "chain (ht_heap ?t) q ys" if "chain (ht_heap t) q ys" "x \<notin> set ys" for q ys
    using that(1) by (rule chain_frame) (use that(2) in \<open>auto simp: inserted_simps\<close>)
  have ch: "chain (ht_heap ?t) (segBuckets (segmentArray ?t ! p) ! b) (cons_chain ?p ?b x c p b)"
    if "p < length (segmentArray t)" "b < 32" for p b
  proof (cases "p = ?p \<and> b = ?b")
    case True
    then have "chain (ht_heap ?t) (segBuckets (segmentArray t ! ?p) ! ?b) (c ?p ?b)"
      using fr D(6) that xc by blast
    then show ?thesis
      using True that fc D(4) [OF that(1)] by (simp add: cons_chain_def inserted_nth inserted_simps)
  next
    case False
    then show ?thesis
      using fr [OF D(6) [OF that] xc] that D(4) [OF that(1)] ib(1) by (auto simp: cons_chain_def inserted_nth)
  qed
  have di: "distinct (map (ekey ?t) (cons_chain ?p ?b x c p b))" for p b
  proof -
    have m: "map (ekey ?t) (c p b) = map (ekey t) (c p b)" for p b using xc by (auto simp: ek)
    have "distinct (map (ekey ?t) (c p b))" for p b unfolding m by (rule D(12))
    moreover have "ekey ?t x \<notin> ekey ?t ` set (c ?p ?b)" using none xc by (auto simp: ek entry_of_None)
    ultimately show ?thesis by (auto simp: cons_chain_def)
  qed
  show ?thesis
    unfolding ht_inv_def
  proof (intro conjI allI impI ballI)
    fix p b y
    assume y: "y \<in> set (cons_chain ?p ?b x c p b)"
    show "y \<notin> set fs" "pidx ?t (fst (ekey ?t y)) = p" "bidx ?t (fst (ekey ?t y)) = b"
      using y D(9) [of y] D(10,11) fc(3) xc by (auto simp: cons_chain_def inserted_simps ek split: if_splits)
  next
    fix y f assume "ht_heap ?t y = Some f"
    then show "length (he_value f) = valueSize ?t"
      using D(13) x v by (auto simp: inserted_simps split: if_splits)
  qed (use D ib fc fr ch di in \<open>auto simp: inserted_simps inserted_nth\<close>)
qed


lemma find_cong_set: "(\<And>x. x \<in> set xs \<Longrightarrow> P x = Q x) \<Longrightarrow> List.find P xs = List.find Q xs"
  by (induction xs) auto

lemma inserted_map:
  assumes inv: "ht_inv lg c (x # fs) t" and v: "valueSize t \<le> length v"
    and x: "ht_heap t x = Some e"
  shows "ht_map (cons_chain (pidx t k) (bidx t k) x c) (inserted (pidx t k) (bidx t k) x e k v t) =
    (ht_map c t)((k, take (keyValueSize t) v) \<mapsto> take (valueSize t) v)"
proof
  fix kv
  let ?t = "inserted (pidx t k) (bidx t k) x e k v t" and ?c = "cons_chain (pidx t k) (bidx t k) x c"
  note D = ht_invD [OF inv]
  note ek = ekey_inserted [OF v D(14), of "pidx t k" "bidx t k" x e k]
  have xc: "x \<notin> set (c p b)" for p b using D(9) by fastforce
  have same: "List.find (\<lambda>y. ekey ?t y = kv) (c p b) = List.find (\<lambda>y. ekey t y = kv) (c p b)" for p b
    by (rule find_cong_set) (use xc in \<open>auto simp: ek\<close>)
  have old: "map_option (\<lambda>y. he_value (the (ht_heap ?t y))) (entry_of c t kv) = ht_map c t kv"
    using xc by (auto simp: ht_map_def entry_of_def inserted_simps dest!: find_SomeD intro!: option.map_cong0)
  have len: "length (he_value e) = valueSize t" using D(13) [OF x] .
  show "ht_map ?c ?t kv = ((ht_map c t)((k, take (keyValueSize t) v) \<mapsto> take (valueSize t) v)) kv"
  proof (cases "kv = (k, take (keyValueSize t) v)")
    case True
    then have "entry_of ?c ?t kv = Some x" by (simp add: entry_of_def cons_chain_def inserted_simps ek)
    then show ?thesis using True len by (simp add: ht_map_def inserted_simps)
  next
    case False
    then have "entry_of ?c ?t kv = entry_of c t kv"
      using same ek by (auto simp: entry_of_def cons_chain_def inserted_simps)
    then show ?thesis using False old by (simp add: ht_map_def)
  qed
qed

section \<open>Deletion\<close>

text \<open>
  The table after the element \<open>n\<close> behind the elements \<open>ys\<close> of bucket \<open>b\<close> has moved
  to the free list.
\<close>

definition bypass :: "ptr list \<Rightarrow> ptr \<Rightarrow> (ptr \<rightharpoonup> HashElement) \<Rightarrow> (ptr \<rightharpoonup> HashElement)" where
  "bypass ys n h = (let q = last (n # ys)
     in h(q \<mapsto> (the (h q))\<lparr>he_link := he_link (the (h n))\<rparr>))"

definition deleted :: "nat \<Rightarrow> nat \<Rightarrow> ptr list \<Rightarrow> ptr \<Rightarrow> HashTableInfo \<Rightarrow> HashTableInfo" where
  "deleted p b ys n t =
     put_bucket p b (if ys = [] then he_link (the (ht_heap t n)) else segBuckets (segmentArray t ! p) ! b)
       (t\<lparr>freeHashElementList := n, freeNum := freeNum t + 1, usedNum := usedNum t - 1,
          ht_heap := (bypass ys n (ht_heap t))(n \<mapsto>
            (the (bypass ys n (ht_heap t) n))\<lparr>he_link := freeHashElementList t\<rparr>)\<rparr>)"

lemma entry_of_split:
  assumes inv: "ht_inv lg c fs t" and "entry_of c t kv = Some n"
  obtains ys zs where "c (pidx t (fst kv)) (bidx t (fst kv)) = ys @ n # zs"
    "\<And>y. y \<in> set ys \<Longrightarrow> ekey t y \<noteq> kv" "ekey t n = kv" "distinct (ys @ n # zs)"
proof -
  obtain ys zs where s: "c (pidx t (fst kv)) (bidx t (fst kv)) = ys @ n # zs"
    "\<forall>y\<in>set ys. ekey t y \<noteq> kv" "ekey t n = kv"
    using find_split assms(2) unfolding entry_of_def by fast
  moreover have "distinct (ys @ n # zs)"
    using ht_invD(12) [OF inv, of "pidx t (fst kv)" "bidx t (fst kv)"] s(1) by (simp only: distinct_map)
  ultimately show ?thesis using that by blast
qed

lemma HashDeleteEntry_missing:
  assumes inv: "ht_inv lg c fs t" and v: "wf_value t v" and none: "entry_of c t (k, take (keyValueSize t) v) = None"
  shows "HashDeleteEntry k v t = Some (-1, t)"
proof -
  let ?p = "pidx t k" and ?b = "bidx t k"
  note ib = idx_bounds [OF inv, of k] and s1 = bucket_search(1) [OF inv v, of k]
  have nl: "\<not> segLock (segmentArray t ! ?p)" and lb: "length (segBuckets (segmentArray t ! ?p)) = 32"
    using ht_invD(3,4) [OF inv ib(1)] by simp_all
  have "delete_loop (lock_seg ?p True t) (segBuckets (segmentArray t ! ?p) ! ?b) (segBuckets (segmentArray t ! ?p) ! ?b)
      (segBuckets (segmentArray t ! ?p) ! ?b) k v = Some (segBuckets (segmentArray t ! ?p) ! ?b, NULL, lock_seg ?p True t)"
    using ht_invD(6) [OF inv ib(1,2)] wf_element [OF inv] v none
    by (intro delete_loop_none [of _ _ "c ?p ?b"]) (auto simp: entry_of_None image_iff)
  moreover have "put_bucket ?p ?b (segBuckets (segmentArray t ! ?p) ! ?b) t = t"
    by (simp add: put_bucket_def)
  ultimately show ?thesis
    using ib s1 nl lb
    by (simp add: HashDeleteEntry_def DeleteHashEntryFromBucket_def HashLockPartition_free
        HashLockPartitionRelease_eq bucket_set_eq put_unlock)
qed

lemma upd_order:
  "t\<lparr>usedNum := u, ht_heap := h, freeHashElementList := f, freeNum := m\<rparr> =
   t\<lparr>freeHashElementList := f, freeNum := m, usedNum := u, ht_heap := h\<rparr>"
  by (cases t) simp

lemma HashDeleteEntry_found:
  assumes inv: "ht_inv lg c fs t" and v: "wf_value t v"
    and c: "c (pidx t k) (bidx t k) = ys @ n # zs" "\<And>y. y \<in> set ys \<Longrightarrow> ekey t y \<noteq> (k, take (keyValueSize t) v)"
    "ekey t n = (k, take (keyValueSize t) v)" "distinct (ys @ n # zs)"
  shows "HashDeleteEntry k v t = Some (0, deleted (pidx t k) (bidx t k) ys n t)"
proof -
  let ?p = "pidx t k" and ?b = "bidx t k"
  let ?h = "segBuckets (segmentArray t ! pidx t k) ! bidx t k"
  note ib = idx_bounds [OF inv, of k] and s1 = bucket_search(1) [OF inv v, of k]
  have nl: "\<not> segLock (segmentArray t ! ?p)" and lb: "length (segBuckets (segmentArray t ! ?p)) = 32"
    using ht_invD(3,4) [OF inv ib(1)] by simp_all
  have ch: "chain (ht_heap t) ?h (ys @ n # zs)" using ht_invD(6) [OF inv ib(1,2)] c(1) by simp
  have n: "n \<noteq> NULL" "n \<in> dom (ht_heap t)" "last (n # ys) \<in> dom (ht_heap t)"
    using chain_dom [OF ch] by auto
  then obtain en eq where e: "ht_heap t n = Some en" "ht_heap t (last (n # ys)) = Some eq" by blast
  have del: "delete_loop (lock_seg ?p True t) ?h ?h ?h k v =
    Some (if ys = [] then he_link en else ?h, n, (lock_seg ?p True t)\<lparr>ht_heap :=
      (ht_heap t)(last (n # ys) \<mapsto> eq\<lparr>he_link := he_link en\<rparr>), usedNum := usedNum t - 1\<rparr>)"
    using delete_loop_found [of "lock_seg ?p True t" ?h ys n zs v k en "last (n # ys)" ?h eq ?h]
      ch v wf_element [OF inv] c e by auto
  have byp: "bypass ys n (ht_heap t) = (ht_heap t)(last (n # ys) \<mapsto> eq\<lparr>he_link := he_link en\<rparr>)"
    using e by (simp add: bypass_def del: last.simps)
  then have "bypass ys n (ht_heap t) n \<noteq> None" using e by (simp del: last.simps)
  then obtain en' where en': "bypass ys n (ht_heap t) n = Some en'" by blast
  show ?thesis
    using ib s1 nl lb del n e en' ht_invD(5) [OF inv]
    by (simp add: HashDeleteEntry_def DeleteHashEntryFromBucket_def HashLockPartition_free
        HashLockPartitionRelease_eq bucket_set_eq lock_seg_upd put_bucket_upd put_unlock PutFreeList_def
        HashLockFreeList_def HashLockReleaseFreeList_def deleted_def byp [symmetric] freeListLock_id upd_order del: last.simps)
qed


definition drop_chain :: "nat \<Rightarrow> nat \<Rightarrow> ptr list \<Rightarrow> (nat \<Rightarrow> nat \<Rightarrow> ptr list) \<Rightarrow> nat \<Rightarrow> nat \<Rightarrow> ptr list" where
  "drop_chain p b xs c p' b' = (if p' = p \<and> b' = b then xs else c p' b')"

lemma deleted_simps:
  "pidx (deleted p b ys n t) = pidx t" "bidx (deleted p b ys n t) = bidx t"
  "masks_for lg (deleted p b ys n t) = masks_for lg t"
  "ht_heap (deleted p b ys n t) = (bypass ys n (ht_heap t))(n \<mapsto>
     (the (bypass ys n (ht_heap t) n))\<lparr>he_link := freeHashElementList t\<rparr>)"
  "valueSize (deleted p b ys n t) = valueSize t" "keyValueSize (deleted p b ys n t) = keyValueSize t"
  "freeNum (deleted p b ys n t) = freeNum t + 1" "usedNum (deleted p b ys n t) = usedNum t - 1"
  "freeListLock (deleted p b ys n t) = freeListLock t"
  "freeHashElementList (deleted p b ys n t) = n"
  "length (segmentArray (deleted p b ys n t)) = length (segmentArray t)"
  "maxNum (deleted p b ys n t) = maxNum t"
  by (simp_all add: deleted_def)

lemma deleted_nth:
  "p < length (segmentArray t) \<Longrightarrow> q < length (segmentArray t) \<Longrightarrow>
   segLock (segmentArray (deleted p b ys n t) ! q) = segLock (segmentArray t ! q)"
  "p < length (segmentArray t) \<Longrightarrow> q < length (segmentArray t) \<Longrightarrow>
   length (segBuckets (segmentArray (deleted p b ys n t) ! q)) = length (segBuckets (segmentArray t ! q))"
  by (simp_all add: deleted_def put_bucket_nth)

text \<open>Only links change: every element keeps its key and its value.\<close>

definition content :: "HashElement \<Rightarrow> u64 \<times> byte list" where
  "content e = (hashKey e, he_value e)"

lemma content_link [simp]: "content (e\<lparr>he_link := l\<rparr>) = content e"
  by (simp add: content_def)

lemma bypass_content:
  "last (n # ys) \<in> dom h \<Longrightarrow> map_option content (bypass ys n h x) = map_option content (h x)"
  by (auto simp: bypass_def Let_def simp del: last.simps)

lemma deleted_content:
  assumes "n \<in> dom (ht_heap t)" and "last (n # ys) \<in> dom (ht_heap t)"
  shows "map_option content (ht_heap (deleted p b ys n t) x) = map_option content (ht_heap t x)"
proof -
  note m = bypass_content [OF assms(2)]
  obtain e where e: "bypass ys n (ht_heap t) n = Some e"
    using m [of n] assms(1) by (cases "bypass ys n (ht_heap t) n") auto
  then show ?thesis using m [of x] m [of n] by (auto simp: deleted_simps)
qed

lemma ekey_content:
  "map_option content (ht_heap t' x) = map_option content (ht_heap t x) \<Longrightarrow> keyValueSize t' = keyValueSize t \<Longrightarrow>
   x \<in> dom (ht_heap t) \<Longrightarrow> ekey t' x = ekey t x"
  by (cases "ht_heap t' x") (auto simp: ekey_def content_def)

lemma value_content:
  "map_option content (ht_heap t' x) = map_option content (ht_heap t x) \<Longrightarrow> x \<in> dom (ht_heap t) \<Longrightarrow>
   he_value (the (ht_heap t' x)) = he_value (the (ht_heap t x))"
  by (cases "ht_heap t' x") (auto simp: content_def)

lemma deleted_inv:
  assumes inv: "ht_inv lg c fs t"
    and c: "c (pidx t k) (bidx t k) = ys @ n # zs" and d: "distinct (ys @ n # zs)"
  shows "ht_inv lg (drop_chain (pidx t k) (bidx t k) (ys @ zs) c) (n # fs) (deleted (pidx t k) (bidx t k) ys n t)"
proof -
  let ?p = "pidx t k" and ?b = "bidx t k" and ?t = "deleted (pidx t k) (bidx t k) ys n t"
  let ?c = "drop_chain (pidx t k) (bidx t k) (ys @ zs) c"
  let ?h = "segBuckets (segmentArray t ! pidx t k) ! bidx t k"
  note ib = idx_bounds [OF inv, of k] and D = ht_invD [OF inv]
  have chk: "chain (ht_heap t) ?h (ys @ n # zs)" using D(6) [OF ib(1,2)] c by simp
  have n: "n \<noteq> NULL" "n \<in> dom (ht_heap t)" "last (n # ys) \<in> dom (ht_heap t)"
    using chain_dom [OF chk] by auto
  obtain en eq where e: "ht_heap t n = Some en" "ht_heap t (last (n # ys)) = Some eq" using n by blast
  note cont = deleted_content [OF n(2,3), of ?p ?b]
  have loc: "x \<in> set (c p b) \<Longrightarrow> x \<in> set (ys @ n # zs) \<Longrightarrow> p = ?p \<and> b = ?b" for x p b
    using D(10,11) [of x] c by metis
  have sub: "set (?c p b) \<subseteq> set (c p b)" for p b using c by (auto simp: drop_chain_def)
  have fr: "chain (ht_heap ?t) q xs" if "chain (ht_heap t) q xs" "set xs \<inter> set (n # ys) = {}" for q xs
  proof (rule chain_frame [OF that(1)])
    fix x assume "x \<in> set xs"
    then have "x \<noteq> n" "x \<noteq> last (n # ys)" using that(2) last_in_set [of "n # ys"] by auto
    then show "ht_heap ?t x = ht_heap t x" by (simp add: deleted_simps bypass_def Let_def del: last.simps)
  qed
  have main: "chain (ht_heap ?t) (if ys = [] then he_link en else ?h) (ys @ zs)"
  proof (cases ys rule: rev_cases)
    case Nil
    then have "chain (ht_heap t) (he_link en) zs" using chk e by auto
    then show ?thesis using fr [of "he_link en" zs] Nil d by auto
  next
    case (snoc ys' q)
    have "chain ((ht_heap t)(q \<mapsto> eq\<lparr>he_link := he_link en\<rparr>)) ?h (ys' @ q # zs)"
      using chk d e snoc by (intro chain_unlink [of _ _ _ _ n]) auto
    then have "chain (ht_heap ?t) ?h (ys' @ q # zs)"
      by (rule chain_frame) (use d e snoc in \<open>auto simp: deleted_simps bypass_def Let_def\<close>)
    then show ?thesis using snoc by simp
  qed
  have ch: "chain (ht_heap ?t) (segBuckets (segmentArray ?t ! p) ! b) (?c p b)"
    if "p < length (segmentArray t)" "b < 32" for p b
  proof (cases "p = ?p \<and> b = ?b")
    case True
    then show ?thesis
      using main that D(4) [OF ib(1)] e by (auto simp: drop_chain_def deleted_def put_bucket_nth)
  next
    case False
    then have "set (c p b) \<inter> set (n # ys) = {}" using loc by auto
    from fr [OF D(6) [OF that] this] show ?thesis
      using False that ib(1) by (auto simp: drop_chain_def deleted_def put_bucket_nth)
  qed
  have nf: "x \<notin> set fs" if "x \<in> set (ys @ n # zs)" for x using D(9) [of x ?p ?b] that c by simp
  have "chain (ht_heap ?t) (freeHashElementList t) fs"
    by (rule fr [OF D(7)]) (use nf in auto)
  then have fch: "chain (ht_heap ?t) n (n # fs)" using n by (simp add: deleted_simps fun_upd_def)
  have ek: "x \<in> set (c p b) \<Longrightarrow> p < length (segmentArray t) \<Longrightarrow> b < 32 \<Longrightarrow> ekey ?t x = ekey t x" for x p b
    using chain_dom [OF D(6)] ekey_content [OF cont] by (simp add: deleted_simps)
  have rng: "p < length (segmentArray t) \<and> b < 32" if "x \<in> set (c p b)" for x p b
    using D(10,11) [OF that] idx_bounds(1,2) [OF inv] by metis
  have di: "distinct (map (ekey ?t) (?c p b))" for p b
  proof -
    have "map (ekey ?t) (?c p b) = map (ekey t) (?c p b)" using ek rng sub by (meson map_cong subsetD)
    moreover have "distinct (map (ekey t) (?c p b))"
    proof (cases "p = ?p \<and> b = ?b")
      case True
      then show ?thesis using D(12) [of ?p ?b] c by (simp add: drop_chain_def)
    next
      case False
      then show ?thesis using D(12) [of p b] by (auto simp: drop_chain_def)
    qed
    ultimately show ?thesis by (simp only:)
  qed
  show ?thesis
    unfolding ht_inv_def
  proof (intro conjI allI impI ballI)
    fix p b y assume y: "y \<in> set (?c p b)"
    then have yc: "y \<in> set (c p b)" using sub by blast
    have "y \<noteq> n" using y loc [OF yc] d by (auto simp: drop_chain_def split: if_splits)
    then show "y \<notin> set (n # fs)" using D(9) yc by auto
    show "pidx ?t (fst (ekey ?t y)) = p" "bidx ?t (fst (ekey ?t y)) = b"
      using ek [OF yc] rng [OF yc] D(10,11) [OF yc] by (simp_all add: deleted_simps)
  next
    fix y f assume f: "ht_heap ?t y = Some f"
    then obtain g where "ht_heap t y = Some g" "content f = content g"
      using cont [of y] by (cases "ht_heap t y") auto
    then show "length (he_value f) = valueSize ?t" using D(13) by (simp add: content_def deleted_simps)
  next
    show "distinct (n # fs)" using nf D(8) by simp
  qed (use D ib ch fch di in \<open>simp_all add: deleted_simps deleted_nth del: chain.simps\<close>)
qed

lemma find_None_set: "(\<And>x. x \<in> set xs \<Longrightarrow> \<not> P x) \<Longrightarrow> List.find P xs = None"
  by (induction xs) auto

lemma find_delete:
  "\<not> P n \<Longrightarrow> List.find P (ys @ n # zs) = List.find P (ys @ zs)"
  by (induction ys) auto

lemma distinct_map_mid: "distinct (map f (ys @ n # zs)) \<Longrightarrow> x \<in> set (ys @ zs) \<Longrightarrow> f x \<noteq> f n"
  by (auto simp: image_iff)

lemma deleted_map:
  assumes inv: "ht_inv lg c fs t"
    and c: "c (pidx t k) (bidx t k) = ys @ n # zs" and n: "ekey t n = (k, kv :: byte list)"
  shows "ht_map (drop_chain (pidx t k) (bidx t k) (ys @ zs) c) (deleted (pidx t k) (bidx t k) ys n t) =
    (ht_map c t)((k, kv) := None)"
proof
  fix kv' :: "u64 \<times> byte list"
  let ?p = "pidx t k" and ?b = "bidx t k" and ?t = "deleted (pidx t k) (bidx t k) ys n t"
  let ?c = "drop_chain (pidx t k) (bidx t k) (ys @ zs) c"
  let ?p' = "pidx t (fst kv')" and ?b' = "bidx t (fst kv')"
  note D = ht_invD [OF inv]
  have "chain (ht_heap t) (segBuckets (segmentArray t ! ?p) ! ?b) (ys @ n # zs)"
    using D(6) [OF idx_bounds(1,2) [OF inv, of k]] by (simp only: c)
  from chain_dom [OF this] have dm: "n \<in> dom (ht_heap t)" "last (n # ys) \<in> dom (ht_heap t)" by auto
  note cont = deleted_content [OF this, of ?p ?b]
  have dom: "x \<in> dom (ht_heap t)" if "x \<in> set (c ?p' ?b')" for x
    using chain_dom [OF D(6) [OF idx_bounds(1,2) [OF inv, of "fst kv'"]] that] by blast
  have sub: "set (?c ?p' ?b') \<subseteq> set (c ?p' ?b')"
    unfolding drop_chain_def using c by auto
  have ek: "ekey ?t x = ekey t x" if "x \<in> set (c ?p' ?b')" for x
    using ekey_content [OF cont _ dom [OF that]] by (simp add: deleted_simps)
  have "entry_of ?c ?t kv' = List.find (\<lambda>x. ekey t x = kv') (?c ?p' ?b')"
    unfolding entry_of_def deleted_simps by (rule find_cong_set) (simp add: ek [OF subsetD [OF sub]])
  also have "\<dots> = (if kv' = (k, kv) then None else entry_of c t kv')"
  proof (cases "kv' = (k, kv)")
    case True
    have "List.find (\<lambda>x. ekey t x = kv') (ys @ zs) = None"
      using distinct_map_mid [OF D(12) [of ?p ?b, unfolded c]] n True by (intro find_None_set) simp
    then show ?thesis using True by (simp add: drop_chain_def)
  next
    case False
    then have "List.find (\<lambda>x. ekey t x = kv') (ys @ n # zs) = List.find (\<lambda>x. ekey t x = kv') (ys @ zs)"
      using n by (intro find_delete) simp
    then show ?thesis using c False by (simp add: entry_of_def drop_chain_def)
  qed
  finally have en: "entry_of ?c ?t kv' = (if kv' = (k, kv) then None else entry_of c t kv')" .
  have "he_value (the (ht_heap ?t x)) = he_value (the (ht_heap t x))" if "entry_of c t kv' = Some x" for x
    using value_content [OF cont] entry_ofD(4) [OF inv that] by simp
  then show "ht_map ?c ?t kv' = ((ht_map c t)((k, kv) := None)) kv'"
    by (cases "entry_of c t kv'") (simp_all add: ht_map_def en)
qed

section \<open>A new table\<close>

lemma init_elements_below: "x < el \<Longrightarrow> init_elements m vs i el h x = h x"
proof (induction m vs i el h rule: init_elements.induct)
  case (1 m vs i el h)
  then show ?case by (subst init_elements.simps) (auto simp: fun_upd_def)
qed

lemma init_elements_chain:
  "el \<noteq> NULL \<Longrightarrow> chain (init_elements m vs i el h) el
     (map (\<lambda>j. el + j * (vs + HASH_ELEMENT_SIZE)) [0..<Suc (nat (m - i))])"
proof (induction m vs i el h rule: init_elements.induct)
  case (1 m vs i el h)
  let ?s = "vs + HASH_ELEMENT_SIZE"
  show ?case
  proof (cases "i < m")
    case True
    let ?h = "h(el \<mapsto> (zero_element vs)\<lparr>he_link := el + vs + HASH_ELEMENT_SIZE\<rparr>)"
    let ?H = "init_elements m vs (i + 1) (el + vs + HASH_ELEMENT_SIZE) ?h"
    have eq: "init_elements m vs i el h = ?H" using True by (subst init_elements.simps) simp
    have "chain ?H (el + vs + HASH_ELEMENT_SIZE)
      (map (\<lambda>j. el + vs + HASH_ELEMENT_SIZE + j * ?s) [0..<Suc (nat (m - (i + 1)))])"
      using 1 True by (simp add: fun_upd_def)
    moreover have "?H el = ?h el" by (rule init_elements_below) (simp add: HASH_ELEMENT_SIZE_def)
    moreover have "nat (m - i) = Suc (nat (m - (i + 1)))" using True by simp
    moreover have "map (\<lambda>j. el + j * ?s) [0..<Suc (Suc k)] = el # map (\<lambda>j. el + vs + HASH_ELEMENT_SIZE + j * ?s) [0..<Suc k]" for k
      by (simp add: map_upt_Suc add.assoc del: upt_Suc)
    ultimately show ?thesis using "1.prems" by (simp add: eq add.assoc del: upt_Suc)
  next
    case False
    then show ?thesis using "1.prems" by (subst init_elements.simps) simp
  qed
qed

lemma init_elements_values:
  "\<forall>x e. h x = Some e \<longrightarrow> length (he_value e) = vs \<Longrightarrow>
   \<forall>x e. init_elements m vs i el h x = Some e \<longrightarrow> length (he_value e) = vs"
proof (induction m vs i el h rule: init_elements.induct)
  case (1 m vs i el h)
  let ?h = "\<lambda>l. h(el \<mapsto> (zero_element vs)\<lparr>he_link := l\<rparr>)"
  have h: "\<forall>x e. ?h l x = Some e \<longrightarrow> length (he_value e) = vs" for l
    using "1.prems" by (simp add: zero_element_def)
  show ?case
  proof (cases "i < m")
    case True
    then show ?thesis
      using "1.IH" [OF True h] by (subst init_elements.simps) (simp add: fun_upd_def)
  next
    case False
    then show ?thesis using h [of NULL] by (subst init_elements.simps) simp
  qed
qed

text \<open>
  The representation: the table stands for the finite map \<open>m\<close>, its counters are the number
  of entries and the number of free elements.
\<close>

definition ht_rep :: "HashTableInfo \<Rightarrow> (u64 \<times> byte list \<rightharpoonup> byte list) \<Rightarrow> bool" where
  "ht_rep t m \<longleftrightarrow> (\<exists>lg c fs. ht_inv lg c fs t \<and> m = ht_map c t) \<and> finite (dom m) \<and>
     usedNum t = int (card (dom m)) \<and> freeNum t + usedNum t = maxNum t"

lemma HashTableCreate_rep:
  assumes "1 < sint pn" and "sint pn = 2 ^ lg" and "0 < sint ms" and "kvs \<le> vs" and "base \<noteq> NULL" and "block_fits (sint pn) (sint ms) vs nl"
  shows "\<exists>t. HashTableCreate pn ms is vs kvs nl base = Some t \<and> ht_rep t Map.empty \<and>
    maxNum t = sint ms \<and> valueSize t = vs \<and> keyValueSize t = kvs"
proof -
  let ?n = "unat (pn - 1)"
  note pb = part_bits [OF assms(1) refl]
  have "getShiftNum (getAlignNum pn) = int (bits ?n)"
    using pb(2) by (simp add: getAlignNum_eq getShiftNum_exp)
  then obtain t where t: "HashTableCreate pn ms is vs kvs nl base = Some t"
    using pb(1,2) create_fits [OF _ assms(3,6)] assms(1) by (auto simp: HashTableCreate_def Let_def HASH_BITS_def)
  have m: "masks_for (bits ?n) t" using HashTableCreate_masks [OF t assms(1)] .
  have f: "maxNum t = sint ms" "valueSize t = vs" "keyValueSize t = kvs" "freeHashElementList t = base"
    "freeNum t = sint ms" "usedNum t = 0" "\<not> freeListLock t"
    "segmentArray t = replicate (nat (sint pn)) \<lparr>segLock = False, segBuckets = replicate 32 NULL\<rparr>"
    "ht_heap t = init_elements (sint ms) vs 1 base Map.empty"
    using t by (auto simp: HashTableCreate_def InitHashTable_def HASH_SEGMENT_SIZE_def Let_def split: if_splits)
  let ?fs = "map (\<lambda>j. base + j * (vs + HASH_ELEMENT_SIZE)) [0..<Suc (nat (sint ms - 1))]"
  have "2 ^ bits ?n \<le> nat (sint pn)"
  proof -
    have "(2::int) ^ bits ?n < 2 ^ Suc lg" using pb(4) assms(2) by simp
    then have "bits ?n \<le> lg" by (simp add: power_strict_increasing_iff del: power_Suc)
    then have "(2::int) ^ bits ?n \<le> sint pn" unfolding assms(2) by (intro power_increasing) auto
    then show ?thesis using assms(1) by (simp add: le_nat_iff)
  qed
  moreover have "distinct ?fs"
    by (simp add: distinct_map inj_on_def HASH_ELEMENT_SIZE_def del: upt_Suc)
  moreover have "chain (ht_heap t) base ?fs" using init_elements_chain [OF assms(5)] f(9) by simp
  moreover have "length ?fs = nat (sint ms)" using assms(3) by simp
  ultimately have inv: "ht_inv (bits ?n) (\<lambda>_ _. []) ?fs t"
    using m f assms(3,4) init_elements_values [of Map.empty vs]
    by (simp add: ht_inv_def del: upt_Suc)
  moreover have "ht_map (\<lambda>_ _. []) t = Map.empty" by (simp add: ht_map_def entry_of_def fun_eq_iff)
  ultimately have "\<exists>lg c fs. ht_inv lg c fs t \<and> Map.empty = ht_map c t" by metis
  then show ?thesis using t f by (simp add: ht_rep_def)
qed

section \<open>The interface\<close>

text \<open>
  The contract of a bounded hash map from (key, key bytes) to values, as the buffer manager
  relies on it; \<open>room\<close> is the number of entries that can still be added.
\<close>

locale hash_map =
  fixes rep :: "'t \<Rightarrow> (u64 \<times> byte list \<rightharpoonup> byte list) \<Rightarrow> bool"
    and room :: "'t \<Rightarrow> int"
    and ksize :: "'t \<Rightarrow> nat"
    and vsize :: "'t \<Rightarrow> nat"
    and find_entry :: "u64 \<Rightarrow> byte list \<Rightarrow> 't \<Rightarrow> ptr option"
    and get_free :: "u64 \<Rightarrow> byte list \<Rightarrow> 't \<Rightarrow> (ptr \<times> HashOp \<times> 't) option"
    and delete :: "u64 \<Rightarrow> byte list \<Rightarrow> 't \<Rightarrow> (int \<times> 't) option"
    and val :: "ptr \<Rightarrow> 't \<Rightarrow> byte list option"
  assumes find_absent: "rep t m \<Longrightarrow> ksize t \<le> length v \<Longrightarrow> m (k, take (ksize t) v) = None \<Longrightarrow>
      find_entry k v t = Some NULL"
    and find_present: "rep t m \<Longrightarrow> ksize t \<le> length v \<Longrightarrow> m (k, take (ksize t) v) = Some w \<Longrightarrow>
      \<exists>x. x \<noteq> NULL \<and> find_entry k v t = Some x \<and> val x t = Some w"
    and get_present: "rep t m \<Longrightarrow> vsize t \<le> length v \<Longrightarrow> m (k, take (ksize t) v) = Some w \<Longrightarrow>
      \<exists>x. x \<noteq> NULL \<and> get_free k v t = Some (x, HASH_FIND, t) \<and> val x t = Some w"
    and get_full: "rep t m \<Longrightarrow> vsize t \<le> length v \<Longrightarrow> m (k, take (ksize t) v) = None \<Longrightarrow> room t = 0 \<Longrightarrow>
      get_free k v t = Some (NULL, HASH_NULL, t)"
    and get_insert: "rep t m \<Longrightarrow> vsize t \<le> length v \<Longrightarrow> m (k, take (ksize t) v) = None \<Longrightarrow> room t \<noteq> 0 \<Longrightarrow>
      \<exists>x t'. x \<noteq> NULL \<and> get_free k v t = Some (x, HASH_INSERT, t') \<and> val x t' = Some (take (vsize t) v) \<and>
        rep t' (m((k, take (ksize t) v) \<mapsto> take (vsize t) v)) \<and> room t' = room t - 1 \<and>
        ksize t' = ksize t \<and> vsize t' = vsize t"
    and delete_absent: "rep t m \<Longrightarrow> ksize t \<le> length v \<Longrightarrow> m (k, take (ksize t) v) = None \<Longrightarrow>
      delete k v t = Some (-1, t)"
    and delete_present: "rep t m \<Longrightarrow> ksize t \<le> length v \<Longrightarrow> m (k, take (ksize t) v) \<noteq> None \<Longrightarrow>
      \<exists>t'. delete k v t = Some (0, t') \<and> rep t' (m((k, take (ksize t) v) := None)) \<and> room t' = room t + 1 \<and>
        ksize t' = ksize t \<and> vsize t' = vsize t"
    and ksize_le: "rep t m \<Longrightarrow> ksize t \<le> vsize t"
begin

lemma insert_then_find:
  assumes r: "rep t m" and v: "vsize t \<le> length v" and n: "m (k, take (ksize t) v) = None" and "room t \<noteq> 0"
  shows "\<exists>x t' y. get_free k v t = Some (x, HASH_INSERT, t') \<and> find_entry k v t' = Some y \<and> y \<noteq> NULL \<and>
    val y t' = Some (take (vsize t) v)"
proof -
  from get_insert [OF r v n assms(4)] obtain x t' where
    t': "get_free k v t = Some (x, HASH_INSERT, t')" "rep t' (m((k, take (ksize t) v) \<mapsto> take (vsize t) v))"
    "ksize t' = ksize t" by blast
  have "ksize t' \<le> length v" using ksize_le [OF r] v t' by simp
  from find_present [OF t'(2) this, of k "take (vsize t) v"] t' show ?thesis by auto
qed

lemma insert_then_delete:
  assumes r: "rep t m" and v: "vsize t \<le> length v" and n: "m (k, take (ksize t) v) = None" and "room t \<noteq> 0"
  shows "\<exists>x t' t''. get_free k v t = Some (x, HASH_INSERT, t') \<and> delete k v t' = Some (0, t'') \<and>
    rep t'' m \<and> room t'' = room t"
proof -
  from get_insert [OF r v n assms(4)] obtain x t' where
    t': "get_free k v t = Some (x, HASH_INSERT, t')" "rep t' (m((k, take (ksize t) v) \<mapsto> take (vsize t) v))"
    "ksize t' = ksize t" "room t' = room t - 1" by blast
  have "ksize t' \<le> length v" using ksize_le [OF r] v t' by simp
  moreover have "(m((k, take (ksize t) v) \<mapsto> take (vsize t) v)) (k, take (ksize t') v) \<noteq> None" using t' by simp
  ultimately obtain t'' where "delete k v t' = Some (0, t'')" "room t'' = room t' + 1"
    "rep t'' ((m((k, take (ksize t) v) \<mapsto> take (vsize t) v))((k, take (ksize t') v) := None))"
    using delete_present [OF t'(2), of v k] by blast
  moreover have "(m((k, take (ksize t) v) \<mapsto> take (vsize t) v))((k, take (ksize t') v) := None) = m"
    using n t' by (auto simp: fun_eq_iff)
  ultimately show ?thesis using t' by auto
qed

end

text \<open>The table of hashtab.c meets the contract; a lookup finds the partition first.\<close>

definition find_in_partition :: "u64 \<Rightarrow> byte list \<Rightarrow> HashTableInfo \<Rightarrow> ptr option" where
  "find_in_partition k v t = HashFindEntry k v (GetPartitionIndex k t) t"

lemma lock_seg_id: "p < length (segmentArray t) \<Longrightarrow> \<not> segLock (segmentArray t ! p) \<Longrightarrow> lock_seg p False t = t"
  by (simp add: lock_seg_def segLock_False_id)

lemma find_in_partition_eq:
  assumes inv: "ht_inv lg c fs t" and v: "wf_value t v"
  shows "find_in_partition k v t =
    Some (case entry_of c t (k, take (keyValueSize t) v) of None \<Rightarrow> NULL | Some x \<Rightarrow> x)"
  using HashFindEntry_spec [OF inv v, of k "pidx t k" False] ht_invD(3) [OF inv] idx_bounds(1) [OF inv]
  by (simp add: find_in_partition_def lock_seg_id)

lemma rep_entry:
  assumes "ht_rep t m"
  obtains lg c fs where "ht_inv lg c fs t" "m = ht_map c t"
  using assms by (auto simp: ht_rep_def)

lemma GetEntryValue_entry:
  assumes "ht_inv lg c fs t" and "ht_map c t kv = Some w"
  obtains x where "entry_of c t kv = Some x" "x \<noteq> NULL" "GetEntryValue x t = Some w"
proof -
  from assms(2) obtain x where x: "entry_of c t kv = Some x" "w = he_value (the (ht_heap t x))"
    by (auto simp: ht_map_def)
  from entry_ofD(3,4) [OF assms(1) x(1)] that x show ?thesis by (auto simp: GetEntryValue_def)
qed

lemma ht_rep_insert:
  assumes r: "ht_rep t m" and v: "valueSize t \<le> length v"
    and none: "m (k, take (keyValueSize t) v) = None" and room: "freeNum t \<noteq> 0"
  shows "\<exists>x t'. x \<noteq> NULL \<and> HashGetFreeEntry k v t = Some (x, HASH_INSERT, t') \<and>
    GetEntryValue x t' = Some (take (valueSize t) v) \<and>
    ht_rep t' (m((k, take (keyValueSize t) v) \<mapsto> take (valueSize t) v)) \<and> freeNum t' = freeNum t - 1 \<and>
    keyValueSize t' = keyValueSize t \<and> valueSize t' = valueSize t"
proof -
  obtain lg c fs where inv: "ht_inv lg c fs t" and m: "m = ht_map c t" using rep_entry [OF r] .
  obtain x fs' where fs: "fs = x # fs'" using ht_invD(15) [OF inv] room by (cases fs) auto
  from ht_invD(7) [OF inv] fs obtain e where x: "x \<noteq> NULL" "ht_heap t x = Some e" by auto
  have en: "entry_of c t (k, take (keyValueSize t) v) = None" using none m by (simp add: ht_map_def)
  let ?t = "inserted (pidx t k) (bidx t k) x e k v t"
  have "HashGetFreeEntry k v t = Some (x, HASH_INSERT, ?t)"
    using HashGetFreeEntry_insert [OF inv [unfolded fs] v en x(2)] .
  moreover have "\<exists>lg c fs. ht_inv lg c fs ?t \<and> m((k, take (keyValueSize t) v) \<mapsto> take (valueSize t) v) = ht_map c ?t"
    using inserted_inv [OF inv [unfolded fs] v en x(2)] inserted_map [OF inv [unfolded fs] v x(2), of k] m by metis
  moreover have "card (dom (m((k, take (keyValueSize t) v) \<mapsto> take (valueSize t) v))) = Suc (card (dom m))"
    using none r by (simp add: ht_rep_def domIff)
  moreover have "length (he_value e) = valueSize t" using ht_invD(13) [OF inv x(2)] .
  ultimately show ?thesis
    using r x(1) by (intro exI [of _ x] exI [of _ ?t]) (simp add: ht_rep_def inserted_simps GetEntryValue_def)
qed

lemma ht_rep_delete:
  assumes r: "ht_rep t m" and v: "keyValueSize t \<le> length v" and some: "m (k, take (keyValueSize t) v) \<noteq> None"
  shows "\<exists>t'. HashDeleteEntry k v t = Some (0, t') \<and> ht_rep t' (m((k, take (keyValueSize t) v) := None)) \<and>
    freeNum t' = freeNum t + 1 \<and> keyValueSize t' = keyValueSize t \<and> valueSize t' = valueSize t"
proof -
  obtain lg c fs where inv: "ht_inv lg c fs t" and m: "m = ht_map c t" using rep_entry [OF r] .
  from some m obtain n where n: "entry_of c t (k, take (keyValueSize t) v) = Some n" by (auto simp: ht_map_def)
  from entry_of_split [OF inv n] obtain ys zs where c: "c (pidx t k) (bidx t k) = ys @ n # zs"
    "\<And>y. y \<in> set ys \<Longrightarrow> ekey t y \<noteq> (k, take (keyValueSize t) v)" "ekey t n = (k, take (keyValueSize t) v)"
    "distinct (ys @ n # zs)" by auto
  let ?t = "deleted (pidx t k) (bidx t k) ys n t"
  have "wf_value t v" using v by (simp add: wf_value_def)
  from HashDeleteEntry_found [OF inv this c] have "HashDeleteEntry k v t = Some (0, ?t)" .
  moreover have "\<exists>lg c fs. ht_inv lg c fs ?t \<and> m((k, take (keyValueSize t) v) := None) = ht_map c ?t"
    using deleted_inv [OF inv c(1,4)] deleted_map [OF inv c(1,3)] m by metis
  moreover have "int (card (dom m - {(k, take (keyValueSize t) v)})) = int (card (dom m)) - 1"
  proof -
    have mem: "(k, take (keyValueSize t) v) \<in> dom m" using some by (simp add: domIff)
    have fin: "finite (dom m)" using r by (simp add: ht_rep_def)
    show ?thesis using card_Suc_Diff1 [OF fin mem] by simp
  qed
  ultimately show ?thesis
    using r by (intro exI [of _ ?t]) (simp add: ht_rep_def deleted_simps dom_fun_upd)
qed

lemma ht_rep_get_full:
  assumes r: "ht_rep t m" and "valueSize t \<le> length v" "m (k, take (keyValueSize t) v) = None" "freeNum t = 0"
  shows "HashGetFreeEntry k v t = Some (NULL, HASH_NULL, t)"
proof -
  obtain lg c fs where inv: "ht_inv lg c fs t" and m: "m = ht_map c t" using rep_entry [OF r] .
  have "fs = []" using ht_invD(15) [OF inv] assms(4) by simp
  then show ?thesis
    using HashGetFreeEntry_full [of lg c t v k] inv assms(2,3) ht_invD(14) [OF inv] m
    by (simp add: wf_value_def ht_map_def)
qed

lemma ht_rep_get_present:
  assumes r: "ht_rep t m" and v: "valueSize t \<le> length v" and s: "m (k, take (keyValueSize t) v) = Some w"
  shows "\<exists>x. x \<noteq> NULL \<and> HashGetFreeEntry k v t = Some (x, HASH_FIND, t) \<and> GetEntryValue x t = Some w"
proof -
  obtain lg c fs where inv: "ht_inv lg c fs t" and m: "m = ht_map c t" using rep_entry [OF r] .
  obtain x where x: "entry_of c t (k, take (keyValueSize t) v) = Some x" "x \<noteq> NULL" "GetEntryValue x t = Some w"
    using GetEntryValue_entry [OF inv s [unfolded m]] .
  have "wf_value t v" using v ht_invD(14) [OF inv] by (simp add: wf_value_def)
  from HashGetFreeEntry_found [OF inv this x(1)] x show ?thesis by blast
qed

lemma ht_rep_find_absent:
  assumes r: "ht_rep t m" and "keyValueSize t \<le> length v" and "m (k, take (keyValueSize t) v) = None"
  shows "find_in_partition k v t = Some NULL" and "HashDeleteEntry k v t = Some (-1, t)"
proof -
  obtain lg c fs where inv: "ht_inv lg c fs t" and m: "m = ht_map c t" using rep_entry [OF r] .
  have wv: "wf_value t v" using assms(2) by (simp add: wf_value_def)
  show "find_in_partition k v t = Some NULL" "HashDeleteEntry k v t = Some (-1, t)"
    using find_in_partition_eq [OF inv wv, of k] HashDeleteEntry_missing [OF inv wv, of k] assms(3) m
    by (simp_all add: ht_map_def)
qed

lemma ht_rep_find_present:
  assumes r: "ht_rep t m" and v: "keyValueSize t \<le> length v" and s: "m (k, take (keyValueSize t) v) = Some w"
  shows "\<exists>x. x \<noteq> NULL \<and> find_in_partition k v t = Some x \<and> GetEntryValue x t = Some w"
proof -
  obtain lg c fs where inv: "ht_inv lg c fs t" and m: "m = ht_map c t" using rep_entry [OF r] .
  obtain x where x: "entry_of c t (k, take (keyValueSize t) v) = Some x" "x \<noteq> NULL" "GetEntryValue x t = Some w"
    using GetEntryValue_entry [OF inv s [unfolded m]] .
  have wv: "wf_value t v" using v by (simp add: wf_value_def)
  show ?thesis using find_in_partition_eq [OF inv wv, of k] x by simp
qed

lemma ht_rep_sizes: "ht_rep t m \<Longrightarrow> keyValueSize t \<le> valueSize t"
  by (auto simp: ht_rep_def dest: ht_invD(14))

interpretation ht: hash_map ht_rep freeNum keyValueSize valueSize find_in_partition HashGetFreeEntry
  HashDeleteEntry GetEntryValue
  by (rule hash_map.intro)
    (fact ht_rep_find_absent ht_rep_find_present ht_rep_get_present ht_rep_get_full ht_rep_insert
      ht_rep_delete ht_rep_sizes)+

section \<open>Runs of the table\<close>

text \<open>
  A sequence of calls on a table and the abstract bounded map: \<open>ks\<close> and \<open>vs\<close> are the
  sizes of a key and of a value, \<open>cap\<close> the number of elements.
\<close>

datatype ht_op = HFind u64 "byte list" | HInsert u64 "byte list" | HDelete u64 "byte list"

datatype ht_out = HFound "byte list option" | HInserted HashOp "byte list option" | HDeleted int

definition ht_exec :: "ht_op \<Rightarrow> HashTableInfo \<Rightarrow> (ht_out \<times> HashTableInfo) option" where
  "ht_exec op t =
     (case op of
        HFind k v \<Rightarrow> do { x \<leftarrow> find_in_partition k v t;
          Some (HFound (if x = NULL then None else GetEntryValue x t), t) }
      | HInsert k v \<Rightarrow> do { (x, flag, t) \<leftarrow> HashGetFreeEntry k v t;
          Some (HInserted flag (if x = NULL then None else GetEntryValue x t), t) }
      | HDelete k v \<Rightarrow> do { (r, t) \<leftarrow> HashDeleteEntry k v t; Some (HDeleted r, t) })"

fun ht_run :: "ht_op list \<Rightarrow> HashTableInfo \<Rightarrow> (ht_out list \<times> HashTableInfo) option" where
  "ht_run [] t = Some ([], t)"
| "ht_run (op # ops) t = do {
     (out, t) \<leftarrow> ht_exec op t;
     (outs, t) \<leftarrow> ht_run ops t;
     Some (out # outs, t) }"

fun map_spec :: "nat \<Rightarrow> nat \<Rightarrow> nat \<Rightarrow> ht_op \<Rightarrow> (u64 \<times> byte list \<rightharpoonup> byte list) \<Rightarrow>
    ht_out \<times> (u64 \<times> byte list \<rightharpoonup> byte list)" where
  "map_spec ks vs cap (HFind k v) m = (HFound (m (k, take ks v)), m)"
| "map_spec ks vs cap (HInsert k v) m =
     (case m (k, take ks v) of
        Some w \<Rightarrow> (HInserted HASH_FIND (Some w), m)
      | None \<Rightarrow> if card (dom m) < cap
               then (HInserted HASH_INSERT (Some (take vs v)), m((k, take ks v) \<mapsto> take vs v))
               else (HInserted HASH_NULL None, m))"
| "map_spec ks vs cap (HDelete k v) m =
     (HDeleted (if m (k, take ks v) = None then -1 else 0), m((k, take ks v) := None))"

fun map_spec_run :: "nat \<Rightarrow> nat \<Rightarrow> nat \<Rightarrow> ht_op list \<Rightarrow> (u64 \<times> byte list \<rightharpoonup> byte list) \<Rightarrow>
    ht_out list \<times> (u64 \<times> byte list \<rightharpoonup> byte list)" where
  "map_spec_run ks vs cap [] m = ([], m)"
| "map_spec_run ks vs cap (op # ops) m =
     (let (out, m) = map_spec ks vs cap op m; (outs, m) = map_spec_run ks vs cap ops m in (out # outs, m))"

fun op_value :: "ht_op \<Rightarrow> byte list" where
  "op_value (HFind k v) = v" | "op_value (HInsert k v) = v" | "op_value (HDelete k v) = v"

definition ht_state :: "nat \<Rightarrow> nat \<Rightarrow> nat \<Rightarrow> HashTableInfo \<Rightarrow> (u64 \<times> byte list \<rightharpoonup> byte list) \<Rightarrow> bool" where
  "ht_state ks vs cap t m \<longleftrightarrow> ht_rep t m \<and> keyValueSize t = ks \<and> valueSize t = vs \<and>
     freeNum t = int cap - int (card (dom m)) \<and> card (dom m) \<le> cap \<and> finite (dom m)"

lemma ht_state_step:
  assumes st: "ht_state ks vs cap t m" and v: "vs \<le> length (op_value op)"
  shows "\<exists>t'. ht_exec op t = Some (fst (map_spec ks vs cap op m), t') \<and>
    ht_state ks vs cap t' (snd (map_spec ks vs cap op m))"
proof -
  have r: "ht_rep t m" and sz: "keyValueSize t = ks" "valueSize t = vs"
    and free: "freeNum t = int cap - int (card (dom m))" "card (dom m) \<le> cap" and fin: "finite (dom m)"
    using st by (simp_all add: ht_state_def)
  have kv: "ks \<le> vs" using ht.ksize_le [OF r] sz by simp
  show ?thesis
  proof (cases op)
    case (HFind k w)
    then show ?thesis
      using ht.find_absent [OF r, of w k] ht.find_present [OF r, of w k] st v sz kv
      by (cases "m (k, take ks w)") (auto simp: ht_exec_def)
  next
    case (HInsert k w)
    have l: "valueSize t \<le> length w" using v HInsert sz by simp
    show ?thesis
    proof (cases "m (k, take ks w)")
      case (Some u)
      then show ?thesis using HInsert ht.get_present [OF r l, of k u] st sz by (auto simp: ht_exec_def)
    next
      case None
      show ?thesis
      proof (cases "card (dom m) < cap")
        case True
        then have "freeNum t \<noteq> 0" using free by simp
        from ht.get_insert [OF r l _ this, of k] None sz obtain x t' where
          t': "x \<noteq> NULL" "HashGetFreeEntry k w t = Some (x, HASH_INSERT, t')" "GetEntryValue x t' = Some (take vs w)"
          "ht_rep t' (m((k, take ks w) \<mapsto> take vs w))" "freeNum t' = freeNum t - 1"
          "keyValueSize t' = ks" "valueSize t' = vs" by auto
        have "card (insert (k, take ks w) (dom m)) = Suc (card (dom m))" using None fin by (simp add: domIff)
        then have "ht_state ks vs cap t' (m((k, take ks w) \<mapsto> take vs w))"
          using t' free True fin by (simp add: ht_state_def)
        then show ?thesis using t' HInsert None True by (simp add: ht_exec_def)
      next
        case False
        then have "freeNum t = 0" using free by simp
        then show ?thesis using HInsert None False ht.get_full [OF r l, of k] sz st by (simp add: ht_exec_def)
      qed
    qed
  next
    case (HDelete k w)
    have l: "keyValueSize t \<le> length w" using v HDelete sz kv by simp
    show ?thesis
    proof (cases "m (k, take ks w)")
      case None
      then have "m((k, take ks w) := None) = m" by (auto simp: fun_eq_iff)
      then show ?thesis using HDelete None ht.delete_absent [OF r l, of k] sz st by (simp add: ht_exec_def)
    next
      case (Some u)
      with ht.delete_present [OF r l, of k] sz obtain t' where
        t': "HashDeleteEntry k w t = Some (0, t')" "ht_rep t' (m((k, take ks w) := None))"
        "freeNum t' = freeNum t + 1" "keyValueSize t' = ks" "valueSize t' = vs" by auto
      have "Suc (card (dom m - {(k, take ks w)})) = card (dom m)"
        using fin Some by (intro card_Suc_Diff1) auto
      then have "ht_state ks vs cap t' (m((k, take ks w) := None))"
        using t' free fin by (simp add: ht_state_def)
      then show ?thesis using t' HDelete Some by (simp add: ht_exec_def)
    qed
  qed
qed

lemma ht_state_run:
  assumes "ht_state ks vs cap t m" and "\<forall>op\<in>set ops. vs \<le> length (op_value op)"
  shows "\<exists>t'. ht_run ops t = Some (fst (map_spec_run ks vs cap ops m), t') \<and>
    ht_state ks vs cap t' (snd (map_spec_run ks vs cap ops m))"
  using assms
proof (induction ops arbitrary: t m)
  case (Cons op ops)
  obtain t1 where 1: "ht_exec op t = Some (fst (map_spec ks vs cap op m), t1)"
    "ht_state ks vs cap t1 (snd (map_spec ks vs cap op m))"
    using ht_state_step [OF Cons.prems(1), of op] Cons.prems(2) by auto
  have "\<forall>op\<in>set ops. vs \<le> length (op_value op)" using Cons.prems(2) by simp
  from Cons.IH [OF 1(2) this] 1(1) show ?case by (auto simp: Let_def split: prod.splits)
qed simp

section \<open>Properties\<close>

text \<open>C3: the hash table implements a bounded map. Every sequence of find, insert and
  delete calls on a new table with a power-of-two number of partitions, whose elements together take at least the
  256 bytes of the buckets of a segment and whose size is an \<^verbatim>\<open>int\<close>, runs without a bad
  access or a lock left taken, and returns what the abstract map of at most \<open>maxSize\<close>
  entries returns, whatever the keys are: a stored value is found until it is deleted, an
  insert of a present key returns the present entry, and an insert into a full table fails.\<close>

theorem hash_table_refines_map:
  assumes "1 < sint partNum" and "sint partNum = 2 ^ lg" and "0 < sint maxSize" and "kvs \<le> vs" and "base \<noteq> NULL"
    and "block_fits (sint partNum) (sint maxSize) vs nl" and "\<forall>op\<in>set ops. vs \<le> length (op_value op)"
  shows "\<exists>t t'. HashTableCreate partNum maxSize initSize vs kvs nl base = Some t \<and>
    ht_run ops t = Some (fst (map_spec_run kvs vs (nat (sint maxSize)) ops Map.empty), t') \<and>
    usedNum t' = int (card (dom (snd (map_spec_run kvs vs (nat (sint maxSize)) ops Map.empty))))"
proof -
  from HashTableCreate_rep [OF assms(1-6), of initSize] obtain t where
    t: "HashTableCreate partNum maxSize initSize vs kvs nl base = Some t" "ht_rep t Map.empty"
    "maxNum t = sint maxSize" "valueSize t = vs" "keyValueSize t = kvs" by blast
  then have "ht_state kvs vs (nat (sint maxSize)) t Map.empty"
    using assms(3) by (simp add: ht_state_def ht_rep_def)
  from ht_state_run [OF this assms(7)] obtain t' where
    "ht_run ops t = Some (fst (map_spec_run kvs vs (nat (sint maxSize)) ops Map.empty), t')"
    "ht_rep t' (snd (map_spec_run kvs vs (nat (sint maxSize)) ops Map.empty))"
    by (auto simp: ht_state_def)
  then show ?thesis using t(1) by (auto simp: ht_rep_def)
qed

text \<open>A value of 240 bytes that starts with its key.\<close>

definition sample_value :: "byte \<Rightarrow> byte \<Rightarrow> byte list" where
  "sample_value k v = k # replicate 239 v"

theorem hash_table_refines_map_witness:
  "\<exists>t t'. HashTableCreate 4 1 1 240 1 15 160 = Some t \<and>
     ht_run [HInsert 5 (sample_value 7 1), HFind 5 (sample_value 7 9), HInsert 9 (sample_value 8 2), HDelete 5 (sample_value 7 0), HFind 5 (sample_value 7 9)] t =
       Some ([HInserted HASH_INSERT (Some (sample_value 7 1)), HFound (Some (sample_value 7 1)), HInserted HASH_NULL None,
              HDeleted 0, HFound None], t') \<and> usedNum t' = 0"
proof -
  have s: "sint (4 :: i32) = 4" "sint (1 :: i32) = 1" by simp_all
  show ?thesis
    using hash_table_refines_map [of 4 2 1 1 240 160 15 "[HInsert 5 (sample_value 7 1), HFind 5 (sample_value 7 9), HInsert 9 (sample_value 8 2),
      HDelete 5 (sample_value 7 0), HFind 5 (sample_value 7 9)]" 1]
    by (simp add: s sample_value_def block_fits_def)
qed

text \<open>The segments of a table with small elements have their buckets outside of the block: four partitions, one element with a value of two bytes.\<close>

lemma small_table_leaves_block: "HashTableCreate 4 1 1 2 1 15 160 = None"
proof -
  have s: "sint (4 :: i32) = 4" "sint (1 :: i32) = 1" by simp_all
  obtain k where k: "uint (getAlignNum 1) = 2 ^ k" "2 ^ k < 2 * sint (1 :: i32)" by (rule align_bits [of 1]) simp_all
  obtain j where j: "uint (getAlignNum 4) = 2 ^ j" "sint (4 :: i32) \<le> 2 ^ j" "2 ^ j < 2 * sint (4 :: i32)" by (rule align_bits [of 4]) simp_all
  have "(2 :: int) ^ k < 2 ^ 1" using k(2) by (simp add: s)
  then have "k = 0" using power_strict_increasing_iff [of "2 :: int" k 1] by simp
  moreover have "(2 :: int) ^ 2 \<le> 2 ^ j" "(2 :: int) ^ j < 2 ^ 3" using j(2,3) by (simp_all add: s)
  then have "j = 2" using power_increasing_iff [of "2 :: int" 2 j] power_strict_increasing_iff [of "2 :: int" j 3] by simp
  ultimately have "sint (GetHashTableSize 4 1 (of_nat 2)) = 314"
    using GetHashTableSize_eq [of 2 18 1 314 4] k(1) j(1) by simp
  then show ?thesis
    by (simp add: HashTableCreate_def Let_def layout_end_def sizeof_HashTableInfo_def sizeof_HashSegment_def HASH_SEGMENT_SIZE_def HASH_ELEMENT_SIZE_def s)
qed

text \<open>Rounding up to a power of two. \<open>getAlignNum n\<close> is the least power of two that
  is at least \<open>n\<close>, for every positive \<open>n\<close> of 32 bits.\<close>

theorem getAlignNum_least_power_of_two:
  assumes "num \<noteq> 0"
  shows "\<exists>k. getAlignNum num = 2 ^ k \<and> unat num \<le> 2 ^ k \<and> (\<forall>j. unat num \<le> 2 ^ j \<longrightarrow> k \<le> j)"
proof -
  let ?n = "unat (num - 1)"
  have u: "unat num = Suc ?n"
    using assms by (simp add: unat_minus_one unat_gt_0)
  have "unat num \<le> 2 ^ bits ?n" using bits_bound [of ?n] u by simp
  moreover have "bits ?n \<le> j" if "unat num \<le> 2 ^ j" for j using that u by (intro bits_least) simp
  ultimately show ?thesis by (auto simp: getAlignNum_eq)
qed

theorem getAlignNum_least_power_of_two_witness:
  "\<exists>k. getAlignNum 100 = 2 ^ k \<and> (100 :: nat) \<le> 2 ^ k \<and> k \<le> 7"
proof -
  have "unat (100 :: u32) = 100" "(100 :: u32) \<noteq> 0" by simp_all
  with getAlignNum_least_power_of_two [of 100] obtain k where
    k: "getAlignNum 100 = 2 ^ k" "(100 :: nat) \<le> 2 ^ k" "\<forall>j. (100 :: nat) \<le> 2 ^ j \<longrightarrow> k \<le> j" by auto
  from k(3) have "k \<le> 7" by (auto dest: spec [of _ 7])
  with k show ?thesis by blast
qed

text \<open>Partition and bucket are not independent. In a table with \<open>2 ^ p\<close> partitions
  (\<open>p \<le> 5\<close>) the partition of a key is the bucket index modulo \<open>2 ^ p\<close>, so a partition
  reaches only every \<open>2 ^ p\<close>-th of its 32 buckets.\<close>

theorem partition_is_bucket_mod:
  assumes "HashTableCreate partNum maxSize initSize vs kvs nl base = Some t" and "sint partNum = 2 ^ p"
    and "0 < p" and "p \<le> 5"
  shows "GetPartitionIndex key t = GetBucketIndex key t mod 2 ^ p"
proof -
  have "(1::int) < 2 ^ p" using assms(3) by (simp add: one_less_power)
  then have one: "1 < sint partNum" using assms(2) by simp
  let ?q = "bits (unat (partNum - 1))"
  have "(2::int) ^ p \<le> 2 ^ ?q" "(2::int) ^ ?q < 2 ^ Suc p"
    using part_bits(3,4) [OF one refl] assms(2) by simp_all
  then have q: "?q = p" by (simp add: power_strict_increasing_iff del: power_Suc)
  have m: "masks_for p t" using HashTableCreate_masks [OF assms(1) one] q by simp
  have "(2::int) ^ p dvd 2 ^ 5" using assms(4) by (rule le_imp_power_dvd)
  then have "(2::int) ^ p dvd 32" by simp
  then show ?thesis by (simp add: GetPartitionIndex_eq [OF m] GetBucketIndex_eq [OF m] mod_mod_cancel)
qed

theorem partition_is_bucket_mod_witness:
  "\<exists>t. HashTableCreate 4 1 1 240 1 15 160 = Some t \<and> GetPartitionIndex 6 t = GetBucketIndex 6 t mod 2 ^ 2"
proof -
  have s: "sint (4 :: i32) = 4" "sint (1 :: i32) = 1" by simp_all
  obtain t where "HashTableCreate 4 1 1 240 1 15 160 = Some t"
    using HashTableCreate_rep [of 4 2 1 1 240 160 15 1] s by (auto simp: block_fits_def)
  with partition_is_bucket_mod [OF this, of 2 6] s show ?thesis by simp
qed

text \<open>
  With a number of partitions that is not a power of two the partition index runs past the
  segment array: three partitions, key 3.
\<close>

lemma three_partitions_overflow:
  "\<exists>t. HashTableCreate 3 32 32 2 1 15 160 = Some t \<and> HashGetFreeEntry 3 [1, 2] t = None"
proof -
  have s: "sint (3 :: i32) = 3" by simp
  have "unat (3 - 1 :: i32) = 2" by simp
  moreover have "bits 2 = 2"
    using bits_least [of 2 2] bits_iff [of 1 2] by simp
  ultimately have b: "bits (unat (3 - 1 :: i32)) = 2" by simp
  then have "getShiftNum (getAlignNum 3) = 2" using getShiftNum_exp [of 2] by (simp add: getAlignNum_eq)
  then obtain t where t: "HashTableCreate 3 32 32 2 1 15 160 = Some t"
    using create_fits [of 3 32 2 15] by (auto simp: HashTableCreate_def Let_def HASH_BITS_def block_fits_def)
  have "masks_for 2 t" using HashTableCreate_masks [OF t] b s by simp
  then have "GetPartitionIndex 3 t = 3" by (simp add: GetPartitionIndex_eq)
  moreover have "length (segmentArray t) = 3"
    using t s by (auto simp: HashTableCreate_def InitHashTable_def Let_def split: if_splits)
  ultimately show ?thesis
    using t by (auto simp: HashGetFreeEntry_def HashLockPartition_def arr_get_def)
qed

end
