(* ===== verification/BufferPool.thy ===== *)
theory BufferPool
  imports Locks
begin

text \<open>
  The buffer pool of \<^verbatim>\<open>src/util/bufferPool/bufferPool.c\<close>: the descriptors, the free list
  that is threaded through an array of ids, pinning, and the clock sweep that chooses a
  victim. A buffer is named by its index, which is what the pointer differences
  \<open>GetBufferID\<close> and \<open>GetBufferDescID\<close> compute. The functions run on behalf of one worker
  whose lock table is that of \<^verbatim>\<open>Locks\<close>; the results of the lock calls are ignored where
  the code ignores them. An index outside an array has no result.
\<close>

section \<open>State\<close>

text \<open>
  The locks a worker can hold: the one of the pool, those of the descriptors, and those of
  the other components.
\<close>

datatype lockaddr = PoolLock | DescLock int | OtherLock nat

record BufferTag =
  databaseId :: i32
  tableId :: i32
  segno :: i32
  pageno :: i32
  forkNum :: i32

datatype BufferValidFlag = BVF_INVALID | BVF_VLID | BVF_TAG

record BufferDesc =
  bufferTag :: BufferTag
  isValid :: BufferValidFlag
  isDirty :: bool
  refCnt :: u32
  usedCnt :: int
  isInFreeList :: bool

record BufferPoolContext =
  bufferNum :: int
  freeList :: "int list"
  bufferDesc :: "BufferDesc list"
  clock_start :: int

definition USE_COUNT_MAX :: int where "USE_COUNT_MAX = 5"
definition BUFFER_MIN_NUM :: int where "BUFFER_MIN_NUM = 8"
definition Free_List_End :: int where "Free_List_End = -1"
definition INVLID_BUFFER :: int where "INVLID_BUFFER = -1"

definition CompareBufferTag :: "BufferTag \<Rightarrow> BufferTag \<Rightarrow> bool" where
  "CompareBufferTag a b \<longleftrightarrow> databaseId a = databaseId b \<and> tableId a = tableId b \<and> segno a = segno b \<and>
     pageno a = pageno b \<and> forkNum a = forkNum b"

type_synonym wlocks = "lockaddr lockst"

section \<open>Initialisation\<close>

text \<open>
  The pool memory is zeroed before the call; the loop writes the free list and the flags.
\<close>

definition zero_desc :: BufferDesc where
  "zero_desc = \<lparr>bufferTag = \<lparr>databaseId = 0, tableId = 0, segno = 0, pageno = 0, forkNum = 0\<rparr>,
     isValid = BVF_INVALID, isDirty = False, refCnt = 0, usedCnt = 0, isInFreeList = False\<rparr>"

definition InitBufferPool :: "int \<Rightarrow> int \<times> BufferPoolContext option" where
  "InitBufferPool pageNum =
     (if pageNum < BUFFER_MIN_NUM then (-1, None)
      else (0, Some \<lparr>bufferNum = pageNum,
                     freeList = (map (\<lambda>i. int i + 1) [0..<nat pageNum])[nat (pageNum - 1) := Free_List_End],
                     bufferDesc = replicate (nat pageNum) zero_desc,
                     clock_start = 0\<rparr>))"

section \<open>Descriptors\<close>

definition upd_desc :: "int \<Rightarrow> (BufferDesc \<Rightarrow> BufferDesc) \<Rightarrow> BufferPoolContext \<Rightarrow> BufferPoolContext option" where
  "upd_desc bid f bp = do {
     d \<leftarrow> arr_get (bufferDesc bp) bid;
     ds \<leftarrow> arr_set (bufferDesc bp) bid (f d);
     Some (bp\<lparr>bufferDesc := ds\<rparr>) }"

definition PinBuffer :: "int \<Rightarrow> BufferPoolContext \<Rightarrow> BufferPoolContext option" where
  "PinBuffer bid bp = do {
     bp \<leftarrow> upd_desc bid (\<lambda>d. d\<lparr>usedCnt := USE_COUNT_MAX\<rparr>) bp;
     upd_desc bid (\<lambda>d. d\<lparr>refCnt := refCnt d + 1\<rparr>) bp }"

definition unPinBuffer :: "int \<Rightarrow> BufferPoolContext \<Rightarrow> BufferPoolContext option" where
  "unPinBuffer bid bp = upd_desc bid (\<lambda>d. if refCnt d > 0 then d\<lparr>refCnt := refCnt d - 1\<rparr> else d) bp"

definition ReleaseBuffer :: "int \<Rightarrow> BufferPoolContext \<Rightarrow> BufferPoolContext option" where
  "ReleaseBuffer bid bp = unPinBuffer bid bp"

definition GetBufferTag :: "int \<Rightarrow> BufferPoolContext \<Rightarrow> BufferTag option" where
  "GetBufferTag bid bp = map_option bufferTag (arr_get (bufferDesc bp) bid)"

definition GetBufferDesc :: "int \<Rightarrow> BufferPoolContext \<Rightarrow> BufferDesc option" where
  "GetBufferDesc bid bp = arr_get (bufferDesc bp) bid"

definition SetBuffferDirty :: "int \<Rightarrow> BufferPoolContext \<Rightarrow> BufferPoolContext option" where
  "SetBuffferDirty bid bp = upd_desc bid (\<lambda>d. d\<lparr>isDirty := True\<rparr>) bp"

definition ClearBufferDirty :: "int \<Rightarrow> BufferPoolContext \<Rightarrow> BufferPoolContext option" where
  "ClearBufferDirty bid bp = upd_desc bid (\<lambda>d. d\<lparr>isDirty := False\<rparr>) bp"

definition SetBuffferValid :: "int \<Rightarrow> BufferValidFlag \<Rightarrow> BufferPoolContext \<Rightarrow> BufferPoolContext option" where
  "SetBuffferValid bid flag bp = upd_desc bid (\<lambda>d. d\<lparr>isValid := flag\<rparr>) bp"

section \<open>The free list\<close>

definition AcquireLock :: "lockaddr \<Rightarrow> RWLockMode \<Rightarrow> wlocks \<Rightarrow> wlocks option" where
  "AcquireLock l m s = map_option snd (AcquireRWLockLocal (Some l) m s)"

definition ReleaseLock :: "lockaddr \<Rightarrow> RWLockMode \<Rightarrow> wlocks \<Rightarrow> wlocks option" where
  "ReleaseLock l m s = map_option snd (ReleaseRWLockLocal (Some l) m s)"

definition InsertFreeList :: "int \<Rightarrow> BufferPoolContext \<Rightarrow> wlocks \<Rightarrow> (BufferPoolContext \<times> wlocks) option" where
  "InsertFreeList bid bp s = do {
     s \<leftarrow> AcquireLock PoolLock RWLock_WRITE s;
     bp \<leftarrow> (if bid > 0 then do {
              d \<leftarrow> arr_get (bufferDesc bp) bid;
              if \<not> isInFreeList d then do {
                first \<leftarrow> arr_get (freeList bp) 0;
                fl \<leftarrow> arr_set (freeList bp) bid first;
                fl \<leftarrow> arr_set fl 0 bid;
                upd_desc bid (\<lambda>d. d\<lparr>isInFreeList := True\<rparr>) (bp\<lparr>freeList := fl\<rparr>) }
              else Some bp }
            else Some bp);
     s \<leftarrow> ReleaseLock PoolLock RWLock_WRITE s;
     Some (bp, s) }"

definition InvalidateBuffer :: "int \<Rightarrow> BufferPoolContext \<Rightarrow> wlocks \<Rightarrow> (BufferPoolContext \<times> wlocks) option" where
  "InvalidateBuffer bid bp s = do {
     bp \<leftarrow> upd_desc bid (\<lambda>d. d\<lparr>isValid := BVF_INVALID\<rparr>) bp;
     InsertFreeList bid bp s }"

partial_function (option) free_loop :: "int \<Rightarrow> BufferPoolContext \<Rightarrow> (int \<times> BufferPoolContext) option" where
  "free_loop bid bp =
     (if bid \<noteq> Free_List_End then do {
        bid \<leftarrow> arr_get (freeList bp) 0;
        nxt \<leftarrow> arr_get (freeList bp) bid;
        fl \<leftarrow> arr_set (freeList bp) 0 nxt;
        bp \<leftarrow> upd_desc bid (\<lambda>d. d\<lparr>isInFreeList := False\<rparr>) (bp\<lparr>freeList := fl\<rparr>);
        d \<leftarrow> arr_get (bufferDesc bp) bid;
        if refCnt d = 0 then Some (bid, bp) else free_loop bid bp }
      else Some (bid, bp))"

definition GetFreeBufferId :: "BufferPoolContext \<Rightarrow> wlocks \<Rightarrow> (int \<times> BufferPoolContext \<times> wlocks) option" where
  "GetFreeBufferId bp s = do {
     s \<leftarrow> AcquireLock PoolLock RWLock_WRITE s;
     bid \<leftarrow> arr_get (freeList bp) 0;
     (bid, bp) \<leftarrow> free_loop bid bp;
     s \<leftarrow> ReleaseLock PoolLock RWLock_WRITE s;
     Some (bid, bp, s) }"

section \<open>The clock sweep\<close>

definition TryLockBufDesc :: "int \<Rightarrow> RWLockMode \<Rightarrow> wlocks \<Rightarrow> (int \<times> wlocks) option" where
  "TryLockBufDesc bid m s = TryAcquireRWLockLocal (Some (DescLock bid)) m s"

definition LockBufDesc :: "int \<Rightarrow> RWLockMode \<Rightarrow> wlocks \<Rightarrow> (int \<times> wlocks) option" where
  "LockBufDesc bid m s = AcquireRWLockLocal (Some (DescLock bid)) m s"

definition UnLockBufDesc :: "int \<Rightarrow> RWLockMode \<Rightarrow> wlocks \<Rightarrow> (int \<times> wlocks) option" where
  "UnLockBufDesc bid m s = ReleaseRWLockLocal (Some (DescLock bid)) m s"

text \<open>
  The \<open>for\<close> loop: it leaves with the descriptor locked for reading. \<open>None\<close> is also the
  value of a sweep that never finds a victim.
\<close>

partial_function (option) sweep_loop ::
    "int \<Rightarrow> BufferPoolContext \<Rightarrow> wlocks \<Rightarrow> (int \<times> BufferPoolContext \<times> wlocks) option" where
  "sweep_loop bid bp s = do {
     d \<leftarrow> arr_get (bufferDesc bp) bid;
     (ret, s) \<leftarrow> TryLockBufDesc bid RWLock_READ s;
     if ret \<le> 0 then sweep_loop ((bid + 1) mod bufferNum bp) bp s
     else if isValid d = BVF_INVALID then Some (bid, bp, s)
     else do {
       let d = d\<lparr>usedCnt := if usedCnt d > 0 then usedCnt d - 1 else 0\<rparr>;
       ds \<leftarrow> arr_set (bufferDesc bp) bid d;
       let bp = bp\<lparr>bufferDesc := ds\<rparr>;
       if refCnt d = 0 \<and> usedCnt d = 0 then Some (bid, bp, s)
       else do {
         (_, s) \<leftarrow> UnLockBufDesc bid RWLock_READ s;
         sweep_loop ((bid + 1) mod bufferNum bp) bp s } } }"

partial_function (option) sweep_retry ::
    "int \<Rightarrow> BufferPoolContext \<Rightarrow> wlocks \<Rightarrow> (int \<times> BufferPoolContext \<times> wlocks) option" where
  "sweep_retry bid bp s = do {
     (bid, bp, s) \<leftarrow> sweep_loop bid bp s;
     (_, s) \<leftarrow> UnLockBufDesc bid RWLock_READ s;
     (_, s) \<leftarrow> LockBufDesc bid RWLock_WRITE s;
     d \<leftarrow> arr_get (bufferDesc bp) bid;
     if isValid d = BVF_INVALID \<or> (refCnt d = 0 \<and> usedCnt d = 0)
     then Some (bid, bp\<lparr>clock_start := (bid + 1) mod bufferNum bp\<rparr>, s)
     else do {
       (_, s) \<leftarrow> UnLockBufDesc bid RWLock_WRITE s;
       sweep_retry bid bp s } }"

definition ClockSweep :: "BufferPoolContext \<Rightarrow> wlocks \<Rightarrow> (int \<times> BufferPoolContext \<times> wlocks) option" where
  "ClockSweep bp s = sweep_retry (clock_start bp) bp s"

section \<open>Locking around an operation\<close>

lemma pool_locked:
  assumes "lockst_wf s" and "ls_used s < MAX_LOCAL_LOCK_NUM" and "lock_free PoolLock s"
  obtains s1 s2 where "AcquireLock PoolLock RWLock_WRITE s = Some s1"
    "ReleaseLock PoolLock RWLock_WRITE s1 = Some s2" "locks_eq s s2"
proof -
  obtain s1 where s1: "AcquireRWLockLocal (Some PoolLock) RWLock_WRITE s = Some (0, s1)" "lockst_wf s1"
    "enters PoolLock RWLock_WRITE s s1"
    using AcquireRWLockLocal_free [OF assms, of RWLock_WRITE] by blast
  obtain s2 where "ReleaseRWLockLocal (Some PoolLock) RWLock_WRITE s1 = Some (0, s2)" "locks_eq s s2"
    using enters_released [OF assms(1) s1(2,3), of RWLock_WRITE] .
  with s1 that show ?thesis by (simp add: AcquireLock_def ReleaseLock_def)
qed

section \<open>The free list as a sequence\<close>

text \<open>\<open>flist fl i ids\<close>: following the array from \<open>i\<close> visits \<open>ids\<close> and ends.\<close>

fun flist :: "int list \<Rightarrow> int \<Rightarrow> int list \<Rightarrow> bool" where
  "flist fl i [] \<longleftrightarrow> i = Free_List_End"
| "flist fl i (x # xs) \<longleftrightarrow> i = x \<and> 0 < x \<and> x < int (length fl) \<and> flist fl (fl ! nat x) xs"

definition pool_wf :: "BufferPoolContext \<Rightarrow> bool" where
  "pool_wf bp \<longleftrightarrow> 0 < bufferNum bp \<and> length (bufferDesc bp) = nat (bufferNum bp) \<and>
     length (freeList bp) = nat (bufferNum bp) \<and> 0 \<le> clock_start bp \<and> clock_start bp < bufferNum bp \<and>
     (\<forall>d\<in>set (bufferDesc bp). 0 \<le> usedCnt d \<and> usedCnt d \<le> USE_COUNT_MAX)"

definition pool_free :: "BufferPoolContext \<Rightarrow> int list \<Rightarrow> bool" where
  "pool_free bp ids \<longleftrightarrow> pool_wf bp \<and> flist (freeList bp) (freeList bp ! 0) ids \<and> distinct ids"

lemma flist_head_update: "flist (fl[0 := v]) i ids = flist fl i ids"
proof (induction ids arbitrary: i)
  case (Cons x xs)
  have "0 < x \<Longrightarrow> fl[0 := v] ! nat x = fl ! nat x" by (simp add: nth_list_update_neq)
  then show ?case using Cons.IH by (simp cong: conj_cong)
qed simp

lemma flist_mem: "flist fl i ids \<Longrightarrow> x \<in> set ids \<Longrightarrow> 0 < x \<and> x < int (length fl)"
  by (induction ids arbitrary: i) auto

lemma flist_update: "flist fl i ids \<Longrightarrow> x \<notin> set ids \<Longrightarrow> flist (fl[nat x := v]) i ids"
proof (induction ids arbitrary: i)
  case (Cons y ys)
  then have "nat y \<noteq> nat x" by auto
  then show ?case using Cons by auto
qed simp

definition pinned :: "BufferPoolContext \<Rightarrow> int \<Rightarrow> bool" where
  "pinned bp x \<longleftrightarrow> refCnt (bufferDesc bp ! nat x) \<noteq> 0"

text \<open>One turn of the loop takes the head off the list.\<close>

definition take_free :: "int \<Rightarrow> int \<Rightarrow> BufferPoolContext \<Rightarrow> BufferPoolContext" where
  "take_free x nxt bp = bp\<lparr>freeList := (freeList bp)[0 := nxt],
     bufferDesc := (bufferDesc bp)[nat x := (bufferDesc bp ! nat x)\<lparr>isInFreeList := False\<rparr>]\<rparr>"

lemma take_free_pool:
  assumes "pool_free bp (x # ids)"
  shows "pool_free (take_free x (freeList bp ! nat x) bp) ids" "0 < x" "x < bufferNum bp"
    "pinned (take_free x (freeList bp ! nat x) bp) y = pinned bp y"
proof -
  from assms have wf: "pool_wf bp" and fl: "freeList bp ! 0 = x" "0 < x" "x < int (length (freeList bp))"
    "flist (freeList bp) (freeList bp ! nat x) ids" "x \<notin> set ids" "distinct ids"
    by (auto simp: pool_free_def)
  then show "0 < x" "x < bufferNum bp" by (auto simp: pool_wf_def)
  have xd: "nat x < length (bufferDesc bp)" using wf fl by (auto simp: pool_wf_def)
  then show "pinned (take_free x (freeList bp ! nat x) bp) y = pinned bp y"
    by (simp add: pinned_def take_free_def nth_list_update)
  have "set ((bufferDesc bp)[nat x := (bufferDesc bp ! nat x)\<lparr>isInFreeList := False\<rparr>]) \<subseteq>
    insert ((bufferDesc bp ! nat x)\<lparr>isInFreeList := False\<rparr>) (set (bufferDesc bp))"
    by (rule set_update_subset_insert)
  then have "\<forall>d\<in>set ((bufferDesc bp)[nat x := (bufferDesc bp ! nat x)\<lparr>isInFreeList := False\<rparr>]).
      0 \<le> usedCnt d \<and> usedCnt d \<le> USE_COUNT_MAX"
    using wf xd nth_mem [OF xd] by (force simp: pool_wf_def)
  then have "pool_wf (take_free x (freeList bp ! nat x) bp)"
    using wf by (simp add: pool_wf_def take_free_def)
  moreover have "0 < length (freeList bp)" using fl by linarith
  ultimately show "pool_free (take_free x (freeList bp ! nat x) bp) ids"
    using fl by (simp add: pool_free_def take_free_def flist_head_update)
qed

lemma free_loop_Cons:
  assumes "pool_free bp (x # ids)" and "i \<noteq> Free_List_End"
  shows "free_loop i bp = (let bp' = take_free x (freeList bp ! nat x) bp in
    if pinned bp x then free_loop x bp' else Some (x, bp'))"
proof -
  have fl: "freeList bp ! 0 = x" "0 < x" "x < int (length (freeList bp))"
    and ld: "nat x < length (bufferDesc bp)" "x < int (length (bufferDesc bp))"
    using assms(1) by (auto simp: pool_free_def pool_wf_def)
  have "0 < length (freeList bp)" using fl by linarith
  then have "arr_get (freeList bp) 0 = Some x" "arr_get (freeList bp) x = Some (freeList bp ! nat x)"
    "arr_set (freeList bp) 0 v = Some ((freeList bp)[0 := v])" for v
    using fl by (simp_all add: arr_get_def arr_set_def)
  moreover have "upd_desc x (\<lambda>d. d\<lparr>isInFreeList := False\<rparr>) (bp\<lparr>freeList := (freeList bp)[0 := v]\<rparr>) =
    Some (take_free x v bp)" for v
    using fl(2) ld by (simp add: upd_desc_def arr_get_def arr_set_def take_free_def)
  moreover have "arr_get (bufferDesc (take_free x v bp)) x = Some ((bufferDesc bp ! nat x)\<lparr>isInFreeList := False\<rparr>)" for v
    using fl(2) ld by (simp add: arr_get_def take_free_def)
  ultimately show ?thesis
    using assms(2) by (subst free_loop.simps) (simp add: pinned_def Let_def)
qed

lemma free_loop_spec:
  assumes "pool_free bp ids" and "x \<in> set ids" and "\<not> pinned bp x" and "i \<noteq> Free_List_End"
  shows "\<exists>bp' y ys. dropWhile (pinned bp) ids = y # ys \<and> free_loop i bp = Some (y, bp') \<and> pool_free bp' ys \<and>
    (\<forall>z. pinned bp' z = pinned bp z)"
  using assms
proof (induction ids arbitrary: bp i)
  case (Cons y ys)
  let ?bp = "take_free y (freeList bp ! nat y) bp"
  note tk = take_free_pool [OF Cons.prems(1)]
  show ?case
  proof (cases "pinned bp y")
    case True
    have "x \<in> set ys" using True Cons.prems by auto
    moreover have "y \<noteq> Free_List_End" using tk(2) by (simp add: Free_List_End_def)
    ultimately obtain bp' z zs where "dropWhile (pinned ?bp) ys = z # zs" "free_loop y ?bp = Some (z, bp')"
      "pool_free bp' zs" "\<forall>z. pinned bp' z = pinned ?bp z"
      using Cons.IH [OF tk(1), of y] Cons.prems(3) tk(4) by metis
    moreover have "pinned ?bp = pinned bp" using tk(4) by (simp add: fun_eq_iff)
    ultimately show ?thesis using True free_loop_Cons [OF Cons.prems(1,4)] by (auto simp: Let_def)
  next
    case False
    then show ?thesis using free_loop_Cons [OF Cons.prems(1,4)] tk by (auto simp: Let_def)
  qed
qed simp

lemma free_loop_all_pinned:
  assumes "pool_free bp ids" and "\<forall>x\<in>set ids. pinned bp x" and "i \<noteq> Free_List_End"
  shows "free_loop i bp = None"
  using assms
proof (induction ids arbitrary: bp i)
  case Nil
  then have "0 < length (freeList bp)" "freeList bp ! 0 = Free_List_End" by (auto simp: pool_free_def pool_wf_def)
  then show ?case using Nil.prems(3)
    by (subst free_loop.simps) (simp add: arr_get_def Free_List_End_def)
next
  case (Cons y ys)
  let ?bp = "take_free y (freeList bp ! nat y) bp"
  note tk = take_free_pool [OF Cons.prems(1)]
  have "free_loop y ?bp = None"
    using Cons.prems(2) tk by (intro Cons.IH) (auto simp: Free_List_End_def)
  then show ?case using free_loop_Cons [OF Cons.prems(1,3)] Cons.prems(2) by (simp add: Let_def)
qed

section \<open>The sweep finds a victim\<close>

abbreviation desc_of :: "BufferPoolContext \<Rightarrow> int \<Rightarrow> BufferDesc" where
  "desc_of bp i \<equiv> bufferDesc bp ! nat i"

definition victim :: "BufferPoolContext \<Rightarrow> int \<Rightarrow> bool" where
  "victim bp i \<longleftrightarrow> isValid (desc_of bp i) = BVF_INVALID \<or> (refCnt (desc_of bp i) = 0 \<and> usedCnt (desc_of bp i) = 0)"

definition evictable :: "BufferPoolContext \<Rightarrow> int \<Rightarrow> bool" where
  "evictable bp i \<longleftrightarrow> 0 \<le> i \<and> i < bufferNum bp \<and>
     (isValid (desc_of bp i) = BVF_INVALID \<or> refCnt (desc_of bp i) = 0)"

definition dec_used :: "int \<Rightarrow> BufferPoolContext \<Rightarrow> BufferPoolContext" where
  "dec_used i bp = bp\<lparr>bufferDesc := (bufferDesc bp)[nat i := (desc_of bp i)
     \<lparr>usedCnt := if usedCnt (desc_of bp i) > 0 then usedCnt (desc_of bp i) - 1 else 0\<rparr>]\<rparr>"

text \<open>The sweep changes use counts only, and only downwards.\<close>

definition swept :: "BufferPoolContext \<Rightarrow> BufferPoolContext \<Rightarrow> bool" where
  "swept bp bp' \<longleftrightarrow> bufferNum bp' = bufferNum bp \<and> freeList bp' = freeList bp \<and> clock_start bp' = clock_start bp \<and>
     length (bufferDesc bp') = length (bufferDesc bp) \<and>
     (\<forall>i<length (bufferDesc bp). (bufferDesc bp' ! i)\<lparr>usedCnt := 0\<rparr> = (bufferDesc bp ! i)\<lparr>usedCnt := 0\<rparr> \<and>
        usedCnt (bufferDesc bp' ! i) \<le> usedCnt (bufferDesc bp ! i))"

lemma swept_refl: "swept bp bp"
  by (simp add: swept_def)

lemma swept_trans: "swept bp bp1 \<Longrightarrow> swept bp1 bp2 \<Longrightarrow> swept bp bp2"
  by (auto simp: swept_def intro: order_trans)

lemma dec_used_facts:
  assumes wf: "pool_wf bp" and i: "0 \<le> i" "i < bufferNum bp"
  shows "pool_wf (dec_used i bp)" "swept bp (dec_used i bp)" "bufferNum (dec_used i bp) = bufferNum bp"
    "desc_of (dec_used i bp) i = (desc_of bp i)\<lparr>usedCnt := max 0 (usedCnt (desc_of bp i) - 1)\<rparr>"
    "\<And>j. 0 \<le> j \<Longrightarrow> j \<noteq> i \<Longrightarrow> desc_of (dec_used i bp) j = desc_of bp j"
proof -
  have il: "nat i < length (bufferDesc bp)" using wf i by (simp add: pool_wf_def)
  have u: "0 \<le> usedCnt (desc_of bp i)" "usedCnt (desc_of bp i) \<le> USE_COUNT_MAX"
    using wf nth_mem [OF il] by (auto simp: pool_wf_def)
  show "bufferNum (dec_used i bp) = bufferNum bp" by (simp add: dec_used_def)
  show "desc_of (dec_used i bp) i = (desc_of bp i)\<lparr>usedCnt := max 0 (usedCnt (desc_of bp i) - 1)\<rparr>"
    using il by (simp add: dec_used_def max_def)
  show "desc_of (dec_used i bp) j = desc_of bp j" if "0 \<le> j" "j \<noteq> i" for j
    using that i by (simp add: dec_used_def nth_list_update_neq)
  let ?d = "(desc_of bp i)\<lparr>usedCnt := if usedCnt (desc_of bp i) > 0 then usedCnt (desc_of bp i) - 1 else 0\<rparr>"
  have "\<forall>d\<in>set ((bufferDesc bp)[nat i := ?d]). 0 \<le> usedCnt d \<and> usedCnt d \<le> USE_COUNT_MAX"
    using wf u set_update_subset_insert [of "bufferDesc bp" "nat i" ?d]
    by (auto simp: pool_wf_def USE_COUNT_MAX_def)
  then show "pool_wf (dec_used i bp)" using wf by (simp add: pool_wf_def dec_used_def)
  show "swept bp (dec_used i bp)"
    using u il by (auto simp: swept_def dec_used_def nth_list_update)
qed

definition descs_free :: "BufferPoolContext \<Rightarrow> wlocks \<Rightarrow> bool" where
  "descs_free bp s \<longleftrightarrow> lockst_wf s \<and> ls_used s < MAX_LOCAL_LOCK_NUM \<and>
     (\<forall>i. 0 \<le> i \<longrightarrow> i < bufferNum bp \<longrightarrow> lock_free (DescLock i) s)"

lemma descs_free_eq:
  "descs_free bp s \<Longrightarrow> locks_eq s s' \<Longrightarrow> bufferNum bp' = bufferNum bp \<Longrightarrow> descs_free bp' s'"
  using locks_eq_used [of s s'] lock_free_eq [of s s'] by (simp add: descs_free_def locks_eq_def)

text \<open>One turn of the loop.\<close>

lemma sweep_turn:
  assumes wf: "pool_wf bp" and s: "descs_free bp s" and i: "0 \<le> i" "i < bufferNum bp"
  shows "(\<exists>bp' s1. sweep_loop i bp s = Some (i, bp', s1) \<and> victim bp' i \<and> swept bp bp' \<and> pool_wf bp' \<and>
           lockst_wf s1 \<and> enters (DescLock i) RWLock_READ s s1) \<or>
         (\<exists>s2. sweep_loop i bp s = sweep_loop ((i + 1) mod bufferNum bp) (dec_used i bp) s2 \<and> locks_eq s s2 \<and>
           isValid (desc_of bp i) \<noteq> BVF_INVALID \<and> \<not> victim (dec_used i bp) i)"
proof -
  have il: "nat i < length (bufferDesc bp)" using wf i by (simp add: pool_wf_def)
  have get: "arr_get (bufferDesc bp) i = Some (desc_of bp i)" using il i by (simp add: arr_get_def)
  have set: "arr_set (bufferDesc bp) i v = Some ((bufferDesc bp)[nat i := v])" for v using il i by (simp add: arr_set_def)
  have fr: "lockst_wf s" "ls_used s < MAX_LOCAL_LOCK_NUM" "lock_free (DescLock i) s"
    using s i by (simp_all add: descs_free_def)
  obtain s1 where s1: "TryAcquireRWLockLocal (Some (DescLock i)) RWLock_READ s = Some (1, s1)" "lockst_wf s1"
    "enters (DescLock i) RWLock_READ s s1"
    using TryAcquireRWLockLocal_free [OF fr, of RWLock_READ] by blast
  obtain s2 where s2: "ReleaseRWLockLocal (Some (DescLock i)) RWLock_READ s1 = Some (0, s2)" "locks_eq s s2"
    using enters_released [OF fr(1) s1(2,3), of RWLock_READ] .
  note df = dec_used_facts [OF wf i]
  show ?thesis
  proof (cases "isValid (desc_of bp i) = BVF_INVALID")
    case True
    then have "sweep_loop i bp s = Some (i, bp, s1)"
      using get s1 by (subst sweep_loop.simps) (simp add: TryLockBufDesc_def)
    then show ?thesis using True s1 wf swept_refl by (auto simp: victim_def)
  next
    case False
    let ?d = "(desc_of bp i)\<lparr>usedCnt := if usedCnt (desc_of bp i) > 0 then usedCnt (desc_of bp i) - 1 else 0\<rparr>"
    have body: "sweep_loop i bp s = (if refCnt ?d = 0 \<and> usedCnt ?d = 0 then Some (i, dec_used i bp, s1)
      else sweep_loop ((i + 1) mod bufferNum bp) (dec_used i bp) s2)"
      using False get set s1 s2 by (subst sweep_loop.simps) (simp add: TryLockBufDesc_def UnLockBufDesc_def dec_used_def Let_def)
    have d: "desc_of (dec_used i bp) i = ?d" using il by (simp add: dec_used_def)
    show ?thesis
    proof (cases "refCnt ?d = 0 \<and> usedCnt ?d = 0")
      case True
      then have "sweep_loop i bp s = Some (i, dec_used i bp, s1)" "victim (dec_used i bp) i"
        using body d by (simp_all add: victim_def)
      then show ?thesis using df(1,2) s1 by blast
    next
      case nv: False
      then have "sweep_loop i bp s = sweep_loop ((i + 1) mod bufferNum bp) (dec_used i bp) s2"
        using body by argo
      moreover have "\<not> victim (dec_used i bp) i" using nv False d by (auto simp: victim_def)
      ultimately show ?thesis using s2 False by blast
    qed
  qed
qed

lemma clock_dist:
  fixes n i t :: int
  assumes "0 \<le> i" "i < n" "0 \<le> t" "t < n"
  shows "i \<noteq> t \<Longrightarrow> (t - (i + 1) mod n) mod n = (t - i) mod n - 1 \<and> 1 \<le> (t - i) mod n"
    and "(t - (t + 1) mod n) mod n = n - 1"
proof -
  assume "i \<noteq> t"
  have r: "1 \<le> (t - i) mod n" "(t - i) mod n < n"
  proof -
    have "(t - i) mod n \<noteq> 0"
    proof
      assume "(t - i) mod n = 0"
      then have "n dvd t - i" by auto
      moreover have "\<bar>t - i\<bar> < n" using assms by linarith
      ultimately have "t - i = 0" using zdvd_not_zless [of "\<bar>t - i\<bar>" n] by fastforce
      then show False using \<open>i \<noteq> t\<close> by simp
    qed
    moreover have "0 \<le> (t - i) mod n" "(t - i) mod n < n" using assms by simp_all
    ultimately show "1 \<le> (t - i) mod n" "(t - i) mod n < n" by linarith+
  qed
  have "(t - (i + 1) mod n) mod n = ((t - i) mod n - 1) mod n"
    by (simp add: mod_diff_left_eq mod_diff_right_eq diff_diff_eq)
  also have "\<dots> = (t - i) mod n - 1" using r by (intro mod_pos_pos_trivial) auto
  finally show "(t - (i + 1) mod n) mod n = (t - i) mod n - 1 \<and> 1 \<le> (t - i) mod n" using r by simp
next
  have "(t - (t + 1) mod n) mod n = (-1) mod n" by (simp add: mod_diff_right_eq)
  then show "(t - (t + 1) mod n) mod n = n - 1" using assms by (simp add: zmod_minus1)
qed

lemma sweep_finds:
  assumes "pool_wf bp" and "descs_free bp s" and "0 \<le> i" "i < bufferNum bp" and "evictable bp t"
  shows "\<exists>v bp' s0 s1. sweep_loop i bp s = Some (v, bp', s1) \<and> 0 \<le> v \<and> v < bufferNum bp \<and> victim bp' v \<and>
    swept bp bp' \<and> pool_wf bp' \<and> locks_eq s s0 \<and> lockst_wf s1 \<and> enters (DescLock v) RWLock_READ s0 s1"
  using assms
proof (induction "nat (usedCnt (desc_of bp t)) * nat (bufferNum bp) + nat ((t - i) mod bufferNum bp)"
    arbitrary: bp s i rule: less_induct)
  case less
  let ?n = "bufferNum bp" and ?bp = "dec_used i bp" and ?j = "(i + 1) mod bufferNum bp"
  note df = dec_used_facts [OF less.prems(1,3,4)]
  have t: "0 \<le> t" "t < ?n" using less.prems(5) by (simp_all add: evictable_def)
  have lwf: "lockst_wf s" using less.prems(2) by (simp add: descs_free_def)
  from sweep_turn [OF less.prems(1-4)] show ?case
  proof (elim disjE exE conjE)
    fix bp' s1
    assume "sweep_loop i bp s = Some (i, bp', s1)" "victim bp' i" "swept bp bp'" "pool_wf bp'"
      "lockst_wf s1" "enters (DescLock i) RWLock_READ s s1"
    then show ?case using locks_eq_refl [OF lwf] less.prems(3,4) by blast
  next
    fix s2
    assume go: "sweep_loop i bp s = sweep_loop ?j ?bp s2" and eq: "locks_eq s s2"
      and val: "isValid (desc_of bp i) \<noteq> BVF_INVALID" and nv: "\<not> victim ?bp i"
    have j: "0 \<le> ?j" "?j < bufferNum ?bp" using less.prems(3,4) df(3) by simp_all
    have ev: "evictable ?bp t"
      using less.prems(5) df(3-5) t by (cases "t = i") (auto simp: evictable_def)
    have dec: "nat (usedCnt (desc_of ?bp t)) * nat (bufferNum ?bp) + nat ((t - ?j) mod bufferNum ?bp) <
      nat (usedCnt (desc_of bp t)) * nat ?n + nat ((t - i) mod ?n)"
    proof (cases "t = i")
      case True
      have "refCnt (desc_of bp t) = 0" using less.prems(5) val True by (simp add: evictable_def)
      then have "usedCnt (desc_of ?bp t) \<noteq> 0" using nv True df(4) by (auto simp: victim_def)
      then have u: "usedCnt (desc_of ?bp t) = usedCnt (desc_of bp t) - 1" "1 < usedCnt (desc_of bp t)"
        using True df(4) by auto
      then have "nat (usedCnt (desc_of bp t)) = Suc (nat (usedCnt (desc_of ?bp t)))" by simp
      moreover have "(t - ?j) mod ?n = ?n - 1" using clock_dist(2) [OF less.prems(3,4) t] True by simp
      ultimately show ?thesis using df(3) t by simp
    next
      case False
      then have "(t - ?j) mod ?n = (t - i) mod ?n - 1" "1 \<le> (t - i) mod ?n"
        using clock_dist(1) [OF less.prems(3,4) t] by auto
      moreover have "desc_of ?bp t = desc_of bp t" using df(5) t False by simp
      ultimately show ?thesis using df(3) by simp
    qed
    from less.hyps [OF dec df(1) descs_free_eq [OF less.prems(2) eq df(3)] j ev]
    obtain v bp' s0 s1 where r: "sweep_loop ?j ?bp s2 = Some (v, bp', s1)" "0 \<le> v" "v < ?n" "victim bp' v"
      "swept ?bp bp'" "pool_wf bp'" "locks_eq s2 s0" "lockst_wf s1" "enters (DescLock v) RWLock_READ s0 s1"
      using df(3) by auto
    then show ?case using go swept_trans [OF df(2) r(5)] locks_eq_trans [OF eq r(7)] by auto
  qed
qed

lemma ClockSweep_victim:
  assumes wf: "pool_wf bp" and s: "descs_free bp s" and t: "evictable bp t"
  shows "\<exists>v bp' s0 s'. ClockSweep bp s = Some (v, bp', s') \<and> 0 \<le> v \<and> v < bufferNum bp \<and> victim bp' v \<and>
    pool_wf bp' \<and> swept bp (bp'\<lparr>clock_start := clock_start bp\<rparr>) \<and> clock_start bp' = (v + 1) mod bufferNum bp \<and>
    locks_eq s s0 \<and> lockst_wf s' \<and> enters (DescLock v) RWLock_WRITE s0 s'"
proof -
  have i: "0 \<le> clock_start bp" "clock_start bp < bufferNum bp" using wf by (simp_all add: pool_wf_def)
  from sweep_finds [OF wf s i t] obtain v bp' s0 s1 where
    r: "sweep_loop (clock_start bp) bp s = Some (v, bp', s1)" "0 \<le> v" "v < bufferNum bp" "victim bp' v"
    "swept bp bp'" "pool_wf bp'" "locks_eq s s0" "lockst_wf s1" "enters (DescLock v) RWLock_READ s0 s1" by blast
  have wf0: "lockst_wf s0" using r(7) by (simp add: locks_eq_def)
  obtain s2 where s2: "ReleaseRWLockLocal (Some (DescLock v)) RWLock_READ s1 = Some (0, s2)" "locks_eq s0 s2"
    using enters_released [OF wf0 r(8,9), of RWLock_READ] .
  have ss2: "locks_eq s s2" using locks_eq_trans [OF r(7) s2(2)] .
  then have "descs_free bp s2" using descs_free_eq [OF s] by blast
  then have f2: "lockst_wf s2" "ls_used s2 < MAX_LOCAL_LOCK_NUM" "lock_free (DescLock v) s2"
    using r(2,3) by (simp_all add: descs_free_def)
  obtain s' where s': "AcquireRWLockLocal (Some (DescLock v)) RWLock_WRITE s2 = Some (0, s')" "lockst_wf s'"
    "enters (DescLock v) RWLock_WRITE s2 s'"
    using AcquireRWLockLocal_free [OF f2, of RWLock_WRITE] by blast
  have n: "bufferNum bp' = bufferNum bp" "clock_start bp' = clock_start bp" using r(5) by (simp_all add: swept_def)
  have vl: "nat v < length (bufferDesc bp')" using r(2,3,6) n by (simp add: pool_wf_def)
  have get: "arr_get (bufferDesc bp') v = Some (desc_of bp' v)" using vl r(2) by (simp add: arr_get_def)
  let ?bp = "bp'\<lparr>clock_start := (v + 1) mod bufferNum bp\<rparr>"
  have "ClockSweep bp s = Some (v, ?bp, s')"
    unfolding ClockSweep_def using r(1) s2(1) s'(1) get r(4) n
    by (subst sweep_retry.simps) (simp add: UnLockBufDesc_def LockBufDesc_def victim_def)
  moreover have "victim ?bp v" using r(4) by (simp add: victim_def)
  moreover have "pool_wf ?bp" using r(6) n r(2,3) by (simp add: pool_wf_def)
  moreover have "swept bp (?bp\<lparr>clock_start := clock_start bp\<rparr>)" using r(5) n by (simp add: swept_def)
  ultimately show ?thesis using ss2 s' r(2,3) by (intro exI [of _ v] exI [of _ ?bp] exI [of _ s2] exI [of _ s']) simp
qed

section \<open>A new pool, and pinning\<close>

lemma flist_upto:
  assumes "length fl = n" and "\<And>k. k < n - 1 \<Longrightarrow> fl ! k = int k + 1" and "fl ! (n - 1) = Free_List_End"
  shows "0 < k \<Longrightarrow> k < n \<Longrightarrow> flist fl (int k) (map int [k..<n])"
proof (induction "n - k" arbitrary: k)
  case (Suc d)
  show ?case
  proof (cases "Suc k < n")
    case True
    then have "flist fl (int (Suc k)) (map int [Suc k..<n])" using Suc by (intro Suc.hyps(1)) auto
    then show ?thesis using Suc.prems True assms(1) assms(2) [of k] by (simp add: upt_conv_Cons add.commute)
  next
    case False
    then have n: "n = Suc k" using Suc.prems by simp
    then have "fl ! k = Free_List_End" using assms(3) by simp
    then show ?thesis using assms(1) Suc.prems n by simp
  qed
qed simp

lemma InitBufferPool_free:
  assumes "BUFFER_MIN_NUM \<le> n"
  shows "\<exists>bp. InitBufferPool n = (0, Some bp) \<and> pool_free bp (map int [1..<nat n]) \<and> bufferNum bp = n \<and>
    (\<forall>i. 0 \<le> i \<longrightarrow> i < n \<longrightarrow> desc_of bp i = zero_desc)"
proof -
  let ?fl = "(map (\<lambda>i. int i + 1) [0..<nat n])[nat (n - 1) := Free_List_End]"
  let ?bp = "\<lparr>bufferNum = n, freeList = ?fl, bufferDesc = replicate (nat n) zero_desc, clock_start = 0\<rparr>"
  have n: "8 \<le> n" "nat (n - 1) = nat n - 1" using assms by (simp_all add: BUFFER_MIN_NUM_def nat_diff_distrib)
  have "flist ?fl (int 1) (map int [1..<nat n])"
    using n by (intro flist_upto) (auto simp: nth_list_update)
  moreover have "?fl ! 0 = 1" using n by simp
  moreover have "pool_wf ?bp" using n by (simp add: pool_wf_def zero_desc_def USE_COUNT_MAX_def)
  ultimately have "pool_free ?bp (map int [1..<nat n])" by (simp add: pool_free_def distinct_map)
  moreover have "InitBufferPool n = (0, Some ?bp)" using assms by (simp add: InitBufferPool_def)
  ultimately show ?thesis by simp
qed

lemma GetFreeBufferId_locked:
  assumes "lockst_wf s" and "ls_used s < MAX_LOCAL_LOCK_NUM" and "lock_free PoolLock s" and "pool_wf bp"
  obtains s' where "locks_eq s s'"
    "GetFreeBufferId bp s = do { (v, bp') \<leftarrow> free_loop (freeList bp ! 0) bp; Some (v, bp', s') }"
proof -
  obtain s1 s2 where "AcquireLock PoolLock RWLock_WRITE s = Some s1"
    "ReleaseLock PoolLock RWLock_WRITE s1 = Some s2" "locks_eq s s2"
    using pool_locked [OF assms(1-3)] .
  moreover have "arr_get (freeList bp) 0 = Some (freeList bp ! 0)"
    using assms(4) by (simp add: pool_wf_def arr_get_def)
  ultimately show ?thesis
    by (intro that [of s2]) (simp_all add: GetFreeBufferId_def)
qed

lemma upd_desc_eq:
  "0 \<le> i \<Longrightarrow> nat i < length (bufferDesc bp) \<Longrightarrow>
   upd_desc i f bp = Some (bp\<lparr>bufferDesc := (bufferDesc bp)[nat i := f (desc_of bp i)]\<rparr>)"
  by (simp add: upd_desc_def arr_get_def arr_set_def)

lemma InsertFreeList_free:
  assumes "lockst_wf s" and "ls_used s < MAX_LOCAL_LOCK_NUM" and "lock_free PoolLock s"
    and p: "pool_free bp ids" and x: "0 < x" "x < bufferNum bp" "x \<notin> set ids" "\<not> isInFreeList (desc_of bp x)"
  shows "\<exists>bp' s'. InsertFreeList x bp s = Some (bp', s') \<and> locks_eq s s' \<and> pool_free bp' (x # ids)"
proof -
  obtain s1 s2 where l: "AcquireLock PoolLock RWLock_WRITE s = Some s1"
    "ReleaseLock PoolLock RWLock_WRITE s1 = Some s2" "locks_eq s s2"
    using pool_locked [OF assms(1-3)] .
  have wf: "pool_wf bp" and fl: "flist (freeList bp) (freeList bp ! 0) ids" "distinct ids"
    using p by (auto simp: pool_free_def)
  have len: "nat x < length (bufferDesc bp)" "nat x < length (freeList bp)" "0 < length (freeList bp)"
    "x < int (length (bufferDesc bp))" "x < int (length (freeList bp))"
    using wf x by (auto simp: pool_wf_def)
  let ?fl = "(freeList bp)[nat x := freeList bp ! 0, 0 := x]"
  let ?d = "(desc_of bp x)\<lparr>isInFreeList := True\<rparr>"
  let ?bp = "bp\<lparr>freeList := ?fl, bufferDesc := (bufferDesc bp)[nat x := ?d]\<rparr>"
  have "InsertFreeList x bp s = Some (?bp, s2)"
    using l x len by (simp add: InsertFreeList_def arr_get_def arr_set_def upd_desc_def)
  moreover have "flist ?fl x (x # ids)"
    using x len flist_update [OF fl(1) x(3)] by (simp add: flist_head_update)
  moreover have "pool_wf ?bp"
    using wf set_update_subset_insert [of "bufferDesc bp" "nat x" ?d] nth_mem [OF len(1)]
    by (fastforce simp: pool_wf_def)
  ultimately show ?thesis using l(3) fl(2) x len by (auto simp: pool_free_def simp del: flist.simps)
qed

section \<open>Properties\<close>

text \<open>C11: the clock sweep terminates with a victim. When no descriptor is locked and some
  buffer is unpinned or invalid, \<^verbatim>\<open>ClockSweep\<close> returns; the buffer it returns is invalid or
  unpinned with use count 0, the worker holds its lock for writing and no other new lock, the
  clock hand stands behind it, and of the descriptors only use counts have gone down.\<close>

theorem clock_sweep_returns_victim:
  assumes "pool_wf bp" and "descs_free bp s" and "evictable bp t"
  shows "\<exists>v bp' s0 s'. ClockSweep bp s = Some (v, bp', s') \<and> 0 \<le> v \<and> v < bufferNum bp \<and> victim bp' v \<and>
    pool_wf bp' \<and> swept bp (bp'\<lparr>clock_start := clock_start bp\<rparr>) \<and> clock_start bp' = (v + 1) mod bufferNum bp \<and>
    locks_eq s s0 \<and> lockst_wf s' \<and> enters (DescLock v) RWLock_WRITE s0 s'"
  by (rule ClockSweep_victim [OF assms])

abbreviation (input) ex_locks :: wlocks where
  "ex_locks \<equiv> \<lparr>ls_store = (\<lambda>_. InitRWLock LB_BUFFER_BLOCKS), ls_table = init_table, ls_used = 0\<rparr>"

lemma ex_locks_wf: "lockst_wf ex_locks" "ls_used ex_locks < MAX_LOCAL_LOCK_NUM" "lock_free l ex_locks"
  by (simp_all add: lockst_wf_def live_def init_table_def MAX_LOCAL_LOCK_NUM_def lock_free_def held_def InitRWLock_def)

theorem clock_sweep_returns_victim_witness:
  "\<exists>bp v bp' s'. InitBufferPool 8 = (0, Some bp) \<and> ClockSweep bp ex_locks = Some (v, bp', s') \<and> victim bp' v"
proof -
  have "BUFFER_MIN_NUM \<le> 8" by (simp add: BUFFER_MIN_NUM_def)
  from InitBufferPool_free [OF this] obtain bp where bp: "InitBufferPool 8 = (0, Some bp)"
    "pool_free bp (map int [1..<nat 8])" "bufferNum bp = 8"
    and z: "\<forall>i. 0 \<le> i \<longrightarrow> i < 8 \<longrightarrow> desc_of bp i = zero_desc" by blast
  have "descs_free bp ex_locks" using ex_locks_wf by (simp add: descs_free_def)
  moreover have "evictable bp 3" using bp spec [OF z, of 3] by (simp add: evictable_def zero_desc_def)
  ultimately show ?thesis
    using clock_sweep_returns_victim [of bp ex_locks 3] bp by (auto simp: pool_free_def)
qed

text \<open>C23: the free list hands out the first unpinned buffer. With a well-formed free list
  that has an unpinned buffer, \<^verbatim>\<open>GetFreeBufferId\<close> returns the first unpinned id, the list
  continues behind it, no pin changes and the pool lock is given back.\<close>

theorem free_list_hands_out_unpinned:
  assumes "lockst_wf s" and "ls_used s < MAX_LOCAL_LOCK_NUM" and "lock_free PoolLock s"
    and "pool_free bp ids" and "x \<in> set ids" and "\<not> pinned bp x"
  shows "\<exists>v rest bp' s'. GetFreeBufferId bp s = Some (v, bp', s') \<and> dropWhile (pinned bp) ids = v # rest \<and>
    pool_free bp' rest \<and> (\<forall>z. pinned bp' z = pinned bp z) \<and> locks_eq s s'"
proof -
  have wf: "pool_wf bp" and h: "freeList bp ! 0 \<noteq> Free_List_End"
    using assms(4,5) by (cases ids; auto simp: pool_free_def Free_List_End_def)+
  obtain s' where s': "locks_eq s s'"
    "GetFreeBufferId bp s = do { (v, bp') \<leftarrow> free_loop (freeList bp ! 0) bp; Some (v, bp', s') }"
    using GetFreeBufferId_locked [OF assms(1-3) wf] .
  from free_loop_spec [OF assms(4-6) h] s' show ?thesis by auto
qed

theorem free_list_hands_out_unpinned_witness:
  "\<exists>bp bp' s'. InitBufferPool 8 = (0, Some bp) \<and> GetFreeBufferId bp ex_locks = Some (1, bp', s') \<and>
     pool_free bp' [2, 3, 4, 5, 6, 7]"
proof -
  have "BUFFER_MIN_NUM \<le> 8" by (simp add: BUFFER_MIN_NUM_def)
  from InitBufferPool_free [OF this] obtain bp where bp: "InitBufferPool 8 = (0, Some bp)"
    "pool_free bp (map int [1..<nat 8])"
    and z: "\<forall>i. 0 \<le> i \<longrightarrow> i < 8 \<longrightarrow> desc_of bp i = zero_desc" by blast
  have ids: "map int [1..<nat 8] = [1, 2, 3, 4, 5, 6, 7]" by (simp add: upt_conv_Cons)
  have "\<not> pinned bp 1" using spec [OF z, of 1] by (simp add: pinned_def zero_desc_def)
  with free_list_hands_out_unpinned [OF ex_locks_wf bp(2) [unfolded ids], of 1] bp(1)
  show ?thesis by auto
qed

text \<open>With every free buffer pinned the search runs off the array. When the free list
  is not empty and all its buffers are pinned, \<^verbatim>\<open>GetFreeBufferId\<close> reads \<open>freeList[-1]\<close>.\<close>

theorem free_list_all_pinned_reads_before_array:
  assumes "lockst_wf s" and "ls_used s < MAX_LOCAL_LOCK_NUM" and "lock_free PoolLock s"
    and "pool_free bp ids" and "ids \<noteq> []" and "\<forall>x\<in>set ids. pinned bp x"
  shows "GetFreeBufferId bp s = None"
proof -
  have wf: "pool_wf bp" and h: "freeList bp ! 0 \<noteq> Free_List_End"
    using assms(4,5) by (cases ids; auto simp: pool_free_def Free_List_End_def)+
  obtain s' where
    "GetFreeBufferId bp s = do { (v, bp') \<leftarrow> free_loop (freeList bp ! 0) bp; Some (v, bp', s') }"
    using GetFreeBufferId_locked [OF assms(1-3) wf] .
  then show ?thesis using free_loop_all_pinned [OF assms(4,6) h] by simp
qed

theorem free_list_all_pinned_reads_before_array_witness:
  "GetFreeBufferId \<lparr>bufferNum = 2, freeList = [1, -1], bufferDesc = [zero_desc, zero_desc\<lparr>refCnt := 1\<rparr>],
     clock_start = 0\<rparr> ex_locks = None"
  using free_list_all_pinned_reads_before_array [OF ex_locks_wf, of "\<lparr>bufferNum = 2, freeList = [1, -1],
     bufferDesc = [zero_desc, zero_desc\<lparr>refCnt := 1\<rparr>], clock_start = 0\<rparr>" "[1]"]
  by (simp add: pool_free_def pool_wf_def pinned_def Free_List_End_def USE_COUNT_MAX_def zero_desc_def)

text \<open>Pin and unpin. Pinning a buffer and releasing it restores its pin count, unless the
  32-bit count was at its maximum; the use count is left at its maximum.\<close>

theorem pin_unpin_restores:
  assumes "0 \<le> i" and "nat i < length (bufferDesc bp)" and "refCnt (desc_of bp i) \<noteq> -1"
  shows "\<exists>bp1. PinBuffer i bp = Some bp1 \<and> refCnt (desc_of bp1 i) \<noteq> 0 \<and>
    ReleaseBuffer i bp1 = Some (bp\<lparr>bufferDesc := (bufferDesc bp)[nat i := (desc_of bp i)\<lparr>usedCnt := USE_COUNT_MAX\<rparr>]\<rparr>)"
proof -
  have "refCnt (desc_of bp i) + 1 \<noteq> 0" using assms(3) by (metis add_eq_0_iff2)
  then have "refCnt (desc_of bp i) + 1 > 0" by (simp add: word_gt_0)
  then show ?thesis
    using assms by (simp add: PinBuffer_def ReleaseBuffer_def unPinBuffer_def upd_desc_eq)
qed

theorem pin_unpin_restores_witness:
  "\<exists>bp1. PinBuffer 0 \<lparr>bufferNum = 1, freeList = [-1], bufferDesc = [zero_desc], clock_start = 0\<rparr> = Some bp1 \<and>
     refCnt (desc_of bp1 0) \<noteq> 0 \<and>
     ReleaseBuffer 0 bp1 = Some \<lparr>bufferNum = 1, freeList = [-1], bufferDesc = [zero_desc\<lparr>usedCnt := 5\<rparr>], clock_start = 0\<rparr>"
  using pin_unpin_restores [of 0 "\<lparr>bufferNum = 1, freeList = [-1], bufferDesc = [zero_desc], clock_start = 0\<rparr>"]
  by (simp add: zero_desc_def USE_COUNT_MAX_def)

text \<open>
  \<^verbatim>\<open>InitBufferPool\<close> does not mark the buffers of the initial free list, so invalidating one
  of them inserts it a second time and closes a cycle.
\<close>

lemma invalidate_closes_cycle:
  "\<exists>bp bp' s'. InitBufferPool 8 = (0, Some bp) \<and> InvalidateBuffer 1 bp ex_locks = Some (bp', s') \<and>
     freeList bp' ! 0 = 1 \<and> freeList bp' ! 1 = 1"
proof -
  obtain s1 s2 where l: "AcquireLock PoolLock RWLock_WRITE ex_locks = Some s1"
    "ReleaseLock PoolLock RWLock_WRITE s1 = Some s2" using pool_locked [OF ex_locks_wf] .
  then show ?thesis
    by (simp add: InitBufferPool_def BUFFER_MIN_NUM_def InvalidateBuffer_def InsertFreeList_def upd_desc_def
        arr_get_def arr_set_def zero_desc_def)
qed

end
