(* ===== verification/Transaction.thy ===== *)
theory Transaction
  imports Locks
begin

text \<open>
  Transactions, after \<^verbatim>\<open>src/sqlcore/transaction\<close>: transaction ids (\<^verbatim>\<open>xtid.c\<close>), the state
  machine of a worker's transaction and the computation of a snapshot
  (\<^verbatim>\<open>transactionControl.c\<close>), and the visibility of a tuple under a snapshot (\<^verbatim>\<open>snapshot.c\<close>);
  with the transaction commands of \<^verbatim>\<open>src/sqlcore/executor/execTransaction.c\<close>.

  The ids and the array of transaction contexts are shared by the workers; a worker has its
  index (starting with 1), its pointer \<open>myTransaction\<close> into the array, and the snapshot
  buffer of its session. An access outside an array has no result. Log output is left out.

  The scan of the running transactions takes no lock: \<open>scans\<close> lets complete operations of other workers come between its reads, and
  \<open>start_fetched\<close> is a start that is interrupted before its id is stored.
\<close>

section \<open>Transaction ids\<close>

type_synonym XTID = u64

definition INVALID_XTID :: XTID where "INVALID_XTID = -1"
definition CLEAN_XTID :: XTID where "CLEAN_XTID = 0"

definition XTID_ISINVALID :: "XTID \<Rightarrow> bool" where
  "XTID_ISINVALID x \<longleftrightarrow> x = INVALID_XTID"

datatype TransactionState = TRANS_RUNNING | TRANS_COMMITED | TRANS_ABORT | TRANS_UNKNOW

record TransactionIDInfo =
  nextTransactionId :: XTID
  lowLevelXtid :: XTID
  highLevelXtid :: XTID

definition transactionInfo :: TransactionIDInfo where
  "transactionInfo = \<lparr>nextTransactionId = 1, lowLevelXtid = 0, highLevelXtid = 0\<rparr>"

definition GetNewTransactionID :: "TransactionIDInfo \<Rightarrow> XTID \<times> TransactionIDInfo" where
  "GetNewTransactionID t =
     (let (old, c) = atomic_fetch_add64 (nextTransactionId t) 1 in (old, t\<lparr>nextTransactionId := c\<rparr>))"

text \<open>
  The compare-and-swap loops: \<open>cell\<close> is the shared variable, \<open>seen\<close> the worker's copy,
  which other workers may have made stale. The result is the returned id and the new cell.
\<close>

partial_function (option) set_high_loop :: "XTID \<Rightarrow> XTID \<Rightarrow> XTID \<Rightarrow> (XTID \<times> XTID) option" where
  "set_high_loop xid seen cell =
     (if seen \<ge> xid then Some (seen, cell)
      else let (ok, cell, seen) = atomic_compare_exchange64 cell seen xid
           in if ok then Some (seen, cell) else set_high_loop xid seen cell)"

definition SetHighLevelTransaction :: "XTID \<Rightarrow> TransactionIDInfo \<Rightarrow> (XTID \<times> TransactionIDInfo) option" where
  "SetHighLevelTransaction xid t =
     (let seen = highLevelXtid t in
      if XTID_ISINVALID xid then Some (seen, t)
      else do { (r, c) \<leftarrow> set_high_loop xid seen (highLevelXtid t); Some (r, t\<lparr>highLevelXtid := c\<rparr>) })"

partial_function (option) set_low_loop :: "XTID \<Rightarrow> XTID \<Rightarrow> XTID \<Rightarrow> (XTID \<times> XTID) option" where
  "set_low_loop xid seen cell =
     (if seen \<le> xid then Some (seen, cell)
      else let (ok, cell, seen) = atomic_compare_exchange64 cell seen xid
           in if ok then Some (seen, cell) else set_low_loop xid seen cell)"

definition SetLowLevelTransaction :: "XTID \<Rightarrow> TransactionIDInfo \<Rightarrow> (XTID \<times> TransactionIDInfo) option" where
  "SetLowLevelTransaction xid t =
     (let seen = lowLevelXtid t in
      if XTID_ISINVALID xid then Some (seen, t)
      else do { (r, c) \<leftarrow> set_low_loop xid seen (lowLevelXtid t); Some (r, t\<lparr>lowLevelXtid := c\<rparr>) })"

definition GetLowLevelTransaction :: "TransactionIDInfo \<Rightarrow> XTID" where
  "GetLowLevelTransaction t = lowLevelXtid t"

definition GetHighLevelTransaction :: "TransactionIDInfo \<Rightarrow> XTID" where
  "GetHighLevelTransaction t = highLevelXtid t"

definition GetTransactionState :: "XTID \<Rightarrow> TransactionState" where
  "GetTransactionState x = TRANS_COMMITED"

section \<open>The state machine of a transaction\<close>

datatype TransactionFSMState = TS_IDLE | TS_START | TS_BEGIN | TS_INPROCESS | TS_COMMIT | TS_ABORT | TS_UNKNOW

datatype TransactionIsolationLevel = til_Read_Commited | til_Read_Repeatable

record TransactionContext =
  ts :: TransactionFSMState
  transactionID :: XTID
  tc_snapshot :: bool

text \<open>
  A worker's view: the shared ids and contexts (\<open>maxTransactonNum\<close> is the length of the
  array), its index and its transaction pointer.
\<close>

record txnst =
  tx_ids :: TransactionIDInfo
  transactionContextArray :: "TransactionContext list"
  workerIndex :: int
  myTransaction :: "int option"

abbreviation maxTransactonNum :: "txnst \<Rightarrow> int" where
  "maxTransactonNum st \<equiv> int (length (transactionContextArray st))"

definition InitTransactContext :: "int \<Rightarrow> (int \<times> TransactionContext list)" where
  "InitTransactContext maxNum =
     (if maxNum \<le> 0 then (-1, [])
      else (0, replicate (nat maxNum) \<lparr>ts = TS_IDLE, transactionID = 0, tc_snapshot = False\<rparr>))"

definition my_ctx :: "txnst \<Rightarrow> int \<Rightarrow> TransactionContext option" where
  "my_ctx st i = arr_get (transactionContextArray st) i"

definition set_ctx :: "int \<Rightarrow> (TransactionContext \<Rightarrow> TransactionContext) \<Rightarrow> txnst \<Rightarrow> txnst option" where
  "set_ctx i f st = do {
     c \<leftarrow> arr_get (transactionContextArray st) i;
     a \<leftarrow> arr_set (transactionContextArray st) i (f c);
     Some (st\<lparr>transactionContextArray := a\<rparr>) }"

definition attach :: "txnst \<Rightarrow> txnst option" where
  "attach st = set_ctx (workerIndex st - 1) (\<lambda>c. c\<lparr>tc_snapshot := False\<rparr>)
     (st\<lparr>myTransaction := Some (workerIndex st - 1)\<rparr>)"

definition assign_id :: "int \<Rightarrow> txnst \<Rightarrow> txnst option" where
  "assign_id i st =
     (let (x, ids) = GetNewTransactionID (tx_ids st)
      in set_ctx i (\<lambda>c. c\<lparr>transactionID := x\<rparr>) (st\<lparr>tx_ids := ids\<rparr>))"

definition StartTransaction :: "txnst \<Rightarrow> txnst option" where
  "StartTransaction st =
     (case myTransaction st of
        Some _ \<Rightarrow> Some st
      | None \<Rightarrow>
          if workerIndex st > maxTransactonNum st then Some st
          else do {
            st \<leftarrow> attach st;
            let i = workerIndex st - 1;
            c \<leftarrow> my_ctx st i;
            if ts c = TS_IDLE then do {
              st \<leftarrow> set_ctx i (\<lambda>c. c\<lparr>ts := TS_START\<rparr>) st;
              assign_id i st }
            else Some st })"

definition BeginTransaction :: "txnst \<Rightarrow> txnst option" where
  "BeginTransaction st =
     (if myTransaction st = None \<and> workerIndex st > maxTransactonNum st then Some st
      else do {
        st \<leftarrow> (if myTransaction st = None then attach st else Some st);
        let i = the (myTransaction st);
        c \<leftarrow> my_ctx st i;
        case ts c of
          TS_IDLE \<Rightarrow> do { st \<leftarrow> assign_id i st; set_ctx i (\<lambda>c. c\<lparr>ts := TS_BEGIN\<rparr>) st }
        | TS_START \<Rightarrow> set_ctx i (\<lambda>c. c\<lparr>ts := TS_BEGIN\<rparr>) st
        | _ \<Rightarrow> Some st })"

definition EndTransaction :: "txnst \<Rightarrow> txnst option" where
  "EndTransaction st =
     (case myTransaction st of
        None \<Rightarrow> Some st
      | Some i \<Rightarrow> do {
          c \<leftarrow> my_ctx st i;
          if ts c = TS_IDLE then Some st else set_ctx i (\<lambda>c. c\<lparr>ts := TS_COMMIT\<rparr>) st })"

definition AbortTransaction :: "txnst \<Rightarrow> txnst option" where
  "AbortTransaction st =
     (case myTransaction st of
        None \<Rightarrow> Some st
      | Some i \<Rightarrow> do {
          c \<leftarrow> my_ctx st i;
          if ts c = TS_IDLE then Some st else set_ctx i (\<lambda>c. c\<lparr>ts := TS_ABORT\<rparr>) st })"

definition finish_ctx :: "int \<Rightarrow> txnst \<Rightarrow> txnst option" where
  "finish_ctx i st = do {
     st \<leftarrow> set_ctx i (\<lambda>c. c\<lparr>ts := TS_IDLE\<rparr>) st;
     c \<leftarrow> my_ctx st i;
     (_, ids) \<leftarrow> SetHighLevelTransaction (transactionID c) (tx_ids st);
     Some (st\<lparr>tx_ids := ids, myTransaction := None\<rparr>) }"

definition FinishTransaction :: "txnst \<Rightarrow> txnst option" where
  "FinishTransaction st =
     (case myTransaction st of
        None \<Rightarrow> Some st
      | Some i \<Rightarrow> do {
          c \<leftarrow> my_ctx st i;
          case ts c of
            TS_START \<Rightarrow> finish_ctx i st
          | TS_COMMIT \<Rightarrow> finish_ctx i st
          | TS_ABORT \<Rightarrow> finish_ctx i st
          | _ \<Rightarrow> Some st })"

definition GetCurrentTransactionState :: "txnst \<Rightarrow> TransactionFSMState option" where
  "GetCurrentTransactionState st =
     (case myTransaction st of None \<Rightarrow> Some TS_IDLE | Some i \<Rightarrow> map_option ts (my_ctx st i))"

definition GetCurrentTransactionID :: "txnst \<Rightarrow> XTID option" where
  "GetCurrentTransactionID st =
     (case myTransaction st of None \<Rightarrow> Some INVALID_XTID | Some i \<Rightarrow> map_option transactionID (my_ctx st i))"

text \<open>The SQL transaction commands.\<close>

datatype TransactionFlag = TF_BEGIN | TF_END | TF_COMMIT | TF_ROLLBACK | TF_SAVEPOINT | TF_UNKNOWN

definition ExecTransaction :: "TransactionFlag \<Rightarrow> txnst \<Rightarrow> (int \<times> txnst) option" where
  "ExecTransaction tag st = do {
     cur \<leftarrow> GetCurrentTransactionState st;
     case tag of
       TF_BEGIN \<Rightarrow> do { st \<leftarrow> BeginTransaction st; Some (0, st) }
     | TF_END \<Rightarrow> if cur \<noteq> TS_IDLE then do { st \<leftarrow> EndTransaction st; Some (0, st) } else Some (-1, st)
     | TF_COMMIT \<Rightarrow> if cur \<noteq> TS_IDLE then do { st \<leftarrow> EndTransaction st; Some (0, st) } else Some (-1, st)
     | TF_ROLLBACK \<Rightarrow> if cur \<noteq> TS_IDLE then do { st \<leftarrow> AbortTransaction st; Some (0, st) } else Some (-1, st)
     | TF_SAVEPOINT \<Rightarrow> Some (0, st)
     | TF_UNKNOWN \<Rightarrow> Some (-1, st) }"

section \<open>Tuple headers\<close>

record PageOffset =
  po_segno :: i32
  po_pageno :: i32

record RowPosition =
  pageIndex :: PageOffset
  itemIndex :: i32

record TupleHeader =
  tmin :: XTID
  tmax :: XTID
  tinfo :: XTID
  cid :: u32
  undo :: RowPosition

definition ComputeXminTupleHeader :: "TupleHeader \<Rightarrow> txnst \<Rightarrow> TupleHeader option" where
  "ComputeXminTupleHeader h st = do {
     x \<leftarrow> GetCurrentTransactionID st;
     Some (h\<lparr>cid := 0, tmin := x, tmax := INVALID_XTID, tinfo := CLEAN_XTID\<rparr>) }"

definition ComputeXmaxTupleHeader :: "TupleHeader \<Rightarrow> TupleHeader \<Rightarrow> txnst \<Rightarrow> (TupleHeader \<times> TupleHeader) option" where
  "ComputeXmaxTupleHeader h old st = do {
     x \<leftarrow> GetCurrentTransactionID st;
     let h = h\<lparr>cid := 0, tmin := x, tmax := INVALID_XTID, tinfo := CLEAN_XTID\<rparr>;
     Some (h, old\<lparr>cid := 0, tmax := tmin h\<rparr>) }"

section \<open>Snapshots\<close>

record SnapShotInfo =
  highLevel :: XTID
  lowLevel :: XTID
  xidNum :: int
  xidArrMax :: int
  runningXidArr :: "XTID list"

definition CreateSnapshot :: "int \<Rightarrow> SnapShotInfo" where
  "CreateSnapshot maxClient = \<lparr>highLevel = 0, lowLevel = 0, xidNum = 0, xidArrMax = maxClient,
     runningXidArr = replicate (nat maxClient) 0\<rparr>"

text \<open>
  The loop of \<^verbatim>\<open>GetActiveXtids\<close> over the remaining contexts; \<open>me\<close> is the id of the
  current transaction if there is one, \<open>buf\<close> the caller's array, as the previous snapshot
  left it.
\<close>

fun active_loop :: "TransactionContext list \<Rightarrow> XTID option \<Rightarrow> int \<Rightarrow> XTID \<Rightarrow> int \<Rightarrow> XTID list \<Rightarrow> XTID \<Rightarrow>
    (int \<times> XTID list \<times> XTID) option" where
  "active_loop [] me maxNum mx count buf mn = Some (count, buf, mn)"
| "active_loop (c # cs) me maxNum mx count buf mn =
     (if ts c = TS_IDLE \<or> me = Some (transactionID c) then active_loop cs me maxNum mx count buf mn
      else do {
        old \<leftarrow> arr_get buf count;
        if old > mx then active_loop cs me maxNum mx count buf mn
        else do {
          buf \<leftarrow> arr_set buf count (transactionID c);
          let mn = (if transactionID c < mn then transactionID c else mn);
          if count + 1 \<ge> maxNum then Some (count + 1, buf, mn)
          else active_loop cs me maxNum mx (count + 1) buf mn } })"

text \<open>
  \<^verbatim>\<open>GetActiveXtids\<close> takes no lock. \<open>active_xtids\<close> and \<open>snapshot_reading\<close> are the two functions in terms of what they read: the level \<open>high\<close>, the own id \<open>me\<close>
  and the contexts \<open>cs\<close>, each at a time of its own.
\<close>

definition active_xtids :: "XTID \<Rightarrow> XTID option \<Rightarrow> TransactionContext list \<Rightarrow> XTID list \<Rightarrow> int \<Rightarrow> (int \<times> XTID list \<times> XTID \<times> XTID) option" where
  "active_xtids high me cs buf maxNum = do {
     let mx = high + 1;
     let mn = (case me of None \<Rightarrow> mx | Some x \<Rightarrow> if x < mx then x else mx);
     (count, buf, mn) \<leftarrow> active_loop cs me maxNum mx 0 buf mn;
     Some (count, buf, mx, mn) }"

definition snapshot_reading :: "SnapShotInfo \<Rightarrow> XTID \<Rightarrow> XTID option \<Rightarrow> TransactionContext list \<Rightarrow> SnapShotInfo option" where
  "snapshot_reading sn high me cs = do {
     (n, buf, mx, mn) \<leftarrow> active_xtids high me cs (runningXidArr sn) (xidArrMax sn);
     Some (sn\<lparr>xidNum := n, runningXidArr := buf, highLevel := mx, lowLevel := mn\<rparr>) }"

text \<open>The two functions when nobody else runs.\<close>

definition own_id :: "txnst \<Rightarrow> XTID option option" where
  "own_id st = (case myTransaction st of None \<Rightarrow> Some None
     | Some i \<Rightarrow> map_option (\<lambda>c. Some (transactionID c)) (my_ctx st i))"

definition GetActiveXtids :: "XTID list \<Rightarrow> int \<Rightarrow> txnst \<Rightarrow> (int \<times> XTID list \<times> XTID \<times> XTID) option" where
  "GetActiveXtids buf maxNum st = do {
     me \<leftarrow> own_id st;
     active_xtids (GetHighLevelTransaction (tx_ids st)) me (transactionContextArray st) buf maxNum }"

definition GetSnapshot :: "SnapShotInfo \<Rightarrow> txnst \<Rightarrow> SnapShotInfo option" where
  "GetSnapshot sn st = do {
     (n, buf, mx, mn) \<leftarrow> GetActiveXtids (runningXidArr sn) (xidArrMax sn) st;
     Some (sn\<lparr>xidNum := n, runningXidArr := buf, highLevel := mx, lowLevel := mn\<rparr>) }"

lemma GetSnapshot_reading:
  "GetSnapshot sn st = do { me \<leftarrow> own_id st; snapshot_reading sn (highLevelXtid (tx_ids st)) me (transactionContextArray st) }"
  by (simp add: GetSnapshot_def GetActiveXtids_def snapshot_reading_def GetHighLevelTransaction_def)

definition GenerateSnapshot :: "TransactionIsolationLevel \<Rightarrow> SnapShotInfo \<Rightarrow> txnst \<Rightarrow> (SnapShotInfo \<times> txnst) option" where
  "GenerateSnapshot level sn st =
     (case myTransaction st of
        None \<Rightarrow> Some (sn, st)
      | Some i \<Rightarrow> do {
          c \<leftarrow> my_ctx st i;
          let isNew = (case level of til_Read_Commited \<Rightarrow> True | til_Read_Repeatable \<Rightarrow> \<not> tc_snapshot c);
          if isNew then do {
            sn \<leftarrow> GetSnapshot sn st;
            st \<leftarrow> set_ctx i (\<lambda>c. c\<lparr>tc_snapshot := True\<rparr>) st;
            Some (sn, st) }
          else Some (sn, st) })"

section \<open>Visibility\<close>

datatype TupleVisibility = TUPLE_INVISIBLE | TUPLE_VISIBLE | IN_SNAPSHOT | OUT_SNAPSHOT | TUPLE_UNKNOWN

datatype TupleUpdateResult = TU_OK | TU_Invsible | TU_BegingModify | TU_Upated | TU_Deleted | TU_SelfModifed | TU_UNKNOW

definition XtidIsInSnapshot :: "XTID \<Rightarrow> SnapShotInfo \<Rightarrow> bool" where
  "XtidIsInSnapshot x sn = list_ex (\<lambda>y. x = y) (take (nat (xidNum sn)) (runningXidArr sn))"

definition TupleVisibililtySnapshot :: "XTID \<Rightarrow> SnapShotInfo \<Rightarrow> TupleVisibility" where
  "TupleVisibililtySnapshot x sn =
     (if x < lowLevel sn then OUT_SNAPSHOT
      else if x < highLevel sn then (if XtidIsInSnapshot x sn then IN_SNAPSHOT else OUT_SNAPSHOT)
      else IN_SNAPSHOT)"

definition TupleVisibilitySatisfy :: "TupleHeader \<Rightarrow> SnapShotInfo option \<Rightarrow> txnst \<Rightarrow> TupleVisibility option" where
  "TupleVisibilitySatisfy h snap st = do {
     curr \<leftarrow> GetCurrentTransactionID st;
     Some (case snap of
       None \<Rightarrow> TUPLE_VISIBLE
     | Some sn \<Rightarrow>
         if XTID_ISINVALID (tmin h) then TUPLE_INVISIBLE
         else if tmin h \<noteq> curr \<and>
                 (TupleVisibililtySnapshot (tmin h) sn = IN_SNAPSHOT \<or> GetTransactionState (tmin h) \<noteq> TRANS_COMMITED)
         then TUPLE_INVISIBLE
         else if XTID_ISINVALID (tmax h) then TUPLE_VISIBLE
         else if tmax h \<noteq> curr \<and>
                 (TupleVisibililtySnapshot (tmax h) sn = IN_SNAPSHOT \<or> GetTransactionState (tmin h) \<noteq> TRANS_COMMITED)
         then TUPLE_VISIBLE
         else TUPLE_INVISIBLE) }"

definition TupleUpdateSatisfy :: "TupleHeader \<Rightarrow> txnst \<Rightarrow> TupleUpdateResult option" where
  "TupleUpdateSatisfy h st = do {
     curr \<leftarrow> GetCurrentTransactionID st;
     Some (if XTID_ISINVALID (tmin h) then TU_Invsible
       else if GetTransactionState (tmin h) \<noteq> TRANS_COMMITED then
         (if curr = tmin h then
            (if XTID_ISINVALID (tmax h) then TU_OK else if curr \<noteq> tmax h then TU_OK else TU_Invsible)
          else TU_Invsible)
       else if XTID_ISINVALID (tmax h) then TU_OK else TU_Invsible) }"

section \<open>Level updates\<close>

lemma set_high_loop_max:
  assumes "seen \<le> cell"
  shows "\<exists>r. set_high_loop xid seen cell = Some (r, max cell xid)"
proof -
  have fresh: "\<exists>r. set_high_loop xid cell cell = Some (r, max cell xid)"
    by (subst set_high_loop.simps) (auto simp: atomic_compare_exchange64_def max_def)
  show ?thesis
  proof (cases "seen = cell \<or> xid \<le> seen")
    case True
    then show ?thesis
    proof
      assume "xid \<le> seen"
      then show ?thesis using assms by (subst set_high_loop.simps) (auto simp: max_def)
    qed (use fresh in simp)
  next
    case False
    then have "set_high_loop xid seen cell = set_high_loop xid cell cell"
      by (subst set_high_loop.simps) (auto simp: atomic_compare_exchange64_def Let_def)
    then show ?thesis using fresh by simp
  qed
qed

lemma SetHighLevelTransaction_max:
  assumes "x \<noteq> INVALID_XTID"
  shows "\<exists>r. SetHighLevelTransaction x t = Some (r, t\<lparr>highLevelXtid := max (highLevelXtid t) x\<rparr>)"
  using set_high_loop_max [of "highLevelXtid t" "highLevelXtid t" x] assms
  by (auto simp: SetHighLevelTransaction_def XTID_ISINVALID_def)

section \<open>The snapshot loop\<close>

definition others :: "XTID option \<Rightarrow> TransactionContext list \<Rightarrow> TransactionContext list" where
  "others me cs = filter (\<lambda>c. ts c \<noteq> TS_IDLE \<and> me \<noteq> Some (transactionID c)) cs"

lemma active_loop_spec:
  assumes "length buf = m" and "n + length cs \<le> m" and "\<And>j. n \<le> j \<Longrightarrow> j < m \<Longrightarrow> buf ! j \<le> mx"
  shows "\<exists>buf' mn'. active_loop cs me (int m) mx (int n) buf mn = Some (int (n + length (others me cs)), buf', mn') \<and>
    length buf' = m \<and> take (n + length (others me cs)) buf' = take n buf @ map transactionID (others me cs) \<and>
    mn' \<le> mn \<and> (\<forall>c\<in>set (others me cs). mn' \<le> transactionID c) \<and>
    (mn' = mn \<or> (\<exists>c\<in>set (others me cs). mn' = transactionID c))"
  using assms
proof (induction cs arbitrary: n buf mn)
  case Nil
  then show ?case by (simp add: others_def)
next
  case (Cons c cs)
  show ?case
  proof (cases "ts c = TS_IDLE \<or> me = Some (transactionID c)")
    case True
    then have "others me (c # cs) = others me cs" by (auto simp: others_def)
    then show ?thesis using True Cons.IH [of buf n mn] Cons.prems by simp
  next
    case False
    let ?x = "transactionID c" and ?buf = "buf[n := transactionID c]"
    let ?mn = "if transactionID c < mn then transactionID c else mn"
    have o: "others me (c # cs) = c # others me cs" using False by (simp add: others_def)
    have n: "n < m" "n < length buf" using Cons.prems by simp_all
    have "arr_get buf (int n) = Some (buf ! n)" "\<not> buf ! n > mx" "arr_set buf (int n) ?x = Some ?buf"
      using n Cons.prems(3) [of n] by (simp_all add: not_less)
    then have go: "active_loop (c # cs) me (int m) mx (int n) buf mn =
      (if Suc n \<ge> m then Some (int (Suc n), ?buf, ?mn) else active_loop cs me (int m) mx (int (Suc n)) ?buf ?mn)"
      using False by (simp add: add.commute Let_def)
    have tk: "take (Suc n) ?buf = take n buf @ [?x]" using n by (simp add: take_Suc_conv_app_nth)
    show ?thesis
    proof (cases "Suc n \<ge> m")
      case True
      then have "length cs = 0" using Cons.prems(2) by (simp only: list.size)
      then have "cs = []" by simp
      then show ?thesis using go True o tk n Cons.prems(1) by (auto simp: others_def min_def)
    next
      case notlast: False
      have "length ?buf = m" "Suc n + length cs \<le> m" using Cons.prems by simp_all
      moreover have "?buf ! j \<le> mx" if "Suc n \<le> j" "j < m" for j using that Cons.prems(3) [of j] by simp
      ultimately obtain buf' mn' where IH: "active_loop cs me (int m) mx (int (Suc n)) ?buf ?mn =
          Some (int (Suc n + length (others me cs)), buf', mn')" "length buf' = m"
        "take (Suc n + length (others me cs)) buf' = take (Suc n) ?buf @ map transactionID (others me cs)"
        "mn' \<le> ?mn" "\<forall>c\<in>set (others me cs). mn' \<le> transactionID c"
        "mn' = ?mn \<or> (\<exists>c\<in>set (others me cs). mn' = transactionID c)"
        using Cons.IH [of ?buf "Suc n" ?mn] by blast
      have "mn' \<le> mn" "mn' \<le> ?x" using IH(4) by (auto split: if_splits)
      then show ?thesis using go notlast o tk IH by (auto split: if_splits)
    qed
  qed
qed

text \<open>
  The snapshot of a worker whose buffer holds nothing above the level: it separates the ids by
  whether they are at or above the level or belong to another running transaction.
\<close>

definition clean_buffer :: "SnapShotInfo \<Rightarrow> txnst \<Rightarrow> bool" where
  "clean_buffer sn st \<longleftrightarrow> xidArrMax sn = int (length (runningXidArr sn)) \<and>
     length (transactionContextArray st) \<le> length (runningXidArr sn) \<and>
     (\<forall>y\<in>set (runningXidArr sn). y \<le> highLevelXtid (tx_ids st) + 1)"

definition my_id :: "txnst \<Rightarrow> XTID option" where
  "my_id st = (case myTransaction st of None \<Rightarrow> None
     | Some i \<Rightarrow> map_option transactionID (arr_get (transactionContextArray st) i))"

definition my_valid :: "txnst \<Rightarrow> bool" where
  "my_valid st \<longleftrightarrow> (\<forall>i. myTransaction st = Some i \<longrightarrow> 0 \<le> i \<and> i < maxTransactonNum st)"

lemma own_id_my_id: "my_valid st \<Longrightarrow> own_id st = Some (my_id st)"
  by (auto simp: own_id_def my_id_def my_ctx_def my_valid_def arr_get_def split: option.splits)

lemma snapshot_separates:
  assumes cb: "clean_buffer sn st" and len: "length cs \<le> length (transactionContextArray st)"
  shows "\<exists>sn'. snapshot_reading sn (highLevelXtid (tx_ids st)) me cs = Some sn' \<and>
    (\<forall>x. TupleVisibililtySnapshot x sn' =
      (if highLevelXtid (tx_ids st) + 1 \<le> x \<or> x \<in> transactionID ` set (others me cs) then IN_SNAPSHOT else OUT_SNAPSHOT))"
proof -
  let ?mx = "highLevelXtid (tx_ids st) + 1" and ?buf = "runningXidArr sn" and ?o = "others me cs"
  define mn where "mn = (case me of None \<Rightarrow> ?mx | Some x \<Rightarrow> if x < ?mx then x else ?mx)"
  have mnle: "mn \<le> ?mx" by (auto simp: mn_def split: option.splits)
  obtain buf' mn' where r: "active_loop cs me (int (length ?buf)) ?mx 0 ?buf mn =
      Some (int (length ?o), buf', mn')" "length buf' = length ?buf" "take (length ?o) buf' = map transactionID ?o"
    "mn' \<le> mn" "\<forall>c\<in>set ?o. mn' \<le> transactionID c"
    using active_loop_spec [of ?buf "length ?buf" 0 cs ?mx me mn] cb len by (auto simp: clean_buffer_def)
  let ?sn = "sn\<lparr>xidNum := int (length ?o), runningXidArr := buf', highLevel := ?mx, lowLevel := mn'\<rparr>"
  have "snapshot_reading sn (highLevelXtid (tx_ids st)) me cs = Some ?sn"
    using r(1) cb by (simp add: snapshot_reading_def active_xtids_def clean_buffer_def mn_def)
  moreover have "TupleVisibililtySnapshot x ?sn =
      (if ?mx \<le> x \<or> x \<in> transactionID ` set ?o then IN_SNAPSHOT else OUT_SNAPSHOT)" for x
  proof -
    have "XtidIsInSnapshot x ?sn \<longleftrightarrow> x \<in> transactionID ` set ?o"
      using r(3) by (auto simp: XtidIsInSnapshot_def list_ex_iff)
    moreover have "x \<in> transactionID ` set ?o \<Longrightarrow> mn' \<le> x" using r(5) by auto
    moreover have "?mx \<le> x \<Longrightarrow> mn' \<le> x" using r(4) mnle by (meson order_trans)
    ultimately show ?thesis by (auto simp: TupleVisibililtySnapshot_def not_less)
  qed
  ultimately show ?thesis by auto
qed


section \<open>The transactions of all workers\<close>

text \<open>
  The workers \<open>1\<close> to \<open>n\<close> share the ids and the contexts. A step runs one of the operations of
  \<^verbatim>\<open>transactionControl.c\<close> on one worker to its end. The counter of steps bounds the ids that
  were handed out.
\<close>

record txnsys =
  sys_ids :: TransactionIDInfo
  sys_ctx :: "TransactionContext list"
  sys_my :: "nat \<Rightarrow> int option"

definition view :: "nat \<Rightarrow> txnsys \<Rightarrow> txnst" where
  "view w sy = \<lparr>tx_ids = sys_ids sy, transactionContextArray = sys_ctx sy, workerIndex = int w,
     myTransaction = sys_my sy w\<rparr>"

definition put_view :: "nat \<Rightarrow> txnst \<Rightarrow> txnsys \<Rightarrow> txnsys" where
  "put_view w st sy = \<lparr>sys_ids = tx_ids st, sys_ctx = transactionContextArray st,
     sys_my = (sys_my sy)(w := myTransaction st)\<rparr>"

datatype txn_op = OpStart | OpBegin | OpEnd | OpAbort | OpFinish

fun txn_exec :: "txn_op \<Rightarrow> txnst \<Rightarrow> txnst option" where
  "txn_exec OpStart st = StartTransaction st"
| "txn_exec OpBegin st = BeginTransaction st"
| "txn_exec OpEnd st = EndTransaction st"
| "txn_exec OpAbort st = AbortTransaction st"
| "txn_exec OpFinish st = FinishTransaction st"

definition txn_init :: "nat \<Rightarrow> txnsys" where
  "txn_init n = \<lparr>sys_ids = transactionInfo, sys_ctx = snd (InitTransactContext (int n)), sys_my = (\<lambda>_. None)\<rparr>"

inductive txn_reach :: "nat \<Rightarrow> nat \<Rightarrow> txnsys \<Rightarrow> bool" for n where
  txn_start: "txn_reach n 0 (txn_init n)"
| txn_step: "txn_reach n k sy \<Longrightarrow> 1 \<le> w \<Longrightarrow> w \<le> n \<Longrightarrow> txn_exec op (view w sy) = Some st \<Longrightarrow>
    txn_reach n (Suc k) (put_view w st sy)"

definition running :: "txnsys \<Rightarrow> XTID set" where
  "running sy = {transactionID (sys_ctx sy ! i) |i. i < length (sys_ctx sy) \<and> ts (sys_ctx sy ! i) \<noteq> TS_IDLE}"

definition finished :: "txnsys \<Rightarrow> XTID set" where
  "finished sy = {x. x < nextTransactionId (sys_ids sy) \<and> x \<notin> running sy}"

definition attached :: "nat \<Rightarrow> txnsys \<Rightarrow> bool" where
  "attached w sy \<longleftrightarrow> (if ts (sys_ctx sy ! (w - 1)) = TS_IDLE then sys_my sy w = None
     else sys_my sy w = Some (int w - 1))"

definition ids_distinct :: "txnsys \<Rightarrow> bool" where
  "ids_distinct sy \<longleftrightarrow> (\<forall>i j. i < length (sys_ctx sy) \<longrightarrow> j < length (sys_ctx sy) \<longrightarrow> i \<noteq> j \<longrightarrow>
        ts (sys_ctx sy ! i) \<noteq> TS_IDLE \<longrightarrow> ts (sys_ctx sy ! j) \<noteq> TS_IDLE \<longrightarrow>
        transactionID (sys_ctx sy ! i) \<noteq> transactionID (sys_ctx sy ! j))"

definition ids_ok :: "nat \<Rightarrow> txnsys \<Rightarrow> bool" where
  "ids_ok k sy \<longleftrightarrow> unat (nextTransactionId (sys_ids sy)) \<le> Suc k \<and> 0 < nextTransactionId (sys_ids sy) \<and>
     highLevelXtid (sys_ids sy) < nextTransactionId (sys_ids sy) \<and>
     (\<forall>x\<in>running sy. 0 < x \<and> x < nextTransactionId (sys_ids sy)) \<and>
     ids_distinct sy \<and>
     (\<forall>x\<in>finished sy. x \<le> highLevelXtid (sys_ids sy))"

definition txn_inv :: "nat \<Rightarrow> nat \<Rightarrow> txnsys \<Rightarrow> bool" where
  "txn_inv n k sy \<longleftrightarrow> length (sys_ctx sy) = n \<and> (\<forall>w. 1 \<le> w \<longrightarrow> w \<le> n \<longrightarrow> attached w sy) \<and> ids_ok k sy"

subsection \<open>The four effects of an operation\<close>

definition begin_at :: "nat \<Rightarrow> TransactionFSMState \<Rightarrow> txnsys \<Rightarrow> txnsys" where
  "begin_at w s sy = sy\<lparr>sys_ids := (sys_ids sy)\<lparr>nextTransactionId := nextTransactionId (sys_ids sy) + 1\<rparr>,
     sys_ctx := (sys_ctx sy)[w - 1 := \<lparr>ts = s, transactionID = nextTransactionId (sys_ids sy), tc_snapshot = False\<rparr>],
     sys_my := (sys_my sy)(w := Some (int w - 1))\<rparr>"

definition retag_at :: "nat \<Rightarrow> TransactionFSMState \<Rightarrow> txnsys \<Rightarrow> txnsys" where
  "retag_at w s sy = sy\<lparr>sys_ctx := (sys_ctx sy)[w - 1 := (sys_ctx sy ! (w - 1))\<lparr>ts := s\<rparr>]\<rparr>"

definition finish_at :: "nat \<Rightarrow> txnsys \<Rightarrow> txnsys" where
  "finish_at w sy = sy\<lparr>sys_ids := (sys_ids sy)\<lparr>highLevelXtid := max (highLevelXtid (sys_ids sy)) (transactionID (sys_ctx sy ! (w - 1)))\<rparr>,
     sys_ctx := (sys_ctx sy)[w - 1 := (sys_ctx sy ! (w - 1))\<lparr>ts := TS_IDLE\<rparr>], sys_my := (sys_my sy)(w := None)\<rparr>"

inductive txn_effect :: "nat \<Rightarrow> txnsys \<Rightarrow> txnsys \<Rightarrow> bool" for w sy where
  eff_none: "txn_effect w sy sy"
| eff_begin: "ts (sys_ctx sy ! (w - 1)) = TS_IDLE \<Longrightarrow> s \<noteq> TS_IDLE \<Longrightarrow> txn_effect w sy (begin_at w s sy)"
| eff_retag: "ts (sys_ctx sy ! (w - 1)) \<noteq> TS_IDLE \<Longrightarrow> s \<noteq> TS_IDLE \<Longrightarrow> txn_effect w sy (retag_at w s sy)"
| eff_finish: "ts (sys_ctx sy ! (w - 1)) \<noteq> TS_IDLE \<Longrightarrow> txn_effect w sy (finish_at w sy)"

lemmas txn_effectI = txn_effect.intros [simplified]

lemma ctx_all_set:
  "(c::TransactionContext)\<lparr>tc_snapshot := b, ts := s, transactionID := x\<rparr> = \<lparr>ts = s, transactionID = x, tc_snapshot = b\<rparr>"
  "c\<lparr>tc_snapshot := b, transactionID := x, ts := s\<rparr> = \<lparr>ts = s, transactionID = x, tc_snapshot = b\<rparr>"
  by (cases c, simp)+

lemmas txn_fields = view_def put_view_def my_ctx_def set_ctx_def attach_def assign_id_def GetNewTransactionID_def
  atomic_fetch_add64_def Let_def

definition at_worker :: "nat \<Rightarrow> txnsys \<Rightarrow> bool" where
  "at_worker w sy \<longleftrightarrow> 1 \<le> w \<and> w \<le> length (sys_ctx sy) \<and> attached w sy"

lemma at_worker_get [simp]:
  assumes "at_worker w sy"
  shows "arr_get (sys_ctx sy) (int w - 1) = Some (sys_ctx sy ! (w - Suc 0))" 
    and "arr_get ((sys_ctx sy)[w - Suc 0 := c]) (int w - 1) = Some c"
    and "arr_set (sys_ctx sy) (int w - 1) c = Some ((sys_ctx sy)[w - Suc 0 := c])"
    and "arr_set ((sys_ctx sy)[w - Suc 0 := d]) (int w - 1) c = Some ((sys_ctx sy)[w - Suc 0 := c])"
    and "\<not> length (sys_ctx sy) < w"
  using assms by (auto simp: at_worker_def arr_get_def arr_set_def nat_diff_distrib)

lemma at_worker_cases:
  assumes "at_worker w sy"
  obtains (idle) "ts (sys_ctx sy ! (w - 1)) = TS_IDLE" "sys_my sy w = None"
    | (active) "ts (sys_ctx sy ! (w - 1)) \<noteq> TS_IDLE" "sys_my sy w = Some (int w - 1)"
  using assms by (auto simp: at_worker_def attached_def split: if_splits)

lemma put_view_same [simp]: "put_view w (view w sy) sy = sy"
  by (simp add: put_view_def view_def)

lemma StartTransaction_effect:
  assumes "at_worker w sy"
  shows "\<exists>st. StartTransaction (view w sy) = Some st \<and> put_view w st sy =
    (if ts (sys_ctx sy ! (w - 1)) = TS_IDLE then begin_at w TS_START sy else sy)"
  using assms
proof (cases rule: at_worker_cases)
  case idle
  then show ?thesis using assms by (simp add: StartTransaction_def begin_at_def txn_fields ctx_all_set)
next
  case active
  then show ?thesis by (simp add: StartTransaction_def txn_fields fun_upd_idem)
qed

lemma BeginTransaction_effect:
  assumes "at_worker w sy"
  shows "\<exists>st. BeginTransaction (view w sy) = Some st \<and> put_view w st sy =
    (case ts (sys_ctx sy ! (w - 1)) of TS_IDLE \<Rightarrow> begin_at w TS_BEGIN sy
     | TS_START \<Rightarrow> retag_at w TS_BEGIN sy | _ \<Rightarrow> sy)"
  using assms
proof (cases rule: at_worker_cases)
  case idle
  then show ?thesis using assms by (simp add: BeginTransaction_def begin_at_def txn_fields ctx_all_set)
next
  case active
  then show ?thesis using assms
    by (cases "ts (sys_ctx sy ! (w - 1))") (simp_all add: BeginTransaction_def retag_at_def txn_fields fun_upd_idem)
qed

lemma EndTransaction_effect:
  assumes "at_worker w sy"
  shows "\<exists>st. EndTransaction (view w sy) = Some st \<and> put_view w st sy =
    (if ts (sys_ctx sy ! (w - 1)) = TS_IDLE then sy else retag_at w TS_COMMIT sy)"
  using assms
  by (cases rule: at_worker_cases) (use assms in \<open>simp_all add: EndTransaction_def retag_at_def txn_fields fun_upd_idem\<close>)

lemma AbortTransaction_effect:
  assumes "at_worker w sy"
  shows "\<exists>st. AbortTransaction (view w sy) = Some st \<and> put_view w st sy =
    (if ts (sys_ctx sy ! (w - 1)) = TS_IDLE then sy else retag_at w TS_ABORT sy)"
  using assms
  by (cases rule: at_worker_cases) (use assms in \<open>simp_all add: AbortTransaction_def retag_at_def txn_fields fun_upd_idem\<close>)

lemma FinishTransaction_effect:
  assumes "at_worker w sy" and "transactionID (sys_ctx sy ! (w - 1)) \<noteq> INVALID_XTID"
  shows "\<exists>st. FinishTransaction (view w sy) = Some st \<and> put_view w st sy =
    (if ts (sys_ctx sy ! (w - 1)) \<in> {TS_START, TS_COMMIT, TS_ABORT} then finish_at w sy else sy)"
  using assms(1)
proof (cases rule: at_worker_cases)
  case idle
  then show ?thesis by (simp add: FinishTransaction_def txn_fields fun_upd_idem)
next
  case active
  obtain r where "SetHighLevelTransaction (transactionID (sys_ctx sy ! (w - 1))) (sys_ids sy) =
    Some (r, (sys_ids sy)\<lparr>highLevelXtid := max (highLevelXtid (sys_ids sy)) (transactionID (sys_ctx sy ! (w - 1)))\<rparr>)"
    using SetHighLevelTransaction_max [OF assms(2), of "sys_ids sy"] by blast
  then show ?thesis using active assms(1)
    by (cases "ts (sys_ctx sy ! (w - 1))")
      (simp_all add: FinishTransaction_def finish_ctx_def finish_at_def txn_fields fun_upd_idem)
qed

lemmas txn_effects = StartTransaction_effect BeginTransaction_effect EndTransaction_effect AbortTransaction_effect

lemma txn_exec_effect:
  assumes "at_worker w sy" and "ts (sys_ctx sy ! (w - 1)) \<noteq> TS_IDLE \<longrightarrow> transactionID (sys_ctx sy ! (w - 1)) \<noteq> INVALID_XTID"
  shows "\<exists>st. txn_exec op (view w sy) = Some st \<and> txn_effect w sy (put_view w st sy)"
proof (cases op)
  case OpStart
  then show ?thesis using StartTransaction_effect [OF assms(1)]
    by (auto intro: txn_effectI split: if_splits)
next
  case OpBegin
  then show ?thesis using BeginTransaction_effect [OF assms(1)]
    by (cases "ts (sys_ctx sy ! (w - 1))") (auto simp: txn_effectI)
next
  case OpEnd
  then show ?thesis using EndTransaction_effect [OF assms(1)]
    by (auto intro: txn_effectI split: if_splits)
next
  case OpAbort
  then show ?thesis using AbortTransaction_effect [OF assms(1)]
    by (auto intro: txn_effectI split: if_splits)
next
  case OpFinish
  show ?thesis
  proof (cases "ts (sys_ctx sy ! (w - 1)) = TS_IDLE")
    case True
    then have "sys_my sy w = None" using assms(1) by (simp add: at_worker_def attached_def)
    then have "FinishTransaction (view w sy) = Some (view w sy)" by (simp add: FinishTransaction_def view_def)
    then show ?thesis using OpFinish by (simp add: eff_none)
  next
    case False
    then show ?thesis using OpFinish FinishTransaction_effect [OF assms(1)] assms(2)
      by (auto simp: txn_effectI split: if_splits)
  qed
qed


subsection \<open>The invariant\<close>

lemma running_begin:
  assumes "at_worker w sy" "ts (sys_ctx sy ! (w - 1)) = TS_IDLE" "s \<noteq> TS_IDLE"
  shows "running (begin_at w s sy) = insert (nextTransactionId (sys_ids sy)) (running sy)"
  using assms unfolding running_def begin_at_def at_worker_def
  by (auto simp: nth_list_update) (metis Suc_le_lessD Suc_pred diff_less_Suc le_neq_implies_less less_imp_diff_less)+

lemma running_retag:
  assumes "at_worker w sy" "ts (sys_ctx sy ! (w - 1)) \<noteq> TS_IDLE" "s \<noteq> TS_IDLE"
  shows "running (retag_at w s sy) = running sy"
  using assms unfolding running_def retag_at_def at_worker_def by (auto simp: nth_list_update) metis+

lemma running_finish:
  assumes "at_worker w sy" "ts (sys_ctx sy ! (w - 1)) \<noteq> TS_IDLE" "ids_ok k sy"
  shows "running (finish_at w sy) = running sy - {transactionID (sys_ctx sy ! (w - 1))}"
proof -
  have "w - 1 < length (sys_ctx sy)" using assms(1) by (auto simp: at_worker_def)
  then show ?thesis using assms(2,3) unfolding running_def finish_at_def ids_ok_def ids_distinct_def
    by (auto simp: nth_list_update) metis
qed


lemma attached_other:
  assumes "w \<noteq> v" "1 \<le> v" "1 \<le> w"
  shows "attached v (begin_at w s sy) = attached v sy" "attached v (retag_at w s sy) = attached v sy"
    "attached v (finish_at w sy) = attached v sy"
proof -
  have "w - 1 \<noteq> v - 1" using assms by auto
  then show "attached v (begin_at w s sy) = attached v sy" "attached v (retag_at w s sy) = attached v sy"
    "attached v (finish_at w sy) = attached v sy"
    using assms by (simp_all add: attached_def begin_at_def retag_at_def finish_at_def)
qed

lemma txn_effect_attached:
  assumes "txn_effect w sy sy'" "at_worker w sy" "1 \<le> v" "attached v sy"
  shows "attached v sy'"
proof (cases "v = w")
  case False
  then show ?thesis using assms by (auto elim!: txn_effect.cases simp: attached_other at_worker_def)
next
  case True
  have "w - 1 < length (sys_ctx sy)" "attached w sy" using assms(2) by (auto simp: at_worker_def)
  then show ?thesis using assms(1) True
    by (auto elim!: txn_effect.cases simp: attached_def begin_at_def retag_at_def finish_at_def split: if_splits)
qed

lemma length_effect:
  assumes "txn_effect w sy sy'"
  shows "length (sys_ctx sy') = length (sys_ctx sy)"
  using assms by (auto elim!: txn_effect.cases simp: begin_at_def retag_at_def finish_at_def)

lemma ids_distinct_update:
  assumes "ids_distinct sy" "i < length (sys_ctx sy)" "sys_ctx sy' = (sys_ctx sy)[i := c]"
    and "ts c = TS_IDLE \<or> (ts (sys_ctx sy ! i) \<noteq> TS_IDLE \<and> transactionID c = transactionID (sys_ctx sy ! i)) \<or>
      transactionID c \<notin> running sy"
  shows "ids_distinct sy'"
  unfolding ids_distinct_def
proof (intro allI impI)
  fix a b
  assume ab: "a < length (sys_ctx sy')" "b < length (sys_ctx sy')" "a \<noteq> b" "ts (sys_ctx sy' ! a) \<noteq> TS_IDLE"
    "ts (sys_ctx sy' ! b) \<noteq> TS_IDLE"
  have new: "transactionID c \<noteq> transactionID (sys_ctx sy ! j)"
    if "ts c \<noteq> TS_IDLE" "j < length (sys_ctx sy)" "j \<noteq> i" "ts (sys_ctx sy ! j) \<noteq> TS_IDLE" for j
  proof -
    have "transactionID (sys_ctx sy ! j) \<in> running sy" using that by (auto simp: running_def)
    then show ?thesis using assms(1,2,4) that by (auto simp: ids_distinct_def)
  qed
  show "transactionID (sys_ctx sy' ! a) \<noteq> transactionID (sys_ctx sy' ! b)"
  proof (cases "a = i \<or> b = i")
    case True
    then show ?thesis using ab assms(2,3) new [of a] new [of b] by (auto simp: nth_list_update)
  next
    case False
    then show ?thesis using ab assms(1,3) by (auto simp: ids_distinct_def)
  qed
qed


lemma unat_Suc64:
  assumes "unat (x::u64) < 2 ^ 64 - 1"
  shows "unat (x + 1) = Suc (unat x)"
  using assms by (simp add: unat_word_ariths)

lemma ids_ok_begin:
  assumes "at_worker w sy" "ts (sys_ctx sy ! (w - 1)) = TS_IDLE" "s \<noteq> TS_IDLE" "ids_ok k sy" "Suc k < 2 ^ 64 - 1"
  shows "ids_ok (Suc k) (begin_at w s sy)"
proof -
  let ?n = "nextTransactionId (sys_ids sy)" and ?sy = "begin_at w s sy"
  have n: "nextTransactionId (sys_ids ?sy) = ?n + 1" "highLevelXtid (sys_ids ?sy) = highLevelXtid (sys_ids sy)"
    by (simp_all add: begin_at_def)
  have u: "unat (?n + 1) = Suc (unat ?n)" using assms(4,5) by (intro unat_Suc64) (simp add: ids_ok_def)
  have less: "x < ?n + 1 \<longleftrightarrow> x \<le> ?n" for x using u by (simp add: word_less_nat_alt word_le_nat_alt less_Suc_eq_le)
  have run: "running ?sy = insert ?n (running sy)" using assms(1-3) by (rule running_begin)
  have fresh: "?n \<notin> running sy" using assms(4) by (auto simp: ids_ok_def)
  have fin: "finished ?sy = finished sy"
    using fresh by (auto simp: finished_def run n(1) less order.order_iff_strict)
  have "ids_distinct ?sy"
    by (rule ids_distinct_update [of sy "w - 1" ?sy]) (use assms(1,4) fresh in \<open>auto simp: ids_ok_def begin_at_def at_worker_def\<close>)
  moreover have "unat (?n + 1) \<le> Suc (Suc k)" "0 < ?n + 1" "highLevelXtid (sys_ids sy) < ?n + 1"
    using assms(4) u by (simp_all add: ids_ok_def less word_less_nat_alt [of 0] order.strict_implies_order)
  moreover have "\<forall>x\<in>running ?sy. 0 < x \<and> x < ?n + 1"
    using assms(4) unfolding run less by (auto simp: ids_ok_def order.strict_implies_order)
  moreover have "\<forall>x\<in>finished ?sy. x \<le> highLevelXtid (sys_ids sy)" using assms(4) unfolding fin by (simp add: ids_ok_def)
  ultimately show ?thesis unfolding ids_ok_def n by blast
qed

lemma ids_ok_retag:
  assumes "at_worker w sy" "ts (sys_ctx sy ! (w - 1)) \<noteq> TS_IDLE" "s \<noteq> TS_IDLE" "ids_ok k sy"
  shows "ids_ok (Suc k) (retag_at w s sy)"
proof -
  have i: "sys_ids (retag_at w s sy) = sys_ids sy" by (simp add: retag_at_def)
  have run: "running (retag_at w s sy) = running sy" using assms(1-3) by (rule running_retag)
  have "ids_distinct (retag_at w s sy)"
    by (rule ids_distinct_update [of sy "w - 1"]) (use assms in \<open>auto simp: ids_ok_def retag_at_def at_worker_def\<close>)
  moreover have "finished (retag_at w s sy) = finished sy" by (simp add: finished_def run i)
  ultimately show ?thesis using assms(4) unfolding ids_ok_def i run by simp
qed

lemma ids_ok_finish:
  assumes "at_worker w sy" "ts (sys_ctx sy ! (w - 1)) \<noteq> TS_IDLE" "ids_ok k sy"
  shows "ids_ok (Suc k) (finish_at w sy)"
proof -
  let ?x = "transactionID (sys_ctx sy ! (w - 1))" and ?sy = "finish_at w sy"
  have i: "nextTransactionId (sys_ids ?sy) = nextTransactionId (sys_ids sy)"
    "highLevelXtid (sys_ids ?sy) = max (highLevelXtid (sys_ids sy)) ?x"
    by (simp_all add: finish_at_def)
  have run: "running ?sy = running sy - {?x}" using assms by (rule running_finish)
  have x: "?x \<in> running sy" using assms(1,2) by (auto simp: running_def at_worker_def intro!: exI [of _ "w - 1"])
  have fin: "finished ?sy = insert ?x (finished sy)"
    using x assms(3) by (auto simp: finished_def run i(1) ids_ok_def)
  have "ids_distinct ?sy"
    by (rule ids_distinct_update [of sy "w - 1"]) (use assms in \<open>auto simp: ids_ok_def finish_at_def at_worker_def\<close>)
  moreover have "\<forall>y\<in>finished ?sy. y \<le> max (highLevelXtid (sys_ids sy)) ?x"
    using assms(3) unfolding fin by (auto simp: ids_ok_def le_max_iff_disj)
  ultimately show ?thesis using assms(3) x unfolding ids_ok_def i run by simp
qed

lemma ids_ok_effect:
  assumes "txn_effect w sy sy'" "at_worker w sy" "ids_ok k sy" "Suc k < 2 ^ 64 - 1"
  shows "ids_ok (Suc k) sy'"
  using assms(1)
proof cases
  case eff_none
  then show ?thesis using assms(3) by (auto simp: ids_ok_def)
qed (use assms ids_ok_begin ids_ok_retag ids_ok_finish in \<open>simp_all\<close>)

lemma txn_inv_init: "txn_inv n 0 (txn_init n)"
proof -
  have idle: "ts (sys_ctx (txn_init n) ! i) = TS_IDLE" if "i < n" for i
    using that by (simp add: txn_init_def InitTransactContext_def)
  have len: "length (sys_ctx (txn_init n)) = n" by (simp add: txn_init_def InitTransactContext_def)
  have run: "running (txn_init n) = {}" using idle len by (auto simp: running_def)
  have fin: "finished (txn_init n) = {0}" by (auto simp: finished_def run) (simp_all add: txn_init_def transactionInfo_def)
  show ?thesis using len idle
    by (auto simp: txn_inv_def attached_def ids_ok_def ids_distinct_def run fin) (simp_all add: txn_init_def transactionInfo_def)
qed

lemma running_below_invalid:
  assumes "ids_ok k sy" "i < length (sys_ctx sy)" "ts (sys_ctx sy ! i) \<noteq> TS_IDLE"
  shows "transactionID (sys_ctx sy ! i) \<noteq> INVALID_XTID"
proof -
  have "transactionID (sys_ctx sy ! i) < nextTransactionId (sys_ids sy)"
    using assms by (auto simp: ids_ok_def running_def)
  then show ?thesis unfolding INVALID_XTID_def using word_order.extremum_strict by metis
qed

lemma txn_inv_step:
  assumes "txn_inv n k sy" "1 \<le> w" "w \<le> n" "txn_exec op (view w sy) = Some st" "Suc k < 2 ^ 64 - 1"
  shows "txn_inv n (Suc k) (put_view w st sy)"
proof -
  have aw: "at_worker w sy" and ids: "ids_ok k sy" using assms by (simp_all add: txn_inv_def at_worker_def)
  have "txn_effect w sy (put_view w st sy)"
    using txn_exec_effect [OF aw, of op] running_below_invalid [OF ids, of "w - 1"] assms aw
    by (auto simp: at_worker_def)
  then show ?thesis
    using assms aw ids txn_effect_attached length_effect ids_ok_effect unfolding txn_inv_def by metis
qed

lemma txn_reach_inv:
  assumes "txn_reach n k sy" "k < 2 ^ 64 - 1"
  shows "txn_inv n k sy"
  using assms
proof (induction rule: txn_reach.induct)
  case txn_start
  show ?case by (rule txn_inv_init)
next
  case (txn_step k sy w op st)
  then show ?case by (auto intro: txn_inv_step)
qed


section \<open>What a snapshot sees\<close>

lemma my_id_view:
  assumes "txn_inv n k sy" "1 \<le> w" "w \<le> n"
  shows "my_id (view w sy) =
    (if ts (sys_ctx sy ! (w - 1)) = TS_IDLE then None else Some (transactionID (sys_ctx sy ! (w - 1))))"
    and "my_valid (view w sy)"
proof -
  have aw: "at_worker w sy" using assms by (simp add: txn_inv_def at_worker_def)
  show "my_id (view w sy) = (if ts (sys_ctx sy ! (w - 1)) = TS_IDLE then None else Some (transactionID (sys_ctx sy ! (w - 1))))"
    using aw by (cases rule: at_worker_cases) (use aw in \<open>simp_all add: my_id_def view_def\<close>)
  show "my_valid (view w sy)" using aw by (cases rule: at_worker_cases) (use assms in \<open>auto simp: my_valid_def view_def txn_inv_def\<close>)
qed

text \<open>
  The scan of a worker \<open>w\<close>: it has read the level in \<open>sy\<close>, and the contexts \<open>cs\<close> one after the other; \<open>j\<close> operations of other workers, each to its end, have happened in between and
  led to \<open>sy'\<close>. A context is read at once.
\<close>

inductive scans :: "nat \<Rightarrow> nat \<Rightarrow> txnsys \<Rightarrow> nat \<Rightarrow> TransactionContext list \<Rightarrow> txnsys \<Rightarrow> bool" for n w sy where
  scan_level: "scans n w sy 0 [] sy"
| scan_read: "scans n w sy j cs sy' \<Longrightarrow> length cs < length (sys_ctx sy') \<Longrightarrow> scans n w sy j (cs @ [sys_ctx sy' ! length cs]) sy'"
| scan_other: "scans n w sy j cs sy' \<Longrightarrow> 1 \<le> v \<Longrightarrow> v \<le> n \<Longrightarrow> v \<noteq> w \<Longrightarrow> txn_exec op (view v sy') = Some st \<Longrightarrow>
    scans n w sy (Suc j) cs (put_view v st sy')"

text \<open>What holds during the scan: every transaction of a context that was read, running now and not above the level, was read as running; no finished one was.\<close>

definition scan_inv :: "txnsys \<Rightarrow> TransactionContext list \<Rightarrow> txnsys \<Rightarrow> bool" where
  "scan_inv sy cs sy' \<longleftrightarrow> length cs \<le> length (sys_ctx sy') \<and> length (sys_ctx sy') = length (sys_ctx sy) \<and> finished sy \<subseteq> finished sy' \<and>
     nextTransactionId (sys_ids sy) \<le> nextTransactionId (sys_ids sy') \<and>
     (\<forall>i < length cs. ts (sys_ctx sy' ! i) \<noteq> TS_IDLE \<longrightarrow> transactionID (sys_ctx sy' ! i) \<le> highLevelXtid (sys_ids sy) \<longrightarrow>
        ts (cs ! i) \<noteq> TS_IDLE \<and> transactionID (cs ! i) = transactionID (sys_ctx sy' ! i)) \<and>
     (\<forall>c \<in> set cs. ts c \<noteq> TS_IDLE \<longrightarrow> transactionID c \<notin> finished sy)"

lemma finished_effect:
  assumes "txn_effect v sy sy'" "at_worker v sy" "ids_ok k sy" "Suc k < 2 ^ 64 - 1"
  shows "finished sy \<subseteq> finished sy'" "nextTransactionId (sys_ids sy) \<le> nextTransactionId (sys_ids sy')"
proof -
  let ?n = "nextTransactionId (sys_ids sy)"
  have u: "unat (?n + 1) = Suc (unat ?n)" using assms(3,4) by (intro unat_Suc64) (simp add: ids_ok_def)
  have le: "?n \<le> ?n + 1" using u by (simp add: word_le_nat_alt)
  show "?n \<le> nextTransactionId (sys_ids sy')"
    using assms(1) by cases (use le in \<open>simp_all add: begin_at_def retag_at_def finish_at_def\<close>)
  show "finished sy \<subseteq> finished sy'"
    using assms(1)
  proof cases
    case (eff_begin s)
    have "nextTransactionId (sys_ids sy') = ?n + 1" using eff_begin(1) by (simp add: begin_at_def)
    then show ?thesis using running_begin [OF assms(2) eff_begin(2,3)] le eff_begin(1) by (auto simp: finished_def)
  next
    case (eff_retag s)
    have "nextTransactionId (sys_ids sy') = ?n" using eff_retag(1) by (simp add: retag_at_def)
    then show ?thesis using running_retag [OF assms(2) eff_retag(2,3)] eff_retag(1) by (simp add: finished_def)
  next
    case eff_finish
    have "nextTransactionId (sys_ids sy') = ?n" using eff_finish(1) by (simp add: finish_at_def)
    then show ?thesis using running_finish [OF assms(2) eff_finish(2) assms(3)] eff_finish(1) by (auto simp: finished_def)
  qed simp
qed

text \<open>What an operation does to a context: it leaves it alone, keeps its id, starts a new id or ends it.\<close>

lemma context_effect:
  assumes "txn_effect v sy sy'" "at_worker v sy" "i < length (sys_ctx sy)" "ts (sys_ctx sy' ! i) \<noteq> TS_IDLE"
  shows "ts (sys_ctx sy ! i) \<noteq> TS_IDLE \<and> transactionID (sys_ctx sy' ! i) = transactionID (sys_ctx sy ! i) \<or>
    transactionID (sys_ctx sy' ! i) = nextTransactionId (sys_ids sy)"
  using assms(1)
  by cases (use assms(2-4) in \<open>auto simp: begin_at_def retag_at_def finish_at_def at_worker_def nth_list_update split: if_splits\<close>)

lemma scan_inv_effect:
  assumes inv: "scan_inv sy cs sy'" and eff: "txn_effect v sy' sy''" "at_worker v sy'" and ids: "ids_ok k sy'" "Suc k < 2 ^ 64 - 1"
    and level: "highLevelXtid (sys_ids sy) < nextTransactionId (sys_ids sy)"
  shows "scan_inv sy cs sy''"
proof -
  have "ts (cs ! i) \<noteq> TS_IDLE \<and> transactionID (cs ! i) = transactionID (sys_ctx sy'' ! i)"
    if i: "i < length cs" "ts (sys_ctx sy'' ! i) \<noteq> TS_IDLE" "transactionID (sys_ctx sy'' ! i) \<le> highLevelXtid (sys_ids sy)" for i
  proof -
    have "i < length (sys_ctx sy')" "nextTransactionId (sys_ids sy) \<le> nextTransactionId (sys_ids sy')" using inv i(1) by (simp_all add: scan_inv_def)
    moreover have "transactionID (sys_ctx sy'' ! i) \<noteq> nextTransactionId (sys_ids sy')"
      using calculation(2) level i(3) by auto
    ultimately show ?thesis using context_effect [OF eff _ i(2)] inv i(1,3) by (auto simp: scan_inv_def)
  qed
  then show ?thesis
    using inv finished_effect [OF eff ids] length_effect [OF eff(1)] by (auto simp: scan_inv_def)
qed

lemma scans_inv:
  assumes "scans n w sy j cs sy'" "txn_inv n k sy" "k + j < 2 ^ 64 - 1"
  shows "txn_inv n (k + j) sy' \<and> scan_inv sy cs sy'"
  using assms
proof (induction rule: scans.induct)
  case scan_level
  then show ?case by (simp add: scan_inv_def)
next
  case (scan_read j cs sy')
  let ?c = "sys_ctx sy' ! length cs"
  have ih: "txn_inv n (k + j) sy'" "scan_inv sy cs sy'" using scan_read.IH scan_read.prems by simp_all
  have "transactionID ?c \<notin> finished sy" if "ts ?c \<noteq> TS_IDLE"
  proof -
    have "transactionID ?c \<in> running sy'" using that scan_read.hyps(2) by (auto simp: running_def)
    then show ?thesis using ih(2) by (auto simp: scan_inv_def finished_def)
  qed
  then show ?case using ih scan_read.hyps(2) by (auto simp: scan_inv_def nth_append less_Suc_eq)
next
  case (scan_other j cs sy' v op st)
  have ih: "txn_inv n (k + j) sy'" "scan_inv sy cs sy'" using scan_other.IH scan_other.prems by simp_all
  have aw: "at_worker v sy'" and ids: "ids_ok (k + j) sy'" using ih(1) scan_other.hyps by (simp_all add: txn_inv_def at_worker_def)
  have eff: "txn_effect v sy' (put_view v st sy')"
    using txn_exec_effect [OF aw, of op] running_below_invalid [OF ids, of "v - 1"] scan_other.hyps aw
    by (auto simp: at_worker_def)
  have "highLevelXtid (sys_ids sy) < nextTransactionId (sys_ids sy)" using scan_other.prems(1) by (simp add: txn_inv_def ids_ok_def)
  then have "scan_inv sy cs (put_view v st sy')"
    using scan_inv_effect [OF ih(2) eff aw ids] scan_other.prems(2) by simp
  moreover have "txn_inv n (Suc (k + j)) (put_view v st sy')"
    using txn_inv_step [OF ih(1) scan_other.hyps(2,3,5)] scan_other.prems(2) by simp
  ultimately show ?case by simp
qed

lemma level_Suc:
  assumes "ids_ok k sy"
  shows "highLevelXtid (sys_ids sy) + 1 \<le> x \<longleftrightarrow> highLevelXtid (sys_ids sy) < x"
proof -
  let ?h = "highLevelXtid (sys_ids sy)" and ?n = "nextTransactionId (sys_ids sy)"
  have "?h < ?n" using assms by (simp add: ids_ok_def)
  then have "unat ?h < 2 ^ 64 - 1" using unsigned_less [of ?n, where ?'a = nat] by (simp add: word_less_nat_alt)
  then have "unat (?h + 1) = Suc (unat ?h)" by (rule unat_Suc64)
  then show ?thesis by (simp add: word_le_nat_alt word_less_nat_alt Suc_le_eq)
qed

lemma snapshot_between:
  assumes inv: "txn_inv n k sy" and sc: "scans n w sy j cs sy'" "length cs = n" and k: "k + j < 2 ^ 64 - 1" and cb: "clean_buffer sn (view w sy)"
  shows "\<exists>sn'. snapshot_reading sn (highLevelXtid (sys_ids sy)) me cs = Some sn' \<and>
    (\<forall>x. me \<noteq> Some x \<longrightarrow> (x \<in> finished sy \<longrightarrow> TupleVisibililtySnapshot x sn' = OUT_SNAPSHOT) \<and>
      (x \<notin> finished sy' \<longrightarrow> TupleVisibililtySnapshot x sn' = IN_SNAPSHOT))"
proof -
  let ?h = "highLevelXtid (sys_ids sy)"
  have inv': "txn_inv n (k + j) sy'" and sinv: "scan_inv sy cs sy'" using scans_inv [OF sc(1) inv k] by simp_all
  have ids: "ids_ok k sy" and len: "length (sys_ctx sy) = n" using inv by (simp_all add: txn_inv_def)
  obtain sn' where sn': "snapshot_reading sn ?h me cs = Some sn'"
    "\<And>x. TupleVisibililtySnapshot x sn' = (if ?h + 1 \<le> x \<or> x \<in> transactionID ` set (others me cs) then IN_SNAPSHOT else OUT_SNAPSHOT)"
    using snapshot_separates [OF cb, of cs me] sc(2) len by (auto simp: view_def)
  have "TupleVisibililtySnapshot x sn' = OUT_SNAPSHOT" if x: "x \<in> finished sy" for x
  proof -
    have "x \<le> ?h" using ids x by (simp add: ids_ok_def)
    moreover have "x \<notin> transactionID ` set (others me cs)" using sinv x by (auto simp: scan_inv_def others_def)
    ultimately show ?thesis using sn'(2) [of x] level_Suc [OF ids, of x] by simp
  qed
  moreover have "TupleVisibililtySnapshot x sn' = IN_SNAPSHOT" if x: "x \<notin> finished sy'" "me \<noteq> Some x" for x
  proof (cases "?h < x")
    case True
    then show ?thesis using sn'(2) [of x] level_Suc [OF ids, of x] by simp
  next
    case False
    have "?h < nextTransactionId (sys_ids sy)" using ids by (simp add: ids_ok_def)
    then have "x < nextTransactionId (sys_ids sy')" using False sinv by (auto simp: scan_inv_def not_less)
    then have "x \<in> running sy'" using x(1) by (simp add: finished_def)
    then obtain i where i: "i < length (sys_ctx sy')" "ts (sys_ctx sy' ! i) \<noteq> TS_IDLE" "x = transactionID (sys_ctx sy' ! i)"
      by (auto simp: running_def)
    have "i < length cs" using i(1) sc(2) inv' by (simp add: txn_inv_def)
    then have "cs ! i \<in> set (others me cs)" "x = transactionID (cs ! i)"
      using sinv i(2,3) False x(2) by (auto simp: scan_inv_def others_def not_less)
    then show ?thesis using sn'(2) [of x] by auto
  qed
  ultimately show ?thesis using sn'(1) by blast
qed

text \<open>Without operations of others the scan reads the contexts as they are.\<close>

lemma scans_alone: "i \<le> length (sys_ctx sy) \<Longrightarrow> scans n w sy 0 (take i (sys_ctx sy)) sy"
proof (induction i)
  case 0
  then show ?case by (simp add: scan_level)
next
  case (Suc i)
  then show ?case using scan_read [of n w sy 0 "take i (sys_ctx sy)" sy] by (simp add: take_Suc_conv_app_nth)
qed

lemma scans_unmoved: "scans n w sy j cs sy' \<Longrightarrow> j = 0 \<Longrightarrow> sy' = sy \<and> cs = take (length cs) (sys_ctx sy)"
proof (induction rule: scans.induct)
  case (scan_read j cs sy')
  then show ?case by (metis append_take_drop_id length_append_singleton take_Suc_conv_app_nth)
qed simp_all

text \<open>A run of operations of the workers, as a list of (worker, operation).\<close>

fun txn_run :: "(nat \<times> txn_op) list \<Rightarrow> txnsys \<Rightarrow> txnsys option" where
  "txn_run [] sy = Some sy"
| "txn_run ((w, op) # evs) sy = do { st \<leftarrow> txn_exec op (view w sy); txn_run evs (put_view w st sy) }"

lemma txn_run_reach:
  assumes "txn_reach n k sy" "txn_run evs sy = Some sy'" "\<forall>(w, op)\<in>set evs. 1 \<le> w \<and> w \<le> n"
  shows "txn_reach n (k + length evs) sy'"
  using assms
proof (induction evs arbitrary: k sy)
  case (Cons e evs)
  obtain w op where e: "e = (w, op)" by (cases e)
  obtain st where st: "txn_exec op (view w sy) = Some st" "txn_run evs (put_view w st sy) = Some sy'"
    using Cons.prems(2) e by (auto simp: bind_eq_Some_conv)
  have "txn_reach n (Suc k) (put_view w st sy)" using Cons.prems e st(1) by (auto intro: txn_step)
  then show ?case using Cons.IH [of "Suc k"] st(2) Cons.prems(3) by auto
qed simp

lemma set_high_now: "set_high_loop xid cell cell = Some (cell, if cell < xid then xid else cell)"
  by (subst set_high_loop.simps) (auto simp: atomic_compare_exchange64_def)

lemmas txn_eval = txn_run.simps txn_exec.simps StartTransaction_def AbortTransaction_def FinishTransaction_def
  finish_ctx_def txn_fields SetHighLevelTransaction_def XTID_ISINVALID_def INVALID_XTID_def set_high_now
  arr_get_def arr_set_def

text \<open>
  Four workers that start a transaction each, and the state after the first worker has finished
  its transaction and started another.
\<close>

definition four_started :: txnsys where
  "four_started = \<lparr>sys_ids = \<lparr>nextTransactionId = 5, lowLevelXtid = 0, highLevelXtid = 0\<rparr>,
     sys_ctx = [\<lparr>ts = TS_START, transactionID = 2, tc_snapshot = False\<rparr>,
                \<lparr>ts = TS_START, transactionID = 4, tc_snapshot = False\<rparr>,
                \<lparr>ts = TS_START, transactionID = 1, tc_snapshot = False\<rparr>,
                \<lparr>ts = TS_START, transactionID = 3, tc_snapshot = False\<rparr>],
     sys_my = [3 \<mapsto> 2, 1 \<mapsto> 0, 4 \<mapsto> 3, 2 \<mapsto> 1]\<rparr>"

definition one_restarted :: txnsys where
  "one_restarted = \<lparr>sys_ids = \<lparr>nextTransactionId = 6, lowLevelXtid = 0, highLevelXtid = 2\<rparr>,
     sys_ctx = [\<lparr>ts = TS_START, transactionID = 5, tc_snapshot = False\<rparr>,
                \<lparr>ts = TS_START, transactionID = 4, tc_snapshot = False\<rparr>,
                \<lparr>ts = TS_START, transactionID = 1, tc_snapshot = False\<rparr>,
                \<lparr>ts = TS_START, transactionID = 3, tc_snapshot = False\<rparr>],
     sys_my = [3 \<mapsto> 2, 1 \<mapsto> 0, 4 \<mapsto> 3, 2 \<mapsto> 1]\<rparr>"

lemma four_started_run: "txn_run [(3, OpStart), (1, OpStart), (4, OpStart), (2, OpStart)] (txn_init 4) = Some four_started"
  by (simp add: four_started_def txn_eval txn_init_def InitTransactContext_def transactionInfo_def eval_nat_numeral)

lemma one_restarted_run: "txn_run [(1, OpFinish), (1, OpStart)] four_started = Some one_restarted"
  by (simp add: four_started_def one_restarted_def txn_eval fun_upd_def fun_eq_iff)

lemma four_started_reach: "txn_reach 4 4 four_started"
  using txn_run_reach [OF txn_start four_started_run] by (simp add: eval_nat_numeral)

lemma one_restarted_reach: "txn_reach 4 6 one_restarted"
  using txn_run_reach [OF four_started_reach one_restarted_run] by (simp add: eval_nat_numeral)

lemma running_list: "running sy = transactionID ` set (filter (\<lambda>c. ts c \<noteq> TS_IDLE) (sys_ctx sy))"
  by (auto simp: running_def in_set_conv_nth image_iff)

text \<open>Worker 1 reads two contexts, worker 3 finishes its transaction, and worker 1 reads the other two.\<close>

definition three_finished :: txnsys where
  "three_finished = \<lparr>sys_ids = \<lparr>nextTransactionId = 5, lowLevelXtid = 0, highLevelXtid = 1\<rparr>,
     sys_ctx = [\<lparr>ts = TS_START, transactionID = 2, tc_snapshot = False\<rparr>,
                \<lparr>ts = TS_START, transactionID = 4, tc_snapshot = False\<rparr>,
                \<lparr>ts = TS_IDLE, transactionID = 1, tc_snapshot = False\<rparr>,
                \<lparr>ts = TS_START, transactionID = 3, tc_snapshot = False\<rparr>],
     sys_my = [1 \<mapsto> 0, 4 \<mapsto> 3, 2 \<mapsto> 1]\<rparr>"

lemma sample_scan: "scans 4 1 four_started 1 (sys_ctx three_finished) three_finished"
proof -
  have "scans 4 1 four_started 0 (take 2 (sys_ctx four_started)) four_started" by (rule scans_alone) (simp add: four_started_def)
  moreover have "txn_exec OpFinish (view 3 four_started) = Some (view 3 three_finished)"
    by (simp add: four_started_def three_finished_def txn_eval)
  ultimately have "scans 4 1 four_started (Suc 0) (take 2 (sys_ctx four_started)) (put_view 3 (view 3 three_finished) four_started)"
    by (intro scan_other [where op = OpFinish]) simp_all
  moreover have "put_view 3 (view 3 three_finished) four_started = three_finished"
    by (simp add: put_view_def view_def four_started_def three_finished_def fun_eq_iff)
  ultimately have "scans 4 1 four_started 1 (take 2 (sys_ctx three_finished)) three_finished"
    by (simp add: four_started_def three_finished_def)
  from scan_read [OF scan_read [OF this]] show ?thesis by (simp add: three_finished_def)
qed

lemma snapshot4: "CreateSnapshot 4 = \<lparr>highLevel = 0, lowLevel = 0, xidNum = 0, xidArrMax = 4, runningXidArr = [0, 0, 0, 0]\<rparr>"
  by (simp add: CreateSnapshot_def eval_nat_numeral)

lemma clean_first: "clean_buffer (CreateSnapshot 4) (view 1 four_started)"
  by (simp add: clean_buffer_def CreateSnapshot_def view_def four_started_def)

lemmas snapshot_eval = GetSnapshot_def GetActiveXtids_def active_xtids_def own_id_def GetHighLevelTransaction_def CreateSnapshot_def my_ctx_def
  view_def arr_get_def arr_set_def


text \<open>
  \<^verbatim>\<open>GetTransactionState\<close> answers TRANS_COMMITED for every id, so the row of an aborted
  insert is visible to every later transaction.
\<close>

lemma aborted_insert_visible:
  "\<exists>sy sn. txn_run [(1, OpStart), (1, OpAbort), (1, OpFinish), (2, OpStart)] (txn_init 2) = Some sy \<and>
     GetSnapshot (CreateSnapshot 2) (view 2 sy) = Some sn \<and>
     TupleVisibilitySatisfy \<lparr>tmin = 1, tmax = INVALID_XTID, tinfo = CLEAN_XTID, cid = 0,
       undo = \<lparr>pageIndex = \<lparr>po_segno = 0, po_pageno = 0\<rparr>, itemIndex = 0\<rparr>\<rparr> (Some sn) (view 2 sy) = Some TUPLE_VISIBLE"
proof -
  let ?sy = "\<lparr>sys_ids = \<lparr>nextTransactionId = 3, lowLevelXtid = 0, highLevelXtid = 1\<rparr>,
    sys_ctx = [\<lparr>ts = TS_IDLE, transactionID = 1, tc_snapshot = False\<rparr>, \<lparr>ts = TS_START, transactionID = 2, tc_snapshot = False\<rparr>],
    sys_my = [2 \<mapsto> 1]\<rparr>"
  let ?sn = "\<lparr>highLevel = 2, lowLevel = 2, xidNum = 0, xidArrMax = 2, runningXidArr = [0, 0]\<rparr>"
  have init: "txn_init 2 = \<lparr>sys_ids = \<lparr>nextTransactionId = 1, lowLevelXtid = 0, highLevelXtid = 0\<rparr>,
    sys_ctx = [\<lparr>ts = TS_IDLE, transactionID = 0, tc_snapshot = False\<rparr>, \<lparr>ts = TS_IDLE, transactionID = 0, tc_snapshot = False\<rparr>],
    sys_my = (\<lambda>_. None)\<rparr>"
    by (simp add: txn_init_def InitTransactContext_def transactionInfo_def eval_nat_numeral)
  have "txn_run [(1, OpStart), (1, OpAbort), (1, OpFinish), (2, OpStart)] (txn_init 2) = Some ?sy"
    unfolding init by (simp add: txn_eval fun_upd_def fun_eq_iff)
  moreover have "CreateSnapshot 2 = ?sn\<lparr>highLevel := 0, lowLevel := 0\<rparr>" by (simp add: CreateSnapshot_def eval_nat_numeral)
  then have "GetSnapshot (CreateSnapshot 2) (view 2 ?sy) = Some ?sn" by (simp add: snapshot_eval Let_def)
  ultimately show ?thesis
    by (simp add: TupleVisibilitySatisfy_def GetCurrentTransactionID_def view_def my_ctx_def arr_get_def XTID_ISINVALID_def
        INVALID_XTID_def TupleVisibililtySnapshot_def XtidIsInSnapshot_def GetTransactionState_def)
qed

section \<open>A transaction that is about to start\<close>

text \<open>
  The operations of \<open>scans\<close> run to their ends. \<^verbatim>\<open>StartTransaction\<close> does not: it marks its context, fetches an id and stores it, without a lock. \<open>start_fetched\<close> is its part
  before the id is stored.
\<close>

definition start_fetched :: "txnst \<Rightarrow> (XTID \<times> txnst) option" where
  "start_fetched st = do {
     st \<leftarrow> attach st;
     st \<leftarrow> set_ctx (workerIndex st - 1) (\<lambda>c. c\<lparr>ts := TS_START\<rparr>) st;
     let (x, ids) = GetNewTransactionID (tx_ids st);
     Some (x, st\<lparr>tx_ids := ids\<rparr>) }"

definition store_id :: "XTID \<Rightarrow> txnst \<Rightarrow> txnst option" where
  "store_id x st = set_ctx (workerIndex st - 1) (\<lambda>c. c\<lparr>transactionID := x\<rparr>) st"

lemma StartTransaction_split:
  assumes "at_worker w sy" "sys_my sy w = None"
  shows "StartTransaction (view w sy) = do { (x, st) \<leftarrow> start_fetched (view w sy); store_id x st }"
  using assms(1)
  by (cases rule: at_worker_cases)
    (use assms in \<open>simp_all add: StartTransaction_def start_fetched_def store_id_def txn_fields attached_def at_worker_def\<close>)

text \<open>
  Worker 1 has fetched the id 1 and not stored it; worker 2 starts and finishes transaction 2, and worker 3 takes a snapshot: it counts transaction 1, which goes on to run, as finished.
\<close>

theorem unstored_id_counts_as_finished:
  "\<exists>st sy sn st1. start_fetched (view 1 (txn_init 3)) = Some (1, st) \<and>
     txn_run [(2, OpStart), (2, OpFinish), (3, OpStart)] (put_view 1 st (txn_init 3)) = Some sy \<and>
     GetSnapshot (CreateSnapshot 3) (view 3 sy) = Some sn \<and> TupleVisibililtySnapshot 1 sn = OUT_SNAPSHOT \<and>
     store_id 1 (view 1 sy) = Some st1 \<and> GetCurrentTransactionID st1 = Some 1 \<and> GetCurrentTransactionState st1 = Some TS_START"
proof -
  let ?c = "\<lparr>ts = TS_IDLE, transactionID = 0, tc_snapshot = False\<rparr>"
  let ?sy = "\<lparr>sys_ids = \<lparr>nextTransactionId = 4, lowLevelXtid = 0, highLevelXtid = 2\<rparr>,
    sys_ctx = [?c\<lparr>ts := TS_START\<rparr>, ?c\<lparr>transactionID := 2\<rparr>, \<lparr>ts = TS_START, transactionID = 3, tc_snapshot = False\<rparr>],
    sys_my = [1 \<mapsto> 0, 3 \<mapsto> 2]\<rparr>"
  let ?st = "\<lparr>tx_ids = \<lparr>nextTransactionId = 2, lowLevelXtid = 0, highLevelXtid = 0\<rparr>, transactionContextArray = [?c\<lparr>ts := TS_START\<rparr>, ?c, ?c],
    workerIndex = 1, myTransaction = Some 0\<rparr>"
  let ?sn = "\<lparr>highLevel = 3, lowLevel = 0, xidNum = 1, xidArrMax = 3, runningXidArr = [0, 0, 0]\<rparr>"
  have init: "txn_init 3 = \<lparr>sys_ids = \<lparr>nextTransactionId = 1, lowLevelXtid = 0, highLevelXtid = 0\<rparr>, sys_ctx = [?c, ?c, ?c], sys_my = (\<lambda>_. None)\<rparr>"
    by (simp add: txn_init_def InitTransactContext_def transactionInfo_def eval_nat_numeral)
  have "start_fetched (view 1 (txn_init 3)) = Some (1, ?st)"
    unfolding init by (simp add: start_fetched_def txn_eval)
  moreover have "txn_run [(2, OpStart), (2, OpFinish), (3, OpStart)] (put_view 1 ?st (txn_init 3)) = Some ?sy"
    unfolding init by (simp add: txn_eval fun_upd_def fun_eq_iff)
  moreover have "CreateSnapshot 3 = \<lparr>highLevel = 0, lowLevel = 0, xidNum = 0, xidArrMax = 3, runningXidArr = [0, 0, 0]\<rparr>"
    by (simp add: CreateSnapshot_def eval_nat_numeral)
  then have "GetSnapshot (CreateSnapshot 3) (view 3 ?sy) = Some ?sn" by (simp add: snapshot_eval Let_def)
  moreover have "TupleVisibililtySnapshot 1 ?sn = OUT_SNAPSHOT" by (simp add: TupleVisibililtySnapshot_def XtidIsInSnapshot_def)
  moreover have "\<exists>st1. store_id 1 (view 1 ?sy) = Some st1 \<and> GetCurrentTransactionID st1 = Some 1 \<and> GetCurrentTransactionState st1 = Some TS_START"
    by (simp add: store_id_def GetCurrentTransactionID_def GetCurrentTransactionState_def txn_eval)
  ultimately show ?thesis by blast
qed

section \<open>Properties\<close>

text \<open>C21: In every state that the workers can reach before the transaction ids wrap around, the
  running transactions of two workers have different ids, and every id in use was handed out.\<close>
theorem transaction_ids_unique:
  assumes "txn_reach n k sy" and "k < 2 ^ 64 - 1"
    and "1 \<le> v" "v \<le> n" "1 \<le> w" "w \<le> n" "v \<noteq> w"
    and "GetCurrentTransactionID (view v sy) = Some x" "GetCurrentTransactionID (view w sy) = Some y"
    and "x \<noteq> INVALID_XTID"
  shows "x \<noteq> y \<and> 0 < x \<and> x < nextTransactionId (sys_ids sy)"
proof -
  have inv: "txn_inv n k sy" using assms(1,2) by (rule txn_reach_inv)
  then have l: "length (sys_ctx sy) = n" and ids: "ids_ok k sy" by (simp_all add: txn_inv_def)
  have id: "GetCurrentTransactionID (view u sy) = Some z \<Longrightarrow> z \<noteq> INVALID_XTID \<Longrightarrow>
      ts (sys_ctx sy ! (u - 1)) \<noteq> TS_IDLE \<and> z = transactionID (sys_ctx sy ! (u - 1))" if "1 \<le> u" "u \<le> n" for u z
    using my_id_view(1) [OF inv that] my_id_view(2) [OF inv that]
    by (auto simp: GetCurrentTransactionID_def my_id_def my_ctx_def split: option.splits if_splits)
  have x: "ts (sys_ctx sy ! (v - 1)) \<noteq> TS_IDLE" "x = transactionID (sys_ctx sy ! (v - 1))"
    using id [of v x] assms by auto
  have bound: "v - 1 < length (sys_ctx sy)" "w - 1 < length (sys_ctx sy)" "v - 1 \<noteq> w - 1" using assms l by auto
  then have "x \<in> running sy" using x by (auto simp: running_def)
  moreover have "x \<noteq> y"
  proof
    assume "x = y"
    then have "ts (sys_ctx sy ! (w - 1)) \<noteq> TS_IDLE" "x = transactionID (sys_ctx sy ! (w - 1))"
      using id [of w y] assms by auto
    then show False using x bound ids unfolding ids_ok_def ids_distinct_def by metis
  qed
  ultimately show ?thesis using ids by (simp add: ids_ok_def)
qed

theorem transaction_ids_unique_witness:
  "GetCurrentTransactionID (view 1 four_started) = Some 2 \<and> GetCurrentTransactionID (view 2 four_started) = Some 4 \<and> (2::XTID) \<noteq> 4 \<and>
   (0::XTID) < 2 \<and> 2 < nextTransactionId (sys_ids four_started)"
  using transaction_ids_unique [OF four_started_reach, of 1 2 2 4]
  by (simp add: GetCurrentTransactionID_def view_def four_started_def my_ctx_def arr_get_def INVALID_XTID_def)

text \<open>C13: A snapshot separates the transactions, also when other workers run operations between the reads of its unlocked scan: of the ids other than the worker's own, those of
  transactions that had finished (committed or aborted) when the scan began are outside of the snapshot, and those of transactions that are running or not started when it ends are in it.
  When no other worker runs meanwhile, \<^verbatim>\<open>GetSnapshot\<close> is this computation, and so the snapshot is exact. The buffer of the session holds no id above the level; the operations of the
  other workers and the read of one context are not interrupted.\<close>
theorem snapshot_separates_finished:
  assumes "txn_reach n k sy" and "scans n w sy j cs sy'" and "length cs = n" and "k + j < 2 ^ 64 - 1"
    and "1 \<le> w" "w \<le> n" and "clean_buffer sn (view w sy)"
  shows "\<exists>sn'. snapshot_reading sn (highLevelXtid (sys_ids sy)) (my_id (view w sy)) cs = Some sn' \<and>
    (\<forall>x. GetCurrentTransactionID (view w sy) \<noteq> Some x \<longrightarrow>
      (x \<in> finished sy \<longrightarrow> TupleVisibililtySnapshot x sn' = OUT_SNAPSHOT) \<and> (x \<notin> finished sy' \<longrightarrow> TupleVisibililtySnapshot x sn' = IN_SNAPSHOT)) \<and>
    (j = 0 \<longrightarrow> sy' = sy \<and> GetSnapshot sn (view w sy) = Some sn')"
proof -
  have inv: "txn_inv n k sy" using assms(1,4) by (intro txn_reach_inv) simp_all
  have me: "GetCurrentTransactionID (view w sy) \<noteq> Some x \<Longrightarrow> my_id (view w sy) \<noteq> Some x" for x
    by (auto simp: my_id_def GetCurrentTransactionID_def my_ctx_def split: option.splits)
  obtain sn' where sn': "snapshot_reading sn (highLevelXtid (sys_ids sy)) (my_id (view w sy)) cs = Some sn'"
    "\<forall>x. my_id (view w sy) \<noteq> Some x \<longrightarrow> (x \<in> finished sy \<longrightarrow> TupleVisibililtySnapshot x sn' = OUT_SNAPSHOT) \<and>
      (x \<notin> finished sy' \<longrightarrow> TupleVisibililtySnapshot x sn' = IN_SNAPSHOT)"
    using snapshot_between [OF inv assms(2,3,4,7), of "my_id (view w sy)"] by blast
  have "sy' = sy \<and> GetSnapshot sn (view w sy) = Some sn'" if "j = 0"
    using scans_unmoved [OF assms(2) that] assms(3) inv own_id_my_id [OF my_id_view(2) [OF inv assms(5,6)]] sn'(1)
    by (simp add: GetSnapshot_reading txn_inv_def) (simp add: view_def)
  then show ?thesis using sn' me by blast
qed

theorem snapshot_separates_finished_witness:
  "\<exists>sn'. snapshot_reading (CreateSnapshot 4) 0 (Some 2) (sys_ctx three_finished) = Some sn' \<and>
     TupleVisibililtySnapshot 0 sn' = OUT_SNAPSHOT \<and> TupleVisibililtySnapshot 3 sn' = IN_SNAPSHOT"
proof -
  have f: "(3::XTID) \<notin> finished three_finished" "(0::XTID) \<in> finished four_started"
    by (simp_all add: finished_def running_list three_finished_def four_started_def)
  have id: "GetCurrentTransactionID (view 1 four_started) = Some 2" "my_id (view 1 four_started) = Some 2" "highLevelXtid (sys_ids four_started) = 0"
    by (simp_all add: GetCurrentTransactionID_def my_id_def view_def four_started_def my_ctx_def arr_get_def)
  have "length (sys_ctx three_finished) = 4" by (simp add: three_finished_def)
  from snapshot_separates_finished [OF four_started_reach sample_scan this _ _ _ clean_first] id f show ?thesis by fastforce
qed



text \<open>C22: With the buffer that an earlier snapshot of the same session has filled, the loop of
  GetActiveXtids drops running transactions. After the four workers have started, worker 1
  takes a snapshot, finishes, starts again and takes the next one: transaction 1 is still
  running, and the snapshot treats it as finished.\<close>
theorem stale_buffer_misses_running:
  "\<exists>sn sn'. GetSnapshot (CreateSnapshot 4) (view 1 four_started) = Some sn \<and>
     txn_run [(1, OpFinish), (1, OpStart)] four_started = Some one_restarted \<and> txn_reach 4 6 one_restarted \<and>
     GetSnapshot sn (view 1 one_restarted) = Some sn' \<and> 1 \<in> running one_restarted \<and>
     TupleVisibililtySnapshot 1 sn = IN_SNAPSHOT \<and> TupleVisibililtySnapshot 1 sn' = OUT_SNAPSHOT"
proof -
  let ?sn = "\<lparr>highLevel = 1, lowLevel = 1, xidNum = 3, xidArrMax = 4, runningXidArr = [4, 1, 3, 0]\<rparr>"
  let ?sn' = "\<lparr>highLevel = 3, lowLevel = 3, xidNum = 0, xidArrMax = 4, runningXidArr = [4, 1, 3, 0]\<rparr>"
  have "GetSnapshot (CreateSnapshot 4) (view 1 four_started) = Some ?sn"
    unfolding snapshot4 by (simp add: snapshot_eval four_started_def Let_def)
  moreover have "GetSnapshot ?sn (view 1 one_restarted) = Some ?sn'"
    by (simp add: snapshot_eval one_restarted_def Let_def)
  moreover have "1 \<in> running one_restarted" by (simp add: running_list one_restarted_def)
  moreover have "TupleVisibililtySnapshot 1 ?sn = IN_SNAPSHOT" "TupleVisibililtySnapshot 1 ?sn' = OUT_SNAPSHOT"
    by (simp_all add: TupleVisibililtySnapshot_def)
  ultimately show ?thesis using one_restarted_run one_restarted_reach by blast
qed

end
