(* ===== verification/MemPool.thy ===== *)
theory MemPool
  imports DList "HOL-Library.Monad_Syntax" "HOL-Library.Word"
begin

text \<open>
  Memory contexts, after \<^verbatim>\<open>src/util/mem/memPool.c\<close> and \<^verbatim>\<open>src/util/mem/memstack.c\<close> (the
  build has MEM_DEBUG off). A context owns a list of pages obtained from \<^verbatim>\<open>malloc\<close>; blocks
  are cut off its current page in order, and the context itself lies in the first block of
  its first page.

  Objects have byte addresses, because blocks are carved out of pages by address arithmetic.
  The fields of a page header, the links, the types of the context nodes and the sizes of the
  blocks are kept by the address of the object; the two pointer fields
  \<^verbatim>\<open>MemBlock.memPage\<close> and \<^verbatim>\<open>MemPageListInfo.currUsePage\<close> are kept in one map by the address
  of the field, because the second of them may be overlaid by the first. Reading a field that
  was not written since its memory was allocated or cleared has no result, neither has an
  access to freed memory. \<^verbatim>\<open>malloc\<close> hands out increasing addresses and does not fail.
  The sizes are mathematical integers where the code has \<^verbatim>\<open>int\<close>, and words where it has
  \<^verbatim>\<open>unsigned int\<close>.
\<close>

unbundle bit_operations_syntax

section \<open>The memory\<close>

datatype nodetag = T_MemContextNode | T_MemNode | T_OtherNode

record MemPageInfo =
  memHead :: ptr
  memPageSize :: int
  useOffset :: int
  freeSize :: int
  releaseSize :: int

record MemPoolManagerContext =
  memFreeList :: ptr
  mgr_version :: int
  totalSize :: u64
  mgr_lock :: bool

record memst =
  m_dl :: dheap
  m_page :: "ptr \<rightharpoonup> MemPageInfo"
  m_total :: "ptr \<rightharpoonup> u32"
  m_ptr :: "ptr \<rightharpoonup> ptr"
  m_bsize :: "ptr \<rightharpoonup> int"
  m_type :: "ptr \<rightharpoonup> nodetag"
  m_live :: "ptr \<rightharpoonup> nat"
  m_brk :: ptr
  g_memPoolMangerContext :: "MemPoolManagerContext option"
  g_CurrentContext :: ptr

text \<open>Sizes and offsets of the structures.\<close>

definition MEMPAGE_INFO_LEN :: int where "MEMPAGE_INFO_LEN = 40"
definition MEMORY_POOL_BLOCK_HEADER_SIZE :: nat where "MEMORY_POOL_BLOCK_HEADER_SIZE = 12"
definition MEMORY_POOL_PAGE_SIZE :: int where "MEMORY_POOL_PAGE_SIZE = 4096"
definition MEMORY_POOL_FREE_PAGE_SIZE :: int where "MEMORY_POOL_FREE_PAGE_SIZE = MEMORY_POOL_PAGE_SIZE"
definition MEMORY_POOL_PAGE_ALIG :: u32 where "MEMORY_POOL_PAGE_ALIG = 0xFFFFE000"
definition MEMORY_POOL_MIN_ALLOC_SIZE :: u64 where "MEMORY_POOL_MIN_ALLOC_SIZE = 4056"
definition MEMORY_POOL_MANAGER_VERSION :: int where "MEMORY_POOL_MANAGER_VERSION = 0x0B10"
definition MEMPOOL_CONTEXTINFO_SIZE :: int where "MEMPOOL_CONTEXTINFO_SIZE = 136"
definition MEMPOOL_MANAGER_SIZE :: nat where "MEMPOOL_MANAGER_SIZE = 32"

definition subList :: "ptr \<Rightarrow> ptr" where "subList ctx = ctx + 24"
definition memPageNode :: "ptr \<Rightarrow> ptr" where "memPageNode ctx = ctx + 104"
definition currUsePage :: "ptr \<Rightarrow> ptr" where "currUsePage ml = ml + 24"
definition memPage_of :: "ptr \<Rightarrow> ptr" where "memPage_of memb = memb + 4"

definition clear_range :: "ptr \<Rightarrow> nat \<Rightarrow> memst \<Rightarrow> memst" where
  "clear_range p n s =
     (let A = - {p..<p + n}
      in s\<lparr>m_dl := m_dl s |` A, m_page := m_page s |` A, m_total := m_total s |` A,
           m_ptr := m_ptr s |` A, m_bsize := m_bsize s |` A, m_type := m_type s |` A\<rparr>)"

definition malloc :: "nat \<Rightarrow> memst \<Rightarrow> ptr \<times> memst" where
  "malloc n s = (m_brk s, s\<lparr>m_live := (m_live s)(m_brk s \<mapsto> n), m_brk := m_brk s + n + (16 - n mod 16)\<rparr>)"

definition free :: "ptr \<Rightarrow> memst \<Rightarrow> memst option" where
  "free p s = do { n \<leftarrow> m_live s p; let s = clear_range p n s; Some (s\<lparr>m_live := (m_live s)(p := None)\<rparr>) }"

definition MM_AllocMem :: "u32 \<Rightarrow> memst \<Rightarrow> ptr \<times> memst" where
  "MM_AllocMem sz s = malloc (unat sz) s"

definition MM_FreeMem :: "ptr \<Rightarrow> memst \<Rightarrow> memst option" where
  "MM_FreeMem p s = (if p = NULL then Some s else free p s)"

text \<open>Memory that was cleared holds list nodes with null pointers.\<close>

definition zero_node :: "ptr \<Rightarrow> memst \<Rightarrow> memst" where
  "zero_node p s = s\<lparr>m_dl := (m_dl s)(p \<mapsto> \<lparr>d_prev = NULL, d_next = NULL\<rparr>)\<rparr>"

definition init_node :: "ptr \<Rightarrow> memst \<Rightarrow> memst option" where
  "init_node p s = do { h \<leftarrow> INIT_DLIST_NODE (m_dl s) p; Some (s\<lparr>m_dl := h\<rparr>) }"

definition upd_page :: "ptr \<Rightarrow> (MemPageInfo \<Rightarrow> MemPageInfo) \<Rightarrow> memst \<Rightarrow> memst option" where
  "upd_page p f s = do { pg \<leftarrow> m_page s p; Some (s\<lparr>m_page := (m_page s)(p \<mapsto> f pg)\<rparr>) }"

section \<open>The pool\<close>

definition LockMemPoolContext :: "MemPoolManagerContext \<Rightarrow> MemPoolManagerContext option" where
  "LockMemPoolContext g = (if mgr_lock g then None else Some (g\<lparr>mgr_lock := True\<rparr>))"

definition UnLockMemPoolContext :: "MemPoolManagerContext \<Rightarrow> MemPoolManagerContext" where
  "UnLockMemPoolContext g = g\<lparr>mgr_lock := False\<rparr>"

definition InitializeMemPool :: "memst \<Rightarrow> (int \<times> memst) option" where
  "InitializeMemPool s = do {
     let (p, s) = MM_AllocMem (of_nat MEMPOOL_MANAGER_SIZE) s;
     let g = \<lparr>memFreeList = p, mgr_version = MEMORY_POOL_MANAGER_VERSION, totalSize = 0, mgr_lock = False\<rparr>;
     s \<leftarrow> init_node p (zero_node p s);
     Some (0, s\<lparr>g_memPoolMangerContext := Some g\<rparr>) }"

partial_function (option) destroy_free_loop :: "ptr \<Rightarrow> memst \<Rightarrow> memst option" where
  "destroy_free_loop head s = do {
     tmp \<leftarrow> get_prev (m_dl s) head;
     p \<leftarrow> get_prev (m_dl s) tmp;
     (h, _) \<leftarrow> DelDListNode (m_dl s) (Some head) tmp;
     s \<leftarrow> MM_FreeMem tmp (s\<lparr>m_dl := h\<rparr>);
     if p = head then Some s else destroy_free_loop head s }"

definition DestroyMemPool :: "memst \<Rightarrow> memst option" where
  "DestroyMemPool s =
     (case g_memPoolMangerContext s of
        None \<Rightarrow> Some s
      | Some g \<Rightarrow> do {
          s \<leftarrow> destroy_free_loop (memFreeList g) s;
          Some (s\<lparr>g_memPoolMangerContext := None\<rparr>) })"

definition GetFreeMemPage :: "memst \<Rightarrow> (ptr \<times> memst) option" where
  "GetFreeMemPage s =
     (case g_memPoolMangerContext s of
        None \<Rightarrow> Some (NULL, s)
      | Some g \<Rightarrow>
          if totalSize g \<le> 0 then Some (NULL, s)
          else do {
            g \<leftarrow> LockMemPoolContext g;
            if totalSize g \<le> 0 then Some (NULL, s\<lparr>g_memPoolMangerContext := Some (UnLockMemPoolContext g)\<rparr>)
            else do {
              (h, _, mPage) \<leftarrow> PopDListTailNode (m_dl s) (Some (memFreeList g));
              pg \<leftarrow> m_page s mPage;
              let g = g\<lparr>totalSize := totalSize g - of_int (memPageSize pg)\<rparr>;
              Some (mPage, s\<lparr>m_dl := h, g_memPoolMangerContext := Some (UnLockMemPoolContext g)\<rparr>) } })"

text \<open>\<^verbatim>\<open>AddPoolFreeList\<close> returns before the code that would keep the page.\<close>

definition AddPoolFreeList :: "ptr \<Rightarrow> memst \<Rightarrow> (int \<times> memst) option" where
  "AddPoolFreeList mPage s =
     (if g_memPoolMangerContext s = None then do { s \<leftarrow> MM_FreeMem mPage s; Some (-1, s) }
      else do { s \<leftarrow> MM_FreeMem mPage s; Some (0, s) })"

definition NewMemPage :: "int \<Rightarrow> memst \<Rightarrow> ptr \<times> memst" where
  "NewMemPage sz s = MM_AllocMem (of_int sz) s"

section \<open>Pages\<close>

definition InitMemPage :: "ptr \<Rightarrow> int \<Rightarrow> memst \<Rightarrow> (ptr \<times> memst) option" where
  "InitMemPage newPage sz s = do {
     n \<leftarrow> m_live s newPage;
     if 0 \<le> sz \<and> nat sz \<le> n then do {
       let s = zero_node newPage (clear_range newPage (nat sz) s);
       let s = s\<lparr>m_page := (m_page s)(newPage \<mapsto>
         \<lparr>memHead = NULL, memPageSize = sz, useOffset = MEMPAGE_INFO_LEN,
          freeSize = sz - MEMPAGE_INFO_LEN, releaseSize = MEMPAGE_INFO_LEN\<rparr>)\<rparr>;
       s \<leftarrow> init_node newPage s;
       Some (newPage, s) }
     else None }"

definition AddMemPageNode :: "ptr \<Rightarrow> ptr \<Rightarrow> memst \<Rightarrow> (ptr \<times> memst) option" where
  "AddMemPageNode lst node s = do {
     (h, lst, _) \<leftarrow> AddDListTail (m_dl s) lst node;
     Some (lst, s\<lparr>m_dl := h\<rparr>) }"

definition AddMemPageToContext :: "ptr \<Rightarrow> ptr \<Rightarrow> bool \<Rightarrow> memst \<Rightarrow> (int \<times> memst) option" where
  "AddMemPageToContext page ctx isSwitchCurrent s = do {
     let ml = memPageNode ctx;
     pg \<leftarrow> m_page s page;
     t \<leftarrow> m_total s ml;
     let s = s\<lparr>m_total := (m_total s)(ml \<mapsto> t + of_int (memPageSize pg))\<rparr>;
     (_, s) \<leftarrow> AddMemPageNode ml page s;
     let s = (if isSwitchCurrent then s\<lparr>m_ptr := (m_ptr s)(currUsePage ml \<mapsto> page)\<rparr> else s);
     s \<leftarrow> upd_page page (\<lambda>pg. pg\<lparr>memHead := ml\<rparr>) s;
     Some (0, s) }"

text \<open>The header of the block has to lie within the page.\<close>

definition AllocFromMemPage :: "ptr \<Rightarrow> int \<Rightarrow> memst \<Rightarrow> (ptr \<times> memst) option" where
  "AllocFromMemPage mPage sz s = do {
     pg \<leftarrow> m_page s mPage;
     n \<leftarrow> m_live s mPage;
     let memb = mPage + nat (useOffset pg);
     if 0 \<le> useOffset pg \<and> nat (useOffset pg) + MEMORY_POOL_BLOCK_HEADER_SIZE \<le> n then do {
       s \<leftarrow> upd_page mPage (\<lambda>pg. pg\<lparr>freeSize := freeSize pg - sz\<rparr>) s;
       s \<leftarrow> upd_page mPage (\<lambda>pg. pg\<lparr>useOffset := useOffset pg + sz\<rparr>) s;
       let s = s\<lparr>m_ptr := (m_ptr s)(memPage_of memb \<mapsto> mPage), m_bsize := (m_bsize s)(memb \<mapsto> sz)\<rparr>;
       Some (memb + MEMORY_POOL_BLOCK_HEADER_SIZE, s) }
     else None }"

definition ReleaseMemPage :: "ptr \<Rightarrow> memst \<Rightarrow> (int \<times> memst) option" where
  "ReleaseMemPage mPage s = do {
     pg \<leftarrow> m_page s mPage;
     if memPageSize pg > MEMORY_POOL_FREE_PAGE_SIZE then do { s \<leftarrow> MM_FreeMem mPage s; Some (1, s) }
     else do { (_, s) \<leftarrow> AddPoolFreeList mPage s; Some (0, s) } }"

definition ReleaseToMemPage :: "ptr \<Rightarrow> memst \<Rightarrow> (int \<times> memst) option" where
  "ReleaseToMemPage memb s = do {
     page \<leftarrow> m_ptr s (memPage_of memb);
     if page = NULL then Some (-1, s)
     else do {
       bs \<leftarrow> m_bsize s memb;
       s \<leftarrow> upd_page page (\<lambda>pg. pg\<lparr>releaseSize := releaseSize pg + bs\<rparr>) s;
       pg \<leftarrow> m_page s page;
       if releaseSize pg = memPageSize pg then do {
         let header = memHead pg;
         (h, _) \<leftarrow> DelDListNode (m_dl s) (Some header) page;
         ReleaseMemPage page (s\<lparr>m_dl := h\<rparr>) }
       else Some (0, s) } }"

section \<open>Contexts\<close>

definition InitializePoolContext :: "ptr \<Rightarrow> memst \<Rightarrow> (int \<times> memst) option" where
  "InitializePoolContext ctx s = do {
     let ml = memPageNode ctx;
     s \<leftarrow> init_node ml (zero_node ml s);
     Some (0, s\<lparr>m_total := (m_total s)(ml \<mapsto> 0), m_ptr := (m_ptr s)(currUsePage ml \<mapsto> NULL)\<rparr>) }"

definition fresh_page :: "memst \<Rightarrow> (ptr \<times> memst) option" where
  "fresh_page s = do {
     (newPage, s) \<leftarrow> GetFreeMemPage s;
     let (newPage, s) = (if newPage = NULL then NewMemPage MEMORY_POOL_PAGE_SIZE s else (newPage, s));
     InitMemPage newPage MEMORY_POOL_PAGE_SIZE s }"

definition NewPoolMemContext :: "memst \<Rightarrow> (ptr \<times> memst) option" where
  "NewPoolMemContext s = do {
     (page, s) \<leftarrow> fresh_page s;
     (ctx, s) \<leftarrow> AllocFromMemPage page MEMPOOL_CONTEXTINFO_SIZE s;
     (_, s) \<leftarrow> InitializePoolContext ctx s;
     (_, s) \<leftarrow> AddMemPageToContext page ctx True s;
     Some (ctx, s) }"

definition AddNewPageToContext :: "ptr \<Rightarrow> memst \<Rightarrow> (int \<times> memst) option" where
  "AddNewPageToContext ctx s = do {
     (page, s) \<leftarrow> fresh_page s;
     (_, s) \<leftarrow> AddMemPageToContext page ctx True s;
     Some (0, s) }"

definition AllocFromMemContext :: "int \<Rightarrow> ptr \<Rightarrow> memst \<Rightarrow> (ptr \<times> memst) option" where
  "AllocFromMemContext sz ctx s =
     (if sz \<le> 0 \<or> ctx = NULL then Some (NULL, s)
      else do {
        cur \<leftarrow> m_ptr s (currUsePage (memPageNode ctx));
        pg \<leftarrow> m_page s cur;
        if sz \<le> memPageSize pg - useOffset pg then AllocFromMemPage cur sz s
        else Some (NULL, s) })"

partial_function (option) alloc_loop :: "int \<Rightarrow> ptr \<Rightarrow> memst \<Rightarrow> (ptr \<times> memst) option" where
  "alloc_loop sz ctx s = do {
     (mem, s) \<leftarrow> AllocFromMemContext sz ctx s;
     if mem \<noteq> NULL then Some (mem, s)
     else do { (_, s) \<leftarrow> AddNewPageToContext ctx s; alloc_loop sz ctx s } }"

definition align_size :: "u32 \<Rightarrow> u32" where
  "align_size sz = ucast ((ucast sz + 40 + ucast (NOT MEMORY_POOL_PAGE_ALIG) - 1 :: u64) AND ucast MEMORY_POOL_PAGE_ALIG)"

definition AllocFromMemPool :: "u32 \<Rightarrow> memst \<Rightarrow> (ptr \<times> memst) option" where
  "AllocFromMemPool sz s =
     (let ctx = g_CurrentContext s in
      if ctx = NULL then Some (NULL, s)
      else let sz = sz + of_nat MEMORY_POOL_BLOCK_HEADER_SIZE in
        if ucast sz \<ge> MEMORY_POOL_MIN_ALLOC_SIZE then do {
          let al = align_size sz;
          let (newPage, s) = NewMemPage (sint al) s;
          (page, s) \<leftarrow> InitMemPage newPage (sint al) s;
          (_, s) \<leftarrow> AddMemPageToContext page ctx False s;
          AllocFromMemPage page (sint sz) s }
        else alloc_loop (sint sz) ctx s)"

definition ReleaseToMemPool :: "ptr \<Rightarrow> memst \<Rightarrow> (int \<times> memst) option" where
  "ReleaseToMemPool mem s = ReleaseToMemPage (mem - MEMORY_POOL_BLOCK_HEADER_SIZE) s"

partial_function (option) release_pages_loop :: "ptr \<Rightarrow> ptr \<Rightarrow> ptr \<Rightarrow> memst \<Rightarrow> memst option" where
  "release_pages_loop head owner preNode s =
     (if preNode \<noteq> NULL \<and> preNode \<noteq> owner then do {
        let tailNode = preNode;
        preNode \<leftarrow> get_prev (m_dl s) preNode;
        (h, _) \<leftarrow> DelDListNode (m_dl s) (Some head) tailNode;
        (_, s) \<leftarrow> ReleaseMemPage tailNode (s\<lparr>m_dl := h\<rparr>);
        release_pages_loop head owner preNode s }
      else Some s)"

definition ReleaseMemContext :: "ptr \<Rightarrow> memst \<Rightarrow> (int \<times> memst) option" where
  "ReleaseMemContext ctx s = do {
     let head = memPageNode ctx;
     tail \<leftarrow> get_prev (m_dl s) head;
     owner \<leftarrow> get_next (m_dl s) head;
     s \<leftarrow> release_pages_loop head owner tail s;
     (_, s) \<leftarrow> ReleaseMemPage owner s;
     Some (0, s) }"

section \<open>The stack of contexts\<close>

text \<open>The static list header \<open>g_MemList\<close> lies outside of the dynamic memory.\<close>

definition g_MemList :: ptr where "g_MemList = 8"

definition AllocMemWithPool :: "u32 \<Rightarrow> memst \<Rightarrow> (ptr \<times> memst) option" where
  "AllocMemWithPool sz s = do {
     (p, s) \<leftarrow> AllocFromMemPool sz s;
     if p = NULL then None else Some (p, s) }"

definition FreeMemWithPool :: "ptr \<Rightarrow> memst \<Rightarrow> (int \<times> memst) option" where
  "FreeMemWithPool p s = (if p = NULL then Some (-1, s) else ReleaseToMemPool p s)"

definition InitMMContextNode :: "ptr \<Rightarrow> memst \<Rightarrow> memst option" where
  "InitMMContextNode ctx s = do {
     s \<leftarrow> init_node ctx (zero_node ctx (s\<lparr>m_type := (m_type s)(ctx \<mapsto> T_MemContextNode)\<rparr>));
     init_node (subList ctx) (zero_node (subList ctx) s) }"

definition NewMMContext :: "memst \<Rightarrow> (ptr \<times> memst) option" where
  "NewMMContext s = do {
     (ctx, s) \<leftarrow> NewPoolMemContext s;
     s \<leftarrow> InitMMContextNode ctx s;
     Some (ctx, s) }"

definition MemMangerInit :: "memst \<Rightarrow> memst option" where
  "MemMangerInit s = do {
     s \<leftarrow> init_node g_MemList s;
     (_, s) \<leftarrow> InitializeMemPool s;
     (ctx, s) \<leftarrow> NewMMContext s;
     (h, _, _) \<leftarrow> AddDListTail (m_dl s) g_MemList ctx;
     Some (s\<lparr>g_CurrentContext := ctx, m_dl := h\<rparr>) }"

definition MemMangerSwitchContext :: "ptr \<Rightarrow> memst \<Rightarrow> ptr \<times> memst" where
  "MemMangerSwitchContext oldContext s =
     (let old = g_CurrentContext s in
      if oldContext = old then (old, s) else (old, s\<lparr>g_CurrentContext := oldContext\<rparr>))"

definition MemMangerGetCurrentContext :: "memst \<Rightarrow> ptr" where
  "MemMangerGetCurrentContext s = g_CurrentContext s"

definition MemMangerSetCurrentContext :: "ptr \<Rightarrow> memst \<Rightarrow> memst" where
  "MemMangerSetCurrentContext c s = (if c = NULL then s else s\<lparr>g_CurrentContext := c\<rparr>)"

definition MemMangerNewContext :: "memst \<Rightarrow> (ptr \<times> memst) option" where
  "MemMangerNewContext s = do {
     let old = g_CurrentContext s;
     (ctx, s) \<leftarrow> NewMMContext s;
     (h, _, _) \<leftarrow> AddDListTail (m_dl s) (subList old) ctx;
     Some (old, s\<lparr>m_dl := h, g_CurrentContext := ctx\<rparr>) }"

text \<open>
  \<open>destroy_children head preNode\<close> is the loop of \<^verbatim>\<open>MemDestroyContextNode\<close> over the list of
  sub contexts; a sub context is destroyed by the same loop on its own list, then its pages
  are released.
\<close>

partial_function (option) destroy_children :: "ptr \<Rightarrow> ptr \<Rightarrow> memst \<Rightarrow> memst option" where
  "destroy_children head preNode s =
     (if preNode \<noteq> NULL \<and> preNode \<noteq> head then do {
        let tailNode = preNode;
        preNode \<leftarrow> get_prev (m_dl s) preNode;
        t \<leftarrow> m_type s tailNode;
        s \<leftarrow> (if t = T_MemContextNode then do {
                tl \<leftarrow> get_prev (m_dl s) (subList tailNode);
                s \<leftarrow> destroy_children (subList tailNode) tl s;
                (_, s) \<leftarrow> ReleaseMemContext tailNode s;
                Some s }
              else Some s);
        destroy_children head preNode s }
      else Some s)"

definition MemDestroyContextNode :: "ptr \<Rightarrow> memst \<Rightarrow> memst option" where
  "MemDestroyContextNode ctx s =
     (if ctx = NULL then Some s
      else do {
        tl \<leftarrow> get_prev (m_dl s) (subList ctx);
        s \<leftarrow> destroy_children (subList ctx) tl s;
        (_, s) \<leftarrow> ReleaseMemContext ctx s;
        Some s })"

definition MemMangerDeleteContext :: "ptr \<Rightarrow> ptr \<Rightarrow> memst \<Rightarrow> memst option" where
  "MemMangerDeleteContext preContext delContext s = do {
     (h, _) \<leftarrow> DelDListNode (m_dl s) (Some (subList preContext)) delContext;
     MemDestroyContextNode delContext (s\<lparr>m_dl := h\<rparr>) }"

partial_function (option) destroy_top_loop :: "ptr \<Rightarrow> memst \<Rightarrow> memst option" where
  "destroy_top_loop preNode s =
     (if preNode \<noteq> NULL \<and> preNode \<noteq> g_MemList then do {
        let tailNode = preNode;
        preNode \<leftarrow> get_prev (m_dl s) preNode;
        t \<leftarrow> m_type s tailNode;
        s \<leftarrow> (if t = T_MemContextNode then do {
                (h, _) \<leftarrow> DelDListNode (m_dl s) (Some g_MemList) tailNode;
                MemDestroyContextNode tailNode (s\<lparr>m_dl := h\<rparr>) }
              else Some s);
        destroy_top_loop preNode s }
      else Some s)"

definition MemMangerDestroy :: "memst \<Rightarrow> memst option" where
  "MemMangerDestroy s = do {
     tl \<leftarrow> get_prev (m_dl s) g_MemList;
     s \<leftarrow> destroy_top_loop tl s;
     s \<leftarrow> init_node g_MemList s;
     DestroyMemPool s }"

section \<open>New pages\<close>

definition mem_ok :: "memst \<Rightarrow> bool" where
  "mem_ok s \<longleftrightarrow> 8 < m_brk s \<and>
     (\<forall>p n. m_live s p = Some n \<longrightarrow> 8 < p \<and> p + n < m_brk s) \<and>
     (\<forall>p q n k. m_live s p = Some n \<longrightarrow> m_live s q = Some k \<longrightarrow> p < q \<longrightarrow> p + n \<le> q) \<and>
     dom (m_dl s) \<subseteq> {..<m_brk s} \<and> dom (m_page s) \<subseteq> {..<m_brk s} \<and> dom (m_total s) \<subseteq> {..<m_brk s} \<and>
     dom (m_ptr s) \<subseteq> {..<m_brk s} \<and> dom (m_bsize s) \<subseteq> {..<m_brk s} \<and> dom (m_type s) \<subseteq> {..<m_brk s} \<and>
     (\<forall>g. g_memPoolMangerContext s = Some g \<longrightarrow> totalSize g = 0)"

definition new_page :: "int \<Rightarrow> MemPageInfo" where
  "new_page n = \<lparr>memHead = NULL, memPageSize = n, useOffset = 40, freeSize = n - 40, releaseSize = 40\<rparr>"

definition with_page :: "int \<Rightarrow> memst \<Rightarrow> memst" where
  "with_page n s = s\<lparr>m_live := (m_live s)(m_brk s \<mapsto> nat n), m_brk := m_brk s + nat n + (16 - nat n mod 16),
     m_dl := (m_dl s)(m_brk s \<mapsto> \<lparr>d_prev = m_brk s, d_next = m_brk s\<rparr>),
     m_page := (m_page s)(m_brk s \<mapsto> new_page n)\<rparr>"

lemma init_zero_node:
  "init_node p (zero_node p s) = Some (s\<lparr>m_dl := (m_dl s)(p \<mapsto> \<lparr>d_prev = p, d_next = p\<rparr>)\<rparr>)"
  by (simp add: init_node_def zero_node_def INIT_DLIST_NODE_def set_prev_def set_next_def)

lemma restrict_below: "dom m \<subseteq> {..<b} \<Longrightarrow> m |` (- {b..<c}) = (m::nat \<rightharpoonup> 'a)"
  proof (rule ext)
  fix x assume "dom m \<subseteq> {..<b}"
  then have "b \<le> x \<Longrightarrow> m x = None" by (meson domIff lessThan_iff not_le subsetD)
  then show "(m |` (- {b..<c})) x = m x" by (simp add: restrict_map_def)
qed

lemma mem_ok_fresh:
  assumes "mem_ok s"
  shows "m_dl s (m_brk s) = None" "m_page s (m_brk s) = None" "m_live s (m_brk s) = None"
    "clear_range (m_brk s) n s = s" "m_brk s \<noteq> NULL"
proof -
  have d: "dom (m_dl s) \<subseteq> {..<m_brk s}" "dom (m_page s) \<subseteq> {..<m_brk s}" "dom (m_total s) \<subseteq> {..<m_brk s}"
    "dom (m_ptr s) \<subseteq> {..<m_brk s}" "dom (m_bsize s) \<subseteq> {..<m_brk s}" "dom (m_type s) \<subseteq> {..<m_brk s}"
    using assms by (simp_all add: mem_ok_def)
  then show "m_dl s (m_brk s) = None" "m_page s (m_brk s) = None" by (auto simp: subset_iff domIff)
  show "m_brk s \<noteq> NULL" using assms by (simp add: mem_ok_def)
  show "clear_range (m_brk s) n s = s" using d by (simp add: clear_range_def Let_def restrict_below)
  show "m_live s (m_brk s) = None" using assms by (force simp: mem_ok_def)
qed

lemma unat_of_int32: "0 \<le> n \<Longrightarrow> n < 2 ^ 32 \<Longrightarrow> unat (of_int n :: u32) = nat n"
  by (simp add: unat_eq_nat_uint uint_word_of_int_eq take_bit_int_eq_self)

lemma InitMemPage_new:
  assumes "mem_ok s" "0 \<le> n" "n < 2 ^ 31"
  shows "(let (p, s) = NewMemPage n s in InitMemPage p n s) = Some (m_brk s, with_page n s)"
proof -
  let ?s = "s\<lparr>m_live := (m_live s)(m_brk s \<mapsto> nat n), m_brk := m_brk s + nat n + (16 - nat n mod 16)\<rparr>"
  have c: "clear_range (m_brk s) (nat n) ?s = ?s"
    using assms(1) by (simp add: clear_range_def Let_def mem_ok_def restrict_below)
  have u: "unat (of_int n :: u32) = nat n" using assms(2,3) by (intro unat_of_int32) simp_all
  have "NewMemPage n s = (m_brk s, ?s)" by (simp add: NewMemPage_def MM_AllocMem_def malloc_def u)
  then show ?thesis using assms(2) c
    by (simp add: InitMemPage_def zero_node_def init_node_def INIT_DLIST_NODE_def set_prev_def set_next_def
        with_page_def new_page_def MEMPAGE_INFO_LEN_def)
qed

lemma GetFreeMemPage_empty:
  assumes "mem_ok s"
  shows "GetFreeMemPage s = Some (NULL, s)"
  using assms by (auto simp: GetFreeMemPage_def mem_ok_def split: option.splits)

lemma fresh_page_eq:
  assumes "mem_ok s"
  shows "fresh_page s = Some (m_brk s, with_page 4096 s)"
  using InitMemPage_new [OF assms, of 4096] GetFreeMemPage_empty [OF assms]
  by (auto simp: fresh_page_def MEMORY_POOL_PAGE_SIZE_def split: prod.splits)

lemma live_ok_extend:
  assumes "\<forall>p n. L p = Some n \<longrightarrow> 8 < p \<and> p + n < b" "8 < b" "b + m < b'"
    and "\<forall>p q n k. L p = Some n \<longrightarrow> L q = Some k \<longrightarrow> p < q \<longrightarrow> p + n \<le> (q::nat)"
  shows "\<forall>p n. (L(b \<mapsto> m)) p = Some n \<longrightarrow> 8 < p \<and> p + n < b'"
    and "\<forall>p q n k. (L(b \<mapsto> m)) p = Some n \<longrightarrow> (L(b \<mapsto> m)) q = Some k \<longrightarrow> p < q \<longrightarrow> p + n \<le> q"
proof -
  show "\<forall>p n. (L(b \<mapsto> m)) p = Some n \<longrightarrow> 8 < p \<and> p + n < b'"
  proof (intro allI impI)
    fix p n assume "(L(b \<mapsto> m)) p = Some n"
    then consider "p = b" "n = m" | "L p = Some n" by (cases "p = b") simp_all
    then show "8 < p \<and> p + n < b'"
    proof cases
      case 2
      then have "8 < p" "p + n < b" using assms(1) by auto
      then show ?thesis using assms(3) by linarith
    qed (use assms(2,3) in simp)
  qed
  show "\<forall>p q n k. (L(b \<mapsto> m)) p = Some n \<longrightarrow> (L(b \<mapsto> m)) q = Some k \<longrightarrow> p < q \<longrightarrow> p + n \<le> q"
  proof (intro allI impI)
    fix p q n k assume *: "(L(b \<mapsto> m)) p = Some n" "(L(b \<mapsto> m)) q = Some k" "p < q"
    have "q < b" if "q \<noteq> b"
    proof -
      have "L q = Some k" using *(2) that by simp
      then have "q + k < b" using assms(1) by blast
      then show ?thesis by simp
    qed
    then have "p \<noteq> b" using *(3) by (cases "q = b") auto
    then have "L p = Some n" using *(1) by simp
    show "p + n \<le> q"
    proof (cases "q = b")
      case True
      have "p + n < b" using \<open>L p = Some n\<close> assms(1) by blast
      then show ?thesis using True by simp
    next
      case False
      then have "L q = Some k" using *(2) by simp
      then show ?thesis using \<open>L p = Some n\<close> *(3) assms(4) by blast
    qed
  qed
qed

lemma dom_upd_below: "dom m \<subseteq> {..<b} \<Longrightarrow> b < (b'::nat) \<Longrightarrow> dom (m(b \<mapsto> v)) \<subseteq> {..<b'}"
  "dom m \<subseteq> {..<b} \<Longrightarrow> b < b' \<Longrightarrow> dom m \<subseteq> {..<b'}"
  by auto

lemma mem_ok_with_page:
  assumes "mem_ok s" "0 \<le> n"
  shows "mem_ok (with_page n s)"
proof -
  define b' where "b' = m_brk s + nat n + (16 - nat n mod 16)"
  have "nat n mod 16 < 16" by simp
  then have b: "m_brk s + nat n < b'" "m_brk s < b'" by (auto simp: b'_def)
  have brk: "8 < b'" using b assms(1) by (simp add: mem_ok_def)
  have "8 < m_brk s" "\<forall>p n. m_live s p = Some n \<longrightarrow> 8 < p \<and> p + n < m_brk s"
    "\<forall>p q n k. m_live s p = Some n \<longrightarrow> m_live s q = Some k \<longrightarrow> p < q \<longrightarrow> p + n \<le> q"
    using assms(1) unfolding mem_ok_def by blast+
  note L = live_ok_extend [OF this(2) this(1) b(1) this(3)]
  show ?thesis
    using assms(1) L brk unfolding mem_ok_def with_page_def b'_def [symmetric]
    by (intro conjI; simp add: b(2) dom_upd_below(2) [OF _ b(2)])
qed

section \<open>Contexts and their pages\<close>

definition page_ok :: "memst \<Rightarrow> ptr \<Rightarrow> ptr \<Rightarrow> bool" where
  "page_ok s ml p \<longleftrightarrow> (\<exists>pg n. m_page s p = Some pg \<and> m_live s p = Some n \<and> memPageSize pg = int n \<and>
     MEMPAGE_INFO_LEN \<le> useOffset pg \<and> useOffset pg \<le> int n \<and> memHead pg = ml)"

definition page_size :: "memst \<Rightarrow> ptr \<Rightarrow> int" where
  "page_size s p = (case m_page s p of None \<Rightarrow> 0 | Some pg \<Rightarrow> memPageSize pg)"

definition used_of :: "memst \<Rightarrow> ptr \<Rightarrow> nat set" where
  "used_of s p = (case m_page s p of None \<Rightarrow> {} | Some pg \<Rightarrow> {p..<p + nat (useOffset pg)})"

text \<open>The memory that the pages of a context have handed out.\<close>

definition used :: "memst \<Rightarrow> ptr list \<Rightarrow> nat set" where
  "used s ps = (\<Union>p\<in>set ps. used_of s p)"

definition ctx_ok :: "memst \<Rightarrow> ptr \<Rightarrow> ptr list \<Rightarrow> bool" where
  "ctx_ok s ctx ps \<longleftrightarrow> ctx \<noteq> NULL \<and> ps \<noteq> [] \<and> hd ps + 52 = ctx \<and>
     dlst (m_dl s) (memPageNode ctx) ps \<and> (\<forall>p\<in>set ps. page_ok s (memPageNode ctx) p) \<and>
     page_size s (hd ps) = MEMORY_POOL_PAGE_SIZE \<and>
     m_total s (memPageNode ctx) \<noteq> None \<and>
     (\<exists>cur\<in>set ps. m_ptr s (currUsePage (memPageNode ctx)) = Some cur)"


lemma mem_okD:
  assumes "mem_ok s"
  shows "8 < m_brk s" "m_live s p = Some n \<Longrightarrow> 8 < p \<and> p + n < m_brk s"
    "m_live s p = Some n \<Longrightarrow> m_live s q = Some k \<Longrightarrow> p < q \<Longrightarrow> p + n \<le> q"
    "dom (m_dl s) \<subseteq> {..<m_brk s}" "dom (m_page s) \<subseteq> {..<m_brk s}" "dom (m_total s) \<subseteq> {..<m_brk s}"
    "dom (m_ptr s) \<subseteq> {..<m_brk s}" "dom (m_bsize s) \<subseteq> {..<m_brk s}" "dom (m_type s) \<subseteq> {..<m_brk s}"
    "g_memPoolMangerContext s = Some g \<Longrightarrow> totalSize g = 0"
  using assms by (simp_all add: mem_ok_def)

lemma mem_ok_transfer:
  assumes "mem_ok s" "m_live t = m_live s" "m_brk t = m_brk s" "g_memPoolMangerContext t = g_memPoolMangerContext s"
    "dom (m_dl t) \<subseteq> {..<m_brk s}" "dom (m_page t) \<subseteq> {..<m_brk s}" "dom (m_total t) \<subseteq> {..<m_brk s}"
    "dom (m_ptr t) \<subseteq> {..<m_brk s}" "dom (m_bsize t) \<subseteq> {..<m_brk s}" "dom (m_type t) \<subseteq> {..<m_brk s}"
  shows "mem_ok t"
  using assms unfolding mem_ok_def by simp

lemma ctx_okD:
  assumes "ctx_ok s ctx ps"
  shows "ctx \<noteq> NULL" "ps \<noteq> []" "hd ps + 52 = ctx" "dlst (m_dl s) (memPageNode ctx) ps"
    "p \<in> set ps \<Longrightarrow> page_ok s (memPageNode ctx) p" "page_size s (hd ps) = MEMORY_POOL_PAGE_SIZE"
    "\<exists>t. m_total s (memPageNode ctx) = Some t"
    "\<exists>cur\<in>set ps. m_ptr s (currUsePage (memPageNode ctx)) = Some cur"
    "hd ps \<in> set ps"
  using assms by (auto simp: ctx_ok_def)

lemma ctx_ok_nodes:
  assumes "mem_ok s" "ctx_ok s ctx ps"
  shows "set (memPageNode ctx # ps) \<subseteq> {..<m_brk s}" "m_brk s \<notin> set ps" "m_brk s \<noteq> memPageNode ctx"
proof -
  have "set (memPageNode ctx # ps) \<subseteq> dom (m_dl s)" using assms(2) ring_dom unfolding ctx_ok_def dlst_def by blast
  then show "set (memPageNode ctx # ps) \<subseteq> {..<m_brk s}" using mem_okD(4) [OF assms(1)] by (rule order_trans)
  then show "m_brk s \<notin> set ps" "m_brk s \<noteq> memPageNode ctx" by auto
qed

lemma ctx_ok_with_page:
  assumes "mem_ok s" "ctx_ok s ctx ps"
  shows "ctx_ok (with_page n s) ctx ps" "used (with_page n s) ps = used s ps"
proof -
  have nb: "m_brk s \<notin> set ps" "m_brk s \<noteq> memPageNode ctx" using ctx_ok_nodes [OF assms] by auto
  have "dlst (m_dl (with_page n s)) (memPageNode ctx) ps"
    unfolding dlst_def
  proof (rule ring_frame)
    show "ring (m_dl s) (memPageNode ctx # ps)" using ctx_okD(4) [OF assms(2)] by (simp only: dlst_def)
    show "m_dl (with_page n s) p = m_dl s p" if "p \<in> set (memPageNode ctx # ps)" for p
      using that nb by (auto simp: with_page_def)
  qed
  moreover have pg: "m_page (with_page n s) p = m_page s p" "m_live (with_page n s) p = m_live s p" if "p \<in> set ps" for p
    using that nb by (auto simp: with_page_def)
  moreover have "hd ps \<in> set ps" using assms(2) by (simp add: ctx_ok_def)
  ultimately show "ctx_ok (with_page n s) ctx ps"
    using assms(2) unfolding ctx_ok_def page_ok_def page_size_def
    by (simp add: pg) (simp add: with_page_def)
  show "used (with_page n s) ps = used s ps" by (simp add: used_def used_of_def pg cong: SUP_cong)
qed

text \<open>
  What adding the new page at the old \<open>m_brk\<close> does to the state \<open>t = with_page n s\<close>.
\<close>

lemma AddMemPageToContext_ok:
  assumes m: "mem_ok s" and c: "ctx_ok s ctx ps" and n: "40 \<le> n"
  shows "\<exists>s'. AddMemPageToContext (m_brk s) ctx sw (with_page n s) = Some (0, s') \<and> mem_ok s' \<and>
    ctx_ok s' ctx (ps @ [m_brk s]) \<and> m_page s' = (m_page s)(m_brk s \<mapsto> (new_page n)\<lparr>memHead := memPageNode ctx\<rparr>) \<and>
    m_live s' = (m_live s)(m_brk s \<mapsto> nat n) \<and> g_CurrentContext s' = g_CurrentContext s \<and>
    (sw \<longrightarrow> m_ptr s' (currUsePage (memPageNode ctx)) = Some (m_brk s))"
proof -
  let ?p = "m_brk s" and ?ml = "memPageNode ctx" and ?t = "with_page n s"
  have nb: "?p \<notin> set ps" "?p \<noteq> ?ml" using ctx_ok_nodes [OF m c] by auto
  have ct: "ctx_ok ?t ctx ps" and mt: "mem_ok ?t"
    using ctx_ok_with_page [OF m c] mem_ok_with_page [OF m, of n] n by auto
  obtain tot where tot: "m_total s ?ml = Some tot" using c by (auto simp: ctx_ok_def)
  have "dnode_at (m_dl ?t) ?p" using mem_ok_fresh(5) [OF m] by (simp add: dnode_at_def with_page_def)
  then obtain h where h: "AddDListTail (m_dl ?t) ?ml ?p = Some (h, ?ml, 0)" "dlst h ?ml (ps @ [?p])"
    "dsame (m_dl ?t) h (set (?p # ?ml # ps))"
    using dl.lst_add_tail [OF ctx_okD(4) [OF ct], of ?p] nb by auto
  let ?pg = "(new_page n)\<lparr>memHead := ?ml\<rparr>"
  let ?s' = "?t\<lparr>m_total := (m_total s)(?ml \<mapsto> tot + of_int n), m_dl := h,
     m_ptr := (if sw then (m_ptr s)(currUsePage ?ml \<mapsto> ?p) else m_ptr s), m_page := (m_page s)(?p \<mapsto> ?pg)\<rparr>"
  have "AddMemPageToContext ?p ctx sw ?t = Some (0, ?s')"
    using h(1) tot by (simp add: AddMemPageToContext_def AddMemPageNode_def upd_page_def with_page_def new_page_def Let_def)
  moreover have b: "?ml < m_brk ?t" "?p < m_brk ?t" "currUsePage ?ml < m_brk ?t"
    using ctx_okD(8) [OF c] mem_okD(7) [OF m] ctx_ok_nodes(1) [OF m c] by (auto simp: with_page_def)
  have "mem_ok ?s'" 
  proof (rule mem_ok_transfer [OF mt])
    show "dom (m_dl ?s') \<subseteq> {..<m_brk ?t}" using h(3) mem_okD(4) [OF mt] by (simp add: dsame_def)
    show "dom (m_page ?s') \<subseteq> {..<m_brk ?t}" using mem_okD(5) [OF mt] by (simp add: with_page_def)
    show "dom (m_total ?s') \<subseteq> {..<m_brk ?t}" using mem_okD(6) [OF mt] b(1) by (simp add: with_page_def)
    show "dom (m_ptr ?s') \<subseteq> {..<m_brk ?t}" using mem_okD(7) [OF mt] b(3) by (simp add: with_page_def)
    show "dom (m_bsize ?s') \<subseteq> {..<m_brk ?t}" "dom (m_type ?s') \<subseteq> {..<m_brk ?t}" using mem_okD(8,9) [OF mt] by simp_all
  qed (simp_all add: with_page_def)
  moreover have "ctx_ok ?s' ctx (ps @ [?p])"
  proof -
    have "page_ok ?s' ?ml ?p" using n by (simp add: page_ok_def with_page_def new_page_def MEMPAGE_INFO_LEN_def)
    moreover have "page_ok ?s' ?ml q" if "q \<in> set ps" for q
    proof -
      have "q \<noteq> ?p" using that nb(1) by auto
      then show ?thesis using ctx_okD(5) [OF c that] by (simp add: page_ok_def with_page_def)
    qed
    moreover have "page_size ?s' (hd ps) = page_size s (hd ps)" using ctx_okD(9) [OF c] nb by (auto simp: page_size_def)
    ultimately show ?thesis using ctx_okD [OF c] h(2) unfolding ctx_ok_def by auto
  qed
  ultimately show ?thesis by (intro exI [of _ ?s']) (simp add: with_page_def)
qed


lemma page_okE:
  assumes "page_ok s ml p"
  obtains pg n where "m_page s p = Some pg" "m_live s p = Some n" "memPageSize pg = int n" "40 \<le> useOffset pg"
    "useOffset pg \<le> int n" "memHead pg = ml"
  using assms by (auto simp: page_ok_def MEMPAGE_INFO_LEN_def)

lemma live_disjoint:
  assumes "mem_ok s" "m_live s p = Some n" "m_live s q = Some k" "p \<noteq> q" "x < n" "y < k"
  shows "p + x \<noteq> q + y"
proof -
  have "p + n \<le> q \<or> q + k \<le> p"
    using mem_okD(3) [OF assms(1,2,3)] mem_okD(3) [OF assms(1,3,2)] assms(4) by linarith
  then show ?thesis using assms(5,6) by linarith
qed

lemma used_of_page:
  assumes "page_ok s ml p" "m_live s p = Some n"
  shows "used_of s p \<subseteq> {p..<p + n}"
  using assms by (auto simp: page_ok_def used_of_def)

lemma pages_disjoint:
  assumes "mem_ok s" "page_ok s ml q" "m_live s p = Some n" "p \<noteq> q"
  shows "used_of s q \<inter> {p..<p + n} = {}"
proof -
  obtain k where k: "m_live s q = Some k" using assms(2) by (auto simp: page_ok_def)
  have "p + n \<le> q \<or> q + k \<le> p"
    using mem_okD(3) [OF assms(1) assms(3) k] mem_okD(3) [OF assms(1) k assms(3)] assms(4) by linarith
  then show ?thesis using used_of_page [OF assms(2) k] by auto
qed

lemma cell_in_first_page:
  assumes "ctx_ok s ctx ps"
  shows "m_live s (hd ps) = Some 4096" "currUsePage (memPageNode ctx) = hd ps + 180"
  using ctx_okD(3,6) [OF assms] ctx_okD(5) [OF assms ctx_okD(9) [OF assms]]
  by (auto simp: page_ok_def page_size_def MEMORY_POOL_PAGE_SIZE_def currUsePage_def memPageNode_def)

definition carve :: "ptr \<Rightarrow> int \<Rightarrow> MemPageInfo \<Rightarrow> memst \<Rightarrow> memst" where
  "carve p k pg s = s\<lparr>m_page := (m_page s)(p \<mapsto> pg\<lparr>freeSize := freeSize pg - k, useOffset := useOffset pg + k\<rparr>),
     m_ptr := (m_ptr s)(p + nat (useOffset pg) + 4 \<mapsto> p), m_bsize := (m_bsize s)(p + nat (useOffset pg) \<mapsto> k)\<rparr>"

lemma AllocFromMemPage_cut:
  assumes "page_ok s ml p" "m_page s p = Some pg" "12 \<le> k" "useOffset pg + k \<le> memPageSize pg"
  shows "AllocFromMemPage p k s = Some (p + nat (useOffset pg) + 12, carve p k pg s)"
  using assms by (auto simp: AllocFromMemPage_def page_ok_def upd_page_def carve_def MEMORY_POOL_BLOCK_HEADER_SIZE_def
      MEMPAGE_INFO_LEN_def memPage_of_def Let_def)

lemma mem_ok_cut:
  assumes "mem_ok s" "page_ok s ml p" "m_page s p = Some pg" "12 \<le> k" "useOffset pg + k \<le> memPageSize pg"
  shows "mem_ok (carve p k pg s)"
proof -
  obtain n where n: "m_live s p = Some n" "memPageSize pg = int n" "40 \<le> useOffset pg" using assms(2,3) by (auto elim: page_okE)
  then have "p + n < m_brk s" "p < m_brk s" using mem_okD(2) [OF assms(1) n(1)] by simp_all
  then have b: "p < m_brk s" "p + nat (useOffset pg) < m_brk s" "p + nat (useOffset pg) + 4 < m_brk s"
    using n assms(4,5) by linarith+
  show ?thesis
    by (rule mem_ok_transfer [OF assms(1)]) (use mem_okD(4-9) [OF assms(1)] b in \<open>auto simp: carve_def\<close>)
qed

lemma page_ok_cut:
  assumes "page_ok s ml p" "m_page s p = Some pg" "12 \<le> k" "useOffset pg + k \<le> memPageSize pg" "page_ok s ml' q"
  shows "page_ok (carve p k pg s) ml' q" "page_size (carve p k pg s) q = page_size s q"
  using assms by (auto simp: page_ok_def page_size_def carve_def)

lemma used_cut:
  assumes "m_page s p = Some pg" "0 \<le> useOffset pg" "0 \<le> k" "p \<in> set ps"
  shows "used (carve p k pg s) ps = used s ps \<union> {p + nat (useOffset pg)..<p + nat (useOffset pg) + nat k}"
proof -
  have o: "q \<noteq> p \<Longrightarrow> used_of (carve p k pg s) q = used_of s q" for q by (simp add: used_of_def carve_def)
  have "used_of (carve p k pg s) p = used_of s p \<union> {p + nat (useOffset pg)..<p + nat (useOffset pg) + nat k}"
    using assms by (auto simp: used_of_def carve_def nat_add_distrib)
  then have eq: "used_of (carve p k pg s) q =
      (if q = p then used_of s p \<union> {p + nat (useOffset pg)..<p + nat (useOffset pg) + nat k} else used_of s q)" for q
    using o by simp
  show ?thesis using assms(4) unfolding used_def eq by auto
qed

lemma cut_fresh:
  assumes "mem_ok s" "ctx_ok s ctx ps" "p \<in> set ps" "m_page s p = Some pg" "useOffset pg + k \<le> memPageSize pg" "0 \<le> k"
  shows "{p + nat (useOffset pg)..<p + nat (useOffset pg) + nat k} \<inter> used s ps = {}"
proof -
  obtain n where n: "m_live s p = Some n" "memPageSize pg = int n" "40 \<le> useOffset pg"
    using ctx_okD(5) [OF assms(2,3)] assms(4) by (auto elim: page_okE)
  have sub: "{p + nat (useOffset pg)..<p + nat (useOffset pg) + nat k} \<subseteq> {p..<p + n}" using n assms(5,6) by auto
  have "used_of s q \<inter> {p + nat (useOffset pg)..<p + nat (useOffset pg) + nat k} = {}" if "q \<in> set ps" for q
  proof (cases "q = p")
    case True
    then show ?thesis using assms(4) by (auto simp: used_of_def)
  next
    case False
    then show ?thesis using pages_disjoint [OF assms(1) ctx_okD(5) [OF assms(2) that] n(1)] sub by blast
  qed
  then show ?thesis unfolding used_def by blast
qed

lemma cut_cell:
  assumes "mem_ok s" "ctx_ok s ctx ps" "p \<in> set ps" "m_page s p = Some pg" "12 \<le> k" "useOffset pg + k \<le> memPageSize pg"
    and "m_ptr s (currUsePage (memPageNode ctx)) = Some cur" "p = cur \<or> p \<noteq> hd ps"
  shows "m_ptr (carve p k pg s) (currUsePage (memPageNode ctx)) = Some cur"
proof -
  obtain n where n: "m_live s p = Some n" "memPageSize pg = int n" "40 \<le> useOffset pg"
    using ctx_okD(5) [OF assms(2,3)] assms(4) by (auto elim: page_okE)
  have "p \<noteq> hd ps \<Longrightarrow> p + (nat (useOffset pg) + 4) \<noteq> hd ps + 180"
    using live_disjoint [OF assms(1) n(1) cell_in_first_page(1) [OF assms(2)], of "nat (useOffset pg) + 4" 180] n assms(5,6)
    by linarith
  then show ?thesis using assms(7,8) cell_in_first_page(2) [OF assms(2)] by (auto simp: carve_def add.assoc)
qed

lemma ctx_ok_cut:
  assumes "mem_ok s" "ctx_ok s ctx ps" "p \<in> set ps" "m_page s p = Some pg" "12 \<le> k" "useOffset pg + k \<le> memPageSize pg"
    and "m_ptr s (currUsePage (memPageNode ctx)) = Some cur" "p = cur \<or> p \<noteq> hd ps"
  shows "ctx_ok (carve p k pg s) ctx ps"
proof -
  have "cur \<in> set ps" using ctx_okD(8) [OF assms(2)] assms(7) by auto
  then have "\<exists>cur\<in>set ps. m_ptr (carve p k pg s) (currUsePage (memPageNode ctx)) = Some cur"
    using cut_cell [OF assms] by blast
  moreover have "page_ok (carve p k pg s) (memPageNode ctx) q" "page_size (carve p k pg s) q = page_size s q" if "q \<in> set ps" for q
    using page_ok_cut [OF ctx_okD(5) [OF assms(2,3)] assms(4-6) ctx_okD(5) [OF assms(2) that]] by blast+
  moreover have "m_dl (carve p k pg s) = m_dl s" "m_total (carve p k pg s) = m_total s" by (simp_all add: carve_def)
  ultimately show ?thesis using ctx_okD [OF assms(2)] unfolding ctx_ok_def by auto
qed


section \<open>Page sizes\<close>

lemma and_page_mask: "(v::u64) AND 0xFFFFE000 = push_bit 13 (take_bit 19 (drop_bit 13 v))"
proof -
  have "(0xFFFFE000::u64) = push_bit 13 (mask 19)" by (simp add: push_bit_eq_mult mask_eq_exp_minus_1)
  then show ?thesis by (simp add: bit_eq_iff bit_simps) (auto simp: bit_simps)
qed

lemma unat_ucast32: "unat (ucast (k::u32) :: u64) = unat k"
proof -
  have "unat k < 2 ^ 32" using unsigned_less [of k, where ?'a = nat] by simp
  then show ?thesis by (simp add: unsigned_ucast_eq take_bit_nat_eq_self)
qed

lemma unat_ucast64:
  assumes "unat (v::u64) < 2 ^ 32"
  shows "unat (ucast v :: u32) = unat v"
  using assms by (simp add: unsigned_ucast_eq take_bit_nat_eq_self)

lemma align_size_unat:
  assumes "unat k + 8230 < 2 ^ 32"
  shows "unat (align_size k) = (unat k + 8230) div 8192 * 8192"
proof -
  define v where "v = (ucast k + 8230 :: u64)"
  have v: "unat v = unat k + 8230" using assms by (simp add: v_def unat_word_ariths unat_ucast32)
  have d: "unat (drop_bit 13 v) = (unat k + 8230) div 8192" by (simp add: drop_bit_eq_div unat_div v)
  have lt: "(unat k + 8230) div 8192 < 2 ^ 19" using assms by simp
  have "unat (take_bit 19 (drop_bit 13 v)) = take_bit 19 (unat (drop_bit 13 v))" by (rule unsigned_take_bit_eq)
  then have t: "unat (take_bit 19 (drop_bit 13 v)) = (unat k + 8230) div 8192" using d lt by (simp only: take_bit_nat_eq_self)
  have "unat (push_bit 13 (take_bit 19 (drop_bit 13 v))) = (unat k + 8230) div 8192 * 8192 mod 2 ^ 64"
    using t by (simp only: push_bit_eq_mult unat_word_ariths) simp
  then have u: "unat (push_bit 13 (take_bit 19 (drop_bit 13 v))) = (unat k + 8230) div 8192 * 8192"
    using lt by simp
  then have "unat (push_bit 13 (take_bit 19 (drop_bit 13 v))) < 2 ^ 32" using lt by simp
  then have "unat (ucast (push_bit 13 (take_bit 19 (drop_bit 13 v))) :: u32) = (unat k + 8230) div 8192 * 8192"
    using u by (simp only: unat_ucast64)
  moreover have "align_size k = ucast (v AND 0xFFFFE000)"
  proof -
    have "(ucast (NOT (0xFFFFE000::u32)) :: u64) = 0x1FFF" "(ucast (0xFFFFE000::u32) :: u64) = 0xFFFFE000" by simp_all
    then have "align_size k = ucast ((ucast k + 40 + 0x1FFF - 1 :: u64) AND 0xFFFFE000)"
      unfolding align_size_def MEMORY_POOL_PAGE_ALIG_def by (simp only:)
    moreover have "(ucast k + 40 + 0x1FFF - 1 :: u64) = v" by (simp add: v_def)
    ultimately show ?thesis by (simp only:)
  qed
  ultimately show ?thesis unfolding and_page_mask by simp
qed

lemma align_fits:
  assumes "unat k + 8230 < 2 ^ 32"
  shows "unat k + 40 \<le> unat (align_size k) \<longleftrightarrow> (unat k + 40) mod 8192 \<noteq> 1"
proof -
  define m where "m = unat k + 40"
  have r: "(m + 8190) mod 8192 = (if m mod 8192 < 2 then m mod 8192 + 8190 else m mod 8192 - 2)"
  proof -
    have "(m + 8190) mod 8192 = (m mod 8192 + 8190) mod 8192" by (simp add: mod_add_left_eq)
    moreover have "m mod 8192 < 8192" by simp
    ultimately show ?thesis by (cases "m mod 8192 < 2") (simp_all add: mod_if [of "_ + 8190"])
  qed
  have "(m + 8190) div 8192 * 8192 + (m + 8190) mod 8192 = m + 8190" by (rule div_mult_mod_eq)
  then have "m \<le> (m + 8190) div 8192 * 8192 \<longleftrightarrow> (m + 8190) mod 8192 \<le> 8190" by linarith
  moreover have "m mod 8192 < 8192" by simp
  ultimately have "m \<le> (m + 8190) div 8192 * 8192 \<longleftrightarrow> m mod 8192 \<noteq> 1" unfolding r by auto
  moreover have "unat k + 8230 = m + 8190" by (simp add: m_def)
  ultimately show ?thesis unfolding align_size_unat [OF assms] m_def [symmetric] by (simp only:)
qed


section \<open>Allocation\<close>

definition allocated :: "memst \<Rightarrow> ptr list \<Rightarrow> ptr \<Rightarrow> nat \<Rightarrow> memst \<Rightarrow> ptr list \<Rightarrow> bool" where
  "allocated s ps mem n s' ps' \<longleftrightarrow> used s ps \<subseteq> used s' ps' \<and> {mem..<mem + n} \<subseteq> used s' ps' \<and>
     {mem..<mem + n} \<inter> used s ps = {} \<and> (\<exists>qs. ps' = ps @ qs) \<and> mem \<noteq> NULL \<and>
     m_live s' |` (- set ps') = m_live s |` (- set ps)"

lemma AllocFromMemPage_allocated:
  assumes "mem_ok s" "ctx_ok s ctx ps" "p \<in> set ps" "m_page s p = Some pg" "12 \<le> k" "useOffset pg + k \<le> memPageSize pg"
    and "m_ptr s (currUsePage (memPageNode ctx)) = Some cur" "p = cur \<or> p \<noteq> hd ps"
  shows "\<exists>mem s'. AllocFromMemPage p k s = Some (mem, s') \<and> mem_ok s' \<and> ctx_ok s' ctx ps \<and>
    allocated s ps mem (nat k - 12) s' ps \<and> g_CurrentContext s' = g_CurrentContext s"
proof -
  have po: "page_ok s (memPageNode ctx) p" using ctx_okD(5) [OF assms(2,3)] .
  have uo: "0 \<le> useOffset pg" "0 \<le> k" using po assms(4,5) by (auto elim: page_okE)
  let ?b = "p + nat (useOffset pg)"
  have sub: "{?b + 12..<?b + 12 + (nat k - 12)} \<subseteq> {?b..<?b + nat k}" by auto
  have "{?b + 12..<?b + 12 + (nat k - 12)} \<inter> used s ps = {}"
    using sub cut_fresh [OF assms(1-4,6) uo(2)] by blast
  moreover have "{?b + 12..<?b + 12 + (nat k - 12)} \<subseteq> used (carve p k pg s) ps" "used s ps \<subseteq> used (carve p k pg s) ps"
    using sub unfolding used_cut [OF assms(4) uo assms(3)] by blast+
  ultimately have "allocated s ps (?b + 12) (nat k - 12) (carve p k pg s) ps"
    unfolding allocated_def by (simp add: carve_def)
  moreover have "g_CurrentContext (carve p k pg s) = g_CurrentContext s" by (simp add: carve_def)
  ultimately show ?thesis
    using AllocFromMemPage_cut [OF po assms(4-6)] mem_ok_cut [OF assms(1) po assms(4-6)] ctx_ok_cut [OF assms] by blast
qed

lemma used_append: "used s (ps @ qs) = used s ps \<union> used s qs"
  by (auto simp: used_def)

lemma used_same_pages:
  assumes "\<forall>p\<in>set ps. m_page s' p = m_page s p"
  shows "used s' ps = used s ps"
  using assms by (simp add: used_def used_of_def)

text \<open>Allocation from a page that was just added.\<close>

lemma alloc_in_new_page:
  assumes "mem_ok s" "ctx_ok s ctx ps" "12 \<le> k" "40 + k \<le> n" "n < 2 ^ 31"
    and "AddMemPageToContext (m_brk s) ctx sw (with_page n s) = Some (0, s')"
  shows "mem_ok s' \<and> ctx_ok s' ctx (ps @ [m_brk s]) \<and> (\<exists>mem s''. AllocFromMemPage (m_brk s) k s' = Some (mem, s'') \<and>
    mem_ok s'' \<and> ctx_ok s'' ctx (ps @ [m_brk s]) \<and> allocated s ps mem (nat k - 12) s'' (ps @ [m_brk s]) \<and>
    g_CurrentContext s'' = g_CurrentContext s)"
proof -
  have n40: "40 \<le> n" using assms(3,4) by simp
  obtain s1 where "AddMemPageToContext (m_brk s) ctx sw (with_page n s) = Some (0, s1)" and m1: "mem_ok s1"
    and c1: "ctx_ok s1 ctx (ps @ [m_brk s])"
    and pg: "m_page s1 = (m_page s)(m_brk s \<mapsto> (new_page n)\<lparr>memHead := memPageNode ctx\<rparr>)"
    and g1: "g_CurrentContext s1 = g_CurrentContext s" and l1: "m_live s1 = (m_live s)(m_brk s \<mapsto> nat n)"
    using AddMemPageToContext_ok [OF assms(1,2) n40, of sw] by blast
  then have s1: "s1 = s'" using assms(6) by simp
  have nb: "m_brk s \<notin> set ps" using ctx_ok_nodes [OF assms(1,2)] by auto
  have hd: "m_brk s \<noteq> hd (ps @ [m_brk s])" using nb ctx_okD(2,9) [OF assms(2)] by auto
  obtain cur where cur: "m_ptr s' (currUsePage (memPageNode ctx)) = Some cur" using ctx_okD(8) [OF c1] s1 by auto
  have "\<exists>mem s''. AllocFromMemPage (m_brk s) k s' = Some (mem, s'') \<and> mem_ok s'' \<and> ctx_ok s'' ctx (ps @ [m_brk s]) \<and>
      allocated s' (ps @ [m_brk s]) mem (nat k - 12) s'' (ps @ [m_brk s]) \<and> g_CurrentContext s'' = g_CurrentContext s'"
    using AllocFromMemPage_allocated [OF m1 c1, of "m_brk s" "(new_page n)\<lparr>memHead := memPageNode ctx\<rparr>" k cur]
      cur hd pg assms(3,4) s1 by (simp add: new_page_def)
  moreover have "used s' ps = used s ps" using nb pg s1 by (intro used_same_pages) auto
  moreover have "m_live s' |` (- set (ps @ [m_brk s])) = m_live s |` (- set ps)"
    using l1 s1 mem_ok_fresh(3) [OF assms(1)] by (auto simp: fun_eq_iff restrict_map_def)
  ultimately show ?thesis using m1 c1 g1 s1 by (auto simp: allocated_def used_append [of s'] Int_Un_distrib)
qed


lemma alloc_loop_allocated:
  assumes m: "mem_ok s" and c: "ctx_ok s ctx ps" and k: "12 \<le> k" "k < 4056"
  shows "\<exists>mem s' ps'. alloc_loop k ctx s = Some (mem, s') \<and> mem_ok s' \<and> ctx_ok s' ctx ps' \<and>
    allocated s ps mem (nat k - 12) s' ps' \<and> g_CurrentContext s' = g_CurrentContext s"
proof -
  obtain cur where cur: "cur \<in> set ps" "m_ptr s (currUsePage (memPageNode ctx)) = Some cur" using ctx_okD(8) [OF c] by blast
  obtain pg where pg: "m_page s cur = Some pg" using ctx_okD(5) [OF c cur(1)] by (auto elim: page_okE)
  have ctx0: "ctx \<noteq> NULL" using ctx_okD(1) [OF c] .
  show ?thesis
  proof (cases "k \<le> memPageSize pg - useOffset pg")
    case True
    then obtain mem s' where "AllocFromMemPage cur k s = Some (mem, s')" "mem_ok s'" "ctx_ok s' ctx ps"
      and al: "allocated s ps mem (nat k - 12) s' ps" "g_CurrentContext s' = g_CurrentContext s"
      using AllocFromMemPage_allocated [OF m c cur(1) pg k(1) _ cur(2)] by auto
    moreover have "mem \<noteq> NULL" using al(1) by (simp add: allocated_def)
    ultimately show ?thesis using True cur(2) pg k ctx0
      by (subst alloc_loop.simps) (auto simp: AllocFromMemContext_def)
  next
    case False
    have n40: "(40::int) \<le> 4096" by simp
    obtain s1 where s1: "AddMemPageToContext (m_brk s) ctx True (with_page 4096 s) = Some (0, s1)"
      and cell: "m_ptr s1 (currUsePage (memPageNode ctx)) = Some (m_brk s)"
      and pg1: "m_page s1 (m_brk s) = Some ((new_page 4096)\<lparr>memHead := memPageNode ctx\<rparr>)"
      using AddMemPageToContext_ok [OF m c n40, of True] by auto
    have bd: "40 + k \<le> 4096" "(4096::int) < 2 ^ 31" using k by simp_all
    obtain mem s2 where r: "AllocFromMemPage (m_brk s) k s1 = Some (mem, s2)" "mem_ok s2" "ctx_ok s2 ctx (ps @ [m_brk s])"
        "allocated s ps mem (nat k - 12) s2 (ps @ [m_brk s])" "g_CurrentContext s2 = g_CurrentContext s"
      using alloc_in_new_page [OF m c k(1) bd s1] by blast
    have first: "AllocFromMemContext k ctx s = Some (NULL, s)"
      using False cur(2) pg ctx0 by (simp add: AllocFromMemContext_def)
    have add: "AddNewPageToContext ctx s = Some (0, s1)"
      using s1 by (simp add: AddNewPageToContext_def fresh_page_eq [OF m])
    have second: "AllocFromMemContext k ctx s1 = Some (mem, s2)"
      using cell pg1 r(1) ctx0 k by (simp add: AllocFromMemContext_def new_page_def)
    have "mem \<noteq> NULL" using r(4) by (simp add: allocated_def)
    then have "alloc_loop k ctx s1 = Some (mem, s2)" using second by (subst alloc_loop.simps) simp
    then have "alloc_loop k ctx s = Some (mem, s2)" using first add by (subst alloc_loop.simps) simp
    then show ?thesis using r by blast
  qed
qed

lemma AllocFromMemPool_allocated:
  assumes m: "mem_ok s" and c: "ctx_ok s (g_CurrentContext s) ps" and sz: "unat sz < 2 ^ 31 - 2 ^ 14"
    and fits: "unat sz + 12 < 4056 \<or> (unat sz + 52) mod 8192 \<noteq> 1"
  shows "\<exists>mem s' ps'. AllocFromMemPool sz s = Some (mem, s') \<and> mem_ok s' \<and> ctx_ok s' (g_CurrentContext s) ps' \<and>
    allocated s ps mem (unat sz) s' ps' \<and> g_CurrentContext s' = g_CurrentContext s"
proof -
  let ?ctx = "g_CurrentContext s" and ?k = "sz + 12"
  have ctx0: "?ctx \<noteq> NULL" using ctx_okD(1) [OF c] .
  have k: "unat ?k = unat sz + 12" using sz by (simp add: unat_word_ariths)
  have ki: "sint ?k = int (unat sz + 12)" using sint_unat31 [of ?k] k sz by simp
  have cmp: "MEMORY_POOL_MIN_ALLOC_SIZE \<le> ucast ?k \<longleftrightarrow> 4056 \<le> unat sz + 12"
    by (simp only: word_le_nat_alt unat_ucast32 k MEMORY_POOL_MIN_ALLOC_SIZE_def) simp
  have hdr: "sz + of_nat MEMORY_POOL_BLOCK_HEADER_SIZE = ?k" by (simp add: MEMORY_POOL_BLOCK_HEADER_SIZE_def)
  have n12: "nat (sint ?k) - 12 = unat sz" unfolding ki nat_int by simp
  show ?thesis
  proof (cases "4056 \<le> unat sz + 12")
    case False
    then have "12 \<le> sint ?k" "sint ?k < 4056" unfolding ki by linarith+
    from alloc_loop_allocated [OF m c this] show ?thesis using False cmp hdr ctx0
      unfolding n12 by (simp add: AllocFromMemPool_def Let_def)
  next
    case True
    let ?n = "int (unat (align_size ?k))"
    have b: "unat ?k + 8230 < 2 ^ 32" using k sz by simp
    have k40: "unat ?k + 40 = unat sz + 52" using k by simp
    have "unat ?k + 40 \<le> unat (align_size ?k)" using align_fits [OF b] fits True unfolding k40 by linarith
    then have fit: "40 + sint ?k \<le> ?n" unfolding ki k40 by linarith
    have "unat (align_size ?k) \<le> unat ?k + 8230" unfolding align_size_unat [OF b] by (rule div_times_less_eq_dividend)
    then have n31: "unat (align_size ?k) < 2 ^ 31" using k sz by simp
    then have al: "sint (align_size ?k) = ?n" by (rule sint_unat31)
    have k12: "12 \<le> sint ?k" unfolding ki by linarith
    have n40: "40 \<le> ?n" using fit k12 by linarith
    have "?n < int (2 ^ 31)" using n31 by (simp only: of_nat_less_iff)
    then have n: "0 \<le> ?n" "?n < 2 ^ 31" "40 \<le> ?n" "12 \<le> sint ?k" using n40 k12 by simp_all
    obtain s1 where s1: "AddMemPageToContext (m_brk s) ?ctx False (with_page ?n s) = Some (0, s1)"
      using AddMemPageToContext_ok [OF m c n(3), of False] by blast
    have new: "(let (p, s) = NewMemPage ?n s in InitMemPage p ?n s) = Some (m_brk s, with_page ?n s)"
      using InitMemPage_new [OF m n(1,2)] .
    obtain mem s2 where r: "AllocFromMemPage (m_brk s) (sint ?k) s1 = Some (mem, s2)" "mem_ok s2" "ctx_ok s2 ?ctx (ps @ [m_brk s])"
        "allocated s ps mem (unat sz) s2 (ps @ [m_brk s])" "g_CurrentContext s2 = g_CurrentContext s"
      using alloc_in_new_page [OF m c n(4) fit n(2) s1] unfolding n12 by blast
    have "AllocFromMemPool sz s = Some (mem, s2)"
      using True cmp hdr ctx0 new s1 r(1) al by (simp add: AllocFromMemPool_def Let_def split: prod.splits)
    then show ?thesis using r by blast
  qed
qed


section \<open>Release of a context\<close>

definition pages_ok :: "memst \<Rightarrow> ptr \<Rightarrow> ptr list \<Rightarrow> bool" where
  "pages_ok s ml ps \<longleftrightarrow> ps \<noteq> [] \<and> dlst (m_dl s) ml ps \<and> (\<forall>p\<in>set ps. page_ok s ml p) \<and>
     hd ps + 156 = ml \<and> page_size s (hd ps) = MEMORY_POOL_PAGE_SIZE"

lemma ctx_pages_ok: "ctx_ok s ctx ps \<Longrightarrow> pages_ok s (memPageNode ctx) ps"
  by (auto simp: ctx_ok_def pages_ok_def memPageNode_def)

definition freed :: "ptr \<Rightarrow> memst \<Rightarrow> memst" where
  "freed p s = (clear_range p (the (m_live s p)) s)\<lparr>m_live := (m_live s)(p := None)\<rparr>"

lemma freed_fields:
  assumes "m_live s p = Some n"
  shows "m_dl (freed p s) = m_dl s |` (- {p..<p + n})" "m_page (freed p s) = m_page s |` (- {p..<p + n})"
    "m_live (freed p s) = (m_live s)(p := None)" "m_brk (freed p s) = m_brk s"
    "g_memPoolMangerContext (freed p s) = g_memPoolMangerContext s"
    "m_total (freed p s) = m_total s |` (- {p..<p + n})" "m_ptr (freed p s) = m_ptr s |` (- {p..<p + n})"
    "m_bsize (freed p s) = m_bsize s |` (- {p..<p + n})" "m_type (freed p s) = m_type s |` (- {p..<p + n})"
  using assms by (simp_all add: freed_def clear_range_def Let_def)

lemma mem_ok_freed:
  assumes "mem_ok s" "m_live s p = Some n"
  shows "mem_ok (freed p s)"
proof -
  have d: "dom m \<subseteq> B \<Longrightarrow> dom (m |` A) \<subseteq> B" for m :: "nat \<rightharpoonup> 'a" and A B by auto
  have l: "((m_live s)(p := None)) q = Some k \<longleftrightarrow> q \<noteq> p \<and> m_live s q = Some k" for q k by simp
  show ?thesis
    unfolding mem_ok_def freed_fields [OF assms(2)] l
    using assms(1) unfolding mem_ok_def by (auto simp: subset_iff)
qed

lemma ReleaseMemPage_freed:
  assumes "page_ok s ml p" "mem_ok s"
  shows "\<exists>r. ReleaseMemPage p s = Some (r, freed p s)"
proof -
  obtain pg n where pg: "m_page s p = Some pg" "m_live s p = Some n" using assms(1) by (auto elim: page_okE)
  have "p \<noteq> NULL" using mem_okD(2) [OF assms(2) pg(2)] by auto
  then have "MM_FreeMem p s = Some (freed p s)"
    using pg(2) by (simp add: MM_FreeMem_def free_def freed_def clear_range_def Let_def)
  then show ?thesis using pg(1) by (simp add: ReleaseMemPage_def AddPoolFreeList_def)
qed

lemma not_in_page:
  assumes "mem_ok s" "m_live s t = Some n" "m_live s p = Some k" "p \<noteq> t" "x < k"
  shows "p + x \<notin> {t..<t + n}"
  using live_disjoint [OF assms(1,3,2,4,5)] by (metis atLeastLessThan_iff le_Suc_ex add_less_cancel_left)

lemma pages_ok_freed:
  assumes m: "mem_ok s" and ps: "pages_ok s ml ps" and t: "m_live s t = Some n" "t \<notin> set ps"
  shows "pages_ok (freed t s) ml ps"
proof -
  have po: "page_ok s ml p" if "p \<in> set ps" for p using ps that by (simp add: pages_ok_def)
  have out: "p \<notin> {t..<t + n}" "p \<noteq> t" if "p \<in> set ps" for p
  proof -
    from po [of p] \<open>p \<in> set ps\<close> have "\<exists>k. m_live s p = Some k \<and> 40 \<le> int k"
      by (auto simp: page_ok_def MEMPAGE_INFO_LEN_def)
    then obtain k where k: "m_live s p = Some k" "40 \<le> int k" by blast
    show "p \<noteq> t" using \<open>p \<in> set ps\<close> t(2) by auto
    then show "p \<notin> {t..<t + n}" using not_in_page [OF m t(1) k(1), of 0] k by simp
  qed
  have hd: "hd ps \<in> set ps" using ps by (simp add: pages_ok_def)
  have "m_live s (hd ps) = Some 4096" 
  proof -
    have "page_size s (hd ps) = 4096" using ps by (simp add: pages_ok_def MEMORY_POOL_PAGE_SIZE_def)
    then show ?thesis using po [OF hd] by (auto simp: page_ok_def page_size_def)
  qed
  then have ml: "ml \<notin> {t..<t + n}" using not_in_page [OF m t(1) _ out(2) [OF hd], of 4096 156] ps by (simp add: pages_ok_def)
  have "dlst (m_dl (freed t s)) ml ps"
    unfolding dlst_def
  proof (rule ring_frame)
    show "ring (m_dl s) (ml # ps)" using ps by (simp only: pages_ok_def dlst_def)
    show "m_dl (freed t s) p = m_dl s p" if "p \<in> set (ml # ps)" for p
      using that out ml by (auto simp: freed_fields [OF t(1)] restrict_map_def)
  qed
  moreover have "page_ok (freed t s) ml p" "page_size (freed t s) p = page_size s p" if "p \<in> set ps" for p
    using po [OF that] out [OF that] by (auto simp: page_ok_def page_size_def freed_fields [OF t(1)] restrict_map_def)
  ultimately show ?thesis using ps hd by (simp add: pages_ok_def)
qed

lemma release_pages_loop_frees:
  assumes "mem_ok s" "pages_ok s ml (p0 # qs)"
  shows "\<exists>s'. release_pages_loop ml p0 (last (p0 # qs)) s = Some s' \<and> mem_ok s' \<and> pages_ok s' ml [p0] \<and>
    m_live s' = m_live s |` (- set qs)"
  using assms
proof (induction qs arbitrary: s rule: rev_induct)
  case Nil
  then show ?case by (subst release_pages_loop.simps) (simp add: restrict_map_def)
next
  case (snoc t qs)
  have r: "ring (m_dl s) (ml # p0 # qs @ [t])" and po: "page_ok s ml t" and ml: "ml \<noteq> NULL"
    using snoc.prems(2) ring_not_NULL [of _ "ml # p0 # qs @ [t]" ml] by (auto simp: pages_ok_def dlst_def simp del: ring.simps)
  have t: "t \<noteq> NULL" "t \<notin> set (p0 # qs)" "t \<noteq> p0" using ring_not_NULL [OF r, of t] ring_distinct [OF r] by auto
  obtain n where n: "m_live s t = Some n" using po by (auto elim: page_okE)
  have pre: "get_prev (m_dl s) t = Some (last (p0 # qs))"
  proof -
    have "ml # p0 # qs @ [t] = (ml # butlast (p0 # qs)) @ last (p0 # qs) # t # []"
      using append_butlast_last_id [of "p0 # qs"] by (simp del: butlast.simps last.simps)
    then show ?thesis using ring_prev_mid [of "m_dl s" "ml # butlast (p0 # qs)" "last (p0 # qs)" t "[]"] r by metis
  qed
  obtain h where h: "DelDListNode (m_dl s) (Some ml) t = Some (h, 1)" "dlst h ml (p0 # qs)" "dsame (m_dl s) h (set (ml # (p0 # qs) @ t # []))"
    using dl.lst_del [of "m_dl s" ml "p0 # qs" t "[]"] r by (auto simp: dlst_def simp del: ring.simps)
  let ?s = "s\<lparr>m_dl := h\<rparr>"
  have m: "mem_ok ?s" using h(3) mem_okD [OF snoc.prems(1)] by (intro mem_ok_transfer [OF snoc.prems(1)]) (auto simp: dsame_def)
  have po2: "page_ok ?s ml t" using po by (simp add: page_ok_def)
  have "pages_ok ?s ml (p0 # qs)" using snoc.prems(2) h(2) by (simp add: pages_ok_def page_ok_def page_size_def)
  then have ok: "pages_ok (freed t ?s) ml (p0 # qs)" using pages_ok_freed [OF m _ _ t(2)] n by simp
  have mf: "mem_ok (freed t ?s)" using mem_ok_freed [OF m, of t n] n by simp
  obtain r' where rel: "ReleaseMemPage t ?s = Some (r', freed t ?s)" using ReleaseMemPage_freed [OF po2 m] by blast
  obtain s' where s': "release_pages_loop ml p0 (last (p0 # qs)) (freed t ?s) = Some s'" "mem_ok s'" "pages_ok s' ml [p0]"
    "m_live s' = m_live (freed t ?s) |` (- set qs)" using snoc.IH [OF mf ok] by blast
  have "release_pages_loop ml p0 t s = Some s'"
    using t pre h(1) rel s'(1) by (subst release_pages_loop.simps) simp
  moreover have "m_live s' = m_live s |` (- set (qs @ [t]))"
    using s'(4) n t(2) by (auto simp: fun_eq_iff freed_fields(3) [of ?s t n] restrict_map_def)
  ultimately show ?case using s' by simp
qed

lemma ReleaseMemContext_frees:
  assumes m: "mem_ok s" and c: "ctx_ok s ctx ps"
  shows "\<exists>s'. ReleaseMemContext ctx s = Some (0, s') \<and> mem_ok s' \<and> m_live s' = m_live s |` (- set ps)"
proof -
  let ?ml = "memPageNode ctx"
  obtain p0 qs where ps: "ps = p0 # qs" using ctx_okD(2) [OF c] by (cases ps) auto
  have ok: "pages_ok s ?ml (p0 # qs)" using ctx_pages_ok [OF c] ps by simp
  have r: "ring (m_dl s) (?ml # p0 # qs)" using ok by (simp only: pages_ok_def dlst_def)
  obtain s1 where s1: "release_pages_loop ?ml p0 (last (p0 # qs)) s = Some s1" "mem_ok s1" "pages_ok s1 ?ml [p0]"
    "m_live s1 = m_live s |` (- set qs)" using release_pages_loop_frees [OF m ok] by blast
  have po: "page_ok s1 ?ml p0" using s1(3) by (simp add: pages_ok_def)
  then obtain n where n: "m_live s1 p0 = Some n" by (auto elim: page_okE)
  obtain r' where rel: "ReleaseMemPage p0 s1 = Some (r', freed p0 s1)" using ReleaseMemPage_freed [OF po s1(2)] by blast
  have "ReleaseMemContext ctx s = Some (0, freed p0 s1)"
    using ring_prev_head [OF r] ring_next_head [OF r] s1(1) rel by (simp add: ReleaseMemContext_def)
  moreover have "m_live (freed p0 s1) = m_live s |` (- set ps)"
    by (auto simp: fun_eq_iff freed_fields(3) [OF n] s1(4) restrict_map_def ps)
  ultimately show ?thesis using mem_ok_freed [OF s1(2) n] by blast
qed


section \<open>Creation of a context\<close>

lemma NewPoolMemContext_ok:
  assumes m: "mem_ok s"
  shows "\<exists>s'. NewPoolMemContext s = Some (m_brk s + 52, s') \<and> mem_ok s' \<and> ctx_ok s' (m_brk s + 52) [m_brk s] \<and>
    m_live s' = (m_live s)(m_brk s \<mapsto> 4096) \<and>
    m_page s' = (m_page s)(m_brk s \<mapsto> (new_page 4096)\<lparr>freeSize := 3920, useOffset := 176, memHead := m_brk s + 156\<rparr>) \<and>
    g_CurrentContext s' = g_CurrentContext s"
proof -
  let ?p = "m_brk s" and ?t = "with_page 4096 s"
  let ?ml = "m_brk s + 156"
  have mt: "mem_ok ?t" using mem_ok_with_page [OF m] by simp
  have pt: "m_page ?t ?p = Some (new_page 4096)" "page_ok ?t NULL ?p"
    by (simp_all add: with_page_def page_ok_def new_page_def MEMPAGE_INFO_LEN_def)
  let ?u = "carve ?p 136 (new_page 4096) ?t"
  have al: "AllocFromMemPage ?p 136 ?t = Some (?p + 52, ?u)" and mu: "mem_ok ?u"
    using AllocFromMemPage_cut [OF pt(2,1), of 136] mem_ok_cut [OF mt pt(2,1), of 136] by (simp_all add: new_page_def)
  define v where "v = ?u\<lparr>m_dl := (m_dl ?u)(?ml \<mapsto> \<lparr>d_prev = ?ml, d_next = ?ml\<rparr>),
     m_total := (m_total s)(?ml \<mapsto> 0), m_ptr := (m_ptr ?u)(?p + 180 \<mapsto> NULL)\<rparr>"
  have ini: "InitializePoolContext (?p + 52) ?u = Some (0, v)"
    by (simp add: InitializePoolContext_def memPageNode_def currUsePage_def init_zero_node v_def add.assoc)
       (simp add: carve_def with_page_def Let_def)
  have brk: "?p + 4096 < m_brk ?u" "m_brk v = m_brk ?u" by (simp_all add: carve_def with_page_def v_def)
  have mv: "mem_ok v"
  proof (rule mem_ok_transfer [OF mu])
    show "dom (m_dl v) \<subseteq> {..<m_brk ?u}" "dom (m_total v) \<subseteq> {..<m_brk ?u}" "dom (m_ptr v) \<subseteq> {..<m_brk ?u}"
      using mem_okD(4,6,7) [OF mu] brk by (auto simp: v_def carve_def with_page_def)
  qed (use mem_okD(5,8,9) [OF mu] in \<open>simp_all add: v_def\<close>)
  have pn: "m_dl v ?p = Some \<lparr>d_prev = ?p, d_next = ?p\<rparr>" "m_dl v ?ml = Some \<lparr>d_prev = ?ml, d_next = ?ml\<rparr>"
    by (simp_all add: v_def carve_def with_page_def)
  have p0: "?p \<noteq> NULL" using mem_ok_fresh(5) [OF m] .
  have "dlst (m_dl v) ?ml []" using pn by (auto simp: dlst_def linked_def get_next_def get_prev_def)
  then obtain h where h: "AddDListTail (m_dl v) ?ml ?p = Some (h, ?ml, 0)" "dlst h ?ml [?p]" "dsame (m_dl v) h (set [?p, ?ml])"
    using dl.lst_add_tail [of "m_dl v" ?ml "[]" ?p] pn(1) p0 by (auto simp: dnode_at_def)
  have pv: "m_page v ?p = Some ((new_page 4096)\<lparr>freeSize := 3920, useOffset := 176\<rparr>)" "m_total v ?ml = Some 0"
    by (simp_all add: v_def carve_def with_page_def new_page_def)
  let ?s' = "v\<lparr>m_total := (m_total v)(?ml \<mapsto> 4096), m_dl := h, m_ptr := (m_ptr v)(?p + 180 \<mapsto> ?p),
    m_page := (m_page v)(?p \<mapsto> (new_page 4096)\<lparr>freeSize := 3920, useOffset := 176, memHead := ?ml\<rparr>)\<rparr>"
  have add: "AddMemPageToContext ?p (?p + 52) True v = Some (0, ?s')"
    using pv h(1) by (simp add: AddMemPageToContext_def memPageNode_def currUsePage_def AddMemPageNode_def upd_page_def Let_def
        new_page_def add.assoc)
  have "NewPoolMemContext s = Some (?p + 52, ?s')"
    using al ini add by (simp add: NewPoolMemContext_def fresh_page_eq [OF m] MEMPOOL_CONTEXTINFO_SIZE_def)
  moreover have "mem_ok ?s'"
  proof (rule mem_ok_transfer [OF mv])
    show "dom (m_dl ?s') \<subseteq> {..<m_brk v}" using h(3) mem_okD(4) [OF mv] by (simp add: dsame_def)
    show "dom (m_page ?s') \<subseteq> {..<m_brk v}" "dom (m_total ?s') \<subseteq> {..<m_brk v}" "dom (m_ptr ?s') \<subseteq> {..<m_brk v}"
      using mem_okD(5,6,7) [OF mv] brk by auto
  qed (use mem_okD(8,9) [OF mv] in simp_all)
  moreover have "ctx_ok ?s' (?p + 52) [?p]"
    using h(2) p0 unfolding ctx_ok_def page_ok_def page_size_def
    by (simp add: memPageNode_def currUsePage_def new_page_def MEMPAGE_INFO_LEN_def MEMORY_POOL_PAGE_SIZE_def add.assoc)
       (simp add: v_def carve_def with_page_def)
  moreover have "m_live ?s' = (m_live s)(?p \<mapsto> 4096)" "g_CurrentContext ?s' = g_CurrentContext s"
    by (simp_all add: v_def carve_def with_page_def)
  moreover have "m_page ?s' = (m_page s)(?p \<mapsto> (new_page 4096)\<lparr>freeSize := 3920, useOffset := 176, memHead := ?ml\<rparr>)"
    by (simp add: v_def carve_def with_page_def)
  ultimately show ?thesis by blast
qed


section \<open>A context as a scope\<close>

text \<open>A sequence of allocations, with the blocks it yields.\<close>

fun alloc_run :: "u32 list \<Rightarrow> memst \<Rightarrow> (ptr list \<times> memst) option" where
  "alloc_run [] s = Some ([], s)"
| "alloc_run (n # ns) s = do {
     (mem, s) \<leftarrow> AllocMemWithPool n s;
     (ms, s) \<leftarrow> alloc_run ns s;
     Some (mem # ms, s) }"

text \<open>\<open>fresh_blocks U bs\<close>: the blocks are disjoint from \<open>U\<close> and from each other.\<close>

fun fresh_blocks :: "nat set \<Rightarrow> (ptr \<times> nat) list \<Rightarrow> bool" where
  "fresh_blocks U [] \<longleftrightarrow> True"
| "fresh_blocks U ((m, n) # bs) \<longleftrightarrow> {m..<m + n} \<inter> U = {} \<and> fresh_blocks (U \<union> {m..<m + n}) bs"

definition good_size :: "u32 \<Rightarrow> bool" where
  "good_size n \<longleftrightarrow> unat n < 2 ^ 31 - 2 ^ 14 \<and> (unat n + 12 < 4056 \<or> (unat n + 52) mod 8192 \<noteq> 1)"

lemma fresh_blocks_mono: "fresh_blocks U bs \<Longrightarrow> V \<subseteq> U \<Longrightarrow> fresh_blocks V bs"
proof (induction U bs arbitrary: V rule: fresh_blocks.induct)
  case (2 U m n bs)
  have "fresh_blocks (V \<union> {m..<m + n}) bs" using "2.IH" [of "V \<union> {m..<m + n}"] "2.prems" by auto
  then show ?case using "2.prems" by auto
qed simp

lemma alloc_run_ok:
  assumes "mem_ok s" "ctx_ok s (g_CurrentContext s) ps" "\<forall>n\<in>set ns. good_size n"
  shows "\<exists>ms s' ps'. alloc_run ns s = Some (ms, s') \<and> mem_ok s' \<and> ctx_ok s' (g_CurrentContext s) ps' \<and>
    fresh_blocks (used s ps) (zip ms (map unat ns)) \<and> m_live s' |` (- set ps') = m_live s |` (- set ps)"
  using assms
proof (induction ns arbitrary: s ps)
  case Nil
  then show ?case by auto
next
  case (Cons n ns)
  obtain mem s1 ps1 where s1: "AllocFromMemPool n s = Some (mem, s1)" "mem_ok s1" "ctx_ok s1 (g_CurrentContext s) ps1"
    "allocated s ps mem (unat n) s1 ps1" "g_CurrentContext s1 = g_CurrentContext s"
    using AllocFromMemPool_allocated [OF Cons.prems(1,2), of n] Cons.prems(3) by (auto simp: good_size_def)
  obtain ms s2 ps2 where s2: "alloc_run ns s1 = Some (ms, s2)" "mem_ok s2" "ctx_ok s2 (g_CurrentContext s) ps2"
    "fresh_blocks (used s1 ps1) (zip ms (map unat ns))" "m_live s2 |` (- set ps2) = m_live s1 |` (- set ps1)"
    using Cons.IH [of s1 ps1] s1 Cons.prems(3) by auto
  have "used s ps \<union> {mem..<mem + unat n} \<subseteq> used s1 ps1" using s1(4) unfolding allocated_def by blast
  then have "fresh_blocks (used s ps \<union> {mem..<mem + unat n}) (zip ms (map unat ns))" using fresh_blocks_mono [OF s2(4)] by blast
  then show ?case using s1 s2 by (auto simp: allocated_def AllocMemWithPool_def)
qed

text \<open>The memory at the start of the program: only the static list header exists.\<close>

definition start_mem :: memst where
  "start_mem = \<lparr>m_dl = [g_MemList \<mapsto> \<lparr>d_prev = NULL, d_next = NULL\<rparr>], m_page = Map.empty, m_total = Map.empty,
     m_ptr = Map.empty, m_bsize = Map.empty, m_type = Map.empty, m_live = Map.empty, m_brk = 16,
     g_memPoolMangerContext = None, g_CurrentContext = NULL\<rparr>"

lemma start_mem_ok: "mem_ok start_mem"
  by (simp add: mem_ok_def start_mem_def g_MemList_def)

section \<open>Properties\<close>

text \<open>C10: A memory context is a scope. In a well-formed memory, creating a context,
  allocating blocks of any sizes that the page arithmetic can serve and releasing the
  context succeeds; the blocks are disjoint from each other and from all memory that was in
  use in the context before, and the release gives back exactly the memory that was
  obtained from the system since.\<close>
theorem context_scope_returns_memory:
  assumes "mem_ok s" and "\<forall>n\<in>set ns. good_size n"
  shows "\<exists>ctx s1 ms s2 s3. NewPoolMemContext s = Some (ctx, s1) \<and>
    alloc_run ns (snd (MemMangerSwitchContext ctx s1)) = Some (ms, s2) \<and>
    fresh_blocks {ctx - 52..<ctx + 124} (zip ms (map unat ns)) \<and>
    ReleaseMemContext ctx s2 = Some (0, s3) \<and> m_live s3 = m_live s"
proof -
  let ?ctx = "m_brk s + 52"
  obtain s1 where s1: "NewPoolMemContext s = Some (?ctx, s1)" "mem_ok s1" "ctx_ok s1 ?ctx [m_brk s]"
    "m_live s1 = (m_live s)(m_brk s \<mapsto> 4096)"
    "m_page s1 = (m_page s)(m_brk s \<mapsto> (new_page 4096)\<lparr>freeSize := 3920, useOffset := 176, memHead := m_brk s + 156\<rparr>)"
    using NewPoolMemContext_ok [OF assms(1)] by blast
  define t where "t = snd (MemMangerSwitchContext ?ctx s1)"
  have t: "g_CurrentContext t = ?ctx" "m_live t = m_live s1" "m_page t = m_page s1"
    and tt: "t = s1\<lparr>g_CurrentContext := ?ctx\<rparr>"
    by (simp_all add: t_def MemMangerSwitchContext_def Let_def)
  have mt: "mem_ok t" using s1(2) by (simp add: tt mem_ok_def)
  have ct: "ctx_ok t (g_CurrentContext t) [m_brk s]" using s1(3) by (simp add: tt ctx_ok_def page_ok_def page_size_def)
  obtain ms s2 ps where s2: "alloc_run ns t = Some (ms, s2)" "mem_ok s2" "ctx_ok s2 ?ctx ps"
    "fresh_blocks (used t [m_brk s]) (zip ms (map unat ns))" "m_live s2 |` (- set ps) = m_live t |` (- set [m_brk s])"
    using alloc_run_ok [OF mt ct assms(2)] t(1) by auto
  obtain s3 where s3: "ReleaseMemContext ?ctx s2 = Some (0, s3)" "m_live s3 = m_live s2 |` (- set ps)"
    using ReleaseMemContext_frees [OF s2(2,3)] by blast
  have "m_live s3 = m_live s"
    using s3(2) s2(5) t(2) s1(4) mem_ok_fresh(3) [OF assms(1)] by (auto simp: fun_eq_iff restrict_map_def)
  moreover have "used t [m_brk s] = {m_brk s..<m_brk s + 176}" by (simp add: used_def used_of_def t(3) s1(5))
  ultimately show ?thesis using s1(1) s2 s3(1) unfolding t_def by (intro exI) (auto simp: add.commute)
qed

theorem context_scope_returns_memory_witness:
  "\<exists>ctx s1 ms s2 s3. NewPoolMemContext start_mem = Some (ctx, s1) \<and>
    alloc_run [100, 4000, 9000] (snd (MemMangerSwitchContext ctx s1)) = Some (ms, s2) \<and>
    ReleaseMemContext ctx s2 = Some (0, s3) \<and> m_live s3 = Map.empty"
proof -
  have "\<forall>n\<in>set [100, 4000, 9000]. good_size n" by (simp add: good_size_def)
  from context_scope_returns_memory [OF start_mem_ok this] show ?thesis by (auto simp: start_mem_def)
qed

text \<open>The page for an oversized block is too small exactly when the size with both
  headers is one more than a multiple of 8192: the rounding adds one less than it should,
  and the last byte of the block lies behind the page.\<close>
theorem oversize_page_one_byte_short:
  assumes "unat k + 8230 < 2 ^ 32"
  shows "unat (align_size k) < unat k + 40 \<longleftrightarrow> (unat k + 40) mod 8192 = 1"
  using align_fits [OF assms] by (simp only: not_le [symmetric]) simp

theorem oversize_page_one_byte_short_witness: "unat (align_size 8153) = 8192 \<and> unat (8153::u32) + 40 = 8193"
  using oversize_page_one_byte_short [of 8153] align_size_unat [of 8153] by simp


text \<open>
  The header of the first block after the context lies on the last twelve bytes of the
  context: its field \<open>memPage\<close> is the field \<open>currUsePage\<close>.
\<close>

lemma first_block_overlays_context:
  "memPage_of (hd ps + 176) = currUsePage (memPageNode (hd ps + 52))"
  by (simp add: memPage_of_def currUsePage_def memPageNode_def)

text \<open>The release of the first block that was allocated in a context is charged to
  the page that is current at the time of the release and not to the page of the block,
  because the block's page pointer and the context's pointer to its current page are the
  same memory.\<close>
theorem first_block_released_on_current_page:
  assumes "ctx_ok s ctx ps" and "m_ptr s (currUsePage (memPageNode ctx)) = Some cur"
    and "m_page s cur = Some pg" and "m_bsize s (hd ps + 176) = Some b"
    and "cur \<noteq> NULL" and "releaseSize pg + b \<noteq> memPageSize pg"
  shows "ReleaseToMemPool (hd ps + 188) s = Some (0, s\<lparr>m_page := (m_page s)(cur \<mapsto> pg\<lparr>releaseSize := releaseSize pg + b\<rparr>)\<rparr>)"
proof -
  have "m_ptr s (memPage_of (hd ps + 176)) = Some cur"
    using assms(2) ctx_okD(3) [OF assms(1)] unfolding first_block_overlays_context by simp
  then show ?thesis using assms(3-6)
    by (simp add: ReleaseToMemPool_def ReleaseToMemPage_def MEMORY_POOL_BLOCK_HEADER_SIZE_def upd_page_def Let_def add.commute [of _ "hd ps"])
qed


lemmas mem_eval = NewPoolMemContext_def AddNewPageToContext_def fresh_page_eq AllocFromMemPage_def InitializePoolContext_def
  AddMemPageToContext_def AddMemPageNode_def AddDListTail_def set_next_def set_prev_def get_next_def get_prev_def
  init_zero_node upd_page_def memPageNode_def currUsePage_def memPage_of_def with_page_def new_page_def
  MEMPOOL_CONTEXTINFO_SIZE_def MEMORY_POOL_BLOCK_HEADER_SIZE_def Let_def

text \<open>A new context with one block, and the state after an allocation that needs a second page.\<close>

definition one_block :: memst where
  "one_block = start_mem\<lparr>m_dl := [8 \<mapsto> \<lparr>d_prev = 0, d_next = 0\<rparr>, 16 \<mapsto> \<lparr>d_prev = 172, d_next = 172\<rparr>, 172 \<mapsto> \<lparr>d_prev = 16, d_next = 16\<rparr>],
     m_page := [16 \<mapsto> \<lparr>memHead = 172, memPageSize = 4096, useOffset = 288, freeSize = 3808, releaseSize = 40\<rparr>],
     m_total := [172 \<mapsto> 4096], m_ptr := [60 \<mapsto> 16, 196 \<mapsto> 16], m_bsize := [56 \<mapsto> 136, 192 \<mapsto> 112],
     m_live := [16 \<mapsto> 4096], m_brk := 4128, g_CurrentContext := 68\<rparr>"

definition two_pages :: memst where
  "two_pages = one_block\<lparr>m_dl := [8 \<mapsto> \<lparr>d_prev = 0, d_next = 0\<rparr>, 4128 \<mapsto> \<lparr>d_prev = 16, d_next = 172\<rparr>,
       16 \<mapsto> \<lparr>d_prev = 172, d_next = 4128\<rparr>, 172 \<mapsto> \<lparr>d_prev = 4128, d_next = 16\<rparr>],
     m_page := [16 \<mapsto> \<lparr>memHead = 172, memPageSize = 4096, useOffset = 288, freeSize = 3808, releaseSize = 40\<rparr>,
       4128 \<mapsto> \<lparr>memHead = 172, memPageSize = 4096, useOffset = 4052, freeSize = 44, releaseSize = 40\<rparr>],
     m_total := [172 \<mapsto> 8192], m_ptr := [60 \<mapsto> 16, 196 \<mapsto> 4128, 4172 \<mapsto> 4128], m_bsize := [56 \<mapsto> 136, 192 \<mapsto> 112, 4168 \<mapsto> 4012],
     m_live := [16 \<mapsto> 4096, 4128 \<mapsto> 4096], m_brk := 8240\<rparr>"

lemma one_block_run:
  "\<exists>s1. NewPoolMemContext start_mem = Some (68, s1) \<and> AllocMemWithPool 100 (snd (MemMangerSwitchContext 68 s1)) = Some (204, one_block)"
proof -
  let ?s1 = "one_block\<lparr>m_page := [16 \<mapsto> \<lparr>memHead = 172, memPageSize = 4096, useOffset = 176, freeSize = 3920, releaseSize = 40\<rparr>],
    m_bsize := [56 \<mapsto> 136], g_CurrentContext := 0\<rparr>"
  have "NewPoolMemContext start_mem = Some (68, ?s1)"
    by (simp add: mem_eval start_mem_ok) (simp add: start_mem_def one_block_def g_MemList_def)
  moreover have "AllocMemWithPool 100 (snd (MemMangerSwitchContext 68 ?s1)) = Some (204, one_block)"
    by (simp add: AllocMemWithPool_def AllocFromMemPool_def MemMangerSwitchContext_def mem_eval MEMORY_POOL_MIN_ALLOC_SIZE_def one_block_def)
       (subst alloc_loop.simps, simp add: AllocFromMemContext_def mem_eval)
  ultimately show ?thesis by blast
qed

lemma one_block_ok: "mem_ok one_block"
  by (auto simp: mem_ok_def one_block_def start_mem_def)

lemma two_pages_run: "AllocMemWithPool 4000 one_block = Some (4180, two_pages)"
proof -
  have "AllocFromMemContext 4012 68 one_block = Some (NULL, one_block)"
    by (simp add: AllocFromMemContext_def mem_eval one_block_def)
  moreover obtain s1 where s1: "AddNewPageToContext 68 one_block = Some (0, s1)" "AllocFromMemContext 4012 68 s1 = Some (4180, two_pages)"
    by (simp add: mem_eval one_block_ok AllocFromMemContext_def) (simp add: one_block_def start_mem_def two_pages_def mem_eval)
  then have "alloc_loop 4012 68 s1 = Some (4180, two_pages)" by (subst alloc_loop.simps) simp
  ultimately have "alloc_loop 4012 68 one_block = Some (4180, two_pages)" using s1(1) by (subst alloc_loop.simps) simp
  then show ?thesis
    by (simp add: AllocMemWithPool_def AllocFromMemPool_def mem_eval MEMORY_POOL_MIN_ALLOC_SIZE_def one_block_def)
qed

lemma two_pages_ok: "ctx_ok two_pages 68 [16, 4128]"
  by (simp add: ctx_ok_def dlst_def linked_def get_next_def get_prev_def page_ok_def page_size_def two_pages_def one_block_def start_mem_def
      memPageNode_def currUsePage_def MEMPAGE_INFO_LEN_def MEMORY_POOL_PAGE_SIZE_def)

theorem first_block_released_on_current_page_witness:
  "\<exists>s1. NewPoolMemContext start_mem = Some (68, s1) \<and> AllocMemWithPool 100 (snd (MemMangerSwitchContext 68 s1)) = Some (204, one_block) \<and>
     AllocMemWithPool 4000 one_block = Some (4180, two_pages) \<and>
     ReleaseToMemPool 204 two_pages = Some (0, two_pages\<lparr>m_page := (m_page two_pages)(4128 \<mapsto>
       \<lparr>memHead = 172, memPageSize = 4096, useOffset = 4052, freeSize = 44, releaseSize = 152\<rparr>)\<rparr>)"
  using one_block_run two_pages_run first_block_released_on_current_page [OF two_pages_ok, of 4128
      "\<lparr>memHead = 172, memPageSize = 4096, useOffset = 4052, freeSize = 44, releaseSize = 40\<rparr>" 112]
  by (simp add: two_pages_def currUsePage_def memPageNode_def)

end
