(* ===== verification/DataTypes.thy ===== *)
theory DataTypes
  imports Toadb_Prelude "HOL-Library.Monad_Syntax" "HOL-Library.Word" "HOL-Library.Signed_Division"
begin

text \<open>
  The data types of SQL values, after \<^verbatim>\<open>src/sqlcore/dictionary\<close>: the sizes and the truth
  of values (\<^verbatim>\<open>dataTypes.c\<close>), the operators of the integer, string, char and boolean types
  (\<^verbatim>\<open>datatypes/*.c\<close>), the table of the types (\<^verbatim>\<open>dataTypeProc.c\<close>) and their dispatch
  (\<^verbatim>\<open>expreCompute.c\<close>).

  A value (\<^verbatim>\<open>ExprDataInfo\<close>) carries its type, its size and the union \<^verbatim>\<open>Data\<close>, eight bytes
  of which every member is a prefix (the machine is little-endian). Strings are bytes in memory
  up to a zero byte. Behaviour that C leaves undefined, an access to memory that does not
  exist, signed overflow or a division by zero, has no result. Floating point arithmetic is an
  argument, \<open>fl\<close>: the subtraction of two \<^verbatim>\<open>float\<close> values and the comparisons of a value with
  FLOAT_EPSILON.
\<close>

unbundle bit_operations_syntax

section \<open>Memory and strings\<close>

type_synonym cmem = "u64 \<rightharpoonup> byte"

partial_function (option) strlen :: "cmem \<Rightarrow> u64 \<Rightarrow> nat option" where
  "strlen m p = do {
     b \<leftarrow> m p;
     if b = 0 then Some 0 else do { n \<leftarrow> strlen m (p + 1); Some (Suc n) } }"

fun strncmp :: "cmem \<Rightarrow> nat \<Rightarrow> u64 \<Rightarrow> u64 \<Rightarrow> int option" where
  "strncmp m 0 p q = Some 0"
| "strncmp m (Suc n) p q = do {
     x \<leftarrow> m p;
     y \<leftarrow> m q;
     if x \<noteq> y then Some (uint x - uint y)
     else if x = 0 then Some 0
     else strncmp m n (p + 1) (q + 1) }"

text \<open>The conversion of a \<^verbatim>\<open>size_t\<close> to \<^verbatim>\<open>int\<close>.\<close>

definition trunc_int :: "nat \<Rightarrow> int" where
  "trunc_int n = sint (of_nat n :: i32)"

text \<open>A length of type \<^verbatim>\<open>int\<close> is converted to \<^verbatim>\<open>size_t\<close>.\<close>

definition hat_strncmp :: "cmem \<Rightarrow> u64 \<Rightarrow> u64 \<Rightarrow> int \<Rightarrow> int option" where
  "hat_strncmp m p q len = strncmp m (unat (of_int len :: u64)) p q"

section \<open>Types and values\<close>

datatype valueType = VT_UNKNOWN | VT_POINTER | VT_INT | VT_INTEGER | VT_VARCHAR | VT_STRING
  | VT_CHAR | VT_DOUBLE | VT_FLOAT | VT_BOOL | VT_MAX

definition HAT_FALSE :: i32 where "HAT_FALSE = 0"
definition HAT_TRUE :: i32 where "HAT_TRUE = 1"

record ExprDataInfo =
  edType :: valueType
  edSize :: int
  edData :: u64

definition iData :: "u64 \<Rightarrow> i32" where "iData d = ucast d"
definition fData :: "u64 \<Rightarrow> i32" where "fData d = ucast d"
definition cData :: "u64 \<Rightarrow> byte" where "cData d = ucast d"

definition set_iData :: "i32 \<Rightarrow> u64 \<Rightarrow> u64" where
  "set_iData v d = (d AND NOT (mask 32)) OR ucast v"

definition set_cData :: "byte \<Rightarrow> u64 \<Rightarrow> u64" where
  "set_cData v d = (d AND NOT (mask 8)) OR ucast v"

definition column_types :: "(string \<times> int) list" where
  "column_types = [(''UNKNOWN'', 0), (''pointer'', 1), (''int'', 2), (''integer'', 3), (''varchar'', 4),
     (''string'', 5), (''char'', 6), (''double'', 7), (''float'', 8), (''bool'', 9)]"

definition GetColumnType :: "string \<Rightarrow> int" where
  "GetColumnType name = fold (\<lambda>(n, i) index. if name = n then i else index) column_types (-1)"

definition getDataTypeSize :: "cmem \<Rightarrow> u64 \<Rightarrow> valueType \<Rightarrow> int option" where
  "getDataTypeSize m pval type =
     (case type of
        VT_POINTER \<Rightarrow> Some 8
      | VT_INT \<Rightarrow> Some 4
      | VT_INTEGER \<Rightarrow> Some 4
      | VT_VARCHAR \<Rightarrow> map_option trunc_int (strlen m pval)
      | VT_STRING \<Rightarrow> map_option trunc_int (strlen m pval)
      | VT_CHAR \<Rightarrow> Some 1
      | VT_DOUBLE \<Rightarrow> Some 8
      | VT_FLOAT \<Rightarrow> Some 4
      | VT_BOOL \<Rightarrow> Some 1
      | _ \<Rightarrow> Some 0)"

text \<open>Reading \<open>n\<close> bytes of memory as a little-endian number.\<close>

fun load :: "cmem \<Rightarrow> nat \<Rightarrow> u64 \<Rightarrow> u64 option" where
  "load m 0 p = Some 0"
| "load m (Suc n) p = do { b \<leftarrow> m p; r \<leftarrow> load m n (p + 1); Some (ucast b + 256 * r) }"

text \<open>
  \<^verbatim>\<open>getDataInfo\<close> stores the value at \<open>pval\<close> in \<open>res\<close>; \<open>None\<close> is the null pointer for
  \<open>res\<close> and for the result.
\<close>

definition getDataInfo :: "cmem \<Rightarrow> u64 \<Rightarrow> valueType \<Rightarrow> ExprDataInfo option \<Rightarrow> ExprDataInfo option option" where
  "getDataInfo m pval type res =
     (case res of
        None \<Rightarrow> Some None
      | Some r \<Rightarrow>
          if pval = 0 then Some None
          else do {
            let r = r\<lparr>edType := type\<rparr>;
            n \<leftarrow> getDataTypeSize m pval type;
            case type of
              VT_POINTER \<Rightarrow> Some (Some (r\<lparr>edSize := n, edData := pval\<rparr>))
            | VT_INT \<Rightarrow> do { v \<leftarrow> load m 4 pval; Some (Some (r\<lparr>edSize := n, edData := set_iData (ucast v) (edData r)\<rparr>)) }
            | VT_INTEGER \<Rightarrow> do { v \<leftarrow> load m 4 pval; Some (Some (r\<lparr>edSize := n, edData := set_iData (ucast v) (edData r)\<rparr>)) }
            | VT_VARCHAR \<Rightarrow> Some (Some (r\<lparr>edSize := n, edData := pval\<rparr>))
            | VT_STRING \<Rightarrow> Some (Some (r\<lparr>edSize := n, edData := pval\<rparr>))
            | VT_CHAR \<Rightarrow> do { v \<leftarrow> m pval; Some (Some (r\<lparr>edSize := n, edData := set_cData v (edData r)\<rparr>)) }
            | VT_DOUBLE \<Rightarrow> do { v \<leftarrow> load m 8 pval; Some (Some (r\<lparr>edSize := n, edData := v\<rparr>)) }
            | VT_FLOAT \<Rightarrow> do { v \<leftarrow> load m 4 pval; Some (Some (r\<lparr>edSize := n, edData := set_iData (ucast v) (edData r)\<rparr>)) }
            | VT_BOOL \<Rightarrow> do { v \<leftarrow> m pval; Some (Some (r\<lparr>edSize := n, edData := set_iData (scast v) (edData r)\<rparr>)) }
            | _ \<Rightarrow> Some (Some r) })"

text \<open>The call \<^verbatim>\<open>getDataInfo(&result, VT_INT, resExprData)\<close> with a local variable.\<close>

definition int_result :: "i32 \<Rightarrow> ExprDataInfo \<Rightarrow> ExprDataInfo" where
  "int_result v r = r\<lparr>edType := VT_INT, edSize := 4, edData := set_iData v (edData r)\<rparr>"

text \<open>
  What the code needs of floating point: \<open>fl_sub\<close> subtracts, \<open>fl_above\<close> and \<open>fl_below\<close> say that
  a value is greater than FLOAT_EPSILON and less than its negative, \<open>fl_near\<close> that its absolute
  value is less than FLOAT_EPSILON, \<open>fl_far\<close> and \<open>dbl_far\<close> that the absolute value of a
  \<^verbatim>\<open>float\<close> and of a \<^verbatim>\<open>double\<close> is greater.
\<close>

record floats =
  fl_sub :: "i32 \<Rightarrow> i32 \<Rightarrow> i32"
  fl_above :: "i32 \<Rightarrow> bool"
  fl_below :: "i32 \<Rightarrow> bool"
  fl_near :: "i32 \<Rightarrow> bool"
  fl_far :: "i32 \<Rightarrow> bool"
  dbl_far :: "u64 \<Rightarrow> bool"

datatype A_A_Expr_Op_Type = LESS | LESS_EQUAL | EQUAL | GREATER_EQUAL | GREATER | NOT_EQUAL | POSITIVE | NEGATIVE
  | PLUS | MINUS | MULTIPLE | DIVISIION | MOD | BOOLVALUE | Op_Type_MAX

definition getDataBool :: "floats \<Rightarrow> ExprDataInfo option \<Rightarrow> bool" where
  "getDataBool fl info =
     (case info of
        None \<Rightarrow> True
      | Some e \<Rightarrow>
          (case edType e of
             VT_POINTER \<Rightarrow> edData e \<noteq> 0
           | VT_INT \<Rightarrow> iData (edData e) \<noteq> 0
           | VT_INTEGER \<Rightarrow> iData (edData e) \<noteq> 0
           | VT_VARCHAR \<Rightarrow> edData e \<noteq> 0 \<and> edSize e > 0
           | VT_STRING \<Rightarrow> edData e \<noteq> 0 \<and> edSize e > 0
           | VT_CHAR \<Rightarrow> cData (edData e) \<noteq> 0
           | VT_DOUBLE \<Rightarrow> dbl_far fl (edData e)
           | VT_FLOAT \<Rightarrow> fl_far fl (fData (edData e))
           | VT_BOOL \<Rightarrow> iData (edData e) \<noteq> 0
           | _ \<Rightarrow> False))"

section \<open>Operators\<close>

text \<open>
  An operator gets the memory, both operands and the result register and returns the new
  content of the register.
\<close>

type_synonym operator = "cmem \<Rightarrow> ExprDataInfo \<Rightarrow> ExprDataInfo \<Rightarrow> ExprDataInfo \<Rightarrow> ExprDataInfo option"

definition truth :: "bool \<Rightarrow> i32" where
  "truth b = (if b then HAT_TRUE else HAT_FALSE)"

subsection \<open>Integers\<close>

text \<open>A computed \<^verbatim>\<open>int\<close> that does not fit is undefined.\<close>

definition int32 :: "int \<Rightarrow> i32 option" where
  "int32 v = (if - (2 ^ 31) \<le> v \<and> v < 2 ^ 31 then Some (of_int v) else None)"

definition ival :: "ExprDataInfo \<Rightarrow> int" where
  "ival e = sint (iData (edData e))"

definition int32GreaterOperator :: operator where
  "int32GreaterOperator m l r res = Some (int_result (truth (ival l > ival r)) res)"

definition int32GreaterEqualOperator :: operator where
  "int32GreaterEqualOperator m l r res = Some (int_result (truth (ival l \<ge> ival r)) res)"

definition int32EqualOperator :: operator where
  "int32EqualOperator m l r res = Some (int_result (truth (ival l = ival r)) res)"

definition int32LessEqualOperator :: operator where
  "int32LessEqualOperator m l r res = Some (int_result (truth (ival l \<le> ival r)) res)"

definition int32LessOperator :: operator where
  "int32LessOperator m l r res = Some (int_result (truth (ival l < ival r)) res)"

definition int32NotEqualOperator :: operator where
  "int32NotEqualOperator m l r res = Some (int_result (truth (ival l \<noteq> ival r)) res)"

definition int32PositiveOperator :: operator where
  "int32PositiveOperator m l r res =
     do { v \<leftarrow> int32 (if ival l \<ge> 0 then ival l else ival l * -1); Some (int_result v res) }"

definition int32NegtiveOperator :: operator where
  "int32NegtiveOperator m l r res =
     do { v \<leftarrow> int32 (if ival l > 0 then ival l * -1 else ival l); Some (int_result v res) }"

definition int32PlusOperator :: operator where
  "int32PlusOperator m l r res = do { v \<leftarrow> int32 (ival l + ival r); Some (int_result v res) }"

definition int32MinusOperator :: operator where
  "int32MinusOperator m l r res = do { v \<leftarrow> int32 (ival l - ival r); Some (int_result v res) }"

definition int32MultiOperator :: operator where
  "int32MultiOperator m l r res = do { v \<leftarrow> int32 (ival l * ival r); Some (int_result v res) }"

definition int32DivisionOperator :: operator where
  "int32DivisionOperator m l r res =
     (if ival r = 0 then None else do { v \<leftarrow> int32 (ival l sdiv ival r); Some (int_result v res) })"

definition int32ModOperator :: operator where
  "int32ModOperator m l r res =
     (if ival r = 0 then None
      else do { _ \<leftarrow> int32 (ival l sdiv ival r); v \<leftarrow> int32 (ival l smod ival r); Some (int_result v res) })"

definition getIntSize :: "ExprDataInfo option \<Rightarrow> int \<times> ExprDataInfo option" where
  "getIntSize v = (case v of None \<Rightarrow> (-1, None) | Some e \<Rightarrow> (4, Some (e\<lparr>edSize := 4\<rparr>)))"

subsection \<open>Strings\<close>

definition stringGetSize :: "cmem \<Rightarrow> ExprDataInfo \<Rightarrow> (int \<times> ExprDataInfo) option" where
  "stringGetSize m e =
     (if edData e = 0 then Some (-1, e)
      else do { n \<leftarrow> strlen m (edData e); Some (trunc_int n, e\<lparr>edSize := trunc_int n\<rparr>) })"

text \<open>
  The string operators share their shape: the longer string is greater, strings of the same
  length are compared by their bytes. \<open>longer\<close>, \<open>shorter\<close> and \<open>test\<close> are what the operator
  does in the three cases.
\<close>

definition string_op :: "bool \<Rightarrow> bool \<Rightarrow> (int \<Rightarrow> bool) \<Rightarrow> operator" where
  "string_op longer shorter test m l r res = do {
     (_, l) \<leftarrow> stringGetSize m l;
     (_, r) \<leftarrow> stringGetSize m r;
     b \<leftarrow> (if edSize l > edSize r then Some longer
           else if edSize l < edSize r then Some shorter
           else do { c \<leftarrow> hat_strncmp m (edData l) (edData r) (edSize l); Some (test c) });
     Some (int_result (truth b) res) }"

definition stringGreaterOperator :: operator where
  "stringGreaterOperator = string_op True False (\<lambda>c. c > 0)"

definition stringGreaterEqualOperator :: operator where
  "stringGreaterEqualOperator = string_op True False (\<lambda>c. c \<ge> 0)"

definition stringEqualOperator :: operator where
  "stringEqualOperator = string_op False False (\<lambda>c. c = 0)"

definition stringLessEqualOperator :: operator where
  "stringLessEqualOperator = string_op False True (\<lambda>c. c \<le> 0)"

definition stringLessOperator :: operator where
  "stringLessOperator = string_op False True (\<lambda>c. c < 0)"

subsection \<open>Characters\<close>

text \<open>A character is compared through the pointer member of the union.\<close>

definition char_op :: "(int \<Rightarrow> bool) \<Rightarrow> operator" where
  "char_op test m l r res = do {
     c \<leftarrow> hat_strncmp m (edData l) (edData r) 1;
     Some (int_result (truth (test c)) res) }"

definition charGreaterOperator :: operator where "charGreaterOperator = char_op (\<lambda>c. c > 0)"
definition charGreaterEqualOperator :: operator where "charGreaterEqualOperator = char_op (\<lambda>c. c \<ge> 0)"
definition charEqualOperator :: operator where "charEqualOperator = char_op (\<lambda>c. c = 0)"
definition charLessEqualOperator :: operator where "charLessEqualOperator = char_op (\<lambda>c. c \<le> 0)"
definition charLessOperator :: operator where "charLessOperator = char_op (\<lambda>c. c < 0)"

definition charGetSize :: "ExprDataInfo option \<Rightarrow> int \<times> ExprDataInfo option" where
  "charGetSize v = (case v of None \<Rightarrow> (-1, None) | Some e \<Rightarrow> (1, Some (e\<lparr>edSize := 1\<rparr>)))"

subsection \<open>Booleans\<close>

definition boolEqualOperator :: operator where
  "boolEqualOperator m l r res = Some (int_result (truth (ival l = ival r)) res)"

definition boolNotEqualOperator :: operator where
  "boolNotEqualOperator m l r res = Some (int_result (truth (ival l \<noteq> ival r)) res)"

definition getboolSize :: "ExprDataInfo option \<Rightarrow> int \<times> ExprDataInfo option" where
  "getboolSize v = (case v of None \<Rightarrow> (-1, None) | Some e \<Rightarrow> (4, Some (e\<lparr>edSize := 4\<rparr>)))"

definition boolValueOperator :: operator where
  "boolValueOperator m l r res = Some (int_result (truth (ival l \<noteq> ival r)) res)"

subsection \<open>Floating point values\<close>

definition fdiff :: "floats \<Rightarrow> ExprDataInfo \<Rightarrow> ExprDataInfo \<Rightarrow> i32" where
  "fdiff fl l r = fl_sub fl (fData (edData l)) (fData (edData r))"

definition floatGreaterOperator :: "floats \<Rightarrow> operator" where
  "floatGreaterOperator fl m l r res = Some (int_result (truth (fl_above fl (fdiff fl l r))) res)"

definition floatGreaterEqualOperator :: "floats \<Rightarrow> operator" where
  "floatGreaterEqualOperator fl m l r res =
     Some (int_result (truth (fl_above fl (fdiff fl l r) \<or> fl_near fl (fdiff fl l r))) res)"

definition floatEqualOperator :: "floats \<Rightarrow> operator" where
  "floatEqualOperator fl m l r res = Some (int_result (truth (fl_near fl (fdiff fl l r))) res)"

definition floatLessEqualOperator :: "floats \<Rightarrow> operator" where
  "floatLessEqualOperator fl m l r res =
     Some (int_result (truth (fl_below fl (fdiff fl l r) \<or> fl_near fl (fdiff fl l r))) res)"

definition floatLessOperator :: "floats \<Rightarrow> operator" where
  "floatLessOperator fl m l r res = Some (int_result (truth (fl_below fl (fdiff fl l r))) res)"

definition getfloatSize :: "ExprDataInfo option \<Rightarrow> int \<times> ExprDataInfo option" where
  "getfloatSize v = (case v of None \<Rightarrow> (-1, None) | Some e \<Rightarrow> (4, Some (e\<lparr>edSize := 4\<rparr>)))"

section \<open>The table of types\<close>

definition DATATYPEPROC_VERSION :: int where "DATATYPEPROC_VERSION = 0x3A01"

record DataTypeProcs =
  dtVersion :: int
  dtType :: valueType
  opf :: "A_A_Expr_Op_Type \<Rightarrow> operator option"

definition int_opf :: "A_A_Expr_Op_Type \<Rightarrow> operator option" where
  "int_opf op =
     (case op of
        LESS \<Rightarrow> Some int32LessEqualOperator
      | LESS_EQUAL \<Rightarrow> Some int32LessEqualOperator
      | EQUAL \<Rightarrow> Some int32EqualOperator
      | GREATER_EQUAL \<Rightarrow> Some int32GreaterEqualOperator
      | GREATER \<Rightarrow> Some int32GreaterOperator
      | NOT_EQUAL \<Rightarrow> Some int32NotEqualOperator
      | POSITIVE \<Rightarrow> Some int32PositiveOperator
      | NEGATIVE \<Rightarrow> Some int32NegtiveOperator
      | PLUS \<Rightarrow> Some int32PlusOperator
      | MINUS \<Rightarrow> Some int32MinusOperator
      | MULTIPLE \<Rightarrow> Some int32MultiOperator
      | DIVISIION \<Rightarrow> Some int32DivisionOperator
      | MOD \<Rightarrow> Some int32ModOperator
      | _ \<Rightarrow> None)"

definition string_opf :: "A_A_Expr_Op_Type \<Rightarrow> operator option" where
  "string_opf op =
     (case op of
        LESS \<Rightarrow> Some stringLessEqualOperator
      | LESS_EQUAL \<Rightarrow> Some stringLessEqualOperator
      | EQUAL \<Rightarrow> Some stringEqualOperator
      | GREATER_EQUAL \<Rightarrow> Some stringGreaterEqualOperator
      | GREATER \<Rightarrow> Some stringGreaterOperator
      | _ \<Rightarrow> None)"

definition char_opf :: "A_A_Expr_Op_Type \<Rightarrow> operator option" where
  "char_opf op =
     (case op of
        LESS \<Rightarrow> Some charLessEqualOperator
      | LESS_EQUAL \<Rightarrow> Some charLessEqualOperator
      | EQUAL \<Rightarrow> Some charEqualOperator
      | GREATER_EQUAL \<Rightarrow> Some charGreaterEqualOperator
      | GREATER \<Rightarrow> Some charGreaterOperator
      | _ \<Rightarrow> None)"

definition bool_opf :: "A_A_Expr_Op_Type \<Rightarrow> operator option" where
  "bool_opf op = (case op of EQUAL \<Rightarrow> Some boolEqualOperator | NOT_EQUAL \<Rightarrow> Some boolNotEqualOperator | _ \<Rightarrow> None)"

definition float_opf :: "floats \<Rightarrow> A_A_Expr_Op_Type \<Rightarrow> operator option" where
  "float_opf fl op =
     (case op of
        LESS \<Rightarrow> Some (floatLessEqualOperator fl)
      | LESS_EQUAL \<Rightarrow> Some (floatLessEqualOperator fl)
      | EQUAL \<Rightarrow> Some (floatEqualOperator fl)
      | GREATER_EQUAL \<Rightarrow> Some (floatGreaterEqualOperator fl)
      | GREATER \<Rightarrow> Some (floatGreaterOperator fl)
      | _ \<Rightarrow> None)"

definition getDataTypeProcs :: "floats \<Rightarrow> valueType \<Rightarrow> DataTypeProcs option" where
  "getDataTypeProcs fl type =
     (let procs = (\<lambda>t f. Some \<lparr>dtVersion = DATATYPEPROC_VERSION, dtType = t, opf = f\<rparr>) in
      case type of
        VT_INT \<Rightarrow> procs VT_INT int_opf
      | VT_INTEGER \<Rightarrow> procs VT_INTEGER int_opf
      | VT_VARCHAR \<Rightarrow> procs VT_VARCHAR string_opf
      | VT_STRING \<Rightarrow> procs VT_STRING string_opf
      | VT_CHAR \<Rightarrow> procs VT_CHAR char_opf
      | VT_DOUBLE \<Rightarrow> procs VT_CHAR (float_opf fl)
      | VT_FLOAT \<Rightarrow> procs VT_CHAR (float_opf fl)
      | VT_BOOL \<Rightarrow> procs VT_BOOL bool_opf
      | _ \<Rightarrow> None)"

text \<open>
  \<^verbatim>\<open>ComputeExpr\<close> returns whether the result is not null, and the register. The operator is
  chosen by the type of the left operand; an operator that the type does not have leaves the
  register alone.
\<close>

definition ComputeExpr :: "floats \<Rightarrow> cmem \<Rightarrow> ExprDataInfo \<Rightarrow> ExprDataInfo \<Rightarrow> ExprDataInfo \<Rightarrow> A_A_Expr_Op_Type \<Rightarrow>
    (bool \<times> ExprDataInfo) option" where
  "ComputeExpr fl m l r res op =
     (case getDataTypeProcs fl (edType l) of
        None \<Rightarrow> Some (False, res)
      | Some procs \<Rightarrow>
          if dtVersion procs \<noteq> DATATYPEPROC_VERSION then Some (False, res)
          else if op = Op_Type_MAX then Some (False, res)
          else (case opf procs op of
                  None \<Rightarrow> Some (False, res)
                | Some f \<Rightarrow> do { res \<leftarrow> f m l r res; Some (True, res) }))"

section \<open>The operators compute the comparisons and the arithmetic\<close>

subsection \<open>The register\<close>

lemma iData_set_iData [simp]: "iData (set_iData v d) = v"
  by (rule bit_word_eqI) (simp add: iData_def set_iData_def bit_simps bit_mask_iff)

lemma int_result_simps [simp]:
  "edType (int_result v r) = VT_INT" "edSize (int_result v r) = 4" "ival (int_result v r) = sint v"
  by (simp_all add: int_result_def ival_def)

lemma int32_Some_iff: "int32 v = Some w \<longleftrightarrow> - (2 ^ 31) \<le> v \<and> v < 2 ^ 31 \<and> w = of_int v"
  by (auto simp: int32_def)

lemma sint_of_int32: "- (2 ^ 31) \<le> v \<Longrightarrow> v < 2 ^ 31 \<Longrightarrow> sint (of_int v :: i32) = v"
  by (simp add: signed_of_int signed_take_bit_int_eq_self)

lemma sint_truth [simp]: "sint (truth b) = of_bool b"
  by (simp add: truth_def HAT_TRUE_def HAT_FALSE_def)

lemma getDataBool_truth [simp]: "getDataBool fl (Some (int_result (truth b) r)) = b"
  by (simp add: getDataBool_def int_result_def truth_def HAT_TRUE_def HAT_FALSE_def)

subsection \<open>Strings in memory\<close>

fun str_at :: "cmem \<Rightarrow> u64 \<Rightarrow> byte list \<Rightarrow> bool" where
  "str_at m p [] \<longleftrightarrow> m p = Some 0"
| "str_at m p (b # s) \<longleftrightarrow> m p = Some b \<and> b \<noteq> 0 \<and> str_at m (p + 1) s"

lemma strlen_str_at: "str_at m p s \<Longrightarrow> strlen m p = Some (length s)"
  by (induction m p s rule: str_at.induct) (simp_all add: strlen.simps)

lemma str_at_unique: "str_at m p s \<Longrightarrow> str_at m p t \<Longrightarrow> s = t"
proof (induction s arbitrary: p t)
  case Nil
  then show ?case by (cases t) auto
next
  case (Cons b s)
  then show ?case by (cases t) auto
qed

text \<open>Strings are ordered by their length first and by their bytes second.\<close>

abbreviation byte_less :: "(byte \<times> byte) set" where
  "byte_less \<equiv> {(a, b). a < b}"

abbreviation shortlex :: "byte list \<Rightarrow> byte list \<Rightarrow> bool" where
  "shortlex s t \<equiv> (s, t) \<in> lenlex byte_less"

lemma strncmp_lex:
  assumes "str_at m p s" "str_at m q t" "length s = length t"
  shows "\<exists>c. strncmp m (length s) p q = Some c \<and> (c = 0 \<longleftrightarrow> s = t) \<and>
     (c < 0 \<longleftrightarrow> (s, t) \<in> lex byte_less) \<and> (0 < c \<longleftrightarrow> (t, s) \<in> lex byte_less)"
  using assms
proof (induction s arbitrary: p q t)
  case (Cons a s)
  then obtain b t' where t: "t = b # t'" by (cases t) auto
  show ?case
  proof (cases "a = b")
    case True
    then show ?thesis using Cons t by auto
  next
    case False
    then have "uint a \<noteq> uint b" by (simp add: word_uint_eq_iff)
    then show ?thesis using Cons.prems t False
      by (auto simp: word_less_def)
  qed
qed simp

lemma trunc_int_small: "n < 2 ^ 31 \<Longrightarrow> trunc_int n = int n"
  using sint_of_int32 [of "int n"] by (simp add: trunc_int_def)

lemma unat_len: "n < 2 ^ 31 \<Longrightarrow> unat (of_int (int n) :: u64) = n"
  by (simp add: unat_of_nat)

lemma string_op_str_at:
  assumes "str_at m (edData l) s" "str_at m (edData r) t" "edData l \<noteq> 0" "edData r \<noteq> 0"
    and "length s < 2 ^ 31" "length t < 2 ^ 31"
  shows "\<exists>c. (length s = length t \<longrightarrow> (c = 0 \<longleftrightarrow> s = t) \<and>
       (c < 0 \<longleftrightarrow> (s, t) \<in> lex byte_less) \<and> (0 < c \<longleftrightarrow> (t, s) \<in> lex byte_less)) \<and>
     string_op lg sh test m l r res = Some (int_result (truth
       (if length s > length t then lg else if length s < length t then sh else test c)) res)"
proof (cases "length s = length t")
  case True
  with strncmp_lex [OF assms(1,2)] obtain c where
    "strncmp m (length s) (edData l) (edData r) = Some c" "c = 0 \<longleftrightarrow> s = t"
    "c < 0 \<longleftrightarrow> (s, t) \<in> lex byte_less" "0 < c \<longleftrightarrow> (t, s) \<in> lex byte_less" by auto
  then show ?thesis using assms True unat_len [of "length s"]
    by (intro exI [of _ c])
      (auto simp: string_op_def stringGetSize_def strlen_str_at trunc_int_small hat_strncmp_def)
next
  case False
  then show ?thesis using assms
    by (auto simp: string_op_def stringGetSize_def strlen_str_at trunc_int_small)
qed

definition str_holds :: "A_A_Expr_Op_Type \<Rightarrow> byte list \<Rightarrow> byte list \<Rightarrow> bool" where
  "str_holds op s t =
     (case op of
        LESS \<Rightarrow> shortlex s t
      | LESS_EQUAL \<Rightarrow> shortlex s t \<or> s = t
      | EQUAL \<Rightarrow> s = t
      | GREATER_EQUAL \<Rightarrow> shortlex t s \<or> s = t
      | GREATER \<Rightarrow> shortlex t s
      | _ \<Rightarrow> False)"

lemma string_opf_holds:
  assumes "str_at m (edData l) s" "str_at m (edData r) t" "edData l \<noteq> 0" "edData r \<noteq> 0"
    and "length s < 2 ^ 31" "length t < 2 ^ 31" and "string_opf op = Some f" "op \<noteq> LESS"
  shows "f m l r res = Some (int_result (truth (str_holds op s t)) res)"
proof -
  have swap: "(t, s) \<in> lenlex byte_less \<longleftrightarrow> length t < length s \<or> length t = length s \<and> (t, s) \<in> lex byte_less"
    "(s, t) \<in> lenlex byte_less \<longleftrightarrow> length s < length t \<or> length s = length t \<and> (s, t) \<in> lex byte_less"
    by (auto simp: lenlex_conv)
  have ne: "length s < length t \<Longrightarrow> s \<noteq> t" "length t < length s \<Longrightarrow> s \<noteq> t" by auto
  note op = string_op_str_at [OF assms(1-6), where res = res]
  have "c \<le> 0 \<longleftrightarrow> c < 0 \<or> c = 0" "0 \<le> c \<longleftrightarrow> 0 < c \<or> c = 0" for c :: int by auto
  with op [of True False "\<lambda>c. c > 0"] op [of True False "\<lambda>c. c \<ge> 0"] op [of False False "\<lambda>c. c = 0"]
    op [of False True "\<lambda>c. c \<le> 0"] assms(7,8)
  show ?thesis
    by (cases op)
      (auto simp: string_opf_def str_holds_def swap ne stringGreaterOperator_def stringGreaterEqualOperator_def
        stringEqualOperator_def stringLessEqualOperator_def not_less split: if_splits)
qed

lemma ComputeExpr_procs:
  "getDataTypeProcs fl (edType l) = Some \<lparr>dtVersion = DATATYPEPROC_VERSION, dtType = t, opf = tab\<rparr> \<Longrightarrow>
   tab op = Some f \<Longrightarrow> op \<noteq> Op_Type_MAX \<Longrightarrow>
   ComputeExpr fl m l r res op = map_option (Pair True) (f m l r res)"
  by (auto simp: ComputeExpr_def map_option_case split: option.split bind_splits)

lemma ComputeExpr_strings:
  assumes "edType l = VT_STRING \<or> edType l = VT_VARCHAR"
    and "str_at m (edData l) s" "str_at m (edData r) t" "edData l \<noteq> 0" "edData r \<noteq> 0"
    and "length s < 2 ^ 31" "length t < 2 ^ 31"
    and "op \<in> {LESS_EQUAL, EQUAL, GREATER_EQUAL, GREATER}"
  shows "ComputeExpr fl m l r res op = Some (True, int_result (truth (str_holds op s t)) res)"
proof -
  obtain f where f: "string_opf op = Some f" and op: "op \<noteq> LESS" "op \<noteq> Op_Type_MAX"
    using assms(8) by (auto simp: string_opf_def)
  show ?thesis
    using assms(1) f op string_opf_holds [OF assms(2-7) f op(1)]
    by (auto simp: ComputeExpr_def getDataTypeProcs_def)
qed

text \<open>In every table of operators the entry of \<open><\<close> is that of \<open><=\<close>.\<close>

lemma ComputeExpr_LESS: "ComputeExpr fl m l r res LESS = ComputeExpr fl m l r res LESS_EQUAL"
  by (cases "edType l")
    (simp_all add: ComputeExpr_def getDataTypeProcs_def int_opf_def string_opf_def char_opf_def float_opf_def bool_opf_def)

definition computed :: "A_A_Expr_Op_Type \<Rightarrow> A_A_Expr_Op_Type" where
  "computed op = (if op = LESS then LESS_EQUAL else op)"

lemma ComputeExpr_computed: "ComputeExpr fl m l r res op = ComputeExpr fl m l r res (computed op)"
  by (simp add: computed_def ComputeExpr_LESS)

text \<open>C24: For two strings in memory, shorter than \<^verbatim>\<open>INT_MAX\<close>, the operators \<open><=\<close>, \<open>=\<close>, \<open>>=\<close> and \<open>>\<close>
  compute the order that compares the lengths first and the bytes, as unsigned numbers, second; \<open><\<close> computes \<open><=\<close>. For every other
  operator, \<open><>\<close> included, the result is the null pointer and the register stays as it is.\<close>

theorem string_operators_shortlex:
  assumes "edType l = VT_STRING \<or> edType l = VT_VARCHAR"
    and "str_at m (edData l) s" "str_at m (edData r) t" "edData l \<noteq> 0" "edData r \<noteq> 0"
    and "length s < 2 ^ 31" "length t < 2 ^ 31"
  shows "ComputeExpr fl m l r res op =
     (if op \<in> {LESS, LESS_EQUAL, EQUAL, GREATER_EQUAL, GREATER}
      then Some (True, int_result (truth (str_holds (computed op) s t)) res) else Some (False, res))"
proof (cases "op \<in> {LESS, LESS_EQUAL, EQUAL, GREATER_EQUAL, GREATER}")
  case True
  then have "computed op \<in> {LESS_EQUAL, EQUAL, GREATER_EQUAL, GREATER}" by (auto simp: computed_def)
  from ComputeExpr_strings [OF assms this] show ?thesis using True ComputeExpr_computed [of fl m l r res op] by simp
next
  case False
  then show ?thesis using assms(1) by (cases op) (auto simp: ComputeExpr_def getDataTypeProcs_def string_opf_def)
qed

definition two_strings :: cmem where
  "two_strings = [16 \<mapsto> 97, 17 \<mapsto> 98, 18 \<mapsto> 0, 32 \<mapsto> 122, 33 \<mapsto> 0]"

definition some_floats :: floats where
  "some_floats = \<lparr>fl_sub = (\<lambda>a b. a - b), fl_above = (\<lambda>a. 0 <s a), fl_below = (\<lambda>a. a <s 0), fl_near = (\<lambda>a. a = 0),
     fl_far = (\<lambda>a. a \<noteq> 0), dbl_far = (\<lambda>a. a \<noteq> 0)\<rparr>"

definition str_value :: "u64 \<Rightarrow> ExprDataInfo" where
  "str_value p = \<lparr>edType = VT_STRING, edSize = -1, edData = p\<rparr>"

definition int_value :: "i32 \<Rightarrow> ExprDataInfo" where
  "int_value v = \<lparr>edType = VT_INT, edSize = -1, edData = ucast v\<rparr>"

theorem string_operators_shortlex_witness:
  "ComputeExpr some_floats two_strings (str_value 16) (str_value 32) (int_value 0) GREATER
     = Some (True, int_result 1 (int_value 0))"
proof -
  have "shortlex [122] [97, 98]" by (simp add: lenlex_conv)
  then show ?thesis
    using string_operators_shortlex [of "str_value 16" two_strings "[97, 98]" "str_value 32" "[122]" some_floats "int_value 0" GREATER]
    by (simp add: two_strings_def str_value_def truth_def HAT_TRUE_def str_holds_def computed_def)
qed

subsection \<open>Integers\<close>

text \<open>The operators on the integers, without a bound.\<close>

definition int_math :: "A_A_Expr_Op_Type \<Rightarrow> int \<Rightarrow> int \<Rightarrow> int" where
  "int_math op a b =
     (case op of
        LESS_EQUAL \<Rightarrow> of_bool (a \<le> b)
      | EQUAL \<Rightarrow> of_bool (a = b)
      | GREATER_EQUAL \<Rightarrow> of_bool (a \<ge> b)
      | GREATER \<Rightarrow> of_bool (a > b)
      | NOT_EQUAL \<Rightarrow> of_bool (a \<noteq> b)
      | POSITIVE \<Rightarrow> \<bar>a\<bar>
      | NEGATIVE \<Rightarrow> - \<bar>a\<bar>
      | PLUS \<Rightarrow> a + b
      | MINUS \<Rightarrow> a - b
      | MULTIPLE \<Rightarrow> a * b
      | DIVISIION \<Rightarrow> sgn a * sgn b * (\<bar>a\<bar> div \<bar>b\<bar>)
      | MOD \<Rightarrow> sgn a * (\<bar>a\<bar> mod \<bar>b\<bar>)
      | _ \<Rightarrow> 0)"

definition in_int :: "int \<Rightarrow> bool" where
  "in_int v \<longleftrightarrow> - (2 ^ 31) \<le> v \<and> v < 2 ^ 31"

lemma in_int_ival: "in_int (ival e)"
  using sint_ge [of "iData (edData e)"] sint_lt [of "iData (edData e)"] by (simp add: in_int_def ival_def)

lemma in_int_of_bool: "in_int (of_bool b)"
  by (simp add: in_int_def)

lemma int32_in_int: "int32 v = (if in_int v then Some (of_int v) else None)"
  by (simp add: int32_def in_int_def)

lemmas operator_defs = int32GreaterOperator_def int32GreaterEqualOperator_def int32EqualOperator_def
  int32LessEqualOperator_def int32NotEqualOperator_def int32PositiveOperator_def int32NegtiveOperator_def
  int32PlusOperator_def int32MinusOperator_def int32MultiOperator_def int32DivisionOperator_def
  int32ModOperator_def

lemma smod_sgn: "(a :: int) smod b = sgn a * (\<bar>a\<bar> mod \<bar>b\<bar>)"
  by (simp add: signed_modulo_int_def)

lemma ComputeExpr_ints:
  assumes "edType l = VT_INT \<or> edType l = VT_INTEGER" "op \<notin> {LESS, BOOLVALUE, Op_Type_MAX}"
  shows "ComputeExpr fl m l r res op =
     (if (op \<in> {DIVISIION, MOD} \<longrightarrow> ival r \<noteq> 0 \<and> in_int (int_math DIVISIION (ival l) (ival r)))
         \<and> in_int (int_math op (ival l) (ival r))
      then Some (True, int_result (of_int (int_math op (ival l) (ival r))) res) else None)"
proof -
  have sd: "(a :: int) sdiv b = sgn a * sgn b * (\<bar>a\<bar> div \<bar>b\<bar>)" for a b
    by (simp add: signed_divide_int_def)
  have of_truth: "truth b = (of_int (of_bool b) :: i32)" for b
    by (simp add: truth_def HAT_TRUE_def HAT_FALSE_def)
  have abs: "(if a \<ge> 0 then a else a * -1) = \<bar>a\<bar>" "(if a > 0 then a * -1 else a) = - \<bar>a\<bar>" for a :: int
    by auto
  have "ComputeExpr fl m l r res op = map_option (Pair True) (the (int_opf op) m l r res)"
    using assms by (cases op) (auto simp: int_opf_def getDataTypeProcs_def intro!: ComputeExpr_procs)
  then show ?thesis using assms(2)
    by (cases op)
      (simp_all add: int_opf_def int_math_def int32_in_int in_int_of_bool operator_defs abs sd smod_sgn of_truth)
qed

text \<open>C25: On integers every operator of the table has a result exactly when the
  divisor is not zero and the exact value (of the quotient, for \<open>%\<close>) fits an \<^verbatim>\<open>int\<close>; then the register
  holds the exact value, with the quotient rounded towards zero and the remainder of the sign of
  the dividend; the value of \<open><\<close> is that of \<open><=\<close>, and the signs \<open>+\<close> and \<open>-\<close> give the absolute value and its negation. For the two
  operators that are not in the table the result is the null pointer and the register stays as it is.\<close>

theorem int_operators_exact:
  assumes "edType l = VT_INT \<or> edType l = VT_INTEGER"
  shows "ComputeExpr fl m l r res op =
     (if op \<in> {BOOLVALUE, Op_Type_MAX} then Some (False, res)
      else if (op \<in> {DIVISIION, MOD} \<longrightarrow> ival r \<noteq> 0 \<and> in_int (int_math DIVISIION (ival l) (ival r)))
         \<and> in_int (int_math (computed op) (ival l) (ival r))
      then Some (True, int_result (of_int (int_math (computed op) (ival l) (ival r))) res) else None)"
proof (cases "op \<in> {BOOLVALUE, Op_Type_MAX}")
  case True
  then show ?thesis using assms by (auto simp: ComputeExpr_def getDataTypeProcs_def int_opf_def)
next
  case False
  then have "computed op \<notin> {LESS, BOOLVALUE, Op_Type_MAX}" "op \<in> {DIVISIION, MOD} \<longleftrightarrow> computed op \<in> {DIVISIION, MOD}"
    by (auto simp: computed_def)
  then show ?thesis
    using False ComputeExpr_ints [OF assms, of "computed op" fl m r res] ComputeExpr_computed [of fl m l r res op] by simp
qed

lemma ival_int_value [simp]: "ival (int_value v) = sint v"
proof -
  have "iData (ucast v) = v" by (rule bit_word_eqI) (simp add: iData_def bit_simps)
  then show ?thesis by (simp add: ival_def int_value_def)
qed

theorem int_operators_exact_witness:
  "ComputeExpr some_floats Map.empty (int_value (- 7)) (int_value 2) (int_value 0) DIVISIION
     = Some (True, int_result (- 3) (int_value 0)) \<and>
   ComputeExpr some_floats Map.empty (int_value 0x80000000) (int_value (- 1)) (int_value 0) DIVISIION = None"
proof -
  have "ival (int_value (- 7)) = -7" "ival (int_value 2) = 2" "ival (int_value (- 1)) = -1"
    "ival (int_value 0x80000000) = - (2 ^ 31)"
    by simp_all
  then show ?thesis
    using int_operators_exact [of "int_value (- 7)" some_floats Map.empty "int_value 2" "int_value 0" DIVISIION]
      int_operators_exact [of "int_value 0x80000000" some_floats Map.empty "int_value (- 1)" "int_value 0" DIVISIION]
    by (simp add: int_value_def in_int_def int_math_def computed_def)
qed

text \<open>For every type the operator \<open><\<close> computes \<open><=\<close>; so a value of type \<^verbatim>\<open>int\<close> is less than itself.\<close>

theorem less_computes_less_equal:
  "ComputeExpr fl m l r res LESS = ComputeExpr fl m l r res LESS_EQUAL \<and>
   ComputeExpr fl m (int_value v) (int_value v) res LESS = Some (True, int_result 1 res)"
proof
  show "ComputeExpr fl m l r res LESS = ComputeExpr fl m l r res LESS_EQUAL" by (rule ComputeExpr_LESS)
  show "ComputeExpr fl m (int_value v) (int_value v) res LESS = Some (True, int_result 1 res)"
    by (simp add: ComputeExpr_def getDataTypeProcs_def int_value_def int_opf_def int32LessEqualOperator_def
        truth_def HAT_TRUE_def)
qed

end
