(* ===== verification/Pages.thy ===== *)
theory Pages
  imports Toadb_Prelude Transaction
begin

text \<open>
  The pages of a table, after \<^verbatim>\<open>src/sqlcore/storage/tables\<close> (\<^verbatim>\<open>tables.c\<close>, \<^verbatim>\<open>tablecom.h\<close>) and the
  functions of \<^verbatim>\<open>src/sqlcore/storage/buffer/buffer.c\<close> that read and write the content of one
  page.

  A page is 4096 bytes: a header of 40 bytes, an array of items of 16 bytes that grows upwards
  and the data of the items, which grows downwards. The structures are packed and their integers
  are little-endian; \<open>rd\<close> and \<open>wr\<close> access the bytes of a page and have no result outside it. A
  column value (\<^verbatim>\<open>RowColumnData\<close>) is a header of 48 bytes with the tuple header and the bytes of
  the value. This theory is about the content of pages: page locks, and the file to which
  \<^verbatim>\<open>WritePage\<close> writes a page through, are not part of it.
\<close>

unbundle bit_operations_syntax

section \<open>Bytes and words\<close>

fun bytes_of :: "nat \<Rightarrow> 'a::len word \<Rightarrow> byte list" where
  "bytes_of 0 w = []"
| "bytes_of (Suc n) w = ucast w # bytes_of n (drop_bit 8 w)"

fun word_of :: "byte list \<Rightarrow> 'a::len word" where
  "word_of [] = 0"
| "word_of (b # bs) = ucast b OR push_bit 8 (word_of bs)"

section \<open>The layout of a page\<close>

type_synonym page = "nat \<Rightarrow> byte"

definition PAGE_MAX_SIZE :: nat where "PAGE_MAX_SIZE = 4096"
definition PAGE_VERSION :: i32 where "PAGE_VERSION = 0x2B3C"
definition PAGE_DATA_HEADER_SIZE :: nat where "PAGE_DATA_HEADER_SIZE = 40"
definition ITEM_SIZE :: nat where "ITEM_SIZE = 16"
definition TUPLE_HEADER_SIZE :: nat where "TUPLE_HEADER_SIZE = 40"
definition ROW_COLUMN_HEADER_SIZE :: nat where "ROW_COLUMN_HEADER_SIZE = 48"
definition TABLE_ROW_HEADER_SIZE :: nat where "TABLE_ROW_HEADER_SIZE = 8"
definition MAX_ROW_DATA_SIZE :: nat where
  "MAX_ROW_DATA_SIZE = PAGE_MAX_SIZE - (PAGE_DATA_HEADER_SIZE + ITEM_SIZE)"
definition PAGE_DATA_MAX_OFFSET :: nat where "PAGE_DATA_MAX_OFFSET = PAGE_MAX_SIZE"

definition PAGE_HEADER :: i32 where "PAGE_HEADER = 1"
definition PAGE_DATA :: i32 where "PAGE_DATA = 2"
definition PAGE_EXTDATA :: i32 where "PAGE_EXTDATA = 4"
definition PAGE_UNDO :: i32 where "PAGE_UNDO = 8"

definition bytes_at :: "page \<Rightarrow> nat \<Rightarrow> nat \<Rightarrow> byte list" where
  "bytes_at p off n = map p [off ..< off + n]"

definition put_bytes :: "nat \<Rightarrow> byte list \<Rightarrow> page \<Rightarrow> page" where
  "put_bytes off bs p = (\<lambda>i. if off \<le> i \<and> i < off + length bs then bs ! (i - off) else p i)"

definition rd :: "page \<Rightarrow> int \<Rightarrow> nat \<Rightarrow> byte list option" where
  "rd p off n = (if 0 \<le> off \<and> off + int n \<le> int PAGE_MAX_SIZE then Some (bytes_at p (nat off) n) else None)"

definition wr :: "int \<Rightarrow> byte list \<Rightarrow> page \<Rightarrow> page option" where
  "wr off bs p =
     (if 0 \<le> off \<and> off + int (length bs) \<le> int PAGE_MAX_SIZE then Some (put_bytes (nat off) bs p) else None)"

text \<open>The members of the page header, at their offsets.\<close>

definition fld :: "nat \<Rightarrow> page \<Rightarrow> i32" where
  "fld off p = word_of (bytes_at p off 4)"

definition set_fld :: "nat \<Rightarrow> i32 \<Rightarrow> page \<Rightarrow> page" where
  "set_fld off v p = put_bytes off (bytes_of 4 v) p"

abbreviation (input) "f_pageVersion \<equiv> 0 :: nat"
abbreviation (input) "f_pageType \<equiv> 4 :: nat"
abbreviation (input) "f_pageNum \<equiv> 8 :: nat"
abbreviation (input) "f_dataOffset \<equiv> 12 :: nat"
abbreviation (input) "f_dataEndOffset \<equiv> 16 :: nat"
abbreviation (input) "f_pageCnt \<equiv> 20 :: nat"
abbreviation (input) "f_undo_segno \<equiv> 24 :: nat"
abbreviation (input) "f_undo_pageno \<equiv> 28 :: nat"
abbreviation (input) "f_ext_segno \<equiv> 32 :: nat"
abbreviation (input) "f_ext_pageno \<equiv> 36 :: nat"

definition dataOffset :: "page \<Rightarrow> int" where "dataOffset p = sint (fld f_dataOffset p)"
definition dataEndOffset :: "page \<Rightarrow> int" where "dataEndOffset p = sint (fld f_dataEndOffset p)"
definition pageNum :: "page \<Rightarrow> int" where "pageNum p = sint (fld f_pageNum p)"

definition GET_PAGE_TYPE :: "i32 \<Rightarrow> i32" where "GET_PAGE_TYPE t = t AND 0xF"
definition SET_PAGE_TYPE :: "i32 \<Rightarrow> i32 \<Rightarrow> i32" where "SET_PAGE_TYPE t ty = (t AND NOT 0xF) OR (ty AND 0xF)"

definition HasFreeSpace :: "page \<Rightarrow> int \<Rightarrow> bool" where
  "HasFreeSpace p n \<longleftrightarrow> n < dataEndOffset p - dataOffset p"

subsection \<open>Items\<close>

record ItemData =
  it_offset :: i32
  it_len :: i32
  it_rowid :: u64

definition ITEM_FLAG_MASK :: i32 where "ITEM_FLAG_MASK = 0xF0000000"
definition ITEM_VALID_MASK :: i32 where "ITEM_VALID_MASK = 0x80000000"
definition ITEM_REDIRECT_MASK :: i32 where "ITEM_REDIRECT_MASK = 0x40000000"

definition GetItemValid :: "i32 \<Rightarrow> bool" where "GetItemValid d \<longleftrightarrow> d AND ITEM_VALID_MASK \<noteq> 0"
definition GetItemRedirect :: "i32 \<Rightarrow> bool" where "GetItemRedirect d \<longleftrightarrow> d AND ITEM_REDIRECT_MASK \<noteq> 0"
definition GetItemSize :: "i32 \<Rightarrow> i32" where "GetItemSize d = d AND NOT ITEM_FLAG_MASK"
definition SetItemSize :: "i32 \<Rightarrow> i32 \<Rightarrow> i32" where
  "SetItemSize old d = (old AND ITEM_FLAG_MASK) OR (d AND NOT ITEM_FLAG_MASK)"

definition enc_item :: "ItemData \<Rightarrow> byte list" where
  "enc_item it = bytes_of 4 (it_offset it) @ bytes_of 4 (it_len it) @ bytes_of 8 (it_rowid it)"

definition dec_item :: "byte list \<Rightarrow> ItemData" where
  "dec_item bs = \<lparr>it_offset = word_of (take 4 bs), it_len = word_of (take 4 (drop 4 bs)),
     it_rowid = word_of (take 8 (drop 8 bs))\<rparr>"

definition get_item :: "page \<Rightarrow> int \<Rightarrow> ItemData option" where
  "get_item p off = map_option dec_item (rd p off ITEM_SIZE)"

definition GET_ITEM_BY_INDEX :: "int \<Rightarrow> int" where
  "GET_ITEM_BY_INDEX i = int PAGE_DATA_HEADER_SIZE + i * int ITEM_SIZE"

definition ITEM_END_CHECK :: "int \<Rightarrow> page \<Rightarrow> bool" where
  "ITEM_END_CHECK off p \<longleftrightarrow> off \<ge> dataOffset p"

text \<open>The number of the items, computed with the unsigned \<^verbatim>\<open>size_t\<close>.\<close>

definition GET_ITEM_INDEX :: "page \<Rightarrow> u64" where
  "GET_ITEM_INDEX p = (scast (fld f_dataOffset p) - of_nat PAGE_DATA_HEADER_SIZE) div of_nat ITEM_SIZE"

subsection \<open>Column values\<close>

record RowColumnData =
  rc_size :: i32
  attrindex :: i32
  headerData :: TupleHeader
  rc_data :: "byte list"

definition enc_header :: "TupleHeader \<Rightarrow> byte list" where
  "enc_header h = bytes_of 8 (tmin h) @ bytes_of 8 (tmax h) @ bytes_of 8 (tinfo h) @ bytes_of 4 (cid h)
     @ bytes_of 4 (po_segno (pageIndex (undo h))) @ bytes_of 4 (po_pageno (pageIndex (undo h)))
     @ bytes_of 4 (itemIndex (undo h))"

definition dec_header :: "byte list \<Rightarrow> TupleHeader" where
  "dec_header bs = \<lparr>tmin = word_of (take 8 bs), tmax = word_of (take 8 (drop 8 bs)),
     tinfo = word_of (take 8 (drop 16 bs)), cid = word_of (take 4 (drop 24 bs)),
     undo = \<lparr>pageIndex = \<lparr>po_segno = word_of (take 4 (drop 28 bs)), po_pageno = word_of (take 4 (drop 32 bs))\<rparr>,
             itemIndex = word_of (take 4 (drop 36 bs))\<rparr>\<rparr>"

definition enc_col :: "RowColumnData \<Rightarrow> byte list" where
  "enc_col c = bytes_of 4 (rc_size c) @ bytes_of 4 (attrindex c) @ enc_header (headerData c) @ rc_data c"

definition dec_col :: "byte list \<Rightarrow> RowColumnData" where
  "dec_col bs = \<lparr>rc_size = word_of (take 4 bs), attrindex = word_of (take 4 (drop 4 bs)),
     headerData = dec_header (drop 8 bs), rc_data = drop 48 bs\<rparr>"

text \<open>The first \<^verbatim>\<open>size\<close> bytes of the object, which \<^verbatim>\<open>memcpy\<close> copies.\<close>

definition col_block :: "RowColumnData \<Rightarrow> byte list option" where
  "col_block c =
     (let n = sint (rc_size c) in
      if 0 \<le> n \<and> n \<le> int (length (enc_col c)) then Some (take (nat n) (enc_col c)) else None)"

text \<open>\<open>None\<close> in the array is a null pointer.\<close>

record TableRowData =
  tr_size :: i32
  tr_num :: i32
  columnData :: "RowColumnData option list"

record RowData =
  rowPos :: RowPosition
  rd_item :: ItemData
  rowsData :: TableRowData

section \<open>Operations on a page\<close>

definition InitPage :: page where
  "InitPage =
     (let p = (\<lambda>_. 0);
          p = set_fld f_pageVersion PAGE_VERSION p;
          p = set_fld f_pageType PAGE_DATA p;
          p = set_fld f_undo_segno 0 p;
          p = set_fld f_undo_pageno 0 p;
          p = set_fld f_ext_segno (fld f_undo_segno p) p;
          p = set_fld f_ext_pageno (fld f_undo_pageno p) p;
          p = set_fld f_dataOffset (of_nat PAGE_DATA_HEADER_SIZE) p
      in set_fld f_dataEndOffset (of_nat PAGE_DATA_MAX_OFFSET) p)"

fun replace_cols :: "int \<Rightarrow> RowColumnData option list \<Rightarrow> nat \<Rightarrow> page \<Rightarrow> page option" where
  "replace_cols pos cols 0 p = Some p"
| "replace_cols pos (Some c # cols) (Suc n) p = do {
     bs \<leftarrow> col_block c;
     p \<leftarrow> wr pos bs p;
     replace_cols (pos + sint (rc_size c)) cols n p }"
| "replace_cols pos _ (Suc n) p = None"

definition ReplaceRowData :: "page \<Rightarrow> RowData \<Rightarrow> ItemData \<Rightarrow> page option" where
  "ReplaceRowData p row it =
     replace_cols (sint (it_offset it)) (columnData (rowsData row)) (nat (sint (tr_num (rowsData row)))) p"

definition InsertRowData :: "page \<Rightarrow> RowData \<Rightarrow> ItemData \<Rightarrow> (page \<times> ItemData) option" where
  "InsertRowData p row it = do {
     let sz = tr_size (rowsData row);
     let it = it\<lparr>it_len := SetItemSize (it_len it) sz, it_offset := fld f_dataEndOffset p - sz\<rparr>;
     p \<leftarrow> ReplaceRowData p row it;
     Some (p, it) }"

definition InsertItemData :: "page \<Rightarrow> ItemData \<Rightarrow> page option" where
  "InsertItemData p it = do {
     p \<leftarrow> wr (dataOffset p) (enc_item it) p;
     let p = set_fld f_dataOffset (fld f_dataOffset p + of_nat ITEM_SIZE) p;
     Some (set_fld f_dataEndOffset (it_offset it) p) }"

text \<open>\<^verbatim>\<open>ReplaceItemData\<close> copies from the address of its parameter: \<open>ptr\<close> are the bytes found there,
  the pointer itself first. It has no caller.\<close>

definition ReplaceItemData :: "page \<Rightarrow> byte list \<Rightarrow> int \<Rightarrow> page option" where
  "ReplaceItemData p ptr i = wr (i * int ITEM_SIZE) (take ITEM_SIZE ptr) p"

definition WriteRowOnePage :: "page \<Rightarrow> RowData \<Rightarrow> (page \<times> RowData) option" where
  "WriteRowOnePage p row = do {
     (p, it) \<leftarrow> InsertRowData p row (rd_item row);
     let it = it\<lparr>it_len := it_len it OR ITEM_VALID_MASK\<rparr>;
     p \<leftarrow> InsertItemData p it;
     let pos = \<lparr>pageIndex = (pageIndex (rowPos row))\<lparr>po_pageno := fld f_pageNum p\<rparr>,
                itemIndex = ucast (GET_ITEM_INDEX p - 1)\<rparr>;
     Some (p, row\<lparr>rd_item := it, rowPos := pos\<rparr>) }"

definition WriteRowItemDataWithHeader :: "page \<Rightarrow> RowData \<Rightarrow> (page \<times> RowData) option" where
  "WriteRowItemDataWithHeader p row = WriteRowOnePage p row"

definition WriteRowDataOnly :: "page \<Rightarrow> RowData \<Rightarrow> ItemData \<Rightarrow> page option" where
  "WriteRowDataOnly p row it = ReplaceRowData p row it"

text \<open>\<^verbatim>\<open>WriteRowData\<close> writes a row under the NSM storage model.\<close>

fun write_cols :: "int \<Rightarrow> RowColumnData option list \<Rightarrow> nat \<Rightarrow> page \<Rightarrow> page option" where
  "write_cols pos cols 0 p = Some p"
| "write_cols pos (Some c # cols) (Suc n) p = do {
     bs \<leftarrow> col_block c;
     p \<leftarrow> wr pos bs p;
     let p = set_fld f_dataEndOffset (fld f_dataEndOffset p + rc_size c) p;
     write_cols (pos + sint (rc_size c)) cols n p }"
| "write_cols pos _ (Suc n) p = None"

definition WriteRowData :: "page \<Rightarrow> TableRowData \<Rightarrow> page option" where
  "WriteRowData p row = do {
     let pos = dataEndOffset p;
     p \<leftarrow> wr pos (bytes_of 4 (tr_size row) @ bytes_of 4 (tr_num row)) p;
     let p = set_fld f_dataEndOffset (fld f_dataEndOffset p + of_nat TABLE_ROW_HEADER_SIZE) p;
     write_cols (pos + int TABLE_ROW_HEADER_SIZE) (columnData row) (nat (sint (tr_num row))) p }"

text \<open>
  The inner \<open>None\<close> is the null pointer. The comparison with MAX_ROW_DATA_SIZE is unsigned. A column
  whose size does not cover its header is not a column: its members have no value.
\<close>

definition ReadRowData :: "page \<Rightarrow> int \<Rightarrow> RowColumnData option option" where
  "ReadRowData p off = do {
     bs \<leftarrow> rd p off 4;
     let n = sint (word_of bs :: i32);
     if n < 0 \<or> n > int MAX_ROW_DATA_SIZE then Some None
     else do {
       bs \<leftarrow> rd p off (nat n);
       if n < int ROW_COLUMN_HEADER_SIZE then None else Some (Some (dec_col bs)) } }"

definition DeFormRowDatEx2 :: "page \<Rightarrow> int \<Rightarrow> RowColumnData option option" where
  "DeFormRowDatEx2 p off = ReadRowData p off"

fun count_loop :: "page \<Rightarrow> int \<Rightarrow> nat \<Rightarrow> int \<Rightarrow> int option" where
  "count_loop p off 0 tot = Some tot"
| "count_loop p off (Suc n) tot = do {
     it \<leftarrow> get_item p off;
     count_loop p (off + int ITEM_SIZE) n (if GetItemValid (it_len it) then tot else tot - 1) }"

definition GetInvlidRowCount :: "page \<Rightarrow> int option" where
  "GetInvlidRowCount p =
     (let n = sint (ucast (GET_ITEM_INDEX p) :: i32)
      in count_loop p (int PAGE_DATA_HEADER_SIZE) (nat n) n)"

section \<open>Insertion into a group\<close>

text \<open>
  Under the PAX storage model the columns of a row are inserted into the pages of a group, one page
  per column.
\<close>

datatype EStat_RET = ESTAT_ERORR | ESTAT_SUCESS | ESTAT_NO_SPACE | ESTAT_UNKNOW

fun FreeSpaceCheck :: "page list \<Rightarrow> RowColumnData option list \<Rightarrow> nat \<Rightarrow> int option" where
  "FreeSpaceCheck ps cols 0 = Some 0"
| "FreeSpaceCheck (p # ps) (Some c # cols) (Suc n) =
     (if \<not> HasFreeSpace p (sint (rc_size c) + int (TABLE_ROW_HEADER_SIZE + ITEM_SIZE)) then Some (-1)
      else FreeSpaceCheck ps cols n)"
| "FreeSpaceCheck _ _ (Suc n) = None"

fun insert_cols :: "TupleHeader \<Rightarrow> page list \<Rightarrow> RowColumnData option list \<Rightarrow> nat \<Rightarrow> RowData \<Rightarrow>
    (page list \<times> RowData) option" where
  "insert_cols h ps cols 0 row = Some (ps, row)"
| "insert_cols h (p # ps) (Some c # cols) (Suc n) row = do {
     let c = c\<lparr>headerData := h\<rparr>;
     let row = row\<lparr>rowsData := (rowsData row)\<lparr>columnData := (columnData (rowsData row))[0 := Some c], tr_size := rc_size c\<rparr>\<rparr>;
     (p, row) \<leftarrow> WriteRowOnePage p row;
     (ps, row) \<leftarrow> insert_cols h ps cols n row;
     Some (p # ps, row) }"
| "insert_cols h _ _ (Suc n) row = None"

definition zero_header :: TupleHeader where
  "zero_header = \<lparr>tmin = 0, tmax = 0, tinfo = 0, cid = 0,
     undo = \<lparr>pageIndex = \<lparr>po_segno = 0, po_pageno = 0\<rparr>, itemIndex = 0\<rparr>\<rparr>"

definition InsertRowDataWithGroup :: "txnst \<Rightarrow> page list \<Rightarrow> TableRowData \<Rightarrow> RowData \<Rightarrow>
    (EStat_RET \<times> page list \<times> RowData) option" where
  "InsertRowDataWithGroup st ps ins row = do {
     ret \<leftarrow> FreeSpaceCheck ps (columnData ins) (nat (sint (tr_num ins)));
     if ret < 0 then Some (ESTAT_NO_SPACE, ps, row)
     else do {
       h \<leftarrow> ComputeXminTupleHeader zero_header st;
       let row = row\<lparr>rowsData := (rowsData row)\<lparr>tr_num := 1\<rparr>\<rparr>;
       (ps, row) \<leftarrow> insert_cols h ps (columnData ins) (nat (sint (tr_num ins))) row;
       Some (ESTAT_SUCESS, ps, row) } }"

section \<open>Reads after writes\<close>

lemma length_bytes_of [simp]: "length (bytes_of n w) = n"
  by (induction n arbitrary: w) auto

lemma word_of_bytes_of: "word_of (bytes_of n w) = take_bit (8 * n) (w :: 'a::len word)"
proof (induction n arbitrary: w)
  case (Suc n)
  show ?case
    by (rule bit_word_eqI)
      (auto simp: Suc bit_simps not_less algebra_simps)
qed simp

lemma word_of_bytes32 [simp]: "word_of (bytes_of 4 (w :: 32 word)) = w"
  by (simp add: word_of_bytes_of take_bit_length_eq [where 'a = 32, simplified])

lemma word_of_bytes64 [simp]: "word_of (bytes_of 8 (w :: 64 word)) = w"
  by (simp add: word_of_bytes_of take_bit_length_eq [where 'a = 64, simplified])

lemma length_bytes_at [simp]: "length (bytes_at p off n) = n"
  by (simp add: bytes_at_def)

lemma nth_bytes_at [simp]: "i < n \<Longrightarrow> bytes_at p off n ! i = p (off + i)"
  by (simp add: bytes_at_def)

lemma bytes_at_put_same [page_simps]: "n = length bs \<Longrightarrow> bytes_at (put_bytes off bs p) off n = bs"
  by (rule nth_equalityI) (simp_all add: put_bytes_def)

lemma bytes_at_put_other [page_simps]:
  "off' + n \<le> off \<or> off + length bs \<le> off' \<Longrightarrow> bytes_at (put_bytes off bs p) off' n = bytes_at p off' n"
  by (rule nth_equalityI) (auto simp: put_bytes_def)

lemma bytes_at_put_sub:
  "off \<le> off' \<Longrightarrow> off' + n \<le> off + length bs \<Longrightarrow>
   bytes_at (put_bytes off bs p) off' n = take n (drop (off' - off) bs)"
  by (rule nth_equalityI) (auto simp: put_bytes_def intro!: arg_cong [of _ _ "(!) bs"])

lemma take_bytes_at: "m \<le> n \<Longrightarrow> take m (bytes_at p off n) = bytes_at p off m"
  by (rule nth_equalityI) auto

lemma fld_set_fld [page_simps]: "fld off (set_fld off v p) = v"
  by (simp add: fld_def set_fld_def page_simps)

lemma fld_set_fld_other [page_simps]:
  "off + 4 \<le> off' \<or> off' + 4 \<le> off \<Longrightarrow> fld off (set_fld off' v p) = fld off p"
  by (auto simp: fld_def set_fld_def bytes_at_put_other)

lemma bytes_at_set_fld [page_simps]:
  "off' + n \<le> off \<or> off + 4 \<le> off' \<Longrightarrow> bytes_at (set_fld off v p) off' n = bytes_at p off' n"
  by (simp add: set_fld_def bytes_at_put_other)

lemma fld_put_bytes [page_simps]:
  "off + 4 \<le> off' \<or> off' + length bs \<le> off \<Longrightarrow> fld off (put_bytes off' bs p) = fld off p"
  by (auto simp: fld_def bytes_at_put_other)

lemma length_enc [simp]:
  "length (enc_item it) = 16" "length (enc_header h) = 40" "length (enc_col c) = 48 + length (rc_data c)"
  by (simp_all add: enc_item_def enc_header_def enc_col_def)

lemma dec_enc_item [simp]: "dec_item (enc_item it) = it"
  by (simp add: dec_item_def enc_item_def)

lemma dec_enc_header [simp]: "dec_header (enc_header h @ bs) = h"
  by (simp add: dec_header_def enc_header_def)

lemma dec_enc_col [simp]: "dec_col (enc_col c) = c"
  by (simp add: dec_col_def enc_col_def)

lemma take_enc_col: "word_of (take 4 (enc_col c)) = rc_size c"
  by (simp add: enc_col_def)

section \<open>Well-formed pages\<close>

subsection \<open>Item lengths\<close>

lemma flag_mask: "ITEM_FLAG_MASK = NOT (mask 28)"
  by (simp add: ITEM_FLAG_MASK_def mask_eq_exp_minus_1 not_eq_complement)

lemma GetItemSize_take: "GetItemSize d = take_bit 28 d"
  by (simp add: GetItemSize_def flag_mask take_bit_eq_mask)

lemma GetItemSize_unat: "unat (GetItemSize d) < 2 ^ 28"
  by (simp only: GetItemSize_take unsigned_take_bit_eq take_bit_nat_less_exp)

lemma take_bit_small: "unat (d :: i32) < 2 ^ n \<Longrightarrow> take_bit n d = d"
  by (rule iffD2 [OF word_unat_eq_iff]) (simp only: unsigned_take_bit_eq take_bit_nat_eq_self)

lemma SetItemSize_take: "take_bit 28 (SetItemSize old d) = take_bit 28 d"
  by (rule bit_word_eqI) (auto simp: SetItemSize_def flag_mask bit_simps)

lemma GetItemSize_set:
  assumes "unat d < 2 ^ 28"
  shows "GetItemSize (SetItemSize old d OR ITEM_VALID_MASK) = d"
  using assms by (simp add: GetItemSize_take SetItemSize_take take_bit_small ITEM_VALID_MASK_def)

lemma GetItemValid_or: "GetItemValid (d OR ITEM_VALID_MASK)"
  by (simp add: GetItemValid_def ITEM_VALID_MASK_def and.commute)

lemma GetItemRedirect_bit: "GetItemRedirect d \<longleftrightarrow> bit d 30"
proof -
  have "ITEM_REDIRECT_MASK = push_bit 30 1" by (simp add: ITEM_REDIRECT_MASK_def)
  then show ?thesis by (simp only: GetItemRedirect_def bit_iff_and_push_bit_not_eq_0)
qed

lemma GetItemRedirect_set: "GetItemRedirect (SetItemSize old d OR ITEM_VALID_MASK) = GetItemRedirect old"
proof -
  have "\<not> bit ITEM_VALID_MASK 30" by (simp add: ITEM_VALID_MASK_def)
  then show ?thesis by (simp add: GetItemRedirect_bit SetItemSize_def flag_mask bit_simps)
qed

subsection \<open>The invariant\<close>

definition items :: "page \<Rightarrow> nat" where
  "items p = nat ((dataOffset p - int PAGE_DATA_HEADER_SIZE) div int ITEM_SIZE)"

definition item_at :: "page \<Rightarrow> nat \<Rightarrow> ItemData" where
  "item_at p i = dec_item (bytes_at p (40 + 16 * i) 16)"

definition item_start :: "page \<Rightarrow> nat \<Rightarrow> nat" where
  "item_start p i = unat (it_offset (item_at p i))"

definition item_space :: "page \<Rightarrow> nat \<Rightarrow> nat" where
  "item_space p i = unat (GetItemSize (it_len (item_at p i)))"

definition stored_size :: "page \<Rightarrow> nat \<Rightarrow> nat" where
  "stored_size p off = unat (word_of (bytes_at p off 4) :: i32)"

definition row_at :: "page \<Rightarrow> nat \<Rightarrow> RowColumnData" where
  "row_at p i = dec_col (bytes_at p (item_start p i) (stored_size p (item_start p i)))"

definition rows :: "page \<Rightarrow> RowColumnData list" where
  "rows p = map (row_at p) [0 ..< items p]"

text \<open>The data of an item ends where the data of the item before it starts.\<close>

definition data_top :: "page \<Rightarrow> nat \<Rightarrow> nat" where
  "data_top p i = (case i of 0 \<Rightarrow> PAGE_MAX_SIZE | Suc j \<Rightarrow> item_start p j)"

definition item_ok :: "page \<Rightarrow> nat \<Rightarrow> bool" where
  "item_ok p i \<longleftrightarrow> GetItemValid (it_len (item_at p i)) \<and> \<not> GetItemRedirect (it_len (item_at p i)) \<and>
     item_start p i + item_space p i \<le> data_top p i \<and>
     ROW_COLUMN_HEADER_SIZE \<le> stored_size p (item_start p i) \<and>
     stored_size p (item_start p i) \<le> item_space p i"

definition page_ok :: "page \<Rightarrow> bool" where
  "page_ok p \<longleftrightarrow> dataOffset p = int (40 + 16 * items p) \<and> dataEndOffset p = int (data_top p (items p)) \<and>
     40 + 16 * items p \<le> data_top p (items p) \<and> (\<forall>i < items p. item_ok p i)"

lemma page_okD:
  assumes "page_ok p"
  shows "dataOffset p = int (40 + 16 * items p)" "dataEndOffset p = int (data_top p (items p))"
    "40 + 16 * items p \<le> data_top p (items p)" "i < items p \<Longrightarrow> item_ok p i"
  using assms by (simp_all add: page_ok_def)

lemma data_top_mono:
  assumes "\<forall>i < n. item_ok p i" "i \<le> n"
  shows "data_top p n \<le> data_top p i"
  using assms
proof (induction n)
  case (Suc n)
  have "data_top p (Suc n) \<le> data_top p n"
    using Suc.prems(1) by (auto simp: item_ok_def data_top_def)
  with Suc show ?case by (cases "i = Suc n") (auto simp: le_Suc_eq intro: le_trans)
qed simp

lemma data_top_le: "page_ok p \<Longrightarrow> data_top p (items p) \<le> 4096"
  using data_top_mono [of "items p" p 0] by (simp add: page_ok_def data_top_def PAGE_MAX_SIZE_def)

text \<open>What happens to a page whose item array grows by one and whose bytes above the free space stay.\<close>

lemma item_at_cong: "bytes_at q (40 + 16 * i) 16 = bytes_at p (40 + 16 * i) 16 \<Longrightarrow> item_at q i = item_at p i"
  by (simp add: item_at_def)

lemma data_top_cong: "(\<And>j. j < i \<Longrightarrow> item_at q j = item_at p j) \<Longrightarrow> data_top q i = data_top p i"
  by (cases i) (simp_all add: data_top_def item_start_def)

lemma stored_size_cong:
  "bytes_at q off n = bytes_at p off n \<Longrightarrow> 4 \<le> n \<Longrightarrow> stored_size q off = stored_size p off"
  using take_bytes_at [of 4 n q off] take_bytes_at [of 4 n p off] by (simp add: stored_size_def)

lemma row_unchanged:
  assumes "item_ok p i" "item_at q i = item_at p i" "data_top q i = data_top p i"
    and "bytes_at q (item_start p i) (item_space p i) = bytes_at p (item_start p i) (item_space p i)"
  shows "item_ok q i" "row_at q i = row_at p i"
proof -
  have sz: "48 \<le> stored_size p (item_start p i)" "stored_size p (item_start p i) \<le> item_space p i"
    using assms(1) by (simp_all add: item_ok_def ROW_COLUMN_HEADER_SIZE_def)
  then have st: "stored_size q (item_start p i) = stored_size p (item_start p i)"
    using assms(4) by (intro stored_size_cong) auto
  show "item_ok q i" using assms st by (simp add: item_ok_def item_start_def item_space_def)
  have "bytes_at q (item_start p i) (stored_size p (item_start p i)) = bytes_at p (item_start p i) (stored_size p (item_start p i))"
    using sz(2) assms(4) take_bytes_at [of _ "item_space p i"] by metis
  then show "row_at q i = row_at p i" using assms(2) st by (simp add: row_at_def item_start_def)
qed

definition col_ok :: "RowColumnData \<Rightarrow> bool" where
  "col_ok c \<longleftrightarrow> sint (rc_size c) = int (ROW_COLUMN_HEADER_SIZE + length (rc_data c)) \<and> length (rc_data c) < 2 ^ 28 - 48"

lemma col_okD:
  assumes "col_ok c"
  shows "unat (rc_size c) = 48 + length (rc_data c)" "sint (rc_size c) = int (48 + length (rc_data c))"
    "col_block c = Some (enc_col c)"
proof -
  show s: "sint (rc_size c) = int (48 + length (rc_data c))"
    using assms by (simp add: col_ok_def ROW_COLUMN_HEADER_SIZE_def)
  have "rc_size c = of_int (sint (rc_size c))" by simp
  also have "\<dots> = of_nat (48 + length (rc_data c))" by (simp only: s of_int_of_nat_eq)
  finally show "unat (rc_size c) = 48 + length (rc_data c)"
    using assms by (simp only: unat_of_nat take_bit_nat_eq_self_iff col_ok_def) simp
  show "col_block c = Some (enc_col c)" using s by (simp add: col_block_def)
qed

text \<open>The page after a row was appended.\<close>

definition appended :: "page \<Rightarrow> nat \<Rightarrow> RowColumnData \<Rightarrow> ItemData \<Rightarrow> page" where
  "appended p a c it =
     set_fld 16 (of_nat a) (set_fld 12 (of_nat (40 + 16 * Suc (items p)))
       (put_bytes (40 + 16 * items p) (enc_item it) (put_bytes a (enc_col c) p)))"

lemma sint_of_nat32: "n < 2 ^ 31 \<Longrightarrow> sint (of_nat n :: i32) = int n"
  using sint_unat31 [of "of_nat n :: i32"] by (simp add: unat_of_nat take_bit_nat_eq_self)

lemma appended_ok:
  assumes ok: "page_ok p" and c: "col_ok c"
    and sp: "a + length (enc_col c) = data_top p (items p)" "56 + 16 * items p \<le> a"
    and it: "unat (it_offset it) = a"
      "GetItemSize (it_len it) = rc_size c" "GetItemValid (it_len it)" "\<not> GetItemRedirect (it_len it)"
  shows "page_ok (appended p a c it)" "rows (appended p a c it) = rows p @ [c]"
    and "items (appended p a c it) = Suc (items p)"
proof -
  let ?q = "appended p a c it" and ?n = "items p" and ?e = "data_top p (items p)" and ?s = "length (enc_col c)"
  note okD = page_okD [OF ok]
  have e: "?e \<le> 4096" by (rule data_top_le [OF ok])
  have lt: "40 + 16 * Suc ?n < 2 ^ 31" "a < 2 ^ 31" using e sp by simp_all
  have "fld 12 ?q = of_nat (40 + 16 * Suc ?n)" "fld 16 ?q = of_nat a"
    by (simp_all add: appended_def page_simps)
  then have do: "dataOffset ?q = int (40 + 16 * Suc ?n)" and de: "dataEndOffset ?q = int a"
    unfolding dataOffset_def dataEndOffset_def by (simp_all only: sint_of_nat32 [OF lt(1)] sint_of_nat32 [OF lt(2)])
  have "items ?q = nat ((int (40 + 16 * Suc ?n) - 40) div 16)"
    unfolding items_def [of ?q] do by (simp add: PAGE_DATA_HEADER_SIZE_def ITEM_SIZE_def)
  then show n: "items ?q = Suc ?n" by simp
  have frame: "bytes_at ?q off k = bytes_at p off k"
    if "40 \<le> off \<and> off + k \<le> 40 + 16 * ?n \<or> ?e \<le> off" for off k
    using that sp by (auto simp: appended_def page_simps)
  have new_item: "item_at ?q ?n = it"
    using sp by (simp add: item_at_def appended_def page_simps)
  have new_col: "bytes_at ?q (a) ?s = enc_col c"
    using sp by (simp add: appended_def page_simps)
  have old: "item_at ?q i = item_at p i" if "i < ?n" for i
    using that by (intro item_at_cong frame) auto
  have top: "data_top ?q i = data_top p i" if "i \<le> ?n" for i
    using that by (intro data_top_cong old) auto
  have rows_old: "item_ok ?q i" "row_at ?q i = row_at p i" if "i < ?n" for i
  proof -
    have "data_top p ?n \<le> item_start p i"
      using data_top_mono [of ?n p "Suc i"] okD(4) that by (simp add: data_top_def)
    then have fr: "bytes_at ?q (item_start p i) (item_space p i) = bytes_at p (item_start p i) (item_space p i)"
      by (intro frame) simp
    show "item_ok ?q i" "row_at ?q i = row_at p i"
      using row_unchanged [OF okD(4) [OF that] old [OF that] top fr] that by auto
  qed
  have start: "item_start ?q ?n = a" and space: "item_space ?q ?n = ?s"
    using it col_okD(1) [OF c] by (simp_all add: item_start_def item_space_def new_item)
  have "bytes_at ?q a 4 = take 4 (enc_col c)"
    using take_bytes_at [of 4 ?s ?q a] new_col by simp
  then have sz: "stored_size ?q a = ?s"
    using col_okD(1) [OF c] by (simp add: stored_size_def take_enc_col)
  have okn: "item_ok ?q ?n"
    using it sp sz start space top [of ?n] by (simp add: item_ok_def new_item ROW_COLUMN_HEADER_SIZE_def)
  have row: "row_at ?q ?n = c"
    using new_col sz start by (simp add: row_at_def)
  show "page_ok ?q"
    unfolding page_ok_def
  proof (intro conjI allI impI)
    show "dataOffset ?q = int (40 + 16 * items ?q)" by (simp only: n do)
    have dt: "data_top ?q (items ?q) = a" by (simp add: n data_top_def start)
    show "dataEndOffset ?q = int (data_top ?q (items ?q))" by (simp only: dt de)
    show "40 + 16 * items ?q \<le> data_top ?q (items ?q)" using sp(2) dt n by simp
    show "item_ok ?q i" if "i < items ?q" for i
      using that okn rows_old(1) n by (cases "i = ?n") auto
  qed
  show "rows ?q = rows p @ [c]"
    using rows_old(2) row by (simp add: rows_def n)
qed

lemma rd_in: "off + n \<le> 4096 \<Longrightarrow> rd p (int off) n = Some (bytes_at p off n)"
  by (simp add: rd_def PAGE_MAX_SIZE_def)

lemma wr_in: "off + length bs \<le> 4096 \<Longrightarrow> wr (int off) bs p = Some (put_bytes off bs p)"
  by (simp add: wr_def PAGE_MAX_SIZE_def)

text \<open>A row of one column, as the PAX storage model writes it.\<close>

definition one_col :: "RowData \<Rightarrow> RowColumnData \<Rightarrow> bool" where
  "one_col row c \<longleftrightarrow> tr_num (rowsData row) = 1 \<and> tr_size (rowsData row) = rc_size c \<and>
     (\<exists>cs. columnData (rowsData row) = Some c # cs)"

lemma ReplaceRowData_one:
  "one_col row c \<Longrightarrow> col_ok c \<Longrightarrow> sint (it_offset it) = int off \<Longrightarrow> off + length (enc_col c) \<le> 4096 \<Longrightarrow>
   ReplaceRowData p row it = Some (put_bytes off (enc_col c) p)"
  by (auto simp: ReplaceRowData_def one_col_def col_okD wr_in)

lemma fld_dataEnd:
  assumes "page_ok p"
  shows "fld 16 p = of_nat (data_top p (items p))" "fld 12 p = of_nat (40 + 16 * items p)"
proof -
  have "fld 16 p = of_int (dataEndOffset p)" "fld 12 p = of_int (dataOffset p)"
    by (simp_all add: dataEndOffset_def dataOffset_def)
  then show "fld 16 p = of_nat (data_top p (items p))" "fld 12 p = of_nat (40 + 16 * items p)"
    by (simp_all only: page_okD(1,2) [OF assms] of_int_of_nat_eq)
qed

lemma GET_ITEM_INDEX_of_nat:
  assumes "fld 12 p = of_nat (40 + 16 * n)" "n < 256"
  shows "GET_ITEM_INDEX p = of_nat n"
proof -
  have "(scast (fld 12 p) :: u64) = of_int (sint (fld 12 p))" by simp
  also have "\<dots> = of_nat (40 + 16 * n)" using assms sint_of_nat32 [of "40 + 16 * n"] by (simp del: of_nat_add)
  finally have "GET_ITEM_INDEX p = of_nat (16 * n) div 16"
    by (simp add: GET_ITEM_INDEX_def PAGE_DATA_HEADER_SIZE_def ITEM_SIZE_def)
  also have "\<dots> = of_nat n"
    using assms(2) by (intro iffD2 [OF word_unat_eq_iff]) (simp add: unat_div unat_of_nat take_bit_nat_eq_self del: of_nat_mult)
  finally show ?thesis .
qed

lemma WriteRowOnePage_appended:
  assumes ok: "page_ok p" and c: "col_ok c" and row: "one_col row c"
    and sp: "a + length (enc_col c) = data_top p (items p)" "56 + 16 * items p \<le> a"
  obtains it pos where "WriteRowOnePage p row = Some (appended p a c it, row\<lparr>rd_item := it, rowPos := pos\<rparr>)"
    and "unat (it_offset it) = a"
    and "it_len it = SetItemSize (it_len (rd_item row)) (rc_size c) OR ITEM_VALID_MASK"
    and "po_pageno (pageIndex pos) = fld 8 p" "itemIndex pos = of_nat (items p)"
proof -
  let ?n = "items p" and ?e = "data_top p (items p)" and ?s = "length (enc_col c)"
  have e: "?e \<le> 4096" by (rule data_top_le [OF ok])
  have off: "fld 16 p - rc_size c = of_nat a"
  proof -
    have "of_nat (unat (rc_size c)) = rc_size c" by simp
    then have "rc_size c = of_nat ?s" by (simp only: col_okD(1) [OF c] length_enc)
    then show ?thesis by (simp add: fld_dataEnd [OF ok] sp(1) [symmetric] del: length_enc)
  qed
  have eo: "unat (of_nat a :: i32) = a" "sint (of_nat a :: i32) = int a"
    using e sp(1) sint_of_nat32 [of a] by (simp_all add: unat_of_nat take_bit_nat_eq_self)
  define it where "it = (rd_item row)\<lparr>it_offset := of_nat a,
     it_len := SetItemSize (it_len (rd_item row)) (rc_size c) OR ITEM_VALID_MASK\<rparr>"
  let ?p1 = "put_bytes (a) (enc_col c) p"
  let ?p2 = "put_bytes (40 + 16 * ?n) (enc_item it) ?p1"
  have ins: "InsertRowData p row (rd_item row) = Some (?p1, (rd_item row)\<lparr>it_offset := of_nat a,
       it_len := SetItemSize (it_len (rd_item row)) (rc_size c)\<rparr>)"
  proof -
    have "ReplaceRowData p row j = Some ?p1" if "it_offset j = of_nat a" for j
      using that eo e sp by (intro ReplaceRowData_one [OF row c]) auto
    moreover have "tr_size (rowsData row) = rc_size c" using row by (simp add: one_col_def)
    ultimately show ?thesis by (simp add: InsertRowData_def off)
  qed
  have d1: "dataOffset ?p1 = int (40 + 16 * ?n)" using sp page_okD(1) [OF ok] by (simp add: dataOffset_def page_simps)
  have itm: "InsertItemData ?p1 it = Some (appended p a c it)"
  proof -
    have "fld 12 ?p2 = of_nat (40 + 16 * ?n)" using sp fld_dataEnd(2) [OF ok] by (simp add: page_simps)
    then have "fld 12 ?p2 + of_nat ITEM_SIZE = of_nat (40 + 16 * Suc ?n)" by (simp add: ITEM_SIZE_def)
    moreover have "wr (dataOffset ?p1) (enc_item it) ?p1 = Some ?p2"
      unfolding d1 using e sp by (intro wr_in) simp
    ultimately show ?thesis
      by (simp add: InsertItemData_def appended_def it_def)
  qed
  have idx: "ucast (GET_ITEM_INDEX (appended p a c it) - 1) = (of_nat ?n :: i32)"
  proof -
    have "fld 12 (appended p a c it) = of_nat (40 + 16 * Suc ?n)" by (simp add: appended_def page_simps)
    then have "GET_ITEM_INDEX (appended p a c it) = of_nat (Suc ?n)"
      using e sp by (intro GET_ITEM_INDEX_of_nat) auto
    moreover have "?n < 256" using e sp by simp
    ultimately show ?thesis by (intro iffD2 [OF word_unat_eq_iff]) (simp add: unsigned_ucast_eq unat_of_nat take_bit_nat_eq_self)
  qed
  have num: "fld 8 (appended p a c it) = fld 8 p" using sp by (simp add: appended_def page_simps)
  show thesis
    by (rule that [of it "\<lparr>pageIndex = (pageIndex (rowPos row))\<lparr>po_pageno := fld 8 p\<rparr>, itemIndex = of_nat ?n\<rparr>"])
      (use ins itm idx num eo in \<open>simp_all add: WriteRowOnePage_def it_def Let_def\<close>)
qed

lemma item_space_le:
  assumes "page_ok p" "i < items p"
  shows "item_start p i + item_space p i \<le> 4096" "40 + 16 * items p \<le> item_start p i"
proof -
  note ok = page_okD [OF assms(1)]
  have "item_start p i + item_space p i \<le> data_top p i" using ok(4) [OF assms(2)] by (simp add: item_ok_def)
  also have "\<dots> \<le> data_top p 0" using ok(4) assms(2) by (intro data_top_mono) auto
  finally show "item_start p i + item_space p i \<le> 4096" by (simp add: data_top_def PAGE_MAX_SIZE_def)
  show "40 + 16 * items p \<le> item_start p i"
    using ok(3) data_top_mono [of "items p" p "Suc i"] ok(4) assms(2) by (auto simp: data_top_def [of p "Suc i"])
qed

lemma ReadRowData_row_at:
  assumes "page_ok p" "i < items p"
  shows "ReadRowData p (int (item_start p i)) = Some (Some (row_at p i))"
proof -
  let ?a = "item_start p i"
  have sz: "48 \<le> stored_size p ?a" "stored_size p ?a \<le> item_space p i"
    using page_okD(4) [OF assms] by (simp_all add: item_ok_def ROW_COLUMN_HEADER_SIZE_def)
  note sp = item_space_le [OF assms]
  have n: "sint (word_of (bytes_at p ?a 4) :: i32) = int (stored_size p ?a)"
    using sz sp unfolding stored_size_def by (intro sint_unat31) simp
  show ?thesis
    using sz sp assms(2) n
    by (auto simp: ReadRowData_def rd_in MAX_ROW_DATA_SIZE_def PAGE_MAX_SIZE_def PAGE_DATA_HEADER_SIZE_def
        ITEM_SIZE_def ROW_COLUMN_HEADER_SIZE_def row_at_def)
qed

lemma InitPage_fields: "fld 12 InitPage = 40" "fld 16 InitPage = 4096"
  by (simp_all add: InitPage_def Let_def page_simps PAGE_DATA_HEADER_SIZE_def PAGE_DATA_MAX_OFFSET_def PAGE_MAX_SIZE_def)

lemma InitPage_ok: "page_ok InitPage" "rows InitPage = []" "items InitPage = 0"
proof -
  show n: "items InitPage = 0"
    by (simp add: items_def dataOffset_def InitPage_fields PAGE_DATA_HEADER_SIZE_def)
  show "page_ok InitPage" "rows InitPage = []"
    by (simp_all add: page_ok_def rows_def n dataOffset_def dataEndOffset_def InitPage_fields data_top_def PAGE_MAX_SIZE_def)
qed

lemma WriteRowOnePage_ok:
  assumes ok: "page_ok p" and c: "col_ok c" and row: "one_col row c" and nr: "\<not> GetItemRedirect (it_len (rd_item row))"
    and sp: "int (length (enc_col c)) + 16 \<le> dataEndOffset p - dataOffset p"
  obtains p' it pos where "WriteRowOnePage p row = Some (p', row\<lparr>rd_item := it, rowPos := pos\<rparr>)"
    "page_ok p'" "rows p' = rows p @ [c]" "items p' = Suc (items p)" "\<not> GetItemRedirect (it_len it)"
    "po_pageno (pageIndex pos) = fld 8 p" "itemIndex pos = of_nat (items p)"
    "dataEndOffset p' - dataOffset p' = dataEndOffset p - dataOffset p - int (length (enc_col c)) - 16"
proof -
  note okD = page_okD [OF ok]
  define a where "a = data_top p (items p) - length (enc_col c)"
  have a: "a + length (enc_col c) = data_top p (items p)" "56 + 16 * items p \<le> a"
    using sp unfolding okD(1,2) a_def by auto
  obtain it pos where w: "WriteRowOnePage p row = Some (appended p a c it, row\<lparr>rd_item := it, rowPos := pos\<rparr>)"
    and it: "unat (it_offset it) = a" "it_len it = SetItemSize (it_len (rd_item row)) (rc_size c) OR ITEM_VALID_MASK"
    and pos: "po_pageno (pageIndex pos) = fld 8 p" "itemIndex pos = of_nat (items p)"
    by (rule WriteRowOnePage_appended [OF ok c row a])
  have "unat (rc_size c) < 2 ^ 28" using c col_okD(1) [OF c] by (simp add: col_ok_def)
  then have len: "GetItemSize (it_len it) = rc_size c" "GetItemValid (it_len it)" "\<not> GetItemRedirect (it_len it)"
    using nr by (simp_all add: it GetItemSize_set GetItemValid_or GetItemRedirect_set)
  note res = appended_ok [OF ok c a it(1) len]
  have "item_start (appended p a c it) (items p) = a"
  proof -
    have "item_at (appended p a c it) (items p) = it" using a by (simp add: item_at_def appended_def page_simps)
    then show ?thesis using it by (simp add: item_start_def)
  qed
  then have "dataEndOffset (appended p a c it) - dataOffset (appended p a c it)
      = dataEndOffset p - dataOffset p - int (length (enc_col c)) - 16"
    using a unfolding okD(1,2) page_okD(1,2) [OF res(1)] res(3) by (simp add: data_top_def [of _ "Suc _"])
  then show thesis using that w res len(3) pos by blast
qed

section \<open>Inserting a row\<close>

lemma HasFreeSpace_room:
  "HasFreeSpace p (sint (rc_size c) + int (TABLE_ROW_HEADER_SIZE + ITEM_SIZE)) \<Longrightarrow> col_ok c \<Longrightarrow>
   int (length (enc_col c)) + 16 \<le> dataEndOffset p - dataOffset p"
  by (simp add: HasFreeSpace_def col_okD TABLE_ROW_HEADER_SIZE_def ITEM_SIZE_def)

definition room :: "page \<Rightarrow> RowColumnData \<Rightarrow> bool" where
  "room p c \<longleftrightarrow> HasFreeSpace p (sint (rc_size c) + int (TABLE_ROW_HEADER_SIZE + ITEM_SIZE))"

lemma FreeSpaceCheck_list:
  "length ps = length cs \<Longrightarrow>
   FreeSpaceCheck ps (map Some cs) (length cs) = Some (if list_all2 room ps cs then 0 else -1)"
  by (induction ps cs rule: list_induct2) (simp_all add: room_def)

lemma col_ok_header [simp]: "col_ok (c\<lparr>headerData := h\<rparr>) = col_ok c"
  by (simp add: col_ok_def)

lemma length_enc_header [simp]: "length (enc_col (c\<lparr>headerData := h\<rparr>)) = length (enc_col c)"
  by simp

lemma insert_cols_ok:
  assumes "length ps = length cs" "\<forall>p \<in> set ps. page_ok p" "\<forall>c \<in> set cs. col_ok c" "list_all2 room ps cs"
    and "tr_num (rowsData row) = 1" "columnData (rowsData row) \<noteq> []" "\<not> GetItemRedirect (it_len (rd_item row))"
  shows "\<exists>ps' row'. insert_cols h ps (map Some cs) (length cs) row = Some (ps', row') \<and> length ps' = length ps \<and>
     columnData (rowsData row') \<noteq> [] \<and> \<not> GetItemRedirect (it_len (rd_item row')) \<and>
     (\<forall>i < length ps. page_ok (ps' ! i) \<and> rows (ps' ! i) = rows (ps ! i) @ [(cs ! i)\<lparr>headerData := h\<rparr>])"
  using assms
proof (induction ps cs arbitrary: row rule: list_induct2)
  case (Cons p ps c cs)
  let ?c = "c\<lparr>headerData := h\<rparr>"
  let ?row = "row\<lparr>rowsData := (rowsData row)\<lparr>columnData := (columnData (rowsData row))[0 := Some ?c], tr_size := rc_size ?c\<rparr>\<rparr>"
  have one: "one_col ?row ?c"
    using Cons.prems by (cases "columnData (rowsData row)") (auto simp: one_col_def)
  have room: "int (length (enc_col ?c)) + 16 \<le> dataEndOffset p - dataOffset p"
    using Cons.prems HasFreeSpace_room [of p c] by (simp add: room_def)
  obtain p' it pos where w: "WriteRowOnePage p ?row = Some (p', ?row\<lparr>rd_item := it, rowPos := pos\<rparr>)"
    "page_ok p'" "rows p' = rows p @ [?c]" "\<not> GetItemRedirect (it_len it)"
    using Cons.prems by (auto intro: WriteRowOnePage_ok [OF _ _ one _ room])
  obtain ps' row' where r: "insert_cols h ps (map Some cs) (length cs) (?row\<lparr>rd_item := it, rowPos := pos\<rparr>) = Some (ps', row')"
    "length ps' = length ps" "columnData (rowsData row') \<noteq> []" "\<not> GetItemRedirect (it_len (rd_item row'))"
    "\<forall>i < length ps. page_ok (ps' ! i) \<and> rows (ps' ! i) = rows (ps ! i) @ [(cs ! i)\<lparr>headerData := h\<rparr>]"
    using Cons.IH [of "?row\<lparr>rd_item := it, rowPos := pos\<rparr>"] Cons.prems w(4) by auto
  show ?case
    using w r by (intro exI [of _ "p' # ps'"] exI [of _ row']) (auto simp: nth_Cons split: nat.split)
qed simp

text \<open>C12: Inserting a row into the pages of a group either finds no space in one of the pages and
  changes nothing, or appends every column, under the header of the inserting transaction, to the
  rows of its page; the pages stay well-formed and the rows that were there stay readable.\<close>

theorem group_insert_appends_row:
  assumes "length ps = length cs" "\<forall>p \<in> set ps. page_ok p" "\<forall>c \<in> set cs. col_ok c"
    and "columnData ins = map Some cs" "sint (tr_num ins) = int (length cs)"
    and "GetCurrentTransactionID st = Some x"
    and "columnData (rowsData row) \<noteq> []" "\<not> GetItemRedirect (it_len (rd_item row))"
  shows "\<exists>ps' row'. InsertRowDataWithGroup st ps ins row =
       Some (if list_all2 room ps cs then ESTAT_SUCESS else ESTAT_NO_SPACE, ps', row') \<and>
     (if list_all2 room ps cs
      then length ps' = length ps \<and> (\<forall>i < length ps. page_ok (ps' ! i) \<and>
         (\<forall>j < items (ps' ! i). ReadRowData (ps' ! i) (int (item_start (ps' ! i) j)) = Some (Some (rows (ps' ! i) ! j))) \<and>
         rows (ps' ! i) = rows (ps ! i) @
           [(cs ! i)\<lparr>headerData := zero_header\<lparr>tmin := x, tmax := INVALID_XTID, tinfo := CLEAN_XTID\<rparr>\<rparr>])
      else ps' = ps \<and> row' = row)"
proof (cases "list_all2 room ps cs")
  case True
  let ?h = "zero_header\<lparr>cid := 0, tmin := x, tmax := INVALID_XTID, tinfo := CLEAN_XTID\<rparr>"
  have read: "ReadRowData p (int (item_start p j)) = Some (Some (rows p ! j))" if "page_ok p" "j < items p" for p j
    using ReadRowData_row_at [OF that] that(2) by (simp add: rows_def)
  have h: "?h = zero_header\<lparr>tmin := x, tmax := INVALID_XTID, tinfo := CLEAN_XTID\<rparr>"
    by (simp add: zero_header_def)
  obtain ps' row' where i: "insert_cols ?h ps (map Some cs) (length cs) (row\<lparr>rowsData := (rowsData row)\<lparr>tr_num := 1\<rparr>\<rparr>) = Some (ps', row')"
    "length ps' = length ps"
    "\<forall>i < length ps. page_ok (ps' ! i) \<and> rows (ps' ! i) = rows (ps ! i) @ [(cs ! i)\<lparr>headerData := ?h\<rparr>]"
    using insert_cols_ok [OF assms(1-3) True, of "row\<lparr>rowsData := (rowsData row)\<lparr>tr_num := 1\<rparr>\<rparr>" ?h] assms(7,8) by auto
  have "InsertRowDataWithGroup st ps ins row = Some (ESTAT_SUCESS, ps', row')"
    using assms(4-6) True i(1) FreeSpaceCheck_list [OF assms(1)]
    by (simp add: InsertRowDataWithGroup_def ComputeXminTupleHeader_def)
  then show ?thesis using True i(2,3) read unfolding h by auto
next
  case False
  then show ?thesis
    using assms(4,5) FreeSpaceCheck_list [OF assms(1)] by (simp add: InsertRowDataWithGroup_def)
qed

definition int_column :: "i32 \<Rightarrow> RowColumnData" where
  "int_column v = \<lparr>rc_size = 52, attrindex = 0, headerData = zero_header\<lparr>tmax := INVALID_XTID\<rparr>, rc_data = bytes_of 4 v\<rparr>"

definition blank_row :: RowData where
  "blank_row = \<lparr>rowPos = \<lparr>pageIndex = \<lparr>po_segno = 0, po_pageno = 0\<rparr>, itemIndex = 0\<rparr>,
     rd_item = \<lparr>it_offset = 0, it_len = 0, it_rowid = 0\<rparr>, rowsData = \<lparr>tr_size = 0, tr_num = 0, columnData = [None]\<rparr>\<rparr>"

definition running_seven :: txnst where
  "running_seven = \<lparr>tx_ids = \<lparr>nextTransactionId = 8, lowLevelXtid = 7, highLevelXtid = 7\<rparr>, transactionContextArray = [\<lparr>ts = TS_START, transactionID = 7, tc_snapshot = False\<rparr>],
     workerIndex = 0, myTransaction = Some 0\<rparr>"

lemma int_column_ok: "col_ok (int_column v)"
  by (simp add: col_ok_def int_column_def ROW_COLUMN_HEADER_SIZE_def)

lemma room_InitPage: "room InitPage (int_column v)"
  by (simp add: room_def HasFreeSpace_def dataEndOffset_def dataOffset_def InitPage_fields int_column_def
      TABLE_ROW_HEADER_SIZE_def ITEM_SIZE_def)

theorem group_insert_appends_row_witness:
  "\<exists>ps' row'. InsertRowDataWithGroup running_seven [InitPage] \<lparr>tr_size = 52, tr_num = 1, columnData = [Some (int_column 42)]\<rparr> blank_row
       = Some (ESTAT_SUCESS, ps', row') \<and>
     rows (ps' ! 0) = [(int_column 42)\<lparr>headerData := zero_header\<lparr>tmin := 7, tmax := INVALID_XTID, tinfo := CLEAN_XTID\<rparr>\<rparr>]"
proof -
  have "GetCurrentTransactionID running_seven = Some 7"
    by (simp add: GetCurrentTransactionID_def running_seven_def my_ctx_def arr_get_def)
  then show ?thesis
    using group_insert_appends_row [of "[InitPage]" "[int_column 42]"
        "\<lparr>tr_size = 52, tr_num = 1, columnData = [Some (int_column 42)]\<rparr>" running_seven 7 blank_row]
      InitPage_ok int_column_ok room_InitPage
    by (auto simp: blank_row_def GetItemRedirect_def)
qed

subsection \<open>Replacing a row in place\<close>

lemma put_col_replaces:
  assumes ok: "page_ok p" and i: "i < items p" and c: "col_ok c" and sp: "length (enc_col c) \<le> item_space p i"
  shows "page_ok (put_bytes (item_start p i) (enc_col c) p)" (is "page_ok ?q")
    and "rows (put_bytes (item_start p i) (enc_col c) p) = (rows p)[i := c]"
proof -
  let ?a = "item_start p i"
  note okD = page_okD [OF ok]
  note sl = item_space_le [OF ok]
  have st: "?a + length (enc_col c) \<le> 4096" "40 + 16 * items p \<le> ?a" using sl [OF i] sp by auto
  have fl: "fld 12 ?q = fld 12 p" "fld 16 ?q = fld 16 p" using st(2) by (simp_all add: page_simps)
  then have do: "dataOffset ?q = dataOffset p" "dataEndOffset ?q = dataEndOffset p" "items ?q = items p"
    by (simp_all add: dataOffset_def dataEndOffset_def items_def)
  have old: "item_at ?q j = item_at p j" if "j < items p" for j
    using that st by (intro item_at_cong bytes_at_put_other) simp
  have top: "data_top ?q j = data_top p j" if "j \<le> items p" for j
    using that by (intro data_top_cong old) auto
  have sep: "item_start p j + item_space p j \<le> ?a \<or> ?a + item_space p i \<le> item_start p j"
    if "j < items p" "j \<noteq> i" for j
  proof (cases "j < i")
    case True
    have "?a + item_space p i \<le> data_top p i" using okD(4) [OF i] by (simp add: item_ok_def)
    also have "\<dots> \<le> data_top p (Suc j)" using True i okD(4) by (intro data_top_mono) auto
    finally show ?thesis by (simp add: data_top_def)
  next
    case False
    have "item_start p j + item_space p j \<le> data_top p j" using okD(4) [OF that(1)] by (simp add: item_ok_def)
    also have "\<dots> \<le> data_top p (Suc i)" using False that okD(4) by (intro data_top_mono) auto
    finally show ?thesis by (simp add: data_top_def)
  qed
  have others: "item_ok ?q j" "row_at ?q j = row_at p j" if "j < items p" "j \<noteq> i" for j
  proof -
    have fr: "bytes_at ?q (item_start p j) (item_space p j) = bytes_at p (item_start p j) (item_space p j)"
      using sep [OF that] sp by (intro bytes_at_put_other) auto
    show "item_ok ?q j" "row_at ?q j = row_at p j"
      using row_unchanged [OF okD(4) [OF that(1)] old [OF that(1)] top fr] that by auto
  qed
  have new: "bytes_at ?q ?a (length (enc_col c)) = enc_col c" by (simp add: page_simps)
  have "bytes_at ?q ?a 4 = take 4 (enc_col c)"
    using take_bytes_at [of 4 "length (enc_col c)" ?q ?a] new by simp
  then have sz: "stored_size ?q ?a = length (enc_col c)"
    using col_okD(1) [OF c] by (simp add: stored_size_def take_enc_col)
  have start: "item_start ?q i = ?a" "item_space ?q i = item_space p i"
    using old [OF i] by (simp_all add: item_start_def item_space_def)
  have oki: "item_ok ?q i"
    using okD(4) [OF i] sz sp start old [OF i] top [of i] i by (simp add: item_ok_def ROW_COLUMN_HEADER_SIZE_def)
  have row: "row_at ?q i = c" using new sz start by (simp add: row_at_def)
  have "item_ok ?q j" if "j < items p" for j using oki others(1) that by (cases "j = i") auto
  then show "page_ok ?q" using okD top [of "items p"] do by (simp add: page_ok_def)
  show "rows ?q = (rows p)[i := c]"
    using others(2) row i by (intro nth_equalityI) (auto simp: rows_def do nth_list_update)
qed

text \<open>C26: Writing a column over a row that had at least its size, as the update and the delete of a row
  do, replaces exactly that row of the page and keeps the page well-formed.\<close>

theorem replace_row_in_place:
  assumes "page_ok p" "i < length (rows p)" "col_ok c" "one_col row c"
    and "sint (rc_size c) \<le> sint (GetItemSize (it_len (item_at p i)))"
  shows "\<exists>p'. WriteRowDataOnly p row (item_at p i) = Some p' \<and> page_ok p' \<and> rows p' = (rows p)[i := c]"
proof -
  have i: "i < items p" using assms(2) by (simp add: rows_def)
  note sl = item_space_le [OF assms(1) i]
  have "sint (GetItemSize (it_len (item_at p i))) = int (item_space p i)"
    unfolding item_space_def using GetItemSize_unat [of "it_len (item_at p i)"] by (intro sint_unat31) simp
  then have sp: "length (enc_col c) \<le> item_space p i" using assms(5) col_okD(2) [OF assms(3)] by simp
  have "sint (it_offset (item_at p i)) = int (item_start p i)"
    using sl unfolding item_start_def by (intro sint_unat31) simp
  then have "WriteRowDataOnly p row (item_at p i) = Some (put_bytes (item_start p i) (enc_col c) p)"
    using sp sl unfolding WriteRowDataOnly_def by (intro ReplaceRowData_one [OF assms(4,3)]) auto
  then show ?thesis using put_col_replaces [OF assms(1) i assms(3) sp] by blast
qed

definition one_int_page :: page where
  "one_int_page = appended InitPage 4044 (int_column 42) \<lparr>it_offset = 4044, it_len = 52 OR ITEM_VALID_MASK, it_rowid = 0\<rparr>"

lemma one_int_page_ok: "page_ok one_int_page" "rows one_int_page = [int_column 42]"
  "item_at one_int_page 0 = \<lparr>it_offset = 4044, it_len = 52 OR ITEM_VALID_MASK, it_rowid = 0\<rparr>"
proof -
  have len: "length (enc_col (int_column 42)) = 52" by (simp add: int_column_def)
  have "GetItemSize (52 OR ITEM_VALID_MASK) = rc_size (int_column 42)" "\<not> GetItemRedirect (52 OR ITEM_VALID_MASK)"
    by (simp_all add: GetItemSize_def GetItemRedirect_def ITEM_VALID_MASK_def ITEM_FLAG_MASK_def ITEM_REDIRECT_MASK_def int_column_def)
  then show "page_ok one_int_page" "rows one_int_page = [int_column 42]"
    using appended_ok [OF InitPage_ok(1) int_column_ok, of 4044 42 "\<lparr>it_offset = 4044, it_len = 52 OR ITEM_VALID_MASK, it_rowid = 0\<rparr>"]
      GetItemValid_or [of 52] len
    by (simp_all add: one_int_page_def InitPage_ok data_top_def PAGE_MAX_SIZE_def)
  show "item_at one_int_page 0 = \<lparr>it_offset = 4044, it_len = 52 OR ITEM_VALID_MASK, it_rowid = 0\<rparr>"
    by (simp add: item_at_def one_int_page_def appended_def page_simps InitPage_ok)
qed

theorem replace_row_in_place_witness:
  "\<exists>p'. WriteRowDataOnly one_int_page (blank_row\<lparr>rowsData := \<lparr>tr_size = 52, tr_num = 1, columnData = [Some (int_column 43)]\<rparr>\<rparr>)
       (item_at one_int_page 0) = Some p' \<and> rows p' = [int_column 43]"
proof -
  have "one_col (blank_row\<lparr>rowsData := \<lparr>tr_size = 52, tr_num = 1, columnData = [Some (int_column 43)]\<rparr>\<rparr>) (int_column 43)"
    by (simp add: one_col_def int_column_def)
  moreover have "sint (rc_size (int_column 43)) \<le> sint (GetItemSize (it_len (item_at one_int_page 0)))"
    by (simp add: one_int_page_ok int_column_def GetItemSize_def ITEM_VALID_MASK_def ITEM_FLAG_MASK_def)
  ultimately show ?thesis
    using replace_row_in_place [OF one_int_page_ok(1) _ int_column_ok, of 0] one_int_page_ok(2) by fastforce
qed

text \<open>C27: Under the NSM storage model a row is written from the end of the data upwards: on a page
  without rows, where the data ends with the page, every insertion writes behind the page.\<close>

theorem nsm_insert_leaves_page:
  assumes "page_ok p" "rows p = []"
  shows "WriteRowData p row = None"
proof -
  have "dataEndOffset p = 4096"
    using page_okD(2) [OF assms(1)] assms(2) by (simp add: rows_def data_top_def PAGE_MAX_SIZE_def)
  then show ?thesis by (simp add: WriteRowData_def wr_def PAGE_MAX_SIZE_def)
qed

theorem nsm_insert_leaves_page_witness:
  "WriteRowData InitPage \<lparr>tr_size = 52, tr_num = 1, columnData = [Some (int_column 42)]\<rparr> = None"
  by (rule nsm_insert_leaves_page [OF InitPage_ok(1,2)])

end
