(* ===== verification/Cursor.thy ===== *)
theory Cursor
  imports Toadb_Prelude
begin

text \<open>
  The interface between the nodes of a plan. A node hands out one row at each call and then the null
  pointer; the parent calls it until then. The locale \<open>cursor\<close> states this contract: \<open>delivers s rs\<close>
  says that from the state \<open>s\<close> the rows \<open>rs\<close> come, a row \<open>x\<close> that is handed out stands for an abstract
  row \<open>r\<close> by \<open>shows_row x r\<close>. Scans, joins and selections are interpretations of it.
\<close>

primrec fetch :: "('s \<Rightarrow> ('x option \<times> 's) option) \<Rightarrow> nat \<Rightarrow> 's \<Rightarrow> ('x option list \<times> 's) option" where
  "fetch next_row 0 s = Some ([], s)"
| "fetch next_row (Suc n) s = do { (x, s) \<leftarrow> next_row s; (xs, s) \<leftarrow> fetch next_row n s; Some (x # xs, s) }"

partial_function (option) drain :: "('s \<Rightarrow> ('x option \<times> 's) option) \<Rightarrow> 's \<Rightarrow> ('x list \<times> 's) option" where
  "drain next_row s = do {
     (x, s) \<leftarrow> next_row s;
     case x of None \<Rightarrow> Some ([], s) | Some x \<Rightarrow> do { (xs, s) \<leftarrow> drain next_row s; Some (x # xs, s) } }"

locale cursor =
  fixes next_row :: "'s \<Rightarrow> ('x option \<times> 's) option"
    and delivers :: "'s \<Rightarrow> 'r list \<Rightarrow> bool"
    and ended :: "'s \<Rightarrow> bool"
    and shows_row :: "'x \<Rightarrow> 'r \<Rightarrow> bool"
  assumes next_end: "delivers s [] \<Longrightarrow> \<exists>s'. next_row s = Some (None, s') \<and> ended s'"
    and next_some: "delivers s (r # rs) \<Longrightarrow> \<exists>x s'. next_row s = Some (Some x, s') \<and> shows_row x r \<and> delivers s' rs"
begin

lemma fetch_all:
  "delivers s rs \<Longrightarrow> \<exists>xs s'. fetch next_row (Suc (length rs)) s = Some (map Some xs @ [None], s') \<and> list_all2 shows_row xs rs \<and> ended s'"
proof (induction rs arbitrary: s)
  case Nil
  then show ?case using next_end by fastforce
next
  case (Cons r rs)
  obtain x s1 where x: "next_row s = Some (Some x, s1)" "shows_row x r" "delivers s1 rs"
    using next_some [OF Cons.prems] by blast
  obtain xs s' where xs: "fetch next_row (Suc (length rs)) s1 = Some (map Some xs @ [None], s')" "list_all2 shows_row xs rs" "ended s'"
    using Cons.IH [OF x(3)] by blast
  have "fetch next_row (Suc (length (r # rs))) s = Some (map Some (x # xs) @ [None], s')"
    using x(1) xs(1) by (simp del: fetch.simps(2) add: fetch.simps(2) [of next_row "Suc (length rs)"])
  then show ?case using x(2) xs(2,3) by (intro exI [of _ "x # xs"] exI [of _ s']) simp
qed

lemma drain_all:
  "delivers s rs \<Longrightarrow> \<exists>xs s'. drain next_row s = Some (xs, s') \<and> list_all2 shows_row xs rs \<and> ended s'"
proof (induction rs arbitrary: s)
  case Nil
  then show ?case using next_end by (subst drain.simps) fastforce
next
  case (Cons r rs)
  obtain x s1 where x: "next_row s = Some (Some x, s1)" "shows_row x r" "delivers s1 rs"
    using next_some [OF Cons.prems] by blast
  obtain xs s' where xs: "drain next_row s1 = Some (xs, s')" "list_all2 shows_row xs rs" "ended s'"
    using Cons.IH [OF x(3)] by blast
  have "drain next_row s = Some (x # xs, s')" using x(1) xs(1) by (subst drain.simps) simp
  then show ?case using x(2) xs(2,3) by (intro exI [of _ "x # xs"] exI [of _ s']) simp
qed

end

end
