(* ===== verification/TableScan.thy ===== *)
theory TableScan
  imports Pages Cursor
begin

text \<open>
  The sequential scan of a table, after \<^verbatim>\<open>src/sqlcore/executor/scan/seqscan.c\<close>, the reading
  functions of \<^verbatim>\<open>src/sqlcore/storage/buffer/buffer.c\<close> and the version chain of
  \<^verbatim>\<open>src/sqlcore/storage/buffer/undopage.c\<close>.

  A table under the PAX storage model has a group file, whose items list the pages of a group, one
  page for each column, and a main file with these pages. A worker's access to the table is a
  \<open>tblst\<close>: the pages of both files by their numbers, the read locks the worker holds and its pins;
  a pointer to a page is the number of the page, since a pinned page keeps its buffer. The release
  of column memory has no place in the model.
\<close>

section \<open>Access to pages\<close>

datatype ForkType = MAIN_FORK | GROUP_FORK

record tblst =
  pages :: "ForkType \<Rightarrow> int \<rightharpoonup> page"
  locks :: "ForkType \<Rightarrow> int \<Rightarrow> int"
  pins :: "ForkType \<Rightarrow> int \<Rightarrow> int"

definition INVALID_PAGE_NUM :: int where "INVALID_PAGE_NUM = 0"
definition PAGE_HEAD_PAGE_NUM :: int where "PAGE_HEAD_PAGE_NUM = 1"

definition bump :: "ForkType \<Rightarrow> int \<Rightarrow> int \<Rightarrow> (ForkType \<Rightarrow> int \<Rightarrow> int) \<Rightarrow> (ForkType \<Rightarrow> int \<Rightarrow> int)" where
  "bump f n d c = c(f := (c f)(n := c f n + d))"

definition LockPage :: "ForkType \<Rightarrow> int \<Rightarrow> tblst \<Rightarrow> tblst" where
  "LockPage f n st = st\<lparr>locks := bump f n 1 (locks st)\<rparr>"

definition UnLockPage :: "ForkType \<Rightarrow> int \<Rightarrow> tblst \<Rightarrow> tblst" where
  "UnLockPage f n st = st\<lparr>locks := bump f n (-1) (locks st)\<rparr>"

definition ReadPage :: "ForkType \<Rightarrow> int \<Rightarrow> tblst \<Rightarrow> int option \<times> tblst" where
  "ReadPage f n st =
     (if n \<le> 0 then (None, st)
      else case pages st f n of None \<Rightarrow> (None, st) | Some p \<Rightarrow> (Some n, st\<lparr>pins := bump f n 1 (pins st)\<rparr>))"

definition GetPageByIndex :: "ForkType \<Rightarrow> int \<Rightarrow> tblst \<Rightarrow> int option \<times> tblst" where
  "GetPageByIndex f n st = (if n = INVALID_PAGE_NUM then (None, st) else ReadPage f n st)"

definition ReleasePage :: "ForkType \<Rightarrow> int \<Rightarrow> tblst \<Rightarrow> tblst" where
  "ReleasePage f n st = (if 0 < pins st f n then st\<lparr>pins := bump f n (-1) (pins st)\<rparr> else st)"

fun ReleasePageList :: "int option list \<Rightarrow> nat \<Rightarrow> tblst \<Rightarrow> int option list \<times> tblst" where
  "ReleasePageList [] n st = ([], st)"
| "ReleasePageList (None # ps) n st = (None # ps, st)"
| "ReleasePageList (Some p # ps) n st =
     (let st = ReleasePage MAIN_FORK p st in
      if n \<le> 1 then (None # ps, st)
      else let (ps, st) = ReleasePageList ps (n - 1) st in (None # ps, st))"

section \<open>Reading the rows of a page\<close>

record SearchPageInfo =
  sp_page :: "int option"
  item_offset :: int
  group_id :: int
  sp_pageNum :: int

text \<open>The loop over the items: the first valid item from an offset on, unless the items end before.\<close>

function next_valid :: "page \<Rightarrow> int \<Rightarrow> (int \<times> ItemData) option option" where
  "next_valid p off =
     (if ITEM_END_CHECK off p then Some None
      else do {
        it \<leftarrow> get_item p off;
        if GetItemValid (it_len it) then Some (Some (off, it)) else next_valid p (off + int ITEM_SIZE) })"
  by pat_completeness auto
termination
  by (relation "measure (\<lambda>(p, off). nat (dataOffset p - off))") (auto simp: ITEM_END_CHECK_def ITEM_SIZE_def)

declare next_valid.simps [simp del]

definition GET_CUR_ITEM_INDEX :: "int \<Rightarrow> int" where
  "GET_CUR_ITEM_INDEX off = (off - int PAGE_DATA_HEADER_SIZE) div int ITEM_SIZE"

definition GetRowDataFromExtPageEx :: "page \<Rightarrow> int \<Rightarrow> RowColumnData option option" where
  "GetRowDataFromExtPageEx p i =
     (if GET_PAGE_TYPE (fld f_pageType p) \<noteq> PAGE_EXTDATA then Some None
      else if ITEM_END_CHECK (GET_ITEM_BY_INDEX i) p then Some None
      else do {
        it \<leftarrow> get_item p (GET_ITEM_BY_INDEX i);
        if GetItemValid (it_len it) then DeFormRowDatEx2 p (sint (it_offset it)) else Some None })"

definition item_column :: "page \<Rightarrow> int \<Rightarrow> ItemData \<Rightarrow> RowColumnData option option" where
  "item_column p off it =
     (if GetItemRedirect (it_len it) then GetRowDataFromExtPageEx p (GET_CUR_ITEM_INDEX off)
      else DeFormRowDatEx2 p (sint (it_offset it)))"

definition GetRowDataFromPageEx :: "SearchPageInfo \<Rightarrow> tblst \<Rightarrow> (RowColumnData option \<times> SearchPageInfo \<times> tblst) option" where
  "GetRowDataFromPageEx sp st =
     (case sp_page sp of
        None \<Rightarrow> Some (None, sp, st)
      | Some n \<Rightarrow> do {
          p \<leftarrow> pages st MAIN_FORK n;
          let st = LockPage MAIN_FORK n st;
          let off = (if item_offset sp > 0 then item_offset sp + int ITEM_SIZE else int PAGE_DATA_HEADER_SIZE);
          r \<leftarrow> next_valid p off;
          case r of
            None \<Rightarrow> Some (None, sp, UnLockPage MAIN_FORK n st)
          | Some (off, it) \<Rightarrow> do {
              let sp = sp\<lparr>item_offset := off, sp_pageNum := pageNum p\<rparr>;
              c \<leftarrow> item_column p off it;
              Some (c, sp, UnLockPage MAIN_FORK n st) } })"

text \<open>The position of the item, which the function also stores for callers that ask for it, is left out.\<close>

definition GetRowDataFromPageByIndexEx :: "int \<Rightarrow> int \<Rightarrow> tblst \<Rightarrow> (RowColumnData option \<times> tblst) option" where
  "GetRowDataFromPageByIndexEx pno poff st =
     (case GetPageByIndex MAIN_FORK pno st of
        (None, st) \<Rightarrow> Some (None, st)
      | (Some n, st) \<Rightarrow> do {
          p \<leftarrow> pages st MAIN_FORK n;
          let st = LockPage MAIN_FORK n st;
          c \<leftarrow> (if poff > 0 \<and> \<not> ITEM_END_CHECK poff p then do {
                  it \<leftarrow> get_item p poff;
                  if GetItemValid (it_len it) then item_column p poff it else Some None }
                else Some None);
          Some (c, ReleasePage MAIN_FORK n (UnLockPage MAIN_FORK n st)) })"

section \<open>Version chains\<close>

text \<open>
  \<open>version_loop\<close> is the loop of \<^verbatim>\<open>CurrentReadVersion\<close>: it follows the undo positions until a version is
  visible. It keeps the page pinned and, when the item is not there, locked.
\<close>

partial_function (option) version_loop :: "SnapShotInfo option \<Rightarrow> txnst \<Rightarrow> RowPosition \<Rightarrow> tblst \<Rightarrow>
    (RowColumnData option \<times> tblst) option" where
  "version_loop snap txn pos st =
     (if sint (po_pageno (pageIndex pos)) = INVALID_PAGE_NUM then Some (None, st)
      else case ReadPage MAIN_FORK (sint (po_pageno (pageIndex pos))) st of
        (None, st) \<Rightarrow> Some (None, st)
      | (Some n, st) \<Rightarrow> do {
          p \<leftarrow> pages st MAIN_FORK n;
          let st = LockPage MAIN_FORK n st;
          let off = GET_ITEM_BY_INDEX (sint (itemIndex pos));
          if ITEM_END_CHECK off p then Some (None, st)
          else do {
            it \<leftarrow> get_item p off;
            if \<not> GetItemValid (it_len it) then Some (None, st)
            else do {
              c \<leftarrow> DeFormRowDatEx2 p (sint (it_offset it));
              let st = UnLockPage MAIN_FORK n st;
              case c of
                None \<Rightarrow> Some (None, st)
              | Some c \<Rightarrow> do {
                  vis \<leftarrow> TupleVisibilitySatisfy (headerData c) snap txn;
                  if vis = TUPLE_VISIBLE then Some (Some c, st)
                  else version_loop snap txn (undo (headerData c)) st } } } })"

definition CurrentReadVersion :: "SnapShotInfo option \<Rightarrow> txnst \<Rightarrow> RowColumnData option \<Rightarrow> tblst \<Rightarrow>
    (RowColumnData option \<times> tblst) option" where
  "CurrentReadVersion snap txn c st =
     (case c of None \<Rightarrow> Some (None, st) | Some c \<Rightarrow> version_loop snap txn (undo (headerData c)) st)"

section \<open>Groups\<close>

text \<open>
  A group item has the layout of an item with the group id in place of the row id. The member data of a
  group are 16 bytes for each column: the column, the number of the pages and the position of one page.
  \<open>gi_members\<close> is the memory for the member data of the current group.
\<close>

record GroupItemData =
  gi_pageno :: int
  gi_item :: ItemData
  gi_members :: "byte list"

definition MEMBER_DATA_SIZE :: nat where "MEMBER_DATA_SIZE = 8"
definition PAGE_OFFSET_SIZE :: nat where "PAGE_OFFSET_SIZE = 8"

definition member_int :: "byte list \<Rightarrow> nat \<Rightarrow> int option" where
  "member_int bs off = (if off + 4 \<le> length bs then Some (sint (word_of (take 4 (drop off bs)) :: i32)) else None)"

definition memNum_at :: "byte list \<Rightarrow> nat \<Rightarrow> int option" where
  "memNum_at bs off = member_int bs (off + 4)"

definition member_pageno :: "byte list \<Rightarrow> nat \<Rightarrow> nat \<Rightarrow> int option" where
  "member_pageno bs off i = member_int bs (off + MEMBER_DATA_SIZE + i * PAGE_OFFSET_SIZE + 4)"

partial_function (option) group_loop :: "int option \<Rightarrow> int option \<Rightarrow> SearchPageInfo \<Rightarrow> GroupItemData \<Rightarrow> tblst \<Rightarrow>
    (int \<times> SearchPageInfo \<times> GroupItemData \<times> tblst) option" where
  "group_loop page gItem sp gi st =
     (case page of
        None \<Rightarrow> Some (0, sp, gi, st)
      | Some n \<Rightarrow> do {
          p \<leftarrow> pages st GROUP_FORK n;
          let off = (case gItem of None \<Rightarrow> int PAGE_DATA_HEADER_SIZE | Some off \<Rightarrow> off);
          if ITEM_END_CHECK off p then do {
            let next = sp_pageNum sp + 1;
            let st = ReleasePage GROUP_FORK n (UnLockPage GROUP_FORK n st);
            let (page, st) = GetPageByIndex GROUP_FORK next st;
            let sp = sp\<lparr>sp_page := page\<rparr>;
            case page of
              None \<Rightarrow> group_loop None None sp gi st
            | Some m \<Rightarrow> group_loop page None (sp\<lparr>sp_pageNum := next\<rparr>) gi (LockPage GROUP_FORK m st) }
          else do {
            it \<leftarrow> get_item p off;
            if GetItemValid (it_len it) then do {
              let len = sint (GetItemSize (it_len it));
              bs \<leftarrow> rd p (sint (it_offset it)) (nat len);
              if length bs > length (gi_members gi) then None
              else do {
                let gi = gi\<lparr>gi_item := it, gi_members := bs @ drop (length bs) (gi_members gi), gi_pageno := pageNum p\<rparr>;
                let sp = sp\<lparr>group_id := sint (ucast (it_rowid it) :: i32), item_offset := off\<rparr>;
                Some (1, sp, gi, UnLockPage GROUP_FORK n st) } }
            else group_loop page (Some (off + int ITEM_SIZE)) sp gi st } })"

definition GetGroupInfo :: "SearchPageInfo \<Rightarrow> GroupItemData \<Rightarrow> tblst \<Rightarrow>
    (int \<times> SearchPageInfo \<times> GroupItemData \<times> tblst) option" where
  "GetGroupInfo sp gi st =
     (case sp_page sp of
        None \<Rightarrow> do {
          let (page, st) = GetPageByIndex GROUP_FORK (sp_pageNum sp) st;
          let sp = sp\<lparr>sp_page := page\<rparr>;
          case page of
            None \<Rightarrow> Some (-1, sp, gi, st)
          | Some n \<Rightarrow> group_loop page None sp gi (LockPage GROUP_FORK n st) }
      | Some n \<Rightarrow> do {
          p \<leftarrow> pages st GROUP_FORK n;
          group_loop (Some n) (Some (item_offset sp + int ITEM_SIZE)) (sp\<lparr>sp_pageNum := pageNum p\<rparr>) gi
            (LockPage GROUP_FORK n st) })"

definition GetGroupMemberPageNo :: "byte list \<Rightarrow> int \<Rightarrow> int option" where
  "GetGroupMemberPageNo bs i =
     (if i < 0 then None else member_pageno bs (nat i * (MEMBER_DATA_SIZE + PAGE_OFFSET_SIZE)) 0)"

text \<open>\<^verbatim>\<open>GetPageNoFromGroupInfo\<close> reads the member data in the page itself.\<close>

definition GetPageNoFromGroupInfo :: "SearchPageInfo \<Rightarrow> int \<Rightarrow> tblst \<Rightarrow> int option" where
  "GetPageNoFromGroupInfo sp attr st =
     (case sp_page sp of
        None \<Rightarrow> Some (-1)
      | Some n \<Rightarrow> do {
          p \<leftarrow> pages st GROUP_FORK n;
          if ITEM_END_CHECK (item_offset sp) p then Some (-1)
          else do {
            it \<leftarrow> get_item p (item_offset sp);
            if \<not> GetItemValid (it_len it) then Some (-1)
            else do {
              bs \<leftarrow> rd p (sint (it_offset it)) (PAGE_MAX_SIZE - unat (it_offset it));
              GetGroupMemberPageNo bs attr } } })"

text \<open>The state of a scan.\<close>

record ScanPageInfo =
  groupPageInfo :: SearchPageInfo
  groupItem :: GroupItemData
  searchPageList :: "SearchPageInfo list"
  pageList :: "int option list"
  colindexList :: "int list"
  rawcolrow :: "RowColumnData option list"
  row_size :: i32
  row_num :: i32
  pageListNum :: int
  pageReset :: int

text \<open>
  The loop over the member data: \<open>pno\<close> is the page of column \<open>col\<close>, \<open>cnt\<close> the number of its pages, \<open>off\<close>
  the place of the next member data and \<open>k\<close> the number of the pages found.
\<close>

function member_loop :: "byte list \<Rightarrow> int list \<Rightarrow> int \<Rightarrow> int \<Rightarrow> int \<Rightarrow> int \<Rightarrow> nat \<Rightarrow> nat \<Rightarrow> int option list \<Rightarrow>
    tblst \<Rightarrow> (nat \<times> int \<times> int option list \<times> tblst) option" where
  "member_loop bs cols num pno cnt col off k pl st =
     (if pno = INVALID_PAGE_NUM then Some (k, cnt, pl, st)
      else do {
        c \<leftarrow> arr_get cols (int k);
        (stop, k, pl, st) \<leftarrow>
          (if col = c then
             (case GetPageByIndex MAIN_FORK pno st of
                (None, st) \<Rightarrow> Some (True, k, pl, st)
              | (Some n, st) \<Rightarrow> do {
                  pl \<leftarrow> arr_set pl (int k) (Some n);
                  Some (int (Suc k) \<ge> num, Suc k, pl, st) })
           else Some (False, k, pl, st));
        if stop then Some (k, cnt, pl, st)
        else do {
          pno \<leftarrow> member_pageno bs off 0;
          cnt \<leftarrow> memNum_at bs off;
          member_loop bs cols num pno cnt (col + 1) (off + MEMBER_DATA_SIZE + nat cnt * PAGE_OFFSET_SIZE) k pl st } })"
  by pat_completeness auto
termination
  by (relation "measure (\<lambda>(bs, cols, num, pno, cnt, col, off, k, pl, st). length bs - off)")
    (auto simp: memNum_at_def member_int_def MEMBER_DATA_SIZE_def split: if_splits)

declare member_loop.simps [simp del]

definition GetGroupMemberPagesOpt :: "ScanPageInfo \<Rightarrow> tblst \<Rightarrow> (int \<times> ScanPageInfo \<times> tblst) option" where
  "GetGroupMemberPagesOpt sc st = do {
     (found, sp, gi, st) \<leftarrow> GetGroupInfo (groupPageInfo sc) (groupItem sc) st;
     let sc = sc\<lparr>groupPageInfo := sp, groupItem := gi\<rparr>;
     if found \<le> 0 then Some (found, sc, st)
     else do {
       pno \<leftarrow> member_pageno (gi_members gi) 0 0;
       cnt \<leftarrow> memNum_at (gi_members gi) 0;
       let off = MEMBER_DATA_SIZE + nat cnt * PAGE_OFFSET_SIZE;
       (k, cnt, pl, st) \<leftarrow> member_loop (gi_members gi) (colindexList sc) (pageListNum sc) pno cnt 0 off 0 (pageList sc) st;
       if int k \<noteq> pageListNum sc then do {
         let (pl, st) = ReleasePageList pl (nat cnt) st;
         Some (0, sc\<lparr>pageList := pl\<rparr>, st) }
       else Some (found, sc\<lparr>pageList := pl\<rparr>, st) } }"

section \<open>The scan\<close>

datatype scan_flag = SCAN_NEXT_ROW | SCAN_END_OF_FILE | IGNORE_INVISIBILITY_COLUMNS

text \<open>One pass of the loop over the columns, from column \<open>i\<close> on.\<close>

fun columns_loop :: "SnapShotInfo option \<Rightarrow> txnst \<Rightarrow> nat \<Rightarrow> nat \<Rightarrow> scan_flag \<Rightarrow> ScanPageInfo \<Rightarrow> tblst \<Rightarrow>
    (scan_flag \<times> ScanPageInfo \<times> tblst) option" where
  "columns_loop snap txn i 0 flag sc st = Some (flag, sc, st)"
| "columns_loop snap txn i (Suc n) flag sc st = do {
     sp \<leftarrow> arr_get (searchPageList sc) (int i);
     page \<leftarrow> arr_get (pageList sc) (int i);
     let sp = sp\<lparr>sp_page := page\<rparr>;
     let sp = (if pageReset sc = 1 then sp\<lparr>item_offset := 0\<rparr> else sp);
     (c, sp, st) \<leftarrow> GetRowDataFromPageEx sp st;
     let sc = sc\<lparr>searchPageList := (searchPageList sc)[i := sp]\<rparr>;
     raw \<leftarrow> arr_set (rawcolrow sc) (int i) c;
     case c of
       None \<Rightarrow> Some (SCAN_END_OF_FILE, sc\<lparr>rawcolrow := raw\<rparr>, st)
     | Some col \<Rightarrow>
         if flag = IGNORE_INVISIBILITY_COLUMNS then columns_loop snap txn (Suc i) n flag (sc\<lparr>rawcolrow := raw\<rparr>) st
         else do {
           vis \<leftarrow> TupleVisibilitySatisfy (headerData col) snap txn;
           (v, st) \<leftarrow> (if vis \<noteq> TUPLE_VISIBLE then CurrentReadVersion snap txn c st else Some (c, st));
           columns_loop snap txn (Suc i) n (if v = None then IGNORE_INVISIBILITY_COLUMNS else flag)
             (sc\<lparr>rawcolrow := raw[i := v]\<rparr>) st } }"

text \<open>The total size and the number of the columns; a null pointer in front changes nothing.\<close>

fun sum_size :: "RowColumnData option list \<Rightarrow> nat \<Rightarrow> i32 option" where
  "sum_size cols 0 = Some 0"
| "sum_size (Some c # cols) (Suc n) = map_option ((+) (rc_size c)) (sum_size cols n)"
| "sum_size _ (Suc n) = None"

definition FormCol2RowDataEx2 :: "RowColumnData option list \<Rightarrow> int \<Rightarrow> i32 \<times> i32 \<Rightarrow> (int \<times> i32 \<times> i32) option" where
  "FormCol2RowDataEx2 cols num old =
     (case cols of
        [] \<Rightarrow> None
      | None # _ \<Rightarrow> Some (-1, old)
      | Some c # _ \<Rightarrow> do {
          sz \<leftarrow> sum_size cols (nat num);
          Some (int (nat num), sz, of_int num) })"

partial_function (option) SeqScanNextColumnOpt :: "SnapShotInfo option \<Rightarrow> txnst \<Rightarrow> ScanPageInfo \<Rightarrow> tblst \<Rightarrow>
    (TableRowData option \<times> ScanPageInfo \<times> tblst) option" where
  "SeqScanNextColumnOpt snap txn sc st = do {
     (flag, sc, st) \<leftarrow> columns_loop snap txn 0 (nat (pageListNum sc)) SCAN_NEXT_ROW sc st;
     let sc = (if pageReset sc = 1 then sc\<lparr>pageReset := 0\<rparr> else sc);
     case flag of
       SCAN_END_OF_FILE \<Rightarrow> Some (None, sc, st)
     | IGNORE_INVISIBILITY_COLUMNS \<Rightarrow> SeqScanNextColumnOpt snap txn sc st
     | SCAN_NEXT_ROW \<Rightarrow> do {
         (_, sz, num) \<leftarrow> FormCol2RowDataEx2 (rawcolrow sc) (pageListNum sc) (row_size sc, row_num sc);
         Some (Some \<lparr>tr_size = sz, tr_num = num, columnData = rawcolrow sc\<rparr>, sc\<lparr>row_size := sz, row_num := num\<rparr>, st) } }"

partial_function (option) seqscan_loop :: "SnapShotInfo option \<Rightarrow> txnst \<Rightarrow> int \<Rightarrow> ScanPageInfo \<Rightarrow> tblst \<Rightarrow>
    (TableRowData option \<times> ScanPageInfo \<times> tblst) option" where
  "seqscan_loop snap txn found sc st = do {
     (found, sc, st) \<leftarrow>
       (if found \<le> 0 then do {
          (found, sc, st) \<leftarrow> GetGroupMemberPagesOpt sc st;
          Some (found, if found \<le> 0 then sc else sc\<lparr>pageReset := found\<rparr>, st) }
        else Some (found, sc, st));
     if found \<le> 0 then Some (None, sc, st)
     else do {
       (row, sc, st) \<leftarrow> SeqScanNextColumnOpt snap txn sc st;
       case row of
         Some r \<Rightarrow> Some (Some r, sc, st)
       | None \<Rightarrow> do {
           let (pl, st) = ReleasePageList (pageList sc) (nat (pageListNum sc)) st;
           seqscan_loop snap txn 0 (sc\<lparr>pageList := pl\<rparr>) st } } }"

definition SeqscanNext :: "SnapShotInfo option \<Rightarrow> txnst \<Rightarrow> ScanPageInfo \<Rightarrow> tblst \<Rightarrow>
    (TableRowData option \<times> ScanPageInfo \<times> tblst) option" where
  "SeqscanNext snap txn sc st = seqscan_loop snap txn (1 - pageReset sc) sc st"

definition ExecReSeqScan :: "ScanPageInfo \<Rightarrow> tblst \<Rightarrow> ScanPageInfo \<times> tblst" where
  "ExecReSeqScan sc st =
     (let g = groupPageInfo sc;
          (g, st) = (case sp_page g of
              None \<Rightarrow> (g, st)
            | Some n \<Rightarrow> (g\<lparr>sp_page := None, item_offset := 0, sp_pageNum := PAGE_HEAD_PAGE_NUM + 1, group_id := 0\<rparr>,
                         ReleasePage GROUP_FORK n st));
          (pl, st) = ReleasePageList (pageList sc) (nat (pageListNum sc)) st
      in (sc\<lparr>groupPageInfo := g, pageList := pl, pageReset := 1\<rparr>, st))"

text \<open>
  The state of a scan of the columns \<open>cols\<close> of a table with \<open>colNum\<close> columns; the memory it starts with is
  zero.
\<close>

definition InitScanPositionInfo :: "int list \<Rightarrow> nat \<Rightarrow> ScanPageInfo option" where
  "InitScanPositionInfo cols colNum =
     (if length cols > colNum then None
      else let sp = \<lparr>sp_page = None, item_offset = 0, group_id = 0, sp_pageNum = 0\<rparr> in
        Some \<lparr>groupPageInfo = sp\<lparr>sp_pageNum := PAGE_HEAD_PAGE_NUM + 1\<rparr>,
          groupItem = \<lparr>gi_pageno = 0, gi_item = \<lparr>it_offset = 0, it_len = 0, it_rowid = 0\<rparr>, gi_members = replicate (16 * colNum) 0\<rparr>,
          searchPageList = replicate colNum sp, pageList = replicate colNum None,
          colindexList = cols @ replicate (colNum - length cols) 0,
          rawcolrow = replicate colNum None, row_size = 0, row_num = 0, pageListNum = int (length cols), pageReset = 1\<rparr>)"

section \<open>Reading a page row by row\<close>

lemma bump_cancel [simp]: "bump f n (-1) (bump f n 1 c) = c" "bump f n 1 (bump f n (-1) c) = c"
  by (auto simp: bump_def)

lemma UnLock_Lock [simp]: "UnLockPage f n (LockPage f n st) = st"
  by (simp add: UnLockPage_def LockPage_def)

lemma pages_access [simp]:
  "pages (LockPage f n st) = pages st" "pages (UnLockPage f n st) = pages st" "pages (ReleasePage f n st) = pages st"
  by (simp_all add: LockPage_def UnLockPage_def ReleasePage_def)

lemma pages_ReadPage [simp]: "pages (snd (ReadPage f n st)) = pages st"
  by (simp add: ReadPage_def split: option.split)

lemma pages_GetPageByIndex [simp]: "pages (snd (GetPageByIndex f n st)) = pages st"
  by (simp add: GetPageByIndex_def)

lemma get_item_at: "40 + 16 * i + 16 \<le> 4096 \<Longrightarrow> get_item p (int (40 + 16 * i)) = Some (item_at p i)"
  using rd_in [of "40 + 16 * i" 16 p] by (simp add: get_item_def ITEM_SIZE_def item_at_def)

lemma items_le: "page_ok p \<Longrightarrow> 40 + 16 * items p \<le> 4096"
  using data_top_le [of p] page_okD(3) [of p] by simp

lemma next_valid_ok:
  assumes "page_ok p" "j \<le> items p"
  shows "next_valid p (int (40 + 16 * j)) =
     Some (if j < items p then Some (int (40 + 16 * j), item_at p j) else None)"
proof (cases "j < items p")
  case True
  have "get_item p (int (40 + 16 * j)) = Some (item_at p j)"
    using items_le [OF assms(1)] True by (intro get_item_at) simp
  moreover have "\<not> ITEM_END_CHECK (int (40 + 16 * j)) p"
    using True page_okD(1) [OF assms(1)] by (simp add: ITEM_END_CHECK_def)
  moreover have "GetItemValid (it_len (item_at p j))"
    using page_okD(4) [OF assms(1) True] by (simp add: item_ok_def)
  ultimately show ?thesis using True by (subst next_valid.simps) simp
next
  case False
  then show ?thesis
    using assms page_okD(1) [OF assms(1)] by (subst next_valid.simps) (simp add: ITEM_END_CHECK_def)
qed

text \<open>The offset of a search that reads row \<open>j\<close> next.\<close>

definition offset_at :: "nat \<Rightarrow> int" where
  "offset_at j = (case j of 0 \<Rightarrow> 0 | Suc i \<Rightarrow> int (40 + 16 * i))"

lemma DeFormRowDatEx2_at:
  assumes "page_ok p" "j < items p"
  shows "DeFormRowDatEx2 p (sint (it_offset (item_at p j))) = Some (Some (rows p ! j))"
proof -
  have "sint (it_offset (item_at p j)) = int (item_start p j)"
    using item_space_le [OF assms] unfolding item_start_def by (intro sint_unat31) simp
  then show ?thesis
    using ReadRowData_row_at [OF assms] assms(2) by (simp add: DeFormRowDatEx2_def rows_def)
qed

lemma GetRowDataFromPageEx_at:
  assumes "page_ok p" "pages st MAIN_FORK n = Some p" "sp_page sp = Some n" "item_offset sp = offset_at j" "j \<le> items p"
  shows "GetRowDataFromPageEx sp st =
     Some (if j < items p then (Some (rows p ! j), sp\<lparr>item_offset := offset_at (Suc j), sp_pageNum := pageNum p\<rparr>, st)
           else (None, sp, st))"
proof -
  have off: "(if item_offset sp > 0 then item_offset sp + int ITEM_SIZE else int PAGE_DATA_HEADER_SIZE) = int (40 + 16 * j)"
    using assms(4) by (cases j) (simp_all add: offset_at_def ITEM_SIZE_def PAGE_DATA_HEADER_SIZE_def)
  have col: "item_column p (int (40 + 16 * j)) (item_at p j) = Some (Some (rows p ! j))" if "j < items p"
    using page_okD(4) [OF assms(1) that] DeFormRowDatEx2_at [OF assms(1) that]
    by (simp add: item_column_def item_ok_def)
  show ?thesis
    unfolding GetRowDataFromPageEx_def assms(3) option.case
    by (simp only: assms(2) bind.bind_lunit Let_def off next_valid_ok [OF assms(1,5)])
      (use col in \<open>simp add: assms(2) offset_at_def\<close>)
qed

section \<open>Versions\<close>

definition resolve :: "SnapShotInfo option \<Rightarrow> txnst \<Rightarrow> RowColumnData \<Rightarrow> tblst \<Rightarrow> (RowColumnData option \<times> tblst) option" where
  "resolve snap txn c st = do {
     vis \<leftarrow> TupleVisibilitySatisfy (headerData c) snap txn;
     if vis \<noteq> TUPLE_VISIBLE then CurrentReadVersion snap txn (Some c) st else Some (Some c, st) }"

lemma ReadPage_eq:
  "ReadPage f n st = (if 0 < n \<and> pages st f n \<noteq> None then (Some n, st\<lparr>pins := bump f n 1 (pins st)\<rparr>) else (None, st))"
  by (auto simp: ReadPage_def split: option.split)

lemma version_loop_pages:
  assumes "version_loop snap txn pos st = Some y"
  shows "pages (snd y) = pages st \<and> (\<forall>s. pages s = pages st \<longrightarrow>
     (\<exists>s'. version_loop snap txn pos s = Some (fst y, s')))"
  using assms
proof (induction rule: version_loop.raw_induct [rotated, consumes 1, case_names step])
  case (step self snap txn pos st y)
  let ?n = "sint (po_pageno (pageIndex pos))"
  show ?case
  proof (cases "?n = INVALID_PAGE_NUM \<or> \<not> (0 < ?n \<and> pages st MAIN_FORK ?n \<noteq> None)")
    case True
    then show ?thesis
      using step(2) by (subst version_loop.simps) (auto simp: ReadPage_eq split: if_splits)
  next
    case False
    then obtain p where p: "pages st MAIN_FORK ?n = Some p" "0 < ?n" "?n \<noteq> INVALID_PAGE_NUM" by auto
    let ?off = "GET_ITEM_BY_INDEX (sint (itemIndex pos))"
    note body = step(2) [unfolded ReadPage_eq Let_def]
    show ?thesis
    proof (cases "ITEM_END_CHECK ?off p")
      case True
      then show ?thesis using body p by (subst version_loop.simps) (auto simp: ReadPage_eq Let_def)
    next
      case e: False
      then obtain it where it: "get_item p ?off = Some it" using body p by (auto split: bind_splits)
      show ?thesis
      proof (cases "GetItemValid (it_len it)")
        case False
        then show ?thesis using body p e it by (subst version_loop.simps) (auto simp: ReadPage_eq Let_def)
      next
        case vl: True
        then obtain c where c: "DeFormRowDatEx2 p (sint (it_offset it)) = Some c" using body p e it by (auto split: bind_splits)
        show ?thesis
        proof (cases c)
          case None
          then show ?thesis using body p e it vl c by (subst version_loop.simps) (auto simp: ReadPage_eq Let_def)
        next
          case (Some r)
          then obtain vis where vis: "TupleVisibilitySatisfy (headerData r) snap txn = Some vis"
            using body p e it vl c by (auto split: bind_splits)
          show ?thesis
          proof (cases "vis = TUPLE_VISIBLE")
            case True
            then show ?thesis using body p e it vl c Some vis by (subst version_loop.simps) (auto simp: ReadPage_eq Let_def)
          next
            case False
            then have "self snap txn (undo (headerData r)) (st\<lparr>pins := bump MAIN_FORK ?n 1 (pins st)\<rparr>) = Some y"
              using body p e it vl c Some vis by auto
            from step(1) [OF this] show ?thesis
              using p e it vl c Some vis False by (subst version_loop.simps) (auto simp: ReadPage_eq Let_def)
          qed
        qed
      qed
    qed
  qed
qed

text \<open>What the reader finds for a stored column, which does not depend on the locks and pins.\<close>

definition resolves :: "SnapShotInfo option \<Rightarrow> txnst \<Rightarrow> (ForkType \<Rightarrow> int \<rightharpoonup> page) \<Rightarrow> RowColumnData \<Rightarrow> RowColumnData option \<Rightarrow> bool" where
  "resolves snap txn pgs c v \<longleftrightarrow> (\<exists>st st'. pages st = pgs \<and> resolve snap txn c st = Some (v, st'))"

lemma resolvesD:
  assumes "resolves snap txn (pages st) c v"
  obtains st' where "resolve snap txn c st = Some (v, st')" "pages st' = pages st"
proof -
  obtain s s' where s: "pages s = pages st" "resolve snap txn c s = Some (v, s')"
    using assms by (auto simp: resolves_def)
  then obtain vis where vis: "TupleVisibilitySatisfy (headerData c) snap txn = Some vis"
    by (auto simp: resolve_def split: bind_splits)
  show thesis
  proof (cases "vis = TUPLE_VISIBLE")
    case True
    then show thesis using that [of st] s(2) vis by (simp add: resolve_def)
  next
    case False
    then have "version_loop snap txn (undo (headerData c)) s = Some (v, s')"
      using s(2) vis by (simp add: resolve_def CurrentReadVersion_def)
    from version_loop_pages [OF this] obtain st' where st': "version_loop snap txn (undo (headerData c)) st = Some (v, st')"
      using s(1) by auto
    then show thesis
      using that [of st'] version_loop_pages [OF st'] False vis by (simp add: resolve_def CurrentReadVersion_def)
  qed
qed

section \<open>Scanning a group\<close>

text \<open>The scan is about to read row \<open>j\<close> of the pages \<open>ps\<close>.\<close>

definition column_at :: "tblst \<Rightarrow> page list \<Rightarrow> nat \<Rightarrow> ScanPageInfo \<Rightarrow> nat \<Rightarrow> bool" where
  "column_at st ps j sc i \<longleftrightarrow> page_ok (ps ! i) \<and>
     (\<exists>n. pageList sc ! i = Some n \<and> pages st MAIN_FORK n = Some (ps ! i)) \<and>
     (if pageReset sc = 1 then j = 0 else item_offset (searchPageList sc ! i) = offset_at j)"

definition group_ok :: "page list \<Rightarrow> ScanPageInfo \<Rightarrow> bool" where
  "group_ok ps sc \<longleftrightarrow> pageListNum sc = int (length ps) \<and> length ps \<le> length (searchPageList sc) \<and>
     length ps \<le> length (pageList sc) \<and> length ps \<le> length (rawcolrow sc)"

definition all_seen :: "(RowColumnData \<Rightarrow> RowColumnData option) \<Rightarrow> page list \<Rightarrow> nat \<Rightarrow> nat \<Rightarrow> bool" where
  "all_seen V ps j i \<longleftrightarrow> (\<forall>l \<in> {i ..< length ps}. V (rows (ps ! l) ! j) \<noteq> None)"

text \<open>The loop over the columns from column \<open>i\<close> on has read row \<open>j\<close>.\<close>

definition row_read :: "(RowColumnData \<Rightarrow> RowColumnData option) \<Rightarrow> page list \<Rightarrow> nat \<Rightarrow> nat \<Rightarrow> scan_flag \<Rightarrow> ScanPageInfo \<Rightarrow> tblst \<Rightarrow>
    scan_flag \<Rightarrow> ScanPageInfo \<Rightarrow> tblst \<Rightarrow> bool" where
  "row_read V ps j i flag sc st flag' sc' st' \<longleftrightarrow>
     flag' = (if flag = SCAN_NEXT_ROW \<and> all_seen V ps j i then SCAN_NEXT_ROW else IGNORE_INVISIBILITY_COLUMNS) \<and>
     pages st' = pages st \<and>
     (\<exists>sps raw. sc' = sc\<lparr>searchPageList := sps, rawcolrow := raw\<rparr> \<and>
        length sps = length (searchPageList sc) \<and> length raw = length (rawcolrow sc) \<and>
        (\<forall>l < i. raw ! l = rawcolrow sc ! l) \<and>
        (\<forall>l \<in> {i ..< length ps}. item_offset (sps ! l) = offset_at (Suc j)) \<and> (\<forall>l < i. sps ! l = searchPageList sc ! l) \<and>
        (flag' = SCAN_NEXT_ROW \<longrightarrow> (\<forall>l \<in> {i ..< length ps}. raw ! l = V (rows (ps ! l) ! j))))"

lemma row_read_step:
  assumes r: "row_read V ps j (Suc i) fl
       (sc\<lparr>searchPageList := (searchPageList sc)[i := sp'], rawcolrow := (rawcolrow sc)[i := w]\<rparr>) s flag' sc' st'"
    and "item_offset sp' = offset_at (Suc j)" "pages s = pages st"
    and len: "i < length ps" "i < length (searchPageList sc)" "i < length (rawcolrow sc)"
    and fl: "fl = (if flag = SCAN_NEXT_ROW \<and> V (rows (ps ! i) ! j) \<noteq> None then SCAN_NEXT_ROW else IGNORE_INVISIBILITY_COLUMNS)"
      "fl = SCAN_NEXT_ROW \<longrightarrow> w = V (rows (ps ! i) ! j)"
  shows "row_read V ps j i flag sc st flag' sc' st'"
proof -
  have range: "{i ..< length ps} = insert i {Suc i ..< length ps}" using len(1) by auto
  have seen: "all_seen V ps j i \<longleftrightarrow> V (rows (ps ! i) ! j) \<noteq> None \<and> all_seen V ps j (Suc i)"
    by (auto simp: all_seen_def range)
  obtain sps raw where sc': "sc' = sc\<lparr>searchPageList := sps, rawcolrow := raw\<rparr>"
    and props: "length sps = length (searchPageList sc)" "length raw = length (rawcolrow sc)"
      "\<And>l. l < Suc i \<Longrightarrow> sps ! l = (searchPageList sc)[i := sp'] ! l" "\<And>l. l < Suc i \<Longrightarrow> raw ! l = (rawcolrow sc)[i := w] ! l"
      "\<And>l. l \<in> {Suc i ..< length ps} \<Longrightarrow> item_offset (sps ! l) = offset_at (Suc j)"
      "\<And>l. flag' = SCAN_NEXT_ROW \<Longrightarrow> l \<in> {Suc i ..< length ps} \<Longrightarrow> raw ! l = V (rows (ps ! l) ! j)"
    using r by (auto simp: row_read_def)
  have f': "flag' = (if fl = SCAN_NEXT_ROW \<and> all_seen V ps j (Suc i) then SCAN_NEXT_ROW else IGNORE_INVISIBILITY_COLUMNS)"
    and st': "pages st' = pages st"
    using r assms(3) by (simp_all add: row_read_def)
  have "flag' = SCAN_NEXT_ROW \<Longrightarrow> raw ! i = V (rows (ps ! i) ! j)"
    using f' fl props(4) [of i] len by (auto split: if_splits)
  moreover have "item_offset (sps ! i) = offset_at (Suc j)" using props(3) [of i] assms(2) len by simp
  moreover have "flag' = (if flag = SCAN_NEXT_ROW \<and> all_seen V ps j i then SCAN_NEXT_ROW else IGNORE_INVISIBILITY_COLUMNS)"
    using f' fl(1) seen by auto
  ultimately show ?thesis
    unfolding row_read_def using sc' st' props by (intro conjI exI [of _ sps] exI [of _ raw]) (auto simp: range)
qed

lemma columns_loop_row:
  assumes "group_ok ps sc" "i + n = length ps" "\<And>l. i \<le> l \<Longrightarrow> l < length ps \<Longrightarrow> column_at st ps j sc l"
    and "\<And>l. l < length ps \<Longrightarrow> j < items (ps ! l)"
    and "\<And>l. l < length ps \<Longrightarrow> resolves snap txn (pages st) (rows (ps ! l) ! j) (V (rows (ps ! l) ! j))"
    and "flag \<noteq> SCAN_END_OF_FILE"
  shows "\<exists>flag' sc' st'. columns_loop snap txn i n flag sc st = Some (flag', sc', st') \<and> row_read V ps j i flag sc st flag' sc' st'"
  using assms
proof (induction n arbitrary: i flag sc st)
  case 0
  have "row_read V ps j i flag sc st flag sc st"
    unfolding row_read_def
    by (intro conjI exI [of _ "searchPageList sc"] exI [of _ "rawcolrow sc"]) (use 0 in \<open>cases flag; auto simp: all_seen_def\<close>)+
  then show ?case by auto
next
  case (Suc n)
  let ?c = "rows (ps ! i) ! j"
  have i: "i < length ps" using Suc.prems(2) by simp
  have ci: "column_at st ps j sc i" by (rule Suc.prems(3)) (use i in auto)
  obtain pn where pn: "pageList sc ! i = Some pn" "pages st MAIN_FORK pn = Some (ps ! i)"
    using ci by (auto simp: column_at_def)
  have len: "i < length (searchPageList sc)" "i < length (pageList sc)" "i < length (rawcolrow sc)"
    using Suc.prems(1) i by (auto simp: group_ok_def)
  define sp where "sp = (searchPageList sc ! i)\<lparr>sp_page := Some pn, item_offset := offset_at j\<rparr>"
  define sp' where "sp' = sp\<lparr>item_offset := offset_at (Suc j), sp_pageNum := pageNum (ps ! i)\<rparr>"
  have sp: "(let sp = (searchPageList sc ! i)\<lparr>sp_page := Some pn\<rparr> in
      if pageReset sc = 1 then sp\<lparr>item_offset := 0\<rparr> else sp) = sp"
    using ci by (auto simp: sp_def column_at_def offset_at_def split: if_splits)
  have get: "GetRowDataFromPageEx sp st = Some (Some ?c, sp', st)"
    using GetRowDataFromPageEx_at [of "ps ! i" st pn sp j] ci pn(2) Suc.prems(4) [OF i]
    by (simp add: sp_def sp'_def column_at_def)
  obtain st' where res: "resolve snap txn ?c st = Some (V ?c, st')" "pages st' = pages st"
    using Suc.prems(5) [OF i] by (rule resolvesD)
  define fl where "fl = (if flag = SCAN_NEXT_ROW \<and> V ?c \<noteq> None then SCAN_NEXT_ROW else IGNORE_INVISIBILITY_COLUMNS)"
  define w where "w = (if flag = SCAN_NEXT_ROW then V ?c else Some ?c)"
  define s where "s = (if flag = SCAN_NEXT_ROW then st' else st)"
  let ?sc1 = "sc\<lparr>searchPageList := (searchPageList sc)[i := sp'], rawcolrow := (rawcolrow sc)[i := w]\<rparr>"
  have flag: "flag = SCAN_NEXT_ROW \<or> flag = IGNORE_INVISIBILITY_COLUMNS" using Suc.prems(6) by (cases flag) auto
  have step: "columns_loop snap txn i (Suc n) flag sc st = columns_loop snap txn (Suc i) n fl ?sc1 s"
    using flag res(1) len sp get pn(1)
    by (auto simp: Let_def resolve_def fl_def w_def s_def split: bind_splits if_splits)
  have s: "pages s = pages st" by (simp add: s_def res)
  have "column_at s ps j ?sc1 l" if "Suc i \<le> l" "l < length ps" for l
    using Suc.prems(3) [of l] that s by (auto simp: column_at_def)
  moreover have "group_ok ps ?sc1" using Suc.prems(1) by (simp add: group_ok_def)
  moreover have "Suc i + n = length ps" using Suc.prems(2) by simp
  moreover have "fl \<noteq> SCAN_END_OF_FILE" by (simp add: fl_def)
  ultimately obtain flag' sc' st'' where
    r: "columns_loop snap txn (Suc i) n fl ?sc1 s = Some (flag', sc', st'')" "row_read V ps j (Suc i) fl ?sc1 s flag' sc' st''"
    using Suc.IH [of ?sc1 "Suc i" s fl] Suc.prems(4,5) s by auto
  have "row_read V ps j i flag sc st flag' sc' st''"
    by (rule row_read_step [OF r(2) _ s i len(1,3) fl_def]) (simp_all add: sp'_def w_def fl_def)
  then show ?case using step r(1) by auto
qed

text \<open>The pages of a group have the same number of rows, so the first column ends the loop.\<close>

lemma columns_loop_end:
  assumes "group_ok ps sc" "ps \<noteq> []" "column_at st ps j sc 0" "items (ps ! 0) = j"
  shows "\<exists>sps raw. columns_loop snap txn 0 (length ps) SCAN_NEXT_ROW sc st =
       Some (SCAN_END_OF_FILE, sc\<lparr>searchPageList := sps, rawcolrow := raw\<rparr>, st) \<and>
     length sps = length (searchPageList sc) \<and> length raw = length (rawcolrow sc)"
proof -
  obtain pn where pn: "pageList sc ! 0 = Some pn" "pages st MAIN_FORK pn = Some (ps ! 0)"
    using assms(3) by (auto simp: column_at_def)
  have len: "0 < length (searchPageList sc)" "0 < length (pageList sc)" "0 < length (rawcolrow sc)"
    using assms(1,2) by (auto simp: group_ok_def)
  define sp where "sp = (searchPageList sc ! 0)\<lparr>sp_page := Some pn, item_offset := offset_at j\<rparr>"
  have sp: "(let sp = (searchPageList sc ! 0)\<lparr>sp_page := Some pn\<rparr> in
      if pageReset sc = 1 then sp\<lparr>item_offset := 0\<rparr> else sp) = sp"
    using assms(3) by (auto simp: sp_def column_at_def offset_at_def split: if_splits)
  have get: "GetRowDataFromPageEx sp st = Some (None, sp, st)"
    using GetRowDataFromPageEx_at [of "ps ! 0" st pn sp j] assms(3,4) pn(2) by (simp add: sp_def column_at_def)
  obtain n where n: "length ps = Suc n" using assms(2) by (cases ps) auto
  show ?thesis
    using len sp get pn(1) unfolding n
    by (intro exI [of _ "(searchPageList sc)[0 := sp]"] exI [of _ "(rawcolrow sc)[0 := None]"])
      (auto simp: Let_def arr_get_def arr_set_def)
qed

section \<open>The rows of a group\<close>

text \<open>What a scan leaves alone within a group.\<close>

definition same_scan :: "ScanPageInfo \<Rightarrow> ScanPageInfo \<Rightarrow> bool" where
  "same_scan sc sc' \<longleftrightarrow> pageList sc' = pageList sc \<and> pageListNum sc' = pageListNum sc \<and> colindexList sc' = colindexList sc \<and>
     groupPageInfo sc' = groupPageInfo sc \<and> groupItem sc' = groupItem sc \<and>
     length (searchPageList sc') = length (searchPageList sc) \<and> length (rawcolrow sc') = length (rawcolrow sc)"

lemma same_scan_trans: "same_scan a b \<Longrightarrow> same_scan b c \<Longrightarrow> same_scan a c"
  by (simp add: same_scan_def)

lemma group_ok_same: "same_scan sc sc' \<Longrightarrow> group_ok ps sc' = group_ok ps sc"
  by (simp add: same_scan_def group_ok_def)

definition same_items :: "page list \<Rightarrow> bool" where
  "same_items ps \<longleftrightarrow> (\<forall>p \<in> set ps. \<forall>q \<in> set ps. items p = items q)"

lemma same_items_lt: "same_items ps \<Longrightarrow> l < length ps \<Longrightarrow> j < items (ps ! 0) \<Longrightarrow> j < items (ps ! l)"
  unfolding same_items_def by (metis length_greater_0_conv list.size(3) not_less_zero nth_mem)

definition group_at :: "tblst \<Rightarrow> page list \<Rightarrow> nat \<Rightarrow> ScanPageInfo \<Rightarrow> bool" where
  "group_at st ps j sc \<longleftrightarrow> group_ok ps sc \<and> ps \<noteq> [] \<and> (pageReset sc = 0 \<or> pageReset sc = 1) \<and>
     (\<forall>l < length ps. column_at st ps j sc l) \<and> same_items ps \<and> j \<le> items (ps ! 0)"

text \<open>The rows of a group that the reader sees, from row \<open>j\<close> on.\<close>

definition seen_rows :: "(RowColumnData \<Rightarrow> RowColumnData option) \<Rightarrow> page list \<Rightarrow> nat \<Rightarrow> RowColumnData list list" where
  "seen_rows V ps j = map (\<lambda>i. map (\<lambda>p. the (V (rows p ! i))) ps) (filter (\<lambda>i. all_seen V ps i 0) [j ..< items (ps ! 0)])"

lemma seen_rows_step:
  "j < items (ps ! 0) \<Longrightarrow> seen_rows V ps j =
     (if all_seen V ps j 0 then [map (\<lambda>p. the (V (rows p ! j))) ps] else []) @ seen_rows V ps (Suc j)"
  by (simp add: seen_rows_def upt_conv_Cons)

definition is_row :: "TableRowData \<Rightarrow> RowColumnData list \<Rightarrow> bool" where
  "is_row row cs \<longleftrightarrow> take (length cs) (columnData row) = map Some cs \<and> tr_num row = of_nat (length cs) \<and>
     tr_size row = sum_list (map rc_size cs)"

lemma sum_size_take: "take n cols = map Some cs \<Longrightarrow> length cs = n \<Longrightarrow> sum_size cols n = Some (sum_list (map rc_size cs))"
proof (induction n arbitrary: cols cs)
  case (Suc n)
  obtain c cs' where cs: "cs = c # cs'" "length cs' = n" using Suc.prems(2) by (cases cs) auto
  with Suc.prems obtain cols' where "cols = Some c # cols'" by (cases cols) auto
  then show ?case using Suc cs by simp
qed simp

definition known :: "SnapShotInfo option \<Rightarrow> txnst \<Rightarrow> tblst \<Rightarrow> (RowColumnData \<Rightarrow> RowColumnData option) \<Rightarrow> page list \<Rightarrow> bool" where
  "known snap txn st V ps \<longleftrightarrow> (\<forall>p \<in> set ps. \<forall>c \<in> set (rows p). resolves snap txn (pages st) c (V c))"

lemma known_nth: "known snap txn st V ps \<Longrightarrow> l < length ps \<Longrightarrow> j < items (ps ! l) \<Longrightarrow>
    resolves snap txn (pages st) (rows (ps ! l) ! j) (V (rows (ps ! l) ! j))"
  by (simp add: known_def rows_def)

lemma row_readD:
  "row_read V ps j i flag sc st flag' sc' st' \<Longrightarrow>
   flag' = (if flag = SCAN_NEXT_ROW \<and> all_seen V ps j i then SCAN_NEXT_ROW else IGNORE_INVISIBILITY_COLUMNS)"
  "row_read V ps j i flag sc st flag' sc' st' \<Longrightarrow> pages st' = pages st"
  by (unfold row_read_def, (elim conjE, assumption)+)

lemma row_readE:
  assumes "row_read V ps j 0 flag sc st flag' sc' st'"
  obtains sps raw where "sc' = sc\<lparr>searchPageList := sps, rawcolrow := raw\<rparr>" "length sps = length (searchPageList sc)"
    "length raw = length (rawcolrow sc)" "\<And>l. l < length ps \<Longrightarrow> item_offset (sps ! l) = offset_at (Suc j)"
    "\<And>l. flag' = SCAN_NEXT_ROW \<Longrightarrow> l < length ps \<Longrightarrow> raw ! l = V (rows (ps ! l) ! j)"
proof -
  obtain sps raw where *: "sc' = sc\<lparr>searchPageList := sps, rawcolrow := raw\<rparr>" "length sps = length (searchPageList sc)"
    "length raw = length (rawcolrow sc)" "\<forall>l \<in> {0 ..< length ps}. item_offset (sps ! l) = offset_at (Suc j)"
    "flag' = SCAN_NEXT_ROW \<longrightarrow> (\<forall>l \<in> {0 ..< length ps}. raw ! l = V (rows (ps ! l) ! j))"
    using assms unfolding row_read_def by blast
  show thesis by (rule that [OF *(1-3)]) (use *(4,5) in simp_all)
qed

lemma group_at_advance:
  assumes "group_at st ps j sc" "j < items (ps ! 0)" "row_read V ps j 0 SCAN_NEXT_ROW sc st flag sc1 st1"
  defines "sc2 \<equiv> (if pageReset sc1 = 1 then sc1\<lparr>pageReset := 0\<rparr> else sc1)"
  shows "group_at st1 ps (Suc j) sc2" "same_scan sc sc2" "pages st1 = pages st" "rawcolrow sc2 = rawcolrow sc1"
proof -
  obtain sps raw where sc1: "sc1 = sc\<lparr>searchPageList := sps, rawcolrow := raw\<rparr>"
    "length sps = length (searchPageList sc)" "length raw = length (rawcolrow sc)"
    "\<And>l. l < length ps \<Longrightarrow> item_offset (sps ! l) = offset_at (Suc j)"
    using row_readE [OF assms(3)] by metis
  show st: "pages st1 = pages st" by (rule row_readD(2) [OF assms(3)])
  show same: "same_scan sc sc2" using sc1 by (simp add: sc2_def same_scan_def)
  show "rawcolrow sc2 = rawcolrow sc1" by (simp add: sc2_def)
  have "column_at st1 ps (Suc j) sc2 l" if "l < length ps" for l
  proof -
    have "column_at st ps j sc l" using assms(1) that by (simp add: group_at_def)
    then show ?thesis using sc1(4) [OF that] st unfolding sc1(1) sc2_def column_at_def by simp
  qed
  moreover have "pageReset sc2 = 0 \<or> pageReset sc2 = 1" using assms(1) by (auto simp: sc2_def sc1(1) group_at_def)
  ultimately show "group_at st1 ps (Suc j) sc2"
    using assms(1,2) group_ok_same [OF same] by (simp add: group_at_def)
qed

lemma SeqScanNextColumnOpt_group:
  assumes "group_at st ps j sc" "known snap txn st V ps"
  shows "case seen_rows V ps j of
      [] \<Rightarrow> \<exists>sc' st'. SeqScanNextColumnOpt snap txn sc st = Some (None, sc', st') \<and> same_scan sc sc' \<and> pages st' = pages st
    | r # rs \<Rightarrow> \<exists>row sc' st' j'. SeqScanNextColumnOpt snap txn sc st = Some (Some row, sc', st') \<and> is_row row r \<and>
        same_scan sc sc' \<and> pages st' = pages st \<and> group_at st' ps j' sc' \<and> pageReset sc' = 0 \<and> seen_rows V ps j' = rs"
  using assms
proof (induction "items (ps ! 0) - j" arbitrary: j sc st)
  case 0
  then have j: "j = items (ps ! 0)" by (simp add: group_at_def)
  then have "column_at st ps j sc 0" "group_ok ps sc" "ps \<noteq> []" using 0 by (auto simp: group_at_def)
  then obtain sps raw where e: "columns_loop snap txn 0 (length ps) SCAN_NEXT_ROW sc st =
       Some (SCAN_END_OF_FILE, sc\<lparr>searchPageList := sps, rawcolrow := raw\<rparr>, st)"
     "length sps = length (searchPageList sc)" "length raw = length (rawcolrow sc)"
    using columns_loop_end [of ps sc st j snap txn] j by blast
  have num: "nat (pageListNum sc) = length ps" using \<open>group_ok ps sc\<close> by (simp add: group_ok_def)
  have "seen_rows V ps j = []" by (simp add: seen_rows_def j)
  moreover have "\<exists>sc'. SeqScanNextColumnOpt snap txn sc st = Some (None, sc', st) \<and> same_scan sc sc'"
    by (subst SeqScanNextColumnOpt.simps) (simp add: num e same_scan_def Let_def)
  ultimately show ?case by auto
next
  case (Suc d)
  then have j: "j < items (ps ! 0)" by simp
  note ga = Suc.prems(1)
  have ok: "group_ok ps sc" "ps \<noteq> []" "\<And>l. l < length ps \<Longrightarrow> column_at st ps j sc l" "\<And>l. l < length ps \<Longrightarrow> j < items (ps ! l)"
    using ga j by (simp_all add: group_at_def same_items_lt)
  have num: "nat (pageListNum sc) = length ps" using ok(1) by (simp add: group_ok_def)
  obtain flag sc1 st1 where r: "columns_loop snap txn 0 (length ps) SCAN_NEXT_ROW sc st = Some (flag, sc1, st1)"
    and rr: "row_read V ps j 0 SCAN_NEXT_ROW sc st flag sc1 st1"
    using columns_loop_row [of ps sc 0 "length ps" st j snap txn V SCAN_NEXT_ROW] ok known_nth [OF Suc.prems(2)] by auto
  define sc2 where "sc2 = (if pageReset sc1 = 1 then sc1\<lparr>pageReset := 0\<rparr> else sc1)"
  note adv = group_at_advance [OF ga j rr, folded sc2_def]
  have eq: "SeqScanNextColumnOpt snap txn sc st =
      (case flag of SCAN_END_OF_FILE \<Rightarrow> Some (None, sc2, st1)
       | IGNORE_INVISIBILITY_COLUMNS \<Rightarrow> SeqScanNextColumnOpt snap txn sc2 st1
       | SCAN_NEXT_ROW \<Rightarrow> do { (_, sz, num) \<leftarrow> FormCol2RowDataEx2 (rawcolrow sc2) (pageListNum sc2) (row_size sc2, row_num sc2);
           Some (Some \<lparr>tr_size = sz, tr_num = num, columnData = rawcolrow sc2\<rparr>, sc2\<lparr>row_size := sz, row_num := num\<rparr>, st1) })"
    by (subst SeqScanNextColumnOpt.simps) (simp only: r num bind.bind_lunit prod.case Let_def sc2_def)
  have flag: "flag = (if all_seen V ps j 0 then SCAN_NEXT_ROW else IGNORE_INVISIBILITY_COLUMNS)"
    using row_readD(1) [OF rr] by simp
  have kn: "known snap txn st1 V ps" using Suc.prems(2) adv(3) by (simp add: known_def)
  show ?case
  proof (cases "all_seen V ps j 0")
    case False
    have "d = items (ps ! 0) - Suc j" using Suc.hyps(2) by simp
    note IH = Suc.hyps(1) [OF this adv(1) kn]
    have s: "seen_rows V ps j = seen_rows V ps (Suc j)" using seen_rows_step [OF j, of V] False by simp
    have e: "SeqScanNextColumnOpt snap txn sc st = SeqScanNextColumnOpt snap txn sc2 st1" using False flag eq by simp
    have tr: "same_scan sc2 x \<Longrightarrow> same_scan sc x" for x by (rule same_scan_trans [OF adv(2)])
    show ?thesis
      using IH unfolding s e adv(3) by (cases "seen_rows V ps (Suc j)") (simp_all, (use tr in blast)+)
  next
    case True
    let ?r = "map (\<lambda>p. the (V (rows p ! j))) ps"
    have raw: "take (length ps) (rawcolrow sc2) = map Some ?r"
    proof (rule nth_equalityI)
      show "length (take (length ps) (rawcolrow sc2)) = length (map Some ?r)"
        using adv(1) by (auto simp: group_at_def group_ok_def)
      show "take (length ps) (rawcolrow sc2) ! l = map Some ?r ! l" if "l < length (take (length ps) (rawcolrow sc2))" for l
      proof -
        from row_readE [OF rr] obtain sps raw where "sc1 = sc\<lparr>searchPageList := sps, rawcolrow := raw\<rparr>"
          "\<And>l. flag = SCAN_NEXT_ROW \<Longrightarrow> l < length ps \<Longrightarrow> raw ! l = V (rows (ps ! l) ! j)" by metis
        then have "rawcolrow sc2 ! l = V (rows (ps ! l) ! j)" using True flag adv(4) that by simp
        then show ?thesis using that True by (auto simp: all_seen_def)
      qed
    qed
    obtain c cols where "rawcolrow sc2 = Some c # cols"
      using raw ok(2) by (cases ps; cases "rawcolrow sc2") auto
    then have "FormCol2RowDataEx2 (rawcolrow sc2) (pageListNum sc2) (row_size sc2, row_num sc2)
        = Some (int (length ps), sum_list (map rc_size ?r), of_nat (length ps))"
      using sum_size_take [OF raw] adv(1) by (simp add: FormCol2RowDataEx2_def group_at_def group_ok_def)
    then have e: "SeqScanNextColumnOpt snap txn sc st = Some (Some \<lparr>tr_size = sum_list (map rc_size ?r), tr_num = of_nat (length ps),
         columnData = rawcolrow sc2\<rparr>, sc2\<lparr>row_size := sum_list (map rc_size ?r), row_num := of_nat (length ps)\<rparr>, st1)"
      (is "_ = Some (Some ?row, ?sc3, st1)")
      using True flag eq by simp
    have "is_row ?row ?r" using raw by (simp add: is_row_def)
    moreover have "same_scan sc ?sc3" using adv(2) by (simp add: same_scan_def)
    moreover have "group_at st1 ps (Suc j) ?sc3" using adv(1) by (simp add: group_at_def group_ok_def column_at_def)
    moreover have "pageReset ?sc3 = 0" using adv(1) by (auto simp: group_at_def sc2_def)
    ultimately show ?thesis
      using e adv(3) True seen_rows_step [OF j, of V] by auto
  qed
qed

section \<open>Group pages\<close>

text \<open>A group is the list of the pages of its columns, stored with one page for each column.\<close>

definition enc_member :: "nat \<Rightarrow> int \<Rightarrow> byte list" where
  "enc_member i n = bytes_of 4 (of_nat i :: i32) @ bytes_of 4 (1 :: i32) @ bytes_of 4 (0 :: i32) @ bytes_of 4 (of_int n :: i32)"

definition enc_group :: "int list \<Rightarrow> byte list" where
  "enc_group ns = concat (map (\<lambda>i. enc_member i (ns ! i)) [0 ..< length ns])"

lemma length_enc_member [simp]: "length (enc_member i n) = 16"
  by (simp add: enc_member_def)

lemma length_enc_group [simp]: "length (enc_group ns) = 16 * length ns"
  by (simp add: enc_group_def length_concat comp_def sum_list_triv)

lemma take_drop_concat:
  "(\<And>i. i < n \<Longrightarrow> length (f i) = 16) \<Longrightarrow> i < n \<Longrightarrow> take 16 (drop (16 * i) (concat (map f [0 ..< n]))) = f i"
proof (induction n)
  case (Suc n)
  have len: "length (concat (map f [0 ..< n])) = 16 * n"
  proof -
    have "map (\<lambda>i. length (f i)) [0 ..< n] = replicate n 16" using Suc.prems(1) by (intro nth_equalityI) simp_all
    then show ?thesis by (simp add: length_concat comp_def sum_list_replicate)
  qed
  show ?case
    using Suc len by (cases "i = n") (simp_all add: less_Suc_eq)
qed simp

lemma member_int_area:
  assumes "take (16 * length ns) bs = enc_group ns" "i < length ns" "k + 4 \<le> 16"
  shows "member_int bs (16 * i + k) = Some (sint (word_of (take 4 (drop k (enc_member i (ns ! i)))) :: i32))"
proof -
  have len: "16 * length ns \<le> length bs" using arg_cong [OF assms(1), of length] by simp
  have le: "16 * i + 16 \<le> 16 * length ns" using assms(2) by simp
  have "take 16 (drop (16 * i) (take (16 * length ns) bs)) = enc_member i (ns ! i)"
    unfolding assms(1) enc_group_def by (rule take_drop_concat) (simp_all add: assms)
  moreover have "take 16 (drop (16 * i) (take (16 * length ns) bs)) = take 16 (drop (16 * i) bs)"
    using le by (simp add: drop_take min_absorb1)
  ultimately have "take 4 (drop k (take 16 (drop (16 * i) bs))) = take 4 (drop k (enc_member i (ns ! i)))" by simp
  then have "take 4 (drop (16 * i + k) bs) = take 4 (drop k (enc_member i (ns ! i)))"
    using assms(3) by (simp add: drop_take min_absorb1 add.commute)
  then show ?thesis using len le assms(3) by (simp add: member_int_def)
qed

lemma member_reads:
  assumes "take (16 * length ns) bs = enc_group ns" "i < length ns" "0 \<le> ns ! i" "ns ! i < 2 ^ 31"
  shows "memNum_at bs (16 * i) = Some 1" "member_pageno bs (16 * i) 0 = Some (ns ! i)"
proof -
  have "sint (of_int (ns ! i) :: i32) = ns ! i"
    using assms(3,4) sint_of_nat32 [of "nat (ns ! i)"] by simp
  then show "memNum_at bs (16 * i) = Some 1" "member_pageno bs (16 * i) 0 = Some (ns ! i)"
    using member_int_area [OF assms(1,2), of 4] member_int_area [OF assms(1,2), of 12]
    by (simp_all add: memNum_at_def member_pageno_def MEMBER_DATA_SIZE_def PAGE_OFFSET_SIZE_def enc_member_def add.commute)
qed

definition group_pages_ok :: "tblst \<Rightarrow> int list \<Rightarrow> bool" where
  "group_pages_ok st ns \<longleftrightarrow> (\<forall>n \<in> set ns. 0 < n \<and> n < 2 ^ 31 \<and> pages st MAIN_FORK n \<noteq> None)"

lemma GetPageByIndex_Some:
  "0 < n \<Longrightarrow> pages st f n \<noteq> None \<Longrightarrow> \<exists>st'. GetPageByIndex f n st = (Some n, st') \<and> pages st' = pages st"
  by (simp add: GetPageByIndex_def ReadPage_eq INVALID_PAGE_NUM_def)

text \<open>With increasing column numbers the loop finds the pages of the columns.\<close>

lemma member_loop_finds:
  assumes area: "take (16 * length ns) bs = enc_group ns" and ok: "group_pages_ok st ns"
    and cols: "sorted_wrt (<) cs" "\<forall>c \<in> set cs. c < length ns" "take (length cs) cols = map int cs"
    and k: "k < length cs" "col \<le> cs ! k" "length cs \<le> length pl"
  shows "\<exists>pl' st'. member_loop bs cols (int (length cs)) (ns ! col) 1 (int col) (16 * Suc col) k pl st
       = Some (length cs, 1, pl', st') \<and> pages st' = pages st \<and> length pl' = length pl \<and>
     (\<forall>l < k. pl' ! l = pl ! l) \<and> (\<forall>l. k \<le> l \<and> l < length cs \<longrightarrow> pl' ! l = Some (ns ! (cs ! l)))"
  using ok k
proof (induction "length ns - col" arbitrary: col k pl st)
  case 0
  then have "cs ! k < length ns" using cols(2) by simp
  then show ?case using 0 by simp
next
  case (Suc d)
  have ck: "cs ! k < length ns" using cols(2) Suc.prems(2) by simp
  then have col: "col < length ns" using Suc.prems(3) by simp
  have pn: "0 < ns ! col" "ns ! col < 2 ^ 31" "pages st MAIN_FORK (ns ! col) \<noteq> None"
    using Suc.prems(1) col by (auto simp: group_pages_ok_def)
  have nz: "ns ! col \<noteq> INVALID_PAGE_NUM" using pn(1) by (simp add: INVALID_PAGE_NUM_def)
  have len: "length cs \<le> length cols" using arg_cong [OF cols(3), of length] by simp
  have ak: "arr_get cols (int k) = Some (int (cs ! k))"
    using arg_cong [OF cols(3), of "\<lambda>xs. xs ! k"] Suc.prems(2) len by simp
  obtain st1 where st1: "GetPageByIndex MAIN_FORK (ns ! col) st = (Some (ns ! col), st1)" "pages st1 = pages st"
    using GetPageByIndex_Some [OF pn(1,3)] by blast
  have d: "d = length ns - Suc col" using Suc.hyps(2) by simp
  have ok1: "group_pages_ok st1 ns" using Suc.prems(1) st1(2) by (simp add: group_pages_ok_def)
  have rec: "(do { pno \<leftarrow> member_pageno bs (16 * Suc col) 0; cnt \<leftarrow> memNum_at bs (16 * Suc col);
       member_loop bs cols (int (length cs)) pno cnt (int col + 1) (16 * Suc col + MEMBER_DATA_SIZE + nat cnt * PAGE_OFFSET_SIZE) m pm s })
     = member_loop bs cols (int (length cs)) (ns ! Suc col) 1 (int (Suc col)) (16 * Suc (Suc col)) m pm s"
    if "Suc col < length ns" for m pm s
  proof -
    have "0 \<le> ns ! Suc col" "ns ! Suc col < 2 ^ 31" using Suc.prems(1) that by (auto simp: group_pages_ok_def less_imp_le)
    from member_reads [OF area that this] show ?thesis
      by (simp add: MEMBER_DATA_SIZE_def PAGE_OFFSET_SIZE_def algebra_simps)
  qed
  show ?case
  proof (cases "col = cs ! k")
    case True
    show ?thesis
    proof (cases "Suc k < length cs")
      case False
      then have k': "length cs = Suc k" using Suc.prems(2) by simp
      then show ?thesis
        using True nz ak st1 Suc.prems(4)
        by (subst member_loop.simps) (auto simp: nth_list_update less_Suc_eq_le dest: le_antisym)
    next
      case s: True
      have lt: "Suc col \<le> cs ! Suc k" using True sorted_wrt_nth_less [OF cols(1), of k "Suc k"] s by simp
      then have "Suc col < length ns" using cols(2) s by (metis le_less_trans nth_mem)
      note r = rec [OF this]
      obtain pl' st' where IH: "member_loop bs cols (int (length cs)) (ns ! Suc col) 1 (int (Suc col)) (16 * Suc (Suc col)) (Suc k) (pl[k := Some (ns ! col)]) st1
         = Some (length cs, 1, pl', st')" "pages st' = pages st1" "length pl' = length pl"
        "\<forall>l < Suc k. pl' ! l = pl[k := Some (ns ! col)] ! l" "\<forall>l. Suc k \<le> l \<and> l < length cs \<longrightarrow> pl' ! l = Some (ns ! (cs ! l))"
        using Suc.hyps(1) [OF d ok1 s lt, of "pl[k := Some (ns ! col)]"] Suc.prems(4) by auto
      have "member_loop bs cols (int (length cs)) (ns ! col) 1 (int col) (16 * Suc col) k pl st = Some (length cs, 1, pl', st')"
        using True nz ak st1(1) Suc.prems(2,4) s IH(1) r
        by (subst member_loop.simps) simp
      moreover have "pl' ! l = Some (ns ! (cs ! l))" if "k \<le> l" "l < length cs" for l
        using IH(4,5) that True Suc.prems(2,4) by (cases "l = k") auto
      ultimately show ?thesis using IH(2-4) st1(2) by auto
    qed
  next
    case False
    then have lt: "Suc col \<le> cs ! k" using Suc.prems(3) by simp
    then have "Suc col < length ns" using ck by simp
    note r = rec [OF this]
    have "member_loop bs cols (int (length cs)) (ns ! col) 1 (int col) (16 * Suc col) k pl st
        = member_loop bs cols (int (length cs)) (ns ! Suc col) 1 (int (Suc col)) (16 * Suc (Suc col)) k pl st"
      using False nz ak r by (subst member_loop.simps) simp
    then show ?thesis using Suc.hyps(1) [OF d Suc.prems(1,2) lt Suc.prems(4)] by simp
  qed
qed

section \<open>The groups of a table\<close>

definition gpage_ok :: "page \<Rightarrow> int list list \<Rightarrow> bool" where
  "gpage_ok p gs \<longleftrightarrow> dataOffset p = int (40 + 16 * length gs) \<and> 40 + 16 * length gs \<le> 4096 \<and>
     (\<forall>i < length gs. GetItemValid (it_len (item_at p i)) \<and> item_space p i = 16 * length (gs ! i) \<and>
        item_start p i + item_space p i \<le> 4096 \<and> bytes_at p (item_start p i) (item_space p i) = enc_group (gs ! i))"

definition gfile :: "tblst \<Rightarrow> int list list list \<Rightarrow> bool" where
  "gfile st gss \<longleftrightarrow> (\<forall>i < length gss. \<exists>p. pages st GROUP_FORK (2 + int i) = Some p \<and> gpage_ok p (gss ! i) \<and> pageNum p = 2 + int i) \<and>
     pages st GROUP_FORK (2 + int (length gss)) = None"

lemma gfile_pages: "gfile st gss \<Longrightarrow> pages st' = pages st \<Longrightarrow> gfile st' gss"
  by (simp add: gfile_def)

text \<open>The groups that a search still finds.\<close>

definition groups_left :: "int list list list \<Rightarrow> SearchPageInfo \<Rightarrow> int list list \<Rightarrow> bool" where
  "groups_left gss sp gs \<longleftrightarrow>
     (\<exists>i < length gss. sp_page sp = None \<and> sp_pageNum sp = 2 + int i \<and> gs = concat (drop i gss)) \<or>
     (\<exists>i < length gss. \<exists>j < length (gss ! i). sp_page sp = Some (2 + int i) \<and> item_offset sp = int (40 + 16 * j) \<and>
        gs = drop (Suc j) (gss ! i) @ concat (drop (Suc i) gss))"

lemma GetPageByIndex_None: "pages st f n = None \<Longrightarrow> GetPageByIndex f n st = (None, st)"
  by (simp add: GetPageByIndex_def ReadPage_eq)

definition area_ok :: "nat \<Rightarrow> GroupItemData \<Rightarrow> bool" where
  "area_ok n gi \<longleftrightarrow> length (gi_members gi) = 16 * n"

text \<open>The outcome of the search for the next group among \<open>gs\<close>.\<close>

definition search_ended :: "int list list list \<Rightarrow> SearchPageInfo \<Rightarrow> bool" where
  "search_ended gss sp \<longleftrightarrow> sp_page sp = None \<and> sp_pageNum sp = 1 + int (length gss)"

definition found_group :: "nat \<Rightarrow> tblst \<Rightarrow> int list list list \<Rightarrow> int list list \<Rightarrow>
    (int \<times> SearchPageInfo \<times> GroupItemData \<times> tblst) option \<Rightarrow> bool" where
  "found_group n st gss gs res \<longleftrightarrow> (\<exists>sp gi st'. pages st' = pages st \<and> area_ok n gi \<and>
     (case gs of
        [] \<Rightarrow> res = Some (0, sp, gi, st') \<and> search_ended gss sp
      | g # gs' \<Rightarrow> res = Some (1, sp, gi, st') \<and> groups_left gss sp gs' \<and> gi_members gi = enc_group g))"

lemma group_loop_hit:
  assumes p: "pages st GROUP_FORK n = Some p" "gpage_ok p gs" and j: "j < length gs" and area: "area_ok m gi" "length (gs ! j) = m"
    and off: "(case gItem of None \<Rightarrow> int PAGE_DATA_HEADER_SIZE | Some off \<Rightarrow> off) = int (40 + 16 * j)"
  shows "\<exists>sp' gi'. group_loop (Some n) gItem sp gi st = Some (1, sp', gi', UnLockPage GROUP_FORK n st) \<and>
     sp_page sp' = sp_page sp \<and> item_offset sp' = int (40 + 16 * j) \<and> gi_members gi' = enc_group (gs ! j)"
proof -
  have it: "GetItemValid (it_len (item_at p j))" "item_space p j = 16 * length (gs ! j)" "item_start p j + item_space p j \<le> 4096"
      "bytes_at p (item_start p j) (item_space p j) = enc_group (gs ! j)"
    using p(2) j by (auto simp: gpage_ok_def)
  have gi: "get_item p (int (40 + 16 * j)) = Some (item_at p j)"
    using p(2) j by (intro get_item_at) (simp add: gpage_ok_def)
  have nc: "\<not> ITEM_END_CHECK (int (40 + 16 * j)) p" using j p(2) by (simp add: ITEM_END_CHECK_def gpage_ok_def)
  have sz: "sint (GetItemSize (it_len (item_at p j))) = int (item_space p j)"
    unfolding item_space_def using GetItemSize_unat [of "it_len (item_at p j)"] by (intro sint_unat31) simp
  have start: "sint (it_offset (item_at p j)) = int (item_start p j)"
    using it(3) unfolding item_start_def by (intro sint_unat31) simp
  have rd: "rd p (sint (it_offset (item_at p j))) (nat (sint (GetItemSize (it_len (item_at p j))))) = Some (enc_group (gs ! j))"
    unfolding start sz using it(3,4) by (simp add: rd_in)
  show ?thesis
    using area
    by (subst group_loop.simps) (simp add: p(1) off nc gi rd it(1) Let_def area_ok_def del: of_nat_add of_nat_mult)
qed

lemma group_loop_turn:
  assumes p: "pages st GROUP_FORK n = Some p" "gpage_ok p gs" and "sp_pageNum sp = n"
    and off: "(case gItem of None \<Rightarrow> int PAGE_DATA_HEADER_SIZE | Some off \<Rightarrow> off) = int (40 + 16 * length gs)"
  shows "group_loop (Some n) gItem sp gi st =
    (case GetPageByIndex GROUP_FORK (n + 1) (ReleasePage GROUP_FORK n (UnLockPage GROUP_FORK n st)) of
       (None, st) \<Rightarrow> Some (0, sp\<lparr>sp_page := None\<rparr>, gi, st)
     | (Some m, st) \<Rightarrow> group_loop (Some m) None (sp\<lparr>sp_page := Some m, sp_pageNum := n + 1\<rparr>) gi (LockPage GROUP_FORK m st))"
proof -
  have "ITEM_END_CHECK (int (40 + 16 * length gs)) p" using p(2) by (simp add: ITEM_END_CHECK_def gpage_ok_def)
  then show ?thesis
    using assms(3)
    by (subst group_loop.simps)
      (simp add: p(1) off group_loop.simps [of None] Let_def split: option.split prod.split del: of_nat_add of_nat_mult)
qed

lemma group_loop_finds:
  assumes "gfile st gss" "i < length gss" "j \<le> length (gss ! i)" "sp_page sp = Some (2 + int i)" "sp_pageNum sp = 2 + int i"
    and "area_ok n gi" "\<forall>gs \<in> set gss. \<forall>g \<in> set gs. length g = n"
    and "gItem = Some (int (40 + 16 * j)) \<or> gItem = None \<and> j = 0"
  shows "found_group n st gss (drop j (gss ! i) @ concat (drop (Suc i) gss)) (group_loop (Some (2 + int i)) gItem sp gi st)"
  using assms
proof (induction "length gss - i" arbitrary: i j sp gItem st)
  case (Suc d)
  let ?n = "2 + int i"
  obtain p where p: "pages st GROUP_FORK ?n = Some p" "gpage_ok p (gss ! i)" "pageNum p = ?n"
    using Suc.prems(1,2) by (auto simp: gfile_def)
  have off: "(case gItem of None \<Rightarrow> int PAGE_DATA_HEADER_SIZE | Some off \<Rightarrow> off) = int (40 + 16 * j)"
    using Suc.prems(8) by (auto simp: PAGE_DATA_HEADER_SIZE_def)
  show ?case
  proof (cases "j < length (gss ! i)")
    case True
    have gn: "length (gss ! i ! j) = n" using Suc.prems(2,7) True by (meson nth_mem)
    obtain sp' gi' where res: "group_loop (Some ?n) gItem sp gi st = Some (1, sp', gi', UnLockPage GROUP_FORK ?n st)"
        "sp_page sp' = sp_page sp" "item_offset sp' = int (40 + 16 * j)" "gi_members gi' = enc_group (gss ! i ! j)"
      using group_loop_hit [OF p(1,2) True Suc.prems(6) gn off] by blast
    have "groups_left gss sp' (drop (Suc j) (gss ! i) @ concat (drop (Suc i) gss))"
      unfolding groups_left_def using res(2,3) Suc.prems(2,4) True by auto
    then show ?thesis
      unfolding found_group_def using res gn True
      by (intro exI [of _ sp'] exI [of _ gi']) (auto simp: Cons_nth_drop_Suc [symmetric] area_ok_def)
  next
    case False
    then have j: "j = length (gss ! i)" using Suc.prems(3) by simp
    let ?st = "ReleasePage GROUP_FORK ?n (UnLockPage GROUP_FORK ?n st)" and ?m = "2 + int (Suc i)"
    note step = group_loop_turn [OF p(1,2) Suc.prems(5) off [unfolded j]]
    have m: "?n + 1 = ?m" by simp
    show ?thesis
    proof (cases "Suc i < length gss")
      case True
      then have "pages ?st GROUP_FORK ?m \<noteq> None" using Suc.prems(1) unfolding gfile_def by fastforce
      then obtain st1 where st1: "GetPageByIndex GROUP_FORK ?m ?st = (Some ?m, st1)" "pages st1 = pages st"
        using GetPageByIndex_Some [of ?m ?st GROUP_FORK] by auto
      have "gfile (LockPage GROUP_FORK ?m st1) gss" by (rule gfile_pages [OF Suc.prems(1)]) (simp add: st1(2))
      moreover have "d = length gss - Suc i" using Suc.hyps(2) by simp
      ultimately have "found_group n (LockPage GROUP_FORK ?m st1) gss (drop 0 (gss ! Suc i) @ concat (drop (Suc (Suc i)) gss))
          (group_loop (Some ?m) None (sp\<lparr>sp_page := Some ?m, sp_pageNum := ?m\<rparr>) gi (LockPage GROUP_FORK ?m st1))"
        by (intro Suc.hyps(1)) (use True Suc.prems(6,7) in simp_all)
      moreover have "drop 0 (gss ! Suc i) @ concat (drop (Suc (Suc i)) gss) = drop j (gss ! i) @ concat (drop (Suc i) gss)"
        using j True by (simp add: Cons_nth_drop_Suc [symmetric, of "Suc i" gss])
      ultimately show ?thesis unfolding step m st1(1) using st1(2) by (simp add: found_group_def)
    next
      case False
      then have i: "Suc i = length gss" using Suc.prems(2) by simp
      then have "pages ?st GROUP_FORK ?m = None" using Suc.prems(1) by (simp add: gfile_def)
      from GetPageByIndex_None [OF this] have "group_loop (Some ?n) gItem sp gi st = Some (0, sp\<lparr>sp_page := None\<rparr>, gi, ?st)"
        unfolding step m by simp
      then show ?thesis
        unfolding found_group_def search_ended_def using j i Suc.prems(5,6)
        by (intro exI [of _ "sp\<lparr>sp_page := None\<rparr>"] exI [of _ gi] exI [of _ ?st]) simp
    qed
  qed
qed simp

lemma GetGroupInfo_finds:
  assumes "gfile st gss" "groups_left gss sp gs" "area_ok n gi" "\<forall>gs \<in> set gss. \<forall>g \<in> set gs. length g = n"
  shows "found_group n st gss gs (GetGroupInfo sp gi st)"
proof -
  consider i where "i < length gss" "sp_page sp = None" "sp_pageNum sp = 2 + int i" "gs = concat (drop i gss)"
    | i j where "i < length gss" "j < length (gss ! i)" "sp_page sp = Some (2 + int i)" "item_offset sp = int (40 + 16 * j)"
      "gs = drop (Suc j) (gss ! i) @ concat (drop (Suc i) gss)"
    using assms(2) unfolding groups_left_def by blast
  then show ?thesis
  proof cases
    case (1 i)
    have "pages st GROUP_FORK (2 + int i) \<noteq> None" using assms(1) 1(1) unfolding gfile_def by fastforce
    then obtain st1 where st1: "GetPageByIndex GROUP_FORK (2 + int i) st = (Some (2 + int i), st1)" "pages st1 = pages st"
      using GetPageByIndex_Some [of "2 + int i" st GROUP_FORK] by auto
    have "found_group n (LockPage GROUP_FORK (2 + int i) st1) gss (drop 0 (gss ! i) @ concat (drop (Suc i) gss))
        (group_loop (Some (2 + int i)) None (sp\<lparr>sp_page := Some (2 + int i)\<rparr>) gi (LockPage GROUP_FORK (2 + int i) st1))"
      by (rule group_loop_finds [OF gfile_pages [OF assms(1)]]) (use assms(3,4) 1 st1 in simp_all)
    then show ?thesis
      using 1 st1 by (simp add: GetGroupInfo_def found_group_def Cons_nth_drop_Suc [symmetric, of i gss])
  next
    case (2 i j)
    obtain p where p: "pages st GROUP_FORK (2 + int i) = Some p" "pageNum p = 2 + int i"
      using assms(1) 2(1) by (auto simp: gfile_def)
    have "found_group n (LockPage GROUP_FORK (2 + int i) st) gss (drop (Suc j) (gss ! i) @ concat (drop (Suc i) gss))
        (group_loop (Some (2 + int i)) (Some (int (40 + 16 * Suc j))) (sp\<lparr>sp_pageNum := 2 + int i\<rparr>) gi (LockPage GROUP_FORK (2 + int i) st))"
      by (rule group_loop_finds [OF gfile_pages [OF assms(1)]]) (use assms(3,4) 2 in simp_all)
    moreover have "GetGroupInfo sp gi st = group_loop (Some (2 + int i)) (Some (int (40 + 16 * Suc j))) (sp\<lparr>sp_pageNum := 2 + int i\<rparr>) gi
        (LockPage GROUP_FORK (2 + int i) st)"
      using 2 p by (simp add: GetGroupInfo_def ITEM_SIZE_def)
    ultimately show ?thesis using 2 by (simp add: found_group_def)
  qed
qed

section \<open>The scan of a table\<close>

definition cpages :: "(ForkType \<Rightarrow> int \<rightharpoonup> page) \<Rightarrow> nat list \<Rightarrow> int list \<Rightarrow> page list" where
  "cpages pgs cs g = map (\<lambda>c. the (pgs MAIN_FORK (g ! c))) cs"

text \<open>
  A table of \<open>n\<close> columns: the pages of a group exist, are well-formed and have the same number of rows.
\<close>

definition table_ok :: "nat \<Rightarrow> tblst \<Rightarrow> int list list list \<Rightarrow> bool" where
  "table_ok n st gss \<longleftrightarrow> gfile st gss \<and>
     (\<forall>gs \<in> set gss. \<forall>g \<in> set gs. length g = n \<and> group_pages_ok st g \<and>
        (\<forall>p \<in> set (cpages (pages st) [0 ..< n] g). page_ok p) \<and> same_items (cpages (pages st) [0 ..< n] g))"

lemma table_ok_pages: "table_ok n st gss \<Longrightarrow> pages st' = pages st \<Longrightarrow> table_ok n st' gss"
  by (simp add: table_ok_def gfile_def group_pages_ok_def)

text \<open>The columns of a scan, in increasing order.\<close>

definition columns_ok :: "nat \<Rightarrow> nat list \<Rightarrow> bool" where
  "columns_ok n cs \<longleftrightarrow> cs \<noteq> [] \<and> sorted_wrt (<) cs \<and> (\<forall>c \<in> set cs. c < n)"

definition scan_ok :: "nat \<Rightarrow> nat list \<Rightarrow> ScanPageInfo \<Rightarrow> bool" where
  "scan_ok n cs sc \<longleftrightarrow> area_ok n (groupItem sc) \<and> pageListNum sc = int (length cs) \<and>
     take (length cs) (colindexList sc) = map int cs \<and> length cs \<le> length (searchPageList sc) \<and>
     length cs \<le> length (pageList sc) \<and> length cs \<le> length (rawcolrow sc)"

lemma groups_left_set: "groups_left gss sp gs \<Longrightarrow> g \<in> set gs \<Longrightarrow> \<exists>gs' \<in> set gss. g \<in> set gs'"
  unfolding groups_left_def by (fastforce dest: in_set_dropD intro: nth_mem)

lemma group_columns:
  assumes "table_ok n st gss" "groups_left gss sp gs" "g \<in> set gs" "columns_ok n cs"
  shows "length g = n" "group_pages_ok st g" "\<And>p. p \<in> set (cpages (pages st) cs g) \<Longrightarrow> page_ok p"
    "same_items (cpages (pages st) cs g)" "cpages (pages st) cs g \<noteq> []"
proof -
  obtain gs' where g: "gs' \<in> set gss" "g \<in> set gs'" using groups_left_set [OF assms(2,3)] by blast
  have sub: "set (cpages (pages st) cs g) \<subseteq> set (cpages (pages st) [0 ..< n] g)"
    using assms(4) by (auto simp: cpages_def columns_ok_def)
  show "length g = n" "group_pages_ok st g" using assms(1) g by (auto simp: table_ok_def)
  show "\<And>p. p \<in> set (cpages (pages st) cs g) \<Longrightarrow> page_ok p" using assms(1) g sub by (auto simp: table_ok_def)
  show "same_items (cpages (pages st) cs g)" using assms(1) g sub unfolding table_ok_def same_items_def by blast
  show "cpages (pages st) cs g \<noteq> []" using assms(4) by (simp add: cpages_def columns_ok_def)
qed

lemma GetGroupMemberPagesOpt_finds:
  assumes tab: "table_ok n st gss" and left: "groups_left gss (groupPageInfo sc) gs" and cols: "columns_ok n cs" and sc: "scan_ok n cs sc"
  shows "\<exists>sc' st'. pages st' = pages st \<and> scan_ok n cs sc' \<and> pageReset sc' = pageReset sc \<and>
     (case gs of
        [] \<Rightarrow> GetGroupMemberPagesOpt sc st = Some (0, sc', st') \<and> search_ended gss (groupPageInfo sc')
      | g # gs' \<Rightarrow> GetGroupMemberPagesOpt sc st = Some (1, sc', st') \<and> groups_left gss (groupPageInfo sc') gs' \<and>
          group_at st' (cpages (pages st) cs g) 0 (sc'\<lparr>pageReset := 1\<rparr>))"
proof -
  have lens: "\<forall>gs \<in> set gss. \<forall>g \<in> set gs. length g = n" using tab by (simp add: table_ok_def)
  have "found_group n st gss gs (GetGroupInfo (groupPageInfo sc) (groupItem sc) st)"
    by (rule GetGroupInfo_finds [OF _ left _ lens]) (use tab sc in \<open>simp_all add: table_ok_def scan_ok_def\<close>)
  then obtain sp gi st1 where st1: "pages st1 = pages st" "area_ok n gi"
    and res: "case gs of [] \<Rightarrow> GetGroupInfo (groupPageInfo sc) (groupItem sc) st = Some (0, sp, gi, st1) \<and> search_ended gss sp
      | g # gs' \<Rightarrow> GetGroupInfo (groupPageInfo sc) (groupItem sc) st = Some (1, sp, gi, st1) \<and> groups_left gss sp gs' \<and> gi_members gi = enc_group g"
    unfolding found_group_def by blast
  let ?sc = "sc\<lparr>groupPageInfo := sp, groupItem := gi\<rparr>"
  show ?thesis
  proof (cases gs)
    case Nil
    then show ?thesis
      using res st1 sc by (intro exI [of _ ?sc] exI [of _ st1]) (simp add: GetGroupMemberPagesOpt_def scan_ok_def)
  next
    case (Cons g gs')
    then have g: "g \<in> set gs" by simp
    note gc = group_columns [OF tab left g cols]
    let ?ps = "cpages (pages st) cs g"
    have area: "take (16 * length g) (gi_members gi) = enc_group g" using res Cons by simp
    have ok1: "group_pages_ok st1 g" using gc(2) st1(1) by (simp add: group_pages_ok_def)
    have nz: "0 < length g" "0 < length cs" using cols gc(1) by (cases cs; auto simp: columns_ok_def)+
    have g0: "0 \<le> g ! 0" "g ! 0 < 2 ^ 31" using gc(2) nz(1) by (auto simp: group_pages_ok_def less_imp_le)
    obtain pl' st2 where ml: "member_loop (gi_members gi) (colindexList sc) (int (length cs)) (g ! 0) 1 (int 0) (16 * Suc 0) 0 (pageList sc) st1
         = Some (length cs, 1, pl', st2)" "pages st2 = pages st1" "length pl' = length (pageList sc)"
       "\<And>l. l < length cs \<Longrightarrow> pl' ! l = Some (g ! (cs ! l))"
      using member_loop_finds [OF area ok1, of cs "colindexList sc" 0 0 "pageList sc"] cols sc nz gc(1)
      by (auto simp: columns_ok_def scan_ok_def)
    have eq: "GetGroupMemberPagesOpt sc st = Some (1, ?sc\<lparr>pageList := pl'\<rparr>, st2)"
      using res Cons member_reads [OF area nz(1) g0] ml(1) sc
      by (simp add: GetGroupMemberPagesOpt_def scan_ok_def MEMBER_DATA_SIZE_def PAGE_OFFSET_SIZE_def)
    have "column_at st2 ?ps 0 (?sc\<lparr>pageList := pl', pageReset := 1\<rparr>) l" if "l < length ?ps" for l
    proof -
      have l: "l < length cs" using that by (simp add: cpages_def)
      then have "cs ! l < length g" using cols gc(1) by (simp add: columns_ok_def)
      then have "pages st MAIN_FORK (g ! (cs ! l)) \<noteq> None" using gc(2) by (simp add: group_pages_ok_def)
      then show ?thesis
        using gc(3) [OF nth_mem [OF that]] ml(2,4) st1(1) l by (auto simp: column_at_def cpages_def)
    qed
    moreover have "group_ok ?ps (?sc\<lparr>pageList := pl', pageReset := 1\<rparr>)"
      using sc ml(3) by (simp add: group_ok_def scan_ok_def cpages_def)
    ultimately have "group_at st2 ?ps 0 (?sc\<lparr>pageList := pl', pageReset := 1\<rparr>)"
      using gc(4,5) by (simp add: group_at_def)
    moreover have "scan_ok n cs (?sc\<lparr>pageList := pl'\<rparr>)" using sc ml(3) st1(2) by (simp add: scan_ok_def)
    ultimately show ?thesis
      using eq res Cons ml(2) st1(1)
      by (intro exI [of _ "?sc\<lparr>pageList := pl'\<rparr>"] exI [of _ st2]) simp
  qed
qed

section \<open>The rows of a table\<close>

definition rows_of :: "(RowColumnData \<Rightarrow> RowColumnData option) \<Rightarrow> (ForkType \<Rightarrow> int \<rightharpoonup> page) \<Rightarrow> nat list \<Rightarrow> int list list \<Rightarrow> RowColumnData list list" where
  "rows_of V pgs cs gs = concat (map (\<lambda>g. seen_rows V (cpages pgs cs g) 0) gs)"

definition versions_known :: "SnapShotInfo option \<Rightarrow> txnst \<Rightarrow> tblst \<Rightarrow> (RowColumnData \<Rightarrow> RowColumnData option) \<Rightarrow> nat \<Rightarrow> int list list list \<Rightarrow> bool" where
  "versions_known snap txn st V n gss \<longleftrightarrow> (\<forall>gs \<in> set gss. \<forall>g \<in> set gs. known snap txn st V (cpages (pages st) [0 ..< n] g))"

lemma versions_known_group:
  assumes "versions_known snap txn st V n gss" "groups_left gss sp gs" "g \<in> set gs" "columns_ok n cs" "pages st' = pages st"
  shows "known snap txn st' V (cpages (pages st) cs g)"
proof -
  obtain gs' where g: "gs' \<in> set gss" "g \<in> set gs'" using groups_left_set [OF assms(2,3)] by blast
  have "set (cpages (pages st) cs g) \<subseteq> set (cpages (pages st) [0 ..< n] g)"
    using assms(4) by (auto simp: cpages_def columns_ok_def)
  then show ?thesis using assms(1,5) g unfolding versions_known_def known_def by (auto simp: subset_iff)
qed

lemma versions_known_pages: "versions_known snap txn st V n gss \<Longrightarrow> pages st' = pages st \<Longrightarrow> versions_known snap txn st' V n gss"
  by (simp add: versions_known_def known_def)

text \<open>The scan will return the rows \<open>rs\<close>.\<close>

definition scan_at :: "(RowColumnData \<Rightarrow> RowColumnData option) \<Rightarrow> nat \<Rightarrow> nat list \<Rightarrow> int list list list \<Rightarrow> ScanPageInfo \<Rightarrow> tblst \<Rightarrow>
    RowColumnData list list \<Rightarrow> bool" where
  "scan_at V n cs gss sc st rs \<longleftrightarrow> scan_ok n cs sc \<and>
     (\<exists>gs. groups_left gss (groupPageInfo sc) gs \<and>
       (pageReset sc = 1 \<and> rs = rows_of V (pages st) cs gs \<or>
        pageReset sc = 0 \<and> (\<exists>ps j. group_at st ps j sc \<and> rs = seen_rows V ps j @ rows_of V (pages st) cs gs \<and>
          (\<exists>gs' sp g. groups_left gss sp gs' \<and> g \<in> set gs' \<and> ps = cpages (pages st) cs g))))"

definition scan_step :: "(RowColumnData \<Rightarrow> RowColumnData option) \<Rightarrow> nat \<Rightarrow> nat list \<Rightarrow> int list list list \<Rightarrow> tblst \<Rightarrow> RowColumnData list list \<Rightarrow>
    (TableRowData option \<times> ScanPageInfo \<times> tblst) option \<Rightarrow> bool" where
  "scan_step V n cs gss st rs res \<longleftrightarrow> (\<exists>row sc' st'. res = Some (row, sc', st') \<and> pages st' = pages st \<and> scan_ok n cs sc' \<and>
     (case rs of [] \<Rightarrow> row = None \<and> search_ended gss (groupPageInfo sc') | r # rs' \<Rightarrow> \<exists>t. row = Some t \<and> is_row t r \<and> scan_at V n cs gss sc' st' rs'))"

lemma ReleasePageList_pages:
  "pages (snd (ReleasePageList pl n st)) = pages st" "length (fst (ReleasePageList pl n st)) = length pl"
  by (induction pl n st rule: ReleasePageList.induct) (simp_all add: Let_def case_prod_beta)

lemma scan_ok_same: "scan_ok n cs sc \<Longrightarrow> same_scan sc sc' \<Longrightarrow> scan_ok n cs sc'"
  by (simp add: scan_ok_def same_scan_def)

lemma seqscan_loop_group:
  assumes ga: "group_at st ps j sc" and sc: "scan_ok n cs sc" and left: "groups_left gss (groupPageInfo sc) gs"
    and kn: "known snap txn st V ps" and src: "groups_left gss sp0 gs0" "g \<in> set gs0" "ps = cpages (pages st) cs g"
    and next_group: "\<And>sc st'. scan_ok n cs sc \<Longrightarrow> groups_left gss (groupPageInfo sc) gs \<Longrightarrow> pages st' = pages st \<Longrightarrow>
       scan_step V n cs gss st' (rows_of V (pages st) cs gs) (seqscan_loop snap txn 0 sc st')"
  shows "scan_step V n cs gss st (seen_rows V ps j @ rows_of V (pages st) cs gs) (seqscan_loop snap txn 1 sc st)"
proof (cases "seen_rows V ps j")
  case Nil
  then obtain sc1 st1 where s: "SeqScanNextColumnOpt snap txn sc st = Some (None, sc1, st1)" "same_scan sc sc1" "pages st1 = pages st"
    using SeqScanNextColumnOpt_group [OF ga kn] by auto
  obtain pl st2 where pl: "ReleasePageList (pageList sc1) (nat (pageListNum sc1)) st1 = (pl, st2)" by fastforce
  have "seqscan_loop snap txn 1 sc st = seqscan_loop snap txn 0 (sc1\<lparr>pageList := pl\<rparr>) st2"
    by (subst seqscan_loop.simps) (simp add: s pl)
  moreover have st2: "pages st2 = pages st" and len: "length pl = length (pageList sc1)"
    using ReleasePageList_pages [of "pageList sc1" "nat (pageListNum sc1)" st1] pl s(3) by simp_all
  have "scan_ok n cs (sc1\<lparr>pageList := pl\<rparr>)" using scan_ok_same [OF sc s(2)] len by (simp add: scan_ok_def)
  moreover have "groups_left gss (groupPageInfo (sc1\<lparr>pageList := pl\<rparr>)) gs" using left s(2) by (simp add: same_scan_def)
  ultimately show ?thesis
    using next_group [of "sc1\<lparr>pageList := pl\<rparr>" st2] st2 Nil by (simp add: scan_step_def)
next
  case (Cons r rs)
  then obtain row sc1 st1 j' where s: "SeqScanNextColumnOpt snap txn sc st = Some (Some row, sc1, st1)" "is_row row r" "same_scan sc sc1"
    "pages st1 = pages st" "group_at st1 ps j' sc1" "pageReset sc1 = 0" "seen_rows V ps j' = rs"
    using SeqScanNextColumnOpt_group [OF ga kn] by auto
  have "seqscan_loop snap txn 1 sc st = Some (Some row, sc1, st1)"
    by (subst seqscan_loop.simps) (simp add: s)
  moreover have "scan_at V n cs gss sc1 st1 (rs @ rows_of V (pages st) cs gs)"
    unfolding scan_at_def using scan_ok_same [OF sc s(3)] left s(3-7) src by (fastforce simp: same_scan_def)
  ultimately show ?thesis
    using s(2,4) scan_ok_same [OF sc s(3)] Cons by (simp add: scan_step_def)
qed

lemma seqscan_loop_groups:
  assumes "table_ok n st gss" "columns_ok n cs" "versions_known snap txn st V n gss"
    and "scan_ok n cs sc" "groups_left gss (groupPageInfo sc) gs"
  shows "scan_step V n cs gss st (rows_of V (pages st) cs gs) (seqscan_loop snap txn 0 sc st)"
  using assms
proof (induction gs arbitrary: sc st)
  case Nil
  from GetGroupMemberPagesOpt_finds [OF Nil.prems(1,5,2,4)] obtain sc' st' where
    "GetGroupMemberPagesOpt sc st = Some (0, sc', st')" "pages st' = pages st" "scan_ok n cs sc'" "search_ended gss (groupPageInfo sc')"
    by auto
  then show ?case
    by (subst seqscan_loop.simps) (simp add: rows_of_def scan_step_def)
next
  case (Cons g gs)
  from GetGroupMemberPagesOpt_finds [OF Cons.prems(1,5,2,4)] obtain sc1 st1 where
    g: "GetGroupMemberPagesOpt sc st = Some (1, sc1, st1)" "pages st1 = pages st" "scan_ok n cs sc1"
      "groups_left gss (groupPageInfo sc1) gs" "group_at st1 (cpages (pages st) cs g) 0 (sc1\<lparr>pageReset := 1\<rparr>)"
    by auto
  have eq: "seqscan_loop snap txn 0 sc st = seqscan_loop snap txn 1 (sc1\<lparr>pageReset := 1\<rparr>) st1"
    by (rule trans [OF seqscan_loop.simps], rule sym, rule trans [OF seqscan_loop.simps]) (simp add: g)
  have "scan_step V n cs gss st1 (seen_rows V (cpages (pages st) cs g) 0 @ rows_of V (pages st1) cs gs)
      (seqscan_loop snap txn 1 (sc1\<lparr>pageReset := 1\<rparr>) st1)"
  proof (rule seqscan_loop_group [OF g(5)])
    show "scan_ok n cs (sc1\<lparr>pageReset := 1\<rparr>)" using g(3) by (simp add: scan_ok_def)
    show "groups_left gss (groupPageInfo (sc1\<lparr>pageReset := 1\<rparr>)) gs" using g(4) by simp
    show "known snap txn st1 V (cpages (pages st) cs g)"
      using versions_known_group [OF Cons.prems(3,5) _ Cons.prems(2) g(2)] by simp
    show "groups_left gss (groupPageInfo sc) (g # gs)" "g \<in> set (g # gs)" by (simp_all add: Cons.prems)
    show "cpages (pages st) cs g = cpages (pages st1) cs g" by (simp add: g(2))
    fix sc' :: ScanPageInfo and st' :: tblst assume a: "scan_ok n cs sc'" "groups_left gss (groupPageInfo sc') gs" "pages st' = pages st1"
    then have st': "pages st' = pages st" using g(2) by simp
    show "scan_step V n cs gss st' (rows_of V (pages st1) cs gs) (seqscan_loop snap txn 0 sc' st')"
      using Cons.IH [OF table_ok_pages [OF Cons.prems(1) st'] Cons.prems(2) versions_known_pages [OF Cons.prems(3) st'] a(1,2)]
      by (simp add: a(3))
  qed
  then show ?case unfolding eq using g(2) by (simp add: rows_of_def scan_step_def)
qed

lemma SeqscanNext_step:
  assumes "table_ok n st gss" "columns_ok n cs" "versions_known snap txn st V n gss" "scan_at V n cs gss sc st rs"
  shows "scan_step V n cs gss st rs (SeqscanNext snap txn sc st)"
proof -
  obtain gs where sc: "scan_ok n cs sc" and gs: "groups_left gss (groupPageInfo sc) gs"
    and alt: "pageReset sc = 1 \<and> rs = rows_of V (pages st) cs gs \<or>
        pageReset sc = 0 \<and> (\<exists>ps j. group_at st ps j sc \<and> rs = seen_rows V ps j @ rows_of V (pages st) cs gs \<and>
          (\<exists>gs' sp g. groups_left gss sp gs' \<and> g \<in> set gs' \<and> ps = cpages (pages st) cs g))"
    using assms(4) unfolding scan_at_def by blast
  from alt show ?thesis
  proof (elim disjE conjE exE)
    assume "pageReset sc = 1" "rs = rows_of V (pages st) cs gs"
    then show ?thesis using seqscan_loop_groups [OF assms(1-3) sc gs] by (simp add: SeqscanNext_def)
  next
    fix ps j gs' sp g
    assume a: "pageReset sc = 0" "group_at st ps j sc" "rs = seen_rows V ps j @ rows_of V (pages st) cs gs"
      "groups_left gss sp gs'" "g \<in> set gs'" "ps = cpages (pages st) cs g"
    have "known snap txn st V ps" unfolding a(6) by (rule versions_known_group [OF assms(3) a(4,5) assms(2)]) simp
    then show ?thesis
      using seqscan_loop_group [OF a(2) sc gs _ a(4-6)] a(1,3)
        seqscan_loop_groups [OF table_ok_pages [OF assms(1)] assms(2) versions_known_pages [OF assms(3)] _ _]
      by (simp add: SeqscanNext_def)
  qed
qed

section \<open>The scan as a cursor\<close>

definition scan_next :: "SnapShotInfo option \<Rightarrow> txnst \<Rightarrow> ScanPageInfo \<times> tblst \<Rightarrow> (TableRowData option \<times> ScanPageInfo \<times> tblst) option" where
  "scan_next snap txn = (\<lambda>(sc, st). SeqscanNext snap txn sc st)"

definition scan_delivers :: "SnapShotInfo option \<Rightarrow> txnst \<Rightarrow> (RowColumnData \<Rightarrow> RowColumnData option) \<Rightarrow> nat \<Rightarrow> nat list \<Rightarrow> int list list list \<Rightarrow>
    (ForkType \<Rightarrow> int \<rightharpoonup> page) \<Rightarrow> ScanPageInfo \<times> tblst \<Rightarrow> RowColumnData list list \<Rightarrow> bool" where
  "scan_delivers snap txn V n cs gss pgs = (\<lambda>(sc, st) rs. pages st = pgs \<and> table_ok n st gss \<and> columns_ok n cs \<and>
     versions_known snap txn st V n gss \<and> scan_at V n cs gss sc st rs)"

definition scan_ended :: "nat \<Rightarrow> nat list \<Rightarrow> int list list list \<Rightarrow> (ForkType \<Rightarrow> int \<rightharpoonup> page) \<Rightarrow> ScanPageInfo \<times> tblst \<Rightarrow> bool" where
  "scan_ended n cs gss pgs = (\<lambda>(sc, st). pages st = pgs \<and> scan_ok n cs sc \<and> search_ended gss (groupPageInfo sc))"

interpretation seqscan: cursor "scan_next snap txn" "scan_delivers snap txn V n cs gss pgs" "scan_ended n cs gss pgs" is_row
  for snap txn V n cs gss pgs
proof
  show "\<exists>s'. scan_next snap txn s = Some (None, s') \<and> scan_ended n cs gss pgs s'"
    if "scan_delivers snap txn V n cs gss pgs s []" for s
    using that SeqscanNext_step [of n "snd s" gss cs snap txn V "fst s" "[]"]
    by (auto simp: scan_delivers_def scan_next_def scan_ended_def scan_step_def case_prod_beta)
  show "\<exists>x s'. scan_next snap txn s = Some (Some x, s') \<and> is_row x r \<and> scan_delivers snap txn V n cs gss pgs s' rs"
    if "scan_delivers snap txn V n cs gss pgs s (r # rs)" for s r rs
  proof -
    have "scan_step V n cs gss (snd s) (r # rs) (SeqscanNext snap txn (fst s) (snd s))"
      using that by (intro SeqscanNext_step) (auto simp: scan_delivers_def case_prod_beta)
    then obtain t sc' st' where s: "SeqscanNext snap txn (fst s) (snd s) = Some (Some t, sc', st')" "pages st' = pages (snd s)"
      "is_row t r" "scan_at V n cs gss sc' st' rs" by (auto simp: scan_step_def)
    then have "scan_delivers snap txn V n cs gss pgs (sc', st') rs"
      using that table_ok_pages [of n "snd s" gss st'] versions_known_pages [of snap txn "snd s" V n gss st']
      by (auto simp: scan_delivers_def case_prod_beta)
    then show ?thesis using s by (auto simp: scan_next_def case_prod_beta)
  qed
qed

lemma InitScan_at:
  assumes "columns_ok n cs" "gss \<noteq> []" "InitScanPositionInfo (map int cs) n = Some sc"
  shows "scan_at V n cs gss sc st (rows_of V (pages st) cs (concat gss))"
proof -
  have "scan_ok n cs sc" "pageReset sc = 1"
    using assms(1,3) by (auto simp: InitScanPositionInfo_def Let_def scan_ok_def area_ok_def split: if_splits)
  moreover have "groups_left gss (groupPageInfo sc) (concat gss)"
    unfolding groups_left_def using assms(2,3)
    by (auto simp: InitScanPositionInfo_def Let_def PAGE_HEAD_PAGE_NUM_def split: if_splits intro!: exI [of _ 0])
  ultimately show ?thesis by (auto simp: scan_at_def)
qed

text \<open>C8: A sequential scan of some columns of a table, in increasing order and without repetition, hands out exactly the rows of
  all groups of which every column has a version that the transaction sees, as long as no row of the table has been moved to
  another page: group by group and in
  the order of insertion, each with the versions the transaction sees, and then the null pointer.\<close>

theorem seqscan_returns_visible_rows:
  assumes "table_ok n st gss" "gss \<noteq> []" "columns_ok n cs" "InitScanPositionInfo (map int cs) n = Some sc"
    and "versions_known snap txn st V n gss"
    and "rs = rows_of V (pages st) cs (concat gss)"
  shows "\<exists>xs s'. fetch (\<lambda>(sc, st). SeqscanNext snap txn sc st) (Suc (length rs)) (sc, st) = Some (map Some xs @ [None], s') \<and>
     list_all2 is_row xs rs"
proof -
  have "scan_delivers snap txn V n cs gss (pages st) (sc, st) rs"
    using assms InitScan_at [OF assms(3,2,4)] by (simp add: scan_delivers_def)
  from seqscan.fetch_all [OF this] show ?thesis by (auto simp: scan_next_def)
qed

section \<open>A concrete table\<close>

definition group_page :: "i32 \<Rightarrow> int \<Rightarrow> page" where
  "group_page num pno = set_fld 12 56 (set_fld 8 num (put_bytes 40 (enc_item \<lparr>it_offset = 4080, it_len = 16 OR ITEM_VALID_MASK, it_rowid = 1\<rparr>)
     (put_bytes 4080 (enc_group [pno]) (\<lambda>_. 0))))"

text \<open>One column; two groups, each listed on a group page of its own, with a row each.\<close>

definition two_groups :: tblst where
  "two_groups = \<lparr>pages = (\<lambda>f n. case f of
       GROUP_FORK \<Rightarrow> if n = 2 then Some (group_page 2 5) else if n = 3 then Some (group_page 3 6) else None
     | MAIN_FORK \<Rightarrow> if n = 5 \<or> n = 6 then Some one_int_page else None),
     locks = (\<lambda>_ _. 0), pins = (\<lambda>_ _. 0)\<rparr>"

lemma group_page_ok: "gpage_ok (group_page num pno) [[pno]]" "pageNum (group_page num pno) = sint num"
proof -
  have it: "item_at (group_page num pno) 0 = \<lparr>it_offset = 4080, it_len = 16 OR ITEM_VALID_MASK, it_rowid = 1\<rparr>"
    by (simp add: item_at_def group_page_def page_simps)
  have "GetItemSize (16 OR ITEM_VALID_MASK) = 16"
    by (simp add: GetItemSize_def ITEM_VALID_MASK_def ITEM_FLAG_MASK_def)
  moreover have "bytes_at (group_page num pno) 4080 16 = enc_group [pno]"
    by (simp add: group_page_def page_simps)
  ultimately show "gpage_ok (group_page num pno) [[pno]]"
    using GetItemValid_or [of 16]
    by (simp add: gpage_ok_def item_space_def item_start_def it dataOffset_def) (simp add: group_page_def page_simps)
  show "pageNum (group_page num pno) = sint num" by (simp add: pageNum_def group_page_def page_simps)
qed

lemma two_groups_ok: "table_ok 1 two_groups [[[5]], [[6]]]"
proof -
  have "gfile two_groups [[[5]], [[6]]]"
    unfolding gfile_def using group_page_ok(1) [of 2 5] group_page_ok(1) [of 3 6]
    by (auto simp: two_groups_def group_page_ok(2) less_Suc_eq)
  then show ?thesis
    by (simp add: table_ok_def two_groups_def group_pages_ok_def cpages_def one_int_page_ok same_items_def)
qed

lemma items_one_int_page: "items one_int_page = 1"
  using arg_cong [OF one_int_page_ok(2), of length] by (simp add: rows_def)

lemma versions_all_visible: "versions_known None running_seven st Some n gss"
  by (auto simp: versions_known_def known_def resolves_def resolve_def TupleVisibilitySatisfy_def GetCurrentTransactionID_def
      running_seven_def my_ctx_def arr_get_def)

lemma two_groups_rows: "rows_of Some (pages two_groups) [0] [[5], [6]] = [[int_column 42], [int_column 42]]"
  "rows_of Some (pages two_groups) [0] [[6]] = [[int_column 42]]"
  by (simp_all add: rows_of_def seen_rows_def cpages_def two_groups_def items_one_int_page one_int_page_ok all_seen_def)

definition int_scan :: ScanPageInfo where
  "int_scan = the (InitScanPositionInfo [0] 1)"

lemma int_scan_init: "InitScanPositionInfo (map int [0]) 1 = Some int_scan"
  by (simp add: int_scan_def InitScanPositionInfo_def Let_def)

theorem seqscan_returns_visible_rows_witness:
  "\<exists>xs s'. fetch (\<lambda>(sc, st). SeqscanNext None running_seven sc st) 3 (int_scan, two_groups) = Some (map Some xs @ [None], s') \<and>
     list_all2 is_row xs [[int_column 42], [int_column 42]]"
proof -
  have "\<exists>xs s'. fetch (\<lambda>(sc, st). SeqscanNext None running_seven sc st) (Suc (length [[int_column 42], [int_column 42]])) (int_scan, two_groups)
      = Some (map Some xs @ [None], s') \<and> list_all2 is_row xs [[int_column 42], [int_column 42]]"
    by (rule seqscan_returns_visible_rows [OF two_groups_ok _ _ int_scan_init versions_all_visible])
      (simp_all add: columns_ok_def two_groups_rows)
  moreover have "Suc (length [[int_column 42], [int_column 42]]) = 3" by simp
  ultimately show ?thesis by (simp only:)
qed

section \<open>Columns out of order\<close>

text \<open>With columns that do not increase, the loop passes the last column before it has found all pages, and reads the member data of
  a column that is not there.\<close>

lemma member_loop_passes_end:
  assumes area: "bs = enc_group ns" and ok: "group_pages_ok st ns"
    and cols: "\<forall>c \<in> set cs. c < length ns" "take (length cs) cols = map int cs"
    and k: "k < length cs" "\<not> (sorted_wrt (<) (drop k cs) \<and> col \<le> cs ! k)" "col < length ns" "length cs \<le> length pl"
  shows "member_loop bs cols (int (length cs)) (ns ! col) 1 (int col) (16 * Suc col) k pl st = None"
  using ok k
proof (induction "length ns - col" arbitrary: col k pl st)
  case (Suc d)
  have pn: "0 < ns ! col" "ns ! col < 2 ^ 31" "pages st MAIN_FORK (ns ! col) \<noteq> None"
    using Suc.prems(1,4) by (auto simp: group_pages_ok_def)
  have nz: "ns ! col \<noteq> INVALID_PAGE_NUM" using pn(1) by (simp add: INVALID_PAGE_NUM_def)
  have len: "length cs \<le> length cols" using arg_cong [OF cols(2), of length] by simp
  have ak: "arr_get cols (int k) = Some (int (cs ! k))"
    using arg_cong [OF cols(2), of "\<lambda>xs. xs ! k"] Suc.prems(2) len by simp
  obtain st1 where st1: "GetPageByIndex MAIN_FORK (ns ! col) st = (Some (ns ! col), st1)" "pages st1 = pages st"
    using GetPageByIndex_Some [OF pn(1,3)] by blast
  have ok1: "group_pages_ok st1 ns" using Suc.prems(1) st1(2) by (simp add: group_pages_ok_def)
  have rec: "(do { pno \<leftarrow> member_pageno bs (16 * Suc col) 0; cnt \<leftarrow> memNum_at bs (16 * Suc col);
       member_loop bs cols (int (length cs)) pno cnt (int col + 1) (16 * Suc col + MEMBER_DATA_SIZE + nat cnt * PAGE_OFFSET_SIZE) m pm s })
     = None" if m: "group_pages_ok s ns" "m < length cs" "\<not> (sorted_wrt (<) (drop m cs) \<and> Suc col \<le> cs ! m)" "length cs \<le> length pm" for m pm s
  proof (cases "Suc col < length ns")
    case True
    have b: "0 \<le> ns ! Suc col" "ns ! Suc col < 2 ^ 31" using Suc.prems(1) True by (auto simp: group_pages_ok_def less_imp_le)
    have "d = length ns - Suc col" using Suc.hyps(2) by simp
    from Suc.hyps(1) [OF this m(1-3) True m(4)] member_reads [OF _ True b, of bs] show ?thesis
      by (simp add: area MEMBER_DATA_SIZE_def PAGE_OFFSET_SIZE_def algebra_simps)
  next
    case False
    then have "length bs \<le> 16 * Suc col" using Suc.prems(4) by (simp add: area)
    then show ?thesis by (simp add: member_pageno_def member_int_def)
  qed
  have dr: "drop k cs = cs ! k # drop (Suc k) cs" using Suc.prems(2) by (simp add: Cons_nth_drop_Suc)
  show ?case
  proof (cases "col = cs ! k")
    case True
    have s: "Suc k < length cs"
      using Suc.prems(2,3) True dr by (cases "Suc k < length cs") auto
    have "\<not> (sorted_wrt (<) (drop (Suc k) cs) \<and> Suc col \<le> cs ! Suc k)"
      using Suc.prems(3) True dr s by (fastforce simp: Cons_nth_drop_Suc [symmetric, of "Suc k" cs])
    from rec [OF ok1 s this, of "pl[k := Some (ns ! col)]"] show ?thesis
      using True nz ak st1(1) Suc.prems(2,5) s by (subst member_loop.simps) simp
  next
    case False
    then have "\<not> (sorted_wrt (<) (drop k cs) \<and> Suc col \<le> cs ! k)" using Suc.prems(3) by auto
    from rec [OF Suc.prems(1,2) this Suc.prems(5)] show ?thesis
      using False nz ak by (subst member_loop.simps) simp
  qed
qed simp

lemma GetGroupMemberPagesOpt_passes_end:
  assumes tab: "table_ok n st gss" and left: "groups_left gss (groupPageInfo sc) (g # gs)" and sc: "scan_ok n cs sc"
    and cols: "\<forall>c \<in> set cs. c < n" "\<not> sorted_wrt (<) cs"
  shows "GetGroupMemberPagesOpt sc st = None"
proof -
  have lens: "\<forall>gs \<in> set gss. \<forall>g \<in> set gs. length g = n" using tab by (simp add: table_ok_def)
  have "found_group n st gss (g # gs) (GetGroupInfo (groupPageInfo sc) (groupItem sc) st)"
    by (rule GetGroupInfo_finds [OF _ left _ lens]) (use tab sc in \<open>simp_all add: table_ok_def scan_ok_def\<close>)
  then obtain sp gi st1 where st1: "pages st1 = pages st"
    and res: "GetGroupInfo (groupPageInfo sc) (groupItem sc) st = Some (1, sp, gi, st1)" "gi_members gi = enc_group g"
    unfolding found_group_def by auto
  obtain gs' where g: "gs' \<in> set gss" "g \<in> set gs'" using groups_left_set [OF left, of g] by auto
  then have gc: "length g = n" "group_pages_ok st1 g" using tab st1 by (auto simp: table_ok_def group_pages_ok_def)
  have nz: "0 < length g" "0 < length cs" using cols gc(1) by (cases cs; auto)+
  have g0: "0 \<le> g ! 0" "g ! 0 < 2 ^ 31" using gc(2) nz(1) by (auto simp: group_pages_ok_def less_imp_le)
  have "member_loop (gi_members gi) (colindexList sc) (int (length cs)) (g ! 0) 1 (int 0) (16 * Suc 0) 0 (pageList sc) st1 = None"
    by (rule member_loop_passes_end [OF res(2) gc(2)]) (use cols sc nz gc(1) in \<open>simp_all add: scan_ok_def\<close>)
  then show ?thesis
    using res member_reads [OF _ nz(1) g0, of "gi_members gi"] sc
    by (simp add: GetGroupMemberPagesOpt_def scan_ok_def MEMBER_DATA_SIZE_def PAGE_OFFSET_SIZE_def)
qed

text \<open>C28: A scan needs its columns in increasing order. For columns in any other order, as in \<^verbatim>\<open>select b, a\<close>, the search for the pages of
  the first group runs over the member data of all columns and reads what lies behind them in memory: the first row of a table with a
  group cannot be read.\<close>

theorem unordered_columns_leave_group:
  assumes "table_ok n st gss" "concat gss \<noteq> []" "InitScanPositionInfo (map int cs) n = Some sc"
    and "\<forall>c \<in> set cs. c < n" "\<not> sorted_wrt (<) cs"
  shows "SeqscanNext snap txn sc st = None"
proof -
  have sc: "scan_ok n cs sc" "pageReset sc = 1"
    using assms(3) by (auto simp: InitScanPositionInfo_def Let_def scan_ok_def area_ok_def split: if_splits)
  have "gss \<noteq> []" using assms(2) by auto
  then have left: "groups_left gss (groupPageInfo sc) (concat gss)"
    unfolding groups_left_def using assms(3)
    by (auto simp: InitScanPositionInfo_def Let_def PAGE_HEAD_PAGE_NUM_def split: if_splits intro!: exI [of _ 0])
  obtain g gs where gs: "concat gss = g # gs" using assms(2) by (meson neq_Nil_conv)
  have "GetGroupMemberPagesOpt sc st = None"
    using GetGroupMemberPagesOpt_passes_end [OF assms(1) left [unfolded gs] sc(1) assms(4,5)] .
  then show ?thesis using sc(2) by (simp add: SeqscanNext_def seqscan_loop.simps [of _ _ 0])
qed

text \<open>A table of two columns with one row.\<close>

definition pair_page :: page where
  "pair_page = set_fld 12 56 (set_fld 8 2 (put_bytes 40 (enc_item \<lparr>it_offset = 4064, it_len = 32 OR ITEM_VALID_MASK, it_rowid = 1\<rparr>)
     (put_bytes 4064 (enc_group [5, 6]) (\<lambda>_. 0))))"

definition pair_table :: tblst where
  "pair_table = \<lparr>pages = (\<lambda>f n. case f of
       GROUP_FORK \<Rightarrow> if n = 2 then Some pair_page else None
     | MAIN_FORK \<Rightarrow> if n = 5 \<or> n = 6 then Some one_int_page else None),
     locks = (\<lambda>_ _. 0), pins = (\<lambda>_ _. 0)\<rparr>"

lemma pair_page_ok: "gpage_ok pair_page [[5, 6]]" "pageNum pair_page = 2"
proof -
  have it: "item_at pair_page 0 = \<lparr>it_offset = 4064, it_len = 32 OR ITEM_VALID_MASK, it_rowid = 1\<rparr>"
    by (simp add: item_at_def pair_page_def page_simps)
  have "GetItemSize (32 OR ITEM_VALID_MASK) = 32"
    by (simp add: GetItemSize_def ITEM_VALID_MASK_def ITEM_FLAG_MASK_def)
  moreover have "bytes_at pair_page 4064 32 = enc_group [5, 6]"
    by (simp add: pair_page_def page_simps)
  ultimately show "gpage_ok pair_page [[5, 6]]"
    using GetItemValid_or [of 32]
    by (simp add: gpage_ok_def item_space_def item_start_def it dataOffset_def) (simp add: pair_page_def page_simps)
  show "pageNum pair_page = 2" by (simp add: pageNum_def pair_page_def page_simps)
qed

lemma pair_table_ok: "table_ok 2 pair_table [[[5, 6]]]"
proof -
  have "gfile pair_table [[[5, 6]]]"
    unfolding gfile_def using pair_page_ok by (auto simp: pair_table_def)
  then show ?thesis
    by (simp add: table_ok_def pair_table_def group_pages_ok_def cpages_def one_int_page_ok same_items_def upt_rec)
qed

theorem unordered_columns_leave_group_witness:
  "SeqscanNext None running_seven (the (InitScanPositionInfo [1, 0] 2)) pair_table = None"
  by (rule unordered_columns_leave_group [OF pair_table_ok, of "[1, 0]"]) (simp_all add: InitScanPositionInfo_def Let_def)

section \<open>Scanning again\<close>

lemma rescan_at:
  assumes "scan_ended n cs gss pgs (sc, st)" "gss \<noteq> []"
  shows "scan_at V n cs gss (fst (ExecReSeqScan sc st)) (snd (ExecReSeqScan sc st)) (rows_of V pgs cs (last gss))"
    and "pages (snd (ExecReSeqScan sc st)) = pgs"
proof -
  have e: "pages st = pgs" "scan_ok n cs sc" "sp_page (groupPageInfo sc) = None" "sp_pageNum (groupPageInfo sc) = 1 + int (length gss)"
    using assms(1) by (simp_all add: scan_ended_def search_ended_def)
  obtain pl st' where pl: "ReleasePageList (pageList sc) (nat (pageListNum sc)) st = (pl, st')" by fastforce
  then have st': "pages st' = pages st" "length pl = length (pageList sc)"
    using ReleasePageList_pages [of "pageList sc" "nat (pageListNum sc)" st] by simp_all
  have re: "ExecReSeqScan sc st = (sc\<lparr>groupPageInfo := groupPageInfo sc, pageList := pl, pageReset := 1\<rparr>, st')"
    by (simp add: ExecReSeqScan_def Let_def e(3) pl)
  show "pages (snd (ExecReSeqScan sc st)) = pgs" using re st' e(1) by simp
  have "concat (drop (length gss - 1) gss) = last gss"
    using assms(2) by (cases gss rule: rev_cases) simp_all
  then have "groups_left gss (groupPageInfo sc) (last gss)"
    unfolding groups_left_def using e(3,4) assms(2)
    by (intro disjI1 exI [of _ "length gss - 1"]) (auto simp: of_nat_diff Suc_le_eq)
  moreover have "scan_ok n cs (sc\<lparr>groupPageInfo := groupPageInfo sc, pageList := pl, pageReset := 1\<rparr>)"
    using e(2) st'(2) by (simp add: scan_ok_def)
  ultimately show "scan_at V n cs gss (fst (ExecReSeqScan sc st)) (snd (ExecReSeqScan sc st)) (rows_of V pgs cs (last gss))"
    unfolding re by (auto simp: scan_at_def st' e(1))
qed

text \<open>C29: When a scan that has reached its end is started again, as a join does for every row of its
  outer table, it hands out only the rows of the groups on the last page of the group file: all
  rows when the group file has one page, and not the rows of the earlier pages otherwise.\<close>

theorem rescan_returns_last_group_page:
  assumes "table_ok n st gss" "gss \<noteq> []" "columns_ok n cs" "InitScanPositionInfo (map int cs) n = Some sc"
    and "versions_known snap txn st V n gss"
    and "rs = rows_of V (pages st) cs (concat gss)" "rs' = rows_of V (pages st) cs (last gss)"
  shows "\<exists>xs sc1 st1 ys s2. fetch (\<lambda>(sc, st). SeqscanNext snap txn sc st) (Suc (length rs)) (sc, st) = Some (map Some xs @ [None], sc1, st1) \<and>
     list_all2 is_row xs rs \<and>
     fetch (\<lambda>(sc, st). SeqscanNext snap txn sc st) (Suc (length rs')) (ExecReSeqScan sc1 st1) = Some (map Some ys @ [None], s2) \<and>
     list_all2 is_row ys rs'"
proof -
  let ?del = "scan_delivers snap txn V n cs gss (pages st)"
  have "?del (sc, st) rs" using assms InitScan_at [OF assms(3,2,4)] by (simp add: scan_delivers_def)
  from seqscan.fetch_all [OF this] obtain xs sc1 st1 where
    f1: "fetch (scan_next snap txn) (Suc (length rs)) (sc, st) = Some (map Some xs @ [None], sc1, st1)" "list_all2 is_row xs rs"
    and e: "scan_ended n cs gss (pages st) (sc1, st1)" by (metis surj_pair)
  note re = rescan_at [OF e assms(2)]
  have "?del (ExecReSeqScan sc1 st1) rs'"
    using re(1) [of V] re(2) assms(3,7) table_ok_pages [OF assms(1) re(2)] versions_known_pages [OF assms(5) re(2)]
    by (simp add: scan_delivers_def case_prod_beta)
  from seqscan.fetch_all [OF this] show ?thesis using f1 unfolding scan_next_def by blast
qed

theorem rescan_returns_last_group_page_witness:
  "\<exists>xs sc1 st1 ys s2. fetch (\<lambda>(sc, st). SeqscanNext None running_seven sc st) 3 (int_scan, two_groups) = Some (map Some xs @ [None], sc1, st1) \<and>
     length xs = 2 \<and>
     fetch (\<lambda>(sc, st). SeqscanNext None running_seven sc st) 2 (ExecReSeqScan sc1 st1) = Some (map Some ys @ [None], s2) \<and> length ys = 1"
proof -
  have "\<exists>xs sc1 st1 ys s2. fetch (\<lambda>(sc, st). SeqscanNext None running_seven sc st) (Suc (length [[int_column 42], [int_column 42]])) (int_scan, two_groups)
        = Some (map Some xs @ [None], sc1, st1) \<and> list_all2 is_row xs [[int_column 42], [int_column 42]] \<and>
     fetch (\<lambda>(sc, st). SeqscanNext None running_seven sc st) (Suc (length [[int_column 42]])) (ExecReSeqScan sc1 st1) = Some (map Some ys @ [None], s2) \<and>
     list_all2 is_row ys [[int_column 42]]"
    by (rule rescan_returns_last_group_page [OF two_groups_ok _ _ int_scan_init versions_all_visible])
      (simp_all add: columns_ok_def two_groups_rows)
  moreover have "Suc (length [[int_column 42], [int_column 42]]) = 3" "Suc (length [[int_column 42]]) = 2" by simp_all
  ultimately have "\<exists>xs sc1 st1 ys s2. fetch (\<lambda>(sc, st). SeqscanNext None running_seven sc st) 3 (int_scan, two_groups)
        = Some (map Some xs @ [None], sc1, st1) \<and> list_all2 is_row xs [[int_column 42], [int_column 42]] \<and>
     fetch (\<lambda>(sc, st). SeqscanNext None running_seven sc st) 2 (ExecReSeqScan sc1 st1) = Some (map Some ys @ [None], s2) \<and>
     list_all2 is_row ys [[int_column 42]]" by (simp only:)
  then show ?thesis by (elim exE conjE) (drule list_all2_lengthD, drule list_all2_lengthD, fastforce)
qed

section \<open>Version chains and moved rows\<close>

text \<open>C30: A transaction that reads an older version leaves the page of the version pinned; when the item
  of the version is not there, it also leaves the page locked.\<close>

theorem version_read_leaves_pin_and_lock:
  assumes "pno = sint (po_pageno (pageIndex (undo (headerData c))))" "0 < pno" "pages st MAIN_FORK pno = Some p"
    and "off = GET_ITEM_BY_INDEX (sint (itemIndex (undo (headerData c))))"
    and "st1 = st\<lparr>pins := bump MAIN_FORK pno 1 (pins st)\<rparr>"
  shows "(ITEM_END_CHECK off p \<longrightarrow> CurrentReadVersion snap txn (Some c) st = Some (None, LockPage MAIN_FORK pno st1)) \<and>
     (\<not> ITEM_END_CHECK off p \<and> get_item p off = Some it \<and> GetItemValid (it_len it) \<and>
       DeFormRowDatEx2 p (sint (it_offset it)) = Some (Some v) \<and> TupleVisibilitySatisfy (headerData v) snap txn = Some TUPLE_VISIBLE \<longrightarrow>
       CurrentReadVersion snap txn (Some c) st = Some (Some v, st1))"
proof -
  have rd: "ReadPage MAIN_FORK pno st = (Some pno, st1)" using assms(2,3,5) by (simp add: ReadPage_def)
  have pg: "pages st1 MAIN_FORK pno = Some p" using assms(3,5) by simp
  have "sint (po_pageno (pageIndex (undo (headerData c)))) \<noteq> INVALID_PAGE_NUM" using assms(1,2) by (simp add: INVALID_PAGE_NUM_def)
  moreover have "UnLockPage MAIN_FORK pno (LockPage MAIN_FORK pno st1) = st1"
    by (simp add: UnLockPage_def LockPage_def bump_def)
  ultimately show ?thesis
    unfolding CurrentReadVersion_def option.case
    by (subst (1 2) version_loop.simps) (simp add: rd pg assms(1) [symmetric] assms(4) [symmetric])
qed

text \<open>A column of an older version of the row on page 5, and one whose older version is gone.\<close>

definition older_at :: "i32 \<Rightarrow> RowColumnData" where
  "older_at i = int_column 42 \<lparr>headerData := (headerData (int_column 42))\<lparr>undo := \<lparr>pageIndex = \<lparr>po_segno = 0, po_pageno = 5\<rparr>, itemIndex = i\<rparr>\<rparr>\<rparr>"

theorem version_read_leaves_pin_and_lock_witness:
  "CurrentReadVersion None running_seven (Some (older_at 0)) two_groups =
     Some (Some (int_column 42), two_groups\<lparr>pins := bump MAIN_FORK 5 1 (pins two_groups)\<rparr>) \<and>
   CurrentReadVersion None running_seven (Some (older_at 3)) two_groups =
     Some (None, LockPage MAIN_FORK 5 (two_groups\<lparr>pins := bump MAIN_FORK 5 1 (pins two_groups)\<rparr>))"
proof -
  let ?it = "item_at one_int_page 0"
  have undo: "undo (headerData (older_at i)) = \<lparr>pageIndex = \<lparr>po_segno = 0, po_pageno = 5\<rparr>, itemIndex = i\<rparr>" for i
    by (simp add: older_at_def)
  have "dataOffset one_int_page = 56" using page_okD(1) [OF one_int_page_ok(1)] items_one_int_page by simp
  then have ends: "\<not> ITEM_END_CHECK (GET_ITEM_BY_INDEX 0) one_int_page" "ITEM_END_CHECK (GET_ITEM_BY_INDEX 3) one_int_page"
    by (simp_all add: ITEM_END_CHECK_def GET_ITEM_BY_INDEX_def PAGE_DATA_HEADER_SIZE_def ITEM_SIZE_def)
  have it: "get_item one_int_page (GET_ITEM_BY_INDEX 0) = Some ?it"
    using get_item_at [of 0 one_int_page] by (simp add: GET_ITEM_BY_INDEX_def PAGE_DATA_HEADER_SIZE_def ITEM_SIZE_def)
  have v: "GetItemValid (it_len ?it)" "DeFormRowDatEx2 one_int_page (sint (it_offset ?it)) = Some (Some (int_column 42))"
    using page_okD(4) [OF one_int_page_ok(1), of 0] DeFormRowDatEx2_at [OF one_int_page_ok(1), of 0]
    by (simp_all add: items_one_int_page one_int_page_ok item_ok_def)
  have vis: "TupleVisibilitySatisfy (headerData (int_column 42)) None running_seven = Some TUPLE_VISIBLE"
    by (simp add: TupleVisibilitySatisfy_def GetCurrentTransactionID_def running_seven_def my_ctx_def arr_get_def)
  have pg: "pages two_groups MAIN_FORK 5 = Some one_int_page" by (simp add: two_groups_def)
  note read = version_read_leaves_pin_and_lock [of 5, OF _ _ pg refl refl, of _ None running_seven ?it "int_column 42"]
  show ?thesis
    using read [of "older_at 0"] read [of "older_at 3"] ends it v vis by (simp add: undo)
qed

section \<open>The visible version of a row\<close>

text \<open>The older versions of a row, from the newest to the oldest.\<close>

fun chain :: "(ForkType \<Rightarrow> int \<rightharpoonup> page) \<Rightarrow> RowPosition \<Rightarrow> RowColumnData list \<Rightarrow> bool" where
  "chain pgs pos [] \<longleftrightarrow> sint (po_pageno (pageIndex pos)) = INVALID_PAGE_NUM"
| "chain pgs pos (c # cs) \<longleftrightarrow> 0 < sint (po_pageno (pageIndex pos)) \<and>
     (case pgs MAIN_FORK (sint (po_pageno (pageIndex pos))) of
        None \<Rightarrow> False
      | Some p \<Rightarrow> page_ok p \<and> 0 \<le> sint (itemIndex pos) \<and> nat (sint (itemIndex pos)) < items p \<and> rows p ! nat (sint (itemIndex pos)) = c) \<and>
     chain pgs (undo (headerData c)) cs"

definition sees_version :: "SnapShotInfo option \<Rightarrow> txnst \<Rightarrow> RowColumnData \<Rightarrow> bool" where
  "sees_version snap txn c \<longleftrightarrow> TupleVisibilitySatisfy (headerData c) snap txn = Some TUPLE_VISIBLE"

lemma version_loop_chain:
  assumes "chain (pages st) pos cs" "\<forall>c \<in> set cs. TupleVisibilitySatisfy (headerData c) snap txn \<noteq> None"
  shows "\<exists>st'. version_loop snap txn pos st = Some (List.find (sees_version snap txn) cs, st') \<and> pages st' = pages st"
  using assms
proof (induction cs arbitrary: pos st)
  case Nil
  then show ?case by (subst version_loop.simps) simp
next
  case (Cons c cs)
  let ?n = "sint (po_pageno (pageIndex pos))" and ?i = "nat (sint (itemIndex pos))"
  obtain p where p: "0 < ?n" "pages st MAIN_FORK ?n = Some p" "page_ok p" "0 \<le> sint (itemIndex pos)" "?i < items p" "rows p ! ?i = c"
      "chain (pages st) (undo (headerData c)) cs"
    using Cons.prems(1) by (auto split: option.splits)
  let ?st = "st\<lparr>pins := bump MAIN_FORK ?n 1 (pins st)\<rparr>"
  have off: "GET_ITEM_BY_INDEX (sint (itemIndex pos)) = int (40 + 16 * ?i)"
    using p(4) by (simp add: GET_ITEM_BY_INDEX_def PAGE_DATA_HEADER_SIZE_def ITEM_SIZE_def)
  have it: "get_item p (int (40 + 16 * ?i)) = Some (item_at p ?i)" "\<not> ITEM_END_CHECK (int (40 + 16 * ?i)) p" "GetItemValid (it_len (item_at p ?i))"
    "DeFormRowDatEx2 p (sint (it_offset (item_at p ?i))) = Some (Some c)"
    using get_item_at [of ?i p] items_le [OF p(3)] p(5,6) page_okD(1,4) [OF p(3)] DeFormRowDatEx2_at [OF p(3,5)]
    by (auto simp: ITEM_END_CHECK_def item_ok_def)
  obtain vis where vis: "TupleVisibilitySatisfy (headerData c) snap txn = Some vis" using Cons.prems(2) by auto
  have loop: "version_loop snap txn pos st = (if vis = TUPLE_VISIBLE then Some (Some c, ?st) else version_loop snap txn (undo (headerData c)) ?st)"
    using p(1,2) it vis by (subst version_loop.simps) (simp add: INVALID_PAGE_NUM_def ReadPage_eq off del: of_nat_add of_nat_mult)
  show ?case
  proof (cases "vis = TUPLE_VISIBLE")
    case True
    then show ?thesis using loop vis by (simp add: sees_version_def)
  next
    case False
    then show ?thesis using loop vis Cons.IH [of ?st "undo (headerData c)"] p(7) Cons.prems(2) by (simp add: sees_version_def)
  qed
qed

text \<open>C32: The search for a version ends on every chain of older versions: it returns the newest of them that is
  visible, and the null pointer when none is. It changes no page.\<close>

theorem version_search_ends:
  assumes "chain (pages st) (undo (headerData c)) cs" "\<forall>c \<in> set cs. TupleVisibilitySatisfy (headerData c) snap txn \<noteq> None"
  shows "\<exists>st'. CurrentReadVersion snap txn (Some c) st = Some (List.find (sees_version snap txn) cs, st') \<and> pages st' = pages st"
  using version_loop_chain [OF assms] by (simp add: CurrentReadVersion_def)

theorem version_search_ends_witness:
  "\<exists>st'. CurrentReadVersion None running_seven (Some (older_at 0)) two_groups = Some (Some (int_column 42), st') \<and> pages st' = pages two_groups"
proof -
  have "chain (pages two_groups) (undo (headerData (older_at 0))) [int_column 42]"
    by (simp add: older_at_def two_groups_def items_one_int_page one_int_page_ok INVALID_PAGE_NUM_def int_column_def zero_header_def)
  moreover have "TupleVisibilitySatisfy (headerData (int_column 42)) None running_seven = Some TUPLE_VISIBLE"
    by (simp add: TupleVisibilitySatisfy_def GetCurrentTransactionID_def running_seven_def my_ctx_def arr_get_def)
  ultimately show ?thesis
    using version_search_ends [of two_groups "older_at 0" "[int_column 42]" None running_seven] by (simp add: sees_version_def)
qed

end
