(* ===== verification/Tuples.thy ===== *)
theory Tuples
  imports Pages DataTypes
begin

text \<open>
  Values and the columns of a row, after \<^verbatim>\<open>src/sqlcore/storage/tuple/tuples.c\<close> and
  \<^verbatim>\<open>TranslateRawColumnData\<close> of \<^verbatim>\<open>src/sqlcore/executor/scan/scan.c\<close>: constants of a statement become
  columns, and columns become the values that expressions compute with.

  The memory of a worker is a \<open>wmem\<close>. Where it lies is the affair of the memory pool: the argument
  \<open>addr\<close> gives the address of the k-th block that the functions allocate here. What a new block holds
  before it is written is an argument as well: \<open>blk n\<close> is the content of a new column with \<open>n\<close> bytes
  of data. The argument \<open>behind\<close> gives the bytes that lie in memory behind a column, since
  \<^verbatim>\<open>TranslateRawColumnData\<close> reads them.
\<close>

section \<open>Memory\<close>

record wmem =
  wbytes :: cmem
  blocks :: nat

definition store_bytes :: "u64 \<Rightarrow> byte list \<Rightarrow> cmem \<Rightarrow> cmem" where
  "store_bytes a bs m = (\<lambda>p. if unat (p - a) < length bs then Some (bs ! unat (p - a)) else m p)"

fun load_bytes :: "cmem \<Rightarrow> u64 \<Rightarrow> nat \<Rightarrow> byte list option" where
  "load_bytes m p 0 = Some []"
| "load_bytes m p (Suc n) = do { b \<leftarrow> m p; bs \<leftarrow> load_bytes m (p + 1) n; Some (b # bs) }"

text \<open>A block for \<open>bs\<close>: its address, and the memory with \<open>bs\<close> in it.\<close>

definition AllocCopy :: "(nat \<Rightarrow> u64) \<Rightarrow> byte list \<Rightarrow> wmem \<Rightarrow> u64 \<times> wmem" where
  "AllocCopy addr bs w = (addr (blocks w), \<lparr>wbytes = store_bytes (addr (blocks w)) bs (wbytes w), blocks = Suc (blocks w)\<rparr>)"

text \<open>The length of a string with its final zero byte, as an \<^verbatim>\<open>int\<close>.\<close>

definition zstr :: "cmem \<Rightarrow> u64 \<Rightarrow> byte list option" where
  "zstr m p = do {
     n \<leftarrow> strlen m p;
     if Suc n + ROW_COLUMN_HEADER_SIZE < 2 ^ 31 then load_bytes m p (Suc n) else None }"

section \<open>From constants to columns\<close>

record ConstValue =
  cv_val :: u64
  cv_vt :: valueType
  cv_isnull :: int

record ColumnDefInfo =
  colName :: string
  cd_type :: valueType

definition char_T :: byte where "char_T = 84"
definition char_F :: byte where "char_F = 70"

text \<open>A column with \<open>n\<close> bytes of data in a new block, and the bytes that are written to it.\<close>

definition new_column :: "(nat \<Rightarrow> RowColumnData) \<Rightarrow> nat \<Rightarrow> i32 \<Rightarrow> RowColumnData" where
  "new_column blk n attr = (blk n)\<lparr>rc_size := of_nat (ROW_COLUMN_HEADER_SIZE + n), attrindex := attr\<rparr>"

definition put_data :: "byte list \<Rightarrow> RowColumnData \<Rightarrow> RowColumnData option" where
  "put_data bs c =
     (if length bs \<le> length (rc_data c) then Some (c\<lparr>rc_data := bs @ drop (length bs) (rc_data c)\<rparr>) else None)"

text \<open>\<open>fl_int\<close> is the conversion of an \<^verbatim>\<open>int\<close> to a \<^verbatim>\<open>float\<close>; the null pointer is \<open>Some None\<close>.\<close>

definition TransformConstValueRowData :: "(i32 \<Rightarrow> i32) \<Rightarrow> (nat \<Rightarrow> RowColumnData) \<Rightarrow> cmem \<Rightarrow> ConstValue \<Rightarrow> ColumnDefInfo \<Rightarrow> i32 \<Rightarrow>
    RowColumnData option option" where
  "TransformConstValueRowData fl_int blk m cv cd attr =
     (let int_col = map_option Some (put_data (bytes_of 4 (iData (cv_val cv))) (new_column blk 4 attr));
          str_col = do { bs \<leftarrow> zstr m (cv_val cv); map_option Some (put_data bs (new_column blk (length bs) attr)) };
          float_col = (if cv_vt cv = VT_FLOAT then map_option Some (put_data (bytes_of 4 (fData (cv_val cv))) (new_column blk 4 attr))
            else if cv_vt cv = VT_INT then map_option Some (put_data (bytes_of 4 (fl_int (iData (cv_val cv)))) (new_column blk 4 attr))
            else Some (Some (new_column blk 4 attr)))
      in case cd_type cd of
        VT_INT \<Rightarrow> int_col
      | VT_INTEGER \<Rightarrow> int_col
      | VT_VARCHAR \<Rightarrow> str_col
      | VT_STRING \<Rightarrow> str_col
      | VT_CHAR \<Rightarrow> do {
          len \<leftarrow> strlen m (cv_val cv);
          if trunc_int len > 0 then do {
            b \<leftarrow> m (cv_val cv);
            map_option Some (put_data [b] (new_column blk 1 attr)) }
          else Some (Some (new_column blk 0 attr)) }
      | VT_DOUBLE \<Rightarrow> float_col
      | VT_FLOAT \<Rightarrow> float_col
      | VT_BOOL \<Rightarrow> map_option Some (put_data [if iData (cv_val cv) \<noteq> 0 then char_T else char_F] (new_column blk 1 attr))
      | _ \<Rightarrow> Some None)"

text \<open>Both indexes count from one.\<close>

fun column_index :: "string \<Rightarrow> string list \<Rightarrow> int \<Rightarrow> int" where
  "column_index name [] index = -1"
| "column_index name (f # fs) index = (if name = f then index else column_index name fs (index + 1))"

definition GetColumnRefIndexByName :: "string \<Rightarrow> string list option \<Rightarrow> int" where
  "GetColumnRefIndexByName name targets = (case targets of None \<Rightarrow> -1 | Some fs \<Rightarrow> column_index name fs 1)"

definition GetDataByIndex :: "int \<Rightarrow> ConstValue list \<Rightarrow> ConstValue option" where
  "GetDataByIndex index vals = (if 1 \<le> index then arr_get vals (index - 1) else None)"

text \<open>
  The loop over the columns of the table, from column \<open>i\<close> on: the columns and the sum of their sizes.
  A column that the statement does not name gets no data; \<open>Some None\<close> is the early return when there
  are fewer values than named columns.
\<close>

fun values_loop :: "(i32 \<Rightarrow> i32) \<Rightarrow> (nat \<Rightarrow> RowColumnData) \<Rightarrow> cmem \<Rightarrow> ColumnDefInfo list \<Rightarrow> string list option \<Rightarrow> ConstValue list \<Rightarrow> nat \<Rightarrow>
    (RowColumnData list \<times> i32) option option" where
  "values_loop fl_int blk m [] targets vals i = Some (Some ([], 0))"
| "values_loop fl_int blk m (cd # cds) targets vals i =
     (let attrIndex = GetColumnRefIndexByName (colName cd) targets in
      if attrIndex < 0 then do {
        let c = new_column blk 0 (of_nat i);
        r \<leftarrow> values_loop fl_int blk m cds targets vals (Suc i);
        Some (case r of None \<Rightarrow> None | Some (cs, sz) \<Rightarrow> Some (c # cs, rc_size c + sz)) }
      else case GetDataByIndex attrIndex vals of
        None \<Rightarrow> Some None
      | Some v \<Rightarrow> do {
          c \<leftarrow> TransformConstValueRowData fl_int blk m v cd (of_nat i);
          case c of
            None \<Rightarrow> None
          | Some c \<Rightarrow> do {
              r \<leftarrow> values_loop fl_int blk m cds targets vals (Suc i);
              Some (case r of None \<Rightarrow> None | Some (cs, sz) \<Rightarrow> Some (c # cs, rc_size c + sz)) } })"

text \<open>\<open>old\<close> is the size that the new block holds before.\<close>

definition ValuesFormRowData :: "(i32 \<Rightarrow> i32) \<Rightarrow> (nat \<Rightarrow> RowColumnData) \<Rightarrow> i32 \<Rightarrow> cmem \<Rightarrow> ColumnDefInfo list \<Rightarrow> string list option \<Rightarrow>
    ConstValue list \<Rightarrow> TableRowData option option" where
  "ValuesFormRowData fl_int blk old m cds targets vals = do {
     r \<leftarrow> values_loop fl_int blk m cds targets vals 0;
     Some (map_option (\<lambda>(cs, sz). \<lparr>tr_size = old + of_nat (8 * length cds + TABLE_ROW_HEADER_SIZE) + sz,
       tr_num = of_nat (length cds), columnData = map Some cs\<rparr>) r) }"

section \<open>From constants to values and back to columns\<close>

text \<open>\<open>d\<close> is what the data of the new value holds before.\<close>

definition TransformConstExprValue :: "(nat \<Rightarrow> u64) \<Rightarrow> (i32 \<Rightarrow> i32) \<Rightarrow> u64 \<Rightarrow> ConstValue \<Rightarrow> wmem \<Rightarrow> (ExprDataInfo option \<times> wmem) option" where
  "TransformConstExprValue addr fl_int d cv w =
     (let int_val = Some (Some \<lparr>edType = VT_INTEGER, edSize = 4, edData = set_iData (iData (cv_val cv)) d\<rparr>, w);
          str_val = do {
            bs \<leftarrow> zstr (wbytes w) (cv_val cv);
            let (p, w) = AllocCopy addr bs w;
            Some (Some \<lparr>edType = VT_STRING, edSize = int (length bs), edData = p\<rparr>, w) };
          float_val = Some (Some \<lparr>edType = VT_FLOAT, edSize = 4, edData =
            (if cv_vt cv = VT_FLOAT then set_iData (fData (cv_val cv)) d
             else if cv_vt cv = VT_INT then set_iData (fl_int (iData (cv_val cv))) d else d)\<rparr>, w)
      in case cv_vt cv of
        VT_INT \<Rightarrow> int_val
      | VT_INTEGER \<Rightarrow> int_val
      | VT_VARCHAR \<Rightarrow> str_val
      | VT_STRING \<Rightarrow> str_val
      | VT_CHAR \<Rightarrow> do {
          len \<leftarrow> strlen (wbytes w) (cv_val cv);
          b \<leftarrow> wbytes w (cv_val cv);
          Some (Some \<lparr>edType = VT_CHAR, edSize = trunc_int len, edData = set_cData b d\<rparr>, w) }
      | VT_DOUBLE \<Rightarrow> float_val
      | VT_FLOAT \<Rightarrow> float_val
      | VT_BOOL \<Rightarrow> Some (Some \<lparr>edType = VT_FLOAT, edSize = 1, edData = set_cData (if iData (cv_val cv) \<noteq> 0 then char_T else char_F) d\<rparr>, w)
      | _ \<Rightarrow> Some (None, w))"

text \<open>
  The string case copies as many bytes as the whole column has to its data; the float case writes to
  the data of the null pointer, which has no result.
\<close>

definition transFormExpr2RowColumnData :: "(nat \<Rightarrow> RowColumnData) \<Rightarrow> cmem \<Rightarrow> ExprDataInfo option \<Rightarrow> i32 \<Rightarrow> RowColumnData option option" where
  "transFormExpr2RowColumnData blk m e attr =
     (case e of
        None \<Rightarrow> Some None
      | Some e \<Rightarrow>
          (let int_col = map_option Some (put_data (bytes_of 4 (iData (edData e))) (new_column blk 4 attr));
               str_col = do {
                 n \<leftarrow> strlen m (edData e);
                 if Suc n + ROW_COLUMN_HEADER_SIZE < 2 ^ 31 then do {
                   bs \<leftarrow> load_bytes m (edData e) (Suc n + ROW_COLUMN_HEADER_SIZE);
                   map_option Some (put_data bs (new_column blk (Suc n) attr)) }
                 else None }
           in case edType e of
             VT_INT \<Rightarrow> int_col
           | VT_INTEGER \<Rightarrow> int_col
           | VT_VARCHAR \<Rightarrow> str_col
           | VT_STRING \<Rightarrow> str_col
           | VT_CHAR \<Rightarrow> do {
               b \<leftarrow> m (edData e);
               map_option Some (put_data [b] (new_column blk 1 attr)) }
           | VT_DOUBLE \<Rightarrow> None
           | VT_FLOAT \<Rightarrow> None
           | VT_BOOL \<Rightarrow> map_option Some (put_data [if iData (edData e) = 1 then char_T else char_F] (new_column blk 4 attr))
           | _ \<Rightarrow> Some None))"

section \<open>From columns to values\<close>

definition read_data :: "(RowColumnData \<Rightarrow> byte list) \<Rightarrow> RowColumnData \<Rightarrow> nat \<Rightarrow> byte list option" where
  "read_data behind c n =
     (let bs = rc_data c @ behind c in if n \<le> length bs then Some (take n bs) else None)"

text \<open>
  The value of a column goes to the data \<open>d\<close> of a value. A type without an entry leaves it alone; then
  the function returns the null pointer, which its callers do not look at.
\<close>

definition TranslateRawColumnData :: "(nat \<Rightarrow> u64) \<Rightarrow> (RowColumnData \<Rightarrow> byte list) \<Rightarrow> RowColumnData \<Rightarrow> valueType \<Rightarrow> u64 \<Rightarrow> wmem \<Rightarrow>
    (u64 \<times> wmem) option" where
  "TranslateRawColumnData addr behind c vt d w =
     (let int_val = do { bs \<leftarrow> read_data behind c 4; Some (set_iData (word_of bs) d, w) };
          str_val = (if sint (rc_size c) < 0 then None
            else do { bs \<leftarrow> read_data behind c (nat (sint (rc_size c))); Some (AllocCopy addr bs w) })
      in case vt of
        VT_INT \<Rightarrow> int_val
      | VT_INTEGER \<Rightarrow> int_val
      | VT_VARCHAR \<Rightarrow> str_val
      | VT_STRING \<Rightarrow> str_val
      | VT_CHAR \<Rightarrow> do { bs \<leftarrow> read_data behind c 1; Some (AllocCopy addr (bs @ [0]) w) }
      | VT_DOUBLE \<Rightarrow> int_val
      | VT_FLOAT \<Rightarrow> int_val
      | VT_BOOL \<Rightarrow> do { bs \<leftarrow> read_data behind c 1; Some (set_iData (if hd bs = char_T then 1 else 0) d, w) }
      | _ \<Rightarrow> Some (d, w))"

section \<open>The values that columns and registers hold\<close>

datatype sql_value = IntV int | StrV "byte list" | CharV byte | BoolV bool

definition is_str :: "valueType \<Rightarrow> bool" where "is_str vt \<longleftrightarrow> vt \<in> {VT_VARCHAR, VT_STRING}"
definition is_int :: "valueType \<Rightarrow> bool" where "is_int vt \<longleftrightarrow> vt \<in> {VT_INT, VT_INTEGER}"

text \<open>The data \<open>d\<close> of a value of type \<open>vt\<close> stands for \<open>v\<close>. A character is a string, too.\<close>

fun value_at :: "valueType \<Rightarrow> cmem \<Rightarrow> u64 \<Rightarrow> sql_value \<Rightarrow> bool" where
  "value_at vt m d (IntV i) \<longleftrightarrow> is_int vt \<and> sint (iData d) = i"
| "value_at vt m d (StrV s) \<longleftrightarrow> is_str vt \<and> d \<noteq> 0 \<and> str_at m d s \<and> length s + 49 < 2 ^ 28"
| "value_at vt m d (CharV b) \<longleftrightarrow> vt = VT_CHAR \<and> m d = Some b \<and> b \<noteq> 0 \<and> (case strlen m d of None \<Rightarrow> False | Some n \<Rightarrow> 0 < n \<and> n < 2 ^ 31)"
| "value_at vt m d (BoolV b) \<longleftrightarrow> vt = VT_BOOL \<and> (iData d \<noteq> 0 \<longleftrightarrow> b)"

text \<open>A column holds \<open>v\<close>.\<close>

fun col_value :: "valueType \<Rightarrow> RowColumnData \<Rightarrow> sql_value \<Rightarrow> bool" where
  "col_value vt c (IntV i) \<longleftrightarrow> is_int vt \<and> length (rc_data c) = 4 \<and> sint (word_of (rc_data c) :: i32) = i"
| "col_value vt c (StrV s) \<longleftrightarrow> is_str vt \<and> 0 \<notin> set s \<and> rc_data c = s @ [0]"
| "col_value vt c (CharV b) \<longleftrightarrow> vt = VT_CHAR \<and> rc_data c = [b] \<and> b \<noteq> 0"
| "col_value vt c (BoolV b) \<longleftrightarrow> vt = VT_BOOL \<and> rc_data c = [if b then char_T else char_F]"

lemma str_at_iff: "str_at m p s \<longleftrightarrow> 0 \<notin> set s \<and> (\<forall>i < length s. m (p + of_nat i) = Some (s ! i)) \<and> m (p + of_nat (length s)) = Some 0"
proof (induction s arbitrary: p)
  case (Cons b s)
  have "(\<forall>i < length (b # s). m (p + of_nat i) = Some ((b # s) ! i)) \<longleftrightarrow>
      m p = Some b \<and> (\<forall>i < length s. m (p + 1 + of_nat i) = Some (s ! i))"
    by (simp add: All_less_Suc2 add.assoc)
  then show ?case using Cons [of "p + 1"] by (auto simp: add.assoc)
qed simp

lemma store_bytes_in: "i < length bs \<Longrightarrow> length bs < 2 ^ 64 \<Longrightarrow> store_bytes a bs m (a + of_nat i) = Some (bs ! i)"
  by (simp add: store_bytes_def unat_of_nat take_bit_nat_eq_self)

lemma str_at_stored:
  assumes "0 \<notin> set s" "length s + length t < 2 ^ 63"
  shows "str_at (store_bytes a (s @ 0 # t) m) a s"
  using assms store_bytes_in [of _ "s @ 0 # t" a m] by (auto simp: str_at_iff nth_append)

lemma zstr_str_at:
  assumes "str_at m p s" "length s + 49 < 2 ^ 31"
  shows "zstr m p = Some (s @ [0])"
proof -
  have "load_bytes m p (Suc (length s)) = Some (s @ [0])"
    using assms(1) by (induction m p s rule: str_at.induct) auto
  then show ?thesis using assms by (simp add: zstr_def strlen_str_at ROW_COLUMN_HEADER_SIZE_def)
qed

section \<open>Insert and read\<close>

definition blk_ok :: "(nat \<Rightarrow> RowColumnData) \<Rightarrow> bool" where
  "blk_ok blk \<longleftrightarrow> (\<forall>n. length (rc_data (blk n)) = n)"

definition filled :: "(nat \<Rightarrow> RowColumnData) \<Rightarrow> byte list \<Rightarrow> i32 \<Rightarrow> RowColumnData" where
  "filled blk bs attr = (new_column blk (length bs) attr)\<lparr>rc_data := bs\<rparr>"

lemma put_data_new: "blk_ok blk \<Longrightarrow> length bs = n \<Longrightarrow> put_data bs (new_column blk n attr) = Some (filled blk bs attr)"
  by (auto simp: put_data_def new_column_def blk_ok_def filled_def)

lemma filled_ok: "rc_data (filled blk bs attr) = bs" "length bs + 48 < 2 ^ 28 \<Longrightarrow> col_ok (filled blk bs attr)"
  using sint_of_int32 [of "int (48 + length bs)"]
  by (simp_all add: filled_def new_column_def col_ok_def ROW_COLUMN_HEADER_SIZE_def)

lemma TransformConst_value:
  assumes "blk_ok blk" "value_at (cd_type cd) m (cv_val cv) v"
  shows "\<exists>c. TransformConstValueRowData fl_int blk m cv cd attr = Some (Some c) \<and> col_value (cd_type cd) c v \<and> col_ok c"
proof (cases v)
  case (IntV i)
  then have "TransformConstValueRowData fl_int blk m cv cd attr = Some (Some (filled blk (bytes_of 4 (iData (cv_val cv))) attr))"
    using assms by (auto simp: TransformConstValueRowData_def put_data_new is_int_def)
  then show ?thesis using assms(2) IntV by (simp add: filled_ok)
next
  case (StrV s)
  then have "zstr m (cv_val cv) = Some (s @ [0])" using assms(2) by (intro zstr_str_at) auto
  then have "TransformConstValueRowData fl_int blk m cv cd attr = Some (Some (filled blk (s @ [0]) attr))"
    using assms StrV by (auto simp: TransformConstValueRowData_def put_data_new is_str_def)
  then show ?thesis using assms(2) StrV by (simp add: filled_ok str_at_iff)
next
  case (CharV b)
  then obtain n where "strlen m (cv_val cv) = Some n" "0 < n" "n < 2 ^ 31" "m (cv_val cv) = Some b" "cd_type cd = VT_CHAR"
    using assms(2) by (auto split: option.splits)
  then have "TransformConstValueRowData fl_int blk m cv cd attr = Some (Some (filled blk [b] attr))"
    using assms(1) by (simp add: TransformConstValueRowData_def trunc_int_small put_data_new)
  then show ?thesis using assms(2) CharV by (simp add: filled_ok)
next
  case (BoolV b)
  then have "TransformConstValueRowData fl_int blk m cv cd attr = Some (Some (filled blk [if b then char_T else char_F] attr))"
    using assms by (simp add: TransformConstValueRowData_def put_data_new)
  then show ?thesis using assms(2) BoolV by (simp add: filled_ok)
qed

lemma read_data_behind: "n \<le> length (rc_data c) + length (behind c) \<Longrightarrow> read_data behind c n = Some (take n (rc_data c @ behind c))"
  by (simp add: read_data_def)

lemma Translate_value:
  assumes "col_value vt c v" "col_ok c" "48 \<le> length (behind c)" "addr (blocks w) \<noteq> 0"
  shows "\<exists>d' w'. TranslateRawColumnData addr behind c vt d w = Some (d', w') \<and> value_at vt (wbytes w') d' v"
proof (cases v)
  case (IntV i)
  then show ?thesis using assms
    by (auto simp: TranslateRawColumnData_def is_int_def read_data_behind)
next
  case (StrV s)
  let ?n = "48 + length (rc_data c)"
  have c: "is_str vt" "0 \<notin> set s" "rc_data c = s @ [0]" "length s < 2 ^ 28 - 49"
    using assms(1,2) StrV by (simp_all add: col_ok_def)
  have "sint (rc_size c) = int ?n" by (rule col_okD(2) [OF assms(2)])
  then have sz: "\<not> sint (rc_size c) < 0" "nat (sint (rc_size c)) = ?n" by linarith+
  obtain t where t: "take ?n (rc_data c @ behind c) = s @ 0 # t" "length t = 48"
    using assms(3) c(3) by (intro that [of "take 48 (behind c)"]) simp_all
  have "TranslateRawColumnData addr behind c vt d w = Some (AllocCopy addr (s @ 0 # t) w)"
    using c(1) sz t(1) assms(3) by (auto simp: TranslateRawColumnData_def is_str_def read_data_behind)
  moreover have "str_at (store_bytes a (s @ 0 # t) m) a s" for a m
    using c(2,4) t(2) by (intro str_at_stored) simp_all
  ultimately show ?thesis using c(1,4) StrV assms(4) by (simp add: AllocCopy_def)
next
  case (CharV b)
  then have c: "vt = VT_CHAR" "rc_data c = [b]" "b \<noteq> 0" using assms(1) by simp_all
  have "str_at (store_bytes a [b, 0] m) a [b]" for a m
    using str_at_stored [of "[b]" "[]" a m] c(3) by simp
  from strlen_str_at [OF this] this show ?thesis using c CharV
    by (simp add: TranslateRawColumnData_def read_data_behind AllocCopy_def)
next
  case (BoolV b)
  then show ?thesis using assms
    by (auto simp: TranslateRawColumnData_def read_data_behind char_T_def char_F_def)
qed

section \<open>Rows of an insert statement\<close>

lemma column_index_nth: "distinct fs \<Longrightarrow> j < length fs \<Longrightarrow> column_index (fs ! j) fs k = k + int j"
  by (induction fs arbitrary: j k) (auto simp: less_Suc_eq_0_disj nth_eq_iff_index_eq)

lemma column_index_none: "name \<notin> set fs \<Longrightarrow> column_index name fs k = -1"
  by (induction fs arbitrary: k) auto

lemma GetDataByIndex_nth: "j < length vals \<Longrightarrow> GetDataByIndex (1 + int j) vals = Some (vals ! j)"
  by (simp add: GetDataByIndex_def)

text \<open>The values of the named columns: \<open>vs\<close> lists what the constants stand for.\<close>

definition values_fit :: "cmem \<Rightarrow> ColumnDefInfo list \<Rightarrow> string list \<Rightarrow> ConstValue list \<Rightarrow> sql_value list \<Rightarrow> bool" where
  "values_fit m cds flds vals vs \<longleftrightarrow> distinct flds \<and> length vals = length flds \<and> length vs = length flds \<and>
     (\<forall>cd \<in> set cds. \<forall>j < length flds. flds ! j = colName cd \<longrightarrow> value_at (cd_type cd) m (cv_val (vals ! j)) (vs ! j))"

definition holds_field :: "string list \<Rightarrow> sql_value list \<Rightarrow> ColumnDefInfo \<Rightarrow> RowColumnData \<Rightarrow> bool" where
  "holds_field flds vs cd c \<longleftrightarrow> (colName cd \<notin> set flds \<longrightarrow> rc_data c = []) \<and>
     (\<forall>j < length flds. flds ! j = colName cd \<longrightarrow> col_value (cd_type cd) c (vs ! j)) \<and> col_ok c"

lemma new_column_empty: "blk_ok blk \<Longrightarrow> rc_data (new_column blk 0 attr) = [] \<and> col_ok (new_column blk 0 attr)"
  by (auto simp: new_column_def blk_ok_def col_ok_def ROW_COLUMN_HEADER_SIZE_def)

lemma values_loop_cols:
  assumes "blk_ok blk" "values_fit m cds flds vals vs"
  shows "\<exists>cs sz. values_loop fl_int blk m cds (Some flds) vals i = Some (Some (cs, sz)) \<and> list_all2 (holds_field flds vs) cds cs"
  using assms(2)
proof (induction cds arbitrary: i)
  case (Cons cd cds)
  have "values_fit m cds flds vals vs" using Cons.prems by (simp add: values_fit_def)
  from Cons.IH [OF this] obtain cs sz where
    r: "values_loop fl_int blk m cds (Some flds) vals (Suc i) = Some (Some (cs, sz))" "list_all2 (holds_field flds vs) cds cs" by blast
  show ?case
  proof (cases "colName cd \<in> set flds")
    case False
    then have "holds_field flds vs cd (new_column blk 0 (of_nat i))"
      using new_column_empty [OF assms(1)] nth_mem by (fastforce simp: holds_field_def)
    then show ?thesis using r False by (simp add: GetColumnRefIndexByName_def column_index_none Let_def)
  next
    case True
    then obtain j where j: "j < length flds" "flds ! j = colName cd" by (auto simp: in_set_conv_nth)
    note fit = Cons.prems [unfolded values_fit_def]
    have ix: "GetColumnRefIndexByName (colName cd) (Some flds) = 1 + int j"
      using column_index_nth [of flds j 1] fit j by (simp add: GetColumnRefIndexByName_def)
    obtain c where c: "TransformConstValueRowData fl_int blk m (vals ! j) cd (of_nat i) = Some (Some c)" "col_value (cd_type cd) c (vs ! j)" "col_ok c"
      using TransformConst_value [OF assms(1)] fit j by (metis list.set_intros(1))
    have "j' = j" if "j' < length flds" "flds ! j' = colName cd" for j'
      using that j fit by (metis nth_eq_iff_index_eq)
    then have "holds_field flds vs cd c" using c True by (auto simp: holds_field_def)
    then show ?thesis using r c(1) ix GetDataByIndex_nth [of j vals] j fit by simp
  qed
qed simp

text \<open>C31: When the constants of an insert statement fit the columns they are for, the row that is formed has
  a column for each column of the table: without data where the statement names no value, and
  otherwise with data from which an expression reads the value back, whatever the memory behind the
  column holds. The allocation of memory does not return the null pointer.\<close>

theorem inserted_row_reads_back:
  assumes "blk_ok blk" "values_fit m cds flds vals vs" "\<forall>c. 48 \<le> length (behind c)" "\<forall>k. addr k \<noteq> 0"
  shows "\<exists>row. ValuesFormRowData fl_int blk old m cds (Some flds) vals = Some (Some row) \<and>
     length (columnData row) = length cds \<and>
     (\<forall>i < length cds. \<exists>c. columnData row ! i = Some c \<and> (colName (cds ! i) \<notin> set flds \<longrightarrow> rc_data c = []) \<and>
        (\<forall>j < length flds. flds ! j = colName (cds ! i) \<longrightarrow>
          (\<exists>d' w'. TranslateRawColumnData addr behind c (cd_type (cds ! i)) d w = Some (d', w') \<and>
             value_at (cd_type (cds ! i)) (wbytes w') d' (vs ! j))))"
proof -
  obtain cs sz where r: "values_loop fl_int blk m cds (Some flds) vals 0 = Some (Some (cs, sz))" "list_all2 (holds_field flds vs) cds cs"
    using values_loop_cols [OF assms(1,2)] by blast
  have "length cs = length cds" using r(2) by (simp add: list_all2_lengthD)
  moreover have "(colName (cds ! i) \<notin> set flds \<longrightarrow> rc_data (cs ! i) = []) \<and>
        (\<forall>j < length flds. flds ! j = colName (cds ! i) \<longrightarrow>
          (\<exists>d' w'. TranslateRawColumnData addr behind (cs ! i) (cd_type (cds ! i)) d w = Some (d', w') \<and>
             value_at (cd_type (cds ! i)) (wbytes w') d' (vs ! j)))" if "i < length cds" for i
  proof -
    have "holds_field flds vs (cds ! i) (cs ! i)" using r(2) that by (simp add: list_all2_conv_all_nth)
    then show ?thesis
      using assms(3,4) Translate_value by (auto simp: holds_field_def)
  qed
  ultimately show ?thesis using r(1) by (simp add: ValuesFormRowData_def)
qed

definition zero_blk :: "nat \<Rightarrow> RowColumnData" where
  "zero_blk n = \<lparr>rc_size = 0, attrindex = 0, headerData = zero_header, rc_data = replicate n 0\<rparr>"

lemma zero_blk_ok: "blk_ok zero_blk"
  by (simp add: blk_ok_def zero_blk_def)

definition person :: "ColumnDefInfo list" where
  "person = [\<lparr>colName = ''id'', cd_type = VT_INT\<rparr>, \<lparr>colName = ''age'', cd_type = VT_INT\<rparr>, \<lparr>colName = ''name'', cd_type = VT_VARCHAR\<rparr>]"

text \<open>\<open>insert into person (name, id) values ('ab', -3)\<close>: the column \<open>age\<close> stays without data.\<close>

theorem inserted_row_reads_back_witness:
  "\<exists>row. ValuesFormRowData (\<lambda>_. 0) zero_blk 0 two_strings person (Some [''name'', ''id''])
       [\<lparr>cv_val = 16, cv_vt = VT_STRING, cv_isnull = 0\<rparr>, \<lparr>cv_val = 0xFFFFFFFD, cv_vt = VT_INT, cv_isnull = 0\<rparr>] = Some (Some row) \<and>
     length (columnData row) = 3 \<and> (\<exists>c. columnData row ! 1 = Some c \<and> rc_data c = []) \<and>
     (\<exists>c d' w'. columnData row ! 2 = Some c \<and>
        TranslateRawColumnData (\<lambda>_. 4096) (\<lambda>_. replicate 48 7) c VT_VARCHAR 0 \<lparr>wbytes = Map.empty, blocks = 0\<rparr> = Some (d', w') \<and>
        value_at VT_VARCHAR (wbytes w') d' (StrV [97, 98]))"
proof -
  let ?vals = "[\<lparr>cv_val = 16, cv_vt = VT_STRING, cv_isnull = 0\<rparr>, \<lparr>cv_val = 0xFFFFFFFD, cv_vt = VT_INT, cv_isnull = 0\<rparr>]"
  have "values_fit two_strings person [''name'', ''id''] ?vals [StrV [97, 98], IntV (-3)]"
    by (simp add: values_fit_def person_def All_less_Suc2 two_strings_def is_str_def is_int_def iData_def)
  from inserted_row_reads_back [OF zero_blk_ok this, of "\<lambda>_. replicate 48 7" "\<lambda>_. 4096" "\<lambda>_. 0" 0 0 "\<lparr>wbytes = Map.empty, blocks = 0\<rparr>"]
  obtain row where row: "ValuesFormRowData (\<lambda>_. 0) zero_blk 0 two_strings person (Some [''name'', ''id'']) ?vals = Some (Some row)"
    "length (columnData row) = length person"
    and cols: "\<forall>i < length person. \<exists>c. columnData row ! i = Some c \<and> (colName (person ! i) \<notin> set [''name'', ''id''] \<longrightarrow> rc_data c = []) \<and>
        (\<forall>j < length [''name'', ''id'']. [''name'', ''id''] ! j = colName (person ! i) \<longrightarrow>
          (\<exists>d' w'. TranslateRawColumnData (\<lambda>_. 4096) (\<lambda>_. replicate 48 7) c (cd_type (person ! i)) 0 \<lparr>wbytes = Map.empty, blocks = 0\<rparr> = Some (d', w') \<and>
             value_at (cd_type (person ! i)) (wbytes w') d' ([StrV [97, 98], IntV (-3)] ! j)))"
    by auto
  have "\<exists>c. columnData row ! 1 = Some c \<and> rc_data c = []"
    using cols [rule_format, of 1] by (auto simp: person_def)
  moreover have "\<exists>c d' w'. columnData row ! 2 = Some c \<and>
        TranslateRawColumnData (\<lambda>_. 4096) (\<lambda>_. replicate 48 7) c VT_VARCHAR 0 \<lparr>wbytes = Map.empty, blocks = 0\<rparr> = Some (d', w') \<and>
        value_at VT_VARCHAR (wbytes w') d' (StrV [97, 98])"
    using cols [rule_format, of 2] by (simp add: person_def All_less_Suc2)
  ultimately show ?thesis using row by (simp add: person_def)
qed

section \<open>Values of an update statement\<close>

text \<open>Setting a column to a constant works for integers only. The column of a string gets more bytes than
  it has room for, a character is taken for an address, and a float or a boolean is written to the
  data of the null pointer. The memory below address 256 is not mapped, and a new value is zero.\<close>

theorem set_value_only_integers:
  assumes "TransformConstExprValue addr fl_int 0 cv w = Some (Some e, w')" "blk_ok blk" "\<forall>a < 256. wbytes w' a = None"
  shows "transFormExpr2RowColumnData blk (wbytes w') (Some e) attr =
     (if is_int (cv_vt cv) then Some (Some (filled blk (bytes_of 4 (iData (cv_val cv))) attr)) else None)"
proof -
  have str: "transFormExpr2RowColumnData blk m (Some e) attr = None" if "edType e = VT_STRING" for m
  proof -
    have "length bs = n" if "load_bytes m p n = Some bs" for p n bs
      using that by (induction n arbitrary: p bs) (auto split: bind_splits)
    then show ?thesis using that assms(2)
      by (fastforce simp: transFormExpr2RowColumnData_def put_data_def new_column_def blk_ok_def ROW_COLUMN_HEADER_SIZE_def split: bind_splits)
  qed
  have char: "wbytes w' (set_cData b 0) = None" for b
  proof -
    have "set_cData b 0 = ucast b" by (simp add: set_cData_def)
    moreover have "(ucast b :: u64) < 256"
      using uint_lt2p [of b] by (simp add: word_less_def unsigned_ucast_eq take_bit_int_eq_self)
    ultimately show ?thesis using assms(3) by simp
  qed
  consider (ints) "is_int (cv_vt cv)" "edType e = VT_INTEGER" "edData e = set_iData (iData (cv_val cv)) 0"
    | (strings) "\<not> is_int (cv_vt cv)" "edType e = VT_STRING"
    | (chars) b where "\<not> is_int (cv_vt cv)" "edType e = VT_CHAR" "edData e = set_cData b 0"
    | (floats) "\<not> is_int (cv_vt cv)" "edType e = VT_FLOAT"
    using assms(1) by (cases "cv_vt cv") (auto simp: TransformConstExprValue_def is_int_def AllocCopy_def split: bind_splits)
  then show ?thesis
    by cases (use assms(2) str char in \<open>simp_all add: transFormExpr2RowColumnData_def put_data_new Let_def\<close>)
qed

theorem set_value_only_integers_witness:
  "transFormExpr2RowColumnData zero_blk Map.empty (Some \<lparr>edType = VT_INTEGER, edSize = 4, edData = 42\<rparr>) 0 =
     Some (Some (filled zero_blk (bytes_of 4 (42 :: i32)) 0)) \<and>
   transFormExpr2RowColumnData zero_blk Map.empty (Some \<lparr>edType = VT_FLOAT, edSize = 1, edData = 84\<rparr>) 0 = None"
  using set_value_only_integers [of "\<lambda>_. 4096" "\<lambda>_. 0" "\<lparr>cv_val = 42, cv_vt = VT_INT, cv_isnull = 0\<rparr>" "\<lparr>wbytes = Map.empty, blocks = 0\<rparr>"
      "\<lparr>edType = VT_INTEGER, edSize = 4, edData = 42\<rparr>" "\<lparr>wbytes = Map.empty, blocks = 0\<rparr>" zero_blk 0]
    set_value_only_integers [of "\<lambda>_. 4096" "\<lambda>_. 0" "\<lparr>cv_val = 1, cv_vt = VT_BOOL, cv_isnull = 0\<rparr>" "\<lparr>wbytes = Map.empty, blocks = 0\<rparr>"
      "\<lparr>edType = VT_FLOAT, edSize = 1, edData = 84\<rparr>" "\<lparr>wbytes = Map.empty, blocks = 0\<rparr>" zero_blk 0] zero_blk_ok
  by (simp add: TransformConstExprValue_def set_iData_def set_cData_def iData_def is_int_def char_T_def)

end
