(* ===== verification/Expressions.thy ===== *)
theory Expressions
  imports TableScan Tuples
begin

text \<open>
  The conditions of a query, after \<^verbatim>\<open>src/sqlcore/executor/execExpre.c\<close> and the functions of
  \<^verbatim>\<open>src/sqlcore/executor/scan/scan.c\<close> that find the column of a row.

  A condition is a tree; \<open>NullNode\<close> is the null pointer. Every step leaves its result in one register,
  \<^verbatim>\<open>resultExpreData\<close>, which the caller copies after each operand. A column reference takes the range
  table index from the node above it, which \<^verbatim>\<open>eState->subPlanNode\<close> records: the \<open>rindex\<close> of the node for
  its left operand and the \<open>rrindex\<close> for its right one. A \<^verbatim>\<open>MergerEntry\<close> is read as an \<^verbatim>\<open>ExprEntry\<close> there, and
  has \<^verbatim>\<open>isJoin\<close> at the place of \<^verbatim>\<open>rrindex\<close>. Above the whole condition there is the plan node, which has
  neither; reading it as an \<^verbatim>\<open>ExprEntry\<close> has no result.
\<close>

section \<open>Rows of several tables\<close>

type_synonym dbst = "nat \<Rightarrow> tblst"

text \<open>A pointer to the description of a table is a number, and 0 the null pointer.\<close>

record RangTblEntry =
  rte_tblInfo :: nat
  rte_rindex :: int

record TableRowDataPosition =
  rowNum :: int
  tp_rindex :: int
  tp_tblInfo :: nat
  scanPostionInfo :: ScanPageInfo
  tp_rowData :: TableRowData

record ScanTableRowData =
  tableNum :: int
  tableRowData :: "TableRowDataPosition option list"

text \<open>The range table counts from one.\<close>

definition GetCellValueByIndex :: "'a list option \<Rightarrow> int \<Rightarrow> 'a option" where
  "GetCellValueByIndex xs index =
     (case xs of None \<Rightarrow> None | Some xs \<Rightarrow> if 1 \<le> index then arr_get xs (index - 1) else None)"

text \<open>
  The loop over the tables of a row. After the last table the source also reads the pointer behind it,
  which it does not use.
\<close>

fun position_loop :: "TableRowDataPosition option list \<Rightarrow> nat \<Rightarrow> nat \<Rightarrow> int \<Rightarrow> TableRowDataPosition option option" where
  "position_loop ps 0 tbl rindex = Some None"
| "position_loop [] (Suc n) tbl rindex = None"
| "position_loop (None # ps) (Suc n) tbl rindex = Some None"
| "position_loop (Some p # ps) (Suc n) tbl rindex =
     (if tbl = tp_tblInfo p \<and> rindex = tp_rindex p then Some (Some p) else position_loop ps n tbl rindex)"

definition GetTblRowDataPosition :: "ScanTableRowData option \<Rightarrow> nat \<Rightarrow> int \<Rightarrow> TableRowDataPosition option option" where
  "GetTblRowDataPosition row tbl rindex =
     (case row of
        None \<Rightarrow> Some None
      | Some row \<Rightarrow>
          if tbl = 0 then Some None else position_loop (tableRowData row) (nat (tableNum row)) tbl rindex)"

text \<open>The place of a column among the scanned columns.\<close>

fun column_loop :: "int list \<Rightarrow> nat \<Rightarrow> nat \<Rightarrow> int \<Rightarrow> nat option option" where
  "column_loop cols i 0 attr = Some None"
| "column_loop cols i (Suc n) attr = do {
     c \<leftarrow> arr_get cols (int i);
     if attr = c then Some (Some i) else column_loop cols (Suc i) n attr }"

text \<open>
  \<^verbatim>\<open>GetColRowDataEx\<close> for the first row and without a place for the position: the column, whether it was
  among the scanned columns, and the state of the tables. A column that was not scanned is read from
  its page, at the item of the first scanned column.
\<close>

definition GetColRowDataEx :: "TableRowDataPosition \<Rightarrow> int \<Rightarrow> dbst \<Rightarrow> (RowColumnData option \<times> bool \<times> dbst) option" where
  "GetColRowDataEx tp attr db =
     (if rowNum tp \<le> 0 \<or> attr < 0 then Some (None, False, db)
      else do {
        let sc = scanPostionInfo tp;
        i \<leftarrow> column_loop (colindexList sc) 0 (nat (pageListNum sc)) attr;
        case i of
          Some i \<Rightarrow> do { c \<leftarrow> arr_get (columnData (tp_rowData tp)) (int i); Some (c, True, db) }
        | None \<Rightarrow> do {
            off \<leftarrow> (if pageListNum sc > 0 then map_option item_offset (arr_get (searchPageList sc) 0) else Some (-1));
            pno \<leftarrow> GetPageNoFromGroupInfo (groupPageInfo sc) attr (db (tp_tblInfo tp));
            (c, st) \<leftarrow> GetRowDataFromPageByIndexEx pno off (db (tp_tblInfo tp));
            Some (c, False, db(tp_tblInfo tp := st)) } })"

section \<open>Conditions\<close>

datatype BoolExprType = AND_EXPR | OR_EXPR | NOT_EXPR

datatype qual =
    NullNode
  | MergerEntry BoolExprType int int qual qual
  | ExprEntry A_A_Expr_Op_Type int int qual qual
  | ColumnRef valueType int
  | ConstNode ConstValue

text \<open>What does not change during the evaluation, and what does.\<close>

record qenv =
  q_floats :: floats
  q_addr :: "nat \<Rightarrow> u64"
  q_behind :: "RowColumnData \<Rightarrow> byte list"
  q_rtable :: "RangTblEntry list option"
  q_row :: "ScanTableRowData option"

record qst =
  resultExpreData :: ExprDataInfo
  q_mem :: wmem
  q_db :: dbst

definition zero_value :: ExprDataInfo where
  "zero_value = \<lparr>edType = VT_UNKNOWN, edSize = 0, edData = 0\<rparr>"

definition GetExprDataConstValue :: "ConstValue \<Rightarrow> qst \<Rightarrow> qst" where
  "GetExprDataConstValue cv s =
     s\<lparr>resultExpreData := \<lparr>edType = cv_vt cv, edSize = (if cv_isnull cv \<noteq> 0 then 0 else -1), edData = cv_val cv\<rparr>\<rparr>"

text \<open>The column that the range table index \<open>rindex\<close> and the attribute \<open>attr\<close> denote.\<close>

definition find_column :: "qenv \<Rightarrow> int \<Rightarrow> int \<Rightarrow> dbst \<Rightarrow> (RowColumnData option \<times> bool \<times> dbst) option" where
  "find_column env rindex attr db =
     (case GetCellValueByIndex (q_rtable env) rindex of
        None \<Rightarrow> Some (None, False, db)
      | Some rte \<Rightarrow> do {
          tp \<leftarrow> GetTblRowDataPosition (q_row env) (rte_tblInfo rte) (rte_rindex rte);
          case tp of None \<Rightarrow> Some (None, False, db) | Some tp \<Rightarrow> GetColRowDataEx tp attr db })"

definition GetExprDataColumnValue :: "qenv \<Rightarrow> valueType \<Rightarrow> int \<Rightarrow> (int \<times> int) option \<Rightarrow> bool \<Rightarrow> qst \<Rightarrow> (bool \<times> qst) option" where
  "GetExprDataColumnValue env vt attr parent left s = do {
     (rindex, rrindex) \<leftarrow> parent;
     (c, found, db) \<leftarrow> find_column env (if left then rindex else rrindex) attr (q_db s);
     case c of
       None \<Rightarrow> Some (False, s\<lparr>q_db := db\<rparr>)
     | Some c \<Rightarrow> do {
         (d, w) \<leftarrow> TranslateRawColumnData (q_addr env) (q_behind env) c vt (edData (resultExpreData s)) (q_mem s);
         Some (True, s\<lparr>resultExpreData := \<lparr>edType = vt, edSize = sint (rc_size c), edData = d\<rparr>, q_mem := w, q_db := db\<rparr>) } }"

text \<open>
  \<^verbatim>\<open>ProcessQualExprNode\<close> with \<^verbatim>\<open>ComputeBoolExprNode\<close>, \<^verbatim>\<open>ComputeExpreNode\<close> and \<^verbatim>\<open>GetExpreOperatorValue\<close>. The result says
  whether the returned pointer is not null. \<open>parent\<close> are the indexes of the node above, \<open>left\<close> that the
  node is its left operand.
\<close>

definition merge_bools :: "floats \<Rightarrow> BoolExprType \<Rightarrow> ExprDataInfo \<Rightarrow> ExprDataInfo \<Rightarrow> i32" where
  "merge_bools fl t l r =
     (case t of
        AND_EXPR \<Rightarrow> (if getDataBool fl (Some l) \<and> getDataBool fl (Some r) then 1 else 0)
      | OR_EXPR \<Rightarrow> (if getDataBool fl (Some l) \<or> getDataBool fl (Some r) then 1 else 0)
      | NOT_EXPR \<Rightarrow> (if getDataBool fl (Some l) then 0 else 1))"

fun ProcessQualExprNode :: "qenv \<Rightarrow> qual \<Rightarrow> (int \<times> int) option \<Rightarrow> bool \<Rightarrow> qst \<Rightarrow> (bool \<times> qst) option" where
  "ProcessQualExprNode env NullNode parent left s = Some (False, s)"
| "ProcessQualExprNode env (MergerEntry t rindex isJoin l r) parent left s = do {
     (lv, s) \<leftarrow> (if l = NullNode then Some (zero_value, s)
       else do { (_, s) \<leftarrow> ProcessQualExprNode env l (Some (rindex, isJoin)) True s; Some (resultExpreData s, s) });
     (rv, s) \<leftarrow> (if r = NullNode then Some (zero_value, s)
       else do { (_, s) \<leftarrow> ProcessQualExprNode env r (Some (rindex, isJoin)) False s; Some (resultExpreData s, s) });
     Some (True, s\<lparr>resultExpreData := int_result (merge_bools (q_floats env) t lv rv) (resultExpreData s)\<rparr>) }"
| "ProcessQualExprNode env (ExprEntry op rindex rrindex l r) parent left s = do {
     (lv, s) \<leftarrow> (if l = NullNode then Some (zero_value, s)
       else do { (_, s) \<leftarrow> ProcessQualExprNode env l (Some (rindex, rrindex)) True s; Some (resultExpreData s, s) });
     (rv, s) \<leftarrow> (if r = NullNode then Some (zero_value, s)
       else do { (_, s) \<leftarrow> ProcessQualExprNode env r (Some (rindex, rrindex)) False s; Some (resultExpreData s, s) });
     (b, res) \<leftarrow> ComputeExpr (q_floats env) (wbytes (q_mem s)) lv rv (resultExpreData s) op;
     Some (b, s\<lparr>resultExpreData := res\<rparr>) }"
| "ProcessQualExprNode env (ColumnRef vt attr) parent left s = GetExprDataColumnValue env vt attr parent left s"
| "ProcessQualExprNode env (ConstNode cv) parent left s = Some (True, GetExprDataConstValue cv s)"

text \<open>A whole condition, under the plan node.\<close>

definition ExecSelectQual :: "qenv \<Rightarrow> qual \<Rightarrow> qst \<Rightarrow> (bool \<times> qst) option" where
  "ExecSelectQual env q s = ProcessQualExprNode env q None False s"

section \<open>Memory during the evaluation\<close>

text \<open>
  No column has more than \<open>BLOCK_MAX\<close> bytes. The first \<open>N\<close> blocks have room for this many bytes without
  a clash with each other or with the memory \<open>m0\<close> in which the constants of the query lie.
\<close>

definition BLOCK_MAX :: nat where "BLOCK_MAX = 2 ^ 28"

definition in_block :: "(nat \<Rightarrow> u64) \<Rightarrow> nat \<Rightarrow> u64 \<Rightarrow> bool" where
  "in_block addr k p \<longleftrightarrow> unat (p - addr k) < BLOCK_MAX"

definition blocks_free :: "(nat \<Rightarrow> u64) \<Rightarrow> cmem \<Rightarrow> nat \<Rightarrow> bool" where
  "blocks_free addr m0 N \<longleftrightarrow> (\<forall>k < N. addr k \<noteq> 0 \<and> (\<forall>p. in_block addr k p \<longrightarrow> m0 p = None \<and> (\<forall>j < k. \<not> in_block addr j p)))"

definition mem_ok :: "(nat \<Rightarrow> u64) \<Rightarrow> cmem \<Rightarrow> wmem \<Rightarrow> bool" where
  "mem_ok addr m0 w \<longleftrightarrow> m0 \<subseteq>\<^sub>m wbytes w \<and> (\<forall>p \<in> dom (wbytes w). p \<in> dom m0 \<or> (\<exists>k < blocks w. in_block addr k p))"

lemma AllocCopy_ok:
  assumes "blocks_free addr m0 N" "mem_ok addr m0 w" "blocks w < N" "length bs \<le> BLOCK_MAX" "AllocCopy addr bs w = (d, w')"
  shows "mem_ok addr m0 w'" "wbytes w \<subseteq>\<^sub>m wbytes w'" "blocks w' = Suc (blocks w)" "d \<noteq> 0"
proof -
  let ?k = "blocks w"
  have w': "d = addr ?k" "wbytes w' = store_bytes (addr ?k) bs (wbytes w)" "blocks w' = Suc ?k"
    using assms(5) by (auto simp: AllocCopy_def)
  have free: "wbytes w p = None" if "in_block addr ?k p" for p
    using assms(1-3) that unfolding blocks_free_def mem_ok_def by blast
  have in_b: "in_block addr ?k p" if "unat (p - addr ?k) < length bs" for p
    using that assms(4) by (simp add: in_block_def)
  show le: "wbytes w \<subseteq>\<^sub>m wbytes w'"
    using free in_b unfolding w' map_le_def store_bytes_def by (metis domIff)
  have "p \<in> dom m0 \<or> (\<exists>k < Suc ?k. in_block addr k p)" if "p \<in> dom (wbytes w')" for p
  proof (cases "unat (p - addr ?k) < length bs")
    case True
    then show ?thesis using in_b by blast
  next
    case False
    then have "p \<in> dom (wbytes w)" using that by (simp add: w' store_bytes_def dom_def)
    then show ?thesis using assms(2) unfolding mem_ok_def by (meson less_Suc_eq)
  qed
  then show "mem_ok addr m0 w'"
    using assms(2) le w'(3) by (auto simp: mem_ok_def intro: map_le_trans)
  show "blocks w' = Suc ?k" "d \<noteq> 0" using assms(1,3) w' by (auto simp: blocks_free_def)
qed

lemma Translate_ok:
  assumes "blocks_free addr m0 N" "mem_ok addr m0 w" "blocks w < N" "col_value vt c v" "col_ok c" "48 \<le> length (behind c)"
  shows "\<exists>d' w'. TranslateRawColumnData addr behind c vt d w = Some (d', w') \<and> value_at vt (wbytes w') d' v \<and>
     mem_ok addr m0 w' \<and> wbytes w \<subseteq>\<^sub>m wbytes w' \<and> blocks w' \<le> Suc (blocks w)"
proof -
  have "addr (blocks w) \<noteq> 0" using assms(1,3) by (simp add: blocks_free_def)
  from Translate_value [of vt c v behind addr w d, OF assms(4-6) this] obtain d' w' where
    t: "TranslateRawColumnData addr behind c vt d w = Some (d', w')" "value_at vt (wbytes w') d' v" by blast
  have "w' = w \<or> (\<exists>bs. length bs \<le> BLOCK_MAX \<and> (d', w') = AllocCopy addr bs w)"
  proof (cases v)
    case (StrV s)
    have "nat (sint (rc_size c)) \<le> BLOCK_MAX" using assms(5) by (auto simp: col_ok_def BLOCK_MAX_def ROW_COLUMN_HEADER_SIZE_def)
    moreover obtain bs where "read_data behind c (nat (sint (rc_size c))) = Some bs" "(d', w') = AllocCopy addr bs w"
      using t(1) assms(4) StrV by (auto simp: TranslateRawColumnData_def is_str_def split: if_splits bind_splits)
    ultimately show ?thesis by (intro disjI2 exI [of _ bs]) (auto simp: read_data_def split: if_splits)
  next
    case (CharV b)
    then show ?thesis
      using t(1) assms(4) by (auto simp: TranslateRawColumnData_def read_data_def Let_def BLOCK_MAX_def intro!: exI [of _ "[b, 0]"] split: if_splits)
  qed (use t(1) assms(4) in \<open>auto simp: TranslateRawColumnData_def is_int_def split: bind_splits\<close>)
  then have "mem_ok addr m0 w' \<and> wbytes w \<subseteq>\<^sub>m wbytes w' \<and> blocks w' \<le> Suc (blocks w)"
  proof
    assume "\<exists>bs. length bs \<le> BLOCK_MAX \<and> (d', w') = AllocCopy addr bs w"
    then obtain bs where "length bs \<le> BLOCK_MAX" "AllocCopy addr bs w = (d', w')" by metis
    from AllocCopy_ok [OF assms(1-3) this] show ?thesis by simp
  qed (use assms(2) in simp)
  then show ?thesis using t by blast
qed

lemma strlen_Some_str_at: "strlen m p = Some n \<Longrightarrow> \<exists>s. str_at m p s \<and> length s = n"
proof (rule strlen.raw_induct [of "\<lambda>m p n. \<exists>s. str_at m p s \<and> length s = n"])
  fix self :: "cmem \<Rightarrow> u64 \<Rightarrow> nat option" and m p n
  assume IH: "\<And>m p n. self m p = Some n \<Longrightarrow> \<exists>s. str_at m p s \<and> length s = n"
    and body: "(do { b \<leftarrow> m p; if b = 0 then Some 0 else do { n \<leftarrow> self m (p + 1); Some (Suc n) } }) = Some n"
  from body obtain b where b: "m p = Some b" by (auto split: bind_splits)
  show "\<exists>s. str_at m p s \<and> length s = n"
  proof (cases "b = 0")
    case True
    then show ?thesis using body b by (intro exI [of _ "[]"]) simp
  next
    case False
    then obtain k where k: "self m (p + 1) = Some k" "n = Suc k" using body b by (auto split: bind_splits)
    from IH [OF k(1)] obtain s where "str_at m (p + 1) s" "length s = k" by blast
    then show ?thesis using b False k(2) by (intro exI [of _ "b # s"]) simp
  qed
qed

lemma map_le_Some: "m \<subseteq>\<^sub>m m' \<Longrightarrow> m p = Some b \<Longrightarrow> m' p = Some b"
  by (metis domI map_le_def)

lemma str_at_mono: "str_at m p s \<Longrightarrow> m \<subseteq>\<^sub>m m' \<Longrightarrow> str_at m' p s"
  by (induction m p s rule: str_at.induct) (auto simp: map_le_Some)

lemma value_at_mono: "value_at vt m d v \<Longrightarrow> m \<subseteq>\<^sub>m m' \<Longrightarrow> value_at vt m' d v"
proof (cases v)
  case (CharV b)
  assume v: "value_at vt m d v" and le: "m \<subseteq>\<^sub>m m'"
  obtain n where n: "strlen m d = Some n" using v CharV by (auto split: option.splits)
  then obtain s where "str_at m d s" "length s = n" using strlen_Some_str_at by blast
  then have "strlen m' d = Some n" using str_at_mono [OF _ le] strlen_str_at by metis
  then show "value_at vt m' d v" using v n CharV map_le_Some [OF le] by auto
qed (auto simp: str_at_mono)

section \<open>Direct evaluation\<close>

fun truth_of :: "sql_value \<Rightarrow> bool option" where
  "truth_of (IntV i) = Some (i \<noteq> 0)"
| "truth_of (BoolV b) = Some b"
| "truth_of _ = None"

fun apply_op :: "A_A_Expr_Op_Type \<Rightarrow> sql_value \<Rightarrow> sql_value \<Rightarrow> sql_value option" where
  "apply_op op (IntV a) (IntV b) =
     (if op \<in> {LESS, BOOLVALUE, Op_Type_MAX} \<or> (op \<in> {DIVISIION, MOD} \<and> (b = 0 \<or> \<not> in_int (int_math DIVISIION a b))) \<or>
         \<not> in_int (int_math op a b) then None
      else Some (IntV (int_math op a b)))"
| "apply_op op (StrV s) (StrV t) =
     (if op \<in> {LESS_EQUAL, EQUAL, GREATER_EQUAL, GREATER} then Some (IntV (of_bool (str_holds op s t))) else None)"
| "apply_op op _ _ = None"

text \<open>\<open>look\<close> gives the value of a column by its range table index, its attribute and its type, \<open>con\<close> the value of a constant.\<close>

fun qeval :: "(int \<Rightarrow> int \<Rightarrow> valueType \<Rightarrow> sql_value option) \<Rightarrow> (ConstValue \<Rightarrow> sql_value option) \<Rightarrow> qual \<Rightarrow> (int \<times> int) option \<Rightarrow> bool \<Rightarrow> sql_value option" where
  "qeval look con NullNode parent left = None"
| "qeval look con (MergerEntry t i j l r) parent left = do {
     a \<leftarrow> qeval look con l (Some (i, j)) True;
     a \<leftarrow> truth_of a;
     case t of
       NOT_EXPR \<Rightarrow> if r = NullNode then Some (IntV (of_bool (\<not> a))) else None
     | _ \<Rightarrow> do {
         b \<leftarrow> qeval look con r (Some (i, j)) False;
         b \<leftarrow> truth_of b;
         Some (IntV (of_bool (if t = AND_EXPR then a \<and> b else a \<or> b))) } }"
| "qeval look con (ExprEntry op i j l r) parent left = do {
     a \<leftarrow> qeval look con l (Some (i, j)) True;
     b \<leftarrow> qeval look con r (Some (i, j)) False;
     apply_op op a b }"
| "qeval look con (ColumnRef vt attr) parent left = do {
     (i, j) \<leftarrow> parent;
     look (if left then i else j) attr vt }"
| "qeval look con (ConstNode cv) parent left = con cv"

fun col_refs :: "qual \<Rightarrow> nat" where
  "col_refs NullNode = 0"
| "col_refs (MergerEntry t i j l r) = col_refs l + col_refs r"
| "col_refs (ExprEntry op i j l r) = col_refs l + col_refs r"
| "col_refs (ColumnRef vt attr) = 1"
| "col_refs (ConstNode cv) = 0"

section \<open>The register machine computes the direct evaluation\<close>

lemma truth_of_getDataBool:
  "truth_of v = Some b \<Longrightarrow> value_at (edType e) m (edData e) v \<Longrightarrow> getDataBool fl (Some e) = b"
  by (cases v) (auto simp: getDataBool_def is_int_def signed_eq_0_iff)

lemma ComputeExpr_apply_op:
  assumes "apply_op op a b = Some v" "value_at (edType l) m (edData l) a" "value_at (edType r) m (edData r) b"
  shows "\<exists>i. v = IntV i \<and> in_int i \<and> ComputeExpr fl m l r res op = Some (True, int_result (of_int i) res)"
proof (cases "(op, a, b)" rule: apply_op.cases)
  case (1 op' x y)
  then have v: "edType l = VT_INT \<or> edType l = VT_INTEGER" "ival l = x" "ival r = y" "op' = op"
    using assms(2,3) by (auto simp: is_int_def ival_def)
  have op: "op \<notin> {LESS, BOOLVALUE, Op_Type_MAX}" using assms(1) 1 by (auto split: if_splits)
  show ?thesis
    using ComputeExpr_ints [OF v(1) op, of fl m r res] assms(1) 1 v by (auto split: if_splits)
next
  case (2 op' s t)
  then have s: "edType l = VT_STRING \<or> edType l = VT_VARCHAR" "str_at m (edData l) s" "str_at m (edData r) t"
    "edData l \<noteq> 0" "edData r \<noteq> 0" "length s < 2 ^ 31" "length t < 2 ^ 31"
    using assms(2,3) by (auto simp: is_str_def)
  have op: "op \<in> {LESS_EQUAL, EQUAL, GREATER_EQUAL, GREATER}" using assms(1) 2 by (auto split: if_splits)
  then have "v = IntV (of_bool (str_holds op s t))" using assms(1) 2 by auto
  then show ?thesis
    using ComputeExpr_strings [OF s op, of fl res] by (auto simp: in_int_of_bool truth_def HAT_TRUE_def HAT_FALSE_def)
qed (use assms(1) in auto)

text \<open>What the evaluation needs: room for the strings, columns and constants with the values that \<open>look\<close> and \<open>con\<close> give them.\<close>

definition sees :: "qenv \<Rightarrow> dbst \<Rightarrow> cmem \<Rightarrow> (int \<Rightarrow> int \<Rightarrow> valueType \<Rightarrow> sql_value option) \<Rightarrow> (ConstValue \<Rightarrow> sql_value option) \<Rightarrow> bool" where
  "sees env db m0 look con \<longleftrightarrow>
     (\<forall>i attr vt v. look i attr vt = Some v \<longrightarrow> (\<exists>c. find_column env i attr db = Some (Some c, True, db) \<and> col_value vt c v \<and> col_ok c)) \<and>
     (\<forall>cv v. con cv = Some v \<longrightarrow> value_at (cv_vt cv) m0 (cv_val cv) v) \<and> (\<forall>c. 48 \<le> length (q_behind env c))"

text \<open>After an evaluation the register holds the value, and the memory has only grown.\<close>

definition evaluated :: "qenv \<Rightarrow> cmem \<Rightarrow> nat \<Rightarrow> sql_value \<Rightarrow> qst \<Rightarrow> qst \<Rightarrow> bool" where
  "evaluated env m0 n v s s' \<longleftrightarrow> value_at (edType (resultExpreData s')) (wbytes (q_mem s')) (edData (resultExpreData s')) v \<and>
     q_db s' = q_db s \<and> mem_ok (q_addr env) m0 (q_mem s') \<and> wbytes (q_mem s) \<subseteq>\<^sub>m wbytes (q_mem s') \<and>
     blocks (q_mem s') \<le> blocks (q_mem s) + n"

lemma evaluated_int:
  assumes "evaluated env m0 n a s s1" "in_int i"
  shows "evaluated env m0 n (IntV i) s (s1\<lparr>resultExpreData := int_result (of_int i) r\<rparr>)"
  using assms sint_of_int32 [of i] by (auto simp: evaluated_def is_int_def in_int_def int_result_def)

lemma evaluated_trans:
  assumes "evaluated env m0 n a s s1" "evaluated env m0 k b s1 s2"
  shows "evaluated env m0 (n + k) b s s2" "value_at (edType (resultExpreData s1)) (wbytes (q_mem s2)) (edData (resultExpreData s1)) a"
  using assms by (auto simp: evaluated_def intro: map_le_trans value_at_mono)

lemma merge_bools_truth:
  assumes "getDataBool fl (Some l) = a" "getDataBool fl (Some r) = b"
  shows "merge_bools fl AND_EXPR l r = of_int (of_bool (a \<and> b))" "merge_bools fl OR_EXPR l r = of_int (of_bool (a \<or> b))"
    "merge_bools fl NOT_EXPR l r' = of_int (of_bool (\<not> a))"
  using assms by (auto simp: merge_bools_def)

lemma ProcessQual_evaluates:
  assumes "sees env db m0 look con" "blocks_free (q_addr env) m0 N" "q_db s = db" "mem_ok (q_addr env) m0 (q_mem s)"
    and "blocks (q_mem s) + col_refs q \<le> N" "qeval look con q parent left = Some v"
  shows "\<exists>s'. ProcessQualExprNode env q parent left s = Some (True, s') \<and> evaluated env m0 (col_refs q) v s s'"
  using assms(3-6)
proof (induction q arbitrary: s parent left v)
  case NullNode
  then show ?case by simp
next
  case (MergerEntry t i j l r)
  from MergerEntry.prems(4) obtain a a' where a: "qeval look con l (Some (i, j)) True = Some a" "truth_of a = Some a'"
    by (auto split: bind_splits)
  then have l: "l \<noteq> NullNode" by auto
  obtain s1 where s1: "ProcessQualExprNode env l (Some (i, j)) True s = Some (True, s1)" "evaluated env m0 (col_refs l) a s s1"
    using MergerEntry.IH(1) [OF MergerEntry.prems(1,2) _ a(1)] MergerEntry.prems(3) by auto
  have la: "getDataBool fl (Some (resultExpreData s1)) = a'" for fl
    using truth_of_getDataBool [OF a(2)] s1(2) by (auto simp: evaluated_def)
  show ?case
  proof (cases "t = NOT_EXPR")
    case True
    then have "r = NullNode" "v = IntV (of_bool (\<not> a'))" using MergerEntry.prems(4) a by (auto split: if_splits)
    then show ?thesis
      using s1 l True merge_bools_truth(3) [OF la refl] evaluated_int [OF s1(2) in_int_of_bool] by auto
  next
    case False
    then obtain b b' where b: "qeval look con r (Some (i, j)) False = Some b" "truth_of b = Some b'"
      "v = IntV (of_bool (if t = AND_EXPR then a' \<and> b' else a' \<or> b'))"
      using MergerEntry.prems(4) a by (cases t) (auto split: bind_splits)
    then have r: "r \<noteq> NullNode" by auto
    obtain s2 where s2: "ProcessQualExprNode env r (Some (i, j)) False s1 = Some (True, s2)" "evaluated env m0 (col_refs r) b s1 s2"
      using MergerEntry.IH(2) [of s1, OF _ _ _ b(1)] s1(2) MergerEntry.prems by (auto simp: evaluated_def)
    have lb: "getDataBool fl (Some (resultExpreData s2)) = b'" for fl
      using truth_of_getDataBool [OF b(2)] s2(2) by (auto simp: evaluated_def)
    have mb: "merge_bools fl t (resultExpreData s1) (resultExpreData s2) = of_int (of_bool (if t = AND_EXPR then a' \<and> b' else a' \<or> b'))" for fl
      using merge_bools_truth(1,2) [OF la lb] False by (cases t) auto
    show ?thesis
      using s1(1) s2(1) l r evaluated_int [OF evaluated_trans(1) [OF s1(2) s2(2)] in_int_of_bool]
      by (simp add: mb b(3) del: of_int_of_bool)
  qed
next
  case (ExprEntry op i j l r)
  from ExprEntry.prems(4) obtain a b where a: "qeval look con l (Some (i, j)) True = Some a"
    and b: "qeval look con r (Some (i, j)) False = Some b" and v: "apply_op op a b = Some v"
    by (auto split: bind_splits)
  then have lr: "l \<noteq> NullNode" "r \<noteq> NullNode" by auto
  obtain s1 where s1: "ProcessQualExprNode env l (Some (i, j)) True s = Some (True, s1)" "evaluated env m0 (col_refs l) a s s1"
    using ExprEntry.IH(1) [OF ExprEntry.prems(1,2) _ a(1)] ExprEntry.prems(3) by auto
  obtain s2 where s2: "ProcessQualExprNode env r (Some (i, j)) False s1 = Some (True, s2)" "evaluated env m0 (col_refs r) b s1 s2"
    using ExprEntry.IH(2) [of s1, OF _ _ _ b(1)] s1(2) ExprEntry.prems by (auto simp: evaluated_def)
  note tr = evaluated_trans [OF s1(2) s2(2)]
  obtain k where k: "v = IntV k" "in_int k" "ComputeExpr (q_floats env) (wbytes (q_mem s2)) (resultExpreData s1) (resultExpreData s2) (resultExpreData s2) op =
      Some (True, int_result (of_int k) (resultExpreData s2))"
    using ComputeExpr_apply_op [OF v tr(2)] s2(2) unfolding evaluated_def by blast
  then show ?case using s1(1) s2(1) lr evaluated_int [OF tr(1)] by auto
next
  case (ColumnRef vt attr)
  then obtain i j where p: "parent = Some (i, j)" "look (if left then i else j) attr vt = Some v" by (auto split: bind_splits)
  obtain c where c: "find_column env (if left then i else j) attr db = Some (Some c, True, db)" "col_value vt c v" "col_ok c"
    using assms(1) p(2) unfolding sees_def by blast
  have "48 \<le> length (q_behind env c)" using assms(1) by (simp add: sees_def)
  from Translate_ok [of "q_addr env" m0 N "q_mem s" vt c v "q_behind env" "edData (resultExpreData s)", OF assms(2) ColumnRef.prems(2) _ c(2,3) this] ColumnRef.prems(3)
  show ?case using c(1) p(1) ColumnRef.prems(1)
    by (auto simp: GetExprDataColumnValue_def evaluated_def)
next
  case (ConstNode cv)
  then have "value_at (cv_vt cv) m0 (cv_val cv) v" using assms(1) by (simp add: sees_def)
  then show ?case using ConstNode.prems(2)
    by (auto simp: GetExprDataConstValue_def evaluated_def mem_ok_def intro: value_at_mono)
qed

section \<open>Conditions\<close>

text \<open>C33: The evaluation of a condition through the one result register agrees with its direct evaluation: when
  the direct evaluation over the values of the columns and constants has a value, the register holds
  it afterwards, and the register counts as true exactly when the value does. There has to be room
  for the strings that the evaluation copies, one for each reference to a column.\<close>

theorem condition_evaluates_directly:
  assumes "sees env (q_db s) m0 look con" "blocks_free (q_addr env) m0 N" "mem_ok (q_addr env) m0 (q_mem s)"
    and "blocks (q_mem s) + col_refs q \<le> N" "qeval look con q None False = Some v"
  shows "\<exists>s'. ExecSelectQual env q s = Some (True, s') \<and>
     value_at (edType (resultExpreData s')) (wbytes (q_mem s')) (edData (resultExpreData s')) v \<and>
     (\<forall>b. truth_of v = Some b \<longrightarrow> getDataBool (q_floats env) (Some (resultExpreData s')) = b)"
proof -
  obtain s' where "ProcessQualExprNode env q None False s = Some (True, s')" "evaluated env m0 (col_refs q) v s s'"
    using ProcessQual_evaluates [OF assms(1,2) refl assms(3-5)] by blast
  then show ?thesis
    using truth_of_getDataBool by (auto simp: ExecSelectQual_def evaluated_def)
qed

text \<open>A row of one table with the columns \<open>'ab'\<close> and 42, and the constant \<open>'z'\<close> at address 32.\<close>

definition name_column :: RowColumnData where
  "name_column = \<lparr>rc_size = 51, attrindex = 0, headerData = zero_header, rc_data = [97, 98, 0]\<rparr>"

definition sample_row :: ScanTableRowData where
  "sample_row = \<lparr>tableNum = 1, tableRowData = [Some \<lparr>rowNum = 1, tp_rindex = 1, tp_tblInfo = 7,
     scanPostionInfo = the (InitScanPositionInfo [0, 1] 2), tp_rowData = \<lparr>tr_size = 103, tr_num = 2, columnData = [Some name_column, Some (int_column 42)]\<rparr>\<rparr>]\<rparr>"

definition sample_env :: qenv where
  "sample_env = \<lparr>q_floats = some_floats, q_addr = (\<lambda>k. of_nat (Suc k) * 2 ^ 28), q_behind = (\<lambda>_. replicate 48 0),
     q_rtable = Some [\<lparr>rte_tblInfo = 7, rte_rindex = 1\<rparr>], q_row = Some sample_row\<rparr>"

definition sample_state :: qst where
  "sample_state = \<lparr>resultExpreData = zero_value, q_mem = \<lparr>wbytes = two_strings, blocks = 0\<rparr>, q_db = (\<lambda>_. two_groups)\<rparr>"

definition z_const :: ConstValue where
  "z_const = \<lparr>cv_val = 32, cv_vt = VT_STRING, cv_isnull = 0\<rparr>"

text \<open>\<open>name > 'z' and age + age = 84\<close>\<close>

definition sample_qual :: qual where
  "sample_qual = MergerEntry AND_EXPR 0 0
     (ExprEntry GREATER 1 0 (ColumnRef VT_STRING 0) (ConstNode z_const))
     (ExprEntry EQUAL 1 0 (ExprEntry PLUS 1 1 (ColumnRef VT_INT 1) (ColumnRef VT_INT 1)) (ConstNode \<lparr>cv_val = 84, cv_vt = VT_INT, cv_isnull = 0\<rparr>))"

definition sample_look :: "int \<Rightarrow> int \<Rightarrow> valueType \<Rightarrow> sql_value option" where
  "sample_look i attr vt = (if i = 1 \<and> attr = 0 \<and> vt = VT_STRING then Some (StrV [97, 98]) else if i = 1 \<and> attr = 1 \<and> vt = VT_INT then Some (IntV 42) else None)"

definition sample_con :: "ConstValue \<Rightarrow> sql_value option" where
  "sample_con cv = (if cv = z_const then Some (StrV [122]) else if cv = \<lparr>cv_val = 84, cv_vt = VT_INT, cv_isnull = 0\<rparr> then Some (IntV 84) else None)"

lemma sample_sees: "sees sample_env (\<lambda>_. two_groups) two_strings sample_look sample_con"
proof -
  have "find_column sample_env 1 0 (\<lambda>_. two_groups) = Some (Some name_column, True, \<lambda>_. two_groups)"
    "find_column sample_env 1 1 (\<lambda>_. two_groups) = Some (Some (int_column 42), True, \<lambda>_. two_groups)"
    by (simp_all add: find_column_def sample_env_def sample_row_def GetCellValueByIndex_def arr_get_def GetTblRowDataPosition_def
        GetColRowDataEx_def InitScanPositionInfo_def Let_def numeral_2_eq_2)
  moreover have "col_ok name_column" by (simp add: col_ok_def name_column_def ROW_COLUMN_HEADER_SIZE_def)
  ultimately show ?thesis
    using int_column_ok [of 42]
    by (auto simp: sees_def sample_look_def sample_con_def z_const_def is_str_def is_int_def two_strings_def iData_def
        sample_env_def name_column_def int_column_def split: if_splits)
qed

lemma sample_blocks:
  assumes "N < 2 ^ 30"
  shows "blocks_free (\<lambda>k. of_nat (Suc k) * 2 ^ 28) two_strings N"
proof -
  let ?addr = "\<lambda>k. of_nat (Suc k) * 2 ^ 28 :: u64"
  have at: "unat (?addr k) = Suc k * 2 ^ 28" if "k < N" for k
  proof -
    have "Suc k * 2 ^ 28 < 2 ^ 64" using that assms by simp
    then have "unat (of_nat (Suc k * 2 ^ 28) :: u64) = Suc k * 2 ^ 28" by (simp only: unat_of_nat take_bit_nat_eq_self_iff len_of_numeral_defs) simp
    then show ?thesis by simp
  qed
  have in_b: "unat p div 2 ^ 28 = Suc k" if "in_block ?addr k p" "k < N" for k p
  proof -
    have "unat (p - ?addr k) < 2 ^ 28" using that(1) by (simp only: in_block_def BLOCK_MAX_def)
    moreover from this have "unat (?addr k + (p - ?addr k)) = Suc k * 2 ^ 28 + unat (p - ?addr k)"
      using that(2) assms by (subst unat_add_lem [THEN iffD1]) (simp_all only: at, simp)
    ultimately show ?thesis by simp
  qed
  have "two_strings p = None" if "in_block ?addr k p" "k < N" for k p
    using in_b [OF that] by (auto simp: two_strings_def)
  moreover have "\<not> in_block ?addr j p" if "in_block ?addr k p" "k < N" "j < k" for j k p
    using in_b [OF that(1,2)] in_b [of j p] that(2,3) by auto
  moreover have "?addr k \<noteq> 0" if "k < N" for k
    using at [OF that] by (metis unat_0 mult_is_0 nat.distinct(1) power_not_zero zero_neq_numeral)
  ultimately show ?thesis unfolding blocks_free_def by blast
qed

theorem condition_evaluates_directly_witness:
  "\<exists>s'. ExecSelectQual sample_env sample_qual sample_state = Some (True, s') \<and>
     getDataBool some_floats (Some (resultExpreData s'))"
proof -
  have "shortlex [122] [97, 98]" by (simp add: lenlex_conv)
  then have "qeval sample_look sample_con sample_qual None False = Some (IntV 1)"
    by (simp add: sample_qual_def sample_look_def sample_con_def z_const_def str_holds_def int_math_def in_int_def)
  moreover have "mem_ok (q_addr sample_env) two_strings (q_mem sample_state)" by (simp add: mem_ok_def sample_state_def)
  moreover have "blocks (q_mem sample_state) + col_refs sample_qual \<le> 3" by (simp add: sample_state_def sample_qual_def)
  ultimately show ?thesis
    using condition_evaluates_directly [of sample_env sample_state two_strings sample_look sample_con 3 sample_qual "IntV 1"]
      sample_sees sample_blocks [of 3]
    by (auto simp: sample_state_def sample_env_def)
qed

section \<open>Types of results\<close>

lemma ComputeExpr_type:
  assumes "ComputeExpr fl m l r res op = Some (True, res')"
  shows "\<exists>i. res' = int_result i res"
proof -
  have ints: "int_opf op = Some f \<Longrightarrow> f m l r res = Some res' \<Longrightarrow> ?thesis" for f
    by (cases op) (auto simp: int_opf_def operator_defs split: bind_splits if_splits)
  have strings: "string_op a b test m l r res = Some res' \<Longrightarrow> ?thesis" for a b test
    by (auto simp: string_op_def split: bind_splits) blast+
  have chars: "char_op test m l r res = Some res' \<Longrightarrow> ?thesis" for test
    by (auto simp: char_op_def split: bind_splits)
  have "string_opf op = Some f \<Longrightarrow> f m l r res = Some res' \<Longrightarrow> ?thesis" for f
    using strings by (cases op) (auto simp: string_opf_def stringGreaterOperator_def stringGreaterEqualOperator_def stringEqualOperator_def stringLessEqualOperator_def)
  moreover have "char_opf op = Some f \<Longrightarrow> f m l r res = Some res' \<Longrightarrow> ?thesis" for f
    using chars by (cases op) (auto simp: char_opf_def charGreaterOperator_def charGreaterEqualOperator_def charEqualOperator_def charLessEqualOperator_def)
  moreover have "bool_opf op = Some f \<Longrightarrow> f m l r res = Some res' \<Longrightarrow> ?thesis" for f
    by (cases op) (auto simp: bool_opf_def boolEqualOperator_def boolNotEqualOperator_def)
  moreover have "float_opf fl op = Some f \<Longrightarrow> f m l r res = Some res' \<Longrightarrow> ?thesis" for f
    by (cases op) (auto simp: float_opf_def floatGreaterOperator_def floatGreaterEqualOperator_def floatEqualOperator_def floatLessEqualOperator_def)
  ultimately show ?thesis
    using assms ints
    by (cases "edType l") (auto simp: ComputeExpr_def getDataTypeProcs_def split: if_splits option.splits bind_splits)
qed

text \<open>Whenever an operator or a connective returns a value, the value is an integer of four bytes, for
  operands of every type.\<close>

theorem operator_result_is_int:
  assumes "ProcessQualExprNode env q parent left s = Some (True, s')" "(\<exists>op i j l r. q = ExprEntry op i j l r) \<or> (\<exists>t i j l r. q = MergerEntry t i j l r)"
  shows "edType (resultExpreData s') = VT_INT \<and> edSize (resultExpreData s') = 4"
  using assms(2)
proof
  assume "\<exists>op i j l r. q = ExprEntry op i j l r"
  then show ?thesis using assms(1) by (auto dest!: ComputeExpr_type split: bind_splits)
next
  assume "\<exists>t i j l r. q = MergerEntry t i j l r"
  then show ?thesis using assms(1) by (auto split: bind_splits)
qed

theorem operator_result_is_int_witness:
  "edType (resultExpreData (snd (the (ProcessQualExprNode sample_env (ExprEntry EQUAL 0 0 (ConstNode z_const) (ConstNode z_const)) None False sample_state)))) = VT_INT"
proof -
  have "str_at two_strings 32 [122]" by (simp add: two_strings_def)
  then have "ComputeExpr some_floats two_strings (str_value 32) (str_value 32) (str_value 32) EQUAL = Some (True, int_result 1 (str_value 32))"
    using ComputeExpr_strings [of "str_value 32" two_strings "[122]" "str_value 32" "[122]" EQUAL some_floats "str_value 32"]
    by (simp add: str_value_def str_holds_def truth_def HAT_TRUE_def)
  then have "ProcessQualExprNode sample_env (ExprEntry EQUAL 0 0 (ConstNode z_const) (ConstNode z_const)) None False sample_state =
      Some (True, sample_state\<lparr>resultExpreData := int_result 1 (str_value 32)\<rparr>)"
    by (simp add: GetExprDataConstValue_def sample_state_def sample_env_def z_const_def str_value_def)
  from operator_result_is_int [OF this] this show ?thesis by simp
qed

end
