(* ===== verification/Protocol.thy ===== *)
theory Protocol
  imports Pages
begin

text \<open>
  The messages between the server and its clients, after \<^verbatim>\<open>src/portal/netclient.c\<close> (\<^verbatim>\<open>ParserMsg\<close>),
  \<^verbatim>\<open>src/util/sock/tcpsock.c\<close> (\<^verbatim>\<open>WriteData\<close>, \<^verbatim>\<open>EpollProcess\<close>), \<^verbatim>\<open>src/interface/cinterface/toadInterface.c\<close> (\<^verbatim>\<open>ReadMessage\<close>,
  \<^verbatim>\<open>ProcessClient\<close>) and \<^verbatim>\<open>src/processor/dispatch/servprocess.c\<close> (\<^verbatim>\<open>ReadMsg\<close>).

  A message is a type, a size and a body. TCP delivers the bytes in order but cuts them anywhere; \<^verbatim>\<open>ParserMsg\<close>
  joins the pieces. An array is a list of fixed length and an access outside it has no result. \<^verbatim>\<open>ParserMsg\<close>
  moves the rest of its buffer to the front with \<^verbatim>\<open>memcpy\<close>; the areas may overlap, and the model takes the copy
  in ascending order, which is correct towards lower addresses.
\<close>

unbundle bit_operations_syntax

section \<open>Messages\<close>

definition PORT_BUFFER_SIZE :: nat where "PORT_BUFFER_SIZE = 2048"
definition SOCKET_BUFFER_LEN :: nat where "SOCKET_BUFFER_LEN = 2048"
definition MAX_COMMAND_LENGTH :: nat where "MAX_COMMAND_LENGTH = 2048"
definition MSG_HEADER_LEN :: nat where "MSG_HEADER_LEN = 8"

text \<open>The numbers of the enumerations.\<close>

definition PORT_MSG_START :: i32 where "PORT_MSG_START = 0"
definition PORT_MSG_REQUEST :: i32 where "PORT_MSG_REQUEST = 1"
definition PORT_MSG_BEGIN :: i32 where "PORT_MSG_BEGIN = 2"
definition PORT_MSG_CONTINUE :: i32 where "PORT_MSG_CONTINUE = 3"
definition PORT_MSG_FINISH :: i32 where "PORT_MSG_FINISH = 4"

definition CS_IDLE :: i32 where "CS_IDLE = 0"
definition CS_SENDCOMMD :: i32 where "CS_SENDCOMMD = 1"
definition CS_FINISH :: i32 where "CS_FINISH = 3"
definition CS_CLIENT_STATE_MASK :: i32 where "CS_CLIENT_STATE_MASK = 0x0000FFFF"
definition CS_BLOCK :: i32 where "CS_BLOCK = 0x01000000"

record MsgHeader =
  mh_type :: i32
  mh_size :: i32
  mh_body :: "byte list"

record ClientContext =
  clientStatus :: i32
  restLen :: int
  restMsg :: "byte list"
  cmsg :: MsgHeader

definition zero_msg :: MsgHeader where
  "zero_msg = \<lparr>mh_type = 0, mh_size = 0, mh_body = replicate PORT_BUFFER_SIZE 0\<rparr>"

definition zero_client :: ClientContext where
  "zero_client = \<lparr>clientStatus = CS_IDLE, restLen = 0, restMsg = replicate (2 * PORT_BUFFER_SIZE) 0, cmsg = zero_msg\<rparr>"

text \<open>\<^verbatim>\<open>memcpy\<close> into an array and out of it.\<close>

definition buf_put :: "int \<Rightarrow> byte list \<Rightarrow> byte list \<Rightarrow> byte list option" where
  "buf_put off bs buf =
     (if 0 \<le> off \<and> nat off + length bs \<le> length buf
      then Some (take (nat off) buf @ bs @ drop (nat off + length bs) buf) else None)"

definition buf_get :: "int \<Rightarrow> int \<Rightarrow> byte list \<Rightarrow> byte list option" where
  "buf_get off n buf =
     (if 0 \<le> off \<and> 0 \<le> n \<and> off + n \<le> int (length buf) then Some (take (nat n) (drop (nat off) buf)) else None)"

definition GetMsgIntValue :: "int \<Rightarrow> byte list \<Rightarrow> i32 option" where
  "GetMsgIntValue off buf = map_option word_of (buf_get off 4 buf)"

section \<open>Joining the pieces\<close>

text \<open>The end of \<^verbatim>\<open>ParserMsg\<close>: the rest of the buffer moves to the front and the unused input follows it.\<close>

definition move_rest :: "int \<Rightarrow> ClientContext \<Rightarrow> byte list option" where
  "move_rest restOffset c =
     (if restOffset > 0 \<and> restLen c > 0 then do { bs \<leftarrow> buf_get restOffset (restLen c) (restMsg c); buf_put 0 bs (restMsg c) }
      else Some (restMsg c))"

definition save_rest :: "int \<Rightarrow> byte list \<Rightarrow> ClientContext \<Rightarrow> ClientContext option" where
  "save_rest restOffset inp c = do {
     buf \<leftarrow> move_rest restOffset c;
     let c = c\<lparr>restMsg := buf\<rparr>;
     if inp = [] then Some c
     else do {
       let c = c\<lparr>clientStatus := (if int (length inp) > int PORT_BUFFER_SIZE - restLen c then clientStatus c OR CS_BLOCK
                                  else clientStatus c AND NOT CS_BLOCK)\<rparr>;
       buf \<leftarrow> buf_put (restLen c) inp (restMsg c);
       Some (c\<lparr>restMsg := buf, restLen := restLen c + int (length inp)\<rparr>) } }"

text \<open>The body is not complete: it waits for more input.\<close>

definition wait_msg :: "byte list \<Rightarrow> ClientContext \<Rightarrow> (int \<times> ClientContext) option" where
  "wait_msg inp c = do {
     c \<leftarrow> save_rest 0 inp (c\<lparr>cmsg := (cmsg c)\<lparr>mh_type := 0, mh_size := 0\<rparr>\<rparr>);
     Some (0, c) }"

text \<open>The body is complete in the buffer.\<close>

definition take_msg :: "byte list \<Rightarrow> ClientContext \<Rightarrow> (int \<times> ClientContext) option" where
  "take_msg inp c = do {
     let sz = sint (mh_size (cmsg c));
     bs \<leftarrow> buf_get (int MSG_HEADER_LEN) sz (restMsg c);
     body \<leftarrow> buf_put 0 bs (mh_body (cmsg c));
     let restOffset = int MSG_HEADER_LEN + sz;
     c \<leftarrow> save_rest restOffset inp (c\<lparr>cmsg := (cmsg c)\<lparr>mh_body := body\<rparr>, restLen := restLen c - restOffset\<rparr>);
     Some (sz, c) }"

text \<open>With the header in the buffer; \<open>msg\<close> is the input that has not been used.\<close>

definition parse_body :: "byte list \<Rightarrow> ClientContext \<Rightarrow> (int \<times> ClientContext) option" where
  "parse_body msg c = do {
     t \<leftarrow> GetMsgIntValue 0 (restMsg c);
     s \<leftarrow> GetMsgIntValue 4 (restMsg c);
     let c = c\<lparr>cmsg := (cmsg c)\<lparr>mh_type := t, mh_size := s\<rparr>\<rparr>;
     if sint s \<ge> int PORT_BUFFER_SIZE then Some (-1, c)
     else if sint s > restLen c + int (length msg) then wait_msg msg c
     else if restLen c - int MSG_HEADER_LEN < sint s then do {
       let tmpLen = sint s - restLen c + int MSG_HEADER_LEN;
       if int (length msg) \<ge> tmpLen then do {
         buf \<leftarrow> buf_put (restLen c) (take (nat tmpLen) msg) (restMsg c);
         take_msg (drop (nat tmpLen) msg) (c\<lparr>restMsg := buf, restLen := restLen c + tmpLen\<rparr>) }
       else wait_msg msg c }
     else take_msg msg c }"

text \<open>\<open>msg\<close> are the \<^verbatim>\<open>len\<close> bytes of the input; none of them is read when \<^verbatim>\<open>len\<close> is 0.\<close>

definition ParserMsg :: "byte list \<Rightarrow> ClientContext \<Rightarrow> (int \<times> ClientContext) option" where
  "ParserMsg msg c =
     (if int (length msg) + restLen c < int MSG_HEADER_LEN then Some (0, c)
      else if restLen c < int MSG_HEADER_LEN then do {
        let tmpLen = int MSG_HEADER_LEN - restLen c;
        buf \<leftarrow> buf_put (restLen c) (take (nat tmpLen) msg) (restMsg c);
        parse_body (drop (nat tmpLen) msg) (c\<lparr>restMsg := buf, restLen := restLen c + tmpLen\<rparr>) }
      else parse_body msg c)"

section \<open>The client\<close>

text \<open>
  The loop of \<^verbatim>\<open>ReadMessage\<close>. \<open>out\<close> lists the bodies and sizes the callback \<^verbatim>\<open>msgProc\<close> has been called with; it is
  also called, with size 0, when no message is complete.
\<close>

partial_function (option) read_loop :: "byte list \<Rightarrow> ClientContext \<Rightarrow> (byte list \<times> int) list \<Rightarrow> (ClientContext \<times> (byte list \<times> int) list) option" where
  "read_loop msg c out = do {
     (ret, c) \<leftarrow> ParserMsg msg c;
     if mh_type (cmsg c) = PORT_MSG_FINISH then Some (c\<lparr>clientStatus := clientStatus c OR CS_FINISH\<rparr>, out)
     else do {
       let out = out @ [(mh_body (cmsg c), sint (mh_size (cmsg c)))];
       let c = c\<lparr>cmsg := zero_msg\<rparr>;
       if ret > 0 then read_loop [] c out else Some (c, out) } }"

text \<open>
  The event information of \<^verbatim>\<open>EpollProcess\<close>: whether reading is blocked. \<^verbatim>\<open>ReadMessage\<close> with the bytes that were
  received, none of them when reading is blocked, and the flag it leaves.
\<close>

definition ReadMessage :: "bool \<Rightarrow> byte list \<Rightarrow> ClientContext \<Rightarrow> (byte list \<times> int) list \<Rightarrow>
    (int \<times> bool \<times> ClientContext \<times> (byte list \<times> int) list) option" where
  "ReadMessage blocked buffer c out =
     (if \<not> blocked \<and> buffer = [] then Some (-1, blocked, c, out)
      else do {
        (c, out) \<leftarrow> read_loop (if blocked then [] else buffer) c out;
        Some (0, clientStatus c AND CS_BLOCK \<noteq> 0, c, out) })"

text \<open>
  The loop of \<^verbatim>\<open>ProcessClient\<close> over \<^verbatim>\<open>EpollProcess\<close>: \<open>chunks\<close> are the results of \<^verbatim>\<open>recv\<close>, and after them the connection is
  closed. While reading is blocked no bytes are received. A client that is blocked for ever has no result.
\<close>

partial_function (option) client_loop :: "bool \<Rightarrow> byte list list \<Rightarrow> ClientContext \<Rightarrow> (byte list \<times> int) list \<Rightarrow>
    (int \<times> byte list list \<times> ClientContext \<times> (byte list \<times> int) list) option" where
  "client_loop blocked chunks c out = do {
     let (chunk, rest) = (if blocked then ([], chunks) else case chunks of [] \<Rightarrow> ([], []) | b # bs \<Rightarrow> (b, bs));
     (ret, blocked, c, out) \<leftarrow> ReadMessage blocked chunk c out;
     if ret \<ge> 0 \<and> clientStatus c AND CS_CLIENT_STATE_MASK \<noteq> CS_FINISH then client_loop blocked rest c out
     else Some (ret, rest, c\<lparr>clientStatus := CS_IDLE\<rparr>, out) }"

text \<open>
  \<^verbatim>\<open>ProcessClient\<close> after the command has been sent: the client starts in the state it was left in.
\<close>

definition ProcessClient :: "byte list list \<Rightarrow> ClientContext \<Rightarrow> (int \<times> byte list list \<times> ClientContext \<times> (byte list \<times> int) list) option" where
  "ProcessClient chunks c = client_loop False chunks (c\<lparr>clientStatus := clientStatus c OR CS_SENDCOMMD\<rparr>) []"

section \<open>The server\<close>

text \<open>
  \<^verbatim>\<open>ReadMsg\<close>: the server reads until one command is complete or the connection is closed.
\<close>

fun readmsg_loop :: "byte list list \<Rightarrow> ClientContext \<Rightarrow> (int \<times> byte list list \<times> ClientContext) option" where
  "readmsg_loop [] c = Some (-1, [], c)"
| "readmsg_loop (chunk # chunks) c = do {
     (len, c) \<leftarrow> ParserMsg chunk c;
     if len \<le> 0 then readmsg_loop chunks c else Some (len, chunks, c) }"

definition ReadMsg :: "byte list list \<Rightarrow> ClientContext \<Rightarrow> (int \<times> byte list list \<times> ClientContext) option" where
  "ReadMsg chunks c = readmsg_loop chunks (c\<lparr>cmsg := zero_msg\<rparr>)"

section \<open>Sending\<close>

text \<open>
  The results of \<^verbatim>\<open>send\<close>: a number of bytes taken, an interrupted call, or another error. Without a result left the
  kernel takes all bytes. \<open>wire\<close> are the bytes it has taken.
\<close>

datatype send_result = Sent nat | Interrupted | Broken

record sock =
  results :: "send_result list"
  wire :: "byte list"

text \<open>
  \<^verbatim>\<open>WriteData\<close>; \<open>bs\<close> are the \<^verbatim>\<open>bufLen\<close> bytes from \<^verbatim>\<open>offset\<close>. A number of bytes that \<^verbatim>\<open>send\<close> cannot return, more than
  it was given, counts as all of them.
\<close>

function write_loop :: "byte list \<Rightarrow> sock \<Rightarrow> int \<times> sock" where
  "write_loop bs s =
     (case results s of
        [] \<Rightarrow> (int (length bs), s\<lparr>wire := wire s @ bs\<rparr>)
      | Sent n # rs \<Rightarrow>
          (let k = min n (length bs); s = s\<lparr>results := rs, wire := wire s @ take k bs\<rparr>
           in if k \<noteq> length bs then write_loop (drop k bs) s else (int k, s))
      | Interrupted # rs \<Rightarrow> write_loop bs (s\<lparr>results := rs\<rparr>)
      | Broken # rs \<Rightarrow> (-1, s\<lparr>results := rs\<rparr>))"
  by pat_completeness auto
termination by (relation "measure (\<lambda>(bs, s). length (results s))") (auto simp: Let_def)

definition WriteData :: "int \<Rightarrow> byte list \<Rightarrow> sock \<Rightarrow> int \<times> sock" where
  "WriteData sockfd bs s = (if sockfd < 0 then (-1, s) else write_loop bs s)"

section \<open>The buffer as a sequence of bytes\<close>

declare write_loop.simps [simp del]

lemmas msg_sizes = PORT_BUFFER_SIZE_def MSG_HEADER_LEN_def SOCKET_BUFFER_LEN_def

definition frame :: "i32 \<Rightarrow> byte list \<Rightarrow> byte list" where
  "frame t body = bytes_of 4 t @ bytes_of 4 (of_nat (length body) :: i32) @ body"

lemma length_frame [simp]: "length (frame t body) = 8 + length body"
  by (simp add: frame_def)

lemma buf_put_app: "off = int (length p) \<Longrightarrow> length bs \<le> length q \<Longrightarrow> buf_put off bs (p @ q) = Some (p @ bs @ drop (length bs) q)"
  by (simp add: buf_put_def)

lemma buf_get_app: "off = int (length p) \<Longrightarrow> n = int (length bs) \<Longrightarrow> buf_get off n (p @ bs @ q) = Some bs"
  by (simp add: buf_get_def)

lemma sint_of_nat_small: "n < 2 ^ 31 \<Longrightarrow> sint (of_nat n :: i32) = int n"
  by (subst sint_unat31) (simp_all add: unat_of_nat take_bit_nat_eq_self)

text \<open>The first \<^verbatim>\<open>restLen\<close> bytes of the buffer are \<open>rest\<close>.\<close>

definition holds :: "i32 \<Rightarrow> ClientContext \<Rightarrow> byte list \<Rightarrow> bool" where
  "holds st c rest \<longleftrightarrow> (\<exists>junk. restMsg c = rest @ junk) \<and> length (restMsg c) = 2 * PORT_BUFFER_SIZE \<and> restLen c = int (length rest) \<and>
     clientStatus c = st \<and> length (mh_body (cmsg c)) = PORT_BUFFER_SIZE"

lemma holdsE:
  assumes "holds st c rest"
  obtains junk where "restMsg c = rest @ junk" "length junk = 2 * PORT_BUFFER_SIZE - length rest" "length rest \<le> 2 * PORT_BUFFER_SIZE"
    "restLen c = int (length rest)" "clientStatus c = st" "length (mh_body (cmsg c)) = PORT_BUFFER_SIZE"
  using assms by (auto simp: holds_def)

lemma unblocked: "(st :: i32) AND CS_BLOCK = 0 \<Longrightarrow> st AND NOT CS_BLOCK = st"
  by (metis (no_types, lifting) bit.conj_cancel_right bit.conj_disj_distrib bit.conj_one_right bit.disj_cancel_right or.left_neutral)

lemma save_rest_holds:
  assumes "restMsg c = pre @ rest @ junk" "restOffset = int (length pre)" "length (restMsg c) = 2 * PORT_BUFFER_SIZE" "restLen c = int (length rest)"
    and "clientStatus c = st" "length (mh_body (cmsg c)) = PORT_BUFFER_SIZE" "st AND CS_BLOCK = 0"
    and "inp = [] \<or> length rest + length inp \<le> PORT_BUFFER_SIZE"
  shows "\<exists>c'. save_rest restOffset inp c = Some c' \<and> holds st c' (rest @ inp) \<and> cmsg c' = cmsg c"
proof -
  obtain junk' where mv: "move_rest restOffset c = Some (rest @ junk')" "length (rest @ junk') = 2 * PORT_BUFFER_SIZE"
  proof (cases "restOffset > 0 \<and> restLen c > 0")
    case True
    have "buf_get restOffset (restLen c) (restMsg c) = Some rest" using assms(1,2,4) by (simp add: buf_get_app)
    moreover have "buf_put 0 rest (restMsg c) = Some (rest @ drop (length rest) (restMsg c))"
      using assms(1) by (subst buf_put_app [where p = "[]" and q = "restMsg c", simplified]) simp_all
    ultimately show ?thesis using True assms(3) assms(1) by (intro that [of "drop (length rest) (restMsg c)"]) (simp_all add: move_rest_def)
  next
    case False
    then have "pre = [] \<or> rest = []" using assms(2,4) by auto
    then show ?thesis using False assms(1,3) by (intro that [of "if rest = [] then restMsg c else junk"]) (auto simp: move_rest_def)
  qed
  show ?thesis
  proof (cases "inp = []")
    case True
    then show ?thesis using mv assms by (auto simp: save_rest_def holds_def)
  next
    case False
    then have le: "length rest + length inp \<le> PORT_BUFFER_SIZE" using assms(8) by simp
    have put: "buf_put (int (length rest)) inp (rest @ junk') = Some (rest @ inp @ drop (length inp) junk')"
      using le mv(2) by (intro buf_put_app) (simp_all)
    have "\<not> int (length inp) > int PORT_BUFFER_SIZE - restLen c" using le assms(4) by simp
    then have "save_rest restOffset inp c =
        Some (c\<lparr>restMsg := rest @ inp @ drop (length inp) junk', clientStatus := st, restLen := restLen c + int (length inp)\<rparr>)"
      using False mv(1) put assms(4,5) unblocked [OF assms(7)] by (simp add: save_rest_def)
    then show ?thesis using assms(4-6) mv(2) le by (auto simp: holds_def)
  qed
qed

lemma wait_msg_holds:
  assumes "holds st c rest" "st AND CS_BLOCK = 0" "length rest + length inp \<le> PORT_BUFFER_SIZE"
  shows "\<exists>c'. wait_msg inp c = Some (0, c') \<and> holds st c' (rest @ inp) \<and> cmsg c' = (cmsg c)\<lparr>mh_type := 0, mh_size := 0\<rparr>"
proof -
  let ?c = "c\<lparr>cmsg := (cmsg c)\<lparr>mh_type := 0, mh_size := 0\<rparr>\<rparr>"
  obtain junk where "restMsg ?c = [] @ rest @ junk" "length (restMsg ?c) = 2 * PORT_BUFFER_SIZE" "restLen ?c = int (length rest)"
    "clientStatus ?c = st" "length (mh_body (cmsg ?c)) = PORT_BUFFER_SIZE" using assms(1) by (auto simp: holds_def)
  from save_rest_holds [OF this(1) _ this(2-5) assms(2), of 0 inp] assms(3) obtain c' where
    "save_rest 0 inp ?c = Some c'" "holds st c' (rest @ inp)" "cmsg c' = cmsg ?c" by auto
  then show ?thesis by (simp add: wait_msg_def)
qed

lemma take_msg_holds:
  assumes "holds st c (hd8 @ body @ rest)" "length hd8 = MSG_HEADER_LEN" "sint (mh_size (cmsg c)) = int (length body)" "length body < PORT_BUFFER_SIZE"
    and "st AND CS_BLOCK = 0" "inp = [] \<or> length rest + length inp \<le> PORT_BUFFER_SIZE"
  shows "\<exists>c'. take_msg inp c = Some (int (length body), c') \<and> holds st c' (rest @ inp) \<and>
     cmsg c' = (cmsg c)\<lparr>mh_body := body @ drop (length body) (mh_body (cmsg c))\<rparr>"
proof -
  let ?body = "body @ drop (length body) (mh_body (cmsg c))"
  let ?c = "c\<lparr>cmsg := (cmsg c)\<lparr>mh_body := ?body\<rparr>, restLen := restLen c - (int MSG_HEADER_LEN + int (length body))\<rparr>"
  obtain junk where c: "restMsg c = hd8 @ body @ rest @ junk" "restLen c = int MSG_HEADER_LEN + int (length body) + int (length rest)"
    "length (mh_body (cmsg c)) = PORT_BUFFER_SIZE" "length (restMsg c) = 2 * PORT_BUFFER_SIZE" "clientStatus c = st"
    using assms(1,2) by (auto simp: holds_def)
  have "buf_get (int MSG_HEADER_LEN) (int (length body)) (restMsg c) = Some body" using c(1) assms(2) by (simp add: buf_get_app)
  moreover have "buf_put 0 body (mh_body (cmsg c)) = Some ?body"
    using c(3) assms(4) by (subst buf_put_app [where p = "[]" and q = "mh_body (cmsg c)", simplified]) simp_all
  moreover have "\<exists>c'. save_rest (int MSG_HEADER_LEN + int (length body)) inp ?c = Some c' \<and> holds st c' (rest @ inp) \<and> cmsg c' = cmsg ?c"
    by (rule save_rest_holds [where pre = "hd8 @ body" and junk = junk]) (use c assms in simp_all)
  ultimately show ?thesis using assms(3) by (auto simp: take_msg_def)
qed

lemma frame_header:
  assumes "take 8 rest = take 8 (frame t body)" "8 \<le> length rest"
  shows "GetMsgIntValue 0 (rest @ junk) = Some t" "GetMsgIntValue 4 (rest @ junk) = Some (of_nat (length body))"
proof -
  have "rest = take 8 (frame t body) @ drop 8 rest" using assms(1) by (metis append_take_drop_id)
  then have r: "rest = bytes_of 4 t @ bytes_of 4 (of_nat (length body) :: i32) @ drop 8 rest" by (simp add: frame_def)
  show "GetMsgIntValue 0 (rest @ junk) = Some t"
    by (subst r) (simp add: GetMsgIntValue_def buf_get_app [where p = "[]", simplified])
  show "GetMsgIntValue 4 (rest @ junk) = Some (of_nat (length body))"
    by (subst r) (simp add: GetMsgIntValue_def buf_get_app [where p = "bytes_of 4 t"])
qed

lemma parse_body_complete:
  assumes "holds st c rest" "8 \<le> length rest" "rest @ msg = frame t body @ tail" "length body < PORT_BUFFER_SIZE" "st AND CS_BLOCK = 0"
    and "msg = [] \<or> length tail \<le> PORT_BUFFER_SIZE"
  shows "\<exists>c'. parse_body msg c = Some (int (length body), c') \<and> holds st c' tail \<and>
     cmsg c' = \<lparr>mh_type = t, mh_size = of_nat (length body), mh_body = body @ drop (length body) (mh_body (cmsg c))\<rparr>"
proof -
  obtain junk where c: "restMsg c = rest @ junk" "length junk = 2 * PORT_BUFFER_SIZE - length rest" "length rest \<le> 2 * PORT_BUFFER_SIZE"
    "restLen c = int (length rest)" "clientStatus c = st" "length (mh_body (cmsg c)) = PORT_BUFFER_SIZE" by (rule holdsE [OF assms(1)])
  let ?s = "of_nat (length body) :: i32"
  let ?c = "c\<lparr>cmsg := (cmsg c)\<lparr>mh_type := t, mh_size := ?s\<rparr>\<rparr>"
  have s: "sint ?s = int (length body)" using assms(4) by (intro sint_of_nat_small) (simp add: msg_sizes)
  have len: "length rest + length msg = 8 + length body + length tail" using arg_cong [OF assms(3), of length] by simp
  have "take 8 rest = take 8 (frame t body)" using arg_cong [OF assms(3), of "take 8"] assms(2) by simp
  note hdr = frame_header [OF this assms(2)]
  have cm: "cmsg ?c = \<lparr>mh_type = t, mh_size = ?s, mh_body = mh_body (cmsg c)\<rparr>" by simp
  have "\<exists>c'. parse_body msg c = Some (int (length body), c') \<and> holds st c' tail \<and>
      cmsg c' = (cmsg ?c)\<lparr>mh_body := body @ drop (length body) (mh_body (cmsg c))\<rparr>"
  proof (cases "length rest < 8 + length body")
    case True
    define k where "k = 8 + length body - length rest"
    have k: "sint ?s - restLen ?c + int MSG_HEADER_LEN = int k" using s c(4) True by (simp add: k_def MSG_HEADER_LEN_def)
    have km: "k \<le> length msg" using len by (simp add: k_def)
    have fr: "rest @ take k msg = frame t body" "drop k msg = tail"
      using arg_cong [OF assms(3), of "take (8 + length body)"] arg_cong [OF assms(3), of "drop (8 + length body)"] True by (simp_all add: k_def)
    let ?c2 = "?c\<lparr>restMsg := frame t body @ drop k junk, restLen := restLen ?c + int k\<rparr>"
    have put: "buf_put (restLen ?c) (take k msg) (restMsg ?c) = Some (frame t body @ drop k junk)"
    proof -
      have "buf_put (restLen ?c) (take k msg) (restMsg ?c) = Some (rest @ take k msg @ drop (length (take k msg)) junk)"
        using km c(2-4) assms(4) by (simp add: c(1) buf_put_app k_def msg_sizes)
      then show ?thesis using km fr(1) by simp
    qed
    have "holds st ?c2 (take 8 (frame t body) @ body @ [])"
      using c True assms(4) by (auto simp: holds_def frame_def k_def msg_sizes)
    from take_msg_holds [OF this _ _ assms(4,5), of tail] have
      "\<exists>c'. take_msg tail ?c2 = Some (int (length body), c') \<and> holds st c' tail \<and> cmsg c' = (cmsg ?c2)\<lparr>mh_body := body @ drop (length body) (mh_body (cmsg c))\<rparr>"
      using s assms(6) fr(2) by (auto simp: MSG_HEADER_LEN_def)
    moreover have "parse_body msg c = take_msg tail ?c2"
    proof -
      have "restLen c < int (length body) + 8" using True c(4) by simp
      then show ?thesis unfolding parse_body_def c(1) using hdr s k km put fr(2) assms(4) c(1,4) len by (simp add: MSG_HEADER_LEN_def)
    qed
    ultimately show ?thesis by simp
  next
    case False
    define r where "r = drop (8 + length body) rest"
    have fr: "rest = frame t body @ r" "r @ msg = tail"
      using arg_cong [OF assms(3), of "take (8 + length body)"] arg_cong [OF assms(3), of "drop (8 + length body)"] False
      by (simp_all add: r_def) (metis append_take_drop_id)
    have "holds st ?c (take 8 (frame t body) @ body @ r)"
      using assms(1) fr(1) by (auto simp: holds_def frame_def)
    from take_msg_holds [OF this _ _ assms(4,5), of msg] have
      "\<exists>c'. take_msg msg ?c = Some (int (length body), c') \<and> holds st c' tail \<and> cmsg c' = (cmsg ?c)\<lparr>mh_body := body @ drop (length body) (mh_body (cmsg c))\<rparr>"
      using s assms(6) fr(2) by (auto simp: MSG_HEADER_LEN_def)
    moreover have "parse_body msg c = take_msg msg ?c"
      unfolding parse_body_def c(1) using hdr s assms(4) c(4) False by (simp add: MSG_HEADER_LEN_def)
    ultimately show ?thesis by simp
  qed
  then show ?thesis by (cases "cmsg c") auto
qed

lemma parse_body_wait:
  assumes "holds st c rest" "8 \<le> length rest" "rest @ msg @ more_in = frame t body" "more_in \<noteq> []" "8 + length body \<le> PORT_BUFFER_SIZE" "st AND CS_BLOCK = 0"
  shows "\<exists>c'. parse_body msg c = Some (0, c') \<and> holds st c' (rest @ msg) \<and> cmsg c' = \<lparr>mh_type = 0, mh_size = 0, mh_body = mh_body (cmsg c)\<rparr>"
proof -
  obtain junk where c: "restMsg c = rest @ junk" "restLen c = int (length rest)" by (rule holdsE [OF assms(1)])
  let ?s = "of_nat (length body) :: i32"
  let ?c = "c\<lparr>cmsg := (cmsg c)\<lparr>mh_type := t, mh_size := ?s\<rparr>\<rparr>"
  have s: "sint ?s = int (length body)" using assms(5) by (intro sint_of_nat_small) (simp add: msg_sizes)
  have len: "length rest + length msg + length more_in = 8 + length body" "0 < length more_in"
    using arg_cong [OF assms(3), of length] assms(4) by simp_all
  have "take 8 rest = take 8 (frame t body)" using arg_cong [OF assms(3), of "take 8"] assms(2) by simp
  note hdr = frame_header [OF this assms(2)]
  have "holds st ?c rest" using assms(1) by (auto simp: holds_def)
  from wait_msg_holds [OF this assms(6), of msg] len assms(5) have
    "\<exists>c'. wait_msg msg ?c = Some (0, c') \<and> holds st c' (rest @ msg) \<and> cmsg c' = (cmsg ?c)\<lparr>mh_type := 0, mh_size := 0\<rparr>" by simp
  moreover have "parse_body msg c = wait_msg msg ?c"
  proof -
    have "\<not> int (length msg) \<ge> int (length body) - int (length rest) + 8" "int (length body) < int PORT_BUFFER_SIZE"
      "int (length body) > int (length rest) + int (length msg) \<or> int (length rest) - 8 < int (length body)"
      using len assms(5) by linarith+
    then show ?thesis unfolding parse_body_def c(1) using hdr s c(2) by (simp add: MSG_HEADER_LEN_def Let_def)
  qed
  ultimately show ?thesis by (cases "cmsg c") auto
qed

lemma ParserMsg_header:
  assumes "holds st c rest" "8 \<le> length rest + length msg"
  obtains rest' msg' c' where "ParserMsg msg c = parse_body msg' c'" "holds st c' rest'" "8 \<le> length rest'" "rest' @ msg' = rest @ msg"
    "cmsg c' = cmsg c" "msg = [] \<longrightarrow> msg' = []"
proof (cases "length rest < 8")
  case True
  obtain junk where c: "restMsg c = rest @ junk" "length junk = 2 * PORT_BUFFER_SIZE - length rest"
    "restLen c = int (length rest)" "clientStatus c = st" "length (mh_body (cmsg c)) = PORT_BUFFER_SIZE" by (rule holdsE [OF assms(1)])
  define k where "k = 8 - length rest"
  have k: "int MSG_HEADER_LEN - restLen c = int k" "k \<le> length msg" "length rest + k = 8" "restLen c < int MSG_HEADER_LEN"
    using True c(3) assms(2) by (simp_all add: k_def MSG_HEADER_LEN_def)
  let ?c = "c\<lparr>restMsg := rest @ take k msg @ drop k junk, restLen := restLen c + int k\<rparr>"
  have "buf_put (restLen c) (take k msg) (restMsg c) = Some (rest @ take k msg @ drop k junk)"
    using c(1-3) k(2,3) by (simp add: buf_put_app msg_sizes)
  then have "ParserMsg msg c = parse_body (drop k msg) ?c"
    unfolding ParserMsg_def k(1) Let_def using k(4) assms(2) c(3) by (simp add: MSG_HEADER_LEN_def)
  moreover have "holds st ?c (rest @ take k msg)"
    using c k(2,3) by (auto simp: holds_def msg_sizes)
  ultimately show ?thesis using k(2,3) by (intro that [of "drop k msg" ?c "rest @ take k msg"]) simp_all
next
  case False
  then have "ParserMsg msg c = parse_body msg c" using assms(2) holdsE [OF assms(1)] by (fastforce simp: ParserMsg_def MSG_HEADER_LEN_def)
  then show ?thesis using False assms(1) by (intro that [of msg c rest]) simp_all
qed

lemma ParserMsg_complete:
  assumes "holds st c rest" "rest @ msg = frame t body @ tail" "length body < PORT_BUFFER_SIZE" "st AND CS_BLOCK = 0"
    and "msg = [] \<or> length tail \<le> PORT_BUFFER_SIZE"
  shows "\<exists>c'. ParserMsg msg c = Some (int (length body), c') \<and> holds st c' tail \<and>
     cmsg c' = \<lparr>mh_type = t, mh_size = of_nat (length body), mh_body = body @ drop (length body) (mh_body (cmsg c))\<rparr>"
proof -
  have "8 \<le> length rest + length msg" using arg_cong [OF assms(2), of length] by simp
  from ParserMsg_header [OF assms(1) this] obtain rest' msg' c' where
    "ParserMsg msg c = parse_body msg' c'" "holds st c' rest'" "8 \<le> length rest'" "rest' @ msg' = frame t body @ tail" "cmsg c' = cmsg c"
    "msg' = [] \<or> length tail \<le> PORT_BUFFER_SIZE" using assms(2,5) by metis
  then show ?thesis using parse_body_complete [of st c' rest' msg' t body tail] assms(3,4) by simp
qed

lemma ParserMsg_wait:
  assumes "holds st c rest" "8 \<le> length rest + length msg" "rest @ msg @ more_in = frame t body" "more_in \<noteq> []"
    and "8 + length body \<le> PORT_BUFFER_SIZE" "st AND CS_BLOCK = 0"
  shows "\<exists>c'. ParserMsg msg c = Some (0, c') \<and> holds st c' (rest @ msg) \<and> cmsg c' = \<lparr>mh_type = 0, mh_size = 0, mh_body = mh_body (cmsg c)\<rparr>"
proof -
  from ParserMsg_header [OF assms(1,2)] obtain rest' msg' c' where
    p: "ParserMsg msg c = parse_body msg' c'" "holds st c' rest'" "8 \<le> length rest'" "rest' @ msg' = rest @ msg" "cmsg c' = cmsg c" by metis
  then have "rest' @ msg' @ more_in = frame t body" using assms(3) by (metis append.assoc)
  then show ?thesis using parse_body_wait [of st c' rest' msg' more_in t body] p assms(4-6) by simp
qed

lemma ParserMsg_short: "int (length msg) + restLen c < 8 \<Longrightarrow> ParserMsg msg c = Some (0, c)"
  by (simp add: ParserMsg_def MSG_HEADER_LEN_def)

section \<open>A client receives the messages\<close>

type_synonym wire_msg = "i32 \<times> byte list"

definition stream :: "wire_msg list \<Rightarrow> byte list" where
  "stream ms = concat (map (\<lambda>(t, b). frame t b) ms)"

lemma stream_simps [simp]: "stream [] = []" "stream ((t, b) # ms) = frame t b @ stream ms" "stream (ms @ ns) = stream ms @ stream ns"
  by (simp_all add: stream_def)

definition fits :: "wire_msg \<Rightarrow> bool" where
  "fits m \<longleftrightarrow> 0 < length (snd m) \<and> 8 + length (snd m) \<le> PORT_BUFFER_SIZE"

definition shows_msg :: "wire_msg \<Rightarrow> byte list \<times> int" where
  "shows_msg m = (snd m @ replicate (PORT_BUFFER_SIZE - length (snd m)) 0, int (length (snd m)))"

definition nothing :: "byte list \<times> int" where
  "nothing = (replicate PORT_BUFFER_SIZE 0, 0)"

definition partial_frame :: "byte list \<Rightarrow> bool" where
  "partial_frame left \<longleftrightarrow> (\<exists>m future. fits m \<and> left @ future = frame (fst m) (snd m) \<and> future \<noteq> [])"

lemma sint_fits: "fits m \<Longrightarrow> sint (of_nat (length (snd m)) :: i32) = int (length (snd m))"
  by (intro sint_of_nat_small) (simp add: fits_def msg_sizes)

lemma read_loop_one:
  assumes "holds st c rest" "mh_body (cmsg c) = replicate PORT_BUFFER_SIZE 0" "st AND CS_BLOCK = 0"
    and "rest @ msg = frame t b @ tail" "fits (t, b)" "t \<noteq> PORT_MSG_FINISH" "msg = [] \<or> length tail \<le> PORT_BUFFER_SIZE"
  shows "\<exists>c'. read_loop msg c out = read_loop [] c' (out @ [shows_msg (t, b)]) \<and> holds st c' tail \<and> cmsg c' = zero_msg"
proof -
  have "length b < PORT_BUFFER_SIZE" using assms(5) by (simp add: fits_def)
  from ParserMsg_complete [OF assms(1,4) this assms(3,7)] obtain c' where
    p: "ParserMsg msg c = Some (int (length b), c')" "holds st c' tail"
      "cmsg c' = \<lparr>mh_type = t, mh_size = of_nat (length b), mh_body = b @ drop (length b) (mh_body (cmsg c))\<rparr>" by blast
  have "read_loop msg c out = read_loop [] (c'\<lparr>cmsg := zero_msg\<rparr>) (out @ [shows_msg (t, b)])"
    using p assms(2,5,6) sint_fits [OF assms(5)] by (subst read_loop.simps) (simp add: shows_msg_def fits_def)
  moreover have "holds st (c'\<lparr>cmsg := zero_msg\<rparr>) tail" using p(2) by (simp add: holds_def zero_msg_def)
  ultimately show ?thesis by (intro exI [of _ "c'\<lparr>cmsg := zero_msg\<rparr>"]) simp
qed

lemma read_loop_finish:
  assumes "holds st c rest" "mh_body (cmsg c) = replicate PORT_BUFFER_SIZE 0" "st AND CS_BLOCK = 0"
    and "rest @ msg = frame PORT_MSG_FINISH [0]"
  shows "\<exists>c'. read_loop msg c out = Some (c', out) \<and> holds (st OR CS_FINISH) c' [] \<and> mh_body (cmsg c') = replicate PORT_BUFFER_SIZE 0"
proof -
  from ParserMsg_complete [OF assms(1), of msg PORT_MSG_FINISH "[0]" "[]"] assms(3,4) obtain c' where
    p: "ParserMsg msg c = Some (1, c')" "holds st c' []"
      "cmsg c' = \<lparr>mh_type = PORT_MSG_FINISH, mh_size = 1, mh_body = 0 # drop 1 (mh_body (cmsg c))\<rparr>" by (auto simp: msg_sizes)
  have "0 # drop 1 (replicate PORT_BUFFER_SIZE (0 :: byte)) = replicate PORT_BUFFER_SIZE 0"
    by (simp add: msg_sizes flip: replicate_Suc)
  then show ?thesis using p assms(2) by (subst read_loop.simps) (auto simp: holds_def)
qed

lemma ParserMsg_partial:
  assumes "holds st c rest" "partial_frame (rest @ msg)" "msg = [] \<and> cmsg c = zero_msg \<or> 8 \<le> length rest + length msg" "st AND CS_BLOCK = 0"
    and "mh_body (cmsg c) = replicate PORT_BUFFER_SIZE 0"
  shows "\<exists>c'. ParserMsg msg c = Some (0, c') \<and> holds st c' (rest @ msg) \<and> cmsg c' = zero_msg"
proof (cases "8 \<le> length rest + length msg")
  case True
  from assms(2) obtain m future where "fits m" "rest @ msg @ future = frame (fst m) (snd m)" "future \<noteq> []" by (auto simp: partial_frame_def)
  with ParserMsg_wait [OF assms(1) True, of future "fst m" "snd m"] assms(4,5) show ?thesis by (auto simp: fits_def zero_msg_def)
next
  case False
  moreover from this assms(3) have "msg = []" "cmsg c = zero_msg" by auto
  ultimately show ?thesis using assms(1) ParserMsg_short [of "[]" c] by (intro exI [of _ c]) (simp add: holds_def)
qed

lemma read_loop_partial:
  assumes "holds st c rest" "partial_frame (rest @ msg)" "msg = [] \<and> cmsg c = zero_msg \<or> 8 \<le> length rest + length msg" "st AND CS_BLOCK = 0"
    and "mh_body (cmsg c) = replicate PORT_BUFFER_SIZE 0"
  shows "\<exists>c'. read_loop msg c out = Some (c', out @ [nothing]) \<and> holds st c' (rest @ msg) \<and> cmsg c' = zero_msg"
proof -
  obtain c' where "ParserMsg msg c = Some (0, c')" "holds st c' (rest @ msg)" "cmsg c' = zero_msg"
    using ParserMsg_partial [OF assms] by blast
  then show ?thesis by (subst read_loop.simps) (auto simp: nothing_def zero_msg_def PORT_MSG_FINISH_def holds_def)
qed

text \<open>Messages that are complete in the buffer, and what is left of it.\<close>

lemma read_loop_messages:
  assumes "holds st c (stream ms @ left)" "cmsg c = zero_msg" "st AND CS_BLOCK = 0" "\<forall>m \<in> set ms. fits m \<and> fst m \<noteq> PORT_MSG_FINISH"
  shows "\<exists>c'. read_loop [] c out = read_loop [] c' (out @ map shows_msg ms) \<and> holds st c' left \<and> cmsg c' = zero_msg"
  using assms
proof (induction ms arbitrary: c out)
  case Nil
  then show ?case by auto
next
  case (Cons m ms)
  obtain t b where m: "m = (t, b)" by (cases m)
  obtain c1 where c1: "read_loop [] c out = read_loop [] c1 (out @ [shows_msg m])" "holds st c1 (stream ms @ left)" "cmsg c1 = zero_msg"
    using read_loop_one [of st c "stream (m # ms) @ left" "[]" t b "stream ms @ left" out] Cons.prems m by (auto simp: zero_msg_def)
  obtain c2 where "read_loop [] c1 (out @ [shows_msg m]) = read_loop [] c2 ((out @ [shows_msg m]) @ map shows_msg ms)" "holds st c2 left" "cmsg c2 = zero_msg"
    using Cons.IH [OF c1(2,3) Cons.prems(3)] Cons.prems(4) by (metis list.set_intros(2))
  then show ?case using c1(1) by auto
qed

section \<open>The whole answer\<close>

lemma split_stream:
  assumes "total_in @ future = stream rem"
  shows "\<exists>done_ms rem' left. rem = done_ms @ rem' \<and> total_in = stream done_ms @ left \<and> left @ future = stream rem' \<and>
     (rem' = [] \<or> length left < 8 + length (snd (hd rem')))"
  using assms
proof (induction rem arbitrary: total_in)
  case Nil
  then show ?case by (intro exI [of _ "[]"]) simp
next
  case (Cons m rem)
  obtain t b where m: "m = (t, b)" by (cases m)
  show ?case
  proof (cases "length total_in < 8 + length b")
    case True
    then show ?thesis using Cons.prems m by (intro exI [of _ "[]"] exI [of _ "m # rem"] exI [of _ total_in]) simp
  next
    case False
    then have d: "drop (8 + length b) total_in @ future = stream rem" "total_in = frame t b @ drop (8 + length b) total_in"
      using arg_cong [OF Cons.prems, of "drop (8 + length b)"] arg_cong [OF Cons.prems, of "take (8 + length b)"] m
      by simp_all (metis append_take_drop_id)
    from Cons.IH [OF d(1)] obtain ds rem' left where "rem = ds @ rem'" "drop (8 + length b) total_in = stream ds @ left"
      "left @ future = stream rem'" "rem' = [] \<or> length left < 8 + length (snd (hd rem'))" by blast
    then show ?thesis using d(2) m by (intro exI [of _ "m # ds"] exI [of _ rem'] exI [of _ left]) simp
  qed
qed

lemma partial_next:
  assumes "left @ future = stream rem" "rem \<noteq> []" "length left < 8 + length (snd (hd rem))" "fits (hd rem)"
  shows "partial_frame left"
proof -
  obtain t b rem' where rem: "rem = (t, b) # rem'" using assms(2) by (cases rem) auto
  then have "left @ take (8 + length b - length left) future = frame t b"
    using arg_cong [OF assms(1), of "take (8 + length b)"] assms(3) by simp
  moreover have "take (8 + length b - length left) future \<noteq> []"
    using arg_cong [OF calculation, of length] assms(3) rem by auto
  ultimately show ?thesis using assms(4) rem unfolding partial_frame_def by (intro exI [of _ "(t, b)"]) auto
qed

definition waiting :: "i32 \<Rightarrow> ClientContext \<Rightarrow> byte list \<Rightarrow> bool" where
  "waiting st c rest \<longleftrightarrow> holds st c rest \<and> mh_body (cmsg c) = replicate PORT_BUFFER_SIZE 0 \<and> st AND CS_BLOCK = 0"

text \<open>A chunk that completes messages, the first of which was not complete before.\<close>

lemma read_loop_chunk:
  assumes "waiting st c rest" "rest @ chunk = stream (m # ms) @ left" "length rest < 8 + length (snd m)" "length chunk \<le> PORT_BUFFER_SIZE"
    and "\<forall>m \<in> set (m # ms). fits m \<and> fst m \<noteq> PORT_MSG_FINISH"
  shows "\<exists>c'. read_loop chunk c out = read_loop [] c' (out @ map shows_msg (m # ms)) \<and> waiting st c' left \<and> cmsg c' = zero_msg"
proof -
  obtain t b where m: "m = (t, b)" by (cases m)
  have "length rest + length chunk = 8 + length b + length (stream ms @ left)" using arg_cong [OF assms(2), of length] m by simp
  then have "length (stream ms @ left) \<le> PORT_BUFFER_SIZE" using assms(3,4) m by simp
  then obtain c1 where c1: "read_loop chunk c out = read_loop [] c1 (out @ [shows_msg m])" "holds st c1 (stream ms @ left)" "cmsg c1 = zero_msg"
    using read_loop_one [of st c rest chunk t b "stream ms @ left" out] assms(1,2,5) m by (auto simp: waiting_def)
  then show ?thesis using read_loop_messages [OF c1(2,3), of "out @ [shows_msg m]"] assms(1,5) by (auto simp: waiting_def zero_msg_def)
qed

lemma ReadMessage_partial:
  assumes "waiting st c rest" "rest @ chunk = stream ms @ left" "ms = [] \<or> length rest < 8 + length (snd (hd ms))"
    and "8 \<le> length chunk" "length chunk \<le> PORT_BUFFER_SIZE" "\<forall>m \<in> set ms. fits m \<and> fst m \<noteq> PORT_MSG_FINISH" "partial_frame left"
  shows "\<exists>c'. ReadMessage False chunk c out = Some (0, False, c', out @ map shows_msg ms @ [nothing]) \<and> waiting st c' left"
proof -
  have "\<exists>c'. read_loop chunk c out = Some (c', out @ map shows_msg ms @ [nothing]) \<and> waiting st c' left"
  proof (cases ms)
    case Nil
    then show ?thesis using read_loop_partial [of st c rest chunk out] assms by (auto simp: waiting_def zero_msg_def)
  next
    case (Cons m ns)
    obtain c1 where c1: "read_loop chunk c out = read_loop [] c1 (out @ map shows_msg ms)" "waiting st c1 left" "cmsg c1 = zero_msg"
      using read_loop_chunk [of st c rest chunk m ns left out] assms Cons by auto
    then show ?thesis using read_loop_partial [of st c1 left "[]" "out @ map shows_msg ms"] assms(7) by (auto simp: waiting_def zero_msg_def)
  qed
  then obtain c' where c': "read_loop chunk c out = Some (c', out @ map shows_msg ms @ [nothing])" "waiting st c' left" by blast
  have "chunk \<noteq> []" "clientStatus c' AND CS_BLOCK = 0" using assms(4) c'(2) by (auto simp: waiting_def holds_def)
  then show ?thesis using c' by (simp add: ReadMessage_def)
qed

lemma ReadMessage_finish:
  assumes "waiting st c rest" "rest @ chunk = stream ms @ frame PORT_MSG_FINISH [0]"
    and "length rest < 8 + length (snd (hd (ms @ [(PORT_MSG_FINISH, [0])])))" "length chunk \<le> PORT_BUFFER_SIZE" "\<forall>m \<in> set ms. fits m \<and> fst m \<noteq> PORT_MSG_FINISH"
  shows "\<exists>c' bl. ReadMessage False chunk c out = Some (0, bl, c', out @ map shows_msg ms) \<and> holds (st OR CS_FINISH) c' [] \<and>
     mh_body (cmsg c') = replicate PORT_BUFFER_SIZE 0"
proof -
  have "\<exists>c'. read_loop chunk c out = Some (c', out @ map shows_msg ms) \<and> holds (st OR CS_FINISH) c' [] \<and> mh_body (cmsg c') = replicate PORT_BUFFER_SIZE 0"
  proof (cases ms)
    case Nil
    then show ?thesis using read_loop_finish [of st c rest chunk out] assms by (auto simp: waiting_def)
  next
    case (Cons m ns)
    obtain c1 where c1: "read_loop chunk c out = read_loop [] c1 (out @ map shows_msg ms)" "waiting st c1 (frame PORT_MSG_FINISH [0])"
      using read_loop_chunk [of st c rest chunk m ns _ out] assms Cons by auto
    then show ?thesis using read_loop_finish [of st c1 _ "[]" "out @ map shows_msg ms"] by (auto simp: waiting_def)
  qed
  moreover have "chunk \<noteq> []" using arg_cong [OF assms(2), of length] assms(3) by (cases ms) auto
  ultimately show ?thesis by (auto simp: ReadMessage_def)
qed

lemma client_loop_receives:
  assumes "waiting 1 c rest" "rest @ concat chunks = stream (ms @ [(PORT_MSG_FINISH, [0])])"
    and "length rest < 8 + length (snd (hd (ms @ [(PORT_MSG_FINISH, [0])])))"
    and "\<forall>ch \<in> set chunks. 8 \<le> length ch \<and> length ch \<le> SOCKET_BUFFER_LEN" "\<forall>m \<in> set ms. fits m \<and> fst m \<noteq> PORT_MSG_FINISH"
  shows "\<exists>c' out'. client_loop False chunks c out = Some (0, [], c', out @ out') \<and> filter (\<lambda>(b, n). 0 < n) out' = map shows_msg ms \<and> waiting CS_IDLE c' []"
  using assms
proof (induction chunks arbitrary: c rest ms out)
  case Nil
  have "length rest = length (stream (ms @ [(PORT_MSG_FINISH, [0])]))" using Nil.prems(2) by simp
  then show ?case using Nil.prems(3) by (cases ms) auto
next
  case (Cons chunk chunks)
  let ?fin = "(PORT_MSG_FINISH, [0 :: byte])"
  have shown: "filter (\<lambda>(b, n). 0 < n) (map shows_msg ms) = map shows_msg ms" if "\<forall>m \<in> set ms. fits m" for ms
    using that by (auto simp: filter_id_conv shows_msg_def fits_def)
  have len: "8 \<le> length chunk" "length chunk \<le> PORT_BUFFER_SIZE" using Cons.prems(4) by (simp_all add: msg_sizes)
  have "(rest @ chunk) @ concat chunks = stream (ms @ [?fin])" using Cons.prems(2) by simp
  from split_stream [OF this] obtain ds rem left where sp: "ms @ [?fin] = ds @ rem" "rest @ chunk = stream ds @ left"
    "left @ concat chunks = stream rem" "rem = [] \<or> length left < 8 + length (snd (hd rem))" by blast
  show ?case
  proof (cases rem rule: rev_cases)
    case Nil
    then have "chunks = []" "ds = ms @ [?fin]" "left = []" using sp Cons.prems(4) by (cases chunks, auto)
    then have "rest @ chunk = stream ms @ frame PORT_MSG_FINISH [0]" using sp(2) by simp
    from ReadMessage_finish [OF Cons.prems(1) this Cons.prems(3) len(2) Cons.prems(5)] obtain c' bl where
      r: "ReadMessage False chunk c out = Some (0, bl, c', out @ map shows_msg ms)" "holds (1 OR CS_FINISH) c' []"
        "mh_body (cmsg c') = replicate PORT_BUFFER_SIZE 0" by blast
    have "clientStatus c' AND CS_CLIENT_STATE_MASK = CS_FINISH" using r(2) by (simp add: holds_def CS_FINISH_def CS_CLIENT_STATE_MASK_def)
    then have "client_loop False (chunk # chunks) c out = Some (0, [], c'\<lparr>clientStatus := CS_IDLE\<rparr>, out @ map shows_msg ms)"
      using r(1) \<open>chunks = []\<close> by (subst client_loop.simps) simp
    moreover have "waiting CS_IDLE (c'\<lparr>clientStatus := CS_IDLE\<rparr>) []" using r(2,3) by (simp add: waiting_def holds_def CS_IDLE_def)
    ultimately show ?thesis using shown Cons.prems(5) by blast
  next
    case (snoc ns x)
    then have s: "ms = ds @ ns" "rem = ns @ [?fin]" using sp(1) by (simp_all flip: append_assoc)
    have l: "length left < 8 + length (snd (hd rem))" using sp(4) s(2) by simp
    have "fits (hd rem)" using s Cons.prems(5) by (cases ns) (auto simp: fits_def msg_sizes)
    then have "partial_frame left" using partial_next [OF sp(3) _ l] s(2) by simp
    moreover have "ds = [] \<or> length rest < 8 + length (snd (hd ds))" using Cons.prems(3) s(1) by (cases ds) auto
    ultimately obtain c' where r: "ReadMessage False chunk c out = Some (0, False, c', out @ map shows_msg ds @ [nothing])" "waiting 1 c' left"
      using ReadMessage_partial [OF Cons.prems(1) sp(2) _ len] Cons.prems(5) s(1) by auto
    from Cons.IH [OF r(2) sp(3) [unfolded s(2)] l [unfolded s(2)], of "out @ map shows_msg ds @ [nothing]"] Cons.prems(4,5) s(1) obtain c'' out' where
      i: "client_loop False chunks c' (out @ map shows_msg ds @ [nothing]) = Some (0, [], c'', (out @ map shows_msg ds @ [nothing]) @ out')"
        "filter (\<lambda>(b, n). 0 < n) out' = map shows_msg ns" "waiting CS_IDLE c'' []" by auto
    have "clientStatus c' = 1" using r(2) by (simp add: waiting_def holds_def)
    then have "client_loop False (chunk # chunks) c out = client_loop False chunks c' (out @ map shows_msg ds @ [nothing])"
      using r(1) by (subst client_loop.simps) (simp add: CS_FINISH_def CS_CLIENT_STATE_MASK_def)
    then show ?thesis using i shown [of ds] Cons.prems(5) s(1)
      by (intro exI [of _ c''] exI [of _ "map shows_msg ds @ [nothing] @ out'"]) (auto simp: nothing_def)
  qed
qed

lemma client_gets:
  assumes "waiting CS_IDLE c []" "concat chunks = stream (ms @ [(PORT_MSG_FINISH, [0])])"
    and "\<forall>ch \<in> set chunks. 8 \<le> length ch \<and> length ch \<le> SOCKET_BUFFER_LEN"
    and "\<forall>m \<in> set ms. fits m \<and> fst m \<noteq> PORT_MSG_FINISH"
  shows "\<exists>c' out. ProcessClient chunks c = Some (0, [], c', out) \<and> filter (\<lambda>(b, n). 0 < n) out = map shows_msg ms \<and> waiting CS_IDLE c' []"
proof -
  have "clientStatus c = CS_IDLE" using assms(1) by (simp add: waiting_def holds_def)
  then have "waiting 1 (c\<lparr>clientStatus := clientStatus c OR CS_SENDCOMMD\<rparr>) []"
    using assms(1) by (simp add: waiting_def holds_def CS_IDLE_def CS_SENDCOMMD_def CS_BLOCK_def)
  from client_loop_receives [OF this, of chunks ms "[]"] assms(2-4) show ?thesis by (auto simp: ProcessClient_def)
qed

text \<open>
  C9: A client that waits for the answer to a command receives its messages in order and complete, however the
  connection cuts their bytes into chunks of at least the size of a header, and is ready for the next command after
  the last one. Messages are at most as long as a buffer with their header.
\<close>

theorem client_receives_messages:
  assumes "waiting CS_IDLE c []" "concat chunks = stream (ms @ [(PORT_MSG_FINISH, [0])])"
    and "\<forall>ch \<in> set chunks. 8 \<le> length ch \<and> length ch \<le> SOCKET_BUFFER_LEN"
    and "\<forall>m \<in> set ms. fits m \<and> fst m \<noteq> PORT_MSG_FINISH"
  shows "\<exists>c' out. ProcessClient chunks c = Some (0, [], c', out) \<and> filter (\<lambda>(b, n). 0 < n) out = map shows_msg ms \<and> waiting CS_IDLE c' []"
  using assms by (rule client_gets)

section \<open>The server receives a command\<close>

lemma readmsg_receives:
  assumes "holds st c rest" "cmsg c = zero_msg" "rest @ concat chunks = frame t b" "length rest < 8 + length b" "fits (t, b)" "st AND CS_BLOCK = 0"
    and "\<forall>ch \<in> set chunks. 8 \<le> length ch \<and> length ch \<le> MAX_COMMAND_LENGTH"
  shows "\<exists>c'. readmsg_loop chunks c = Some (int (length b), [], c') \<and> holds st c' [] \<and>
     cmsg c' = \<lparr>mh_type = t, mh_size = of_nat (length b), mh_body = fst (shows_msg (t, b))\<rparr>"
  using assms
proof (induction chunks arbitrary: c rest)
  case Nil
  then have "length rest = 8 + length b" by simp
  then show ?case using Nil.prems(4) by simp
next
  case (Cons chunk chunks)
  have z: "mh_body (cmsg c) = replicate PORT_BUFFER_SIZE 0" using Cons.prems(2) by (simp add: zero_msg_def)
  show ?case
  proof (cases "concat chunks = []")
    case True
    then have "chunks = []" using Cons.prems(7) by (cases chunks) auto
    moreover from this have "rest @ chunk = frame t b" using Cons.prems(3) by simp
    ultimately show ?thesis using ParserMsg_complete [of st c rest chunk t b "[]"] Cons.prems(1,5,6) z by (auto simp: fits_def shows_msg_def)
  next
    case False
    have fr: "rest @ chunk @ concat chunks = frame t b" using Cons.prems(3) by simp
    then have "partial_frame (rest @ chunk)" using False Cons.prems(5) unfolding partial_frame_def by (intro exI [of _ "(t, b)"] exI [of _ "concat chunks"]) simp
    then obtain c' where c': "ParserMsg chunk c = Some (0, c')" "holds st c' (rest @ chunk)" "cmsg c' = zero_msg"
      using ParserMsg_partial [of st c rest chunk] Cons.prems(1,6,7) z by auto
    have "length (rest @ chunk) < 8 + length b" using arg_cong [OF fr, of length] False by (cases "concat chunks") simp_all
    then show ?thesis using Cons.IH [OF c'(2,3)] c'(1) Cons.prems(3,5-7) by simp
  qed
qed

lemma ReadMsg_receives:
  assumes "holds st c []" "concat chunks = frame t b" "fits (t, b)" "st AND CS_BLOCK = 0"
    and "\<forall>ch \<in> set chunks. 8 \<le> length ch \<and> length ch \<le> MAX_COMMAND_LENGTH"
  shows "\<exists>c'. ReadMsg chunks c = Some (int (length b), [], c') \<and> holds st c' [] \<and>
     cmsg c' = \<lparr>mh_type = t, mh_size = of_nat (length b), mh_body = fst (shows_msg (t, b))\<rparr>"
proof -
  have "holds st (c\<lparr>cmsg := zero_msg\<rparr>) []" using assms(1) by (simp add: holds_def zero_msg_def)
  then show ?thesis unfolding ReadMsg_def by (rule readmsg_receives) (use assms in simp_all)
qed

section \<open>Sending\<close>

text \<open>\<^verbatim>\<open>WriteData\<close> hands all bytes to the kernel in order, unless a call of \<^verbatim>\<open>send\<close> fails for good.\<close>

lemma write_loop_sends:
  "Broken \<notin> set (results s) \<Longrightarrow> \<exists>ret s'. write_loop bs s = (ret, s') \<and> 0 \<le> ret \<and> wire s' = wire s @ bs \<and> Broken \<notin> set (results s')"
proof (induction bs s rule: write_loop.induct)
  case (1 bs s)
  show ?case
  proof (cases "results s")
    case Nil
    then show ?thesis by (simp add: write_loop.simps)
  next
    case (Cons r rs)
    then have br: "r \<noteq> Broken" "Broken \<notin> set rs" using "1.prems" by auto
    show ?thesis
    proof (cases r)
      case (Sent n)
      let ?k = "min n (length bs)"
      let ?s = "s\<lparr>results := rs, wire := wire s @ take ?k bs\<rparr>"
      have eq: "write_loop bs s = (if ?k \<noteq> length bs then write_loop (drop ?k bs) ?s else (int ?k, ?s))"
        using Cons Sent by (subst write_loop.simps) (simp add: Let_def)
      show ?thesis
      proof (cases "?k = length bs")
        case True
        then show ?thesis using eq br(2) by simp
      next
        case False
        then obtain ret s' where "write_loop (drop ?k bs) ?s = (ret, s')" "0 \<le> ret" "wire s' = wire ?s @ drop ?k bs" "Broken \<notin> set (results s')"
          using "1.IH"(1) [OF Cons Sent refl refl] br(2) by (cases "n = length bs") auto
        then show ?thesis using eq False by (cases "n = length bs") auto
      qed
    next
      case Interrupted
      then show ?thesis using "1.IH"(2) [OF Cons] br(2) Cons by (subst write_loop.simps) auto
    qed (use br in auto)
  qed
qed

lemma WriteData_sends:
  assumes "Broken \<notin> set (results s)" "0 \<le> sockfd"
  obtains ret s' where "WriteData sockfd bs s = (ret, s')" "0 \<le> ret" "wire s' = wire s @ bs" "Broken \<notin> set (results s')"
  using write_loop_sends [OF assms(1), of bs] assms(2) by (auto simp: WriteData_def)

section \<open>Chunks that are too short\<close>

text \<open>
  C37: A chunk that does not complete the header of a message is lost: the client goes on as if the chunk had not
  arrived.
\<close>

theorem short_chunk_is_lost:
  assumes "waiting st c rest" "cmsg c = zero_msg" "st AND CS_CLIENT_STATE_MASK \<noteq> CS_FINISH" "chunk \<noteq> []" "length rest + length chunk < MSG_HEADER_LEN"
  shows "client_loop False (chunk # chunks) c out = client_loop False chunks c (out @ [nothing])"
proof -
  have st: "clientStatus c = st" "restLen c = int (length rest)" "st AND CS_BLOCK = 0" using assms(1) by (auto simp: waiting_def holds_def)
  have "ParserMsg chunk c = Some (0, c)" using st(2) assms(5) by (intro ParserMsg_short) (simp add: MSG_HEADER_LEN_def)
  then have "read_loop chunk c out = Some (c, out @ [nothing])"
    using assms(2) by (subst read_loop.simps) (simp add: zero_msg_def nothing_def PORT_MSG_FINISH_def)
  then show ?thesis using assms(3,4) st(1,3) by (subst client_loop.simps) (simp add: ReadMessage_def)
qed

theorem short_chunk_is_lost_witness:
  "client_loop False [[1, 0, 0, 0], frame 2 [65, 0]] zero_client [] = client_loop False [frame 2 [65, 0]] zero_client [nothing]"
  using short_chunk_is_lost [of CS_IDLE zero_client "[]" "[1, 0, 0, 0]" "[frame 2 [65, 0]]" "[]"]
  by (simp add: waiting_def holds_def zero_client_def zero_msg_def msg_sizes CS_IDLE_def CS_FINISH_def)

section \<open>A client that waits for ever\<close>

lemma blocked_ParserMsg:
  assumes "holds st c rest" "8 \<le> length rest" "rest @ future = frame t body" "future \<noteq> []" "length body < PORT_BUFFER_SIZE"
  shows "ParserMsg [] c = Some (0, c\<lparr>cmsg := \<lparr>mh_type = 0, mh_size = 0, mh_body = mh_body (cmsg c)\<rparr>\<rparr>)"
proof -
  obtain junk where c: "restMsg c = rest @ junk" "restLen c = int (length rest)" by (rule holdsE [OF assms(1)])
  let ?s = "of_nat (length body) :: i32"
  have s: "sint ?s = int (length body)" using assms(5) by (intro sint_of_nat_small) (simp add: msg_sizes)
  have len: "length rest + length future = 8 + length body" "0 < length future" using arg_cong [OF assms(3), of length] assms(4) by simp_all
  have "take 8 rest = take 8 (frame t body)" using arg_cong [OF assms(3), of "take 8"] assms(2) by simp
  note hdr = frame_header [OF this assms(2)]
  have "\<not> 0 \<ge> int (length body) - int (length rest) + 8" "int (length body) < int PORT_BUFFER_SIZE"
    "int (length body) > int (length rest) \<or> int (length rest) - 8 < int (length body)" using len assms(5) by linarith+
  then have "parse_body [] c = Some (0, c\<lparr>cmsg := \<lparr>mh_type = 0, mh_size = 0, mh_body = mh_body (cmsg c)\<rparr>\<rparr>)"
    unfolding parse_body_def c(1) using hdr s c(2)
    by (cases "cmsg c") (simp add: MSG_HEADER_LEN_def Let_def wait_msg_def save_rest_def move_rest_def)
  then show ?thesis using c(2) assms(2) by (simp add: ParserMsg_def MSG_HEADER_LEN_def)
qed

definition stuck :: "ClientContext \<Rightarrow> bool" where
  "stuck c \<longleftrightarrow> ParserMsg [] c = Some (0, c\<lparr>cmsg := zero_msg\<rparr>) \<and> clientStatus c AND CS_BLOCK \<noteq> 0 \<and> clientStatus c AND CS_CLIENT_STATE_MASK \<noteq> CS_FINISH \<and>
     cmsg c = zero_msg"

lemma stuck_for_ever: "stuck c \<Longrightarrow> client_loop True chunks c out = None"
proof (rule ccontr)
  assume "stuck c" "client_loop True chunks c out \<noteq> None"
  then obtain r where "client_loop True chunks c out = Some r" by auto
  then have "\<not> (True \<and> stuck c)"
  proof (rule client_loop.raw_induct [where P = "\<lambda>bl chs c out r. \<not> (bl \<and> stuck c)", rotated])
    fix f blocked chunks c out r
    assume IH: "\<And>bl chs c out r. f bl chs c out = Some r \<Longrightarrow> \<not> (bl \<and> stuck c)"
      and eq: "(let (chunk, rest) = if blocked then ([], chunks) else case chunks of [] \<Rightarrow> ([], []) | b # bs \<Rightarrow> (b, bs)
        in ReadMessage blocked chunk c out \<bind>
           (\<lambda>(ret, blocked, c, out). if 0 \<le> ret \<and> clientStatus c AND CS_CLIENT_STATE_MASK \<noteq> CS_FINISH then f blocked rest c out
              else Some (ret, rest, c\<lparr>clientStatus := CS_IDLE\<rparr>, out))) = Some r"
    show "\<not> (blocked \<and> stuck c)"
    proof
      assume s: "blocked \<and> stuck c"
      then have "c\<lparr>cmsg := zero_msg\<rparr> = c" by (simp add: stuck_def)
      then have "read_loop [] c out = Some (c, out @ [nothing])"
        using s by (subst read_loop.simps) (simp add: stuck_def zero_msg_def nothing_def PORT_MSG_FINISH_def)
      then have "ReadMessage True [] c out = Some (0, True, c, out @ [nothing])" using s by (simp add: ReadMessage_def stuck_def)
      then have "f True chunks c (out @ [nothing]) = Some r" using s eq by (simp add: stuck_def)
      then show False using IH s by blast
    qed
  qed
  then show False using \<open>stuck c\<close> by simp
qed

lemma wait_msg_blocks:
  assumes "holds st c rest" "inp \<noteq> []" "PORT_BUFFER_SIZE < length rest + length inp" "length rest + length inp \<le> 2 * PORT_BUFFER_SIZE"
  shows "\<exists>c'. wait_msg inp c = Some (0, c') \<and> holds (st OR CS_BLOCK) c' (rest @ inp) \<and> cmsg c' = (cmsg c)\<lparr>mh_type := 0, mh_size := 0\<rparr>"
proof -
  obtain junk where c: "restMsg c = rest @ junk" "length junk = 2 * PORT_BUFFER_SIZE - length rest" "restLen c = int (length rest)" "clientStatus c = st"
    "length (mh_body (cmsg c)) = PORT_BUFFER_SIZE" by (rule holdsE [OF assms(1)])
  have "buf_put (int (length rest)) inp (rest @ junk) = Some (rest @ inp @ drop (length inp) junk)"
    using assms(4) c(2) by (intro buf_put_app) simp_all
  moreover have "int (length inp) > int PORT_BUFFER_SIZE - int (length rest)" using assms(3) by linarith
  ultimately show ?thesis using assms c by (auto simp: wait_msg_def save_rest_def move_rest_def holds_def)
qed

lemma CS_BLOCK_bits: "((st :: i32) OR CS_BLOCK) AND CS_BLOCK \<noteq> 0" "(st OR CS_BLOCK) AND CS_CLIENT_STATE_MASK = st AND CS_CLIENT_STATE_MASK"
proof -
  have b: "CS_BLOCK AND CS_CLIENT_STATE_MASK = 0" by (simp add: CS_BLOCK_def CS_CLIENT_STATE_MASK_def)
  have "(st OR CS_BLOCK) AND CS_BLOCK = CS_BLOCK" by (auto simp: bit_eq_iff bit_simps)
  then show "(st OR CS_BLOCK) AND CS_BLOCK \<noteq> 0" by (simp add: CS_BLOCK_def)
  show "(st OR CS_BLOCK) AND CS_CLIENT_STATE_MASK = st AND CS_CLIENT_STATE_MASK" by (simp add: bit.conj_disj_distrib2 b)
qed

text \<open>
  C38: A message that together with its header is longer than the buffer of the socket can block the client for
  ever: once more bytes than the buffer has are waiting, the client neither reads the rest of the message nor returns,
  whatever arrives after it.
\<close>

theorem long_message_blocks_client:
  assumes "waiting st c rest" "8 \<le> length rest" "chunk \<noteq> []" "rest @ chunk @ future = frame t body" "future \<noteq> []" "length body < PORT_BUFFER_SIZE"
    and "PORT_BUFFER_SIZE < length rest + length chunk" "st AND CS_CLIENT_STATE_MASK \<noteq> CS_FINISH"
  shows "client_loop False (chunk # chunks) c out = None"
proof -
  obtain junk where c: "restMsg c = rest @ junk" "restLen c = int (length rest)" "clientStatus c = st" "mh_body (cmsg c) = replicate PORT_BUFFER_SIZE 0"
    using assms(1) by (auto simp: waiting_def holds_def)
  let ?s = "of_nat (length body) :: i32"
  let ?c = "c\<lparr>cmsg := (cmsg c)\<lparr>mh_type := t, mh_size := ?s\<rparr>\<rparr>"
  have s: "sint ?s = int (length body)" using assms(6) by (intro sint_of_nat_small) (simp add: msg_sizes)
  have len: "length rest + length chunk + length future = 8 + length body" "0 < length future" using arg_cong [OF assms(4), of length] assms(5) by simp_all
  have "take 8 rest = take 8 (frame t body)" using arg_cong [OF assms(4), of "take 8"] assms(2) by simp
  note hdr = frame_header [OF this assms(2)]
  have "holds st ?c rest" using assms(1) by (auto simp: waiting_def holds_def)
  from wait_msg_blocks [OF this assms(3,7)] len assms(6) obtain c' where
    w: "wait_msg chunk ?c = Some (0, c')" "holds (st OR CS_BLOCK) c' (rest @ chunk)" "cmsg c' = (cmsg ?c)\<lparr>mh_type := 0, mh_size := 0\<rparr>" by (auto simp: msg_sizes)
  have z: "cmsg c' = zero_msg" using w(3) c(4) by (cases "cmsg c") (simp add: zero_msg_def)
  have "\<not> int (length chunk) \<ge> int (length body) - int (length rest) + 8" "int (length body) < int PORT_BUFFER_SIZE"
    "int (length body) > int (length rest) + int (length chunk) \<or> int (length rest) - 8 < int (length body)" using len assms(6) by linarith+
  then have "parse_body chunk c = wait_msg chunk ?c" unfolding parse_body_def c(1) using hdr s c(2) by (simp add: MSG_HEADER_LEN_def Let_def)
  then have "ParserMsg chunk c = Some (0, c')" using w(1) c(2) assms(2) by (simp add: ParserMsg_def MSG_HEADER_LEN_def)
  then have "read_loop chunk c out = Some (c'\<lparr>cmsg := zero_msg\<rparr>, out @ [nothing])"
    using z by (subst read_loop.simps) (simp add: zero_msg_def nothing_def PORT_MSG_FINISH_def)
  moreover have c': "c'\<lparr>cmsg := zero_msg\<rparr> = c'" using z by simp
  moreover have st': "clientStatus c' = st OR CS_BLOCK" using w(2) by (simp add: holds_def)
  ultimately have "ReadMessage False chunk c out = Some (0, True, c', out @ [nothing])"
    using assms(3) CS_BLOCK_bits(1) [of st] by (simp add: ReadMessage_def)
  moreover have "stuck c'"
    using blocked_ParserMsg [OF w(2), of future t body] assms(2,4-6,8) z c' st' CS_BLOCK_bits [of st] by (simp add: stuck_def zero_msg_def)
  ultimately show ?thesis using stuck_for_ever st' assms(8) CS_BLOCK_bits(2) [of st] by (subst client_loop.simps) simp
qed

definition held :: "byte list \<Rightarrow> ClientContext" where
  "held rest = zero_client\<lparr>clientStatus := CS_SENDCOMMD, restLen := int (length rest), restMsg := rest @ replicate (2 * PORT_BUFFER_SIZE - length rest) 0\<rparr>"

lemma waiting_held: "length rest \<le> 2 * PORT_BUFFER_SIZE \<Longrightarrow> waiting CS_SENDCOMMD (held rest) rest"
  by (auto simp: waiting_def holds_def held_def zero_client_def zero_msg_def CS_SENDCOMMD_def CS_BLOCK_def)

theorem long_message_blocks_client_witness:
  "client_loop False [[1], replicate 6 1] (held (bytes_of 4 (2 :: i32) @ bytes_of 4 (2047 :: i32) @ replicate 2040 1)) [] = None"
proof -
  let ?rest = "bytes_of 4 (2 :: i32) @ bytes_of 4 (2047 :: i32) @ replicate 2040 (1 :: byte)"
  have "replicate 2040 (1 :: byte) @ [1] @ replicate 6 1 = replicate (2040 + (1 + 6)) 1" by (simp only: replicate_add) simp
  then have "?rest @ [1] @ replicate 6 1 = frame 2 (replicate 2047 1)" by (simp add: frame_def)
  then show ?thesis
    using long_message_blocks_client [of CS_SENDCOMMD "held ?rest" ?rest "[1]" "replicate 6 1" 2 "replicate 2047 1" "[replicate 6 1]" "[]"]
      waiting_held [of ?rest] by (simp add: msg_sizes CS_SENDCOMMD_def CS_FINISH_def CS_CLIENT_STATE_MASK_def)
qed

lemma waiting_zero: "waiting CS_IDLE zero_client []"
  by (simp add: waiting_def holds_def zero_client_def zero_msg_def msg_sizes CS_IDLE_def)

theorem client_receives_messages_witness:
  "\<exists>c' out. ProcessClient [take 9 (stream [(2, [65, 0]), (PORT_MSG_FINISH, [0])]), drop 9 (stream [(2, [65, 0]), (PORT_MSG_FINISH, [0])])] zero_client
       = Some (0, [], c', out) \<and>
     filter (\<lambda>(b, n). 0 < n) out = [shows_msg (2, [65, 0])] \<and> waiting CS_IDLE c' []"
proof -
  let ?s = "stream [(2, [65, 0]), (PORT_MSG_FINISH, [0])]"
  have "concat [take 9 ?s, drop 9 ?s] = stream ([(2, [65, 0])] @ [(PORT_MSG_FINISH, [0])])" by (simp only: concat.simps append_Nil2 append_take_drop_id) simp
  from client_receives_messages [OF waiting_zero this] show ?thesis
    by (simp add: msg_sizes fits_def PORT_MSG_FINISH_def)
qed

end
