(* ===== verification/Portal.thy ===== *)
theory Portal
  imports Protocol Tuples TableScan
begin

text \<open>
  The portal of a server, after \<^verbatim>\<open>src/portal/portal.c\<close> and \<^verbatim>\<open>src/portal/netclient.c\<close>: it turns the rows of a query into
  messages and sends them to the client. The model is that of a server with clients (\<^verbatim>\<open>TOADSERV_CS_MODE_SERVER\<close>); in the
  other run modes no portal is ever created.

  The buffer of the portal is the body of its message, which lies inside the structure of the portal: a write behind it has
  no result. \<open>fl_text\<close> is the text of a floating-point number, the conversion \<^verbatim>\<open>%f\<close> of the C library. A name is
  the list of its bytes before the terminator.
\<close>

section \<open>Text\<close>

definition MIN_DATA_SIZE :: int where "MIN_DATA_SIZE = int ROW_COLUMN_HEADER_SIZE"

definition BAR :: byte where "BAR = 124"
definition BLANK :: byte where "BLANK = 32"
definition MINUS :: byte where "MINUS = 45"

text \<open>The conversions \<^verbatim>\<open>%d\<close> and \<^verbatim>\<open>%*s\<close>.\<close>

fun digits :: "nat \<Rightarrow> byte list" where
  "digits n = (if n < 10 then [48 + of_nat n] else digits (n div 10) @ [48 + of_nat (n mod 10)])"

declare digits.simps [simp del]

definition dec_text :: "int \<Rightarrow> byte list" where
  "dec_text i = (if i < 0 then MINUS # digits (nat (- i)) else digits (nat i))"

definition pad :: "int \<Rightarrow> byte list \<Rightarrow> byte list" where
  "pad width s = replicate (nat width - length s) BLANK @ s"

text \<open>\<^verbatim>\<open>strlen\<close> of the buffer and \<^verbatim>\<open>snprintf\<close> into it; a negative size is a large number as \<^verbatim>\<open>size_t\<close>.\<close>

definition buf_strlen :: "byte list \<Rightarrow> nat option" where
  "buf_strlen buf = (if 0 \<in> set buf then Some (length (takeWhile (\<lambda>b. b \<noteq> 0) buf)) else None)"

definition snprintf_at :: "int \<Rightarrow> int \<Rightarrow> byte list \<Rightarrow> byte list \<Rightarrow> byte list option" where
  "snprintf_at off size_max s buf =
     (if size_max = 0 then Some buf
      else buf_put off ((if size_max < 0 then s else take (nat size_max - 1) s) @ [0]) buf)"

section \<open>The portal\<close>

datatype PortFlag = PORT_ROW_HEADER | PORT_ROW_STRING | PORT_NOTHING

record TargetEntry =
  te_rindex :: int
  te_attrIndex :: int
  te_name :: "byte list option"
  te_field :: "byte list"
  te_vt :: valueType

record Portal =
  p_flag :: PortFlag
  p_type :: i32
  p_size :: int
  p_body :: "byte list"
  clientFd :: int
  p_rowData :: "TableRowData option"
  p_targetList :: "TargetEntry list option"
  targetValTypeArr :: "valueType list option"
  attrWidth :: "int list option"
  p_sock :: sock

definition InitPortal :: "Portal \<Rightarrow> Portal" where
  "InitPortal p = p\<lparr>p_type := PORT_MSG_START, p_flag := PORT_NOTHING\<rparr>"

text \<open>The memory of a new portal is zero.\<close>

definition CreatePortal :: "int \<Rightarrow> sock \<Rightarrow> Portal" where
  "CreatePortal fd s = InitPortal \<lparr>p_flag = PORT_ROW_HEADER, p_type = 0, p_size = 0, p_body = replicate PORT_BUFFER_SIZE 0, clientFd = fd, p_rowData = None,
     p_targetList = None, targetValTypeArr = None, attrWidth = None, p_sock = s\<rparr>"

definition InitTargetAttrType :: "Portal \<Rightarrow> int \<times> Portal" where
  "InitTargetAttrType p =
     (case p_targetList p of
        None \<Rightarrow> (-1, p)
      | Some tes \<Rightarrow>
          if tes = [] then (-1, p)
          else (0, p\<lparr>targetValTypeArr := Some (map te_vt tes), attrWidth := Some (replicate (length tes) 0)\<rparr>))"

definition InitSelectPortal :: "TargetEntry list option \<Rightarrow> Portal \<Rightarrow> int \<times> Portal" where
  "InitSelectPortal targets p =
     InitTargetAttrType ((if p_targetList p = None then p\<lparr>p_targetList := targets\<rparr> else p)\<lparr>p_flag := PORT_ROW_HEADER\<rparr>)"

text \<open>The message with its header; \<^verbatim>\<open>WriteData\<close> reads \<^verbatim>\<open>size\<close> bytes of the body.\<close>

definition WritePortalMessage :: "Portal \<Rightarrow> (int \<times> Portal) option" where
  "WritePortalMessage p =
     (if clientFd p \<le> 0 then Some (-2, p)
      else do {
        bs \<leftarrow> buf_get 0 (p_size p) (p_body p);
        let (ret, s) = WriteData (clientFd p) (bytes_of 4 (p_type p) @ bytes_of 4 (of_int (p_size p) :: i32) @ bs) (p_sock p);
        Some (ret, p\<lparr>p_sock := s\<rparr>) })"

definition FlushPortal :: "Portal \<Rightarrow> (int \<times> Portal) option" where
  "FlushPortal p = do {
     p \<leftarrow> (if p_size p \<le> 0 then do { n \<leftarrow> buf_strlen (p_body p); Some (p\<lparr>p_size := int n + 1\<rparr>) } else Some p);
     (ret, p) \<leftarrow> WritePortalMessage p;
     Some (ret, p\<lparr>p_size := -1, p_body := replicate PORT_BUFFER_SIZE 0\<rparr>) }"

section \<open>The text of a row\<close>

text \<open>
  \<^verbatim>\<open>GetValueInfo\<close>: the width it returns and what it prints, if anything. Data that a column does not have are read
  from behind it, which has no result.
\<close>

definition GetValueInfo :: "(i32 \<Rightarrow> byte list) \<Rightarrow> valueType \<Rightarrow> RowColumnData option \<Rightarrow> int \<Rightarrow> (int \<times> byte list option) option" where
  "GetValueInfo fl_text vt col width =
     (case col of
        None \<Rightarrow> Some (-1, None)
      | Some c \<Rightarrow>
          if sint (rc_size c) = MIN_DATA_SIZE then Some (2, Some (BAR # pad width [BLANK]))
          else if vt \<in> {VT_INT, VT_INTEGER} then
            (if length (rc_data c) < 4 then None
             else (let s = dec_text (sint (word_of (take 4 (rc_data c)) :: i32)); w = max width (int (length s)) in Some (w, Some (BAR # pad w s))))
          else if vt \<in> {VT_VARCHAR, VT_STRING} then
            (if 0 \<notin> set (rc_data c) then None
             else (let w = max width (sint (rc_size c)) in Some (w, Some (BAR # pad w (takeWhile (\<lambda>b. b \<noteq> 0) (rc_data c))))))
          else if vt \<in> {VT_CHAR, VT_BOOL} then
            (case rc_data c of [] \<Rightarrow> None | b # _ \<Rightarrow> (let w = max width 1 in Some (w, Some (BAR # pad w [b]))))
          else if vt \<in> {VT_DOUBLE, VT_FLOAT} then
            (if length (rc_data c) < 4 then None
             else (let s = fl_text (word_of (take 4 (rc_data c))); w = max width (int (length s)) in Some (w, Some (BAR # pad w s))))
          else Some (width, None))"

text \<open>The loop of \<^verbatim>\<open>ClientRowDataSend\<close> over the \<open>n\<close> columns from \<open>i\<close> on.\<close>

fun send_cols :: "(i32 \<Rightarrow> byte list) \<Rightarrow> valueType list \<Rightarrow> RowColumnData option list \<Rightarrow> nat \<Rightarrow> nat \<Rightarrow> int \<Rightarrow> byte list \<Rightarrow> (int \<times> byte list) option" where
  "send_cols fl_text vts cols i 0 off buf = Some (off, buf)"
| "send_cols fl_text vts cols i (Suc n) off buf = do {
     vt \<leftarrow> arr_get vts (int i);
     c \<leftarrow> arr_get cols (int i);
     (width, s) \<leftarrow> GetValueInfo fl_text vt c 0;
     buf \<leftarrow> (case s of None \<Rightarrow> Some buf | Some s \<Rightarrow> snprintf_at off (int PORT_BUFFER_SIZE) s buf);
     send_cols fl_text vts cols (Suc i) n (off + width + 1) buf }"

definition ClientRowDataSend :: "(i32 \<Rightarrow> byte list) \<Rightarrow> Portal \<Rightarrow> (int \<times> Portal) option" where
  "ClientRowDataSend fl_text p =
     (case p_rowData p of
        None \<Rightarrow> Some (0, p)
      | Some row \<Rightarrow> do {
          vts \<leftarrow> (case targetValTypeArr p of None \<Rightarrow> if sint (tr_num row) > 0 then None else Some [] | Some vts \<Rightarrow> Some vts);
          (off, buf) \<leftarrow> send_cols fl_text vts (columnData row) 0 (nat (sint (tr_num row))) 0 (p_body p);
          buf \<leftarrow> snprintf_at off (int PORT_BUFFER_SIZE - off) [BAR] buf;
          Some (off + 2, p\<lparr>p_body := buf\<rparr>) })"

definition PortalSendRows :: "(i32 \<Rightarrow> byte list) \<Rightarrow> Portal \<Rightarrow> (int \<times> Portal) option" where
  "PortalSendRows fl_text p = ClientRowDataSend fl_text p"

fun head_loop :: "TargetEntry list \<Rightarrow> int \<Rightarrow> byte list \<Rightarrow> (int \<times> byte list) option" where
  "head_loop [] off buf = Some (off, buf)"
| "head_loop (te # tes) off buf = do {
     buf \<leftarrow> snprintf_at off (int PORT_BUFFER_SIZE - off) (BAR # (case te_name te of Some s \<Rightarrow> s | None \<Rightarrow> te_field te)) buf;
     n \<leftarrow> buf_strlen buf;
     head_loop tes (int n) buf }"

definition GeneralVirtualTableHeadRaw :: "Portal \<Rightarrow> (int \<times> Portal) option" where
  "GeneralVirtualTableHeadRaw p =
     (case p_targetList p of
        None \<Rightarrow> Some (-1, p)
      | Some tes \<Rightarrow> do {
          (off, buf) \<leftarrow> head_loop tes 0 (p_body p);
          buf \<leftarrow> snprintf_at off (int PORT_BUFFER_SIZE - off) [BAR] buf;
          Some (off + 2, p\<lparr>p_body := buf\<rparr>) })"

section \<open>Sending\<close>

definition next_type :: "i32 \<Rightarrow> i32" where
  "next_type t = (if t = PORT_MSG_START then PORT_MSG_BEGIN else if t = PORT_MSG_BEGIN then PORT_MSG_CONTINUE else t)"

text \<open>The end of \<^verbatim>\<open>SendToNetPort\<close>; the result of the flush is not used.\<close>

definition flush_sized :: "int \<Rightarrow> Portal \<Rightarrow> (int \<times> Portal) option" where
  "flush_sized ret p = do {
     (_, p) \<leftarrow> FlushPortal (p\<lparr>p_size := ret\<rparr>);
     Some (ret, p) }"

definition SendToNetPort :: "(i32 \<Rightarrow> byte list) \<Rightarrow> Portal \<Rightarrow> (int \<times> Portal) option" where
  "SendToNetPort fl_text p = do {
     let p = p\<lparr>p_type := next_type (p_type p)\<rparr>;
     case p_flag p of
       PORT_ROW_HEADER \<Rightarrow> do {
         (ret, p) \<leftarrow> GeneralVirtualTableHeadRaw p;
         let p = p\<lparr>p_flag := PORT_NOTHING\<rparr>;
         if ret \<le> 0 then Some (ret, p)
         else do {
           (_, p) \<leftarrow> flush_sized ret p;
           (ret, p) \<leftarrow> PortalSendRows fl_text p;
           if ret \<le> 0 then Some (ret, p) else flush_sized ret p } }
     | PORT_ROW_STRING \<Rightarrow> do {
         n \<leftarrow> buf_strlen (p_body p);
         flush_sized (int n) (p\<lparr>p_flag := PORT_NOTHING\<rparr>) }
     | PORT_NOTHING \<Rightarrow> do {
         (ret, p) \<leftarrow> PortalSendRows fl_text p;
         if ret \<le> 0 then Some (ret, p) else flush_sized ret p } }"

definition SendToPort :: "(i32 \<Rightarrow> byte list) \<Rightarrow> TableRowData \<Rightarrow> Portal \<Rightarrow> (int \<times> Portal) option" where
  "SendToPort fl_text row p = SendToNetPort fl_text (p\<lparr>p_rowData := Some row\<rparr>)"

definition SendToPortStr :: "(i32 \<Rightarrow> byte list) \<Rightarrow> byte list \<Rightarrow> Portal \<Rightarrow> (int \<times> Portal) option" where
  "SendToPortStr fl_text s p =
     (if s = [] then Some (-1, p)
      else do {
        buf \<leftarrow> snprintf_at 0 (int PORT_BUFFER_SIZE) s (p_body p);
        SendToNetPort fl_text (p\<lparr>p_body := buf, p_flag := PORT_ROW_STRING\<rparr>) })"

text \<open>
  \<^verbatim>\<open>FinishSend\<close> frees \<^verbatim>\<open>attrWidth\<close> and leaves the pointer, which \<^verbatim>\<open>EndPort\<close> frees again. \<^verbatim>\<open>EndPort\<close> frees both arrays after the command has deleted the memory context
  in which they lie. The release of memory has no place in the model of the portal: the two functions only clear the pointers.
\<close>

definition FinishSend :: "Portal \<Rightarrow> int \<times> Portal" where
  "FinishSend p = (if p_targetList p = None then (-1, p) else (0, p))"

definition EndPort :: "Portal \<Rightarrow> (int \<times> Portal) option" where
  "EndPort p = do {
     (_, p) \<leftarrow> FlushPortal p;
     (_, p) \<leftarrow> FlushPortal (p\<lparr>p_type := PORT_MSG_FINISH\<rparr>);
     Some (0, p\<lparr>targetValTypeArr := None, attrWidth := None, p_targetList := None, p_rowData := None\<rparr>) }"

section \<open>Messages on the wire\<close>

abbreviation zeros :: "byte list" where
  "zeros \<equiv> replicate PORT_BUFFER_SIZE 0"

text \<open>The connection is open and no error of \<^verbatim>\<open>send\<close> is to come.\<close>

definition connected :: "Portal \<Rightarrow> bool" where
  "connected p \<longleftrightarrow> 0 < clientFd p \<and> Broken \<notin> set (results (p_sock p))"

definition ready :: "Portal \<Rightarrow> bool" where
  "ready p \<longleftrightarrow> connected p \<and> p_body p = zeros \<and> p_size p \<le> 0"

text \<open>The portal after a flush: only the connection has changed.\<close>

definition flushed :: "wire_msg list \<Rightarrow> Portal \<Rightarrow> Portal \<Rightarrow> bool" where
  "flushed ms p p' \<longleftrightarrow> ready p' \<and> wire (p_sock p') = wire (p_sock p) @ stream ms \<and>
     p' = p\<lparr>p_size := -1, p_body := zeros, p_sock := p_sock p'\<rparr>"

lemma flushedD:
  assumes "flushed ms p p'"
  shows "p_type p' = p_type p" "p_flag p' = p_flag p" "p_targetList p' = p_targetList p" "targetValTypeArr p' = targetValTypeArr p"
    "p_rowData p' = p_rowData p" "ready p'" "wire (p_sock p') = wire (p_sock p) @ stream ms"
proof -
  have eq: "p' = p\<lparr>p_size := -1, p_body := zeros, p_sock := p_sock p'\<rparr>" using assms by (simp add: flushed_def)
  from arg_cong [OF eq, of p_type] arg_cong [OF eq, of p_flag] arg_cong [OF eq, of p_targetList] arg_cong [OF eq, of targetValTypeArr]
    arg_cong [OF eq, of p_rowData]
  show "p_type p' = p_type p" "p_flag p' = p_flag p" "p_targetList p' = p_targetList p" "targetValTypeArr p' = targetValTypeArr p"
    "p_rowData p' = p_rowData p" by simp_all
  show "ready p'" "wire (p_sock p') = wire (p_sock p) @ stream ms" using assms by (simp_all add: flushed_def)
qed

lemma FlushPortal_sized:
  assumes "connected p" "0 < p_size p" "p_size p \<le> int (length (p_body p))" "length (p_body p) = PORT_BUFFER_SIZE"
  shows "\<exists>ret p'. FlushPortal p = Some (ret, p') \<and> flushed [(p_type p, take (nat (p_size p)) (p_body p))] p p'"
proof -
  let ?bs = "take (nat (p_size p)) (p_body p)"
  have "buf_get 0 (p_size p) (p_body p) = Some ?bs" using assms(2,3) by (simp add: buf_get_def)
  moreover obtain ret s' where "WriteData (clientFd p) (frame (p_type p) ?bs) (p_sock p) = (ret, s')"
    "wire s' = wire (p_sock p) @ frame (p_type p) ?bs" "Broken \<notin> set (results s')"
    using assms(1) by (auto simp: connected_def intro: WriteData_sends [of "p_sock p" "clientFd p" "frame (p_type p) ?bs"])
  moreover have "(of_nat (length ?bs) :: i32) = of_int (p_size p)"
  proof -
    have "length ?bs = nat (p_size p)" using assms(2,3) by simp
    then show ?thesis using assms(2) by simp
  qed
  ultimately show ?thesis using assms(1,2) by (auto simp: FlushPortal_def WritePortalMessage_def frame_def flushed_def ready_def connected_def)
qed

lemma takeWhile_text: "0 \<notin> set s \<Longrightarrow> takeWhile (\<lambda>b. b \<noteq> 0) (s @ 0 # t) = (s :: byte list)"
  by (induction s) auto

lemma zeros_split: "n < PORT_BUFFER_SIZE \<Longrightarrow> replicate (PORT_BUFFER_SIZE - n) (0 :: byte) = 0 # replicate (PORT_BUFFER_SIZE - Suc n) 0"
  by (metis Suc_diff_Suc replicate_Suc)

text \<open>The buffer holds the text \<open>s\<close> and zeros behind it.\<close>

definition text_buf :: "byte list \<Rightarrow> byte list" where
  "text_buf s = s @ replicate (PORT_BUFFER_SIZE - length s) 0"

lemma text_buf_simps: "text_buf [] = zeros" "length s \<le> PORT_BUFFER_SIZE \<Longrightarrow> length (text_buf s) = PORT_BUFFER_SIZE"
  by (simp_all add: text_buf_def)

lemma strlen_text_buf: "0 \<notin> set s \<Longrightarrow> length s < PORT_BUFFER_SIZE \<Longrightarrow> buf_strlen (text_buf s) = Some (length s)"
  by (simp add: buf_strlen_def text_buf_def zeros_split takeWhile_text)

lemma take_text_buf: "length s < PORT_BUFFER_SIZE \<Longrightarrow> take (Suc (length s)) (text_buf s) = s @ [0]"
  by (simp add: text_buf_def zeros_split)

lemma snprintf_text_buf:
  assumes "length s + length t < PORT_BUFFER_SIZE" "off = int (length s)" "int (length t) < size_max"
  shows "snprintf_at off size_max t (text_buf s) = Some (text_buf (s @ t))"
proof -
  have "take (nat size_max - 1) t = t" using assms(3) by simp
  moreover have "buf_put (int (length s)) (t @ [0]) (text_buf s) = Some (s @ (t @ [0]) @ drop (length (t @ [0])) (replicate (PORT_BUFFER_SIZE - length s) 0))"
    unfolding text_buf_def using assms(1) by (intro buf_put_app) simp_all
  moreover have "s @ (t @ [0]) @ drop (length (t @ [0])) (replicate (PORT_BUFFER_SIZE - length s) 0) = text_buf (s @ t)"
    using assms(1) by (simp add: text_buf_def zeros_split)
  ultimately show ?thesis using assms(2,3) by (simp add: snprintf_at_def)
qed

lemma flush_sized_text:
  assumes "connected p" "p_body p = text_buf s" "length s < PORT_BUFFER_SIZE"
  shows "\<exists>p'. flush_sized (int (length s) + 1) p = Some (int (length s) + 1, p') \<and> flushed [(p_type p, s @ [0])] p p'"
proof -
  let ?p = "p\<lparr>p_size := int (length s) + 1\<rparr>"
  have "connected ?p" "0 < p_size ?p" "p_size ?p \<le> int (length (p_body ?p))" "length (p_body ?p) = PORT_BUFFER_SIZE"
    using assms by (simp_all add: connected_def text_buf_simps)
  from FlushPortal_sized [OF this] obtain ret p' where
    "FlushPortal ?p = Some (ret, p')" "flushed [(p_type p, take (nat (int (length s) + 1)) (text_buf s))] ?p p'" using assms(2) by auto
  moreover have "nat (int (length s) + 1) = Suc (length s)" by simp
  ultimately show ?thesis using take_text_buf [OF assms(3)] by (auto simp: flush_sized_def flushed_def)
qed

lemma FlushPortal_text:
  assumes "connected p" "p_body p = text_buf s" "length s < PORT_BUFFER_SIZE" "0 \<notin> set s" "p_size p \<le> 0"
  shows "\<exists>ret p'. FlushPortal p = Some (ret, p') \<and> flushed [(p_type p, s @ [0])] p p'"
proof -
  have "FlushPortal p = FlushPortal (p\<lparr>p_size := int (length s) + 1\<rparr>)"
    using assms strlen_text_buf [of s] by (simp add: FlushPortal_def)
  then show ?thesis using flush_sized_text [OF assms(1-3)] by (auto simp: flush_sized_def split: bind_splits)
qed

section \<open>The text of values\<close>

fun value_text :: "sql_value \<Rightarrow> byte list" where
  "value_text (IntV i) = dec_text i"
| "value_text (StrV s) = replicate 49 BLANK @ s"
| "value_text (CharV b) = [b]"
| "value_text (BoolV b) = [if b then char_T else char_F]"

lemma GetValueInfo_text:
  assumes "col_value vt c v" "col_ok c"
  shows "GetValueInfo fl_text vt (Some c) 0 = Some (int (length (value_text v)), Some (BAR # value_text v))"
proof -
  have sz: "sint (rc_size c) = 48 + int (length (rc_data c))" using assms(2) by (simp add: col_ok_def ROW_COLUMN_HEADER_SIZE_def)
  show ?thesis
  proof (cases v)
    case (IntV i)
    then show ?thesis using assms(1) sz by (auto simp: GetValueInfo_def MIN_DATA_SIZE_def ROW_COLUMN_HEADER_SIZE_def is_int_def Let_def pad_def)
  next
    case (StrV s)
    then have "rc_data c = s @ [0]" "0 \<notin> set s" using assms(1) by auto
    then show ?thesis using assms(1) sz StrV takeWhile_text [of s "[]"]
      by (auto simp: GetValueInfo_def MIN_DATA_SIZE_def ROW_COLUMN_HEADER_SIZE_def is_str_def is_int_def Let_def pad_def nat_add_distrib)
  qed (use assms(1) sz in \<open>auto simp: GetValueInfo_def MIN_DATA_SIZE_def ROW_COLUMN_HEADER_SIZE_def Let_def pad_def\<close>)
qed

definition cells_text :: "sql_value list \<Rightarrow> byte list" where
  "cells_text vs = concat (map (\<lambda>v. BAR # value_text v) vs)"

lemma cells_text_simps [simp]: "cells_text [] = []" "cells_text (v # vs) = BAR # value_text v @ cells_text vs"
  by (simp_all add: cells_text_def)

definition row_text :: "sql_value list \<Rightarrow> byte list" where
  "row_text vs = cells_text vs @ [BAR]"

definition holds_values :: "valueType list \<Rightarrow> RowColumnData list \<Rightarrow> sql_value list \<Rightarrow> bool" where
  "holds_values vts cs vs \<longleftrightarrow> length vts = length cs \<and> list_all2 (\<lambda>(vt, c) v. col_value vt c v \<and> col_ok c) (zip vts cs) vs"

lemma send_cols_text:
  assumes "list_all2 (\<lambda>(vt, c) v. col_value vt c v \<and> col_ok c) (zip (drop i vts) cs) vs" "length (drop i vts) = length cs"
    and "take (length cs) (drop i cols) = map Some cs" "length s + length (cells_text vs) < PORT_BUFFER_SIZE"
  shows "send_cols fl_text vts cols i (length cs) (int (length s)) (text_buf s)
    = Some (int (length (s @ cells_text vs)), text_buf (s @ cells_text vs))"
  using assms
proof (induction cs arbitrary: i vs s)
  case Nil
  then show ?case by simp
next
  case (Cons c cs)
  then have i: "i < length vts" "drop i vts = vts ! i # drop (Suc i) vts" using Cons_nth_drop_Suc [of i vts] by (cases "i < length vts", simp_all)
  have j: "i < length cols" using Cons.prems(3) by (cases "i < length cols") simp_all
  then have "drop i cols = cols ! i # drop (Suc i) cols" using Cons_nth_drop_Suc by metis
  then have cols: "cols ! i = Some c" "take (length cs) (drop (Suc i) cols) = map Some cs" using Cons.prems(3) by simp_all
  obtain v vs' where vs: "vs = v # vs'" "col_value (vts ! i) c v" "col_ok c"
    "list_all2 (\<lambda>(vt, c) v. col_value vt c v \<and> col_ok c) (zip (drop (Suc i) vts) cs) vs'"
    using Cons.prems(1) i(2) by (auto simp: list_all2_Cons1)
  have "snprintf_at (int (length s)) (int PORT_BUFFER_SIZE) (BAR # value_text v) (text_buf s) = Some (text_buf (s @ BAR # value_text v))"
    using Cons.prems(4) vs(1) by (intro snprintf_text_buf) simp_all
  then have "send_cols fl_text vts cols i (length (c # cs)) (int (length s)) (text_buf s)
      = send_cols fl_text vts cols (Suc i) (length cs) (int (length (s @ BAR # value_text v))) (text_buf (s @ BAR # value_text v))"
    using i(1) j cols(1) GetValueInfo_text [OF vs(2,3), of fl_text] by (simp add: algebra_simps)
  also have "\<dots> = Some (int (length ((s @ BAR # value_text v) @ cells_text vs')), text_buf ((s @ BAR # value_text v) @ cells_text vs'))"
    using Cons.prems(2,4) vs(1) i(2) by (intro Cons.IH vs(4) cols(2)) simp_all
  finally show ?case using vs(1) by simp
qed

lemma ClientRowDataSend_text:
  assumes "targetValTypeArr p = Some vts" "p_rowData p = Some row" "is_row row cs" "holds_values vts cs vs" "p_body p = zeros"
    and "Suc (length (row_text vs)) \<le> PORT_BUFFER_SIZE" "length cs < 2 ^ 31"
  shows "ClientRowDataSend fl_text p = Some (int (length (row_text vs)) + 1, p\<lparr>p_body := text_buf (row_text vs)\<rparr>)"
proof -
  have n: "nat (sint (tr_num row)) = length cs" using assms(3,7) by (simp add: is_row_def sint_of_nat_small)
  have "send_cols fl_text vts (columnData row) 0 (length cs) (int (length ([] :: byte list))) (text_buf []) = Some (int (length ([] @ cells_text vs)), text_buf ([] @ cells_text vs))"
    by (rule send_cols_text) (use assms(3,4,6) in \<open>simp_all add: holds_values_def is_row_def row_text_def\<close>)
  moreover have "snprintf_at (int (length (cells_text vs))) (int PORT_BUFFER_SIZE - int (length (cells_text vs))) [BAR] (text_buf (cells_text vs)) = Some (text_buf (row_text vs))"
    unfolding row_text_def using assms(6) by (intro snprintf_text_buf) (simp_all add: row_text_def)
  ultimately show ?thesis using assms(1,2,5) n by (simp add: ClientRowDataSend_def text_buf_simps row_text_def)
qed

section \<open>The title of a table\<close>

definition title :: "TargetEntry \<Rightarrow> byte list" where
  "title te = (case te_name te of Some s \<Rightarrow> s | None \<Rightarrow> te_field te)"

definition titles_text :: "TargetEntry list \<Rightarrow> byte list" where
  "titles_text tes = concat (map (\<lambda>te. BAR # title te) tes)"

definition head_text :: "TargetEntry list \<Rightarrow> byte list" where
  "head_text tes = titles_text tes @ [BAR]"

lemma head_loop_text:
  assumes "0 \<notin> set s" "\<forall>te \<in> set tes. 0 \<notin> set (title te)" "length s + length (titles_text tes) < PORT_BUFFER_SIZE"
  shows "head_loop tes (int (length s)) (text_buf s) = Some (int (length (s @ titles_text tes)), text_buf (s @ titles_text tes))"
  using assms
proof (induction tes arbitrary: s)
  case Nil
  then show ?case by (simp add: titles_text_def)
next
  case (Cons te tes)
  let ?s = "s @ BAR # title te"
  have len: "length s + length (title te) + length (titles_text tes) + 1 < PORT_BUFFER_SIZE" using Cons.prems(3) by (simp add: titles_text_def)
  have "snprintf_at (int (length s)) (int PORT_BUFFER_SIZE - int (length s)) (BAR # title te) (text_buf s) = Some (text_buf ?s)"
    using len by (intro snprintf_text_buf) simp_all
  moreover have "buf_strlen (text_buf ?s) = Some (length ?s)"
    using Cons.prems(1,2) len by (intro strlen_text_buf) (simp_all add: BAR_def)
  ultimately have "head_loop (te # tes) (int (length s)) (text_buf s) = head_loop tes (int (length ?s)) (text_buf ?s)"
    by (simp add: title_def)
  also have "\<dots> = Some (int (length (?s @ titles_text tes)), text_buf (?s @ titles_text tes))"
    using Cons.prems(1,2) len by (intro Cons.IH) (simp_all add: BAR_def)
  finally show ?case by (simp add: titles_text_def)
qed

lemma HeadRaw_text:
  assumes "p_targetList p = Some tes" "p_body p = zeros" "\<forall>te \<in> set tes. 0 \<notin> set (title te)" "Suc (length (head_text tes)) \<le> PORT_BUFFER_SIZE"
  shows "GeneralVirtualTableHeadRaw p = Some (int (length (head_text tes)) + 1, p\<lparr>p_body := text_buf (head_text tes)\<rparr>)"
proof -
  have "head_loop tes (int (length ([] :: byte list))) (text_buf []) = Some (int (length ([] @ titles_text tes)), text_buf ([] @ titles_text tes))"
    by (rule head_loop_text) (use assms(3,4) in \<open>simp_all add: head_text_def\<close>)
  moreover have "snprintf_at (int (length (titles_text tes))) (int PORT_BUFFER_SIZE - int (length (titles_text tes))) [BAR] (text_buf (titles_text tes))
      = Some (text_buf (head_text tes))"
    unfolding head_text_def using assms(4) by (intro snprintf_text_buf) (simp_all add: head_text_def)
  ultimately show ?thesis using assms(1,2) by (simp add: GeneralVirtualTableHeadRaw_def text_buf_simps head_text_def)
qed

section \<open>The rows of an answer\<close>

text \<open>The messages of the rows from the type \<open>t\<close> of the last message on; the first row follows the titles.\<close>

fun row_messages :: "TargetEntry list \<Rightarrow> i32 \<Rightarrow> bool \<Rightarrow> sql_value list list \<Rightarrow> wire_msg list" where
  "row_messages tes t titled [] = []"
| "row_messages tes t titled (vs # vss) =
     (if titled then [] else [(next_type t, head_text tes @ [0])]) @ (next_type t, row_text vs @ [0]) # row_messages tes (next_type t) True vss"

definition portal_for :: "TargetEntry list \<Rightarrow> Portal \<Rightarrow> bool" where
  "portal_for tes p \<longleftrightarrow> ready p \<and> p_targetList p = Some tes \<and> targetValTypeArr p = Some (map te_vt tes) \<and> p_flag p \<noteq> PORT_ROW_STRING \<and>
     (\<forall>te \<in> set tes. 0 \<notin> set (title te)) \<and> Suc (length (head_text tes)) \<le> PORT_BUFFER_SIZE \<and> length tes < 2 ^ 31"

definition row_fits :: "TargetEntry list \<Rightarrow> RowColumnData list \<Rightarrow> sql_value list \<Rightarrow> bool" where
  "row_fits tes cs vs \<longleftrightarrow> holds_values (map te_vt tes) cs vs \<and> Suc (length (row_text vs)) \<le> PORT_BUFFER_SIZE"

lemma SendRows_flush:
  assumes "ready p" "targetValTypeArr p = Some (map te_vt tes)" "length tes < 2 ^ 31" "p_rowData p = Some row" "is_row row cs" "row_fits tes cs vs"
  shows "\<exists>ret p'. 0 < ret \<and> (PortalSendRows fl_text p \<bind> (\<lambda>(ret, p). if ret \<le> 0 then Some (ret, p) else flush_sized ret p)) = Some (ret, p') \<and>
     flushed [(p_type p, row_text vs @ [0])] p p'"
proof -
  have len: "length cs = length tes" using assms(6) by (simp add: row_fits_def holds_values_def)
  have "ClientRowDataSend fl_text p = Some (int (length (row_text vs)) + 1, p\<lparr>p_body := text_buf (row_text vs)\<rparr>)"
    using assms len by (intro ClientRowDataSend_text) (auto simp: ready_def row_fits_def)
  moreover have "\<exists>p'. flush_sized (int (length (row_text vs)) + 1) (p\<lparr>p_body := text_buf (row_text vs)\<rparr>) = Some (int (length (row_text vs)) + 1, p') \<and>
      flushed [(p_type p, row_text vs @ [0])] (p\<lparr>p_body := text_buf (row_text vs)\<rparr>) p'"
    using flush_sized_text [of "p\<lparr>p_body := text_buf (row_text vs)\<rparr>" "row_text vs"] assms(1,6) by (auto simp: ready_def connected_def row_fits_def)
  ultimately show ?thesis by (auto simp: PortalSendRows_def flushed_def)
qed

text \<open>The state of the portal after a row: its type has advanced and the titles are out.\<close>

lemma SendToPort_row:
  assumes "portal_for tes p" "is_row row cs" "row_fits tes cs vs"
  shows "\<exists>ret p'. 0 < ret \<and> SendToPort fl_text row p = Some (ret, p') \<and> portal_for tes p' \<and> p_type p' = next_type (p_type p) \<and> p_flag p' = PORT_NOTHING \<and>
     wire (p_sock p') = wire (p_sock p) @ stream (row_messages tes (p_type p) (p_flag p = PORT_NOTHING) [vs])"
proof (cases "p_flag p")
  case PORT_NOTHING
  let ?p = "p\<lparr>p_rowData := Some row, p_type := next_type (p_type p)\<rparr>"
  from SendRows_flush [of ?p tes row cs vs fl_text] assms obtain ret p' where s: "0 < ret"
    "(PortalSendRows fl_text ?p \<bind> (\<lambda>(ret, p). if ret \<le> 0 then Some (ret, p) else flush_sized ret p)) = Some (ret, p')"
    "flushed [(next_type (p_type p), row_text vs @ [0])] ?p p'" by (auto simp: portal_for_def ready_def connected_def)
  then have "SendToPort fl_text row p = Some (ret, p')" using PORT_NOTHING by (simp add: SendToPort_def SendToNetPort_def)
  then show ?thesis using s(1) flushedD [OF s(3)] assms(1) PORT_NOTHING by (simp add: portal_for_def)
next
  case PORT_ROW_HEADER
  let ?p = "p\<lparr>p_rowData := Some row, p_type := next_type (p_type p)\<rparr>"
  let ?q = "?p\<lparr>p_body := text_buf (head_text tes), p_flag := PORT_NOTHING\<rparr>"
  have h: "GeneralVirtualTableHeadRaw ?p = Some (int (length (head_text tes)) + 1, ?p\<lparr>p_body := text_buf (head_text tes)\<rparr>)"
    using assms(1) by (intro HeadRaw_text) (auto simp: portal_for_def ready_def)
  obtain p1 where f: "flush_sized (int (length (head_text tes)) + 1) ?q = Some (int (length (head_text tes)) + 1, p1)"
      "flushed [(next_type (p_type p), head_text tes @ [0])] ?q p1"
    using flush_sized_text [of ?q "head_text tes"] assms(1) by (auto simp: portal_for_def ready_def connected_def)
  note p1 = flushedD [OF f(2)]
  from SendRows_flush [of p1 tes row cs vs fl_text] p1 assms obtain ret p' where s: "0 < ret"
    "(PortalSendRows fl_text p1 \<bind> (\<lambda>(ret, p). if ret \<le> 0 then Some (ret, p) else flush_sized ret p)) = Some (ret, p')"
    "flushed [(next_type (p_type p), row_text vs @ [0])] p1 p'" by (auto simp: portal_for_def)
  have "SendToPort fl_text row p = Some (ret, p')" using PORT_ROW_HEADER h f(1) s(2) by (simp add: SendToPort_def SendToNetPort_def)
  then show ?thesis using s(1) flushedD [OF s(3)] p1 assms(1) PORT_ROW_HEADER by (simp add: portal_for_def)
next
  case PORT_ROW_STRING
  then show ?thesis using assms(1) by (simp add: portal_for_def)
qed

text \<open>
  What the executor relies on: the portal takes the rows one after the other. \<open>took rs p\<close> says that the portal \<open>p\<close> has
  taken the rows \<open>rs\<close>, and \<open>stands_for row r\<close> that the row in memory stands for \<open>r\<close>.
\<close>

locale row_sink =
  fixes send :: "TableRowData \<Rightarrow> 'p \<Rightarrow> (int \<times> 'p) option"
    and took :: "'r list \<Rightarrow> 'p \<Rightarrow> bool"
    and stands_for :: "TableRowData \<Rightarrow> 'r \<Rightarrow> bool"
  assumes send_row: "took rs p \<Longrightarrow> stands_for row r \<Longrightarrow> \<exists>ret p'. send row p = Some (ret, p') \<and> 0 \<le> ret \<and> took (rs @ [r]) p'"

definition portal_took :: "TargetEntry list \<Rightarrow> byte list \<Rightarrow> sql_value list list \<Rightarrow> Portal \<Rightarrow> bool" where
  "portal_took tes w vss p \<longleftrightarrow> portal_for tes p \<and> wire (p_sock p) = w @ stream (row_messages tes PORT_MSG_START False vss) \<and>
     p_type p = fold (\<lambda>_. next_type) vss PORT_MSG_START \<and> (p_flag p = PORT_NOTHING \<longleftrightarrow> vss \<noteq> [])"

definition row_values :: "TargetEntry list \<Rightarrow> TableRowData \<Rightarrow> sql_value list \<Rightarrow> bool" where
  "row_values tes row vs \<longleftrightarrow> (\<exists>cs. is_row row cs \<and> row_fits tes cs vs)"

lemma row_messages_append: "row_messages tes t titled (vss @ [vs]) =
    row_messages tes t titled vss @ row_messages tes (fold (\<lambda>_. next_type) vss t) (titled \<or> vss \<noteq> []) [vs]"
  by (induction vss arbitrary: t titled) auto

interpretation portal: row_sink "SendToPort fl_text" "portal_took tes w" "row_values tes" for fl_text tes w
proof unfold_locales
  fix vss p row vs
  assume p: "portal_took tes w vss p" and "row_values tes row vs"
  then obtain cs where "is_row row cs" "row_fits tes cs vs" by (auto simp: row_values_def)
  from SendToPort_row [OF _ this, of p fl_text] p obtain ret p' where "0 < ret" "SendToPort fl_text row p = Some (ret, p')" "portal_for tes p'"
    "p_type p' = next_type (p_type p)" "p_flag p' = PORT_NOTHING"
    "wire (p_sock p') = wire (p_sock p) @ stream (row_messages tes (p_type p) (p_flag p = PORT_NOTHING) [vs])" by (auto simp: portal_took_def)
  then show "\<exists>ret p'. SendToPort fl_text row p = Some (ret, p') \<and> 0 \<le> ret \<and> portal_took tes w (vss @ [vs]) p'"
    using p by (auto simp: portal_took_def row_messages_append)
qed

section \<open>The end of an answer\<close>

lemma EndPort_sends:
  assumes "ready p"
  shows "\<exists>p'. EndPort p = Some (0, p') \<and> ready p' \<and> wire (p_sock p') = wire (p_sock p) @ stream [(p_type p, [0]), (PORT_MSG_FINISH, [0])] \<and>
     p_targetList p' = None \<and> targetValTypeArr p' = None \<and> p_flag p' = p_flag p"
proof -
  obtain r1 p1 where 1: "FlushPortal p = Some (r1, p1)" "flushed [(p_type p, [0])] p p1"
    using FlushPortal_text [of p "[]"] assms by (auto simp: ready_def text_buf_simps PORT_BUFFER_SIZE_def)
  let ?p = "p1\<lparr>p_type := PORT_MSG_FINISH\<rparr>"
  have "ready ?p" using flushedD(6) [OF 1(2)] by (simp add: ready_def connected_def)
  then obtain r2 p2 where 2: "FlushPortal ?p = Some (r2, p2)" "flushed [(PORT_MSG_FINISH, [0])] ?p p2"
    using FlushPortal_text [of ?p "[]"] by (auto simp: ready_def text_buf_simps PORT_BUFFER_SIZE_def)
  show ?thesis using 1(1) 2(1) flushedD [OF 1(2)] flushedD [OF 2(2)] by (auto simp: EndPort_def ready_def connected_def)
qed

end
