(* ===== verification/Executor.thy ===== *)
theory Executor
  imports Expressions Cursor Portal
begin

text \<open>
  The executor, after \<^verbatim>\<open>src/sqlcore/executor\<close>: the construction of the state tree (\<^verbatim>\<open>execInitNode.c\<close>), the
  dispatch to the nodes (\<^verbatim>\<open>executor.c\<close>, \<^verbatim>\<open>execNodeProc.c\<close>) and the nodes of a query: the scan of a list of
  values (\<^verbatim>\<open>valueScan.c\<close>), the nested loop (\<^verbatim>\<open>execNestLoop.c\<close>), the selection (\<^verbatim>\<open>execSelect.c\<close>), the
  projection and the query itself (\<^verbatim>\<open>execProject.c\<close>).

  A node is a \<open>planState\<close>; it carries what the source keeps in the plan node and in the state node, and
  \<open>NullState\<close> is the null pointer. \<^verbatim>\<open>ExecNodeProc\<close> calls the function of the node, so the state of the whole
  tree is threaded through one recursive function. A row is a pointer to one of three structures, and
  the nodes cast it as they need it: to take one structure for another has no result. The rows of
  a scan lie in the memory of the scan and keep their content until its next call; a row therefore
  is its content.
\<close>

section \<open>Rows and states\<close>

datatype rowptr = ScanRow ScanTableRowData | ProjRow TableRowData | ValueRow TableRowData

fun as_scan_row :: "rowptr \<Rightarrow> ScanTableRowData option" where
  "as_scan_row (ScanRow r) = Some r"
| "as_scan_row _ = None"

fun as_proj_row :: "rowptr \<Rightarrow> TableRowData option" where
  "as_proj_row (ProjRow r) = Some r"
| "as_proj_row _ = None"

record NestLoopFlags =
  outResultRow :: "rowptr option"
  outerNeedNew :: bool
  outerIsEnd :: bool
  innerNeedNew :: bool
  innerIsEnd :: bool
  scanTableRow :: "TableRowDataPosition option list"

record ProjectStateData =
  prj_rawcolrow :: "RowColumnData option list"
  prj_rowData :: TableRowData

record ValuesEntry =
  ve_columns :: "ColumnDefInfo list option"
  ve_targets :: "string list option"
  ve_values :: "ConstValue list list"

datatype planState =
    NullState
  | PlanState planState planState
  | SeqScanState nat int "ScanPageInfo option"
  | ValueScanState ValuesEntry "TableRowData list option"
  | NestLoopState NestLoopFlags planState planState
  | SelectState "qual list option" "RangTblEntry list option" ExprDataInfo planState
  | ProjectTblState "TargetEntry list option" "RangTblEntry list option" ProjectStateData planState
  | QueryTblState planState

definition ExecRetCode_ERR :: int where "ExecRetCode_ERR = -1"
definition ExecRetCode_SUC :: int where "ExecRetCode_SUC = 0"

text \<open>What stays the same while a statement runs, and the state of the execution.\<close>

record xenv =
  x_floats :: floats
  x_addr :: "nat \<Rightarrow> u64"
  x_behind :: "RowColumnData \<Rightarrow> byte list"
  x_snapshot :: "SnapShotInfo option"
  x_txn :: txnst
  x_fl_int :: "i32 \<Rightarrow> i32"
  x_blk :: "nat \<Rightarrow> RowColumnData"
  x_old :: i32
  x_fl_text :: "i32 \<Rightarrow> byte list"

record ExecState =
  es_db :: dbst
  es_mem :: wmem
  retCode :: int
  scanRowDataLeft :: "rowptr option"

section \<open>The nodes\<close>

text \<open>\<^verbatim>\<open>SeqscanNext\<close> wraps the row with the position of the scan.\<close>

definition scan_row :: "nat \<Rightarrow> int \<Rightarrow> ScanPageInfo \<Rightarrow> TableRowData \<Rightarrow> rowptr" where
  "scan_row tbl rindex sc row = ScanRow \<lparr>tableNum = 1, tableRowData = [Some \<lparr>rowNum = 1, tp_rindex = rindex, tp_tblInfo = tbl,
     scanPostionInfo = sc, tp_rowData = row\<rparr>]\<rparr>"

text \<open>The rows of a values list; they end where a row cannot be formed.\<close>

fun transform_loop :: "xenv \<Rightarrow> ColumnDefInfo list \<Rightarrow> string list option \<Rightarrow> ConstValue list list \<Rightarrow> cmem \<Rightarrow> TableRowData list option" where
  "transform_loop env cds targets [] m = Some []"
| "transform_loop env cds targets (vals # valss) m = do {
     r \<leftarrow> ValuesFormRowData (x_fl_int env) (x_blk env) (x_old env) m cds targets vals;
     case r of None \<Rightarrow> Some [] | Some r \<Rightarrow> do { rs \<leftarrow> transform_loop env cds targets valss m; Some (r # rs) } }"

definition TransformValues :: "xenv \<Rightarrow> ValuesEntry \<Rightarrow> ExecState \<Rightarrow> (int \<times> TableRowData list option \<times> ExecState) option" where
  "TransformValues env ve es =
     (case ve_columns ve of
        None \<Rightarrow> Some (-1, None, es\<lparr>retCode := ExecRetCode_ERR\<rparr>)
      | Some cds \<Rightarrow> do {
          rs \<leftarrow> transform_loop env cds (ve_targets ve) (ve_values ve) (wbytes (es_mem es));
          Some (int (length rs), Some rs, es) })"

definition ValueScanNext :: "xenv \<Rightarrow> ValuesEntry \<Rightarrow> TableRowData list option \<Rightarrow> ExecState \<Rightarrow>
    (rowptr option \<times> TableRowData list option \<times> ExecState) option" where
  "ValueScanNext env ve rs es = do {
     (num, rs, es) \<leftarrow> (case rs of None \<Rightarrow> TransformValues env ve es | Some rs \<Rightarrow> Some (1, Some rs, es));
     if num \<le> 0 then Some (None, rs, es)
     else (case rs of
        Some (r # rs) \<Rightarrow> Some (Some (ValueRow r), Some rs, es)
      | _ \<Rightarrow> Some (None, rs, es\<lparr>retCode := ExecRetCode_SUC\<rparr>)) }"

text \<open>The tables of both rows in one array with room for the tables of the join.\<close>

definition row_tables :: "ScanTableRowData \<Rightarrow> TableRowDataPosition option list option" where
  "row_tables r =
     (if tableNum r \<le> int (length (tableRowData r)) then Some (take (nat (tableNum r)) (tableRowData r)) else None)"

definition ExecMergeRowData :: "rowptr option \<Rightarrow> rowptr option \<Rightarrow> TableRowDataPosition option list \<Rightarrow>
    (rowptr option \<times> TableRowDataPosition option list) option" where
  "ExecMergeRowData left right buf = do {
     l \<leftarrow> (case left of None \<Rightarrow> Some None | Some x \<Rightarrow> map_option Some (as_scan_row x));
     r \<leftarrow> (case right of None \<Rightarrow> Some None | Some x \<Rightarrow> map_option Some (as_scan_row x));
     let num = (case l of None \<Rightarrow> 0 | Some l \<Rightarrow> tableNum l) + (case r of None \<Rightarrow> 0 | Some r \<Rightarrow> tableNum r);
     if num < 1 then Some (None, buf)
     else do {
       ls \<leftarrow> (case l of None \<Rightarrow> Some [] | Some l \<Rightarrow> row_tables l);
       rs \<leftarrow> (case (l, r) of (Some l, Some r) \<Rightarrow> if int (length ls) = num then Some [] else row_tables r | _ \<Rightarrow> Some []);
       let ts = ls @ rs;
       if length ts > length buf then None
       else do {
         let buf = ts @ drop (length ts) buf;
         Some (Some (ScanRow \<lparr>tableNum = num, tableRowData = buf\<rparr>), buf) } } }"

text \<open>Only the scan of a table starts again; a nested loop does nothing and the other nodes have no function for it.\<close>

fun ExecNodeReScan :: "planState \<Rightarrow> ExecState \<Rightarrow> (planState \<times> ExecState) option" where
  "ExecNodeReScan (SeqScanState tbl rindex sc) es = do {
     sc \<leftarrow> sc;
     let (sc, st) = ExecReSeqScan sc (es_db es tbl);
     Some (SeqScanState tbl rindex (Some sc), es\<lparr>es_db := (es_db es)(tbl := st)\<rparr>) }"
| "ExecNodeReScan n es = Some (n, es)"

text \<open>The conditions of a selection, of which one has to hold; a condition that returns the null pointer holds.\<close>

fun quals_loop :: "qenv \<Rightarrow> qual list \<Rightarrow> qst \<Rightarrow> (bool \<times> qst) option" where
  "quals_loop env [] s = Some (False, s)"
| "quals_loop env (q # qs) s = do {
     (b, s) \<leftarrow> ExecSelectQual env q s;
     if getDataBool (q_floats env) (if b then Some (resultExpreData s) else None) then Some (True, s)
     else quals_loop env qs s }"

definition select_env :: "xenv \<Rightarrow> RangTblEntry list option \<Rightarrow> ScanTableRowData \<Rightarrow> qenv" where
  "select_env env rt row = \<lparr>q_floats = x_floats env, q_addr = x_addr env, q_behind = x_behind env, q_rtable = rt, q_row = Some row\<rparr>"

text \<open>The columns of the target list; the loop stops at the first column that is not found.\<close>

fun target_loop :: "ScanTableRowData \<Rightarrow> RangTblEntry list option \<Rightarrow> TargetEntry list \<Rightarrow> nat \<Rightarrow> RowColumnData option list \<Rightarrow> dbst \<Rightarrow>
    (nat \<times> RowColumnData option list \<times> dbst) option" where
  "target_loop row rt [] i raw db = Some (i, raw, db)"
| "target_loop row rt (te # tes) i raw db =
     (case GetCellValueByIndex rt (te_rindex te) of
        None \<Rightarrow> Some (i, raw, db)
      | Some rte \<Rightarrow> do {
          tp \<leftarrow> GetTblRowDataPosition (Some row) (rte_tblInfo rte) (rte_rindex rte);
          case tp of
            None \<Rightarrow> Some (i, raw, db)
          | Some tp \<Rightarrow> do {
              (c, found, db) \<leftarrow> GetColRowDataEx tp (te_attrIndex te) db;
              raw \<leftarrow> arr_set raw (int i) c;
              case c of None \<Rightarrow> Some (i, raw, db) | Some c \<Rightarrow> target_loop row rt tes (Suc i) raw db } })"

fun form_loop :: "RowColumnData option list \<Rightarrow> nat \<Rightarrow> (RowColumnData option list \<times> i32) option" where
  "form_loop cols 0 = Some ([], 0)"
| "form_loop (Some c # cols) (Suc n) = do {
     (cs, sz) \<leftarrow> form_loop cols n;
     Some ((if sint (rc_size c) > 0 then Some c else None) # cs, rc_size c + sz) }"
| "form_loop _ (Suc n) = None"

definition FormCol2RowDataEx :: "RowColumnData option list \<Rightarrow> nat \<Rightarrow> TableRowData \<Rightarrow> TableRowData option" where
  "FormCol2RowDataEx raw num old =
     (case raw of
        [] \<Rightarrow> None
      | None # _ \<Rightarrow> Some old
      | _ \<Rightarrow> do {
          (cs, sz) \<leftarrow> form_loop raw num;
          if num > length (columnData old) then None
          else Some \<lparr>tr_size = sz, tr_num = of_nat num, columnData = cs @ drop num (columnData old)\<rparr> })"

definition FetchTargetColumns :: "ScanTableRowData \<Rightarrow> TargetEntry list option \<Rightarrow> RangTblEntry list option \<Rightarrow> ProjectStateData \<Rightarrow> dbst \<Rightarrow>
    (TableRowData option \<times> ProjectStateData \<times> dbst) option" where
  "FetchTargetColumns row targets rt pj db =
     (case (targets, rt) of
        (Some tes, Some _) \<Rightarrow> do {
          (n, raw, db) \<leftarrow> target_loop row rt tes 0 (prj_rawcolrow pj) db;
          data \<leftarrow> (if n = length tes then FormCol2RowDataEx raw n (prj_rowData pj) else Some (prj_rowData pj));
          Some (Some data, \<lparr>prj_rawcolrow = raw, prj_rowData = data\<rparr>, db) }
      | _ \<Rightarrow> Some (None, pj, db))"

section \<open>The dispatch\<close>

text \<open>
  The functions of the nodes that hand out rows; \<open>proc\<close> is \<^verbatim>\<open>ExecNodeProc\<close>, which they call for the nodes below. The loops
  of the nested loop and of the selection keep their state in the node, so each further pass is a call for the node again.
\<close>

type_synonym node_proc = "planState \<Rightarrow> ExecState \<Rightarrow> (rowptr option \<times> planState \<times> ExecState) option"

definition ExecProcPlan :: "node_proc \<Rightarrow> planState \<Rightarrow> planState \<Rightarrow> ExecState \<Rightarrow> (rowptr option \<times> planState \<times> ExecState) option" where
  "ExecProcPlan proc l r es =
     (if l = NullState then Some (None, PlanState l r, es\<lparr>retCode := ExecRetCode_ERR\<rparr>)
      else do { (x, l, es) \<leftarrow> proc l es; Some (x, PlanState l r, es) })"

definition ExecProcSeqScan :: "xenv \<Rightarrow> nat \<Rightarrow> int \<Rightarrow> ScanPageInfo option \<Rightarrow> ExecState \<Rightarrow> (rowptr option \<times> planState \<times> ExecState) option" where
  "ExecProcSeqScan env tbl rindex pos es =
     (case pos of
        None \<Rightarrow> Some (None, SeqScanState tbl rindex pos, es)
      | Some sc \<Rightarrow> do {
          (row, sc, st) \<leftarrow> SeqscanNext (x_snapshot env) (x_txn env) sc (es_db es tbl);
          Some (map_option (scan_row tbl rindex sc) row, SeqScanState tbl rindex (Some sc), es\<lparr>es_db := (es_db es)(tbl := st)\<rparr>) })"

definition ExecNestLoopScan :: "node_proc \<Rightarrow> NestLoopFlags \<Rightarrow> planState \<Rightarrow> planState \<Rightarrow> ExecState \<Rightarrow> (rowptr option \<times> planState \<times> ExecState) option" where
  "ExecNestLoopScan proc nl l r es =
     (if outerIsEnd nl then Some (None, NestLoopState nl l r, es)
      else do {
        (nl, l, r, es) \<leftarrow>
          (if outerNeedNew nl then do {
             (x, l, es) \<leftarrow> proc l es;
             case x of
               None \<Rightarrow> Some (nl\<lparr>outerIsEnd := True, outerNeedNew := False\<rparr>, l, r, es)
             | Some x \<Rightarrow> do {
                 (r, es) \<leftarrow> ExecNodeReScan r es;
                 Some (nl\<lparr>outResultRow := Some x, outerNeedNew := False, innerNeedNew := True\<rparr>, l, r, es) } }
           else Some (nl, l, r, es));
        if outerIsEnd nl then Some (None, NestLoopState nl l r, es)
        else if \<not> innerNeedNew nl then proc (NestLoopState nl l r) es
        else do {
          (y, r, es) \<leftarrow> proc r es;
          case y of
            None \<Rightarrow> proc (NestLoopState (nl\<lparr>innerNeedNew := False, innerIsEnd := True, outerNeedNew := True\<rparr>) l r) es
          | Some y \<Rightarrow> do {
              (x, buf) \<leftarrow> ExecMergeRowData (outResultRow nl) (Some y) (scanTableRow nl);
              Some (x, NestLoopState (nl\<lparr>scanTableRow := buf\<rparr>) l r, es\<lparr>scanRowDataLeft := outResultRow nl\<rparr>) } } })"

definition ExecNestLoopNode :: "node_proc \<Rightarrow> NestLoopFlags \<Rightarrow> planState \<Rightarrow> planState \<Rightarrow> ExecState \<Rightarrow> (rowptr option \<times> planState \<times> ExecState) option" where
  "ExecNestLoopNode proc nl l r es =
     (if l = NullState then Some (None, NestLoopState nl l r, es\<lparr>retCode := ExecRetCode_ERR\<rparr>) else ExecNestLoopScan proc nl l r es)"

definition ExecSelect :: "xenv \<Rightarrow> node_proc \<Rightarrow> qual list option \<Rightarrow> RangTblEntry list option \<Rightarrow> ExprDataInfo \<Rightarrow> planState \<Rightarrow> ExecState \<Rightarrow>
    (rowptr option \<times> planState \<times> ExecState) option" where
  "ExecSelect env proc qual rt reg sub es = do {
     (x, sub, es) \<leftarrow> proc sub es;
     case x of
       None \<Rightarrow> Some (None, SelectState qual rt reg sub, es)
     | Some x \<Rightarrow> (case qual of
           None \<Rightarrow> Some (Some x, SelectState qual rt reg sub, es)
         | Some qs \<Rightarrow> do {
             row \<leftarrow> as_scan_row x;
             (b, s) \<leftarrow> quals_loop (select_env env rt row) qs \<lparr>resultExpreData = reg, q_mem = es_mem es, q_db = es_db es\<rparr>;
             let es = es\<lparr>es_mem := q_mem s, es_db := q_db s\<rparr>;
             let n = SelectState qual rt (resultExpreData s) sub;
             if b then Some (Some x, n, es) else proc n es }) }"

definition ExecTableProject :: "node_proc \<Rightarrow> TargetEntry list option \<Rightarrow> RangTblEntry list option \<Rightarrow> ProjectStateData \<Rightarrow> planState \<Rightarrow> ExecState \<Rightarrow>
    (rowptr option \<times> planState \<times> ExecState) option" where
  "ExecTableProject proc targets rt pj sub es = do {
     (x, sub, es) \<leftarrow> proc sub es;
     case x of
       None \<Rightarrow> Some (None, ProjectTblState targets rt pj sub, es)
     | Some x \<Rightarrow> do {
         row \<leftarrow> as_scan_row x;
         (data, pj, db) \<leftarrow> FetchTargetColumns row targets rt pj (es_db es);
         Some (map_option ProjRow data, ProjectTblState targets rt pj sub, es\<lparr>scanRowDataLeft := Some x, es_db := db\<rparr>) } }"

text \<open>Each of them calls \<open>proc\<close> monotonically, so that the dispatch may be recursive.\<close>

lemma mono_case_option [partial_function_mono]:
  "mono_option A \<Longrightarrow> (\<And>y. mono_option (B y)) \<Longrightarrow> mono_option (\<lambda>f. case x of None \<Rightarrow> A f | Some y \<Rightarrow> B y f)"
  by (cases x) simp_all

lemma mono_case_prod [partial_function_mono]: "(\<And>a b. mono_option (B a b)) \<Longrightarrow> mono_option (\<lambda>f. case x of (a, b) \<Rightarrow> B a b f)"
  by (cases x) simp_all

lemma ExecProcPlan_mono [partial_function_mono]:
  "(\<And>n es. mono_option (\<lambda>f. P f n es)) \<Longrightarrow> mono_option (\<lambda>f. ExecProcPlan (P f) l r es)"
  unfolding ExecProcPlan_def by (intro partial_function_mono)

lemma ExecNestLoopNode_mono [partial_function_mono]:
  "(\<And>n es. mono_option (\<lambda>f. P f n es)) \<Longrightarrow> mono_option (\<lambda>f. ExecNestLoopNode (P f) nl l r es)"
  unfolding ExecNestLoopNode_def ExecNestLoopScan_def by (intro partial_function_mono)

lemma ExecSelect_mono [partial_function_mono]:
  "(\<And>n es. mono_option (\<lambda>f. P f n es)) \<Longrightarrow> mono_option (\<lambda>f. ExecSelect env (P f) qual rt reg sub es)"
  unfolding ExecSelect_def Let_def by (intro partial_function_mono)

lemma ExecTableProject_mono [partial_function_mono]:
  "(\<And>n es. mono_option (\<lambda>f. P f n es)) \<Longrightarrow> mono_option (\<lambda>f. ExecTableProject (P f) targets rt pj sub es)"
  unfolding ExecTableProject_def by (intro partial_function_mono)

text \<open>\<^verbatim>\<open>ExecNodeProc\<close> calls the function of the node. A \<open>QueryTblState\<close> hands out no rows; it is run by \<open>ExecTableQuery\<close> below.\<close>

partial_function (option) ExecNodeProc :: "xenv \<Rightarrow> node_proc" where
  "ExecNodeProc env n es =
     (case n of
        NullState \<Rightarrow> Some (None, n, es)
      | QueryTblState sub \<Rightarrow> None
      | PlanState l r \<Rightarrow> ExecProcPlan (ExecNodeProc env) l r es
      | SeqScanState tbl rindex pos \<Rightarrow> ExecProcSeqScan env tbl rindex pos es
      | ValueScanState ve rs \<Rightarrow> do {
          (x, rs, es) \<leftarrow> ValueScanNext env ve rs es;
          Some (x, ValueScanState ve rs, es) }
      | NestLoopState nl l r \<Rightarrow> ExecNestLoopNode (ExecNodeProc env) nl l r es
      | SelectState qual rt reg sub \<Rightarrow> ExecSelect env (ExecNodeProc env) qual rt reg sub es
      | ProjectTblState targets rt pj sub \<Rightarrow> ExecTableProject (ExecNodeProc env) targets rt pj sub es)"

lemmas node_defs = ExecProcPlan_def ExecProcSeqScan_def ExecNestLoopNode_def ExecNestLoopScan_def ExecSelect_def ExecTableProject_def

text \<open>The query: it sends the rows until the end or until the portal refuses one, and stores the number of rows.\<close>

partial_function (option) query_loop :: "xenv \<Rightarrow> planState \<Rightarrow> ExecState \<Rightarrow> Portal \<Rightarrow> int \<Rightarrow> (planState \<times> ExecState \<times> Portal) option" where
  "query_loop env sub es p rownum = do {
     (x, sub, es) \<leftarrow> ExecNodeProc env sub es;
     case x of
       None \<Rightarrow> Some (sub, es\<lparr>retCode := rownum\<rparr>, snd (FinishSend p))
     | Some x \<Rightarrow> do {
         row \<leftarrow> as_proj_row x;
         (ret, p) \<leftarrow> SendToPort (x_fl_text env) row p;
         if ret < 0 then Some (sub, es, p)
         else query_loop env sub es p (rownum + 1) } }"

definition ExecTableQuery :: "xenv \<Rightarrow> planState \<Rightarrow> ExecState \<Rightarrow> Portal \<Rightarrow> (planState \<times> ExecState \<times> Portal) option" where
  "ExecTableQuery env sub es p =
     (if sub = NullState then Some (sub, es\<lparr>retCode := ExecRetCode_ERR\<rparr>, p) else query_loop env sub es p 0)"

section \<open>The construction of the state tree\<close>

datatype plan =
    NullPlan
  | Plan plan plan
  | NestLoop nat plan plan
  | SeqScan nat int "int list" nat
  | ValueScan ValuesEntry
  | ProjectTbl "TargetEntry list" "RangTblEntry list option" plan
  | QueryTbl "TargetEntry list option" plan
  | SelectResult "qual list option" "RangTblEntry list option" plan

definition InitProjectData :: "nat \<Rightarrow> ProjectStateData" where
  "InitProjectData n = \<lparr>prj_rawcolrow = replicate n None, prj_rowData = \<lparr>tr_size = 0, tr_num = 0, columnData = replicate n None\<rparr>\<rparr>"

definition ExecInitNestLoopNode :: "nat \<Rightarrow> NestLoopFlags" where
  "ExecInitNestLoopNode rtNum = \<lparr>outResultRow = None, outerNeedNew = True, outerIsEnd = False, innerNeedNew = True, innerIsEnd = False,
     scanTableRow = replicate (max 1 rtNum) None\<rparr>"

text \<open>
  A scan has the table, its range table index, the columns it reads and the number of the columns of the table. The node
  of a query prepares the portal and is the null pointer when the portal has no target list.
\<close>

primrec InitExecNode :: "plan \<Rightarrow> Portal \<Rightarrow> planState \<times> Portal" where
  "InitExecNode NullPlan p = (NullState, p)"
| "InitExecNode (Plan l r) p = (let (l, p) = InitExecNode l p; (r, p) = InitExecNode r p in (PlanState l r, p))"
| "InitExecNode (NestLoop rtNum l r) p =
     (let (l, p) = InitExecNode l p; (r, p) = InitExecNode r p in (NestLoopState (ExecInitNestLoopNode rtNum) l r, p))"
| "InitExecNode (SeqScan tbl rindex cols colNum) p = (SeqScanState tbl rindex (InitScanPositionInfo cols colNum), p)"
| "InitExecNode (ValueScan ve) p = (ValueScanState ve None, p)"
| "InitExecNode (ProjectTbl targets rt sub) p =
     (let (sub, p) = InitExecNode sub p in (ProjectTblState (Some targets) rt (InitProjectData (length targets)) sub, p))"
| "InitExecNode (QueryTbl targets sub) p =
     (let (ret, p) = InitSelectPortal targets p
      in if ret < 0 then (NullState, p) else let (sub, p) = InitExecNode sub p in (QueryTblState sub, p))"
| "InitExecNode (SelectResult qual rt sub) p = (let (sub, p) = InitExecNode sub p in (SelectState qual rt zero_value sub, p))"

text \<open>The plan of a statement: a query below \<^verbatim>\<open>Plan\<close> nodes.\<close>

fun exec_root :: "xenv \<Rightarrow> planState \<Rightarrow> ExecState \<Rightarrow> Portal \<Rightarrow> (planState \<times> ExecState \<times> Portal) option" where
  "exec_root env (PlanState l r) es p =
     (if l = NullState then Some (PlanState l r, es\<lparr>retCode := ExecRetCode_ERR\<rparr>, p)
      else do { (l, es, p) \<leftarrow> exec_root env l es p; Some (PlanState l r, es, p) })"
| "exec_root env (QueryTblState sub) es p = do {
     (sub, es, p) \<leftarrow> ExecTableQuery env sub es p; Some (QueryTblState sub, es, p) }"
| "exec_root env n es p = do { (x, n, es) \<leftarrow> ExecNodeProc env n es; Some (n, es, p) }"

text \<open>
  \<^verbatim>\<open>ExecutorPlan\<close> for a plan that is not a utility statement: it sends the result code as text after the rows.
  \<open>text_of\<close> turns the literals of the source to bytes.
\<close>

definition text_of :: "string \<Rightarrow> byte list" where
  "text_of = map of_char"

definition result_text :: "int \<Rightarrow> byte list" where
  "result_text ret = (if ret \<ge> ExecRetCode_SUC then text_of ''total '' @ dec_text ret @ text_of '' rows sucess''
     else text_of ''process falure('' @ dec_text ret @ text_of '')'')"

definition ExecutorPlan :: "xenv \<Rightarrow> planState \<Rightarrow> ExecState \<Rightarrow> Portal \<Rightarrow> (planState \<times> ExecState \<times> Portal) option" where
  "ExecutorPlan env n es p = do {
     (n, es, p) \<leftarrow> exec_root env n es p;
     buf \<leftarrow> snprintf_at 0 (int PORT_BUFFER_SIZE) (result_text (retCode es)) (p_body p);
     (_, p) \<leftarrow> FlushPortal (p\<lparr>p_body := buf\<rparr>);
     Some (n, es, p) }"

text \<open>
  The state of the server between statements: the tables, the memory, the transactions as this worker sees them and the
  memory of its snapshot. \<open>level\<close> is the isolation level. The state before the plan runs has the snapshot of the statement.
\<close>

record world =
  w_db :: dbst
  w_mem :: wmem
  w_txn :: txnst
  w_snap :: SnapShotInfo

definition ExecutorStart :: "TransactionIsolationLevel \<Rightarrow> xenv \<Rightarrow> plan \<Rightarrow> world \<Rightarrow> Portal \<Rightarrow> (xenv \<times> planState \<times> ExecState \<times> world \<times> Portal) option" where
  "ExecutorStart level env pl w p = do {
     let p = InitPortal p;
     (sn, txn) \<leftarrow> GenerateSnapshot level (w_snap w) (w_txn w);
     let (n, p) = InitExecNode pl p;
     Some (env\<lparr>x_snapshot := Some sn, x_txn := txn\<rparr>, n, \<lparr>es_db = w_db w, es_mem = w_mem w, retCode = 0, scanRowDataLeft = None\<rparr>,
       w\<lparr>w_txn := txn, w_snap := sn\<rparr>, p) }"

fun ExecutorMain :: "TransactionIsolationLevel \<Rightarrow> xenv \<Rightarrow> plan list \<Rightarrow> world \<Rightarrow> Portal \<Rightarrow> (world \<times> Portal) option" where
  "ExecutorMain level env [] w p = Some (w, p)"
| "ExecutorMain level env (pl # pls) w p =
     (if pl = NullPlan then None
      else do {
        (env, n, es, w, p) \<leftarrow> ExecutorStart level env pl w p;
        (n, es, p) \<leftarrow> ExecutorPlan env n es p;
        ExecutorMain level env pls (w\<lparr>w_db := es_db es, w_mem := es_mem es\<rparr>) p })"

end
