(* ===== verification/QueryExec.thy ===== *)
theory QueryExec
  imports Executor
begin

text \<open>
  The correctness of queries. The nodes of a plan are cursors: the scan of a table, the nested loop over two nodes and
  the selection and projection over one. The locales of this theory state what a node relies on from the nodes below it and
  prove the node once; the interpretations build the plan of a join of any number of tables from them. The query node
  joins this chain with the portal.
\<close>

section \<open>Nodes as cursors\<close>

text \<open>
  An abstract row lists, for each table of the row, the range table index, the table, the columns that
  were read and their values.
\<close>

record trow =
  t_rindex :: int
  t_tbl :: nat
  t_cols :: "nat list"
  t_vals :: "RowColumnData list"

definition is_table :: "TableRowDataPosition option \<Rightarrow> trow \<Rightarrow> bool" where
  "is_table p t \<longleftrightarrow> (case p of None \<Rightarrow> False | Some tp \<Rightarrow> rowNum tp = 1 \<and> tp_rindex tp = t_rindex t \<and> tp_tblInfo tp = t_tbl t \<and>
     pageListNum (scanPostionInfo tp) = int (length (t_cols t)) \<and>
     take (length (t_cols t)) (colindexList (scanPostionInfo tp)) = map int (t_cols t) \<and>
     length (t_vals t) = length (t_cols t) \<and> is_row (tp_rowData tp) (t_vals t))"

fun shows_row :: "rowptr \<Rightarrow> trow list \<Rightarrow> bool" where
  "shows_row (ScanRow y) r \<longleftrightarrow> tableNum y = int (length r) \<and> length r \<le> length (tableRowData y) \<and>
     list_all2 is_table (take (length r) (tableRowData y)) r"
| "shows_row _ r \<longleftrightarrow> False"

text \<open>The pages of the tables; the nodes below a selection change neither them nor the memory of the values.\<close>

definition pages_are :: "(nat \<Rightarrow> ForkType \<Rightarrow> int \<rightharpoonup> page) \<Rightarrow> ExecState \<Rightarrow> bool" where
  "pages_are pgs es \<longleftrightarrow> (\<forall>t. pages (es_db es t) = pgs t)"

locale plan_node =
  fixes env :: xenv
    and pgs :: "nat \<Rightarrow> ForkType \<Rightarrow> int \<rightharpoonup> page"
    and width :: nat
    and at :: "planState \<Rightarrow> trow list list \<Rightarrow> bool"
    and ended :: "planState \<Rightarrow> bool"
  assumes at_width: "at n rs \<Longrightarrow> r \<in> set rs \<Longrightarrow> length r = width"
    and width_pos: "0 < width"
    and not_null: "at n rs \<Longrightarrow> n \<noteq> NullState"
    and node_end: "at n [] \<Longrightarrow> pages_are pgs es \<Longrightarrow>
      \<exists>n' es'. ExecNodeProc env n es = Some (None, n', es') \<and> ended n' \<and> pages_are pgs es' \<and> es_mem es' = es_mem es"
    and node_some: "at n (r # rs) \<Longrightarrow> pages_are pgs es \<Longrightarrow>
      \<exists>x n' es'. ExecNodeProc env n es = Some (Some x, n', es') \<and> shows_row x r \<and> at n' rs \<and> pages_are pgs es' \<and> es_mem es' = es_mem es"

sublocale plan_node \<subseteq> node: cursor "\<lambda>(n, es). ExecNodeProc env n es" "\<lambda>(n, es) rs. at n rs \<and> pages_are pgs es"
  "\<lambda>(n, es). ended n \<and> pages_are pgs es" shows_row
proof
  show "\<exists>s'. (\<lambda>(n, es). ExecNodeProc env n es) s = Some (None, s') \<and> (\<lambda>(n, es). ended n \<and> pages_are pgs es) s'"
    if "(\<lambda>(n, es) rs. at n rs \<and> pages_are pgs es) s []" for s
    using that node_end by (cases s) fastforce
  show "\<exists>x s'. (\<lambda>(n, es). ExecNodeProc env n es) s = Some (Some x, s') \<and> shows_row x r \<and> (\<lambda>(n, es) rs. at n rs \<and> pages_are pgs es) s' rs"
    if "(\<lambda>(n, es) rs. at n rs \<and> pages_are pgs es) s (r # rs)" for s r rs
    using that node_some by (cases s) fastforce
qed

text \<open>A node that can be started again: \<open>restarts n rs\<close> says that it then hands out \<open>rs\<close>; after its end it hands out \<open>again\<close>.\<close>

locale rescan_node = plan_node +
  fixes restarts :: "planState \<Rightarrow> trow list list \<Rightarrow> bool"
    and again :: "trow list list"
  assumes rescan: "restarts n rs \<Longrightarrow> pages_are pgs es \<Longrightarrow>
      \<exists>n' es'. ExecNodeReScan n es = Some (n', es') \<and> at n' rs \<and> pages_are pgs es' \<and> es_mem es' = es_mem es"
    and ended_restarts: "ended n \<Longrightarrow> restarts n again"
    and restarts_width: "restarts n rs \<Longrightarrow> r \<in> set rs \<Longrightarrow> length r = width"
    and again_width: "r \<in> set again \<Longrightarrow> length r = width"

section \<open>Scans\<close>

text \<open>A table of the database: its columns, those that are read, its groups and what a reader sees of its rows.\<close>

record table_desc =
  d_tbl :: nat
  d_rindex :: int
  d_colNum :: nat
  d_cols :: "nat list"
  d_groups :: "int list list list"
  d_sees :: "RowColumnData \<Rightarrow> RowColumnData option"

definition table_row :: "table_desc \<Rightarrow> RowColumnData list \<Rightarrow> trow list" where
  "table_row d vals = [\<lparr>t_rindex = d_rindex d, t_tbl = d_tbl d, t_cols = d_cols d, t_vals = vals\<rparr>]"

definition desc_ok :: "xenv \<Rightarrow> (nat \<Rightarrow> ForkType \<Rightarrow> int \<rightharpoonup> page) \<Rightarrow> table_desc \<Rightarrow> bool" where
  "desc_ok env pgs d \<longleftrightarrow> (\<forall>st. pages st = pgs (d_tbl d) \<longrightarrow> table_ok (d_colNum d) st (d_groups d) \<and>
     versions_known (x_snapshot env) (x_txn env) st (d_sees d) (d_colNum d) (d_groups d)) \<and>
     columns_ok (d_colNum d) (d_cols d) \<and> d_groups d \<noteq> []"

definition scan_node_at :: "xenv \<Rightarrow> (nat \<Rightarrow> ForkType \<Rightarrow> int \<rightharpoonup> page) \<Rightarrow> table_desc \<Rightarrow> planState \<Rightarrow> trow list list \<Rightarrow> bool" where
  "scan_node_at env pgs d n rs \<longleftrightarrow> desc_ok env pgs d \<and>
     (\<exists>sc vals. n = SeqScanState (d_tbl d) (d_rindex d) (Some sc) \<and> rs = map (table_row d) vals \<and>
       (\<forall>st. pages st = pgs (d_tbl d) \<longrightarrow> scan_at (d_sees d) (d_colNum d) (d_cols d) (d_groups d) sc st vals) \<and>
       (\<forall>v \<in> set vals. length v = length (d_cols d)))"

definition scan_node_ended :: "xenv \<Rightarrow> (nat \<Rightarrow> ForkType \<Rightarrow> int \<rightharpoonup> page) \<Rightarrow> table_desc \<Rightarrow> planState \<Rightarrow> bool" where
  "scan_node_ended env pgs d n \<longleftrightarrow> desc_ok env pgs d \<and>
     (\<exists>sc. n = SeqScanState (d_tbl d) (d_rindex d) (Some sc) \<and>
       (\<forall>st. pages st = pgs (d_tbl d) \<longrightarrow> scan_ended (d_colNum d) (d_cols d) (d_groups d) (pgs (d_tbl d)) (sc, st)))"

lemma scan_at_pages: "pages st' = pages st \<Longrightarrow> scan_at V n cs gss sc st rs \<Longrightarrow> scan_at V n cs gss sc st' rs"
  unfolding scan_at_def group_at_def column_at_def by auto

definition table_rows :: "(nat \<Rightarrow> ForkType \<Rightarrow> int \<rightharpoonup> page) \<Rightarrow> table_desc \<Rightarrow> int list list \<Rightarrow> trow list list" where
  "table_rows pgs d gs = map (table_row d) (rows_of (d_sees d) (pgs (d_tbl d)) (d_cols d) gs)"

lemma rows_of_length: "r \<in> set (rows_of V pgs cs gs) \<Longrightarrow> length r = length cs"
  by (auto simp: rows_of_def seen_rows_def cpages_def)

section \<open>The scan of a table is a node that can be started again\<close>

lemma scan_node_delivers:
  assumes "desc_ok env pgs d" "pages st = pgs (d_tbl d)"
  shows "scan_delivers (x_snapshot env) (x_txn env) (d_sees d) (d_colNum d) (d_cols d) (d_groups d) (pgs (d_tbl d)) (sc, st) vals \<longleftrightarrow>
     scan_at (d_sees d) (d_colNum d) (d_cols d) (d_groups d) sc st vals"
  using assms by (auto simp: scan_delivers_def desc_ok_def)

lemma scan_at_ok: "scan_at V n cs gss sc st vals \<Longrightarrow> pageListNum sc = int (length cs) \<and> take (length cs) (colindexList sc) = map int cs"
  by (auto simp: scan_at_def scan_ok_def)

lemma pages_are_upd: "pages_are pgs es \<Longrightarrow> pages st = pgs t \<Longrightarrow> pages_are pgs (es\<lparr>es_db := (es_db es)(t := st)\<rparr>)"
  by (simp add: pages_are_def)

lemma scan_node_step:
  assumes "scan_node_at env pgs d n rs" "pages_are pgs es"
  shows "case rs of
       [] \<Rightarrow> \<exists>n' es'. ExecNodeProc env n es = Some (None, n', es') \<and> scan_node_ended env pgs d n' \<and> pages_are pgs es' \<and> es_mem es' = es_mem es
     | r # rs' \<Rightarrow> \<exists>x n' es'. ExecNodeProc env n es = Some (Some x, n', es') \<and> shows_row x r \<and> scan_node_at env pgs d n' rs' \<and>
         pages_are pgs es' \<and> es_mem es' = es_mem es"
proof -
  obtain sc vals where d: "desc_ok env pgs d" and n: "n = SeqScanState (d_tbl d) (d_rindex d) (Some sc)" "rs = map (table_row d) vals"
    and sc: "\<And>st. pages st = pgs (d_tbl d) \<Longrightarrow> scan_at (d_sees d) (d_colNum d) (d_cols d) (d_groups d) sc st vals"
    and len: "\<forall>v \<in> set vals. length v = length (d_cols d)"
    using assms(1) by (auto simp: scan_node_at_def)
  let ?st = "es_db es (d_tbl d)"
  have pg: "pages ?st = pgs (d_tbl d)" using assms(2) by (simp add: pages_are_def)
  let ?del = "scan_delivers (x_snapshot env) (x_txn env) (d_sees d) (d_colNum d) (d_cols d) (d_groups d) (pgs (d_tbl d))"
  have del: "?del (sc, ?st) vals" using scan_node_delivers [OF d pg] sc [OF pg] by simp
  show ?thesis
  proof (cases vals)
    case Nil
    from seqscan.next_end [OF del [unfolded Nil]] obtain sc' st' where
      s: "SeqscanNext (x_snapshot env) (x_txn env) sc ?st = Some (None, sc', st')"
      "scan_ended (d_colNum d) (d_cols d) (d_groups d) (pgs (d_tbl d)) (sc', st')" by (auto simp: scan_next_def)
    then have "scan_node_ended env pgs d (SeqScanState (d_tbl d) (d_rindex d) (Some sc'))"
      using d by (simp add: scan_node_ended_def scan_ended_def)
    moreover have "pages st' = pgs (d_tbl d)" using s(2) by (simp add: scan_ended_def)
    ultimately show ?thesis
      using s(1) n Nil pages_are_upd [OF assms(2)] by (subst ExecNodeProc.simps) (simp add: node_defs)
  next
    case (Cons v vals')
    from seqscan.next_some [OF del [unfolded Cons]] obtain row sc' st' where
      s: "SeqscanNext (x_snapshot env) (x_txn env) sc ?st = Some (Some row, sc', st')" "is_row row v" "?del (sc', st') vals'"
      by (auto simp: scan_next_def)
    have pg': "pages st' = pgs (d_tbl d)" using s(3) by (simp add: scan_delivers_def)
    have at: "scan_at (d_sees d) (d_colNum d) (d_cols d) (d_groups d) sc' st' vals'" using s(3) by (simp add: scan_delivers_def)
    then have "scan_node_at env pgs d (SeqScanState (d_tbl d) (d_rindex d) (Some sc')) (map (table_row d) vals')"
      using d len Cons scan_at_pages [OF _ at] pg' by (auto simp: scan_node_at_def)
    moreover have "shows_row (scan_row (d_tbl d) (d_rindex d) sc' row) (table_row d v)"
      using s(2) scan_at_ok [OF at] len Cons by (simp add: scan_row_def table_row_def is_table_def)
    ultimately show ?thesis
      using s(1) n Cons pages_are_upd [OF assms(2) pg'] by (subst ExecNodeProc.simps) (simp add: node_defs)
  qed
qed

definition scan_restarts :: "xenv \<Rightarrow> (nat \<Rightarrow> ForkType \<Rightarrow> int \<rightharpoonup> page) \<Rightarrow> table_desc \<Rightarrow> planState \<Rightarrow> trow list list \<Rightarrow> bool" where
  "scan_restarts env pgs d n rs \<longleftrightarrow> scan_node_ended env pgs d n \<and> rs = table_rows pgs d (last (d_groups d)) \<or>
     desc_ok env pgs d \<and> n = SeqScanState (d_tbl d) (d_rindex d) (InitScanPositionInfo (map int (d_cols d)) (d_colNum d)) \<and>
     rs = table_rows pgs d (concat (d_groups d))"

lemma columns_ok_length: "columns_ok n cs \<Longrightarrow> length cs \<le> n"
proof -
  assume "columns_ok n cs"
  then have "distinct cs" "set cs \<subseteq> {..<n}" by (auto simp: columns_ok_def strict_sorted_iff)
  then show ?thesis by (metis card_lessThan card_mono distinct_card finite_lessThan)
qed

lemma fresh_scan:
  assumes "desc_ok env pgs d"
  obtains sc where "InitScanPositionInfo (map int (d_cols d)) (d_colNum d) = Some sc"
    "\<And>st. pages st = pgs (d_tbl d) \<Longrightarrow> scan_at (d_sees d) (d_colNum d) (d_cols d) (d_groups d) sc st
        (rows_of (d_sees d) (pgs (d_tbl d)) (d_cols d) (concat (d_groups d)))"
    "\<And>st. ExecReSeqScan sc st = (sc, st)"
proof -
  have ok: "columns_ok (d_colNum d) (d_cols d)" "d_groups d \<noteq> []" using assms by (auto simp: desc_ok_def)
  then obtain sc where sc: "InitScanPositionInfo (map int (d_cols d)) (d_colNum d) = Some sc"
    using columns_ok_length by (fastforce simp: InitScanPositionInfo_def Let_def)
  have "ExecReSeqScan sc st = (sc, st)" for st
    using sc by (cases "d_colNum d") (auto simp: InitScanPositionInfo_def Let_def ExecReSeqScan_def split: if_splits)
  then show ?thesis using that [OF sc] InitScan_at [OF ok sc] by metis
qed

interpretation scan: rescan_node env pgs 1 "scan_node_at env pgs d" "scan_node_ended env pgs d" "scan_restarts env pgs d"
  "table_rows pgs d (last (d_groups d))"
  for env pgs d
proof unfold_locales
  show "length r = 1" if "scan_node_at env pgs d n rs" "r \<in> set rs" for n rs r
    using that by (auto simp: scan_node_at_def table_row_def)
  show "n \<noteq> NullState" if "scan_node_at env pgs d n rs" for n rs
    using that by (auto simp: scan_node_at_def)
  show "\<exists>n' es'. ExecNodeProc env n es = Some (None, n', es') \<and> scan_node_ended env pgs d n' \<and> pages_are pgs es' \<and> es_mem es' = es_mem es"
    if "scan_node_at env pgs d n []" "pages_are pgs es" for n es
    using scan_node_step [OF that] by simp
  show "\<exists>x n' es'. ExecNodeProc env n es = Some (Some x, n', es') \<and> shows_row x r \<and> scan_node_at env pgs d n' rs \<and> pages_are pgs es' \<and> es_mem es' = es_mem es"
    if "scan_node_at env pgs d n (r # rs)" "pages_are pgs es" for n es r rs
    using scan_node_step [OF that] by simp
  show "scan_restarts env pgs d n (table_rows pgs d (last (d_groups d)))" if "scan_node_ended env pgs d n" for n
    using that by (simp add: scan_restarts_def)
  show "length r = 1" if "scan_restarts env pgs d n rs" "r \<in> set rs" for n rs r
    using that by (auto simp: scan_restarts_def table_rows_def table_row_def)
  show "length r = 1" if "r \<in> set (table_rows pgs d (last (d_groups d)))" for r
    using that by (auto simp: table_rows_def table_row_def)
  show "\<exists>n' es'. ExecNodeReScan n es = Some (n', es') \<and> scan_node_at env pgs d n' rs \<and> pages_are pgs es' \<and> es_mem es' = es_mem es"
    if r: "scan_restarts env pgs d n rs" and p: "pages_are pgs es" for n rs es
  proof -
    let ?st = "es_db es (d_tbl d)"
    have pg: "pages ?st = pgs (d_tbl d)" using p by (simp add: pages_are_def)
    from r show ?thesis unfolding scan_restarts_def
    proof (elim disjE conjE)
      assume e: "scan_node_ended env pgs d n" and rs: "rs = table_rows pgs d (last (d_groups d))"
      then obtain sc where d: "desc_ok env pgs d" "n = SeqScanState (d_tbl d) (d_rindex d) (Some sc)"
        "scan_ended (d_colNum d) (d_cols d) (d_groups d) (pgs (d_tbl d)) (sc, ?st)" using pg by (auto simp: scan_node_ended_def)
      obtain sc' st' where re: "ExecReSeqScan sc ?st = (sc', st')" by fastforce
      have ne: "d_groups d \<noteq> []" using d(1) by (simp add: desc_ok_def)
      note at = rescan_at(1) [OF d(3) ne, of "d_sees d", unfolded re fst_conv snd_conv] rescan_at(2) [OF d(3) ne, unfolded re fst_conv snd_conv]
      have "scan_node_at env pgs d (SeqScanState (d_tbl d) (d_rindex d) (Some sc')) rs"
        using d(1) rs scan_at_pages [OF _ at(1)] at(2) rows_of_length by (auto simp: scan_node_at_def table_rows_def)
      then show ?thesis using re d(2) pages_are_upd [OF p at(2)] by simp
    next
      assume d: "desc_ok env pgs d" and n: "n = SeqScanState (d_tbl d) (d_rindex d) (InitScanPositionInfo (map int (d_cols d)) (d_colNum d))"
        and rs: "rs = table_rows pgs d (concat (d_groups d))"
      obtain sc where sc: "InitScanPositionInfo (map int (d_cols d)) (d_colNum d) = Some sc"
        "\<And>st. pages st = pgs (d_tbl d) \<Longrightarrow> scan_at (d_sees d) (d_colNum d) (d_cols d) (d_groups d) sc st
          (rows_of (d_sees d) (pgs (d_tbl d)) (d_cols d) (concat (d_groups d)))" "\<And>st. ExecReSeqScan sc st = (sc, st)"
        using fresh_scan [OF d] by metis
      then have "scan_node_at env pgs d (SeqScanState (d_tbl d) (d_rindex d) (Some sc)) rs"
        using d rs rows_of_length by (auto simp: scan_node_at_def table_rows_def)
      then show ?thesis using sc n p by simp
    qed
  qed
qed simp

section \<open>Nested loops\<close>

lemma ExecMergeRowData_shows:
  assumes "shows_row x xa" "shows_row y ya" "length xa + length ya \<le> length buf" "0 < length xa" "0 < length ya"
  shows "\<exists>z buf'. ExecMergeRowData (Some x) (Some y) buf = Some (Some z, buf') \<and> shows_row z (xa @ ya) \<and> length buf' = length buf"
proof -
  obtain l r where l: "x = ScanRow l" "tableNum l = int (length xa)" "length xa \<le> length (tableRowData l)"
      "list_all2 is_table (take (length xa) (tableRowData l)) xa"
    and r: "y = ScanRow r" "tableNum r = int (length ya)" "length ya \<le> length (tableRowData r)"
      "list_all2 is_table (take (length ya) (tableRowData r)) ya"
    using assms(1,2) by (cases x; cases y) auto
  let ?ts = "take (length xa) (tableRowData l) @ take (length ya) (tableRowData r)"
  have "list_all2 is_table ?ts (xa @ ya)" using l(4) r(4) by (rule list_all2_appendI)
  moreover have "ExecMergeRowData (Some x) (Some y) buf =
      Some (Some (ScanRow \<lparr>tableNum = int (length xa) + int (length ya), tableRowData = ?ts @ drop (length ?ts) buf\<rparr>), ?ts @ drop (length ?ts) buf)"
    using l(1-3) r(1-3) assms(3,5)
    by (simp add: ExecMergeRowData_def row_tables_def min_absorb2 Let_def) (use assms(4) in linarith)
  ultimately show ?thesis
    using l(3) r(3) assms(3) by (simp add: min_absorb2)
qed

text \<open>
  The rows of a nested loop: the first outer row meets the rows that the inner node hands out at first,
  the others those that it hands out after it was started again.
\<close>

definition meets :: "trow list list \<Rightarrow> trow list \<Rightarrow> trow list list" where
  "meets rs x = map ((@) x) rs"

definition joined :: "trow list list \<Rightarrow> trow list list \<Rightarrow> trow list list \<Rightarrow> trow list list" where
  "joined again first ls = (case ls of [] \<Rightarrow> [] | x # xs \<Rightarrow> meets first x @ concat (map (meets again) xs))"

definition join_at :: "nat \<Rightarrow> nat \<Rightarrow> (planState \<Rightarrow> trow list list \<Rightarrow> bool) \<Rightarrow> (planState \<Rightarrow> trow list list \<Rightarrow> bool) \<Rightarrow>
    (planState \<Rightarrow> trow list list \<Rightarrow> bool) \<Rightarrow> trow list list \<Rightarrow> planState \<Rightarrow> trow list list \<Rightarrow> bool" where
  "join_at wo wi at_l at_r restarts again n rs \<longleftrightarrow> (\<exists>nl l r. n = NestLoopState nl l r \<and> \<not> outerIsEnd nl \<and> wo + wi \<le> length (scanTableRow nl) \<and>
     (outerNeedNew nl \<and> (\<exists>ls first. at_l l ls \<and> restarts r first \<and> rs = joined again first ls) \<or>
      \<not> outerNeedNew nl \<and> innerNeedNew nl \<and> (\<exists>x xa ls rr. outResultRow nl = Some x \<and> shows_row x xa \<and> length xa = wo \<and>
        at_l l ls \<and> at_r r rr \<and> rs = meets rr xa @ concat (map (meets again) ls))))"

definition join_ended :: "planState \<Rightarrow> bool" where
  "join_ended n \<longleftrightarrow> (\<exists>nl l r. n = NestLoopState nl l r \<and> outerIsEnd nl)"

locale join_nodes =
  left: plan_node env pgs wo at_l ended_l +
  right: rescan_node env pgs wi at_r ended_r restarts again
  for env pgs wo at_l ended_l wi at_r ended_r restarts again
begin

abbreviation outer_at :: "planState \<Rightarrow> trow list list \<Rightarrow> bool" where
  "outer_at \<equiv> join_at wo wi at_l at_r restarts again"

definition step_ok :: "planState \<Rightarrow> ExecState \<Rightarrow> trow list list \<Rightarrow> bool" where
  "step_ok n es rs \<longleftrightarrow> (case rs of
       [] \<Rightarrow> \<exists>n' es'. ExecNodeProc env n es = Some (None, n', es') \<and> join_ended n' \<and> pages_are pgs es' \<and> es_mem es' = es_mem es
     | r # rs' \<Rightarrow> \<exists>x n' es'. ExecNodeProc env n es = Some (Some x, n', es') \<and> shows_row x r \<and> outer_at n' rs' \<and>
         pages_are pgs es' \<and> es_mem es' = es_mem es)"

lemma step_ok_cong:
  "ExecNodeProc env n es = ExecNodeProc env n' es' \<Longrightarrow> es_mem es' = es_mem es \<Longrightarrow> step_ok n' es' rs \<Longrightarrow> step_ok n es rs"
  by (cases rs) (simp_all add: step_ok_def)

text \<open>Once there is an outer row and the inner node hands out a row, the rows are merged.\<close>

lemma inner_row:
  assumes "outResultRow nl = Some x" "shows_row x xa" "length xa = wo" "wo + wi \<le> length (scanTableRow nl)"
    and "\<not> outerIsEnd nl" "\<not> outerNeedNew nl" "innerNeedNew nl" "at_l l ls" "at_r r (ya # rr)" "pages_are pgs es"
  shows "\<exists>z buf y r' es'. ExecNodeProc env r es = Some (Some y, r', es') \<and>
     ExecMergeRowData (outResultRow nl) (Some y) (scanTableRow nl) = Some (Some z, buf) \<and> shows_row z (xa @ ya) \<and>
     outer_at (NestLoopState (nl\<lparr>scanTableRow := buf\<rparr>) l r') (meets rr xa @ concat (map (meets again) ls)) \<and>
     pages_are pgs es' \<and> es_mem es' = es_mem es"
proof -
  obtain y r' es' where y: "ExecNodeProc env r es = Some (Some y, r', es')" "shows_row y ya" "at_r r' rr" "pages_are pgs es'" "es_mem es' = es_mem es"
    using right.node_some [OF assms(9,10)] by blast
  have "length ya = wi" using right.at_width [OF assms(9)] by simp
  then obtain z buf where z: "ExecMergeRowData (Some x) (Some y) (scanTableRow nl) = Some (Some z, buf)" "shows_row z (xa @ ya)"
      "length buf = length (scanTableRow nl)"
    using ExecMergeRowData_shows [OF assms(2) y(2), of "scanTableRow nl"] assms(3,4) left.width_pos right.width_pos by auto
  have "outer_at (NestLoopState (nl\<lparr>scanTableRow := buf\<rparr>) l r') (meets rr xa @ concat (map (meets again) ls))"
    unfolding join_at_def using assms(1-8) y(3) z(3) by fastforce
  then show ?thesis using y z assms(1) by auto
qed

lemma outer_step:
  assumes "outerNeedNew nl" "\<not> outerIsEnd nl" "wo + wi \<le> length (scanTableRow nl)" "at_l l ls" "restarts r first" "pages_are pgs es"
  shows "step_ok (NestLoopState nl l r) es (joined again first ls)"
  using assms
proof (induction ls arbitrary: nl l r first es)
  case Nil
  obtain l' es' where "ExecNodeProc env l es = Some (None, l', es')" "pages_are pgs es'" "es_mem es' = es_mem es"
    using left.node_end [OF Nil.prems(4,6)] by blast
  then show ?case
    using Nil.prems left.not_null [OF Nil.prems(4)]
    by (subst step_ok_def) (subst ExecNodeProc.simps, simp add: node_defs joined_def join_ended_def)
next
  case outer: (Cons xa ls)
  obtain x l' es1 where x: "ExecNodeProc env l es = Some (Some x, l', es1)" "shows_row x xa" "at_l l' ls" "pages_are pgs es1" "es_mem es1 = es_mem es"
    using left.node_some [OF outer.prems(4,6)] by blast
  obtain r1 es2 where r1: "ExecNodeReScan r es1 = Some (r1, es2)" "at_r r1 first" "pages_are pgs es2" "es_mem es2 = es_mem es"
    using right.rescan [OF outer.prems(5) x(4)] x(5) by auto
  have wxa: "length xa = wo" using left.at_width [OF outer.prems(4)] by simp
  let ?nl = "nl\<lparr>outResultRow := Some x, outerNeedNew := False, innerNeedNew := True\<rparr>"
  note unfold1 = outer.prems(1,2) left.not_null [OF outer.prems(4)] x(1) r1(1)
  show ?case
  proof (cases first)
    case Nil
    obtain r2 es3 where r2: "ExecNodeProc env r1 es2 = Some (None, r2, es3)" "ended_r r2" "pages_are pgs es3" "es_mem es3 = es_mem es2"
      using right.node_end [OF r1(2) [unfolded Nil] r1(3)] by blast
    let ?nl2 = "?nl\<lparr>innerNeedNew := False, innerIsEnd := True, outerNeedNew := True\<rparr>"
    have "ExecNodeProc env (NestLoopState nl l r) es = ExecNodeProc env (NestLoopState ?nl2 l' r2) es3"
      using unfold1 r2(1) by (subst ExecNodeProc.simps) (simp add: node_defs)
    moreover have "step_ok (NestLoopState ?nl2 l' r2) es3 (joined again again ls)"
      using outer.prems(2,3) x(3) right.ended_restarts [OF r2(2)] r2(3) by (intro outer.IH) simp_all
    moreover have "joined again first (xa # ls) = joined again again ls"
      unfolding Nil by (cases ls) (simp_all add: joined_def meets_def)
    ultimately show ?thesis using r1(4) r2(4) step_ok_cong by auto
  next
    case inner: (Cons ya rr)
    obtain z buf y r' es' where z: "ExecNodeProc env r1 es2 = Some (Some y, r', es')"
      "ExecMergeRowData (outResultRow ?nl) (Some y) (scanTableRow ?nl) = Some (Some z, buf)" "shows_row z (xa @ ya)"
      "outer_at (NestLoopState (?nl\<lparr>scanTableRow := buf\<rparr>) l' r') (meets rr xa @ concat (map (meets again) ls))"
      "pages_are pgs es'" "es_mem es' = es_mem es2"
      using inner_row [of ?nl x xa l' ls r1 ya rr es2] x(2,3) wxa outer.prems(2,3) r1(2,3) inner by auto
    have "ExecNodeProc env (NestLoopState nl l r) es =
        Some (Some z, NestLoopState (?nl\<lparr>scanTableRow := buf\<rparr>) l' r', es'\<lparr>scanRowDataLeft := Some x\<rparr>)"
      using unfold1 z(1,2) by (subst ExecNodeProc.simps) (simp add: node_defs)
    then show ?thesis
      using z(3-6) r1(4) inner by (simp add: step_ok_def joined_def meets_def pages_are_def)
  qed
qed

lemma join_step:
  assumes "outer_at n rs" "pages_are pgs es"
  shows "step_ok n es rs"
proof -
  obtain nl l r where n: "n = NestLoopState nl l r" "\<not> outerIsEnd nl" "wo + wi \<le> length (scanTableRow nl)"
    and alt: "outerNeedNew nl \<and> (\<exists>ls first. at_l l ls \<and> restarts r first \<and> rs = joined again first ls) \<or>
      \<not> outerNeedNew nl \<and> innerNeedNew nl \<and> (\<exists>x xa ls rr. outResultRow nl = Some x \<and> shows_row x xa \<and> length xa = wo \<and>
        at_l l ls \<and> at_r r rr \<and> rs = meets rr xa @ concat (map (meets again) ls))"
    using assms(1) unfolding join_at_def by blast
  from alt show ?thesis
  proof (elim disjE conjE exE)
    fix ls first
    assume "outerNeedNew nl" "at_l l ls" "restarts r first" "rs = joined again first ls"
    then show ?thesis using outer_step n assms(2) by simp
  next
    fix x xa ls rr
    assume i: "\<not> outerNeedNew nl" "innerNeedNew nl" "outResultRow nl = Some x" "shows_row x xa" "length xa = wo"
      "at_l l ls" "at_r r rr" and rs: "rs = meets rr xa @ concat (map (meets again) ls)"
    show ?thesis
    proof (cases rr)
      case Nil
      obtain r2 es2 where r2: "ExecNodeProc env r es = Some (None, r2, es2)" "ended_r r2" "pages_are pgs es2" "es_mem es2 = es_mem es"
        using right.node_end [OF i(7) [unfolded Nil] assms(2)] by blast
      let ?nl = "nl\<lparr>innerNeedNew := False, innerIsEnd := True, outerNeedNew := True\<rparr>"
      have "ExecNodeProc env n es = ExecNodeProc env (NestLoopState ?nl l r2) es2"
        using n(1,2) i(1,2) r2(1) left.not_null [OF i(6)] by (subst ExecNodeProc.simps) (simp add: node_defs)
      moreover have "step_ok (NestLoopState ?nl l r2) es2 (joined again again ls)"
        using n(2,3) i(6) right.ended_restarts [OF r2(2)] r2(3) by (intro outer_step) simp_all
      moreover have "rs = joined again again ls"
        unfolding rs Nil by (cases ls) (simp_all add: joined_def meets_def)
      ultimately show ?thesis using r2(4) step_ok_cong by auto
    next
      case (Cons ya rr')
      obtain z buf y r' es' where z: "ExecNodeProc env r es = Some (Some y, r', es')"
        "ExecMergeRowData (outResultRow nl) (Some y) (scanTableRow nl) = Some (Some z, buf)" "shows_row z (xa @ ya)"
        "outer_at (NestLoopState (nl\<lparr>scanTableRow := buf\<rparr>) l r') (meets rr' xa @ concat (map (meets again) ls))"
        "pages_are pgs es'" "es_mem es' = es_mem es"
        using inner_row [OF i(3-5) n(3,2) i(1,2,6) i(7) [unfolded Cons] assms(2)] by blast
      have "ExecNodeProc env n es = Some (Some z, NestLoopState (nl\<lparr>scanTableRow := buf\<rparr>) l r', es'\<lparr>scanRowDataLeft := Some x\<rparr>)"
        using n(1,2) i(1-3) z(1,2) left.not_null [OF i(6)] by (subst ExecNodeProc.simps) (simp add: node_defs)
      then show ?thesis using z(3-6) rs Cons by (simp add: step_ok_def meets_def pages_are_def)
    qed
  qed
qed

lemma join_width:
  assumes "outer_at n rs" "r \<in> set rs"
  shows "length r = wo + wi"
proof -
  have m: "length y = wo + wi" if "y \<in> set (meets rs x)" "length x = wo" "\<forall>r \<in> set rs. length r = wi" for y rs x
    using that by (auto simp: meets_def)
  have j: "length y = wo + wi" if "y \<in> set (concat (map (meets again) ls))" "\<forall>x \<in> set ls. length x = wo" for y ls
    using that m right.again_width by fastforce
  have "length y = wo + wi" if "y \<in> set (joined again first ls)" "at_l l ls" "restarts r' first" for y first ls l r'
  proof (cases ls)
    case (Cons x xs)
    then have "\<forall>x \<in> set (x # xs). length x = wo" "\<forall>r \<in> set first. length r = wi"
      using left.at_width [OF that(2)] right.restarts_width [OF that(3)] by auto
    then show ?thesis using that(1) Cons m [of y first x] j [of y xs] by (auto simp: joined_def)
  qed (use that(1) in \<open>simp add: joined_def\<close>)
  moreover have "length y = wo + wi" if "y \<in> set (meets rr xa @ concat (map (meets again) ls))" "length xa = wo" "at_l l ls" "at_r r' rr" for y xa rr ls l r'
    using that(1,2) left.at_width [OF that(3)] right.at_width [OF that(4)] j [of y ls] m [of y rr xa] by auto
  ultimately show ?thesis using assms unfolding join_at_def by blast
qed

end

sublocale join_nodes \<subseteq> join: plan_node env pgs "wo + wi" "join_at wo wi at_l at_r restarts again" join_ended
proof
  show "length r = wo + wi" if "outer_at n rs" "r \<in> set rs" for n rs r
    using that by (rule join_width)
  show "0 < wo + wi" using left.width_pos by simp
  show "n \<noteq> NullState" if "outer_at n rs" for n rs using that by (auto simp: join_at_def)
  show "\<exists>n' es'. ExecNodeProc env n es = Some (None, n', es') \<and> join_ended n' \<and> pages_are pgs es' \<and> es_mem es' = es_mem es"
    if "outer_at n []" "pages_are pgs es" for n es
    using join_step [OF that] by (simp add: step_ok_def)
  show "\<exists>x n' es'. ExecNodeProc env n es = Some (Some x, n', es') \<and> shows_row x r \<and> outer_at n' rs \<and> pages_are pgs es' \<and> es_mem es' = es_mem es"
    if "outer_at n (r # rs)" "pages_are pgs es" for n r rs es
    using join_step [OF that] by (simp add: step_ok_def)
qed

context join_nodes
begin

lemma join_plan_node: "plan_node env pgs (wo + wi) (join_at wo wi at_l at_r restarts again) join_ended"
  by (rule join.plan_node_axioms)

end

section \<open>The columns of a row\<close>

definition row_table :: "RangTblEntry list option \<Rightarrow> trow list \<Rightarrow> int \<Rightarrow> trow option" where
  "row_table rt r i = do {
     rte \<leftarrow> GetCellValueByIndex rt i;
     if rte_tblInfo rte = 0 then None else List.find (\<lambda>t. t_tbl t = rte_tblInfo rte \<and> t_rindex t = rte_rindex rte) r }"

definition row_column :: "RangTblEntry list option \<Rightarrow> trow list \<Rightarrow> int \<Rightarrow> int \<Rightarrow> RowColumnData option" where
  "row_column rt r i attr = do { t \<leftarrow> row_table rt r i; map_of (zip (map int (t_cols t)) (t_vals t)) attr }"

definition column_value :: "valueType \<Rightarrow> RowColumnData \<Rightarrow> sql_value option" where
  "column_value vt c =
     (if \<not> col_ok c then None
      else if is_int vt \<and> length (rc_data c) = 4 then Some (IntV (sint (word_of (rc_data c) :: i32)))
      else if is_str vt \<and> rc_data c \<noteq> [] \<and> last (rc_data c) = 0 \<and> 0 \<notin> set (butlast (rc_data c)) then Some (StrV (butlast (rc_data c)))
      else if vt = VT_CHAR \<and> length (rc_data c) = 1 \<and> hd (rc_data c) \<noteq> 0 then Some (CharV (hd (rc_data c)))
      else if vt = VT_BOOL \<and> rc_data c \<in> {[char_T], [char_F]} then Some (BoolV (rc_data c = [char_T]))
      else None)"

definition row_look :: "RangTblEntry list option \<Rightarrow> trow list \<Rightarrow> int \<Rightarrow> int \<Rightarrow> valueType \<Rightarrow> sql_value option" where
  "row_look rt r i attr vt = do { c \<leftarrow> row_column rt r i attr; column_value vt c }"

lemma column_value_col: "column_value vt c = Some v \<Longrightarrow> col_value vt c v \<and> col_ok c"
  by (auto simp: column_value_def length_Suc_conv split: if_splits) (metis append_butlast_last_id)+

lemma position_loop_find:
  assumes "list_all2 is_table (take (length r) ps) r" "length r \<le> length ps" "List.find (\<lambda>t. t_tbl t = tbl \<and> t_rindex t = ri) r = Some t"
  shows "\<exists>tp. position_loop ps (length r) tbl ri = Some (Some tp) \<and> is_table (Some tp) t"
  using assms
proof (induction r arbitrary: ps rule: list.induct)
  case (Cons t' r)
  obtain p ps' where ps: "ps = p # ps'" using Cons.prems(2) by (cases ps) auto
  obtain tp where p: "p = Some tp" using Cons.prems(1) ps by (auto simp: is_table_def split: option.splits)
  then have t': "is_table (Some tp) t'" and rest: "list_all2 is_table (take (length r) ps') r" using Cons.prems(1) ps by auto
  show ?case
  proof (cases "t_tbl t' = tbl \<and> t_rindex t' = ri")
    case True
    then show ?thesis using Cons.prems ps p t' by (auto simp: is_table_def)
  next
    case False
    then show ?thesis using Cons.IH [OF rest] Cons.prems ps p t' by (auto simp: is_table_def)
  qed
qed simp

lemma column_loop_map_of:
  assumes "take n (drop i cols) = map int cs" "length cs = n" "i + n \<le> length cols" "map_of (zip (map int cs) vals) attr = Some c" "length vals = n"
  shows "\<exists>j. column_loop cols i n attr = Some (Some (i + j)) \<and> j < n \<and> vals ! j = c"
  using assms
proof (induction n arbitrary: i cs vals)
  case (Suc n)
  obtain k cs' v vals' where cs: "cs = k # cs'" "vals = v # vals'" using Suc.prems(2,5) by (cases cs; cases vals) auto
  have hd: "cols ! i = int k" "take n (drop (Suc i) cols) = map int cs'"
    using Suc.prems(1,3) cs(1) by (auto simp: Cons_nth_drop_Suc [symmetric])
  show ?case
  proof (cases "attr = int k")
    case True
    then show ?thesis using Suc.prems cs hd by (intro exI [of _ 0]) simp
  next
    case False
    then obtain j where "column_loop cols (Suc i) n attr = Some (Some (Suc i + j))" "j < n" "vals' ! j = c"
      using Suc.IH [of "Suc i" cs' vals'] Suc.prems cs hd by auto
    then show ?thesis using False Suc.prems(3) cs hd by (intro exI [of _ "Suc j"]) simp
  qed
qed simp

lemma GetColRowDataEx_scanned:
  assumes "is_table (Some tp) t" "map_of (zip (map int (t_cols t)) (t_vals t)) attr = Some c"
  shows "GetColRowDataEx tp attr db = Some (Some c, True, db)"
proof -
  let ?sc = "scanPostionInfo tp" and ?n = "length (t_cols t)"
  have t: "rowNum tp = 1" "pageListNum ?sc = int ?n" "take ?n (colindexList ?sc) = map int (t_cols t)"
    "length (t_vals t) = ?n" "take ?n (columnData (tp_rowData tp)) = map Some (t_vals t)"
    using assms(1) by (auto simp: is_table_def is_row_def)
  have "length (take ?n (colindexList ?sc)) = ?n" using t(3) by simp
  then have len: "?n \<le> length (colindexList ?sc)" by simp
  have "length (take ?n (columnData (tp_rowData tp))) = ?n" using t(4,5) by simp
  then have len': "?n \<le> length (columnData (tp_rowData tp))" by simp
  obtain j where j: "column_loop (colindexList ?sc) 0 ?n attr = Some (Some j)" "j < ?n" "t_vals t ! j = c"
    using column_loop_map_of [of ?n 0 "colindexList ?sc" "t_cols t" "t_vals t" attr c] t(3,4) assms(2) len by auto
  have "attr \<in> int ` set (t_cols t)" using map_of_SomeD [OF assms(2)] by (auto dest: set_zip_leftD)
  then have "0 \<le> attr" by auto
  moreover have "columnData (tp_rowData tp) ! j = Some c" using arg_cong [OF t(5), of "\<lambda>xs. xs ! j"] j t(4) by simp
  ultimately show ?thesis using t(1,2) j len' by (simp add: GetColRowDataEx_def Let_def)
qed

lemma find_position:
  assumes "shows_row (ScanRow y) r" "row_table rt r i = Some t"
  shows "\<exists>rte tp. GetCellValueByIndex rt i = Some rte \<and> GetTblRowDataPosition (Some y) (rte_tblInfo rte) (rte_rindex rte) = Some (Some tp) \<and> is_table (Some tp) t"
proof -
  obtain rte where rte: "GetCellValueByIndex rt i = Some rte" "rte_tblInfo rte \<noteq> 0"
    "List.find (\<lambda>t. t_tbl t = rte_tblInfo rte \<and> t_rindex t = rte_rindex rte) r = Some t"
    using assms(2) by (auto simp: row_table_def split: bind_splits if_splits)
  then show ?thesis
    using position_loop_find [of r "tableRowData y"] assms(1) by (auto simp: GetTblRowDataPosition_def)
qed

lemma find_column_row:
  assumes "shows_row (ScanRow y) r" "row_column rt r i attr = Some c"
  shows "find_column (select_env env rt y) i attr db = Some (Some c, True, db)"
proof -
  obtain t where t: "row_table rt r i = Some t" "map_of (zip (map int (t_cols t)) (t_vals t)) attr = Some c"
    using assms(2) by (auto simp: row_column_def split: bind_splits)
  then show ?thesis
    using find_position [OF assms(1) t(1)] GetColRowDataEx_scanned by (auto simp: find_column_def select_env_def)
qed

section \<open>Selection\<close>

definition qual_truth :: "RangTblEntry list option \<Rightarrow> (ConstValue \<Rightarrow> sql_value option) \<Rightarrow> trow list \<Rightarrow> qual \<Rightarrow> bool option" where
  "qual_truth rt con r q = do { v \<leftarrow> qeval (row_look rt r) con q None False; truth_of v }"

definition passes :: "RangTblEntry list option \<Rightarrow> (ConstValue \<Rightarrow> sql_value option) \<Rightarrow> qual list \<Rightarrow> trow list \<Rightarrow> bool" where
  "passes rt con qs r \<longleftrightarrow> (\<exists>q \<in> set qs. qual_truth rt con r q = Some True)"

definition refs :: "qual list \<Rightarrow> nat" where
  "refs qs = sum_list (map col_refs qs)"

text \<open>The constants of the conditions have their values in \<open>m0\<close>, and there are \<open>N\<close> blocks.\<close>

definition consts_ok :: "xenv \<Rightarrow> cmem \<Rightarrow> (ConstValue \<Rightarrow> sql_value option) \<Rightarrow> nat \<Rightarrow> bool" where
  "consts_ok env m0 con N \<longleftrightarrow> (\<forall>cv v. con cv = Some v \<longrightarrow> value_at (cv_vt cv) m0 (cv_val cv) v) \<and>
     (\<forall>c. 48 \<le> length (x_behind env c)) \<and> blocks_free (x_addr env) m0 N"

lemma quals_loop_passes:
  assumes "consts_ok env m0 con N" "shows_row (ScanRow y) r" "\<forall>q \<in> set qs. qual_truth rt con r q \<noteq> None"
    and "mem_ok (x_addr env) m0 (q_mem s)" "blocks (q_mem s) + refs qs \<le> N"
  shows "\<exists>s'. quals_loop (select_env env rt y) qs s = Some (passes rt con qs r, s') \<and> q_db s' = q_db s \<and>
     mem_ok (x_addr env) m0 (q_mem s') \<and> blocks (q_mem s') \<le> blocks (q_mem s) + refs qs"
  using assms(3-5)
proof (induction qs arbitrary: s)
  case Nil
  then show ?case by (simp add: passes_def)
next
  case (Cons q qs)
  let ?env = "select_env env rt y"
  obtain v b where v: "qeval (row_look rt r) con q None False = Some v" "truth_of v = Some b"
    using Cons.prems(1) by (auto simp: qual_truth_def split: bind_splits)
  have sees: "sees ?env (q_db s) m0 (row_look rt r) con"
    using assms(1) find_column_row [OF assms(2)] column_value_col
    by (auto simp: sees_def consts_ok_def row_look_def select_env_def split: bind_splits)
  have free: "blocks_free (q_addr ?env) m0 N" "mem_ok (q_addr ?env) m0 (q_mem s)" "blocks (q_mem s) + col_refs q \<le> N"
    using assms(1) Cons.prems(2,3) by (simp_all add: consts_ok_def select_env_def refs_def)
  obtain s1 where s1: "ExecSelectQual ?env q s = Some (True, s1)" "evaluated ?env m0 (col_refs q) v s s1"
    using ProcessQual_evaluates [OF sees free(1) refl free(2,3) v(1)] by (auto simp: ExecSelectQual_def)
  have b: "getDataBool (q_floats ?env) (Some (resultExpreData s1)) = b"
    using truth_of_getDataBool [OF v(2)] s1(2) by (auto simp: evaluated_def)
  have s1': "q_db s1 = q_db s" "mem_ok (x_addr env) m0 (q_mem s1)" "blocks (q_mem s1) \<le> blocks (q_mem s) + col_refs q"
    using s1(2) by (auto simp: evaluated_def select_env_def)
  have p: "passes rt con (q # qs) r \<longleftrightarrow> b \<or> passes rt con qs r" using v by (auto simp: passes_def qual_truth_def)
  show ?case
  proof (cases b)
    case True
    then show ?thesis using s1(1) b s1' p by (auto simp: refs_def)
  next
    case False
    have "blocks (q_mem s1) + refs qs \<le> N" using s1'(3) Cons.prems(3) by (simp add: refs_def)
    from Cons.IH [OF _ s1'(2) this] Cons.prems(1) show ?thesis
      using s1(1) b s1' p False by (fastforce simp: refs_def)
  qed
qed

section \<open>The selection is a cursor\<close>

definition select_at :: "xenv \<Rightarrow> (nat \<Rightarrow> ForkType \<Rightarrow> int \<rightharpoonup> page) \<Rightarrow> (planState \<Rightarrow> trow list list \<Rightarrow> bool) \<Rightarrow> RangTblEntry list option \<Rightarrow> qual list \<Rightarrow>
    (ConstValue \<Rightarrow> sql_value option) \<Rightarrow> cmem \<Rightarrow> nat \<Rightarrow> planState \<times> ExecState \<Rightarrow> trow list list \<Rightarrow> bool" where
  "select_at env pgs at rt qs con m0 N = (\<lambda>(n, es) out. consts_ok env m0 con N \<and> (\<exists>reg sub rs. n = SelectState (Some qs) rt reg sub \<and> at sub rs \<and>
     out = filter (passes rt con qs) rs \<and> (\<forall>r \<in> set rs. \<forall>q \<in> set qs. qual_truth rt con r q \<noteq> None) \<and>
     pages_are pgs es \<and> mem_ok (x_addr env) m0 (es_mem es) \<and> blocks (es_mem es) + length rs * refs qs \<le> N))"

text \<open>
  A node whose row is read by another node: the parent records the row, which does not disturb the node. \<open>fin\<close> holds of the
  state at the end.
\<close>

locale node_cursor =
  cursor "\<lambda>(n, es). ExecNodeProc env n es" delivers "\<lambda>(n, es). fin es" shows_row
  for env and delivers :: "planState \<times> ExecState \<Rightarrow> trow list list \<Rightarrow> bool" and fin +
  assumes frame: "delivers (n, es) rs \<Longrightarrow> delivers (n, es\<lparr>scanRowDataLeft := x\<rparr>) rs"

locale select_node = plan_node env pgs width at ended for env pgs width at ended +
  fixes rt :: "RangTblEntry list option" and qs :: "qual list" and con :: "ConstValue \<Rightarrow> sql_value option" and m0 :: cmem and N :: nat
begin

abbreviation selected :: "planState \<times> ExecState \<Rightarrow> trow list list \<Rightarrow> bool" where
  "selected \<equiv> select_at env pgs at rt qs con m0 N"

lemma select_step:
  assumes "consts_ok env m0 con N" "at sub rs" "\<forall>r \<in> set rs. \<forall>q \<in> set qs. qual_truth rt con r q \<noteq> None"
    and "pages_are pgs es" "mem_ok (x_addr env) m0 (es_mem es)" "blocks (es_mem es) + length rs * refs qs \<le> N"
  shows "case filter (passes rt con qs) rs of
       [] \<Rightarrow> \<exists>n' es'. ExecNodeProc env (SelectState (Some qs) rt reg sub) es = Some (None, n', es') \<and> pages_are pgs es'
     | r # rs' \<Rightarrow> \<exists>x s'. ExecNodeProc env (SelectState (Some qs) rt reg sub) es = Some (Some x, s') \<and> shows_row x r \<and> selected s' rs'"
  using assms(2-6)
proof (induction rs arbitrary: sub es reg)
  case Nil
  from node_end [OF Nil.prems(1,3)] show ?case
    by (subst ExecNodeProc.simps) (auto simp: node_defs)
next
  case (Cons r rs)
  obtain x sub' es1 where x: "ExecNodeProc env sub es = Some (Some x, sub', es1)" "shows_row x r" "at sub' rs" "pages_are pgs es1" "es_mem es1 = es_mem es"
    using node_some [OF Cons.prems(1,3)] by blast
  obtain y where y: "x = ScanRow y" using x(2) by (cases x) auto
  let ?s = "\<lparr>resultExpreData = reg, q_mem = es_mem es1, q_db = es_db es1\<rparr>"
  have "\<forall>q \<in> set qs. qual_truth rt con r q \<noteq> None" using Cons.prems(2) by simp
  moreover have "mem_ok (x_addr env) m0 (q_mem ?s)" "blocks (q_mem ?s) + refs qs \<le> N" using Cons.prems(4,5) x(5) by simp_all
  ultimately obtain s' where s': "quals_loop (select_env env rt y) qs ?s = Some (passes rt con qs r, s')" "q_db s' = es_db es1"
      "mem_ok (x_addr env) m0 (q_mem s')" "blocks (q_mem s') \<le> blocks (es_mem es) + refs qs"
    using quals_loop_passes [OF assms(1) x(2) [unfolded y], of qs rt ?s] x(5) by auto
  let ?es = "es1\<lparr>es_mem := q_mem s', es_db := q_db s'\<rparr>" and ?n = "SelectState (Some qs) rt (resultExpreData s') sub'"
  have good: "pages_are pgs ?es" "mem_ok (x_addr env) m0 (es_mem ?es)" "blocks (es_mem ?es) + length rs * refs qs \<le> N"
    using x(4) s'(2-4) Cons.prems(5) by (simp_all add: pages_are_def)
  show ?case
  proof (cases "passes rt con qs r")
    case True
    have "selected (?n, ?es) (filter (passes rt con qs) rs)"
      using assms(1) x(3) Cons.prems(2) good by (auto simp: select_at_def)
    moreover have "ExecNodeProc env (SelectState (Some qs) rt reg sub) es = Some (Some x, ?n, ?es)"
      using x(1) y s'(1) True by (subst ExecNodeProc.simps) (simp add: node_defs)
    ultimately show ?thesis using x(2) True by simp
  next
    case False
    have "ExecNodeProc env (SelectState (Some qs) rt reg sub) es = ExecNodeProc env ?n ?es"
      using x(1) y s'(1) False by (subst ExecNodeProc.simps) (simp add: node_defs)
    then show ?thesis
      using Cons.IH [OF x(3) _ good, of "resultExpreData s'"] Cons.prems(2) False
      by (cases "filter (passes rt con qs) rs") simp_all
  qed
qed

end

sublocale select_node \<subseteq> sel: node_cursor env "select_at env pgs at rt qs con m0 N" "pages_are pgs"
proof
  show "\<exists>s'. (\<lambda>(n, es). ExecNodeProc env n es) s = Some (None, s') \<and> (\<lambda>(n, es). pages_are pgs es) s'" if s: "selected s []" for s
  proof -
    obtain reg sub rs es where "s = (SelectState (Some qs) rt reg sub, es)" "consts_ok env m0 con N" "at sub rs" "[] = filter (passes rt con qs) rs"
        "\<forall>r \<in> set rs. \<forall>q \<in> set qs. qual_truth rt con r q \<noteq> None" "pages_are pgs es" "mem_ok (x_addr env) m0 (es_mem es)" "blocks (es_mem es) + length rs * refs qs \<le> N"
      using s by (cases s) (auto simp: select_at_def)
    then show ?thesis using select_step [of sub rs es reg] by simp
  qed
  show "\<exists>x s'. (\<lambda>(n, es). ExecNodeProc env n es) s = Some (Some x, s') \<and> shows_row x r \<and> selected s' rs'" if s: "selected s (r # rs')" for s r rs'
  proof -
    obtain reg sub rs es where "s = (SelectState (Some qs) rt reg sub, es)" "consts_ok env m0 con N" "at sub rs" "r # rs' = filter (passes rt con qs) rs"
        "\<forall>r \<in> set rs. \<forall>q \<in> set qs. qual_truth rt con r q \<noteq> None" "pages_are pgs es" "mem_ok (x_addr env) m0 (es_mem es)" "blocks (es_mem es) + length rs * refs qs \<le> N"
      using s by (cases s) (auto simp: select_at_def)
    then show ?thesis using select_step [of sub rs es reg] by (cases "filter (passes rt con qs) rs") auto
  qed
  show "selected (n, es\<lparr>scanRowDataLeft := x\<rparr>) rs" if "selected (n, es) rs" for n es rs x
    using that by (auto simp: select_at_def pages_are_def)
qed

section \<open>Projection\<close>

definition proj_cols :: "RangTblEntry list option \<Rightarrow> TargetEntry list \<Rightarrow> trow list \<Rightarrow> RowColumnData list option" where
  "proj_cols rt tes r = those (map (\<lambda>te. row_column rt r (te_rindex te) (te_attrIndex te)) tes)"

definition proj_ok :: "RangTblEntry list option \<Rightarrow> TargetEntry list \<Rightarrow> trow list \<Rightarrow> bool" where
  "proj_ok rt tes r \<longleftrightarrow> (case proj_cols rt tes r of None \<Rightarrow> False | Some cs \<Rightarrow> cs \<noteq> [] \<and> (\<forall>c \<in> set cs. 0 < sint (rc_size c)))"

lemma those_length: "those xs = Some ys \<Longrightarrow> length ys = length xs"
  by (induction xs arbitrary: ys) (auto split: option.splits)

lemma target_loop_cols:
  assumes "shows_row (ScanRow y) r" "those (map (\<lambda>te. row_column rt r (te_rindex te) (te_attrIndex te)) tes) = Some cs" "i + length tes \<le> length raw"
  shows "target_loop y rt tes i raw db = Some (i + length tes, take i raw @ map Some cs @ drop (i + length tes) raw, db)"
  using assms(2,3)
proof (induction tes arbitrary: i raw cs)
  case (Cons te tes)
  obtain c cs' where c: "row_column rt r (te_rindex te) (te_attrIndex te) = Some c" "cs = c # cs'"
      "those (map (\<lambda>te. row_column rt r (te_rindex te) (te_attrIndex te)) tes) = Some cs'"
    using Cons.prems(1) by (auto split: option.splits)
  obtain t where t: "row_table rt r (te_rindex te) = Some t" "map_of (zip (map int (t_cols t)) (t_vals t)) (te_attrIndex te) = Some c"
    using c(1) by (auto simp: row_column_def split: bind_splits)
  obtain rte tp where p: "GetCellValueByIndex rt (te_rindex te) = Some rte"
      "GetTblRowDataPosition (Some y) (rte_tblInfo rte) (rte_rindex rte) = Some (Some tp)" "is_table (Some tp) t"
    using find_position [OF assms(1) t(1)] by blast
  have "take (Suc i) (raw[i := Some c]) = take i raw @ [Some c]"
    using Cons.prems(2) by (simp add: take_Suc_conv_app_nth)
  then show ?case
    using Cons.IH [OF c(3), of "Suc i" "raw[i := Some c]"] Cons.prems(2) p GetColRowDataEx_scanned [OF p(3) t(2)] c(2) by simp
qed simp

lemma form_loop_all: "\<forall>c \<in> set cs. 0 < sint (rc_size c) \<Longrightarrow> form_loop (map Some cs @ rest) (length cs) = Some (map Some cs, sum_list (map rc_size cs))"
  by (induction cs) auto

lemma FetchTargetColumns_cols:
  assumes "shows_row (ScanRow y) r" "proj_ok rt tes r" "length tes \<le> length (prj_rawcolrow pj)" "length tes \<le> length (columnData (prj_rowData pj))"
  shows "\<exists>data pj'. FetchTargetColumns y (Some tes) rt pj db = Some (Some data, pj', db) \<and> is_row data (the (proj_cols rt tes r)) \<and>
     length (prj_rawcolrow pj') = length (prj_rawcolrow pj) \<and> length (columnData (prj_rowData pj')) = length (columnData (prj_rowData pj))"
proof -
  obtain cs where cs: "proj_cols rt tes r = Some cs" "cs \<noteq> []" "\<forall>c \<in> set cs. 0 < sint (rc_size c)"
    using assms(2) by (auto simp: proj_ok_def split: option.splits)
  then have len: "length cs = length tes" using those_length by (fastforce simp: proj_cols_def)
  then obtain te tes' where "tes = te # tes'" using cs(2) by (cases tes) auto
  then have "row_column rt r (te_rindex te) (te_attrIndex te) \<noteq> None" using cs(1) by (auto simp: proj_cols_def split: option.splits)
  then obtain rtl where rt: "rt = Some rtl"
    by (cases rt) (auto simp: row_column_def row_table_def GetCellValueByIndex_def)
  let ?raw = "map Some cs @ drop (length tes) (prj_rawcolrow pj)"
  have loop: "target_loop y rt tes 0 (prj_rawcolrow pj) db = Some (length tes, ?raw, db)"
    using target_loop_cols [OF assms(1) cs(1) [unfolded proj_cols_def], of 0 "prj_rawcolrow pj" db] assms(3) by simp
  let ?data = "\<lparr>tr_size = sum_list (map rc_size cs), tr_num = of_nat (length tes), columnData = map Some cs @ drop (length tes) (columnData (prj_rowData pj))\<rparr>"
  have "FormCol2RowDataEx ?raw (length tes) (prj_rowData pj) = Some ?data"
  proof -
    have fl: "form_loop ?raw (length tes) = Some (map Some cs, sum_list (map rc_size cs))"
      using form_loop_all [OF cs(3), of "drop (length tes) (prj_rawcolrow pj)"] len by simp
    obtain c raw' where "?raw = Some c # raw'" using cs(2) by (cases cs) auto
    then show ?thesis using fl len assms(4) unfolding FormCol2RowDataEx_def by simp
  qed
  then show ?thesis
    using loop cs(1) len assms(3,4) rt by (simp add: FetchTargetColumns_def is_row_def)
qed

fun is_proj :: "rowptr \<Rightarrow> RowColumnData list \<Rightarrow> bool" where
  "is_proj (ProjRow d) cs \<longleftrightarrow> is_row d cs"
| "is_proj _ cs \<longleftrightarrow> False"

definition project_at :: "(planState \<times> ExecState \<Rightarrow> trow list list \<Rightarrow> bool) \<Rightarrow> RangTblEntry list option \<Rightarrow> TargetEntry list \<Rightarrow>
    planState \<times> ExecState \<Rightarrow> RowColumnData list list \<Rightarrow> bool" where
  "project_at delivers rt tes = (\<lambda>(n, es) out. \<exists>pj sub rs. n = ProjectTblState (Some tes) rt pj sub \<and> delivers (sub, es) rs \<and>
     out = map (the \<circ> proj_cols rt tes) rs \<and> (\<forall>r \<in> set rs. proj_ok rt tes r) \<and>
     length tes \<le> length (prj_rawcolrow pj) \<and> length tes \<le> length (columnData (prj_rowData pj)))"

locale project_node = node_cursor env delivers fin for env delivers fin +
  fixes rt :: "RangTblEntry list option" and tes :: "TargetEntry list"

sublocale project_node \<subseteq> prj: cursor "\<lambda>(n, es). ExecNodeProc env n es" "project_at delivers rt tes" "\<lambda>(n, es). fin es" is_proj
proof
  show "\<exists>s'. (\<lambda>(n, es). ExecNodeProc env n es) s = Some (None, s') \<and> (\<lambda>(n, es). fin es) s'" if s: "project_at delivers rt tes s []" for s
  proof -
    obtain pj sub es where n: "s = (ProjectTblState (Some tes) rt pj sub, es)" "delivers (sub, es) []"
      using s by (cases s) (auto simp: project_at_def)
    from next_end [OF n(2)] show ?thesis unfolding n(1) by (subst ExecNodeProc.simps) (auto simp: node_defs)
  qed
  show "\<exists>x s'. (\<lambda>(n, es). ExecNodeProc env n es) s = Some (Some x, s') \<and> is_proj x c \<and> project_at delivers rt tes s' out"
    if s: "project_at delivers rt tes s (c # out)" for s c out
  proof -
    obtain pj sub es r rs where n: "s = (ProjectTblState (Some tes) rt pj sub, es)" "delivers (sub, es) (r # rs)" "c = the (proj_cols rt tes r)"
        "out = map (the \<circ> proj_cols rt tes) rs" "\<forall>r \<in> set (r # rs). proj_ok rt tes r"
        "length tes \<le> length (prj_rawcolrow pj)" "length tes \<le> length (columnData (prj_rowData pj))"
      using s by (cases s) (auto simp: project_at_def)
    obtain x sub' es' where x: "ExecNodeProc env sub es = Some (Some x, sub', es')" "shows_row x r" "delivers (sub', es') rs"
      using next_some [OF n(2)] by auto
    obtain y where y: "x = ScanRow y" using x(2) by (cases x) auto
    have "proj_ok rt tes r" using n(5) by simp
    then obtain data pj' where d: "FetchTargetColumns y (Some tes) rt pj (es_db es') = Some (Some data, pj', es_db es')" "is_row data c"
        "length tes \<le> length (prj_rawcolrow pj')" "length tes \<le> length (columnData (prj_rowData pj'))"
      using FetchTargetColumns_cols [of y r rt tes pj "es_db es'"] x(2) y n(3,6,7) by auto
    have "ExecNodeProc env (ProjectTblState (Some tes) rt pj sub) es =
        Some (Some (ProjRow data), ProjectTblState (Some tes) rt pj' sub', es'\<lparr>scanRowDataLeft := Some x\<rparr>)"
      using x(1) y d(1) by (subst ExecNodeProc.simps) (simp add: node_defs)
    moreover have "project_at delivers rt tes (ProjectTblState (Some tes) rt pj' sub', es'\<lparr>scanRowDataLeft := Some x\<rparr>) out"
      using frame [OF x(3)] n(4,5) d(3,4) by (auto simp: project_at_def)
    ultimately show ?thesis unfolding n(1) using d(2) by auto
  qed
qed

section \<open>The query\<close>

locale query_node = project_node env delivers fin rt tes + row_sink "SendToPort (x_fl_text env)" took stands_for
  for env delivers fin rt tes and took :: "'r list \<Rightarrow> Portal \<Rightarrow> bool" and stands_for
begin

lemma query_sends:
  assumes "project_at delivers rt tes (n, es) out" "took done_rows p" "list_all2 (\<lambda>cs r. \<forall>row. is_row row cs \<longrightarrow> stands_for row r) out rows_out"
  shows "\<exists>n' es' p'. query_loop env n es p k = Some (n', es', p') \<and> took (done_rows @ rows_out) p' \<and> retCode es' = k + int (length rows_out) \<and>
     (\<exists>r. fin (es'\<lparr>retCode := r\<rparr>))"
  using assms
proof (induction out arbitrary: n es p k done_rows rows_out)
  case Nil
  then obtain n' es' where e: "ExecNodeProc env n es = Some (None, n', es')" "fin es'" using prj.next_end [OF Nil.prems(1)] by auto
  moreover have "\<exists>r. fin (es'\<lparr>retCode := r\<rparr>)" using e(2) by (intro exI [of _ "retCode es'"]) simp
  ultimately show ?case using Nil.prems(2,3) by (subst query_loop.simps) (simp add: FinishSend_def)
next
  case (Cons c out)
  obtain x n1 es1 where x: "ExecNodeProc env n es = Some (Some x, n1, es1)" "is_proj x c" "project_at delivers rt tes (n1, es1) out"
    using prj.next_some [OF Cons.prems(1)] by auto
  obtain d where d: "x = ProjRow d" "is_row d c" using x(2) by (cases x) auto
  obtain r rs where r: "rows_out = r # rs" "stands_for d r" "list_all2 (\<lambda>cs r. \<forall>row. is_row row cs \<longrightarrow> stands_for row r) out rs"
    using Cons.prems(3) d(2) by (auto simp: list_all2_Cons1)
  obtain ret p1 where s: "SendToPort (x_fl_text env) d p = Some (ret, p1)" "0 \<le> ret" "took (done_rows @ [r]) p1"
    using send_row [OF Cons.prems(2) r(2)] by blast
  have "query_loop env n es p k = query_loop env n1 es1 p1 (k + 1)"
    using x(1) d(1) s(1,2) by (subst query_loop.simps) simp
  then show ?case using Cons.IH [OF x(3) s(3) r(3), of "k + 1"] r(1) by auto
qed

end

section \<open>Joins of several tables\<close>

text \<open>The join of the first table with the others, the last of which comes first in the list.\<close>

fun tree_plan :: "table_desc \<Rightarrow> table_desc list \<Rightarrow> plan" where
  "tree_plan d [] = SeqScan (d_tbl d) (d_rindex d) (map int (d_cols d)) (d_colNum d)"
| "tree_plan d (e # es) = NestLoop (Suc (Suc (length es))) (tree_plan d es) (SeqScan (d_tbl e) (d_rindex e) (map int (d_cols e)) (d_colNum e))"

fun tree_at :: "xenv \<Rightarrow> (nat \<Rightarrow> ForkType \<Rightarrow> int \<rightharpoonup> page) \<Rightarrow> table_desc \<Rightarrow> table_desc list \<Rightarrow> planState \<Rightarrow> trow list list \<Rightarrow> bool" where
  "tree_at env pgs d [] = scan_node_at env pgs d"
| "tree_at env pgs d (e # es) = join_at (Suc (length es)) 1 (tree_at env pgs d es) (scan_node_at env pgs e) (scan_restarts env pgs e)
     (table_rows pgs e (last (d_groups e)))"

fun tree_ended :: "xenv \<Rightarrow> (nat \<Rightarrow> ForkType \<Rightarrow> int \<rightharpoonup> page) \<Rightarrow> table_desc \<Rightarrow> table_desc list \<Rightarrow> planState \<Rightarrow> bool" where
  "tree_ended env pgs d [] = scan_node_ended env pgs d"
| "tree_ended env pgs d (e # es) = join_ended"

fun tree_rows :: "(nat \<Rightarrow> ForkType \<Rightarrow> int \<rightharpoonup> page) \<Rightarrow> table_desc \<Rightarrow> table_desc list \<Rightarrow> trow list list" where
  "tree_rows pgs d [] = table_rows pgs d (concat (d_groups d))"
| "tree_rows pgs d (e # es) = joined (table_rows pgs e (last (d_groups e))) (table_rows pgs e (concat (d_groups e))) (tree_rows pgs d es)"

lemma tree_plan_node: "plan_node env pgs (Suc (length es)) (tree_at env pgs d es) (tree_ended env pgs d es)"
proof (induction es)
  case Nil
  show ?case using scan.plan_node_axioms by simp
next
  case (Cons e es)
  have "join_nodes env pgs (Suc (length es)) (tree_at env pgs d es) (tree_ended env pgs d es) 1 (scan_node_at env pgs e)
      (scan_node_ended env pgs e) (scan_restarts env pgs e) (table_rows pgs e (last (d_groups e)))"
    using Cons.IH scan.rescan_node_axioms by (rule join_nodes.intro)
  from join_nodes.join_plan_node [OF this] show ?case by simp
qed

interpretation tree: plan_node env pgs "Suc (length es)" "tree_at env pgs d es" "tree_ended env pgs d es" for env pgs d es
  by (rule tree_plan_node)

interpretation tree_sel: select_node env pgs "Suc (length es)" "tree_at env pgs d es" "tree_ended env pgs d es" rt qs con m0 N
  for env pgs d es rt qs con m0 N
  by unfold_locales

interpretation tree_query: query_node env "select_at env pgs (tree_at env pgs d es) rt qs con m0 N" "pages_are pgs" rt tes
    "portal_took tes w" "row_values tes"
  for env pgs d es rt qs con m0 N tes w
  by unfold_locales

lemma tree_init:
  assumes "\<forall>e \<in> set (d # es). desc_ok env pgs e"
  shows "\<exists>n. InitExecNode (tree_plan d es) p = (n, p) \<and> tree_at env pgs d es n (tree_rows pgs d es)"
  using assms
proof (induction es)
  case Nil
  then have d: "desc_ok env pgs d" by simp
  from fresh_scan [OF this] obtain sc where "InitScanPositionInfo (map int (d_cols d)) (d_colNum d) = Some sc"
    "\<And>st. pages st = pgs (d_tbl d) \<Longrightarrow> scan_at (d_sees d) (d_colNum d) (d_cols d) (d_groups d) sc st
        (rows_of (d_sees d) (pgs (d_tbl d)) (d_cols d) (concat (d_groups d)))" by metis
  then show ?case using d rows_of_length by (auto simp: scan_node_at_def table_rows_def)
next
  case (Cons e es)
  then have "scan_restarts env pgs e (SeqScanState (d_tbl e) (d_rindex e) (InitScanPositionInfo (map int (d_cols e)) (d_colNum e)))
      (table_rows pgs e (concat (d_groups e)))" by (simp add: scan_restarts_def)
  moreover obtain n where "InitExecNode (tree_plan d es) p = (n, p)" "tree_at env pgs d es n (tree_rows pgs d es)" using Cons by auto
  ultimately show ?case by (auto simp: join_at_def ExecInitNestLoopNode_def intro!: exI)
qed

text \<open>When the group file of each inner table has one page, the rows are the product of the tables.\<close>

lemma concat_concat_map: "concat (concat xss) = concat (map concat xss)"
  by (induction xss) simp_all

lemma product_lists_snoc: "product_lists (xss @ [ys]) = concat (map (\<lambda>xs. map (\<lambda>y. xs @ [y]) ys) (product_lists xss))"
  by (induction xss) (simp_all add: map_concat o_def concat_concat_map)

lemma meets_product: "concat (map (meets rs) (map concat pss)) = map concat (concat (map (\<lambda>xs. map (\<lambda>y. xs @ [y]) rs) pss))"
  by (induction pss) (simp_all add: meets_def)

lemma tree_rows_product:
  assumes "\<forall>e \<in> set es. length (d_groups e) = 1"
  shows "tree_rows pgs d es = map concat (product_lists (map (\<lambda>d. table_rows pgs d (concat (d_groups d))) (d # rev es)))"
  using assms
proof (induction es)
  case Nil
  show ?case by (simp add: map_concat o_def)
next
  case (Cons e es)
  let ?R = "table_rows pgs e (concat (d_groups e))"
  have "last (d_groups e) = concat (d_groups e)" using Cons.prems by (cases "d_groups e") auto
  then have "tree_rows pgs d (e # es) = joined ?R ?R (tree_rows pgs d es)" by simp
  also have "\<dots> = concat (map (meets ?R) (tree_rows pgs d es))" by (cases "tree_rows pgs d es") (simp_all add: joined_def)
  also have "\<dots> = map concat (product_lists (map (\<lambda>d. table_rows pgs d (concat (d_groups d))) (d # rev es) @ [?R]))"
    using Cons by (simp only: product_lists_snoc meets_product [symmetric]) simp
  finally show ?case by simp
qed

section \<open>The answer to a query\<close>

text \<open>The values that the targets have in a row of the join.\<close>

definition answer_row :: "RangTblEntry list option \<Rightarrow> TargetEntry list \<Rightarrow> trow list \<Rightarrow> sql_value list option" where
  "answer_row rt tes r = do { cs \<leftarrow> proj_cols rt tes r; those (map2 column_value (map te_vt tes) cs) }"

definition answer_fits :: "RangTblEntry list option \<Rightarrow> TargetEntry list \<Rightarrow> trow list \<Rightarrow> bool" where
  "answer_fits rt tes r \<longleftrightarrow> (case answer_row rt tes r of None \<Rightarrow> False | Some vs \<Rightarrow> Suc (length (row_text vs)) \<le> PORT_BUFFER_SIZE)"

lemma those_values:
  "those (map2 column_value vts cs) = Some vs \<Longrightarrow> length vts = length cs \<Longrightarrow> list_all2 (\<lambda>(vt, c) v. col_value vt c v \<and> col_ok c) (zip vts cs) vs"
proof (induction vts cs arbitrary: vs rule: list_induct2')
  case (4 vt vts c cs)
  then show ?case using column_value_col by (auto split: option.splits)
qed simp_all

lemma answer_fits_row:
  assumes "answer_fits rt tes r" "tes \<noteq> []"
  shows "proj_ok rt tes r" "row_fits tes (the (proj_cols rt tes r)) (the (answer_row rt tes r))"
proof -
  obtain cs vs where cs: "proj_cols rt tes r = Some cs" "those (map2 column_value (map te_vt tes) cs) = Some vs" "Suc (length (row_text vs)) \<le> PORT_BUFFER_SIZE"
    "answer_row rt tes r = Some vs"
    using assms(1) by (auto simp: answer_fits_def answer_row_def split: option.splits bind_splits)
  have len: "length cs = length tes" using cs(1) those_length by (fastforce simp: proj_cols_def)
  have h: "holds_values (map te_vt tes) cs vs" using those_values [OF cs(2)] len by (simp add: holds_values_def)
  then show "row_fits tes (the (proj_cols rt tes r)) (the (answer_row rt tes r))" using cs by (simp add: row_fits_def)
  have "col_ok c" if c: "c \<in> set cs" for c
  proof -
    from c obtain i where "i < length cs" "c = cs ! i" by (auto simp: in_set_conv_nth)
    then show ?thesis using h len by (auto simp: holds_values_def list_all2_conv_all_nth)
  qed
  then have "\<forall>c \<in> set cs. 0 < sint (rc_size c)" by (auto simp: col_ok_def ROW_COLUMN_HEADER_SIZE_def)
  then show "proj_ok rt tes r" using cs(1) len assms(2) by (auto simp: proj_ok_def)
qed

text \<open>A portal between two statements.\<close>

definition idle_portal :: "Portal \<Rightarrow> bool" where
  "idle_portal p \<longleftrightarrow> ready p \<and> p_targetList p = None"

definition titles_ok :: "TargetEntry list \<Rightarrow> bool" where
  "titles_ok tes \<longleftrightarrow> tes \<noteq> [] \<and> length tes < 2 ^ 31 \<and> (\<forall>te \<in> set tes. 0 \<notin> set (title te)) \<and> Suc (length (head_text tes)) \<le> PORT_BUFFER_SIZE"

lemma InitSelectPortal_took:
  assumes "idle_portal p" "titles_ok tes"
  shows "\<exists>p'. InitSelectPortal (Some tes) (InitPortal p) = (0, p') \<and> portal_took tes (wire (p_sock p)) [] p'"
  using assms by (auto simp: InitSelectPortal_def InitTargetAttrType_def InitPortal_def idle_portal_def titles_ok_def portal_took_def portal_for_def ready_def connected_def)

lemma digit_nonzero: "k < 10 \<Longrightarrow> (48 :: byte) + of_nat k \<noteq> 0"
proof
  assume "k < 10" "(48 :: byte) + of_nat k = 0"
  moreover from this(1) have "unat ((48 :: byte) + of_nat k) = 48 + k" by (simp add: unat_word_ariths unat_of_nat)
  ultimately show False by simp
qed

lemma digits_nonzero: "0 \<notin> set (digits n)"
proof (induction n rule: digits.induct)
  case (1 n)
  then show ?case using digit_nonzero [of n] digit_nonzero [of "n mod 10"] by (subst digits.simps) auto
qed

lemma digits_length: "n < 10 ^ Suc k \<Longrightarrow> length (digits n) \<le> Suc k"
proof (induction k arbitrary: n)
  case (Suc k)
  then have "n div 10 < 10 ^ Suc k" by (simp add: less_mult_imp_div_less)
  from Suc.IH [OF this] show ?case by (subst digits.simps) simp
qed (simp add: digits.simps)

lemma result_text_ok:
  assumes "n < 2 ^ 31"
  shows "0 \<notin> set (result_text (int n))" "Suc (length (result_text (int n))) \<le> 60"
proof -
  have "length (digits n) \<le> 10" using digits_length [of n 9] assms by simp
  then show "Suc (length (result_text (int n))) \<le> 60" by (simp add: result_text_def ExecRetCode_SUC_def dec_text_def text_of_def)
  show "0 \<notin> set (result_text (int n))"
    using digits_nonzero [of n] by (simp add: result_text_def ExecRetCode_SUC_def dec_text_def text_of_def)
qed

text \<open>The answer: the titles with the first row, the other rows, and the number of rows.\<close>

definition answer_messages :: "TargetEntry list \<Rightarrow> sql_value list list \<Rightarrow> wire_msg list" where
  "answer_messages tes vss = row_messages tes PORT_MSG_START False vss @
     [(fold (\<lambda>_. next_type) vss PORT_MSG_START, result_text (int (length vss)) @ [0])]"

lemma ExecutorPlan_answers:
  assumes "exec_root env n es p = Some (n', es', p')" "portal_took tes w vss p'" "retCode es' = int (length vss)" "length vss < 2 ^ 31"
  shows "\<exists>q. ExecutorPlan env n es p = Some (n', es', q) \<and> ready q \<and> p_targetList q = Some tes \<and> wire (p_sock q) = w @ stream (answer_messages tes vss) \<and>
     p_type q = fold (\<lambda>_. next_type) vss PORT_MSG_START"
proof -
  let ?s = "result_text (int (length vss))"
  note s = result_text_ok [OF assms(4)]
  have r: "ready p'" "p_targetList p' = Some tes" using assms(2) by (auto simp: portal_took_def portal_for_def)
  have "snprintf_at (int (length ([] :: byte list))) (int PORT_BUFFER_SIZE) ?s (text_buf []) = Some (text_buf ([] @ ?s))"
    using s(2) by (intro snprintf_text_buf) (simp_all add: PORT_BUFFER_SIZE_def)
  then have buf: "snprintf_at 0 (int PORT_BUFFER_SIZE) ?s (p_body p') = Some (text_buf ?s)" using r(1) by (simp add: ready_def text_buf_simps)
  obtain ret q where q: "FlushPortal (p'\<lparr>p_body := text_buf ?s\<rparr>) = Some (ret, q)" "flushed [(p_type p', ?s @ [0])] (p'\<lparr>p_body := text_buf ?s\<rparr>) q"
    using FlushPortal_text [of "p'\<lparr>p_body := text_buf ?s\<rparr>" ?s] s r(1) by (auto simp: ready_def connected_def PORT_BUFFER_SIZE_def)
  have "ExecutorPlan env n es p = Some (n', es', q)" using assms(1,3) buf q(1) by (simp add: ExecutorPlan_def)
  then show ?thesis using flushedD [OF q(2)] r(2) assms(2) by (auto simp: portal_took_def answer_messages_def)
qed

section \<open>A query over several tables\<close>

abbreviation db_pages :: "dbst \<Rightarrow> nat \<Rightarrow> ForkType \<Rightarrow> int \<rightharpoonup> page" where
  "db_pages db \<equiv> \<lambda>t. pages (db t)"

text \<open>The plan of \<open>select tes from d, ds where qs\<close>.\<close>

definition select_plan :: "TargetEntry list \<Rightarrow> RangTblEntry list option \<Rightarrow> qual list \<Rightarrow> table_desc \<Rightarrow> table_desc list \<Rightarrow> plan" where
  "select_plan tes rt qs d ds = QueryTbl (Some tes) (ProjectTbl tes rt (SelectResult (Some qs) rt (tree_plan d (rev ds))))"

text \<open>The rows of the product of the tables.\<close>

definition product_rows :: "dbst \<Rightarrow> table_desc list \<Rightarrow> trow list list" where
  "product_rows db ds = map concat (product_lists (map (\<lambda>d. table_rows (db_pages db) d (concat (d_groups d))) ds))"

text \<open>
  What a query relies on: the tables are stored as their descriptions say, and each table after the first has one page of
  groups; the conditions have a truth value for each row, and there is room for the strings they copy; the targets of a
  selected row have values, whose text fits into a message.
\<close>

definition query_ok :: "xenv \<Rightarrow> dbst \<Rightarrow> wmem \<Rightarrow> TargetEntry list \<Rightarrow> RangTblEntry list option \<Rightarrow> qual list \<Rightarrow> (ConstValue \<Rightarrow> sql_value option) \<Rightarrow> cmem \<Rightarrow> nat \<Rightarrow>
    table_desc \<Rightarrow> table_desc list \<Rightarrow> bool" where
  "query_ok env db m tes rt qs con m0 N d ds \<longleftrightarrow>
     (\<forall>e \<in> set (d # ds). desc_ok env (db_pages db) e) \<and> (\<forall>e \<in> set ds. length (d_groups e) = 1) \<and>
     consts_ok env m0 con N \<and> mem_ok (x_addr env) m0 m \<and> blocks m + length (product_rows db (d # ds)) * refs qs \<le> N \<and>
     (\<forall>r \<in> set (product_rows db (d # ds)). (\<forall>q \<in> set qs. qual_truth rt con r q \<noteq> None) \<and> (passes rt con qs r \<longrightarrow> answer_fits rt tes r)) \<and>
     titles_ok tes \<and> length (product_rows db (d # ds)) < 2 ^ 31"

definition selected :: "dbst \<Rightarrow> TargetEntry list \<Rightarrow> RangTblEntry list option \<Rightarrow> qual list \<Rightarrow> (ConstValue \<Rightarrow> sql_value option) \<Rightarrow> table_desc list \<Rightarrow> sql_value list list" where
  "selected db tes rt qs con ds = map (the \<circ> answer_row rt tes) (filter (passes rt con qs) (product_rows db ds))"

lemma list_all2_refl_on: "(\<And>x. x \<in> set xs \<Longrightarrow> P x x) \<Longrightarrow> list_all2 P xs xs"
  by (induction xs) auto

text \<open>The environment of a statement that starts in the state \<open>w\<close>.\<close>

definition statement_env :: "TransactionIsolationLevel \<Rightarrow> xenv \<Rightarrow> 'a world_scheme \<Rightarrow> xenv option" where
  "statement_env level env w = do {
     (sn, txn) \<leftarrow> GenerateSnapshot level (w_snap w) (w_txn w);
     Some (env\<lparr>x_snapshot := Some sn, x_txn := txn\<rparr>) }"

lemma query_answers:
  assumes "statement_env level env0 w = Some env" "query_ok env (w_db w) (w_mem w) tes rt qs con m0 N d ds" "idle_portal p"
  shows "\<exists>w' p'. ExecutorMain level env0 [select_plan tes rt qs d ds] w p = Some (w', p') \<and> ready p' \<and> p_targetList p' = Some tes \<and>
     wire (p_sock p') = wire (p_sock p) @ stream (answer_messages tes (selected (w_db w) tes rt qs con (d # ds))) \<and>
     p_type p' = fold (\<lambda>_. next_type) (selected (w_db w) tes rt qs con (d # ds)) PORT_MSG_START \<and>
     w_txn w' = x_txn env \<and> db_pages (w_db w') = db_pages (w_db w)"
proof -
  define db m where "db = w_db w" and "m = w_mem w"
  let ?pgs = "db_pages db" and ?rows = "product_rows db (d # ds)" and ?vss = "selected db tes rt qs con (d # ds)"
  let ?es = "\<lparr>es_db = db, es_mem = m, retCode = 0, scanRowDataLeft = None\<rparr>"
  let ?sel = "select_at env ?pgs (tree_at env ?pgs d (rev ds)) rt qs con m0 N"
  let ?out = "map (the \<circ> proj_cols rt tes) (filter (passes rt con qs) ?rows)"
  have q: "\<forall>e \<in> set (d # ds). desc_ok env ?pgs e" "\<forall>e \<in> set ds. length (d_groups e) = 1" "consts_ok env m0 con N" "mem_ok (x_addr env) m0 m"
    "blocks m + length ?rows * refs qs \<le> N" "\<forall>r \<in> set ?rows. \<forall>q \<in> set qs. qual_truth rt con r q \<noteq> None"
    "\<forall>r \<in> set ?rows. passes rt con qs r \<longrightarrow> answer_fits rt tes r" "titles_ok tes" "length ?rows < 2 ^ 31"
    using assms(2) by (auto simp: query_ok_def db_def m_def)
  have tes: "tes \<noteq> []" using q(8) by (simp add: titles_ok_def)
  obtain p1 where p1: "InitSelectPortal (Some tes) (InitPortal p) = (0, p1)" "portal_took tes (wire (p_sock p)) [] p1"
    using InitSelectPortal_took [OF assms(3) q(8)] by blast
  obtain t where t: "InitExecNode (tree_plan d (rev ds)) p1 = (t, p1)" "tree_at env ?pgs d (rev ds) t ?rows"
    using tree_init [of d "rev ds" env ?pgs p1] tree_rows_product [of "rev ds" ?pgs d] q(1,2) by (auto simp: product_rows_def)
  let ?n = "ProjectTblState (Some tes) rt (InitProjectData (length tes)) (SelectState (Some qs) rt zero_value t)"
  obtain w1 where start: "ExecutorStart level env0 (select_plan tes rt qs d ds) w p = Some (env, QueryTblState ?n, ?es, w1, p1)" "w_txn w1 = x_txn env"
    using assms(1) p1(1) t(1) by (auto simp: ExecutorStart_def select_plan_def statement_env_def db_def m_def split: bind_splits)
  have "?sel (SelectState (Some qs) rt zero_value t, ?es) (filter (passes rt con qs) ?rows)"
    using q(3-6) t(2) by (auto simp: select_at_def pages_are_def)
  then have at: "project_at ?sel rt tes (?n, ?es) ?out"
    using q(7) answer_fits_row(1) tes by (auto simp: project_at_def InitProjectData_def)
  have "list_all2 (\<lambda>cs r. \<forall>row. is_row row cs \<longrightarrow> row_values tes row r) ?out ?vss"
    unfolding selected_def list_all2_map1 list_all2_map2
    using q(7) answer_fits_row(2) tes by (auto simp: row_values_def intro!: list_all2_refl_on)
  from tree_query.query_sends [OF at p1(2) this, of 0] obtain n' es' p' where
    "query_loop env ?n ?es p1 0 = Some (n', es', p')" "portal_took tes (wire (p_sock p)) ?vss p'" "retCode es' = int (length ?vss)"
    and pg: "pages_are ?pgs es'" by (auto simp: pages_are_def)
  moreover have "length ?vss \<le> length ?rows" by (simp add: selected_def)
  then have "length ?vss < 2 ^ 31" using q(9) by (rule le_less_trans)
  ultimately obtain q where "ExecutorPlan env (QueryTblState ?n) ?es p1 = Some (QueryTblState n', es', q)" "ready q" "p_targetList q = Some tes"
    "wire (p_sock q) = wire (p_sock p) @ stream (answer_messages tes ?vss)" "p_type q = fold (\<lambda>_. next_type) ?vss PORT_MSG_START"
    using ExecutorPlan_answers [of env "QueryTblState ?n" ?es p1 "QueryTblState n'" es' p' tes "wire (p_sock p)" ?vss]
    by (auto simp: ExecTableQuery_def)
  then show ?thesis using start pg by (simp add: select_plan_def db_def pages_are_def)
qed

text \<open>
  C7: A query over any number of tables sends to its client the values of the targets in those rows of the product of the
  tables that meet a condition, in order, each as one message, with the titles before the first if there is one, and after them their
  number. It changes no page of any table. The tables after the first, which the join scans again and again, have one page of groups each; the
  columns of each scan are in increasing order and among them are those of the targets; no row has been moved to another page; and the conditions have a truth value for
  every row of the product, so they use no \<open><\<close>, which would compute \<open><=\<close>.
\<close>

theorem query_sends_selected_rows:
  assumes "statement_env level env0 w = Some env" "query_ok env (w_db w) (w_mem w) tes rt qs con m0 N d ds" "idle_portal p"
  shows "\<exists>w' p'. ExecutorMain level env0 [select_plan tes rt qs d ds] w p = Some (w', p') \<and> ready p' \<and>
     wire (p_sock p') = wire (p_sock p) @ stream (answer_messages tes (selected (w_db w) tes rt qs con (d # ds))) \<and>
     db_pages (w_db w') = db_pages (w_db w)"
  using query_answers [OF assms] by blast

section \<open>A query over two tables\<close>

definition one_group :: tblst where
  "one_group = \<lparr>pages = (\<lambda>f n. case f of
       GROUP_FORK \<Rightarrow> if n = 2 then Some (group_page 2 5) else None
     | MAIN_FORK \<Rightarrow> if n = 5 then Some one_int_page else None), locks = (\<lambda>_ _. 0), pins = (\<lambda>_ _. 0)\<rparr>"

definition table_a :: table_desc where
  "table_a = \<lparr>d_tbl = 7, d_rindex = 1, d_colNum = 1, d_cols = [0], d_groups = [[[5]], [[6]]], d_sees = Some\<rparr>"

definition table_b :: table_desc where
  "table_b = \<lparr>d_tbl = 8, d_rindex = 2, d_colNum = 1, d_cols = [0], d_groups = [[[5]]], d_sees = Some\<rparr>"

definition two_tables :: dbst where
  "two_tables t = (if t = 7 then two_groups else one_group)"

definition some_env :: xenv where
  "some_env = \<lparr>x_floats = some_floats, x_addr = (\<lambda>k. of_nat (Suc k) * 2 ^ 28), x_behind = (\<lambda>_. replicate 48 0), x_snapshot = None, x_txn = running_seven,
     x_fl_int = (\<lambda>_. 0), x_blk = zero_blk, x_old = 0, x_fl_text = (\<lambda>_. [])\<rparr>"

definition some_world :: world where
  "some_world = \<lparr>w_db = two_tables, w_mem = \<lparr>wbytes = two_strings, blocks = 0\<rparr>, w_txn = running_seven, w_snap = CreateSnapshot 1\<rparr>"

text \<open>The snapshot of transaction 7, for which all older transactions have finished.\<close>

definition seven_txn :: txnst where
  "seven_txn = running_seven\<lparr>transactionContextArray := [\<lparr>ts = TS_START, transactionID = 7, tc_snapshot = True\<rparr>]\<rparr>"

definition seven_env :: xenv where
  "seven_env = some_env\<lparr>x_snapshot := Some \<lparr>highLevel = 8, lowLevel = 7, xidNum = 0, xidArrMax = 1, runningXidArr = [0]\<rparr>, x_txn := seven_txn\<rparr>"

lemma seven_statement: "statement_env til_Read_Commited some_env some_world = Some seven_env"
  by (simp add: statement_env_def some_world_def seven_env_def seven_txn_def running_seven_def CreateSnapshot_def GenerateSnapshot_def GetSnapshot_def
      GetActiveXtids_def active_xtids_def own_id_def GetHighLevelTransaction_def my_ctx_def set_ctx_def arr_get_def arr_set_def)

text \<open>The rows of the sample tables are visible.\<close>

definition sees_42 :: "xenv \<Rightarrow> bool" where
  "sees_42 env \<longleftrightarrow> TupleVisibilitySatisfy (headerData (int_column 42)) (x_snapshot env) (x_txn env) = Some TUPLE_VISIBLE"

lemma seven_sees: "sees_42 seven_env"
  by (simp add: sees_42_def TupleVisibilitySatisfy_def seven_env_def seven_txn_def running_seven_def GetCurrentTransactionID_def my_ctx_def arr_get_def int_column_def
      zero_header_def XTID_ISINVALID_def INVALID_XTID_def TupleVisibililtySnapshot_def GetTransactionState_def)

definition ab_rtable :: "RangTblEntry list option" where
  "ab_rtable = Some [\<lparr>rte_tblInfo = 7, rte_rindex = 1\<rparr>, \<lparr>rte_tblInfo = 8, rte_rindex = 2\<rparr>]"

text \<open>\<open>select a.x, b.x from a, b where a.x = b.x\<close>\<close>

definition ab_qual :: qual where
  "ab_qual = ExprEntry EQUAL 1 2 (ColumnRef VT_INT 0) (ColumnRef VT_INT 0)"

definition ab_targets :: "TargetEntry list" where
  "ab_targets = [\<lparr>te_rindex = 1, te_attrIndex = 0, te_name = Some [120], te_field = [120], te_vt = VT_INT\<rparr>,
     \<lparr>te_rindex = 2, te_attrIndex = 0, te_name = Some [121], te_field = [120], te_vt = VT_INT\<rparr>]"

lemma one_group_ok: "table_ok 1 one_group [[[5]]]"
proof -
  have "gfile one_group [[[5]]]"
    unfolding gfile_def using group_page_ok(1) [of 2 5] by (auto simp: one_group_def group_page_ok(2))
  then show ?thesis
    by (simp add: table_ok_def one_group_def group_pages_ok_def cpages_def one_int_page_ok same_items_def)
qed

lemma known_42:
  assumes "sees_42 env" "\<forall>gs \<in> set gss. \<forall>g \<in> set gs. \<forall>p \<in> set (cpages (pages st) [0 ..< n] g). rows p = [int_column 42]"
  shows "versions_known (x_snapshot env) (x_txn env) st Some n gss"
  using assms by (auto simp: sees_42_def versions_known_def known_def resolves_def resolve_def)

abbreviation the_pages :: "nat \<Rightarrow> ForkType \<Rightarrow> int \<rightharpoonup> page" where
  "the_pages \<equiv> \<lambda>t. pages (two_tables t)"

lemma tables_ok:
  assumes "sees_42 env"
  shows "desc_ok env the_pages table_a" "desc_ok env the_pages table_b"
proof -
  have "versions_known (x_snapshot env) (x_txn env) st Some 1 [[[5]], [[6]]]" if "pages st = pages two_groups" for st
    using that by (intro known_42 [OF assms]) (auto simp: cpages_def two_groups_def one_int_page_ok)
  moreover have "versions_known (x_snapshot env) (x_txn env) st Some 1 [[[5]]]" if "pages st = pages one_group" for st
    using that by (intro known_42 [OF assms]) (auto simp: cpages_def one_group_def one_int_page_ok)
  ultimately show "desc_ok env the_pages table_a" "desc_ok env the_pages table_b"
    using table_ok_pages [OF two_groups_ok] table_ok_pages [OF one_group_ok]
    by (auto simp: desc_ok_def table_a_def table_b_def two_tables_def columns_ok_def)
qed

lemma tables_rows:
  "table_rows the_pages table_a (concat (d_groups table_a)) = [table_row table_a [int_column 42], table_row table_a [int_column 42]]"
  "table_rows the_pages table_b (concat (d_groups table_b)) = [table_row table_b [int_column 42]]"
  using two_groups_rows(1)
  by (simp_all add: table_rows_def table_a_def table_b_def two_tables_def)
    (simp add: rows_of_def seen_rows_def cpages_def one_group_def items_one_int_page one_int_page_ok all_seen_def)

lemma ab_row:
  fixes r defines "r \<equiv> table_row table_a [int_column 42] @ table_row table_b [int_column 42]"
  shows "qual_truth ab_rtable (\<lambda>_. None) r ab_qual = Some True" "proj_cols ab_rtable ab_targets r = Some [int_column 42, int_column 42]"
proof -
  have "row_column ab_rtable r 1 0 = Some (int_column 42)" "row_column ab_rtable r 2 0 = Some (int_column 42)"
    by (simp_all add: r_def row_column_def row_table_def ab_rtable_def GetCellValueByIndex_def arr_get_def table_row_def table_a_def table_b_def)
  then show "qual_truth ab_rtable (\<lambda>_. None) r ab_qual = Some True" "proj_cols ab_rtable ab_targets r = Some [int_column 42, int_column 42]"
    using int_column_ok [of 42]
    by (simp_all add: qual_truth_def ab_qual_def row_look_def column_value_def is_int_def int_column_def int_math_def in_int_def
        proj_cols_def ab_targets_def)
qed

definition new_portal :: Portal where
  "new_portal = CreatePortal 3 \<lparr>results = [], wire = []\<rparr>"

lemma new_portal_idle: "idle_portal new_portal"
  by (simp add: new_portal_def CreatePortal_def InitPortal_def idle_portal_def ready_def connected_def)

lemma ab_product: "product_rows two_tables [table_a, table_b] =
    [table_row table_a [int_column 42] @ table_row table_b [int_column 42], table_row table_a [int_column 42] @ table_row table_b [int_column 42]]"
  by (simp add: product_rows_def tables_rows)

lemma text_42: "dec_text 42 = [52, 50]"
  by (simp add: dec_text_def digits.simps)

lemma ab_answer:
  "answer_row ab_rtable ab_targets (table_row table_a [int_column 42] @ table_row table_b [int_column 42]) = Some [IntV 42, IntV 42]"
  using ab_row(2) int_column_ok [of 42] by (simp add: answer_row_def ab_targets_def column_value_def is_int_def int_column_def)

lemma ab_query_ok:
  assumes "sees_42 (some_env\<lparr>x_snapshot := sn, x_txn := txn\<rparr>)"
  shows "query_ok (some_env\<lparr>x_snapshot := sn, x_txn := txn\<rparr>) (w_db some_world) (w_mem some_world) ab_targets ab_rtable [ab_qual] (\<lambda>_. None) two_strings 4 table_a [table_b]"
proof -
  have "consts_ok (some_env\<lparr>x_snapshot := sn, x_txn := txn\<rparr>) two_strings (\<lambda>_. None) 4" using sample_blocks [of 4] by (simp add: consts_ok_def some_env_def)
  moreover have "refs [ab_qual] = 2" by (simp add: refs_def ab_qual_def)
  moreover have "answer_fits ab_rtable ab_targets (table_row table_a [int_column 42] @ table_row table_b [int_column 42])"
    by (simp add: answer_fits_def ab_answer row_text_def text_42 PORT_BUFFER_SIZE_def)
  moreover have "titles_ok ab_targets" by (simp add: titles_ok_def ab_targets_def head_text_def titles_text_def title_def PORT_BUFFER_SIZE_def)
  moreover have "length (d_groups table_b) = 1" by (simp add: table_b_def)
  ultimately show ?thesis using tables_ok [OF assms] ab_row(1) by (simp add: query_ok_def some_world_def ab_product mem_ok_def)
qed

lemma ab_selected: "selected two_tables ab_targets ab_rtable [ab_qual] (\<lambda>_. None) [table_a, table_b] = [[IntV 42, IntV 42], [IntV 42, IntV 42]]"
proof -
  have "passes ab_rtable (\<lambda>_. None) [ab_qual] (table_row table_a [int_column 42] @ table_row table_b [int_column 42])" using ab_row(1) by (simp add: passes_def)
  then show ?thesis by (simp add: selected_def ab_product ab_answer)
qed

theorem query_sends_selected_rows_witness:
  "\<exists>w' p'. ExecutorMain til_Read_Commited some_env [select_plan ab_targets ab_rtable [ab_qual] table_a [table_b]] some_world new_portal = Some (w', p') \<and>
     ready p' \<and> wire (p_sock p') = wire (p_sock new_portal) @ stream (answer_messages ab_targets [[IntV 42, IntV 42], [IntV 42, IntV 42]]) \<and>
     db_pages (w_db w') = db_pages (w_db some_world)"
  using query_sends_selected_rows [OF seven_statement ab_query_ok [OF seven_sees [unfolded seven_env_def], folded seven_env_def] new_portal_idle]
  by (simp add: some_world_def ab_selected)

section \<open>Operators that a type does not have\<close>

text \<open>C34: A condition that compares a string on its left by an operator that the table of the string types lacks, such as \<open><>\<close>,
  holds for every row: the null pointer it returns counts as true.\<close>

theorem missing_operator_keeps_every_row:
  assumes "sees env (q_db s) m0 look con" "blocks_free (q_addr env) m0 N" "mem_ok (q_addr env) m0 (q_mem s)"
    and "blocks (q_mem s) + col_refs l + col_refs r \<le> N"
    and "qeval look con l (Some (i, j)) True = Some (StrV a)" "qeval look con r (Some (i, j)) False = Some b"
    and "op \<notin> {LESS, LESS_EQUAL, EQUAL, GREATER_EQUAL, GREATER}"
  shows "\<exists>s'. quals_loop env (ExprEntry op i j l r # qs) s = Some (True, s')"
proof -
  have lr: "l \<noteq> NullNode" "r \<noteq> NullNode" using assms(5,6) by auto
  obtain s1 where s1: "ProcessQualExprNode env l (Some (i, j)) True s = Some (True, s1)" "evaluated env m0 (col_refs l) (StrV a) s s1"
    using ProcessQual_evaluates [OF assms(1,2) refl assms(3) _ assms(5)] assms(4) by auto
  have "q_db s1 = q_db s" "mem_ok (q_addr env) m0 (q_mem s1)" "blocks (q_mem s1) + col_refs r \<le> N"
    using s1(2) assms(4) by (auto simp: evaluated_def)
  then obtain s2 where s2: "ProcessQualExprNode env r (Some (i, j)) False s1 = Some (True, s2)"
    using ProcessQual_evaluates [OF assms(1,2) _ _ _ assms(6)] by blast
  have "is_str (edType (resultExpreData s1))" using s1(2) by (simp add: evaluated_def)
  then have "ComputeExpr fl m (resultExpreData s1) v res op = Some (False, res)" for fl m v res
    using assms(7) by (cases op) (auto simp: is_str_def ComputeExpr_def getDataTypeProcs_def string_opf_def)
  then show ?thesis using s1(1) s2 lr by (simp add: ExecSelectQual_def getDataBool_def)
qed

theorem missing_operator_keeps_every_row_witness:
  "\<exists>s'. quals_loop sample_env [ExprEntry NOT_EQUAL 1 0 (ColumnRef VT_STRING 0) (ConstNode z_const)] sample_state = Some (True, s')"
  using missing_operator_keeps_every_row [of sample_env sample_state two_strings sample_look sample_con 1 "ColumnRef VT_STRING 0" "ConstNode z_const" 1 0 "[97, 98]" "StrV [122]" NOT_EQUAL "[]"]
    sample_sees sample_blocks [of 1]
  by (simp add: sample_state_def sample_env_def mem_ok_def sample_look_def sample_con_def)

end
