(* ===== verification/Server.thy ===== *)
theory Server
  imports QueryExec
begin

text \<open>
  A session of a client, after \<^verbatim>\<open>src/processor/dispatch/servprocess.c\<close> (\<^verbatim>\<open>ProcessQuery\<close>) and \<^verbatim>\<open>src/toadmain/toadmain.c\<close>
  (\<^verbatim>\<open>ToadMainEntry\<close>): the worker reads a command, runs it in a transaction, and ends its answer.

  The parser, the analysis, the planner and the executor are arguments here: \<open>parser\<close> gives the parse tree, \<open>analyzer\<close> the queries and \<open>planner\<close> the
  plans of a query, and each of them may give the null pointer. They see the state of the server, as they look up the tables.
\<close>

section \<open>A command\<close>

text \<open>The loop over the queries of a command; each is a transaction of its own. \<open>exec\<close> runs the plans of a query.\<close>

fun plans_loop :: "(i32 \<Rightarrow> byte list) \<Rightarrow> ('p list \<Rightarrow> 'a world_scheme \<Rightarrow> Portal \<Rightarrow> ('a world_scheme \<times> Portal) option) \<Rightarrow>
    ('q \<Rightarrow> 'a world_scheme \<Rightarrow> 'p list option option) \<Rightarrow> 'q list \<Rightarrow> 'a world_scheme \<Rightarrow> Portal \<Rightarrow> ('a world_scheme \<times> Portal) option" where
  "plans_loop fl_text exec planner [] w p = Some (w, p)"
| "plans_loop fl_text exec planner (q # qs) w p = do {
     pls \<leftarrow> planner q w;
     case pls of
       None \<Rightarrow> do { (_, p) \<leftarrow> SendToPortStr fl_text (text_of ''planner error.'') p; Some (w, p) }
     | Some pls \<Rightarrow> do {
         txn \<leftarrow> StartTransaction (w_txn w);
         (w, p) \<leftarrow> exec pls (w\<lparr>w_txn := txn\<rparr>) p;
         txn \<leftarrow> FinishTransaction (w_txn w);
         plans_loop fl_text exec planner qs (w\<lparr>w_txn := txn\<rparr>) p } }"

definition ToadMainEntry :: "(i32 \<Rightarrow> byte list) \<Rightarrow> ('p list \<Rightarrow> 'a world_scheme \<Rightarrow> Portal \<Rightarrow> ('a world_scheme \<times> Portal) option) \<Rightarrow> (byte list \<Rightarrow> 't option) \<Rightarrow>
    ('t \<Rightarrow> 'a world_scheme \<Rightarrow> 'q list option option) \<Rightarrow> ('q \<Rightarrow> 'a world_scheme \<Rightarrow> 'p list option option) \<Rightarrow> byte list \<Rightarrow> 'a world_scheme \<Rightarrow> Portal \<Rightarrow>
    (int \<times> 'a world_scheme \<times> Portal) option" where
  "ToadMainEntry fl_text exec parser analyzer planner query w p = do {
     txn \<leftarrow> StartTransaction (w_txn w);
     let w = w\<lparr>w_txn := txn\<rparr>;
     (w, p) \<leftarrow> (case parser query of
         None \<Rightarrow> do { (_, p) \<leftarrow> SendToPortStr fl_text (text_of ''Sytax is wrong, parser error.'') p; Some (w, p) }
       | Some t \<Rightarrow> do {
           qs \<leftarrow> analyzer t w;
           case qs of
             None \<Rightarrow> do { (_, p) \<leftarrow> SendToPortStr fl_text (text_of ''object may be not found, query error.'') p; Some (w, p) }
           | Some qs \<Rightarrow> plans_loop fl_text exec planner qs w p });
     txn \<leftarrow> FinishTransaction (w_txn w);
     Some (0, w\<lparr>w_txn := txn\<rparr>, p) }"

section \<open>A session\<close>

text \<open>
  The loop of \<^verbatim>\<open>ProcessQuery\<close>; \<open>chunks\<close> are the results of \<^verbatim>\<open>recv\<close> and \<open>entry\<close> runs a command. The command is the body of the
  message up to its terminator.
\<close>

definition command_of :: "ClientContext \<Rightarrow> byte list" where
  "command_of c = takeWhile (\<lambda>b. b \<noteq> 0) (mh_body (cmsg c))"

partial_function (option) process_loop :: "(byte list \<Rightarrow> 'w \<Rightarrow> Portal \<Rightarrow> (int \<times> 'w \<times> Portal) option) \<Rightarrow> byte list list \<Rightarrow> ClientContext \<Rightarrow> 'w \<Rightarrow> Portal \<Rightarrow>
    (int \<times> ClientContext \<times> 'w \<times> Portal) option" where
  "process_loop entry chunks c w p = do {
     let p = InitPortal p;
     (ret, chunks, c) \<leftarrow> ReadMsg chunks c;
     if ret \<le> 0 then Some (ret, c, w, p)
     else if take 4 (command_of c) = text_of ''quit'' then Some (ret, c, w, p)
     else do {
       (_, w, p) \<leftarrow> entry (command_of c) w p;
       (_, p) \<leftarrow> EndPort p;
       process_loop entry chunks c w p } }"

text \<open>The client context is static: it keeps what the previous client of the worker left in it.\<close>

definition ProcessQuery :: "(byte list \<Rightarrow> 'a world_scheme \<Rightarrow> Portal \<Rightarrow> (int \<times> 'a world_scheme \<times> Portal) option) \<Rightarrow> int \<Rightarrow> int \<Rightarrow> byte list list \<Rightarrow> sock \<Rightarrow>
    ClientContext \<Rightarrow> 'a world_scheme \<Rightarrow> (int \<times> ClientContext \<times> 'a world_scheme \<times> Portal) option" where
  "ProcessQuery entry fd maxWorker chunks s c w = process_loop entry chunks c (w\<lparr>w_snap := CreateSnapshot maxWorker\<rparr>) (CreatePortal fd s)"

section \<open>Commands and answers\<close>

text \<open>
  What a session relies on: \<open>answers cmd w Q ms t\<close> says that the command \<open>cmd\<close> takes the server from the state \<open>w\<close> to one in \<open>Q\<close> and
  sends the messages \<open>ms\<close>, and that \<open>t\<close> is the type of its last message.
\<close>

definition answers :: "(byte list \<Rightarrow> 'w \<Rightarrow> Portal \<Rightarrow> (int \<times> 'w \<times> Portal) option) \<Rightarrow> byte list \<Rightarrow> 'w \<Rightarrow> ('w \<Rightarrow> bool) \<Rightarrow> wire_msg list \<Rightarrow> i32 \<Rightarrow> bool" where
  "answers entry cmd w Q ms t \<longleftrightarrow> (\<forall>p. idle_portal p \<longrightarrow> p_type p = PORT_MSG_START \<longrightarrow> p_flag p = PORT_NOTHING \<longrightarrow>
     (\<exists>ret w' p'. entry cmd w p = Some (ret, w', p') \<and> Q w' \<and> ready p' \<and> wire (p_sock p') = wire (p_sock p) @ stream ms \<and> p_type p' = t))"

definition command_ok :: "byte list \<Rightarrow> bool" where
  "command_ok cmd \<longleftrightarrow> fits (PORT_MSG_REQUEST, cmd) \<and> 0 \<notin> set cmd \<and> take 4 cmd \<noteq> text_of ''quit''"

text \<open>The bytes of a command as the server receives them.\<close>

definition cut :: "byte list list \<Rightarrow> byte list \<Rightarrow> bool" where
  "cut chunks bs \<longleftrightarrow> concat chunks = bs \<and> (\<forall>ch \<in> set chunks. 8 \<le> length ch \<and> length ch \<le> MAX_COMMAND_LENGTH)"

definition whole_answer :: "wire_msg list \<Rightarrow> i32 \<Rightarrow> wire_msg list" where
  "whole_answer ms t = ms @ [(t, [0]), (PORT_MSG_FINISH, [0])]"

lemma readmsg_loop_append:
  "readmsg_loop chunks c = Some (len, [], c') \<Longrightarrow> 0 < len \<Longrightarrow> readmsg_loop (chunks @ rest) c = Some (len, rest, c')"
  by (induction chunks arbitrary: c) (auto split: bind_splits if_splits)

lemma process_command:
  assumes "holds st c []" "st AND CS_BLOCK = 0" "cut chunks (frame PORT_MSG_REQUEST cmd)" "command_ok cmd" "idle_portal p"
    and "answers entry cmd w Q ms t"
  shows "\<exists>c' w' p'. process_loop entry (chunks @ rest) c w p = process_loop entry rest c' w' p' \<and> Q w' \<and> holds st c' [] \<and> idle_portal p' \<and>
     wire (p_sock p') = wire (p_sock p) @ stream (whole_answer ms t)"
proof -
  have cmd: "fits (PORT_MSG_REQUEST, cmd)" "0 \<notin> set cmd" "take 4 cmd \<noteq> text_of ''quit''" using assms(4) by (auto simp: command_ok_def)
  obtain c' where c': "ReadMsg chunks c = Some (int (length cmd), [], c')" "holds st c' []"
      "cmsg c' = \<lparr>mh_type = PORT_MSG_REQUEST, mh_size = of_nat (length cmd), mh_body = fst (shows_msg (PORT_MSG_REQUEST, cmd))\<rparr>"
    using ReadMsg_receives [OF assms(1) _ cmd(1) assms(2), of chunks] assms(3) by (auto simp: cut_def)
  have len: "0 < length cmd" "length cmd < PORT_BUFFER_SIZE" using cmd(1) by (auto simp: fits_def)
  have rd: "ReadMsg (chunks @ rest) c = Some (int (length cmd), rest, c')"
    using readmsg_loop_append c'(1) len(1) by (auto simp: ReadMsg_def)
  have body: "command_of c' = cmd" using c'(3) cmd(2) len(2) by (simp add: command_of_def shows_msg_def zeros_split takeWhile_text)
  have "idle_portal (InitPortal p)" "p_type (InitPortal p) = PORT_MSG_START" "p_flag (InitPortal p) = PORT_NOTHING"
    using assms(5) by (simp_all add: idle_portal_def ready_def connected_def InitPortal_def)
  then obtain ret w' p1 where e: "entry cmd w (InitPortal p) = Some (ret, w', p1)" "ready p1" "wire (p_sock p1) = wire (p_sock p) @ stream ms" "p_type p1 = t" "Q w'"
    using assms(6) by (fastforce simp: answers_def InitPortal_def)
  obtain p' where p': "EndPort p1 = Some (0, p')" "ready p'" "wire (p_sock p') = wire (p_sock p1) @ stream [(t, [0]), (PORT_MSG_FINISH, [0])]"
      "p_targetList p' = None"
    using EndPort_sends [OF e(2)] e(4) by auto
  have "process_loop entry (chunks @ rest) c w p = process_loop entry rest c' w' p'"
    using rd len(1) body cmd(3) e(1) p'(1) by (subst process_loop.simps) simp
  then show ?thesis using c'(2) p' e(3,5) by (auto simp: idle_portal_def whole_answer_def)
qed

text \<open>A whole session: the commands, what holds after them, and the answers.\<close>

inductive session :: "(byte list \<Rightarrow> 'w \<Rightarrow> Portal \<Rightarrow> (int \<times> 'w \<times> Portal) option) \<Rightarrow> ('w \<Rightarrow> bool) \<Rightarrow> 'w \<Rightarrow> byte list list \<Rightarrow> wire_msg list list \<Rightarrow> bool"
  for entry and Q where
  session_end: "Q w \<Longrightarrow> session entry Q w [] []"
| session_command: "command_ok cmd \<Longrightarrow> answers entry cmd w R ms t \<Longrightarrow> (\<And>w1. R w1 \<Longrightarrow> session entry Q w1 cmds mss) \<Longrightarrow>
    session entry Q w (cmd # cmds) (whole_answer ms t # mss)"

text \<open>
  C35: The server answers the commands of a session in the order in which they arrive: the bytes of each command may be cut into
  chunks, and after each the client has its whole answer.
\<close>

theorem session_answers_in_order:
  assumes "session entry Q w cmds mss" "list_all2 cut chunkss (map (frame PORT_MSG_REQUEST) cmds)"
    and "holds st c []" "st AND CS_BLOCK = 0" "idle_portal p"
  shows "\<exists>c' w' p'. process_loop entry (concat chunkss @ rest) c w p = process_loop entry rest c' w' p' \<and> Q w' \<and> holds st c' [] \<and> idle_portal p' \<and>
     wire (p_sock p') = wire (p_sock p) @ stream (concat mss)"
  using assms
proof (induction arbitrary: chunkss c p rule: session.induct)
  case (session_end w)
  then show ?case by auto
next
  case (session_command cmd w R ms t cmds mss)
  from session_command.prems(1) obtain chs chss where ch: "chunkss = chs # chss" "cut chs (frame PORT_MSG_REQUEST cmd)"
    "list_all2 cut chss (map (frame PORT_MSG_REQUEST) cmds)" by (auto simp: list_all2_Cons2)
  obtain c1 w1 p1 where s: "process_loop entry (chs @ concat chss @ rest) c w p = process_loop entry (concat chss @ rest) c1 w1 p1" "R w1" "holds st c1 []" "idle_portal p1"
    "wire (p_sock p1) = wire (p_sock p) @ stream (whole_answer ms t)"
    using process_command [OF session_command.prems(2,3) ch(2) session_command.hyps(1) session_command.prems(4) session_command.hyps(2)] by blast
  from session_command.IH [OF s(2) ch(3) s(3) session_command.prems(3) s(4)] show ?case using s(1,5) ch(1) by auto
qed

section \<open>What a command answers\<close>

lemma SendToPortStr_sends:
  assumes "idle_portal p" "p_type p = PORT_MSG_START" "s \<noteq> []" "0 \<notin> set s" "length s < PORT_BUFFER_SIZE"
  shows "\<exists>ret p'. SendToPortStr fl_text s p = Some (ret, p') \<and> ready p' \<and> wire (p_sock p') = wire (p_sock p) @ stream [(PORT_MSG_BEGIN, s)] \<and> p_type p' = PORT_MSG_BEGIN"
proof -
  have r: "connected p" "p_body p = text_buf []" using assms(1) by (auto simp: idle_portal_def ready_def text_buf_simps)
  have "snprintf_at (int (length ([] :: byte list))) (int PORT_BUFFER_SIZE) s (text_buf []) = Some (text_buf ([] @ s))"
    using assms(5) by (intro snprintf_text_buf) simp_all
  then have buf: "snprintf_at 0 (int PORT_BUFFER_SIZE) s (p_body p) = Some (text_buf s)" using r(2) by simp
  let ?p = "p\<lparr>p_body := text_buf s, p_type := PORT_MSG_BEGIN, p_flag := PORT_NOTHING\<rparr>"
  have "connected (?p\<lparr>p_size := int (length s)\<rparr>)" "0 < p_size (?p\<lparr>p_size := int (length s)\<rparr>)"
    "p_size (?p\<lparr>p_size := int (length s)\<rparr>) \<le> int (length (p_body (?p\<lparr>p_size := int (length s)\<rparr>)))"
    "length (p_body (?p\<lparr>p_size := int (length s)\<rparr>)) = PORT_BUFFER_SIZE"
    using r(1) assms(3,5) by (simp_all add: connected_def text_buf_simps)
  from FlushPortal_sized [OF this] obtain ret p' where
    f: "FlushPortal (?p\<lparr>p_size := int (length s)\<rparr>) = Some (ret, p')" "flushed [(PORT_MSG_BEGIN, s)] (?p\<lparr>p_size := int (length s)\<rparr>) p'"
    by (auto simp: text_buf_def)
  have "SendToPortStr fl_text s p = Some (int (length s), p')"
    using assms(2-5) buf f(1) strlen_text_buf [OF assms(4,5)]
    by (simp add: SendToPortStr_def SendToNetPort_def next_type_def flush_sized_def PORT_MSG_START_def PORT_MSG_BEGIN_def)
  then show ?thesis using flushedD [OF f(2)] by auto
qed

lemma refused_command_answers:
  assumes "parser cmd = None" "StartTransaction (w_txn w) = Some txn1" "FinishTransaction txn1 = Some txn2"
  shows "answers (ToadMainEntry fl_text exec parser analyzer planner) cmd w (\<lambda>w'. w' = w\<lparr>w_txn := txn2\<rparr>)
     [(PORT_MSG_BEGIN, text_of ''Sytax is wrong, parser error.'')] PORT_MSG_BEGIN"
  unfolding answers_def
proof (intro allI impI)
  fix p
  assume "idle_portal p" "p_type p = PORT_MSG_START" "p_flag p = PORT_NOTHING"
  then show "\<exists>ret w' p'. ToadMainEntry fl_text exec parser analyzer planner cmd w p = Some (ret, w', p') \<and> w' = w\<lparr>w_txn := txn2\<rparr> \<and> ready p' \<and>
      wire (p_sock p') = wire (p_sock p) @ stream [(PORT_MSG_BEGIN, text_of ''Sytax is wrong, parser error.'')] \<and> p_type p' = PORT_MSG_BEGIN"
    using SendToPortStr_sends [of p "text_of ''Sytax is wrong, parser error.''" "fl_text"] assms
    by (auto simp: ToadMainEntry_def text_of_def PORT_BUFFER_SIZE_def)
qed

text \<open>
  C36: A command that the parser refuses is answered with one message that says so, and the transaction that was started for it
  is finished.
\<close>

theorem syntax_error_is_answered:
  assumes "parser cmd = None" "StartTransaction (w_txn w) = Some txn1" "FinishTransaction txn1 = Some txn2"
  shows "answers (ToadMainEntry fl_text exec parser analyzer planner) cmd w (\<lambda>w'. w' = w\<lparr>w_txn := txn2\<rparr>)
     [(PORT_MSG_BEGIN, text_of ''Sytax is wrong, parser error.'')] PORT_MSG_BEGIN"
  using assms by (rule refused_command_answers)

text \<open>The environment in which a query of a command runs, when the transaction of the command starts and finishes.\<close>

definition command_env :: "TransactionIsolationLevel \<Rightarrow> xenv \<Rightarrow> 'a world_scheme \<Rightarrow> (txnst \<times> xenv) option" where
  "command_env level env w = do {
     txn1 \<leftarrow> StartTransaction (w_txn w);
     txn2 \<leftarrow> StartTransaction txn1;
     env \<leftarrow> statement_env level env (w\<lparr>w_txn := txn2\<rparr>);
     txn3 \<leftarrow> FinishTransaction (x_txn env);
     txn4 \<leftarrow> FinishTransaction txn3;
     Some (txn1, env) }"

text \<open>A command with one query: \<open>Q\<close> holds after the transactions of the query and of the command have finished.\<close>

lemma one_query_answers:
  assumes "StartTransaction (w_txn w) = Some txn" "StartTransaction txn = Some txn2" "parser cmd = Some t" "analyzer t (w\<lparr>w_txn := txn\<rparr>) = Some (Some [q])"
    and "planner q (w\<lparr>w_txn := txn\<rparr>) = Some (Some pls)"
    and "\<And>p. idle_portal p \<Longrightarrow> \<exists>w' p' txn3 txn4. exec pls (w\<lparr>w_txn := txn2\<rparr>) p = Some (w', p') \<and> ready p' \<and> wire (p_sock p') = wire (p_sock p) @ stream ms \<and> p_type p' = t' \<and>
       FinishTransaction (w_txn w') = Some txn3 \<and> FinishTransaction txn3 = Some txn4 \<and> Q (w'\<lparr>w_txn := txn4\<rparr>)"
  shows "answers (ToadMainEntry fl_text exec parser analyzer planner) cmd w Q ms t'"
  unfolding answers_def
proof (intro allI impI)
  fix p
  assume "idle_portal p"
  from assms(6) [OF this] obtain w' p' txn3 txn4 where "exec pls (w\<lparr>w_txn := txn2\<rparr>) p = Some (w', p')" "ready p'" "wire (p_sock p') = wire (p_sock p) @ stream ms" "p_type p' = t'"
    "FinishTransaction (w_txn w') = Some txn3" "FinishTransaction txn3 = Some txn4" "Q (w'\<lparr>w_txn := txn4\<rparr>)" by blast
  then show "\<exists>ret w' p'. ToadMainEntry fl_text exec parser analyzer planner cmd w p = Some (ret, w', p') \<and> Q w' \<and> ready p' \<and>
      wire (p_sock p') = wire (p_sock p) @ stream ms \<and> p_type p' = t'"
    using assms(1-5) by (simp add: ToadMainEntry_def)
qed

lemma command_envE:
  assumes "command_env level env0 w = Some (txn, env)"
  obtains txn2 txn3 txn4 where "StartTransaction (w_txn w) = Some txn" "StartTransaction txn = Some txn2"
    "statement_env level env0 (w\<lparr>w_txn := txn2\<rparr>) = Some env" "FinishTransaction (x_txn env) = Some txn3" "FinishTransaction txn3 = Some txn4"
  using assms by (auto simp: command_env_def split: bind_splits)

lemma select_answers:
  assumes "command_env level env0 w = Some (txn, env)" "parser cmd = Some t" "analyzer t (w\<lparr>w_txn := txn\<rparr>) = Some (Some [q])"
    and "planner q (w\<lparr>w_txn := txn\<rparr>) = Some (Some [select_plan tes rt qs d ds])" "query_ok env (w_db w) (w_mem w) tes rt qs con m0 N d ds"
  shows "answers (ToadMainEntry fl_text (ExecutorMain level env0) parser analyzer planner) cmd w (\<lambda>w'. db_pages (w_db w') = db_pages (w_db w))
     (answer_messages tes (selected (w_db w) tes rt qs con (d # ds))) (fold (\<lambda>_. next_type) (selected (w_db w) tes rt qs con (d # ds)) PORT_MSG_START)"
proof -
  obtain txn2 txn3 txn4 where x: "StartTransaction (w_txn w) = Some txn" "StartTransaction txn = Some txn2"
    "statement_env level env0 (w\<lparr>w_txn := txn2\<rparr>) = Some env" "FinishTransaction (x_txn env) = Some txn3" "FinishTransaction txn3 = Some txn4"
    using assms(1) by (rule command_envE)
  show ?thesis
  proof (rule one_query_answers [of w txn txn2 parser cmd t analyzer q planner, OF x(1,2) assms(2-4)])
    fix p
    assume p: "idle_portal p"
    show "\<exists>w' p' txn3 txn4. ExecutorMain level env0 [select_plan tes rt qs d ds] (w\<lparr>w_txn := txn2\<rparr>) p = Some (w', p') \<and> ready p' \<and>
       wire (p_sock p') = wire (p_sock p) @ stream (answer_messages tes (selected (w_db w) tes rt qs con (d # ds))) \<and>
       p_type p' = fold (\<lambda>_. next_type) (selected (w_db w) tes rt qs con (d # ds)) PORT_MSG_START \<and>
       FinishTransaction (w_txn w') = Some txn3 \<and> FinishTransaction txn3 = Some txn4 \<and> db_pages (w_db (w'\<lparr>w_txn := txn4\<rparr>)) = db_pages (w_db w)"
      using query_answers [OF x(3) _ p, of tes rt qs con m0 N d ds] assms(5) x(4,5) by fastforce
  qed
qed

lemma fold_next_type: "fold (\<lambda>_. next_type) xs PORT_MSG_START \<in> {PORT_MSG_START, PORT_MSG_BEGIN, PORT_MSG_CONTINUE}"
  by (induction xs rule: rev_induct) (auto simp: next_type_def PORT_MSG_START_def PORT_MSG_BEGIN_def PORT_MSG_CONTINUE_def)

lemma row_messages_types: "t \<noteq> PORT_MSG_FINISH \<Longrightarrow> m \<in> set (row_messages tes t titled vss) \<Longrightarrow> fst m \<noteq> PORT_MSG_FINISH"
proof (induction vss arbitrary: t titled)
  case (Cons vs vss)
  have "next_type t \<noteq> PORT_MSG_FINISH" using Cons.prems(1)
    by (auto simp: next_type_def PORT_MSG_FINISH_def PORT_MSG_BEGIN_def PORT_MSG_CONTINUE_def)
  then show ?case using Cons by (auto split: if_splits)
qed simp

lemma answer_types:
  assumes "m \<in> set (answer_messages tes vss)"
  shows "fst m \<noteq> PORT_MSG_FINISH"
proof -
  have t: "fold (\<lambda>_. next_type) vss PORT_MSG_START \<noteq> PORT_MSG_FINISH" "PORT_MSG_START \<noteq> PORT_MSG_FINISH"
    using fold_next_type [of vss] by (auto simp: PORT_MSG_START_def PORT_MSG_BEGIN_def PORT_MSG_CONTINUE_def PORT_MSG_FINISH_def)
  from assms consider "m \<in> set (row_messages tes PORT_MSG_START False vss)" | "fst m = fold (\<lambda>_. next_type) vss PORT_MSG_START"
    by (auto simp: answer_messages_def)
  then show ?thesis using row_messages_types [OF t(2)] t(1) by cases auto
qed

section \<open>Sessions of a sample client\<close>

definition worker_txn :: "XTID \<Rightarrow> XTID \<Rightarrow> TransactionContext \<Rightarrow> int option \<Rightarrow> txnst" where
  "worker_txn next_id high c my = \<lparr>tx_ids = \<lparr>nextTransactionId = next_id, lowLevelXtid = 0, highLevelXtid = high\<rparr>,
     transactionContextArray = [c], workerIndex = 1, myTransaction = my\<rparr>"

definition idle_txn :: txnst where "idle_txn = worker_txn 7 6 \<lparr>ts = TS_IDLE, transactionID = 6, tc_snapshot = False\<rparr> None"
definition started_txn :: txnst where "started_txn = worker_txn 8 6 \<lparr>ts = TS_START, transactionID = 7, tc_snapshot = False\<rparr> (Some 0)"
definition reading_txn :: txnst where "reading_txn = worker_txn 8 6 \<lparr>ts = TS_START, transactionID = 7, tc_snapshot = True\<rparr> (Some 0)"
definition finished_txn :: "bool \<Rightarrow> txnst" where "finished_txn sn = worker_txn 8 7 \<lparr>ts = TS_IDLE, transactionID = 7, tc_snapshot = sn\<rparr> None"

lemma sample_txns:
  "StartTransaction idle_txn = Some started_txn" "StartTransaction started_txn = Some started_txn"
  "FinishTransaction started_txn = Some (finished_txn False)" "FinishTransaction reading_txn = Some (finished_txn True)"
  "FinishTransaction (finished_txn sn) = Some (finished_txn sn)"
proof -
  have "SetHighLevelTransaction 7 \<lparr>nextTransactionId = 8, lowLevelXtid = 0, highLevelXtid = 6\<rparr> = Some (6, \<lparr>nextTransactionId = 8, lowLevelXtid = 0, highLevelXtid = 7\<rparr>)"
    by (subst SetHighLevelTransaction_def) (subst set_high_loop.simps, simp add: XTID_ISINVALID_def INVALID_XTID_def atomic_compare_exchange64_def)
  then show "FinishTransaction started_txn = Some (finished_txn False)" "FinishTransaction reading_txn = Some (finished_txn True)"
    by (simp_all add: FinishTransaction_def finish_ctx_def started_txn_def reading_txn_def finished_txn_def worker_txn_def my_ctx_def set_ctx_def arr_get_def arr_set_def)
qed (simp_all add: StartTransaction_def FinishTransaction_def idle_txn_def started_txn_def finished_txn_def worker_txn_def attach_def assign_id_def my_ctx_def set_ctx_def
    arr_get_def arr_set_def GetNewTransactionID_def atomic_fetch_add64_def)

definition start_world :: world where
  "start_world = some_world\<lparr>w_txn := idle_txn\<rparr>"

definition no_parse :: "byte list \<Rightarrow> unit option" where
  "no_parse cmd = None"

definition sample_entry :: "byte list \<Rightarrow> world \<Rightarrow> Portal \<Rightarrow> (int \<times> world \<times> Portal) option" where
  "sample_entry = ToadMainEntry (x_fl_text some_env) (ExecutorMain til_Read_Commited some_env) no_parse (\<lambda>_ _. Some None) (\<lambda>(_ :: unit) _. Some None)"

theorem syntax_error_is_answered_witness:
  "answers sample_entry [120] start_world (\<lambda>w'. w' = start_world\<lparr>w_txn := finished_txn False\<rparr>)
     [(PORT_MSG_BEGIN, text_of ''Sytax is wrong, parser error.'')] PORT_MSG_BEGIN"
  unfolding sample_entry_def
  by (rule syntax_error_is_answered [of _ _ _ started_txn]) (simp_all add: no_parse_def start_world_def sample_txns)

lemma sample_session: "session sample_entry (\<lambda>w'. w' = start_world\<lparr>w_txn := finished_txn False\<rparr>) start_world [[120]]
    [whole_answer [(PORT_MSG_BEGIN, text_of ''Sytax is wrong, parser error.'')] PORT_MSG_BEGIN]"
proof (rule session_command)
  show "command_ok [120]" by (simp add: command_ok_def fits_def PORT_BUFFER_SIZE_def text_of_def)
  show "answers sample_entry [120] start_world (\<lambda>w'. w' = start_world\<lparr>w_txn := finished_txn False\<rparr>)
      [(PORT_MSG_BEGIN, text_of ''Sytax is wrong, parser error.'')] PORT_MSG_BEGIN"
    unfolding sample_entry_def
    by (rule refused_command_answers [of _ _ _ started_txn]) (simp_all add: no_parse_def start_world_def sample_txns)
qed (rule session_end)

theorem session_answers_in_order_witness:
  "\<exists>c' w' p'. process_loop sample_entry [frame PORT_MSG_REQUEST [120]] zero_client start_world new_portal = process_loop sample_entry [] c' w' p' \<and>
     w' = start_world\<lparr>w_txn := finished_txn False\<rparr> \<and> holds CS_IDLE c' [] \<and> idle_portal p' \<and>
     wire (p_sock p') = wire (p_sock new_portal) @ stream (whole_answer [(PORT_MSG_BEGIN, text_of ''Sytax is wrong, parser error.'')] PORT_MSG_BEGIN)"
  using session_answers_in_order [OF sample_session, of "[[frame PORT_MSG_REQUEST [120]]]" CS_IDLE zero_client new_portal "[]"] waiting_zero new_portal_idle
  by (simp add: cut_def MAX_COMMAND_LENGTH_def waiting_def)

text \<open>The select command of the sample tables.\<close>

definition reading_env :: xenv where
  "reading_env = some_env\<lparr>x_snapshot := Some \<lparr>highLevel = 7, lowLevel = 7, xidNum = 0, xidArrMax = 1, runningXidArr = [0]\<rparr>, x_txn := reading_txn\<rparr>"

lemma reading_command: "command_env til_Read_Commited some_env start_world = Some (started_txn, reading_env)"
proof -
  have "GenerateSnapshot til_Read_Commited (CreateSnapshot 1) started_txn =
      Some (\<lparr>highLevel = 7, lowLevel = 7, xidNum = 0, xidArrMax = 1, runningXidArr = [0]\<rparr>, reading_txn)"
    by (simp add: started_txn_def reading_txn_def worker_txn_def CreateSnapshot_def GenerateSnapshot_def GetSnapshot_def
      GetActiveXtids_def active_xtids_def own_id_def GetHighLevelTransaction_def my_ctx_def set_ctx_def arr_get_def arr_set_def)
  then show ?thesis by (simp add: command_env_def statement_env_def start_world_def some_world_def sample_txns reading_env_def)
qed

lemma reading_query_ok: "query_ok reading_env (w_db start_world) (w_mem start_world) ab_targets ab_rtable [ab_qual] (\<lambda>_. None) two_strings 4 table_a [table_b]"
proof -
  have "sees_42 reading_env"
    by (simp add: sees_42_def TupleVisibilitySatisfy_def reading_env_def reading_txn_def worker_txn_def GetCurrentTransactionID_def my_ctx_def arr_get_def int_column_def
        zero_header_def XTID_ISINVALID_def INVALID_XTID_def TupleVisibililtySnapshot_def GetTransactionState_def)
  from ab_query_ok [OF this [unfolded reading_env_def]] show ?thesis by (simp add: reading_env_def start_world_def)
qed

end
