(* ===== verification/TableInsert.thy ===== *)
theory TableInsert
  imports TableScan Locks
begin

text \<open>
  The insertion of a row into a table under the PAX storage model, after \<^verbatim>\<open>src/sqlcore/executor/execModifyTable.c\<close>
  (\<^verbatim>\<open>pax_ExecInsert\<close>) and the functions of \<^verbatim>\<open>src/sqlcore/storage/buffer/buffer.c\<close> that search for space and extend the files.

  \<open>TblMeta\<close> has what a worker keeps in memory of the head pages of both files: the number of their pages and the
  last group id, and how often it holds the extension lock. A page that is changed in its buffer is written through
  to the place it came from; a write to a file always succeeds. The state of an insertion is the \<^verbatim>\<open>ScanPageInfo\<close>
  that \<^verbatim>\<open>InitExecNodeModifyTbl\<close> makes.
\<close>

section \<open>Extending a file\<close>

record TblMeta =
  pageCnt :: "ForkType \<Rightarrow> u32"
  last_group_id :: u32
  extLock :: int

datatype PageOp = PAGE_NEW | PAGE_EXIST

definition PAGE_EXTENSION_MAX_NUM :: int where "PAGE_EXTENSION_MAX_NUM = 512"
definition GROUP_ID_OFFSET :: nat where "GROUP_ID_OFFSET = PAGE_DATA_HEADER_SIZE"

definition WritePage :: "ForkType \<Rightarrow> int \<Rightarrow> page \<Rightarrow> tblst \<Rightarrow> tblst" where
  "WritePage f n p st = st\<lparr>pages := (pages st)(f := (pages st f)(n \<mapsto> p))\<rparr>"

definition TableWrite :: "ForkType \<Rightarrow> page \<Rightarrow> tblst \<Rightarrow> tblst" where
  "TableWrite f p st = (if pageNum p \<le> 0 then st else WritePage f (pageNum p) p st)"

definition StartExtensionTbl :: "TblMeta \<Rightarrow> TblMeta" where
  "StartExtensionTbl m = m\<lparr>extLock := extLock m + 1\<rparr>"

definition EndExtensionTbl :: "TblMeta \<Rightarrow> TblMeta" where
  "EndExtensionTbl m = m\<lparr>extLock := extLock m - 1\<rparr>"

fun UpdateMetaPage :: "ForkType \<Rightarrow> TblMeta \<Rightarrow> page \<Rightarrow> page" where
  "UpdateMetaPage MAIN_FORK m p = set_fld f_pageCnt (pageCnt m MAIN_FORK) p"
| "UpdateMetaPage GROUP_FORK m p = set_fld f_pageCnt (pageCnt m GROUP_FORK) (set_fld GROUP_ID_OFFSET (last_group_id m) p)"

definition UpdateMetaData :: "ForkType \<Rightarrow> TblMeta \<Rightarrow> tblst \<Rightarrow> tblst option" where
  "UpdateMetaData f m st =
     (case GetPageByIndex f PAGE_HEAD_PAGE_NUM st of
        (None, st) \<Rightarrow> None
      | (Some n, st) \<Rightarrow> do {
          p \<leftarrow> pages st f n;
          let st = WritePage f n (UpdateMetaPage f m p) (LockPage f n st);
          Some (ReleasePage f n (UnLockPage f n st)) })"

text \<open>The loop over the new pages; the same memory is written again and again.\<close>

fun extend_loop :: "ForkType \<Rightarrow> nat \<Rightarrow> page \<Rightarrow> tblst \<Rightarrow> TblMeta \<Rightarrow> page \<times> tblst \<times> TblMeta" where
  "extend_loop f 0 p st m = (p, st, m)"
| "extend_loop f (Suc k) p st m =
     (let (old, new) = atomic_fetch_add (pageCnt m f) 1;
          p = set_fld f_pageNum (old + 1) p
      in extend_loop f k p (TableWrite f p st) (m\<lparr>pageCnt := (pageCnt m)(f := new)\<rparr>))"

definition ExtensionTbl :: "ForkType \<Rightarrow> int \<Rightarrow> tblst \<Rightarrow> TblMeta \<Rightarrow> (int option \<times> tblst \<times> TblMeta) option" where
  "ExtensionTbl f num st m =
     (if num \<le> 0 \<or> num > PAGE_EXTENSION_MAX_NUM then Some (None, st, m)
      else do {
        let (p, st, m) = extend_loop f (nat num) InitPage st m;
        st \<leftarrow> UpdateMetaData f m st;
        let (page, st) = GetPageByIndex f (pageNum p) st;
        Some (page, st, m) })"

section \<open>Searching for space\<close>

partial_function (option) space_loop :: "ForkType \<Rightarrow> int \<Rightarrow> int \<Rightarrow> tblst \<Rightarrow> (int option \<times> tblst) option" where
  "space_loop f sz index st =
     (case GetPageByIndex f index st of
        (None, st) \<Rightarrow> Some (None, st)
      | (Some n, st) \<Rightarrow> do {
          p \<leftarrow> pages st f n;
          let st = UnLockPage f n (LockPage f n st);
          if HasFreeSpace p sz then Some (Some n, st)
          else space_loop f sz (index + 1) (ReleasePage f n st) })"

definition GetSpacePage :: "int \<Rightarrow> PageOp \<Rightarrow> ForkType \<Rightarrow> tblst \<Rightarrow> TblMeta \<Rightarrow> (int option \<times> tblst \<times> TblMeta) option" where
  "GetSpacePage sz op f st m =
     (if sz + int PAGE_DATA_HEADER_SIZE \<ge> int PAGE_MAX_SIZE then Some (None, st, m)
      else do {
        (page, st) \<leftarrow> space_loop f sz (PAGE_HEAD_PAGE_NUM + 1) st;
        if page = None \<and> op = PAGE_NEW then ExtensionTbl f 1 st m
        else Some (page, st, m) })"

text \<open>A new group: \<open>num\<close> consecutive pages, the first of which is \<open>pageno\<close>. The memory of the member data is zero before.\<close>

definition member_data :: "int \<Rightarrow> nat \<Rightarrow> byte list" where
  "member_data pageno num = concat (map (\<lambda>i. bytes_of 4 (of_nat i :: i32) @ bytes_of 4 (1 :: i32) @ bytes_of 4 (0 :: i32) @
     bytes_of 4 (of_int (pageno + int i) :: i32)) [0 ..< num])"

definition put_group :: "ItemData \<Rightarrow> byte list \<Rightarrow> page \<Rightarrow> page option" where
  "put_group it bs p = do {
     let p = set_fld f_dataEndOffset (fld f_dataEndOffset p - GetItemSize (it_len it)) p;
     let it = it\<lparr>it_offset := fld f_dataEndOffset p\<rparr>;
     p \<leftarrow> wr (dataEndOffset p) bs p;
     p \<leftarrow> wr (dataOffset p) (enc_item it) p;
     Some (set_fld f_dataOffset (fld f_dataOffset p + of_nat ITEM_SIZE) p) }"

definition InsertGroupItem :: "int \<Rightarrow> int \<Rightarrow> tblst \<Rightarrow> TblMeta \<Rightarrow> (int \<times> tblst \<times> TblMeta) option" where
  "InsertGroupItem lastpage num st m = do {
     p \<leftarrow> pages st MAIN_FORK lastpage;
     let st = UnLockPage MAIN_FORK lastpage (LockPage MAIN_FORK lastpage st);
     let pageno = pageNum p - num + 1;
     if pageno \<le> PAGE_HEAD_PAGE_NUM then Some (-1, st, m)
     else do {
       let (old, new) = atomic_fetch_add (last_group_id m) 1;
       let m = m\<lparr>last_group_id := new\<rparr>;
       let bs = member_data pageno (nat num);
       let it = \<lparr>it_offset = 0, it_len = of_nat (length bs) OR ITEM_VALID_MASK, it_rowid = ucast (old + 1)\<rparr>;
       (page, st, m) \<leftarrow> GetSpacePage (int ITEM_SIZE + sint (GetItemSize (it_len it))) PAGE_NEW GROUP_FORK st m;
       n \<leftarrow> page;
       g \<leftarrow> pages st GROUP_FORK n;
       g \<leftarrow> put_group it bs g;
       let st = ReleasePage GROUP_FORK n (UnLockPage GROUP_FORK n (WritePage GROUP_FORK n g (LockPage GROUP_FORK n st)));
       st \<leftarrow> UpdateMetaData GROUP_FORK m st;
       Some (0, st, m) } }"

text \<open>The member data of column \<open>k\<close>, and its pages from the last to the first.\<close>

fun member_off :: "byte list \<Rightarrow> nat \<Rightarrow> nat \<Rightarrow> nat option" where
  "member_off bs 0 off = Some off"
| "member_off bs (Suc k) off = do {
     cnt \<leftarrow> memNum_at bs off;
     member_off bs k (off + MEMBER_DATA_SIZE + nat cnt * PAGE_OFFSET_SIZE) }"

fun free_member_loop :: "byte list \<Rightarrow> nat \<Rightarrow> int \<Rightarrow> nat \<Rightarrow> tblst \<Rightarrow> (int option \<times> tblst) option" where
  "free_member_loop bs off sz k st = do {
     pno \<leftarrow> member_pageno bs off k;
     if pno = INVALID_PAGE_NUM then Some (None, st)
     else (case GetPageByIndex MAIN_FORK pno st of
        (None, st) \<Rightarrow> Some (None, st)
      | (Some n, st) \<Rightarrow> do {
          p \<leftarrow> pages st MAIN_FORK n;
          let st = UnLockPage MAIN_FORK n (LockPage MAIN_FORK n st);
          if HasFreeSpace p sz then Some (Some n, st)
          else let st = ReleasePage MAIN_FORK n st in
            (case k of 0 \<Rightarrow> Some (None, st) | Suc k \<Rightarrow> free_member_loop bs off sz k st) }) }"

definition GetFreeSpaceMemberPage :: "int \<Rightarrow> GroupItemData \<Rightarrow> int \<Rightarrow> tblst \<Rightarrow> (int option \<times> tblst) option" where
  "GetFreeSpaceMemberPage sz gi colIndex st = do {
     off \<leftarrow> member_off (gi_members gi) (nat colIndex) 0;
     cnt \<leftarrow> memNum_at (gi_members gi) off;
     if cnt \<le> 0 then None
     else free_member_loop (gi_members gi) off sz (nat cnt - 1) st }"

record InsertInfo =
  ins_search :: SearchPageInfo
  ins_group :: GroupItemData
  ins_pageList :: "int option list"
  ins_pageListNum :: int
  isNoSpace :: bool
  ins_row :: RowData

text \<open>\<^verbatim>\<open>ReleasePageListMember\<close> has the text of \<^verbatim>\<open>ReleasePageList\<close>.\<close>

fun space_cols :: "GroupItemData \<Rightarrow> RowColumnData option list \<Rightarrow> nat \<Rightarrow> nat \<Rightarrow> int option list \<Rightarrow> tblst \<Rightarrow> (bool \<times> int option list \<times> tblst) option" where
  "space_cols gi cols i 0 pl st = Some (True, pl, st)"
| "space_cols gi (Some c # cols) i (Suc n) pl st = do {
     (page, st) \<leftarrow> GetFreeSpaceMemberPage (sint (rc_size c) + int (TABLE_ROW_HEADER_SIZE + ITEM_SIZE)) gi (sint (attrindex c)) st;
     case page of
       None \<Rightarrow> let (pl, st) = ReleasePageList pl (i + Suc n) st in Some (False, pl, st)
     | Some pno \<Rightarrow> do {
         pl \<leftarrow> arr_set pl (int i) (Some pno);
         space_cols gi cols (Suc i) n pl st } }"
| "space_cols gi _ i (Suc n) pl st = None"

partial_function (option) GetSpaceGroupPage :: "TableRowData \<Rightarrow> InsertInfo \<Rightarrow> tblst \<Rightarrow> (int \<times> InsertInfo \<times> tblst) option" where
  "GetSpaceGroupPage ins sc st = do {
     (found, sc, st) \<leftarrow>
       (if isNoSpace sc then do {
          (found, sp, gi, st) \<leftarrow> GetGroupInfo (ins_search sc) (ins_group sc) st;
          Some (found, sc\<lparr>ins_search := sp, ins_group := gi, isNoSpace := found \<noteq> 1\<rparr>, st) }
        else Some (1, sc, st));
     if found \<noteq> 1 then Some (if 0 < sint (tr_num ins) then -1 else 0, sc, st)
     else do {
       (enough, pl, st) \<leftarrow> space_cols (ins_group sc) (columnData ins) 0 (nat (sint (tr_num ins))) (ins_pageList sc) st;
       if enough then Some (0, sc\<lparr>ins_pageList := pl\<rparr>, st)
       else GetSpaceGroupPage ins (sc\<lparr>ins_pageList := pl, isNoSpace := True\<rparr>) st } }"

section \<open>Inserting\<close>

text \<open>\<^verbatim>\<open>InsertRowDataWithGroup\<close> on the pages of a table.\<close>

fun group_pages :: "int option list \<Rightarrow> nat \<Rightarrow> tblst \<Rightarrow> (int list \<times> page list) option" where
  "group_pages pl 0 st = Some ([], [])"
| "group_pages (Some n # pl) (Suc k) st = do {
     p \<leftarrow> pages st MAIN_FORK n;
     (ns, ps) \<leftarrow> group_pages pl k st;
     Some (n # ns, p # ps) }"
| "group_pages _ (Suc k) st = None"

fun write_group :: "TupleHeader \<Rightarrow> int list \<Rightarrow> RowColumnData option list \<Rightarrow> RowData \<Rightarrow> tblst \<Rightarrow> (RowData \<times> tblst) option" where
  "write_group h [] cols row st = Some (row, st)"
| "write_group h (n # ns) (Some c # cols) row st = do {
     p \<leftarrow> pages st MAIN_FORK n;
     let c = c\<lparr>headerData := h\<rparr>;
     let row = row\<lparr>rowsData := (rowsData row)\<lparr>columnData := (columnData (rowsData row))[0 := Some c], tr_size := rc_size c\<rparr>\<rparr>;
     (p, row) \<leftarrow> WriteRowOnePage p row;
     write_group h ns cols row (WritePage MAIN_FORK n p st) }"
| "write_group h (n # ns) _ row st = None"

definition insert_row :: "txnst \<Rightarrow> TableRowData \<Rightarrow> InsertInfo \<Rightarrow> tblst \<Rightarrow> (EStat_RET \<times> InsertInfo \<times> tblst) option" where
  "insert_row txn ins sc st = do {
     let num = nat (sint (tr_num ins));
     (ns, ps) \<leftarrow> group_pages (ins_pageList sc) num st;
     let st = fold (LockPage MAIN_FORK) ns st;
     ret \<leftarrow> FreeSpaceCheck ps (columnData ins) num;
     if ret < 0 then Some (ESTAT_NO_SPACE, sc, fold (UnLockPage MAIN_FORK) ns st)
     else do {
       h \<leftarrow> ComputeXminTupleHeader zero_header txn;
       (row, st) \<leftarrow> write_group h ns (columnData ins) ((ins_row sc)\<lparr>rowsData := (rowsData (ins_row sc))\<lparr>tr_num := 1\<rparr>\<rparr>) st;
       Some (ESTAT_SUCESS, sc\<lparr>ins_row := row\<rparr>, fold (UnLockPage MAIN_FORK) ns st) } }"

text \<open>The search for a group with space, with the extension of the table when there is none.\<close>

partial_function (option) find_space :: "nat \<Rightarrow> TableRowData \<Rightarrow> InsertInfo \<Rightarrow> tblst \<Rightarrow> TblMeta \<Rightarrow> (int \<times> InsertInfo \<times> tblst \<times> TblMeta) option" where
  "find_space colNum ins sc st m = do {
     (ret, sc, st) \<leftarrow> GetSpaceGroupPage ins sc st;
     if ret \<ge> 0 then Some (0, sc, st, m)
     else do {
       (page, st, m) \<leftarrow> ExtensionTbl MAIN_FORK (int colNum) st (StartExtensionTbl m);
       case page of
         None \<Rightarrow> Some (-1, sc, st, m)
       | Some n \<Rightarrow> do {
           (_, st, m) \<leftarrow> InsertGroupItem n (int colNum) st m;
           find_space colNum ins sc (ReleasePage MAIN_FORK n st) (EndExtensionTbl m) } } }"

partial_function (option) insert_retry :: "txnst \<Rightarrow> nat \<Rightarrow> TableRowData \<Rightarrow> InsertInfo \<Rightarrow> tblst \<Rightarrow> TblMeta \<Rightarrow> (int \<times> InsertInfo \<times> tblst \<times> TblMeta) option" where
  "insert_retry txn colNum ins sc st m = do {
     (ret, sc, st, m) \<leftarrow> find_space colNum ins sc st m;
     if ret < 0 then Some (-1, sc, st, m)
     else do {
       (ret, sc, st) \<leftarrow> insert_row txn ins sc st;
       let (pl, st) = ReleasePageList (ins_pageList sc) (nat (sint (tr_num ins))) st;
       let sc = sc\<lparr>ins_pageList := pl\<rparr>;
       if ret = ESTAT_NO_SPACE then insert_retry txn colNum ins sc st m
       else Some (1, sc, st, m) } }"

text \<open>\<open>colNum\<close> is the number of the columns of the table; 1 is the success of \<^verbatim>\<open>InsertRowDataWithGroup\<close>.\<close>

definition pax_ExecInsert :: "txnst \<Rightarrow> nat \<Rightarrow> TableRowData \<Rightarrow> InsertInfo \<Rightarrow> tblst \<Rightarrow> TblMeta \<Rightarrow> (int \<times> InsertInfo \<times> tblst \<times> TblMeta) option" where
  "pax_ExecInsert txn colNum ins sc st m =
     (if ins_pageListNum sc < sint (tr_num ins) then Some (-1, sc, st, m) else insert_retry txn colNum ins sc st m)"

text \<open>The state in which the node that modifies a table starts; \<open>targets\<close> is the number of the targets of the statement.\<close>

definition InitInsertInfo :: "nat \<Rightarrow> nat \<Rightarrow> InsertInfo" where
  "InitInsertInfo targets colNum =
     \<lparr>ins_search = \<lparr>sp_page = None, item_offset = 0, group_id = 0, sp_pageNum = PAGE_HEAD_PAGE_NUM + 1\<rparr>,
      ins_group = \<lparr>gi_pageno = 0, gi_item = \<lparr>it_offset = 0, it_len = 0, it_rowid = 0\<rparr>, gi_members = replicate (16 * colNum) 0\<rparr>,
      ins_pageList = replicate (max targets colNum) None, ins_pageListNum = int (max targets colNum), isNoSpace = True, ins_row = blank_row\<rparr>"

section \<open>What an extension does\<close>

lemma set_fld_set_fld [simp]: "set_fld off v (set_fld off w p) = set_fld off v p"
  by (auto simp: set_fld_def put_bytes_def)

definition fresh_page :: "int \<Rightarrow> page" where
  "fresh_page n = set_fld f_pageNum (of_int n) InitPage"

lemma fresh_page_ok: "page_ok (fresh_page n)" "rows (fresh_page n) = []" "items (fresh_page n) = 0" "0 \<le> n \<Longrightarrow> n < 2 ^ 31 \<Longrightarrow> pageNum (fresh_page n) = n"
proof -
  have fl: "fld 12 (fresh_page n) = 40" "fld 16 (fresh_page n) = 4096" by (simp_all add: fresh_page_def page_simps InitPage_fields)
  show i: "items (fresh_page n) = 0" by (simp add: items_def dataOffset_def fl PAGE_DATA_HEADER_SIZE_def)
  show "page_ok (fresh_page n)" "rows (fresh_page n) = []"
    by (simp_all add: page_ok_def rows_def i dataOffset_def dataEndOffset_def fl data_top_def PAGE_MAX_SIZE_def)
  show "pageNum (fresh_page n) = n" if "0 \<le> n" "n < 2 ^ 31"
    using that sint_of_nat32 [of "nat n"] by (simp add: pageNum_def fresh_page_def page_simps)
qed

lemma fresh_page_space: "dataOffset (fresh_page n) = 40" "dataEndOffset (fresh_page n) = 4096"
  by (simp_all add: dataOffset_def dataEndOffset_def fresh_page_def page_simps InitPage_fields)

lemma pages_WritePage [simp]: "pages (WritePage f n p st) = (pages st)(f := (pages st f)(n \<mapsto> p))"
  by (simp add: WritePage_def)

lemma uint_add32:
  assumes "uint (x :: u32) + int k < 2 ^ 31"
  shows "uint (x + of_nat k) = uint x + int k"
proof -
  have "int k < 2 ^ 31" using assms uint_ge_0 [of x] by linarith
  then have "k < 2 ^ 31" by simp
  then have "uint (of_nat k :: u32) = int k" by (simp add: unsigned_of_nat take_bit_nat_eq_self)
  then show ?thesis using assms uint_ge_0 [of x] by (simp add: uint_word_ariths)
qed

lemma word_of_uint: "(x :: u32) = of_int (uint x)"
  by simp

text \<open>The file with its new pages, and the head page updated.\<close>

definition with_new :: "(int \<rightharpoonup> page) \<Rightarrow> int \<Rightarrow> int \<Rightarrow> int \<rightharpoonup> page" where
  "with_new pgs c k = (\<lambda>i. if c < i \<and> i \<le> c + k then Some (fresh_page i) else pgs i)"

lemma extend_loop_pages:
  assumes "uint (pageCnt m f) + int k < 2 ^ 31" "p = InitPage \<or> (\<exists>v. p = set_fld f_pageNum v InitPage)"
  shows "\<exists>st'. extend_loop f k p st m = (if k = 0 then p else fresh_page (uint (pageCnt m f) + int k), st',
       m\<lparr>pageCnt := (pageCnt m)(f := pageCnt m f + of_nat k)\<rparr>) \<and>
     pages st' = (pages st)(f := with_new (pages st f) (uint (pageCnt m f)) (int k))"
  using assms
proof (induction k arbitrary: p st m)
  case 0
  then show ?case by (auto simp: with_new_def fun_eq_iff)
next
  case (Suc k)
  let ?c = "uint (pageCnt m f)"
  let ?m = "m\<lparr>pageCnt := (pageCnt m)(f := pageCnt m f + 1)\<rparr>"
  have c1: "uint (pageCnt m f + 1) = ?c + 1" using uint_add32 [of "pageCnt m f" 1] Suc.prems(1) by simp
  have w: "pageCnt m f + 1 = (of_int (?c + 1) :: u32)" by simp
  have p1: "set_fld f_pageNum (pageCnt m f + 1) p = fresh_page (?c + 1)"
    using Suc.prems(2) w by (auto simp: fresh_page_def)
  have num: "pageNum (fresh_page (?c + 1)) = ?c + 1" using Suc.prems(1) by (intro fresh_page_ok) auto
  have pos: "\<not> ?c + 1 \<le> 0" using uint_ge_0 [of "pageCnt m f"] by linarith
  let ?st = "TableWrite f (fresh_page (?c + 1)) st"
  have st: "pages ?st = (pages st)(f := (pages st f)(?c + 1 \<mapsto> fresh_page (?c + 1)))"
    using num pos by (simp add: TableWrite_def)
  have cnt: "uint (pageCnt ?m f) = ?c + 1" using c1 by simp
  have pre: "uint (pageCnt ?m f) + int k < 2 ^ 31" using Suc.prems(1) cnt by simp
  have "fresh_page (?c + 1) = InitPage \<or> (\<exists>v. fresh_page (?c + 1) = set_fld f_pageNum v InitPage)" by (auto simp: fresh_page_def)
  from Suc.IH [OF pre this, of ?st] obtain st' where IH: "extend_loop f k (fresh_page (?c + 1)) ?st ?m = (if k = 0 then fresh_page (?c + 1) else fresh_page (?c + 1 + int k), st',
       ?m\<lparr>pageCnt := (pageCnt ?m)(f := pageCnt ?m f + of_nat k)\<rparr>)"
     "pages st' = (pages ?st)(f := with_new (pages ?st f) (?c + 1) (int k))"
    unfolding cnt by blast
  have "with_new (pages ?st f) (?c + 1) (int k) = with_new (pages st f) ?c (int (Suc k))"
    unfolding st by (auto simp: with_new_def fun_eq_iff)
  then have "pages st' = (pages st)(f := with_new (pages st f) ?c (int (Suc k)))" using IH(2) st by simp
  moreover have "extend_loop f (Suc k) p st m = (fresh_page (?c + int (Suc k)), st', m\<lparr>pageCnt := (pageCnt m)(f := pageCnt m f + of_nat (Suc k))\<rparr>)"
  proof -
    have "extend_loop f (Suc k) p st m = extend_loop f k (fresh_page (?c + 1)) ?st ?m"
      unfolding extend_loop.simps by (simp add: atomic_fetch_add_def p1 Let_def)
    then show ?thesis using IH(1) by (simp add: add.assoc)
  qed
  ultimately show ?case by (intro exI [of _ st'] conjI) (simp_all del: extend_loop.simps fun_upd_apply)
qed

lemma pages_Release [simp]: "pages (ReleasePage f n st) = pages st"
  by simp

lemma UpdateMetaData_pages:
  assumes "pages st f 1 = Some p"
  shows "\<exists>st'. UpdateMetaData f m st = Some st' \<and> pages st' = (pages st)(f := (pages st f)(1 \<mapsto> UpdateMetaPage f m p))"
proof -
  obtain st1 where "GetPageByIndex f 1 st = (Some 1, st1)" "pages st1 = pages st" using GetPageByIndex_Some [of 1 st f] assms by auto
  then show ?thesis using assms by (simp add: UpdateMetaData_def PAGE_HEAD_PAGE_NUM_def)
qed

lemma ExtensionTbl_pages:
  assumes "0 < k" "k \<le> 512" "1 \<le> uint (pageCnt m f)" "uint (pageCnt m f) + int k < 2 ^ 31" "pages st f 1 = Some h"
  shows "\<exists>st' h'. ExtensionTbl f (int k) st m = Some (Some (uint (pageCnt m f) + int k), st', m\<lparr>pageCnt := (pageCnt m)(f := pageCnt m f + of_nat k)\<rparr>) \<and>
     pages st' = (pages st)(f := (with_new (pages st f) (uint (pageCnt m f)) (int k))(1 \<mapsto> h'))"
proof -
  let ?c = "uint (pageCnt m f)"
  let ?m = "m\<lparr>pageCnt := (pageCnt m)(f := pageCnt m f + of_nat k)\<rparr>"
  obtain st1 where st1: "extend_loop f k InitPage st m = (fresh_page (?c + int k), st1, ?m)"
      "pages st1 = (pages st)(f := with_new (pages st f) ?c (int k))"
    using extend_loop_pages [of m f k InitPage st] assms(1,4) by auto
  have "pages st1 f 1 = Some h" using st1(2) assms(3,5) by (simp add: with_new_def)
  from UpdateMetaData_pages [OF this, of ?m] obtain st2 where st2: "UpdateMetaData f ?m st1 = Some st2"
    "pages st2 = (pages st1)(f := (pages st1 f)(1 \<mapsto> UpdateMetaPage f ?m h))" by blast
  have num: "pageNum (fresh_page (?c + int k)) = ?c + int k" using assms(4) by (intro fresh_page_ok) auto
  have "pages st2 f (?c + int k) \<noteq> None" using st1(2) st2(2) assms(1) by (auto simp: with_new_def)
  moreover have "0 < ?c + int k" using assms(1,3) by simp
  ultimately obtain st3 where st3: "GetPageByIndex f (?c + int k) st2 = (Some (?c + int k), st3)" "pages st3 = pages st2"
    using GetPageByIndex_Some by blast
  have "ExtensionTbl f (int k) st m = Some (Some (?c + int k), st3, ?m)"
    using assms(1,2) st1(1) st2(1) st3(1) num by (simp add: ExtensionTbl_def PAGE_EXTENSION_MAX_NUM_def)
  then show ?thesis using st1(2) st2(2) st3(2) by auto
qed

section \<open>A new group\<close>

lemma space_loop_skips:
  assumes "i \<le> k" "0 < i" "\<And>j. i \<le> j \<Longrightarrow> j < k \<Longrightarrow> \<exists>p. pages st f j = Some p \<and> \<not> HasFreeSpace p sz"
  shows "\<exists>st'. pages st' = pages st \<and> space_loop f sz i st = space_loop f sz k st'"
  using assms
proof (induction "nat (k - i)" arbitrary: i st)
  case 0
  then show ?case by (intro exI [of _ st]) simp
next
  case (Suc d)
  obtain p where p: "pages st f i = Some p" "\<not> HasFreeSpace p sz" using Suc.prems(3) [of i] Suc.hyps(2) by force
  obtain st1 where st1: "GetPageByIndex f i st = (Some i, st1)" "pages st1 = pages st"
    using GetPageByIndex_Some [of i st f] Suc.prems(2) p(1) by auto
  let ?st = "ReleasePage f i (UnLockPage f i (LockPage f i st1))"
  have "space_loop f sz i st = space_loop f sz (i + 1) ?st"
    using st1 p by (subst space_loop.simps) simp
  moreover have "\<exists>st'. pages st' = pages ?st \<and> space_loop f sz (i + 1) ?st = space_loop f sz k st'"
    using Suc.prems Suc.hyps(2) st1(2) by (intro Suc.hyps(1)) auto
  ultimately show ?case using st1(2) by simp
qed

lemma space_loop_stop:
  "pages st f k = None \<Longrightarrow> space_loop f sz k st = Some (None, st)"
  "0 < k \<Longrightarrow> pages st f k = Some p \<Longrightarrow> HasFreeSpace p sz \<Longrightarrow> \<exists>st'. space_loop f sz k st = Some (Some k, st') \<and> pages st' = pages st"
proof -
  show "space_loop f sz k st = Some (None, st)" if "pages st f k = None"
    using GetPageByIndex_None [OF that] by (subst space_loop.simps) simp
  show "\<exists>st'. space_loop f sz k st = Some (Some k, st') \<and> pages st' = pages st" if a: "0 < k" "pages st f k = Some p" "HasFreeSpace p sz"
  proof -
    obtain st1 where st1: "GetPageByIndex f k st = (Some k, st1)" "pages st1 = pages st" using GetPageByIndex_Some [of k st f] a by auto
    then show ?thesis using a by (subst space_loop.simps) simp
  qed
qed

definition gspace :: "page \<Rightarrow> nat \<Rightarrow> bool" where
  "gspace p k \<longleftrightarrow> (\<exists>e. dataEndOffset p = int e \<and> 40 + 16 * k \<le> e \<and> e \<le> 4096 \<and> (\<forall>i < k. e \<le> item_start p i))"

lemma fld_of_sint: "sint (fld off p) = int n \<Longrightarrow> fld off p = of_nat n"
proof -
  assume "sint (fld off p) = int n"
  then have "of_int (sint (fld off p)) = (of_nat n :: i32)" by simp
  then show "fld off p = of_nat n" by simp
qed

lemma group_item_len:
  assumes "n < 2 ^ 20"
  shows "GetItemSize (of_nat n OR ITEM_VALID_MASK) = of_nat n" "unat (GetItemSize (of_nat n OR ITEM_VALID_MASK)) = n" "GetItemValid (of_nat n OR ITEM_VALID_MASK)"
proof -
  have "take_bit 28 (of_nat n :: i32) = of_nat n" using assms by (intro take_bit_small) (simp add: unat_of_nat take_bit_nat_eq_self)
  moreover have "take_bit 28 (ITEM_VALID_MASK) = 0" by (simp add: ITEM_VALID_MASK_def)
  ultimately show s: "GetItemSize (of_nat n OR ITEM_VALID_MASK) = of_nat n" by (simp add: GetItemSize_take)
  show "unat (GetItemSize (of_nat n OR ITEM_VALID_MASK)) = n" unfolding s using assms by (simp add: unat_of_nat take_bit_nat_eq_self)
qed (rule GetItemValid_or)

lemma put_group_ok:
  assumes ok: "gpage_ok p gs" and sp: "gspace p (length gs)" and free: "HasFreeSpace p (16 + 16 * int (length g))"
    and it: "it_len it = of_nat (16 * length g) OR ITEM_VALID_MASK"
  shows "\<exists>p'. put_group it (enc_group g) p = Some p' \<and> gpage_ok p' (gs @ [g]) \<and> gspace p' (Suc (length gs)) \<and> pageNum p' = pageNum p"
proof -
  let ?k = "length gs" and ?n = "16 * length g"
  obtain e where e: "dataEndOffset p = int e" "40 + 16 * ?k \<le> e" "e \<le> 4096" "\<forall>i < ?k. e \<le> item_start p i" using sp by (auto simp: gspace_def)
  have do: "dataOffset p = int (40 + 16 * ?k)" using ok by (simp add: gpage_ok_def)
  define a where "a = e - ?n"
  have a: "e = a + ?n" "40 + 16 * ?k + 16 < a" using free unfolding HasFreeSpace_def e(1) do a_def by auto
  have small: "?n < 2 ^ 20" "a \<le> 4096" "?n < 4096" using a e(3) by auto
  note len = group_item_len [OF small(1)]
  have f16: "fld 16 p = of_nat e" using e(1) by (intro fld_of_sint) (simp add: dataEndOffset_def)
  have f12: "fld 12 p = of_nat (40 + 16 * ?k)" using do by (intro fld_of_sint) (simp add: dataOffset_def)
  have "fld 16 p - GetItemSize (it_len it) = of_nat a" unfolding f16 it len(1) a(1) by simp
  then have p1: "set_fld 16 (fld 16 p - GetItemSize (it_len it)) p = set_fld 16 (of_nat a) p" by simp
  have end1: "dataEndOffset (set_fld 16 (of_nat a) p) = int a" using small(2) sint_of_nat32 [of a] by (simp add: dataEndOffset_def page_simps)
  let ?it = "it\<lparr>it_offset := of_nat a\<rparr>"
  let ?p2 = "put_bytes a (enc_group g) (set_fld 16 (of_nat a) p)"
  let ?p3 = "put_bytes (40 + 16 * ?k) (enc_item ?it) ?p2"
  let ?p = "set_fld 12 (of_nat (56 + 16 * ?k)) ?p3"
  have w1: "wr (int a) (enc_group g) (set_fld 16 (of_nat a) p) = Some ?p2" using a(1) e(3) by (intro wr_in) simp
  have do2: "dataOffset ?p2 = int (40 + 16 * ?k)" using a(2) do by (simp add: dataOffset_def page_simps)
  have w2: "wr (int (40 + 16 * ?k)) (enc_item ?it) ?p2 = Some ?p3" using a(2) small(2) by (intro wr_in) simp
  have f3: "fld 12 ?p3 + of_nat ITEM_SIZE = of_nat (56 + 16 * ?k)" using a(2) f12 by (simp add: page_simps ITEM_SIZE_def)
  have res: "put_group it (enc_group g) p = Some ?p"
    unfolding put_group_def p1 Let_def using w1 w2 do2 f3 end1 by (simp add: page_simps del: of_nat_add of_nat_mult)
  define q where "q = ?p"
  have old: "item_at q i = item_at p i" if "i < ?k" for i
    using that a(2) unfolding q_def by (intro item_at_cong) (simp add: page_simps)
  have new: "item_at q ?k = ?it" using a(2) by (simp add: q_def item_at_def page_simps)
  have start: "item_start q ?k = a" "item_space q ?k = ?n"
    unfolding item_start_def item_space_def new using small(2) len(2) by (simp_all add: it unat_of_nat take_bit_nat_eq_self)
  have keep: "bytes_at q (item_start p i) (item_space p i) = bytes_at p (item_start p i) (item_space p i)" if "i < ?k" for i
  proof -
    have "a + ?n \<le> item_start p i" using e(4) that a(1) by blast
    then show ?thesis using that a(2) by (simp add: q_def page_simps)
  qed
  have data: "bytes_at q a ?n = enc_group g" using a(2) by (simp add: q_def page_simps)
  have olds: "item_start q i = item_start p i" "item_space q i = item_space p i" if "i < ?k" for i
    using old [OF that] by (simp_all add: item_start_def item_space_def)
  have "dataOffset q = int (56 + 16 * ?k)" using small(2) a(2) sint_of_nat32 [of "56 + 16 * ?k"] by (simp add: q_def dataOffset_def page_simps)
  moreover have each: "GetItemValid (it_len (item_at q i)) \<and> item_space q i = 16 * length ((gs @ [g]) ! i) \<and>
      item_start q i + item_space q i \<le> 4096 \<and> bytes_at q (item_start q i) (item_space q i) = enc_group ((gs @ [g]) ! i)" if "i < Suc ?k" for i
  proof (cases "i = ?k")
    case True
    then show ?thesis using start data new it len(3) a(1) e(3) by simp
  next
    case False
    then have i: "i < ?k" using that by simp
    have o: "GetItemValid (it_len (item_at p i))" "item_space p i = 16 * length (gs ! i)" "item_start p i + item_space p i \<le> 4096"
      "bytes_at p (item_start p i) (item_space p i) = enc_group (gs ! i)" using ok i by (auto simp: gpage_ok_def)
    have "(gs @ [g]) ! i = gs ! i" using i by (simp add: nth_append)
    then show ?thesis unfolding old [OF i] olds [OF i] keep [OF i] using o by simp
  qed
  ultimately have "gpage_ok q (gs @ [g])" unfolding gpage_ok_def using a(2) small(2)
    by (intro conjI allI impI each) auto
  moreover have "dataEndOffset q = int a" using end1 a(2) by (simp add: q_def dataEndOffset_def page_simps)
  then have "gspace q (Suc ?k)" unfolding gspace_def
  proof (intro exI [of _ a] conjI allI impI)
    fix i
    assume "i < Suc ?k"
    then consider "i = ?k" | "i < ?k" by linarith
    then show "a \<le> item_start q i"
    proof cases
      case 2
      then have "e \<le> item_start p i" using e(4) by blast
      then show ?thesis using a(1) olds(1) [OF 2] by linarith
    qed (simp add: start)
  qed (use a e(3) in auto)
  moreover have "pageNum q = pageNum p" using a(2) by (simp add: q_def pageNum_def page_simps)
  ultimately show ?thesis using res unfolding q_def [symmetric] by blast
qed

text \<open>The group file of a table of \<open>n\<close> columns: only its last page has room for a group.\<close>

definition gpage_at :: "nat \<Rightarrow> tblst \<Rightarrow> int list list list \<Rightarrow> nat \<Rightarrow> bool" where
  "gpage_at n st gss i \<longleftrightarrow> (\<exists>p. pages st GROUP_FORK (2 + int i) = Some p \<and> gpage_ok p (gss ! i) \<and> pageNum p = 2 + int i \<and> gspace p (length (gss ! i)) \<and>
     (Suc i < length gss \<longrightarrow> \<not> HasFreeSpace p (16 + 16 * int n)))"

definition gstore :: "nat \<Rightarrow> tblst \<Rightarrow> TblMeta \<Rightarrow> int list list list \<Rightarrow> bool" where
  "gstore n st m gss \<longleftrightarrow> pages st GROUP_FORK 1 \<noteq> None \<and> uint (pageCnt m GROUP_FORK) = 1 + int (length gss) \<and>
     (\<forall>k \<ge> 2 + int (length gss). pages st GROUP_FORK k = None) \<and> (\<forall>i < length gss. gpage_at n st gss i)"

lemma gstore_gfile: "gstore n st m gss \<Longrightarrow> gfile st gss"
  unfolding gstore_def gpage_at_def gfile_def by auto

lemma gstore_cong: "gstore n st m gss \<Longrightarrow> pages st' GROUP_FORK = pages st GROUP_FORK \<Longrightarrow> pageCnt m' GROUP_FORK = pageCnt m GROUP_FORK \<Longrightarrow> gstore n st' m' gss"
  by (simp add: gstore_def gpage_at_def)

lemma fresh_gpage: "gpage_ok (fresh_page k) []" "gspace (fresh_page k) 0" "n \<le> 252 \<Longrightarrow> HasFreeSpace (fresh_page k) (16 + 16 * int n)"
  by (simp_all add: gpage_ok_def gspace_def fresh_page_space HasFreeSpace_def exI [of _ "4096 :: nat"])

lemma GetSpacePage_group:
  assumes g: "gstore n st m gss" and n: "n \<le> 252" and lim: "int (length gss) < 2 ^ 31 - 2"
  shows "\<exists>gss1 st' m'. GetSpacePage (16 + 16 * int n) PAGE_NEW GROUP_FORK st m = Some (Some (1 + int (length gss1)), st', m') \<and>
     gss1 \<noteq> [] \<and> (gss1 = gss \<or> gss1 = gss @ [[]]) \<and> gstore n st' m' gss1 \<and> pages st' MAIN_FORK = pages st MAIN_FORK \<and>
     m' = m\<lparr>pageCnt := (pageCnt m)(GROUP_FORK := pageCnt m' GROUP_FORK)\<rparr> \<and>
     (\<exists>p. pages st' GROUP_FORK (1 + int (length gss1)) = Some p \<and> HasFreeSpace p (16 + 16 * int n))"
proof -
  let ?L = "length gss" and ?sz = "16 + 16 * int n"
  have at: "\<exists>p. pages st GROUP_FORK (2 + int i) = Some p \<and> (Suc i < ?L \<longrightarrow> \<not> HasFreeSpace p ?sz)" if "i < ?L" for i
    using g that by (auto simp: gstore_def gpage_at_def)
  have sz: "\<not> ?sz + int PAGE_DATA_HEADER_SIZE \<ge> int PAGE_MAX_SIZE" using n by (simp add: PAGE_DATA_HEADER_SIZE_def PAGE_MAX_SIZE_def)
  have skip: "\<exists>st'. pages st' = pages st \<and> space_loop GROUP_FORK ?sz 2 st = space_loop GROUP_FORK ?sz (2 + int k) st'"
    if k: "k \<le> ?L" "\<And>i. i < k \<Longrightarrow> \<exists>p. pages st GROUP_FORK (2 + int i) = Some p \<and> \<not> HasFreeSpace p ?sz" for k
  proof (rule space_loop_skips)
    fix j :: int
    assume "2 \<le> j" "j < 2 + int k"
    then show "\<exists>p. pages st GROUP_FORK j = Some p \<and> \<not> HasFreeSpace p ?sz" using k(2) [of "nat (j - 2)"] by auto
  qed auto
  show ?thesis
  proof (cases "gss \<noteq> [] \<and> (\<exists>p. pages st GROUP_FORK (1 + int ?L) = Some p \<and> HasFreeSpace p ?sz)")
    case True
    then obtain p where p: "pages st GROUP_FORK (1 + int ?L) = Some p" "HasFreeSpace p ?sz" "gss \<noteq> []" by blast
    have L: "2 + int (?L - 1) = 1 + int ?L" using p(3) by (cases gss) auto
    have fulls: "\<exists>p. pages st GROUP_FORK (2 + int i) = Some p \<and> \<not> HasFreeSpace p ?sz" if i: "i < ?L - 1" for i
    proof -
      have "i < ?L" "Suc i < ?L" using i by auto
      then show ?thesis using at by blast
    qed
    have "\<exists>st'. pages st' = pages st \<and> space_loop GROUP_FORK ?sz 2 st = space_loop GROUP_FORK ?sz (2 + int (?L - 1)) st'"
      by (rule skip) (simp, rule fulls)
    from this [unfolded L] obtain st1 where
      st1: "pages st1 = pages st" "space_loop GROUP_FORK ?sz 2 st = space_loop GROUP_FORK ?sz (1 + int ?L) st1" by (elim exE conjE)
    obtain st2 where st2: "space_loop GROUP_FORK ?sz (1 + int ?L) st1 = Some (Some (1 + int ?L), st2)" "pages st2 = pages st"
      using space_loop_stop(2) [of "1 + int ?L" st1 GROUP_FORK p ?sz] p st1(1) by auto
    have "gstore n st2 m gss" by (rule gstore_cong [OF g]) (simp_all add: st2(2))
    then show ?thesis
      using st1(2) st2 sz p by (intro exI [of _ gss] exI [of _ st2] exI [of _ m]) (simp add: GetSpacePage_def PAGE_HEAD_PAGE_NUM_def)
  next
    case False
    have full: "\<exists>p. pages st GROUP_FORK (2 + int i) = Some p \<and> \<not> HasFreeSpace p ?sz" if "i < ?L" for i
    proof (cases "Suc i = ?L")
      case True
      then have i: "2 + int i = 1 + int ?L" "gss \<noteq> []" by auto
      then show ?thesis using False at [OF that] unfolding i(1) by auto
    qed (use at [OF that] that in auto)
    have "\<exists>st'. pages st' = pages st \<and> space_loop GROUP_FORK ?sz 2 st = space_loop GROUP_FORK ?sz (2 + int ?L) st'"
      by (rule skip) (simp, rule full)
    then obtain st1 where st1: "pages st1 = pages st" "space_loop GROUP_FORK ?sz 2 st = space_loop GROUP_FORK ?sz (2 + int ?L) st1"
      by (elim exE conjE)
    have "pages st1 GROUP_FORK (2 + int ?L) = None" using g st1(1) by (simp add: gstore_def)
    then have none: "space_loop GROUP_FORK ?sz (2 + int ?L) st1 = Some (None, st1)" by (rule space_loop_stop)
    have cnt: "uint (pageCnt m GROUP_FORK) = 1 + int ?L" using g by (simp add: gstore_def)
    obtain h where h: "pages st1 GROUP_FORK 1 = Some h" using g st1(1) by (auto simp: gstore_def)
    let ?m = "m\<lparr>pageCnt := (pageCnt m)(GROUP_FORK := pageCnt m GROUP_FORK + of_nat 1)\<rparr>"
    have c2: "uint (pageCnt m GROUP_FORK) + int 1 = 2 + int ?L" using cnt by simp
    have "1 \<le> uint (pageCnt m GROUP_FORK)" "uint (pageCnt m GROUP_FORK) + int 1 < 2 ^ 31" using cnt lim by simp_all
    from ExtensionTbl_pages [OF _ _ this h] obtain st2 h' where
      e: "ExtensionTbl GROUP_FORK (int 1) st1 m = Some (Some (2 + int ?L), st2, ?m)"
        "pages st2 = (pages st1)(GROUP_FORK := (with_new (pages st1 GROUP_FORK) (1 + int ?L) (int 1))(1 \<mapsto> h'))" unfolding c2 unfolding cnt by auto
    have new: "pages st2 GROUP_FORK (2 + int ?L) = Some (fresh_page (2 + int ?L))" using e(2) by (simp add: with_new_def)
    have old: "pages st2 GROUP_FORK k = pages st GROUP_FORK k" if "k \<noteq> 1" "k \<noteq> 2 + int ?L" for k
      using that e(2) st1(1) by (auto simp: with_new_def)
    have "gpage_at n st2 (gss @ [[]]) i" if "i < Suc ?L" for i
    proof (cases "i = ?L")
      case True
      then show ?thesis using new fresh_gpage(1,2) fresh_page_ok(4) [of "2 + int ?L"] lim by (simp add: gpage_at_def)
    next
      case False
      then have i: "i < ?L" using that by simp
      have same: "pages st2 GROUP_FORK (2 + int i) = pages st GROUP_FORK (2 + int i)" using i by (intro old) auto
      have "gpage_at n st gss i" using g i by (simp add: gstore_def)
      then show ?thesis using full [OF i] i unfolding gpage_at_def same by (auto simp: nth_append)
    qed
    moreover have "uint (pageCnt m GROUP_FORK + 1) = 2 + int ?L" using uint_add32 [of "pageCnt m GROUP_FORK" 1] cnt lim by simp
    moreover have "pages st2 GROUP_FORK k = None" if "2 + int (length (gss @ [[]])) \<le> k" for k
      using old [of k] g that by (simp add: gstore_def)
    moreover have "pages st2 GROUP_FORK 1 \<noteq> None" using e(2) by simp
    ultimately have "gstore n st2 ?m (gss @ [[]])" unfolding gstore_def by (simp del: One_nat_def)
    then show ?thesis
      using st1 none e sz new fresh_gpage(3) [OF n]
      by (intro exI [of _ "gss @ [[]]"] exI [of _ st2] exI [of _ ?m]) (simp add: GetSpacePage_def PAGE_HEAD_PAGE_NUM_def)
  qed
qed

definition new_group :: "int \<Rightarrow> nat \<Rightarrow> int list" where
  "new_group c n = map (\<lambda>i. c + 1 + int i) [0 ..< n]"

lemma length_new_group [simp]: "length (new_group c n) = n"
  by (simp add: new_group_def)

lemma set_new_group: "set (new_group c n) = {c <.. c + int n}"
proof -
  have "k \<in> (\<lambda>i. c + 1 + int i) ` {0 ..< n}" if "c < k" "k \<le> c + int n" for k
    using that by (intro image_eqI [of _ _ "nat (k - c - 1)"]) auto
  then show ?thesis by (auto simp: new_group_def)
qed

lemma distinct_new_group: "distinct (new_group c n)"
  by (simp add: new_group_def distinct_map inj_on_def)

lemma member_data_group: "member_data (c + 1) n = enc_group (new_group c n)"
  unfolding member_data_def enc_group_def by (intro arg_cong [of _ _ concat] map_cong) (simp_all add: enc_member_def new_group_def)

definition add_group :: "int list \<Rightarrow> int list list list \<Rightarrow> int list list list" where
  "add_group g gss = butlast gss @ [last gss @ [g]]"

lemma gstore_put:
  assumes g: "gstore n st m gss" and ne: "gss \<noteq> []" and p': "gpage_ok p' (last gss @ [g])" "gspace p' (Suc (length (last gss)))" "pageNum p' = 1 + int (length gss)"
    and pg: "pages st' GROUP_FORK = (pages st GROUP_FORK)(1 + int (length gss) \<mapsto> p', 1 \<mapsto> h)" and m: "pageCnt m' GROUP_FORK = pageCnt m GROUP_FORK"
  shows "gstore n st' m' (add_group g gss)"
proof -
  let ?L = "length gss"
  have len: "length (add_group g gss) = ?L" using ne by (simp add: add_group_def)
  have "gpage_at n st' (add_group g gss) i" if "i < ?L" for i
  proof (cases "Suc i = ?L")
    case True
    have "add_group g gss ! i = last gss @ [g]" using True ne by (auto simp: add_group_def nth_append)
    moreover have "pages st' GROUP_FORK (2 + int i) = Some p'" using True ne unfolding pg by auto
    ultimately show ?thesis using p' len True by (auto simp: gpage_at_def)
  next
    case False
    then have i: "Suc i < ?L" using that by simp
    have "add_group g gss ! i = gss ! i" using i by (auto simp: add_group_def nth_append nth_butlast)
    moreover have "pages st' GROUP_FORK (2 + int i) = pages st GROUP_FORK (2 + int i)" using i unfolding pg by simp
    ultimately show ?thesis using g that len by (simp add: gstore_def gpage_at_def)
  qed
  then show ?thesis using g len m by (simp add: gstore_def pg)
qed

lemma InsertGroupItem_ok:
  assumes g: "gstore n st m gss" and n: "0 < n" "n \<le> 252" and lim: "int (length gss) < 2 ^ 31 - 2" "1 \<le> c" "c + int n < 2 ^ 31"
    and p: "pages st MAIN_FORK (c + int n) = Some (fresh_page (c + int n))"
  shows "\<exists>gss1 st' m'. InsertGroupItem (c + int n) (int n) st m = Some (0, st', m') \<and> gss1 \<noteq> [] \<and> (gss1 = gss \<or> gss1 = gss @ [[]]) \<and>
     gstore n st' m' (add_group (new_group c n) gss1) \<and> pages st' MAIN_FORK = pages st MAIN_FORK \<and> pageCnt m' MAIN_FORK = pageCnt m MAIN_FORK"
proof -
  let ?g = "new_group c n"
  have num: "pageNum (fresh_page (c + int n)) = c + int n" using lim by (intro fresh_page_ok) auto
  let ?len = "of_nat (16 * n) OR ITEM_VALID_MASK :: i32"
  have small: "16 * n < 2 ^ 20" using n by simp
  have sz: "sint (GetItemSize ?len) = 16 * int n" unfolding group_item_len(1) [OF small] using sint_of_nat32 [of "16 * n"] small by simp
  let ?m = "m\<lparr>last_group_id := last_group_id m + 1\<rparr>"
  let ?it = "\<lparr>it_offset = 0, it_len = ?len, it_rowid = ucast (last_group_id m + 1)\<rparr> :: ItemData"
  have "gstore n st ?m gss" by (rule gstore_cong [OF g]) simp_all
  from GetSpacePage_group [OF this n(2) lim(1)] obtain gss1 st1 m1 q where
    s: "GetSpacePage (16 + 16 * int n) PAGE_NEW GROUP_FORK st ?m = Some (Some (1 + int (length gss1)), st1, m1)" "gss1 \<noteq> []"
      "gss1 = gss \<or> gss1 = gss @ [[]]" "gstore n st1 m1 gss1" "pages st1 MAIN_FORK = pages st MAIN_FORK"
      "m1 = ?m\<lparr>pageCnt := (pageCnt ?m)(GROUP_FORK := pageCnt m1 GROUP_FORK)\<rparr>"
      "pages st1 GROUP_FORK (1 + int (length gss1)) = Some q" "HasFreeSpace q (16 + 16 * int n)" by blast
  let ?N = "1 + int (length gss1)"
  have last: "gss1 ! (length gss1 - 1) = last gss1" "2 + int (length gss1 - 1) = ?N" using s(2) by (simp_all add: last_conv_nth) (cases gss1; simp)
  have "gpage_at n st1 gss1 (length gss1 - 1)" using s(2,4) by (simp add: gstore_def)
  then have q: "gpage_ok q (last gss1)" "gspace q (length (last gss1))" "pageNum q = ?N"
    unfolding gpage_at_def last using s(7) by auto
  obtain q' where q': "put_group ?it (enc_group ?g) q = Some q'" "gpage_ok q' (last gss1 @ [?g])" "gspace q' (Suc (length (last gss1)))" "pageNum q' = ?N"
    using put_group_ok [OF q(1,2), of ?g ?it] s(8) q(3) by auto
  let ?st2 = "ReleasePage GROUP_FORK ?N (UnLockPage GROUP_FORK ?N (WritePage GROUP_FORK ?N q' (LockPage GROUP_FORK ?N st1)))"
  obtain h where "pages ?st2 GROUP_FORK 1 = Some h" using s(2,4) by (auto simp: gstore_def)
  from UpdateMetaData_pages [OF this, of m1] obtain st3 where st3: "UpdateMetaData GROUP_FORK m1 ?st2 = Some st3"
    "pages st3 = (pages ?st2)(GROUP_FORK := (pages ?st2 GROUP_FORK)(1 \<mapsto> UpdateMetaPage GROUP_FORK m1 h))" by blast
  have "InsertGroupItem (c + int n) (int n) st m = Some (0, st3, m1)"
    using p num lim(2) s(1,7) q'(1) st3(1) member_data_group [of c n] sz
    by (simp add: InsertGroupItem_def PAGE_HEAD_PAGE_NUM_def atomic_fetch_add_def ITEM_SIZE_def)
  moreover have "gstore n st3 m1 (add_group ?g gss1)"
    by (rule gstore_put [OF s(4,2) q'(2-4)]) (use st3(2) in simp_all)
  moreover have "pages st3 MAIN_FORK = pages st MAIN_FORK" using st3(2) s(5) by simp
  moreover have "pageCnt m1 MAIN_FORK = pageCnt m MAIN_FORK" by (subst s(6)) simp
  ultimately show ?thesis using s(2,3) by blast
qed

section \<open>The search for a group with space\<close>

lemma ReleasePageList_clears:
  "length xs \<le> num \<Longrightarrow> fst (ReleasePageList (map Some xs @ replicate r None) num st) = replicate (length xs + r) None"
proof (induction xs arbitrary: num st)
  case Nil
  then show ?case by (cases r) simp_all
next
  case (Cons x xs)
  show ?case
  proof (cases "num \<le> 1")
    case True
    then show ?thesis using Cons.prems by (cases xs) auto
  next
    case False
    then show ?thesis using Cons.IH [of "num - 1"] Cons.prems by (simp add: Let_def case_prod_beta)
  qed
qed

definition tgroup :: "nat \<Rightarrow> tblst \<Rightarrow> int list \<Rightarrow> bool" where
  "tgroup n st g \<longleftrightarrow> length g = n \<and> group_pages_ok st g \<and> (\<forall>p \<in> set (cpages (pages st) [0 ..< n] g). page_ok p) \<and> same_items (cpages (pages st) [0 ..< n] g)"

lemma table_ok_groups: "table_ok n st gss \<longleftrightarrow> gfile st gss \<and> (\<forall>g \<in> set (concat gss). tgroup n st g)"
  by (auto simp: table_ok_def tgroup_def)

lemma tgroup_pages: "tgroup n st g \<Longrightarrow> pages st' = pages st \<Longrightarrow> tgroup n st' g"
  by (simp add: tgroup_def group_pages_ok_def)

lemma member_off_group:
  assumes "take (16 * length ns) bs = enc_group ns" "\<forall>n \<in> set ns. 0 \<le> n \<and> n < 2 ^ 31"
  shows "j + k \<le> length ns \<Longrightarrow> member_off bs k (16 * j) = Some (16 * (j + k))"
proof (induction k arbitrary: j)
  case (Suc k)
  have "memNum_at bs (16 * j) = Some 1" using Suc.prems assms(2) by (intro member_reads [OF assms(1)]) auto
  then show ?case using Suc.IH [of "Suc j"] Suc.prems by (simp add: MEMBER_DATA_SIZE_def PAGE_OFFSET_SIZE_def)
qed simp

lemma GetFreeSpaceMemberPage_ok:
  assumes g: "tgroup n st g" "gi_members gi = enc_group g" and i: "i < n"
  shows "\<exists>st'. pages st' = pages st \<and>
     GetFreeSpaceMemberPage sz gi (int i) st = Some (if HasFreeSpace (the (pages st MAIN_FORK (g ! i))) sz then Some (g ! i) else None, st')"
proof -
  have bs: "take (16 * length g) (gi_members gi) = enc_group g" using g(2) by simp
  have len: "length g = n" and gp: "group_pages_ok st g" using g(1) by (simp_all add: tgroup_def)
  then have r: "0 < g ! i" "g ! i < 2 ^ 31" "pages st MAIN_FORK (g ! i) \<noteq> None" using i by (simp_all add: group_pages_ok_def)
  have nn: "\<forall>n \<in> set g. 0 \<le> n \<and> n < 2 ^ 31" using gp by (auto simp: group_pages_ok_def)
  have off: "member_off (gi_members gi) i 0 = Some (16 * i)" using member_off_group [OF bs nn, of 0 i] i len by simp
  have m: "memNum_at (gi_members gi) (16 * i) = Some 1" "member_pageno (gi_members gi) (16 * i) 0 = Some (g ! i)"
    using member_reads [OF bs, of i] i len r by auto
  obtain p where p: "pages st MAIN_FORK (g ! i) = Some p" using r(3) by auto
  obtain st1 where st1: "GetPageByIndex MAIN_FORK (g ! i) st = (Some (g ! i), st1)" "pages st1 = pages st"
    using GetPageByIndex_Some [OF r(1,3)] by blast
  show ?thesis using off m p st1 r(1)
    by (cases "HasFreeSpace p sz") (auto simp: GetFreeSpaceMemberPage_def INVALID_PAGE_NUM_def)
qed

text \<open>A row of \<open>n\<close> columns and the group pages that have room for it.\<close>

definition row_cols :: "nat \<Rightarrow> TableRowData \<Rightarrow> RowColumnData list \<Rightarrow> bool" where
  "row_cols n ins cs \<longleftrightarrow> 0 < n \<and> length cs = n \<and> columnData ins = map Some cs \<and> sint (tr_num ins) = int n \<and>
     (\<forall>i < n. attrindex (cs ! i) = of_nat i \<and> col_ok (cs ! i) \<and> rc_size (cs ! i) \<noteq> 0 \<and> sint (rc_size (cs ! i)) + 24 < 4056) \<and> n \<le> 252"

definition has_room :: "tblst \<Rightarrow> RowColumnData list \<Rightarrow> int list \<Rightarrow> bool" where
  "has_room st cs g \<longleftrightarrow> list_all2 room (cpages (pages st) [0 ..< length cs] g) cs"

lemma has_room_nth: "has_room st cs g \<longleftrightarrow> (\<forall>i < length cs. room (the (pages st MAIN_FORK (g ! i))) (cs ! i))"
  by (simp add: has_room_def list_all2_conv_all_nth cpages_def)

lemma space_cols_ok:
  assumes g: "tgroup n st g" "gi_members gi = enc_group g" and cs: "row_cols n ins cs"
    and i: "i + k = n" "\<forall>j < i. room (the (pages st MAIN_FORK (g ! j))) (cs ! j)" "n \<le> K" and st1: "pages st1 = pages st"
  shows "\<exists>st'. pages st' = pages st \<and> space_cols gi (map Some (drop i cs)) i k (map Some (take i g) @ replicate (K - i) None) st1 =
     (if has_room st cs g then Some (True, map Some g @ replicate (K - n) None, st') else Some (False, replicate K None, st'))"
  using i st1
proof (induction k arbitrary: i st1)
  case 0
  have "length g = n" "length cs = n" using g(1) cs by (simp_all add: tgroup_def row_cols_def)
  then show ?case using 0 by (simp add: has_room_nth)
next
  case (Suc k)
  have len: "length g = n" "length cs = n" using g(1) cs by (simp_all add: tgroup_def row_cols_def)
  have i: "i < n" using Suc.prems(1) by simp
  have d: "drop i cs = cs ! i # drop (Suc i) cs" using i len by (simp add: Cons_nth_drop_Suc)
  have at: "sint (attrindex (cs ! i)) = int i" using cs i sint_of_nat32 [of i] by (simp add: row_cols_def)
  obtain st2 where st2: "pages st2 = pages st1"
    "GetFreeSpaceMemberPage (sint (rc_size (cs ! i)) + int (TABLE_ROW_HEADER_SIZE + ITEM_SIZE)) gi (int i) st1 =
       Some (if room (the (pages st MAIN_FORK (g ! i))) (cs ! i) then Some (g ! i) else None, st2)"
    using GetFreeSpaceMemberPage_ok [OF tgroup_pages [OF g(1) Suc.prems(4)] g(2) i] Suc.prems(4) unfolding room_def by metis
  show ?case
  proof (cases "room (the (pages st MAIN_FORK (g ! i))) (cs ! i)")
    case True
    let ?pl = "map Some (take i g) @ replicate (K - i) None"
    have r: "replicate (K - i) None = None # replicate (K - Suc i) (None :: int option)" using i Suc.prems(3) by (simp flip: replicate_Suc add: Suc_diff_Suc)
    have pl: "arr_set ?pl (int i) (Some (g ! i)) = Some (map Some (take (Suc i) g) @ replicate (K - Suc i) None)"
      using i len Suc.prems(3) unfolding r by (simp add: arr_set_def take_Suc_conv_app_nth list_update_append)
    have "\<forall>j < Suc i. room (the (pages st MAIN_FORK (g ! j))) (cs ! j)" using Suc.prems(2) True by (auto simp: less_Suc_eq)
    then obtain st' where "pages st' = pages st" "space_cols gi (map Some (drop (Suc i) cs)) (Suc i) k (map Some (take (Suc i) g) @ replicate (K - Suc i) None) st2 =
       (if has_room st cs g then Some (True, map Some g @ replicate (K - n) None, st') else Some (False, replicate K None, st'))"
      using Suc.IH [of "Suc i" st2] Suc.prems st2(1) by auto
    then show ?thesis using d at st2(2) True pl by auto
  next
    case False
    then have no: "\<not> has_room st cs g" using i len by (auto simp: has_room_nth)
    let ?r = "ReleasePageList (map Some (take i g) @ replicate (K - i) None) (i + Suc k) st2"
    have "fst ?r = replicate K None" using ReleasePageList_clears [of "take i g" "i + Suc k" "K - i" st2] i len Suc.prems(3) by simp
    moreover have "pages (snd ?r) = pages st" using ReleasePageList_pages st2(1) Suc.prems(4) by metis
    ultimately show ?thesis using d at st2(2) False no
      by (intro exI [of _ "snd ?r"]) (simp add: case_prod_beta Let_def prod_eq_iff)
  qed
qed

text \<open>The groups that an insertion still considers: the current one, if it has not been found full, and those after it.\<close>

definition resumes :: "int list list list \<Rightarrow> SearchPageInfo \<Rightarrow> bool" where
  "resumes gss sp \<longleftrightarrow> sp_page sp = None \<and> sp_pageNum sp = 2 + int (length gss - 1)"

definition ins_base :: "nat \<Rightarrow> InsertInfo \<Rightarrow> bool" where
  "ins_base n sc \<longleftrightarrow> area_ok n (ins_group sc) \<and> int n \<le> ins_pageListNum sc \<and>
     columnData (rowsData (ins_row sc)) \<noteq> [] \<and> \<not> GetItemRedirect (it_len (rd_item (ins_row sc)))"

definition ins_left :: "int list list list \<Rightarrow> InsertInfo \<Rightarrow> int list list \<Rightarrow> bool" where
  "ins_left gss sc gs \<longleftrightarrow>
     (if isNoSpace sc then groups_left gss (ins_search sc) gs \<or> (gss = [] \<and> gs = [] \<and> resumes gss (ins_search sc))
      else \<exists>g gs'. gs = g # gs' \<and> g \<in> set (concat gss) \<and> gi_members (ins_group sc) = enc_group g \<and> groups_left gss (ins_search sc) gs')"

definition ins_at :: "nat \<Rightarrow> int list list list \<Rightarrow> InsertInfo \<Rightarrow> int list list \<Rightarrow> bool" where
  "ins_at n gss sc gs \<longleftrightarrow> ins_base n sc \<and> ins_left gss sc gs \<and> (\<exists>K \<ge> n. ins_pageList sc = replicate K None)"

text \<open>The group found, with its pages in the list of the pages.\<close>

definition ins_has :: "nat \<Rightarrow> int list list list \<Rightarrow> InsertInfo \<Rightarrow> int list \<Rightarrow> int list list \<Rightarrow> bool" where
  "ins_has n gss sc g gs \<longleftrightarrow> ins_base n sc \<and> \<not> isNoSpace sc \<and> ins_left gss sc (g # gs) \<and> (\<exists>K \<ge> n. ins_pageList sc = map Some g @ replicate (K - n) None)"

lemma space_cols_row:
  assumes "tgroup n st g" "gi_members gi = enc_group g" "row_cols n ins cs" "n \<le> K"
  shows "\<exists>st'. pages st' = pages st \<and> space_cols gi (columnData ins) 0 (nat (sint (tr_num ins))) (replicate K None) st =
     (if has_room st cs g then Some (True, map Some g @ replicate (K - n) None, st') else Some (False, replicate K None, st'))"
  using space_cols_ok [OF assms(1-3), of 0 n K st] assms(3,4) by (auto simp: row_cols_def)

lemma has_room_pages: "pages st' = pages st \<Longrightarrow> has_room st' cs g = has_room st cs g"
  by (simp add: has_room_def)

lemma GetSpaceGroupPage_unfold:
  assumes "ins_base n sc" "\<not> isNoSpace sc" "gi_members (ins_group sc) = enc_group g" "ins_pageList sc = replicate K None" "n \<le> K"
    and "tgroup n st g" "row_cols n ins cs"
  shows "\<exists>st'. pages st' = pages st \<and> GetSpaceGroupPage ins sc st =
     (if has_room st cs g then Some (0, sc\<lparr>ins_pageList := map Some g @ replicate (K - n) None\<rparr>, st') else GetSpaceGroupPage ins (sc\<lparr>isNoSpace := True\<rparr>) st')"
proof -
  obtain st' where st': "pages st' = pages st" "space_cols (ins_group sc) (columnData ins) 0 (nat (sint (tr_num ins))) (ins_pageList sc) st =
     (if has_room st cs g then Some (True, map Some g @ replicate (K - n) None, st') else Some (False, replicate K None, st'))"
    using space_cols_row [OF assms(6,3,7,5)] assms(4) by auto
  show ?thesis
  proof (cases "has_room st cs g")
    case True
    then show ?thesis using st' assms(2) by (intro exI [of _ st']) (subst GetSpaceGroupPage.simps, simp)
  next
    case False
    have "sc\<lparr>ins_pageList := replicate K None, isNoSpace := True\<rparr> = sc\<lparr>isNoSpace := True\<rparr>" using assms(4) by (cases sc) simp
    then show ?thesis using False st' assms(2) by (intro exI [of _ st']) (subst GetSpaceGroupPage.simps, simp)
  qed
qed

lemma GetSpaceGroupPage_found:
  assumes "isNoSpace sc" "GetGroupInfo (ins_search sc) (ins_group sc) st = Some (1, sp, gi, st1)"
  shows "GetSpaceGroupPage ins sc st = GetSpaceGroupPage ins (sc\<lparr>ins_search := sp, ins_group := gi, isNoSpace := False\<rparr>) st1"
  using assms by (subst GetSpaceGroupPage.simps, subst (2) GetSpaceGroupPage.simps) simp

definition space_found :: "nat \<Rightarrow> int list list list \<Rightarrow> tblst \<Rightarrow> int option list \<Rightarrow> int list list \<Rightarrow> (int \<times> InsertInfo \<times> tblst) option \<Rightarrow> bool" where
  "space_found n gss st pl gs res \<longleftrightarrow> (\<exists>sc' st'. pages st' = pages st \<and>
     (case gs of
        [] \<Rightarrow> res = Some (-1, sc', st') \<and> isNoSpace sc' \<and> resumes gss (ins_search sc') \<and> ins_base n sc' \<and> ins_pageList sc' = pl
      | g # gs' \<Rightarrow> res = Some (0, sc', st') \<and> ins_has n gss sc' g gs'))"

lemma GetSpaceGroupPage_finds:
  assumes tab: "table_ok n st gss" and cs: "row_cols n ins cs" and at: "ins_at n gss sc gs"
  shows "space_found n gss st (ins_pageList sc) (dropWhile (\<lambda>g. \<not> has_room st cs g) gs) (GetSpaceGroupPage ins sc st)"
  using tab at
proof (induction gs arbitrary: sc st rule: measure_induct_rule [of length])
  case (less gs)
  have n0: "0 < n" "0 < sint (tr_num ins)" using cs by (simp_all add: row_cols_def)
  have groups: "tgroup n st g" if "g \<in> set (concat gss)" for g using less.prems(1) that unfolding table_ok_groups by blast
  obtain K where K: "n \<le> K" "ins_pageList sc = replicate K None" and base: "ins_base n sc" and left: "ins_left gss sc gs"
    using less.prems(2) by (auto simp: ins_at_def)
  have step: "space_found n gss st (replicate K None) (dropWhile (\<lambda>g. \<not> has_room st cs g) (g # gs1)) (GetSpaceGroupPage ins sc1 st1)"
    if sc1: "ins_base n sc1" "\<not> isNoSpace sc1" "gi_members (ins_group sc1) = enc_group g" "groups_left gss (ins_search sc1) gs1" "ins_pageList sc1 = replicate K None"
      and g: "g \<in> set (concat gss)" "length gs1 < length gs" and st1: "pages st1 = pages st" for sc1 st1 g gs1
  proof -
    have tg: "tgroup n st1 g" by (rule tgroup_pages [OF groups [OF g(1)] st1])
    obtain st2 where st2: "pages st2 = pages st1" "GetSpaceGroupPage ins sc1 st1 =
       (if has_room st1 cs g then Some (0, sc1\<lparr>ins_pageList := map Some g @ replicate (K - n) None\<rparr>, st2) else GetSpaceGroupPage ins (sc1\<lparr>isNoSpace := True\<rparr>) st2)"
      using GetSpaceGroupPage_unfold [OF sc1(1-3,5) K(1) tg cs] by blast
    have room: "has_room st2 cs = has_room st cs" "has_room st1 cs = has_room st cs" using has_room_pages st1 st2(1) by (simp_all add: fun_eq_iff)
    show ?thesis
    proof (cases "has_room st cs g")
      case True
      have "ins_has n gss (sc1\<lparr>ins_pageList := map Some g @ replicate (K - n) None\<rparr>) g gs1"
        using sc1 K(1) g(1) by (auto simp: ins_has_def ins_left_def ins_base_def)
      then show ?thesis using st2 True st1 room(2) by (simp add: space_found_def)
    next
      case False
      let ?sc = "sc1\<lparr>isNoSpace := True\<rparr>"
      have at: "ins_at n gss ?sc gs1" using sc1 K by (auto simp: ins_at_def ins_base_def ins_left_def)
      have "table_ok n st2 gss" using table_ok_pages [OF less.prems(1)] st1 st2(1) by simp
      from less.IH [OF g(2) this at] have "space_found n gss st2 (replicate K None) (dropWhile (\<lambda>g. \<not> has_room st cs g) gs1) (GetSpaceGroupPage ins ?sc st2)"
        using sc1(5) room by simp
      then show ?thesis using False st2 room(2) st1 by (simp add: space_found_def)
    qed
  qed
  show ?case
  proof (cases "isNoSpace sc")
    case False
    then obtain g gs' where g: "gs = g # gs'" "g \<in> set (concat gss)" "gi_members (ins_group sc) = enc_group g" "groups_left gss (ins_search sc) gs'"
      using left by (auto simp: ins_left_def)
    have "length gs' < length gs" using g(1) by simp
    from step [OF base False g(3,4) K(2) g(2) this refl] show ?thesis using g(1) K(2) by simp
  next
    case True
    have gf: "gfile st gss" using less.prems(1) by (simp add: table_ok_def)
    show ?thesis
    proof (cases "groups_left gss (ins_search sc) gs")
      case False
      then have e: "gss = []" "gs = []" "resumes gss (ins_search sc)" using left True by (auto simp: ins_left_def)
      then have "GetGroupInfo (ins_search sc) (ins_group sc) st = Some (-1, (ins_search sc)\<lparr>sp_page := None\<rparr>, ins_group sc, st)"
        using gf GetPageByIndex_None [of st GROUP_FORK 2] by (simp add: GetGroupInfo_def resumes_def gfile_def)
      then have "GetSpaceGroupPage ins sc st = Some (-1, sc\<lparr>ins_search := (ins_search sc)\<lparr>sp_page := None\<rparr>, ins_group := ins_group sc, isNoSpace := True\<rparr>, st)"
        using True n0(2) by (subst GetSpaceGroupPage.simps) simp
      then show ?thesis using e base by (simp add: space_found_def resumes_def ins_base_def)
    next
      case gl: True
      have "found_group n st gss gs (GetGroupInfo (ins_search sc) (ins_group sc) st)"
        using less.prems(1) base by (intro GetGroupInfo_finds [OF gf gl]) (auto simp: ins_base_def table_ok_def)
      then obtain sp gi st1 where st1: "pages st1 = pages st" "area_ok n gi"
        and res: "case gs of [] \<Rightarrow> GetGroupInfo (ins_search sc) (ins_group sc) st = Some (0, sp, gi, st1) \<and> search_ended gss sp
          | g # gs' \<Rightarrow> GetGroupInfo (ins_search sc) (ins_group sc) st = Some (1, sp, gi, st1) \<and> groups_left gss sp gs' \<and> gi_members gi = enc_group g"
        unfolding found_group_def by blast
      show ?thesis
      proof (cases gs)
        case Nil
        have "gss \<noteq> []" using gl by (auto simp: groups_left_def)
        then have "resumes gss sp" using res Nil by (cases gss) (auto simp: search_ended_def resumes_def)
        moreover have "GetSpaceGroupPage ins sc st = Some (-1, sc\<lparr>ins_search := sp, ins_group := gi, isNoSpace := True\<rparr>, st1)"
          using True n0(2) res Nil by (subst GetSpaceGroupPage.simps) simp
        ultimately show ?thesis using Nil base st1 by (simp add: space_found_def ins_base_def)
      next
        case (Cons g gs')
        let ?sc = "sc\<lparr>ins_search := sp, ins_group := gi, isNoSpace := False\<rparr>"
        have r: "GetGroupInfo (ins_search sc) (ins_group sc) st = Some (1, sp, gi, st1)" "groups_left gss sp gs'" "gi_members gi = enc_group g" using res Cons by auto
        have eq: "GetSpaceGroupPage ins sc st = GetSpaceGroupPage ins ?sc st1" by (rule GetSpaceGroupPage_found [OF True r(1)])
        have g: "g \<in> set (concat gss)" using groups_left_set [OF gl, of g] Cons by auto
        have "space_found n gss st (replicate K None) (dropWhile (\<lambda>g. \<not> has_room st cs g) (g # gs')) (GetSpaceGroupPage ins ?sc st1)"
          by (rule step) (use r(2,3) g Cons K(2) st1 base in \<open>simp_all add: ins_base_def\<close>)
        then show ?thesis unfolding eq Cons K(2) .
      qed
    qed
  qed
qed

section \<open>A table with space to grow\<close>

definition store_ok :: "nat \<Rightarrow> tblst \<Rightarrow> TblMeta \<Rightarrow> int list list list \<Rightarrow> bool" where
  "store_ok n st m gss \<longleftrightarrow> gstore n st m gss \<and> (\<forall>g \<in> set (concat gss). tgroup n st g) \<and> pages st MAIN_FORK 1 \<noteq> None \<and>
     1 \<le> uint (pageCnt m MAIN_FORK) \<and> (\<forall>k \<in> set (concat (concat gss)). 1 < k \<and> k \<le> uint (pageCnt m MAIN_FORK)) \<and> distinct (concat (concat gss))"

lemma store_ok_table: "store_ok n st m gss \<Longrightarrow> table_ok n st gss"
  by (auto simp: store_ok_def table_ok_groups dest: gstore_gfile)

lemma store_ok_cong: "store_ok n st m gss \<Longrightarrow> pages st' = pages st \<Longrightarrow> pageCnt m' = pageCnt m \<Longrightarrow> store_ok n st' m' gss"
  using gstore_cong [of n st m gss st' m'] tgroup_pages [of n st _ st'] by (auto simp: store_ok_def)

lemma cpages_cong: "(\<And>k. k \<in> set g \<Longrightarrow> pgs' MAIN_FORK k = pgs MAIN_FORK k) \<Longrightarrow> \<forall>c \<in> set cs. c < length g \<Longrightarrow> cpages pgs' cs g = cpages pgs cs g"
  by (simp add: cpages_def)

lemma tgroup_cong:
  assumes "tgroup n st g" "\<And>k. k \<in> set g \<Longrightarrow> pages st' MAIN_FORK k = pages st MAIN_FORK k"
  shows "tgroup n st' g"
proof -
  have "cpages (pages st') [0 ..< n] g = cpages (pages st) [0 ..< n] g" using assms by (intro cpages_cong) (auto simp: tgroup_def)
  then show ?thesis using assms by (simp add: tgroup_def group_pages_ok_def)
qed

lemma rows_of_cong:
  assumes "\<And>k. k \<in> set (concat gs) \<Longrightarrow> pgs' MAIN_FORK k = pgs MAIN_FORK k" "\<forall>g \<in> set gs. length g = n" "columns_ok n cs"
  shows "rows_of V pgs' cs gs = rows_of V pgs cs gs"
proof -
  have "cpages pgs' cs g = cpages pgs cs g" if g: "g \<in> set gs" for g
  proof (rule cpages_cong)
    show "pgs' MAIN_FORK k = pgs MAIN_FORK k" if "k \<in> set g" for k using assms(1) [of k] g that by auto
    show "\<forall>c \<in> set cs. c < length g" using assms(2,3) g by (auto simp: columns_ok_def)
  qed
  then show ?thesis by (simp add: rows_of_def cong: map_cong)
qed

lemma concat_add_group: "gss \<noteq> [] \<Longrightarrow> concat (add_group g gss) = concat gss @ [g]"
  by (induction gss rule: rev_induct) (simp_all add: add_group_def)

lemma tgroup_fresh:
  assumes "\<And>k. k \<in> set g \<Longrightarrow> 0 < k \<and> k < 2 ^ 31 \<and> pages st MAIN_FORK k = Some (fresh_page k)" "length g = n"
  shows "tgroup n st g" "\<And>V cs. columns_ok n cs \<Longrightarrow> rows_of V (pages st) cs [g] = []"
proof -
  have cp: "cpages (pages st) cs g = map (\<lambda>c. fresh_page (g ! c)) cs" if "\<forall>c \<in> set cs. c < n" for cs
    using that assms by (simp add: cpages_def)
  have "cpages (pages st) [0 ..< n] g = map (\<lambda>c. fresh_page (g ! c)) [0 ..< n]" by (rule cp) simp
  then show "tgroup n st g" using assms by (auto simp: tgroup_def group_pages_ok_def same_items_def fresh_page_ok)
  show "rows_of V (pages st) cs [g] = []" if "columns_ok n cs" for V cs
  proof -
    have "cpages (pages st) cs g = map (\<lambda>c. fresh_page (g ! c)) cs" "cs \<noteq> []" using that by (auto simp: columns_ok_def intro!: cp)
    then show ?thesis by (simp add: rows_of_def seen_rows_def fresh_page_ok)
  qed
qed

text \<open>An extension adds an empty group at the end.\<close>

lemma extend_store:
  assumes ok: "store_ok n st m gss" and n: "0 < n" "n \<le> 252" and lim: "int (length gss) < 2 ^ 31 - 2" "uint (pageCnt m MAIN_FORK) + int n < 2 ^ 31"
  shows "\<exists>k st1 m1 st' m' gss1. ExtensionTbl MAIN_FORK (int n) st m = Some (Some k, st1, m1) \<and> InsertGroupItem k (int n) st1 m1 = Some (0, st', m') \<and>
     gss1 \<noteq> [] \<and> (gss1 = gss \<or> gss1 = gss @ [[]]) \<and> store_ok n st' m' (add_group (new_group (uint (pageCnt m MAIN_FORK)) n) gss1) \<and>
     uint (pageCnt m' MAIN_FORK) = uint (pageCnt m MAIN_FORK) + int n \<and>
     (\<forall>k. 1 < k \<longrightarrow> k \<le> uint (pageCnt m MAIN_FORK) \<longrightarrow> pages st' MAIN_FORK k = pages st MAIN_FORK k) \<and>
     (\<forall>k \<in> set (new_group (uint (pageCnt m MAIN_FORK)) n). pages st' MAIN_FORK k = Some (fresh_page k))"
proof -
  let ?c = "uint (pageCnt m MAIN_FORK)"
  let ?g = "new_group ?c n"
  have c1: "1 \<le> ?c" using ok by (simp add: store_ok_def)
  obtain h where h: "pages st MAIN_FORK 1 = Some h" using ok by (auto simp: store_ok_def)
  let ?m = "m\<lparr>pageCnt := (pageCnt m)(MAIN_FORK := pageCnt m MAIN_FORK + of_nat n)\<rparr>"
  have "n \<le> 512" using n by simp
  from ExtensionTbl_pages [OF n(1) this c1 lim(2) h] obtain st1 h' where e: "ExtensionTbl MAIN_FORK (int n) st m = Some (Some (?c + int n), st1, ?m)"
    "pages st1 = (pages st)(MAIN_FORK := (with_new (pages st MAIN_FORK) ?c (int n))(1 \<mapsto> h'))" by blast
  have new1: "pages st1 MAIN_FORK k = Some (fresh_page k)" if "k \<in> set ?g" for k
    using that c1 e(2) by (auto simp: set_new_group with_new_def)
  have old1: "pages st1 MAIN_FORK k = pages st MAIN_FORK k" if "1 < k" "k \<le> ?c" for k using that e(2) by (simp add: with_new_def)
  have "gstore n st1 ?m gss" using ok e(2) by - (rule gstore_cong [of n st m gss], simp_all add: store_ok_def)
  moreover have "pages st1 MAIN_FORK (?c + int n) = Some (fresh_page (?c + int n))" using n(1) by (intro new1) (simp add: set_new_group)
  ultimately obtain gss1 st' m' where i: "InsertGroupItem (?c + int n) (int n) st1 ?m = Some (0, st', m')" "gss1 \<noteq> []" "gss1 = gss \<or> gss1 = gss @ [[]]"
     "gstore n st' m' (add_group ?g gss1)" "pages st' MAIN_FORK = pages st1 MAIN_FORK" "pageCnt m' MAIN_FORK = pageCnt ?m MAIN_FORK"
    using InsertGroupItem_ok [OF _ n lim(1) c1 lim(2)] by blast
  have cnt: "uint (pageCnt m' MAIN_FORK) = ?c + int n" using i(6) uint_add32 [OF lim(2)] by simp
  have con: "concat (add_group ?g gss1) = concat gss @ [?g]" using i(2,3) by (auto simp: concat_add_group)
  have rng: "1 < k \<and> k \<le> ?c" if "k \<in> set (concat (concat gss))" for k using ok that unfolding store_ok_def by blast
  have "tgroup n st' g" if "g \<in> set (concat gss)" for g
  proof (rule tgroup_cong)
    show "tgroup n st g" using ok that unfolding store_ok_def by blast
    show "pages st' MAIN_FORK k = pages st MAIN_FORK k" if "k \<in> set g" for k
    proof -
      have "k \<in> set (concat (concat gss))" using that \<open>g \<in> set (concat gss)\<close> by auto
      then show ?thesis using old1 [of k] i(5) rng by simp
    qed
  qed
  moreover have "tgroup n st' ?g"
    using new1 i(5) lim(2) c1 by (intro tgroup_fresh) (auto simp: set_new_group)
  moreover have "distinct (concat (concat gss @ [?g]))"
  proof -
    have "set (concat (concat gss)) \<inter> set ?g = {}" using rng by (fastforce simp: set_new_group simp del: set_concat)
    moreover have "distinct (concat (concat gss))" using ok by (simp add: store_ok_def)
    ultimately show ?thesis using distinct_new_group [of ?c n] by (simp del: set_concat)
  qed
  moreover have "\<forall>k \<in> set (concat (concat gss @ [?g])). 1 < k \<and> k \<le> ?c + int n"
  proof
    fix k
    assume "k \<in> set (concat (concat gss @ [?g]))"
    then consider "k \<in> set (concat (concat gss))" | "k \<in> set ?g" by auto
    then show "1 < k \<and> k \<le> ?c + int n" using rng c1 by cases (fastforce simp: set_new_group)+
  qed
  moreover have "pages st' MAIN_FORK 1 \<noteq> None" using i(5) e(2) by simp
  ultimately have "store_ok n st' m' (add_group ?g gss1)"
    using i(4) c1 cnt unfolding store_ok_def con by auto
  then show ?thesis using e(1) i cnt old1 new1 by (intro exI [of _ "?c + int n"] exI [of _ st1] exI [of _ ?m] exI [of _ st'] exI [of _ m'] exI [of _ gss1]) auto
qed

text \<open>The state between rows: \<open>c\<close> more pages fit in the main file.\<close>

lemma room_fresh: "row_cols n ins cs \<Longrightarrow> i < n \<Longrightarrow> room (fresh_page k) (cs ! i)"
  by (simp add: row_cols_def room_def HasFreeSpace_def fresh_page_space TABLE_ROW_HEADER_SIZE_def ITEM_SIZE_def)

lemma dropWhile_found: "x \<in> set xs \<Longrightarrow> P x \<Longrightarrow> \<exists>y ys. dropWhile (\<lambda>x. \<not> P x) xs = y # ys \<and> P y \<and> y \<in> set xs"
  by (induction xs) auto

lemma ins_has_member: "ins_has n gss sc g gs \<Longrightarrow> g \<in> set (concat gss)"
  by (auto simp: ins_has_def ins_left_def)

text \<open>The search ends with a group that has room, possibly a new one, and no row has changed.\<close>

definition found_space :: "nat \<Rightarrow> tblst \<Rightarrow> TblMeta \<Rightarrow> int list list list \<Rightarrow> RowColumnData list \<Rightarrow> (int \<times> InsertInfo \<times> tblst \<times> TblMeta) option \<Rightarrow> bool" where
  "found_space n st m gss cs res \<longleftrightarrow> (\<exists>sc' st' m' gss' g gs. res = Some (0, sc', st', m') \<and> store_ok n st' m' gss' \<and> ins_has n gss' sc' g gs \<and> has_room st' cs g \<and>
     int (length gss') \<le> int (length gss) + 1 \<and> uint (pageCnt m' MAIN_FORK) \<le> uint (pageCnt m MAIN_FORK) + int n \<and>
     (\<forall>V cols. columns_ok n cols \<longrightarrow> rows_of V (pages st') cols (concat gss') = rows_of V (pages st) cols (concat gss)))"

lemma find_space_ok:
  assumes ok: "store_ok n st m gss" and cs: "row_cols n ins cs" and at: "ins_at n gss sc gs"
    and lim: "int (length gss) < 2 ^ 31 - 2" "uint (pageCnt m MAIN_FORK) + int n < 2 ^ 31"
  shows "found_space n st m gss cs (find_space n ins sc st m)"
proof (cases "\<exists>g \<in> set gs. has_room st cs g")
  case True
  then obtain g gs' where d: "dropWhile (\<lambda>g. \<not> has_room st cs g) gs = g # gs'" "has_room st cs g" using dropWhile_found by metis
  from GetSpaceGroupPage_finds [OF store_ok_table [OF ok] cs at] obtain sc' st' where
    s: "pages st' = pages st" "GetSpaceGroupPage ins sc st = Some (0, sc', st')" "ins_has n gss sc' g gs'" by (auto simp: space_found_def d)
  have "find_space n ins sc st m = Some (0, sc', st', m)" using s(2) by (subst find_space.simps) simp
  then show ?thesis unfolding found_space_def
    using s(1,3) d(2) store_ok_cong [OF ok s(1) refl] has_room_pages [OF s(1)]
    by (intro exI [of _ sc'] exI [of _ st'] exI [of _ m] exI [of _ gss] exI [of _ g] exI [of _ gs']) simp
next
  case False
  have n: "0 < n" "n \<le> 252" using cs by (simp_all add: row_cols_def)
  let ?c = "uint (pageCnt m MAIN_FORK)"
  let ?g = "new_group ?c n"
  have d0: "dropWhile (\<lambda>g. \<not> has_room st cs g) gs = []" using False by simp
  obtain sc1 st1 where s: "pages st1 = pages st" "GetSpaceGroupPage ins sc st = Some (-1, sc1, st1)" "isNoSpace sc1" "resumes gss (ins_search sc1)"
      "ins_base n sc1" "ins_pageList sc1 = ins_pageList sc"
    using GetSpaceGroupPage_finds [OF store_ok_table [OF ok] cs at] unfolding d0 by (auto simp: space_found_def)
  let ?m = "StartExtensionTbl m"
  have pc: "pageCnt ?m = pageCnt m" by (simp add: StartExtensionTbl_def)
  have ok1: "store_ok n st1 ?m gss" by (rule store_ok_cong [OF ok s(1) pc])
  from extend_store [OF ok1 n lim(1), unfolded pc, OF lim(2)] obtain k st2 m2 st3 m3 gss1 where
    e: "ExtensionTbl MAIN_FORK (int n) st1 ?m = Some (Some k, st2, m2)" "InsertGroupItem k (int n) st2 m2 = Some (0, st3, m3)" "gss1 \<noteq> []"
      "gss1 = gss \<or> gss1 = gss @ [[]]" "store_ok n st3 m3 (add_group ?g gss1)" "uint (pageCnt m3 MAIN_FORK) = ?c + int n"
      "\<And>k. 1 < k \<Longrightarrow> k \<le> ?c \<Longrightarrow> pages st3 MAIN_FORK k = pages st1 MAIN_FORK k" "\<forall>k \<in> set ?g. pages st3 MAIN_FORK k = Some (fresh_page k)"
    by blast
  let ?gss = "add_group ?g gss1"
  let ?st = "ReleasePage MAIN_FORK k st3" and ?m3 = "EndExtensionTbl m3"
  have ok3: "store_ok n ?st ?m3 ?gss" by (rule store_ok_cong [OF e(5)]) (simp_all add: EndExtensionTbl_def)
  have con: "concat ?gss = concat gss @ [?g]" using e(3,4) by (auto simp: concat_add_group)
  have len: "length gss - 1 < length ?gss" "length ?gss \<le> Suc (length gss)" "length ?gss = length gss1" using e(3,4) by (auto simp: add_group_def)
  let ?gs = "concat (drop (length gss - 1) ?gss)"
  have left: "groups_left ?gss (ins_search sc1) ?gs" using s(4) len(1) by (auto simp: groups_left_def resumes_def)
  have "last ?gss \<in> set (drop (length gss - 1) ?gss)"
    using len(1) last_in_set [of "drop (length gss - 1) ?gss"] by simp
  moreover have "?g \<in> set (last ?gss)" by (simp add: add_group_def)
  ultimately have mem: "?g \<in> set ?gs" by auto
  have "has_room ?st cs ?g"
  proof -
    have "the (pages ?st MAIN_FORK (?g ! i)) = fresh_page (?g ! i)" if "i < n" for i using e(8) that by simp
    then show ?thesis using room_fresh [OF cs] cs by (simp add: has_room_nth row_cols_def)
  qed
  then obtain g gs' where d: "dropWhile (\<lambda>g. \<not> has_room ?st cs g) ?gs = g # gs'" "has_room ?st cs g" using dropWhile_found [OF mem] by metis
  have "ins_at n ?gss sc1 ?gs" using s(3,5,6) left at by (auto simp: ins_at_def ins_left_def)
  from GetSpaceGroupPage_finds [OF store_ok_table [OF ok3] cs this, unfolded d(1)] obtain sc4 st4 where
    f: "pages st4 = pages ?st" "GetSpaceGroupPage ins sc1 ?st = Some (0, sc4, st4)" "ins_has n ?gss sc4 g gs'" by (auto simp: space_found_def)
  have step: "find_space n ins sc st m = find_space n ins sc1 ?st ?m3" using s(2) e(1,2) by (subst find_space.simps) simp
  have "find_space n ins sc1 ?st ?m3 = Some (0, sc4, st4, ?m3)" using f(2) by (subst find_space.simps) simp
  moreover have "store_ok n st4 ?m3 ?gss" by (rule store_ok_cong [OF ok3 f(1) refl])
  moreover have "rows_of V (pages st4) cols (concat ?gss) = rows_of V (pages st) cols (concat gss)" if cols: "columns_ok n cols" for V cols
  proof -
    have rng: "1 < k \<and> k \<le> ?c" if "k \<in> set (concat (concat gss))" for k using ok that unfolding store_ok_def by blast
    have "\<forall>g \<in> set (concat gss). length g = n" using ok by (auto simp: store_ok_def tgroup_def)
    then have "rows_of V (pages st4) cols (concat gss) = rows_of V (pages st) cols (concat gss)"
      using e(7) s(1) f(1) rng cols by (intro rows_of_cong [of _ _ _ n]) (auto simp del: set_concat)
    moreover have pos: "0 < k" if "?c < k" for k using that uint_ge_0 [of "pageCnt m MAIN_FORK"] by linarith
    have "rows_of V (pages st4) cols [?g] = []"
      using e(8) f(1) lim(2) pos cols by (intro tgroup_fresh(2)) (auto simp: set_new_group)
    ultimately show ?thesis unfolding con by (simp add: rows_of_def)
  qed
  ultimately show ?thesis unfolding found_space_def step
    using f(1,3) d(2) has_room_pages [OF f(1)] len(2) e(6)
    by (intro exI [of _ sc4] exI [of _ st4] exI [of _ ?m3] exI [of _ ?gss] exI [of _ g] exI [of _ gs']) (simp add: EndExtensionTbl_def)
qed

section \<open>Writing a row\<close>

lemma write_group_ok:
  assumes "length ns = length cs" "length ps = length cs" "distinct ns" "\<forall>i < length ns. pages st MAIN_FORK (ns ! i) = Some (ps ! i)"
    and "insert_cols h ps (map Some cs) (length cs) row = Some (ps', row')"
  shows "\<exists>st'. write_group h ns (map Some cs) row st = Some (row', st') \<and> pages st' = (pages st)(MAIN_FORK := (pages st MAIN_FORK)(ns [\<mapsto>] ps'))"
  using assms
proof (induction ns arbitrary: cs ps ps' row st)
  case Nil
  then show ?case by auto
next
  case (Cons n ns)
  obtain c cs1 where cs: "cs = c # cs1" using Cons.prems(1) by (cases cs) auto
  obtain p ps1 where ps: "ps = p # ps1" using Cons.prems(2) cs by (cases ps) auto
  let ?c = "c\<lparr>headerData := h\<rparr>"
  let ?row = "row\<lparr>rowsData := (rowsData row)\<lparr>columnData := (columnData (rowsData row))[0 := Some ?c], tr_size := rc_size ?c\<rparr>\<rparr>"
  obtain p' row1 ps1' where w: "WriteRowOnePage p ?row = Some (p', row1)" "insert_cols h ps1 (map Some cs1) (length cs1) row1 = Some (ps1', row')" "ps' = p' # ps1'"
    using Cons.prems(5) cs ps by (auto simp: Let_def split: bind_splits)
  have p: "pages st MAIN_FORK n = Some p" using Cons.prems(4) ps by auto
  let ?st = "WritePage MAIN_FORK n p' st"
  have "\<forall>i < length ns. pages ?st MAIN_FORK (ns ! i) = Some (ps1 ! i)"
  proof (intro allI impI)
    fix i
    assume i: "i < length ns"
    then have "ns ! i \<noteq> n" using Cons.prems(3) by (auto simp: in_set_conv_nth)
    then show "pages ?st MAIN_FORK (ns ! i) = Some (ps1 ! i)" using Cons.prems(4) [rule_format, of "Suc i"] i ps by simp
  qed
  from Cons.IH [OF _ _ _ this w(2)] Cons.prems(1-3) cs ps obtain st' where
    r: "write_group h ns (map Some cs1) row1 ?st = Some (row', st')" "pages st' = (pages ?st)(MAIN_FORK := (pages ?st MAIN_FORK)(ns [\<mapsto>] ps1'))"
    by (auto simp del: pages_WritePage fun_upd_apply)
  have "pages st' = (pages st)(MAIN_FORK := (pages st MAIN_FORK)(n # ns [\<mapsto>] ps'))" unfolding r(2) w(3) by (simp del: fun_upd_apply) simp
  then show ?case using cs w(1) p r(1) by (simp add: Let_def del: fun_upd_apply)
qed

lemma map_upds_nth: "distinct ns \<Longrightarrow> length ps = length ns \<Longrightarrow> i < length ns \<Longrightarrow> (f(ns [\<mapsto>] ps)) (ns ! i) = Some (ps ! i)"
proof (induction ns arbitrary: ps i f)
  case (Cons n ns)
  then obtain p ps' where ps: "ps = p # ps'" by (cases ps) auto
  show ?case
  proof (cases i)
    case 0
    then show ?thesis using Cons.prems(1) ps by (simp add: map_upds_apply_nontin)
  next
    case (Suc j)
    then have "ns ! j \<noteq> n" using Cons.prems by (auto simp: in_set_conv_nth)
    then show ?thesis using Cons ps Suc by simp
  qed
qed simp

lemma group_pages_ok': "tgroup n st g \<Longrightarrow> group_pages (map Some g @ xs) n st = Some (g, cpages (pages st) [0 ..< n] g)"
proof -
  have "group_pages (map Some g @ xs) (length g) st = Some (g, map (\<lambda>k. the (pages st MAIN_FORK k)) g)" if "\<forall>k \<in> set g. pages st MAIN_FORK k \<noteq> None"
    using that by (induction g) auto
  moreover assume t: "tgroup n st g"
  moreover have "map (\<lambda>k. the (pages st MAIN_FORK k)) g = cpages (pages st) [0 ..< n] g"
    using t by (intro nth_equalityI) (simp_all add: cpages_def tgroup_def)
  ultimately show ?thesis by (auto simp: tgroup_def group_pages_ok_def)
qed

lemma pages_fold_lock [simp]: "pages (fold (LockPage f) ns st) = pages st" "pages (fold (UnLockPage f) ns st) = pages st"
  by (induction ns arbitrary: st) simp_all

text \<open>The header of the columns that the transaction \<open>x\<close> writes.\<close>

definition inserted :: "XTID \<Rightarrow> RowColumnData \<Rightarrow> RowColumnData" where
  "inserted x c = c\<lparr>headerData := zero_header\<lparr>tmin := x, tmax := INVALID_XTID, tinfo := CLEAN_XTID\<rparr>\<rparr>"

definition row_added :: "nat \<Rightarrow> RowColumnData list \<Rightarrow> int list \<Rightarrow> tblst \<Rightarrow> tblst \<Rightarrow> bool" where
  "row_added n cs g st st' \<longleftrightarrow> pages st' GROUP_FORK = pages st GROUP_FORK \<and> (\<forall>k. k \<notin> set g \<longrightarrow> pages st' MAIN_FORK k = pages st MAIN_FORK k) \<and>
     (\<forall>i < n. \<exists>p p'. pages st MAIN_FORK (g ! i) = Some p \<and> pages st' MAIN_FORK (g ! i) = Some p' \<and> page_ok p' \<and> rows p' = rows p @ [cs ! i])"

lemma insert_row_ok:
  assumes ok: "store_ok n st m gss" and has: "ins_has n gss sc g gs" and room: "has_room st cs g" and cs: "row_cols n ins cs" and x: "GetCurrentTransactionID txn = Some x"
  shows "\<exists>row' st'. insert_row txn ins sc st = Some (ESTAT_SUCESS, sc\<lparr>ins_row := row'\<rparr>, st') \<and> columnData (rowsData row') \<noteq> [] \<and> \<not> GetItemRedirect (it_len (rd_item row')) \<and>
     row_added n (map (inserted x) cs) g st st'"
proof -
  let ?ps = "cpages (pages st) [0 ..< n] g" and ?h = "zero_header\<lparr>cid := 0, tmin := x, tmax := INVALID_XTID, tinfo := CLEAN_XTID\<rparr>"
  have h: "?h = zero_header\<lparr>tmin := x, tmax := INVALID_XTID, tinfo := CLEAN_XTID\<rparr>" by (simp add: zero_header_def)
  have mem: "g \<in> set (concat gss)" by (rule ins_has_member [OF has])
  then have tg: "tgroup n st g" using ok unfolding store_ok_def by blast
  have len: "length g = n" "length cs = n" "length ?ps = n" using tg cs by (simp_all add: tgroup_def row_cols_def cpages_def)
  have dist: "distinct g"
    using ok mem unfolding store_ok_def by (metis distinct_concat_iff)
  obtain K where K: "ins_pageList sc = map Some g @ replicate (K - n) None" and base: "ins_base n sc" using has by (auto simp: ins_has_def)
  let ?row = "(ins_row sc)\<lparr>rowsData := (rowsData (ins_row sc))\<lparr>tr_num := 1\<rparr>\<rparr>"
  have pok: "\<forall>p \<in> set ?ps. page_ok p" using tg by (simp add: tgroup_def)
  have cok: "\<forall>c \<in> set cs. col_ok c" using cs by (auto simp: row_cols_def in_set_conv_nth)
  have rm: "list_all2 room ?ps cs" using room len by (simp add: has_room_def)
  obtain ps' row' where i: "insert_cols ?h ?ps (map Some cs) (length cs) ?row = Some (ps', row')" "length ps' = length ?ps"
      "columnData (rowsData row') \<noteq> []" "\<not> GetItemRedirect (it_len (rd_item row'))"
      "\<forall>i < length ?ps. page_ok (ps' ! i) \<and> rows (ps' ! i) = rows (?ps ! i) @ [(cs ! i)\<lparr>headerData := ?h\<rparr>]"
    using insert_cols_ok [OF _ pok cok rm, of ?row ?h] base len by (auto simp: ins_base_def)
  let ?st = "fold (LockPage MAIN_FORK) g st"
  have at: "pages st MAIN_FORK (g ! i) = Some (?ps ! i)" if "i < n" for i
    using tg that len by (auto simp: tgroup_def group_pages_ok_def cpages_def)
  obtain st1 where w: "write_group ?h g (map Some cs) ?row ?st = Some (row', st1)" "pages st1 = (pages st)(MAIN_FORK := (pages st MAIN_FORK)(g [\<mapsto>] ps'))"
    using write_group_ok [OF _ _ dist _ i(1), of ?st] len at by auto
  have "insert_row txn ins sc st = Some (ESTAT_SUCESS, sc\<lparr>ins_row := row'\<rparr>, fold (UnLockPage MAIN_FORK) g st1)"
    using cs group_pages_ok' [OF tg] K FreeSpaceCheck_list [of ?ps cs] len rm x w(1)
    by (simp add: insert_row_def row_cols_def ComputeXminTupleHeader_def)
  moreover have "row_added n (map (inserted x) cs) g st (fold (UnLockPage MAIN_FORK) g st1)"
    unfolding row_added_def
  proof (intro conjI allI impI)
    fix k
    assume "k \<notin> set g"
    then show "pages (fold (UnLockPage MAIN_FORK) g st1) MAIN_FORK k = pages st MAIN_FORK k" by (simp add: w(2) map_upds_apply_nontin)
  next
    fix j
    assume j: "j < n"
    have "pages st1 MAIN_FORK (g ! j) = Some (ps' ! j)" unfolding w(2) using j len i(2) dist by (simp add: map_upds_nth)
    then show "\<exists>p p'. pages st MAIN_FORK (g ! j) = Some p \<and> pages (fold (UnLockPage MAIN_FORK) g st1) MAIN_FORK (g ! j) = Some p' \<and> page_ok p' \<and> rows p' = rows p @ [map (inserted x) cs ! j]"
      using at [OF j] i(5) j len unfolding h by (simp add: inserted_def)
  qed (simp add: w(2))
  ultimately show ?thesis using i(3,4) by blast
qed

section \<open>The rows after an insertion\<close>

text \<open>A row as a reader with the versions \<open>V\<close> sees it, if at all.\<close>

definition visible_row :: "(RowColumnData \<Rightarrow> RowColumnData option) \<Rightarrow> RowColumnData list \<Rightarrow> RowColumnData list list" where
  "visible_row V r = (if \<forall>c \<in> set r. V c \<noteq> None then [map (\<lambda>c. the (V c)) r] else [])"

lemma length_rows [simp]: "length (rows p) = items p"
  by (simp add: rows_def)

lemma seen_rows_append:
  assumes "ps \<noteq> []" "length ps' = length ps" "length r = length ps"
    and "\<forall>l < length ps. items (ps ! l) = N \<and> rows (ps' ! l) = rows (ps ! l) @ [r ! l]"
  shows "seen_rows V ps' 0 = seen_rows V ps 0 @ visible_row V r"
proof -
  have N: "items (ps ! 0) = N" "items (ps' ! 0) = Suc N"
  proof -
    have "rows (ps' ! 0) = rows (ps ! 0) @ [r ! 0]" "items (ps ! 0) = N" using assms(1,4) by auto
    then show "items (ps ! 0) = N" "items (ps' ! 0) = Suc N" using length_rows [of "ps' ! 0"] by simp_all
  qed
  have old: "rows (ps' ! l) ! i = rows (ps ! l) ! i" if "l < length ps" "i < N" for l i using assms(4) that by (simp add: nth_append)
  have new: "rows (ps' ! l) ! N = r ! l" if "l < length ps" for l using assms(4) that by (simp add: nth_append)
  have m: "map (\<lambda>p. the (V (rows p ! i))) ps' = map (\<lambda>p. the (V (rows p ! i))) ps" if "i < N" for i
    using assms(2) old [OF _ that] by (intro nth_equalityI) simp_all
  have s: "all_seen V ps' i 0 = all_seen V ps i 0" if "i < N" for i using assms(2) old [OF _ that] by (simp add: all_seen_def)
  have "seen_rows V ps' 0 = map (\<lambda>i. map (\<lambda>p. the (V (rows p ! i))) ps') (filter (\<lambda>i. all_seen V ps' i 0) [0 ..< N]) @
      (if all_seen V ps' N 0 then [map (\<lambda>p. the (V (rows p ! N))) ps'] else [])"
    by (simp add: seen_rows_def N)
  also have "filter (\<lambda>i. all_seen V ps' i 0) [0 ..< N] = filter (\<lambda>i. all_seen V ps i 0) [0 ..< N]" using s by (intro filter_cong) auto
  also have "map (\<lambda>i. map (\<lambda>p. the (V (rows p ! i))) ps') (filter (\<lambda>i. all_seen V ps i 0) [0 ..< N]) = seen_rows V ps 0"
    unfolding seen_rows_def N map_eq_conv by (intro ballI m) simp
  also have "(if all_seen V ps' N 0 then [map (\<lambda>p. the (V (rows p ! N))) ps'] else []) = visible_row V r"
  proof -
    have "map (\<lambda>p. the (V (rows p ! N))) ps' = map (\<lambda>c. the (V c)) r" using assms(2,3) new by (intro nth_equalityI) simp_all
    moreover have "all_seen V ps' N 0 \<longleftrightarrow> (\<forall>c \<in> set r. V c \<noteq> None)"
      using assms(2,3) new unfolding all_set_conv_all_nth by (simp add: all_seen_def Ball_def)
    ultimately show ?thesis by (simp add: visible_row_def)
  qed
  finally show ?thesis .
qed

definition grown :: "'a list \<Rightarrow> 'a list \<Rightarrow> 'a list \<Rightarrow> bool" where
  "grown xs r ys \<longleftrightarrow> (\<exists>before after. xs = before @ after \<and> ys = before @ r @ after)"

lemma rows_of_append [simp]: "rows_of V pgs cs (gs @ gs') = rows_of V pgs cs gs @ rows_of V pgs cs gs'"
  by (simp add: rows_of_def)

lemma tgroup_nth: "tgroup n st g \<longleftrightarrow> length g = n \<and>
   (\<forall>i < n. 0 < g ! i \<and> g ! i < 2 ^ 31 \<and> pages st MAIN_FORK (g ! i) \<noteq> None \<and> page_ok (the (pages st MAIN_FORK (g ! i)))) \<and>
   (\<forall>i < n. \<forall>j < n. items (the (pages st MAIN_FORK (g ! i))) = items (the (pages st MAIN_FORK (g ! j))))"
  unfolding tgroup_def group_pages_ok_def same_items_def cpages_def all_set_conv_all_nth by auto

lemma row_added_ok:
  assumes ok: "store_ok n st m gss" and g: "g \<in> set (concat gss)" and add: "row_added n cs g st st'" and n: "length cs = n" "0 < n"
  shows "store_ok n st' m gss"
    and "columns_ok n cols \<Longrightarrow> grown (rows_of V (pages st) cols (concat gss)) (visible_row V (map ((!) cs) cols)) (rows_of V (pages st') cols (concat gss))"
proof -
  have dist: "distinct (concat (concat gss))" and tgs: "\<And>g. g \<in> set (concat gss) \<Longrightarrow> tgroup n st g" using ok unfolding store_ok_def by blast+
  have tg: "tgroup n st g" "length g = n" using tgs [OF g] by (simp_all add: tgroup_def)
  have others: "pages st' MAIN_FORK k = pages st MAIN_FORK k" if "k \<notin> set g" for k using add that by (simp add: row_added_def)
  have row: "page_ok (the (pages st' MAIN_FORK (g ! i)))" "rows (the (pages st' MAIN_FORK (g ! i))) = rows (the (pages st MAIN_FORK (g ! i))) @ [cs ! i]"
    "pages st' MAIN_FORK (g ! i) \<noteq> None" if "i < n" for i
    using add [unfolded row_added_def, THEN conjunct2, THEN conjunct2, rule_format, OF that] that n by auto
  have it: "items (the (pages st' MAIN_FORK (g ! i))) = Suc (items (the (pages st MAIN_FORK (g ! i))))" if "i < n" for i
    using row(2) [OF that] length_rows by (metis length_append_singleton)
  have same: "items (the (pages st MAIN_FORK (g ! i))) = items (the (pages st MAIN_FORK (g ! 0)))" if "i < n" for i
    using tg(1) that n(2) unfolding tgroup_nth by blast
  have tg': "tgroup n st' g"
    using tg(1) row(1,3) it same unfolding tgroup_nth by metis
  have disj: "set g' \<inter> set g = {}" if "g' \<in> set gs" "concat gss = us @ g # vs" "gs = us \<or> gs = vs" for g' gs us vs
  proof -
    have "distinct (concat us @ g @ concat vs)" using dist that(2) by simp
    then show ?thesis using that(1,3) by fastforce
  qed
  obtain us vs where uv: "concat gss = us @ g # vs" using g by (meson split_list)
  have "tgroup n st' g'" if "g' \<in> set (concat gss)" for g'
  proof (cases "g' = g")
    case False
    then have "g' \<in> set us \<or> g' \<in> set vs" using that uv by auto
    then have "set g' \<inter> set g = {}" using disj uv by blast
    then show ?thesis using tgroup_cong [OF tgs [OF that], of st'] others by blast
  qed (simp add: tg')
  moreover have "pages st' MAIN_FORK 1 = pages st MAIN_FORK 1"
  proof (rule others)
    show "1 \<notin> set g" using ok uv by (auto simp: store_ok_def simp del: set_concat)
  qed
  moreover have "gstore n st' m gss" using ok add by - (rule gstore_cong [of n st m gss], simp_all add: store_ok_def row_added_def)
  ultimately show "store_ok n st' m gss" using ok unfolding store_ok_def by simp
  assume cols: "columns_ok n cols"
  have side: "rows_of V (pages st') cols gs = rows_of V (pages st) cols gs" if "gs = us \<or> gs = vs" for gs
  proof (rule rows_of_cong [OF _ _ cols])
    show "\<forall>g \<in> set gs. length g = n" using tgs uv that by (auto simp: tgroup_def simp del: set_concat)
    show "pages st' MAIN_FORK k = pages st MAIN_FORK k" if "k \<in> set (concat gs)" for k
      using others [of k] disj [OF _ uv \<open>gs = us \<or> gs = vs\<close>] that by fastforce
  qed
  have "seen_rows V (cpages (pages st') cols g) 0 = seen_rows V (cpages (pages st) cols g) 0 @ visible_row V (map ((!) cs) cols)"
  proof (rule seen_rows_append [where N = "items (the (pages st MAIN_FORK (g ! 0)))"])
    have c: "cols ! l < n" if "l < length cols" for l using cols that by (simp add: columns_ok_def)
    show "\<forall>l < length (cpages (pages st) cols g). items (cpages (pages st) cols g ! l) = items (the (pages st MAIN_FORK (g ! 0))) \<and>
       rows (cpages (pages st') cols g ! l) = rows (cpages (pages st) cols g ! l) @ [map ((!) cs) cols ! l]"
      using row(2) [OF c] same [OF c] by (simp add: cpages_def)
  qed (use cols in \<open>simp_all add: cpages_def columns_ok_def\<close>)
  then have "rows_of V (pages st') cols [g] = rows_of V (pages st) cols [g] @ visible_row V (map ((!) cs) cols)" by (simp add: rows_of_def)
  then show "grown (rows_of V (pages st) cols (concat gss)) (visible_row V (map ((!) cs) cols)) (rows_of V (pages st') cols (concat gss))"
    unfolding grown_def uv using side rows_of_append [of V _ cols "us @ [g]" vs] rows_of_append [of V _ cols us "[g]"]
    by (intro exI [of _ "rows_of V (pages st) cols (us @ [g])"] exI [of _ "rows_of V (pages st) cols vs"]) simp
qed

text \<open>What an insertion achieves.\<close>

definition insert_done :: "nat \<Rightarrow> RowColumnData list \<Rightarrow> tblst \<Rightarrow> TblMeta \<Rightarrow> int list list list \<Rightarrow> InsertInfo \<times> tblst \<times> TblMeta \<Rightarrow> int list list list \<Rightarrow> bool" where
  "insert_done n cs st m gss res gss' \<longleftrightarrow> (case res of (sc', st', m') \<Rightarrow>
     store_ok n st' m' gss' \<and> (\<exists>gs. ins_at n gss' sc' gs) \<and> int (length gss') \<le> int (length gss) + 1 \<and> uint (pageCnt m' MAIN_FORK) \<le> uint (pageCnt m MAIN_FORK) + int n \<and>
     (\<forall>V cols. columns_ok n cols \<longrightarrow>
        grown (rows_of V (pages st) cols (concat gss)) (visible_row V (map ((!) cs) cols)) (rows_of V (pages st') cols (concat gss'))))"

lemma pax_ExecInsert_ok:
  assumes ok: "store_ok n st m gss" and cs: "row_cols n ins cs" and at: "ins_at n gss sc gs" and x: "GetCurrentTransactionID txn = Some x"
    and lim: "int (length gss) < 2 ^ 31 - 2" "uint (pageCnt m MAIN_FORK) + int n < 2 ^ 31"
  shows "\<exists>sc' st' m' gss'. pax_ExecInsert txn n ins sc st m = Some (1, sc', st', m') \<and> insert_done n (map (inserted x) cs) st m gss (sc', st', m') gss'"
proof -
  obtain sc1 st1 m1 gss' g gs' where f: "find_space n ins sc st m = Some (0, sc1, st1, m1)" "store_ok n st1 m1 gss'" "ins_has n gss' sc1 g gs'" "has_room st1 cs g"
     "int (length gss') \<le> int (length gss) + 1" "uint (pageCnt m1 MAIN_FORK) \<le> uint (pageCnt m MAIN_FORK) + int n"
     "\<And>V cols. columns_ok n cols \<Longrightarrow> rows_of V (pages st1) cols (concat gss') = rows_of V (pages st) cols (concat gss)"
    using find_space_ok [OF ok cs at lim] by (auto simp: found_space_def)
  from insert_row_ok [OF f(2-4) cs x] obtain row' st2 where
    i: "insert_row txn ins sc1 st1 = Some (ESTAT_SUCESS, sc1\<lparr>ins_row := row'\<rparr>, st2)" "columnData (rowsData row') \<noteq> []" "\<not> GetItemRedirect (it_len (rd_item row'))"
      "row_added n (map (inserted x) cs) g st1 st2" by blast
  have n: "length cs = n" "0 < n" "sint (tr_num ins) = int n" using cs by (simp_all add: row_cols_def)
  obtain K where K: "n \<le> K" "ins_pageList sc1 = map Some g @ replicate (K - n) None" using f(3) by (auto simp: ins_has_def)
  have tg: "tgroup n st1 g" using f(2) ins_has_member [OF f(3)] unfolding store_ok_def by blast
  let ?r = "ReleasePageList (ins_pageList sc1) n st2"
  have r: "fst ?r = replicate K None" "pages (snd ?r) = pages st2"
    using K tg ReleasePageList_clears [of g n "K - n" st2] ReleasePageList_pages(1) by (simp_all add: tgroup_def)
  let ?sc = "sc1\<lparr>ins_row := row', ins_pageList := fst ?r\<rparr>"
  have "insert_retry txn n ins sc st m = Some (1, ?sc, snd ?r, m1)"
    using f(1) i(1) n(3) by (subst insert_retry.simps) (simp add: case_prod_beta)
  then have "pax_ExecInsert txn n ins sc st m = Some (1, ?sc, snd ?r, m1)"
    using at n(3) by (simp add: pax_ExecInsert_def ins_at_def ins_base_def)
  moreover have "ins_at n gss' ?sc (g # gs')" using f(3) i(2,3) r(1) K(1) by (auto simp: ins_has_def ins_at_def ins_base_def ins_left_def)
  moreover have "store_ok n (snd ?r) m1 gss'"
    by (rule store_ok_cong [OF row_added_ok(1) [OF f(2) ins_has_member [OF f(3)] i(4)] r(2) refl]) (simp_all add: n)
  moreover have "grown (rows_of V (pages st) cols (concat gss)) (visible_row V (map ((!) (map (inserted x) cs)) cols)) (rows_of V (pages (snd ?r)) cols (concat gss'))"
    if "columns_ok n cols" for V cols
    using row_added_ok(2) [OF f(2) ins_has_member [OF f(3)] i(4) _ _ that, of V] f(7) [OF that] n by (simp add: r(2))
  ultimately show ?thesis using f(5,6) unfolding insert_done_def by blast
qed

section \<open>Insertion from the start of a statement\<close>

lemma InitInsertInfo_at: "ins_at n gss (InitInsertInfo targets n) (concat gss)"
  unfolding ins_at_def ins_base_def ins_left_def InitInsertInfo_def
  by (cases gss) (auto simp: area_ok_def blank_row_def GetItemRedirect_def groups_left_def resumes_def PAGE_HEAD_PAGE_NUM_def)

text \<open>C6: an insertion into a table of \<open>n\<close> columns succeeds, wherever the search for space stands and whether or not the files must
  grow, and leaves a well-formed table: a group that the search can resume from, no more than one new page of
  the group file and \<open>n\<close> of the main file; and whatever versions a reader sees, the rows of any columns it reads are those before with the new
  row, if the reader sees it, put in at one place.\<close>

theorem insert_adds_row:
  assumes "store_ok n st m gss" and "row_cols n ins cs" and "ins_at n gss sc gs" and "GetCurrentTransactionID txn = Some x"
    and "int (length gss) < 2 ^ 31 - 2" and "uint (pageCnt m MAIN_FORK) + int n < 2 ^ 31"
  shows "\<exists>sc' st' m' gss'. pax_ExecInsert txn n ins sc st m = Some (1, sc', st', m') \<and> insert_done n (map (inserted x) cs) st m gss (sc', st', m') gss'"
  using pax_ExecInsert_ok [OF assms] .

definition empty_table :: tblst where
  "empty_table = \<lparr>pages = (\<lambda>f. [1 \<mapsto> InitPage]), locks = (\<lambda>_ _. 0), pins = (\<lambda>_ _. 0)\<rparr>"

definition empty_meta :: TblMeta where
  "empty_meta = \<lparr>pageCnt = (\<lambda>_. 1), last_group_id = 0, extLock = 0\<rparr>"

lemma empty_store: "store_ok n empty_table empty_meta []"
  by (auto simp: store_ok_def gstore_def empty_table_def empty_meta_def)

lemma running_seven_id: "GetCurrentTransactionID running_seven = Some 7"
  by (simp add: GetCurrentTransactionID_def running_seven_def my_ctx_def arr_get_def)

definition int_row :: "i32 \<Rightarrow> TableRowData" where
  "int_row v = \<lparr>tr_size = 52, tr_num = 1, columnData = [Some (int_column v)]\<rparr>"

lemma int_row_cols: "row_cols 1 (int_row v) [int_column v]"
  using int_column_ok by (simp add: row_cols_def int_row_def int_column_def)

text \<open>The first row of a table.\<close>

theorem insert_adds_row_witness:
  "\<exists>sc' st' m' gss'. pax_ExecInsert running_seven 1 (int_row 42) (InitInsertInfo 1 1) empty_table empty_meta = Some (1, sc', st', m') \<and>
     rows_of Some (pages st') [0] (concat gss') = [[(int_column 42)\<lparr>headerData := zero_header\<lparr>tmin := 7, tmax := INVALID_XTID, tinfo := CLEAN_XTID\<rparr>\<rparr>]]"
proof -
  have "uint (pageCnt empty_meta MAIN_FORK) + int 1 < 2 ^ 31" by (simp add: empty_meta_def)
  moreover have "int (length ([] :: int list list list)) < 2 ^ 31 - 2" by simp
  ultimately obtain sc' st' m' gss' where i: "pax_ExecInsert running_seven 1 (int_row 42) (InitInsertInfo 1 1) empty_table empty_meta = Some (1, sc', st', m')"
    "insert_done 1 (map (inserted 7) [int_column 42]) empty_table empty_meta [] (sc', st', m') gss'"
    using insert_adds_row [OF empty_store int_row_cols InitInsertInfo_at running_seven_id] by blast
  have "columns_ok 1 [0]" by (simp add: columns_ok_def)
  then have "grown (rows_of Some (pages empty_table) [0] (concat [])) (visible_row Some (map ((!) (map (inserted 7) [int_column 42])) [0])) (rows_of Some (pages st') [0] (concat gss'))"
    using i(2) unfolding insert_done_def by blast
  then have "rows_of Some (pages st') [0] (concat gss') = [[inserted 7 (int_column 42)]]"
    by (auto simp: grown_def rows_of_def visible_row_def)
  then show ?thesis using i(1) unfolding inserted_def by blast
qed

end
