(* ===== verification/Planner.thy ===== *)
theory Planner
  imports QueryExec
begin

text \<open>
  The analysis of a statement and its plan, after \<^verbatim>\<open>src/sqlcore/plan/query.c\<close> and \<^verbatim>\<open>src/sqlcore/plan/plan.c\<close>.

  The parse tree is what \<^verbatim>\<open>grammar.y\<close> builds; \<open>PNull\<close> is the null pointer. The catalog stands for the table
  descriptions: \<^verbatim>\<open>GetTableInfo\<close> of a name, 0 for the null pointer, and the columns of a table, whose attribute
  indexes are their positions, as \<^verbatim>\<open>ExecCreateTable\<close> numbers them. The nodes of a statement lie in a memory context of their
  own, whose memory is zero. A list that the analysis only appends to is the empty list where it is the null
  pointer. The lists of the source share their cells; a list here is the cells that its header counts, which a later
  merge of the list does not change. Function calls in expressions are left out.
\<close>

section \<open>The parse tree\<close>

datatype pnode =
    PNull
  | PColumnRef string "string option"
  | PConst ConstValue
  | PBoolExpr BoolExprType "pnode list"
  | PA_Expr A_A_Expr_Op_Type pnode pnode

record ResTarget =
  res_name :: "string option"
  res_val :: pnode
  res_setValue :: pnode
  res_all :: bool

record RangeVar =
  relname :: string
  rv_alias :: "string option"

datatype stmt =
    SelectStmt "ResTarget list" "RangeVar list option" "pnode list option"
  | InsertStmt string "string list option" "ConstValue list list"
  | UpdateStmt RangeVar "ResTarget list" "RangeVar list option" "pnode list option"
  | DeleteStmt RangeVar "RangeVar list option" "pnode list option"
  | TransactionStmt TransactionFlag
  | CreateStmt string "(string \<times> string) list"
  | DropStmt string

record catalog =
  cat_table :: "string \<Rightarrow> nat"
  cat_cols :: "nat \<Rightarrow> ColumnDefInfo list"

definition NAME_MAX_LEN :: nat where "NAME_MAX_LEN = 64"

definition hat_strcmp :: "'a list \<Rightarrow> 'a list \<Rightarrow> bool" where
  "hat_strcmp a b \<longleftrightarrow> take NAME_MAX_LEN a = take NAME_MAX_LEN b"

section \<open>The state of the analysis\<close>

datatype CmdType = CMD_SELECT | CMD_UPDATE | CMD_INSERT | CMD_DELETE | CMD_UTILITY

text \<open>A range table entry with what the analysis notes in it; \<open>qr_values\<close> is the list of values of an insert statement.\<close>

record QRte =
  qr_tbl :: nat
  qr_rindex :: int
  qr_relname :: string
  qr_targets :: "TargetEntry list"
  qr_values :: "ConstValue list list option"
  isScaned :: bool
  isNeeded :: bool

record QueryState =
  qs_rtable :: "QRte list"
  qs_rindex :: int
  querylevel :: int
  isJoin :: int
  processState :: int
  qualTargetList :: "TargetEntry list"

definition FIRST_RANGTABLE_INDEX :: int where "FIRST_RANGTABLE_INDEX = 1"

definition NewQueryState :: QueryState where
  "NewQueryState = \<lparr>qs_rtable = [], qs_rindex = FIRST_RANGTABLE_INDEX, querylevel = 1, isJoin = 0, processState = 0, qualTargetList = []\<rparr>"

text \<open>The place of a column in the description of a table; the first one with the name.\<close>

fun column_place :: "ColumnDefInfo list \<Rightarrow> string \<Rightarrow> nat \<Rightarrow> nat option" where
  "column_place [] name col = None"
| "column_place (c # cs) name col = (if name = colName c then Some col else column_place cs name (Suc col))"

definition GetAttrIndex :: "catalog \<Rightarrow> nat \<Rightarrow> string \<Rightarrow> int" where
  "GetAttrIndex cat tbl name = (case column_place (cat_cols cat tbl) name 0 of None \<Rightarrow> -1 | Some i \<Rightarrow> int i)"

definition GetAttrDef :: "catalog \<Rightarrow> nat \<Rightarrow> string \<Rightarrow> nat option" where
  "GetAttrDef cat tbl name = column_place (cat_cols cat tbl) name 0"

definition GetRangTblNode :: "catalog \<Rightarrow> string \<Rightarrow> QRte option" where
  "GetRangTblNode cat name =
     (if cat_table cat name = 0 then None
      else Some \<lparr>qr_tbl = cat_table cat name, qr_rindex = 0, qr_relname = name, qr_targets = [], qr_values = None, isScaned = False, isNeeded = False\<rparr>)"

text \<open>The loop over the tables of the range table from the index \<open>k\<close> on: the last table that has the column, unless there are two.\<close>

fun search_loop :: "catalog \<Rightarrow> string \<Rightarrow> string option \<Rightarrow> QRte list \<Rightarrow> nat \<Rightarrow> nat \<Rightarrow> (nat \<times> nat) option \<Rightarrow> (nat \<times> nat) option" where
  "search_loop cat field tname [] k cnt found = found"
| "search_loop cat field tname (r # rs) k cnt found =
     (if (case tname of None \<Rightarrow> False | Some t \<Rightarrow> \<not> hat_strcmp (qr_relname r) t) then search_loop cat field tname rs (Suc k) cnt found
      else case GetAttrDef cat (qr_tbl r) field of
        None \<Rightarrow> search_loop cat field tname rs (Suc k) cnt found
      | Some i \<Rightarrow> if Suc cnt > 1 then None else search_loop cat field tname rs (Suc k) (Suc cnt) (Some (k, i)))"

definition SearchColumDef :: "catalog \<Rightarrow> string \<Rightarrow> string option \<Rightarrow> QRte list \<Rightarrow> (nat \<times> nat) option" where
  "SearchColumDef cat field tname rt = search_loop cat field tname rt 0 0 None"

text \<open>Every target of the analysis has a name.\<close>

fun QueryRangTblTarget :: "TargetEntry list \<Rightarrow> byte list \<Rightarrow> TargetEntry option" where
  "QueryRangTblTarget [] name = None"
| "QueryRangTblTarget (te # tes) name =
     (if (case te_name te of None \<Rightarrow> False | Some n \<Rightarrow> hat_strcmp name n) then Some te else QueryRangTblTarget tes name)"

definition target_name :: "TargetEntry \<Rightarrow> byte list" where
  "target_name te = (case te_name te of None \<Rightarrow> [] | Some n \<Rightarrow> n)"

text \<open>Whether a target is in a list already, as the source tests it: by the first target with its name.\<close>

definition repeated :: "TargetEntry list \<Rightarrow> TargetEntry \<Rightarrow> int \<Rightarrow> bool" where
  "repeated tes te rindex \<longleftrightarrow> (case QueryRangTblTarget tes (target_name te) of None \<Rightarrow> False | Some te' \<Rightarrow> te_rindex te' = rindex)"

definition AddRangTblTargetEntry :: "TargetEntry \<Rightarrow> QRte \<Rightarrow> QRte" where
  "AddRangTblTargetEntry te r = (if repeated (qr_targets r) te (qr_rindex r) then r else r\<lparr>qr_targets := qr_targets r @ [te]\<rparr>)"

fun MergetTargetList :: "TargetEntry list \<Rightarrow> TargetEntry list \<Rightarrow> TargetEntry list" where
  "MergetTargetList tes [] = tes"
| "MergetTargetList tes (te # tes') = MergetTargetList (if repeated tes te (te_rindex te) then tes else tes @ [te]) tes'"

section \<open>Targets\<close>

definition set_used :: "QueryState \<Rightarrow> QRte \<Rightarrow> QRte" where
  "set_used st r = (if querylevel st > 1 then r\<lparr>isScaned := True\<rparr> else r\<lparr>isNeeded := True\<rparr>)"

text \<open>\<^verbatim>\<open>TargetNodeProcess\<close> for a column with the name that the result shows, if any.\<close>

definition TargetNodeProcess :: "catalog \<Rightarrow> string option \<Rightarrow> string \<Rightarrow> string option \<Rightarrow> QueryState \<Rightarrow> TargetEntry option \<times> QueryState" where
  "TargetNodeProcess cat name field tname st =
     (case SearchColumDef cat field tname (qs_rtable st) of
        None \<Rightarrow> (None, st\<lparr>processState := -1\<rparr>)
      | Some (k, i) \<Rightarrow>
          let r = qs_rtable st ! k;
              te = \<lparr>te_rindex = qr_rindex r, te_attrIndex = int i, te_name = Some (text_of (case name of None \<Rightarrow> field | Some n \<Rightarrow> n)),
                te_field = text_of field, te_vt = cd_type (cat_cols cat (qr_tbl r) ! i)\<rparr>
          in (Some te, st\<lparr>qs_rindex := te_rindex te, qs_rtable := (qs_rtable st)[k := set_used st (AddRangTblTargetEntry te r)]\<rparr>))"

definition TargetRewriteAllColumnsOneRte :: "catalog \<Rightarrow> TargetEntry list \<Rightarrow> QRte \<Rightarrow> TargetEntry list" where
  "TargetRewriteAllColumnsOneRte cat tes r =
     (if qr_tbl r = 0 then tes
      else tes @ map (\<lambda>(i, c). \<lparr>te_rindex = qr_rindex r, te_attrIndex = int i, te_name = Some (text_of (colName c)), te_field = text_of (colName c), te_vt = cd_type c\<rparr>)
        (enumerate 0 (cat_cols cat (qr_tbl r))))"

definition TargetRewriteAllColumns :: "catalog \<Rightarrow> TargetEntry list \<Rightarrow> QueryState \<Rightarrow> TargetEntry list \<times> QueryState" where
  "TargetRewriteAllColumns cat tes st =
     (fold (\<lambda>r tes. TargetRewriteAllColumnsOneRte cat tes r) (qs_rtable st) tes, st\<lparr>qs_rtable := map (set_used st) (qs_rtable st)\<rparr>)"

section \<open>Conditions\<close>

text \<open>An operand of an expression: a column of the parse tree, or a node that has been processed.\<close>

datatype operand = ColumnOperand string "string option" | Operand qual

fun SubExprNodeTargetProcess :: "catalog \<Rightarrow> operand \<Rightarrow> QueryState \<Rightarrow> TargetEntry list \<times> qual \<times> QueryState" where
  "SubExprNodeTargetProcess cat (ColumnOperand field tname) st =
     (case TargetNodeProcess cat (Some field) field tname st of
        (None, st) \<Rightarrow> ([], ColumnRef VT_UNKNOWN 0, st)
      | (Some te, st) \<Rightarrow> ([te], ColumnRef (te_vt te) (te_attrIndex te), st))"
| "SubExprNodeTargetProcess cat (Operand q) st = ([], q, st)"

definition SimpleExprNodeProcess :: "catalog \<Rightarrow> A_A_Expr_Op_Type \<Rightarrow> operand \<Rightarrow> operand \<Rightarrow> QueryState \<Rightarrow> qual \<times> QueryState" where
  "SimpleExprNodeProcess cat op lexpr rexpr st =
     (let ori = qualTargetList st;
          (ls, l, st) = SubExprNodeTargetProcess cat lexpr (st\<lparr>qualTargetList := []\<rparr>);
          lrindex = (if ls = [] then -1 else qs_rindex st);
          (rs, r, st) = SubExprNodeTargetProcess cat rexpr (st\<lparr>qualTargetList := []\<rparr>);
          rrindex = (if rs = [] then -1 else qs_rindex st);
          both = MergetTargetList ls rs;
          q = (if lrindex < 0 \<and> rrindex < 0 then ExprEntry op 0 0 l r
               else if lrindex < 0 then ExprEntry op rrindex 0 r l
               else if rrindex < 0 \<or> lrindex = rrindex then ExprEntry op lrindex 0 l r
               else ExprEntry op lrindex rrindex l r)
      in (q, st\<lparr>qualTargetList := MergetTargetList ori both\<rparr>))"

fun QualNodeProcess :: "catalog \<Rightarrow> pnode \<Rightarrow> QueryState \<Rightarrow> (qual \<times> QueryState) option" where
  "QualNodeProcess cat PNull st = Some (NullNode, st)"
| "QualNodeProcess cat (PColumnRef field tname) st = Some (ColumnRef VT_UNKNOWN 0, st)"
| "QualNodeProcess cat (PConst cv) st = Some (ConstNode cv, st)"
| "QualNodeProcess cat (PBoolExpr bop args) st =
     (case args of
        a # b # _ \<Rightarrow> do {
          (l, st1) \<leftarrow> QualNodeProcess cat a (st\<lparr>qualTargetList := []\<rparr>);
          (r, st2) \<leftarrow> QualNodeProcess cat b st1;
          Some (MergerEntry bop (-1) (isJoin st2) l r, st2\<lparr>qualTargetList := qualTargetList st @ qualTargetList st2\<rparr>) }
      | _ \<Rightarrow> None)"
| "QualNodeProcess cat (PA_Expr op lexpr rexpr) st =
     (if lexpr = PNull \<or> rexpr = PNull then Some (NullNode, st)
      else do {
        (l, st) \<leftarrow> (case lexpr of PColumnRef field tname \<Rightarrow> Some (ColumnOperand field tname, st)
                    | _ \<Rightarrow> do { (q, st) \<leftarrow> QualNodeProcess cat lexpr st; Some (Operand q, st) });
        (r, st) \<leftarrow> (case rexpr of PColumnRef field tname \<Rightarrow> Some (ColumnOperand field tname, st)
                    | _ \<Rightarrow> do { (q, st) \<leftarrow> QualNodeProcess cat rexpr st; Some (Operand q, st) });
        Some (SimpleExprNodeProcess cat op l r st) })"

fun QueryJoinTransform :: "catalog \<Rightarrow> pnode list \<Rightarrow> QueryState \<Rightarrow> (qual list \<times> QueryState) option" where
  "QueryJoinTransform cat [] st = Some ([], st)"
| "QueryJoinTransform cat (v # vs) st = do {
     (q, st) \<leftarrow> QualNodeProcess cat v st;
     (qs, st) \<leftarrow> QueryJoinTransform cat vs st;
     Some (if q = NullNode then qs else q # qs, st) }"

text \<open>
  The targets of a statement with the values they are set to, \<open>NullNode\<close> for none. The loop ends at the first target that is neither a
  column nor \<^verbatim>\<open>*\<close>, and at a column that is not found.
\<close>

fun ProcessCheckTargetList :: "catalog \<Rightarrow> ResTarget list \<Rightarrow> (TargetEntry \<times> qual) list \<Rightarrow> QueryState \<Rightarrow> ((TargetEntry \<times> qual) list \<times> QueryState) option" where
  "ProcessCheckTargetList cat [] tes st = Some (tes, st)"
| "ProcessCheckTargetList cat (t # rest) tes st =
     (case res_val t of
        PNull \<Rightarrow>
          if res_all t then do {
            let (all, st) = TargetRewriteAllColumns cat [] st;
            (_, st) \<leftarrow> QualNodeProcess cat (res_setValue t) st;
            ProcessCheckTargetList cat rest (tes @ map (\<lambda>te. (te, NullNode)) all) st }
          else Some ([], st)
      | PColumnRef field tname \<Rightarrow>
          (case TargetNodeProcess cat (res_name t) field tname st of
             (None, st) \<Rightarrow> Some (tes, st)
           | (Some te, st) \<Rightarrow> do {
               (q, st) \<leftarrow> QualNodeProcess cat (res_setValue t) st;
               ProcessCheckTargetList cat rest (tes @ [(te, q)]) st })
      | _ \<Rightarrow> Some (tes, st))"

section \<open>The tables of a query\<close>

fun RangTblRewriteFromClause :: "catalog \<Rightarrow> RangeVar list \<Rightarrow> int \<Rightarrow> (QRte list \<times> int) option" where
  "RangTblRewriteFromClause cat [] rindex = Some ([], rindex)"
| "RangTblRewriteFromClause cat (v # vs) rindex = do {
     r \<leftarrow> GetRangTblNode cat (relname v);
     (rs, next) \<leftarrow> RangTblRewriteFromClause cat vs (rindex + 1);
     Some (r\<lparr>qr_rindex := rindex, qr_relname := (case rv_alias v of None \<Rightarrow> relname v | Some a \<Rightarrow> a)\<rparr> # rs, next) }"

text \<open>The tree of the scans; \<open>RtNull\<close> is the null pointer. A scan has its range table index and its targets; a join the number of its tables.\<close>

datatype rtnode =
    RtNull
  | RtScan int "TargetEntry list"
  | RtJoin nat "TargetEntry list" rtnode rtnode

fun GetNodeRtNum :: "rtnode \<Rightarrow> nat" where
  "GetNodeRtNum (RtScan i tes) = 1"
| "GetNodeRtNum (RtJoin n tes l r) = n"
| "GetNodeRtNum RtNull = 0"

fun GetNodeTargetList :: "rtnode \<Rightarrow> TargetEntry list" where
  "GetNodeTargetList (RtScan i tes) = tes"
| "GetNodeTargetList (RtJoin n tes l r) = tes"
| "GetNodeTargetList RtNull = []"

definition MergeNodeTargetList :: "rtnode \<Rightarrow> rtnode \<Rightarrow> TargetEntry list" where
  "MergeNodeTargetList l r = MergetTargetList (GetNodeTargetList l) (GetNodeTargetList r)"

definition AddNormalTblNode :: "QRte \<Rightarrow> TargetEntry list \<Rightarrow> rtnode" where
  "AddNormalTblNode r tes = RtScan (qr_rindex r) tes"

fun AddJoinTblNode :: "rtnode \<Rightarrow> QRte \<Rightarrow> TargetEntry list \<Rightarrow> rtnode" where
  "AddJoinTblNode RtNull r tes = AddNormalTblNode r tes"
| "AddJoinTblNode (RtJoin n tes' l RtNull) r tes = RtJoin n (tes' @ tes) l (AddNormalTblNode r tes)"
| "AddJoinTblNode left r tes =
     (let right = AddNormalTblNode r tes
      in RtJoin (GetNodeRtNum left + GetNodeRtNum right) (MergeNodeTargetList left right) left right)"

definition GetTblTargetList :: "TargetEntry list \<Rightarrow> int \<Rightarrow> TargetEntry list" where
  "GetTblTargetList tes rindex = filter (\<lambda>te. rindex = te_rindex te) tes"

definition table_targets :: "catalog \<Rightarrow> TargetEntry list \<Rightarrow> TargetEntry list \<Rightarrow> QRte \<Rightarrow> TargetEntry list" where
  "table_targets cat parent quals r =
     (if isScaned r then GetTblTargetList quals (qr_rindex r)
      else if isNeeded r then GetTblTargetList parent (qr_rindex r)
      else TargetRewriteAllColumnsOneRte cat (qr_targets r) r)"

definition CommonQueryTransform :: "catalog \<Rightarrow> TargetEntry list \<Rightarrow> QueryState \<Rightarrow> rtnode \<times> QueryState" where
  "CommonQueryTransform cat parent st =
     (if parent = [] then (RtNull, st)
      else let rs = map (\<lambda>r. r\<lparr>qr_targets := table_targets cat parent (qualTargetList st) r\<rparr>) (qs_rtable st)
        in (fold (\<lambda>r t. AddJoinTblNode t r (qr_targets r)) rs RtNull, st\<lparr>qs_rtable := rs\<rparr>))"

section \<open>Statements\<close>

record Query =
  commandType :: CmdType
  q_targetList :: "(TargetEntry \<times> qual) list"
  q_rtable :: "QRte list"
  joinTree :: "qual list"
  rtjoinTree :: rtnode
  parserTree :: "stmt option"

text \<open>The condition and the scans of a statement whose targets have been processed.\<close>

definition where_query :: "catalog \<Rightarrow> CmdType \<Rightarrow> (TargetEntry \<times> qual) list \<Rightarrow> pnode list option \<Rightarrow> QueryState \<Rightarrow> Query option option" where
  "where_query cat cmd targets whereList st = do {
     (qs, st) \<leftarrow> (case whereList of None \<Rightarrow> Some ([], st\<lparr>querylevel := 2, qualTargetList := []\<rparr>)
       | Some vs \<Rightarrow> QueryJoinTransform cat vs (st\<lparr>querylevel := 2, qualTargetList := []\<rparr>));
     let (t, st) = CommonQueryTransform cat (map fst targets) st;
     Some (if processState st \<noteq> 0 then None
       else Some \<lparr>commandType = cmd, q_targetList = targets, q_rtable = qs_rtable st, joinTree = qs, rtjoinTree = t, parserTree = None\<rparr>) }"

definition transformSelectStmt :: "catalog \<Rightarrow> ResTarget list \<Rightarrow> RangeVar list option \<Rightarrow> pnode list option \<Rightarrow> Query option option" where
  "transformSelectStmt cat targetlist fromList whereList =
     (case fromList of
        None \<Rightarrow> Some None
      | Some vs \<Rightarrow> (case RangTblRewriteFromClause cat vs (qs_rindex NewQueryState) of
            None \<Rightarrow> Some None
          | Some (rs, rindex) \<Rightarrow> do {
              (targets, st) \<leftarrow> ProcessCheckTargetList cat targetlist [] (NewQueryState\<lparr>qs_rtable := rs, qs_rindex := rindex\<rparr>);
              where_query cat CMD_SELECT targets whereList st }))"

text \<open>The targets of an insert statement; the loop ends at a name that is not a column.\<close>

fun ProcessAttrList :: "catalog \<Rightarrow> nat \<Rightarrow> string list \<Rightarrow> string list" where
  "ProcessAttrList cat tbl [] = []"
| "ProcessAttrList cat tbl (a # as) = (if GetAttrIndex cat tbl a < 0 then [] else a # ProcessAttrList cat tbl as)"

definition insert_target :: "string \<Rightarrow> TargetEntry \<times> qual" where
  "insert_target name = (\<lparr>te_rindex = 1, te_attrIndex = 0, te_name = None, te_field = text_of name, te_vt = VT_UNKNOWN\<rparr>, NullNode)"

definition insert_names :: "catalog \<Rightarrow> nat \<Rightarrow> string list option \<Rightarrow> string list" where
  "insert_names cat tbl attrs = (case attrs of None \<Rightarrow> map colName (cat_cols cat tbl) | Some as \<Rightarrow> ProcessAttrList cat tbl as)"

definition transformInsertStmt :: "catalog \<Rightarrow> string \<Rightarrow> string list option \<Rightarrow> ConstValue list list \<Rightarrow> Query option" where
  "transformInsertStmt cat tableName attrs vals = do {
     r \<leftarrow> GetRangTblNode cat tableName;
     let targets = map insert_target (insert_names cat (qr_tbl r) attrs);
     let r = r\<lparr>qr_rindex := FIRST_RANGTABLE_INDEX, qr_targets := map fst targets\<rparr>;
     let v = \<lparr>qr_tbl = 0, qr_rindex = FIRST_RANGTABLE_INDEX + 2, qr_relname = [], qr_targets = map fst targets, qr_values = Some vals, isScaned = False, isNeeded = False\<rparr>;
     Some \<lparr>commandType = CMD_INSERT, q_targetList = targets, q_rtable = [r, v], joinTree = [], rtjoinTree = RtNull, parserTree = None\<rparr> }"

definition rel_rte :: "catalog \<Rightarrow> RangeVar \<Rightarrow> int \<Rightarrow> QRte option" where
  "rel_rte cat v rindex = map_option (\<lambda>r. r\<lparr>qr_rindex := rindex, qr_relname := (case rv_alias v of None \<Rightarrow> relname v | Some a \<Rightarrow> a)\<rparr>) (GetRangTblNode cat (relname v))"

text \<open>A table of the from clause that does not exist leaves the list of those tables empty.\<close>

definition from_tables :: "catalog \<Rightarrow> RangeVar list option \<Rightarrow> QRte list \<times> int" where
  "from_tables cat fromList =
     (case fromList of
        None \<Rightarrow> ([], FIRST_RANGTABLE_INDEX)
      | Some vs \<Rightarrow> (case RangTblRewriteFromClause cat vs FIRST_RANGTABLE_INDEX of None \<Rightarrow> ([], FIRST_RANGTABLE_INDEX) | Some rs \<Rightarrow> rs))"

definition transformUpdateStmt :: "catalog \<Rightarrow> RangeVar \<Rightarrow> ResTarget list \<Rightarrow> RangeVar list option \<Rightarrow> pnode list option \<Rightarrow> Query option option" where
  "transformUpdateStmt cat rel targetlist fromList whereList =
     (let (rs, rindex) = from_tables cat fromList in
      case rel_rte cat rel rindex of
        None \<Rightarrow> Some None
      | Some r \<Rightarrow> do {
          (targets, st) \<leftarrow> ProcessCheckTargetList cat targetlist [] (NewQueryState\<lparr>qs_rtable := r # rs, qs_rindex := rindex + 1\<rparr>);
          where_query cat CMD_UPDATE targets whereList st })"

definition transformDeleteStmt :: "catalog \<Rightarrow> RangeVar \<Rightarrow> RangeVar list option \<Rightarrow> pnode list option \<Rightarrow> Query option option" where
  "transformDeleteStmt cat rel fromList whereList =
     (let (rs, rindex) = from_tables cat fromList in
      case rel_rte cat rel rindex of
        None \<Rightarrow> Some None
      | Some r \<Rightarrow>
          let (tes, st) = TargetRewriteAllColumns cat [] (NewQueryState\<lparr>qs_rtable := [r], qs_rindex := rindex + 1\<rparr>)
          in where_query cat CMD_DELETE (map (\<lambda>te. (te, NullNode)) tes) whereList (st\<lparr>qs_rtable := qs_rtable st @ rs\<rparr>))"

definition transformUtilityStmt :: "stmt \<Rightarrow> Query" where
  "transformUtilityStmt s = \<lparr>commandType = CMD_UTILITY, q_targetList = [], q_rtable = [], joinTree = [], rtjoinTree = RtNull, parserTree = Some s\<rparr>"

fun transformStmt :: "catalog \<Rightarrow> stmt \<Rightarrow> Query option option" where
  "transformStmt cat (SelectStmt targetlist fromList whereList) = transformSelectStmt cat targetlist fromList whereList"
| "transformStmt cat (InsertStmt tableName attrs vals) = Some (transformInsertStmt cat tableName attrs vals)"
| "transformStmt cat (UpdateStmt rel targetlist fromList whereList) = transformUpdateStmt cat rel targetlist fromList whereList"
| "transformStmt cat (DeleteStmt rel fromList whereList) = transformDeleteStmt cat rel fromList whereList"
| "transformStmt cat s = Some (Some (transformUtilityStmt s))"

text \<open>The queries of a command, or none of them.\<close>

fun QueryAnalyzeAndRewrite :: "catalog \<Rightarrow> stmt list \<Rightarrow> Query list option option" where
  "QueryAnalyzeAndRewrite cat [] = Some (Some [])"
| "QueryAnalyzeAndRewrite cat (s # ss) = do {
     q \<leftarrow> transformStmt cat s;
     case q of
       None \<Rightarrow> Some None
     | Some q \<Rightarrow> do { qs \<leftarrow> QueryAnalyzeAndRewrite cat ss; Some (map_option (\<lambda>qs. q # qs) qs) } }"

section \<open>Plans\<close>

text \<open>
  The plan of a statement. \<open>QueryRoot\<close> and \<open>ModifyTbl\<close> are the nodes below \<^verbatim>\<open>Plan\<close>: a modification has the command, the table, the
  plan of the rows and, for an update or a deletion, the targets with their new values and the range table. \<open>EmptyPlan\<close> is a \<^verbatim>\<open>Plan\<close>
  without a node below.
\<close>

datatype stmt_plan =
    QueryRoot plan
  | ModifyTbl CmdType QRte plan "((TargetEntry \<times> qual) list \<times> RangTblEntry list) option"
  | UtilityPlan stmt
  | EmptyPlan

definition rte_of :: "QRte \<Rightarrow> RangTblEntry" where
  "rte_of r = \<lparr>rte_tblInfo = qr_tbl r, rte_rindex = qr_rindex r\<rparr>"

definition plan_rtable :: "Query \<Rightarrow> RangTblEntry list" where
  "plan_rtable q = map rte_of (q_rtable q)"

text \<open>The columns of a scan, which \<^verbatim>\<open>InitScanPositionInfo\<close> takes from the targets of its table.\<close>

definition string_of :: "byte list \<Rightarrow> string" where
  "string_of bs = map (\<lambda>b. char_of (unat b)) bs"

definition scan_columns :: "catalog \<Rightarrow> QRte \<Rightarrow> TargetEntry list \<Rightarrow> int list" where
  "scan_columns cat r tes = map (\<lambda>te. GetAttrIndex cat (qr_tbl r) (string_of (te_field te))) (filter (\<lambda>te. te_rindex te = qr_rindex r) tes)"

text \<open>A scan of an entry that the range table does not have is a null pointer that is followed.\<close>

definition ProcessScanNode :: "catalog \<Rightarrow> Query \<Rightarrow> int \<Rightarrow> TargetEntry list \<Rightarrow> plan option" where
  "ProcessScanNode cat q rindex tes = do {
     r \<leftarrow> GetCellValueByIndex (Some (q_rtable q)) rindex;
     Some (SeqScan (qr_tbl r) (qr_rindex r) (scan_columns cat r tes) (length (cat_cols cat (qr_tbl r)))) }"

fun ProcessJoinTree :: "catalog \<Rightarrow> Query \<Rightarrow> rtnode \<Rightarrow> plan option" where
  "ProcessJoinTree cat q RtNull = Some NullPlan"
| "ProcessJoinTree cat q (RtScan rindex tes) = ProcessScanNode cat q rindex tes"
| "ProcessJoinTree cat q (RtJoin n tes l r) = do {
     l \<leftarrow> ProcessJoinTree cat q l;
     r \<leftarrow> ProcessJoinTree cat q r;
     Some (NestLoop n l r) }"

definition ProcessTableScan :: "catalog \<Rightarrow> Query \<Rightarrow> plan option" where
  "ProcessTableScan cat q = ProcessJoinTree cat q (rtjoinTree q)"

definition ProcessSelectQual :: "Query \<Rightarrow> plan \<Rightarrow> plan" where
  "ProcessSelectQual q sub = (if joinTree q = [] then sub else SelectResult (Some (joinTree q)) (Some (plan_rtable q)) sub)"

definition ProcessTopNode :: "Query \<Rightarrow> plan \<Rightarrow> plan" where
  "ProcessTopNode q sub =
     (if commandType q \<in> {CMD_SELECT, CMD_UPDATE, CMD_DELETE} then ProjectTbl (map fst (q_targetList q)) (Some (plan_rtable q)) sub else sub)"

definition row_plan :: "catalog \<Rightarrow> Query \<Rightarrow> plan option" where
  "row_plan cat q = do { t \<leftarrow> ProcessTableScan cat q; Some (ProcessTopNode q (ProcessSelectQual q t)) }"

definition subPlanSelectStmt :: "catalog \<Rightarrow> Query \<Rightarrow> stmt_plan option" where
  "subPlanSelectStmt cat q = do {
     pl \<leftarrow> row_plan cat q;
     Some (QueryRoot (QueryTbl (if q_targetList q = [] then None else Some (map fst (q_targetList q))) pl)) }"

fun GetValuesTypeRangTbl :: "QRte list \<Rightarrow> QRte option" where
  "GetValuesTypeRangTbl [] = None"
| "GetValuesTypeRangTbl (r # rs) = (if qr_values r \<noteq> None then Some r else GetValuesTypeRangTbl rs)"

text \<open>The values take the description of the target table.\<close>

definition subPlanInsertStmt :: "catalog \<Rightarrow> Query \<Rightarrow> stmt_plan option" where
  "subPlanInsertStmt cat q = (case q_rtable q of
       [] \<Rightarrow> None
     | r # _ \<Rightarrow> do {
         v \<leftarrow> GetValuesTypeRangTbl (q_rtable q);
         vals \<leftarrow> qr_values v;
         Some (ModifyTbl CMD_INSERT r (ValueScan \<lparr>ve_columns = Some (cat_cols cat (qr_tbl r)),
           ve_targets = (if q_targetList q = [] then None else Some (map (string_of \<circ> te_field \<circ> fst) (q_targetList q))), ve_values = vals\<rparr>) None) })"

definition modify_plan :: "catalog \<Rightarrow> Query \<Rightarrow> stmt_plan option" where
  "modify_plan cat q = do {
     pl \<leftarrow> row_plan cat q;
     r \<leftarrow> arr_get (q_rtable q) 0;
     Some (ModifyTbl (commandType q) r pl (Some (q_targetList q, plan_rtable q))) }"

definition subPlanUpdateStmt :: "catalog \<Rightarrow> Query \<Rightarrow> stmt_plan option" where
  "subPlanUpdateStmt cat q = (if length (q_rtable q) > 1 then Some EmptyPlan else modify_plan cat q)"

definition subPlanDeleteStmt :: "catalog \<Rightarrow> Query \<Rightarrow> stmt_plan option" where
  "subPlanDeleteStmt cat q = modify_plan cat q"

definition SubPlanProcess :: "catalog \<Rightarrow> Query \<Rightarrow> stmt_plan option" where
  "SubPlanProcess cat q = (case commandType q of
       CMD_SELECT \<Rightarrow> subPlanSelectStmt cat q
     | CMD_UPDATE \<Rightarrow> subPlanUpdateStmt cat q
     | CMD_INSERT \<Rightarrow> subPlanInsertStmt cat q
     | CMD_DELETE \<Rightarrow> subPlanDeleteStmt cat q
     | CMD_UTILITY \<Rightarrow> map_option UtilityPlan (parserTree q))"

section \<open>Resolving names\<close>

text \<open>
  The value of a condition as it is written, by the names of its columns. \<open>look\<close> gives the value of a column by the index of its table, its attribute and its type, \<open>con\<close> that
  of a constant.
\<close>

fun cond_value :: "catalog \<Rightarrow> QRte list \<Rightarrow> (int \<Rightarrow> int \<Rightarrow> valueType \<Rightarrow> sql_value option) \<Rightarrow> (ConstValue \<Rightarrow> sql_value option) \<Rightarrow> pnode \<Rightarrow> sql_value option" where
  "cond_value cat rs look con (PColumnRef field tname) = do {
     (k, i) \<leftarrow> SearchColumDef cat field tname rs;
     look (qr_rindex (rs ! k)) (int i) (cd_type (cat_cols cat (qr_tbl (rs ! k)) ! i)) }"
| "cond_value cat rs look con (PConst cv) = con cv"
| "cond_value cat rs look con (PA_Expr op lexpr rexpr) = do {
     x \<leftarrow> cond_value cat rs look con lexpr;
     y \<leftarrow> cond_value cat rs look con rexpr;
     apply_op op x y }"
| "cond_value cat rs look con (PBoolExpr bop args) =
     (case args of
        a # b # _ \<Rightarrow> do {
          x \<leftarrow> cond_value cat rs look con a;
          x \<leftarrow> truth_of x;
          if bop = NOT_EXPR then None
          else do {
            y \<leftarrow> cond_value cat rs look con b;
            y \<leftarrow> truth_of y;
            Some (IntV (of_bool (if bop = AND_EXPR then x \<and> y else x \<or> y))) } }
      | _ \<Rightarrow> None)"
| "cond_value cat rs look con _ = None"

text \<open>
  The conditions that the analysis turns into an evaluation of this value, with its columns resolved, and the list of its columns: in a comparison with a column on the right there is
  a column of another table on the left.
\<close>

definition column_te :: "catalog \<Rightarrow> QRte list \<Rightarrow> string option \<Rightarrow> string \<Rightarrow> string option \<Rightarrow> TargetEntry option" where
  "column_te cat rs name field tname = do {
     (k, i) \<leftarrow> SearchColumDef cat field tname rs;
     Some \<lparr>te_rindex = qr_rindex (rs ! k), te_attrIndex = int i, te_name = Some (text_of (case name of None \<Rightarrow> field | Some n \<Rightarrow> n)),
       te_field = text_of field, te_vt = cd_type (cat_cols cat (qr_tbl (rs ! k)) ! i)\<rparr> }"

definition resolved_expr :: "A_A_Expr_Op_Type \<Rightarrow> TargetEntry list \<Rightarrow> qual \<Rightarrow> TargetEntry list \<Rightarrow> qual \<Rightarrow> qual option" where
  "resolved_expr op lt l rt r =
     (case (lt, rt) of
        ([], []) \<Rightarrow> Some (ExprEntry op 0 0 l r)
      | ([], b # _) \<Rightarrow> None
      | (a # _, []) \<Rightarrow> Some (ExprEntry op (te_rindex a) 0 l r)
      | (a # _, b # _) \<Rightarrow> if te_rindex a = te_rindex b then None else Some (ExprEntry op (te_rindex a) (te_rindex b) l r))"

fun resolve_cond :: "catalog \<Rightarrow> QRte list \<Rightarrow> pnode \<Rightarrow> TargetEntry list \<Rightarrow> (qual \<times> TargetEntry list) option" where
  "resolve_cond cat rs (PConst cv) tes = Some (ConstNode cv, tes)"
| "resolve_cond cat rs (PBoolExpr bop args) tes =
     (case args of
        a # b # _ \<Rightarrow> do {
          (l, t1) \<leftarrow> resolve_cond cat rs a [];
          (r, t2) \<leftarrow> resolve_cond cat rs b t1;
          Some (MergerEntry bop (-1) 0 l r, tes @ t2) }
      | _ \<Rightarrow> None)"
| "resolve_cond cat rs (PA_Expr op lexpr rexpr) tes = do {
     (lt, l, tes) \<leftarrow> (case lexpr of
         PColumnRef field tname \<Rightarrow> do { te \<leftarrow> column_te cat rs (Some field) field tname; Some ([te], ColumnRef (te_vt te) (te_attrIndex te), tes) }
       | _ \<Rightarrow> do { (q, tes) \<leftarrow> resolve_cond cat rs lexpr tes; Some ([], q, tes) });
     (rt, r, tes) \<leftarrow> (case rexpr of
         PColumnRef field tname \<Rightarrow> do { te \<leftarrow> column_te cat rs (Some field) field tname; Some ([te], ColumnRef (te_vt te) (te_attrIndex te), tes) }
       | _ \<Rightarrow> do { (q, tes) \<leftarrow> resolve_cond cat rs rexpr tes; Some ([], q, tes) });
     q \<leftarrow> resolved_expr op lt l rt r;
     Some (q, MergetTargetList tes (MergetTargetList lt rt)) }"
| "resolve_cond cat rs _ tes = None"

text \<open>The range table \<open>rs'\<close> of an analysis that began with \<open>rs\<close> and has used columns of the tables in \<open>N\<close> for its targets and of those in \<open>S\<close> for its condition.\<close>

definition same_rte :: "QRte \<Rightarrow> QRte \<Rightarrow> bool" where
  "same_rte r r' \<longleftrightarrow> qr_tbl r' = qr_tbl r \<and> qr_rindex r' = qr_rindex r \<and> qr_relname r' = qr_relname r \<and> qr_values r' = qr_values r"

definition noted :: "int set \<Rightarrow> int set \<Rightarrow> QRte \<Rightarrow> QRte \<Rightarrow> bool" where
  "noted N S r r' \<longleftrightarrow> same_rte r r' \<and> (isNeeded r' \<longleftrightarrow> qr_rindex r \<in> N) \<and> (isScaned r' \<longleftrightarrow> qr_rindex r \<in> S) \<and> (qr_rindex r \<notin> N \<longrightarrow> qr_rindex r \<notin> S \<longrightarrow> qr_targets r' = [])"

definition rtable_ok :: "QRte list \<Rightarrow> bool" where
  "rtable_ok rs \<longleftrightarrow> distinct (map qr_rindex rs) \<and> (\<forall>r \<in> set rs. 0 < qr_rindex r)"

lemma search_loop_same: "list_all2 same_rte rs rs' \<Longrightarrow> search_loop cat field tname rs' k cnt found = search_loop cat field tname rs k cnt found"
proof (induction rs arbitrary: rs' k cnt found)
  case (Cons r rs)
  then obtain r' rs1 where r: "rs' = r' # rs1" "same_rte r r'" "list_all2 same_rte rs rs1" by (auto simp: list_all2_Cons1)
  have e: "qr_tbl r' = qr_tbl r" "qr_relname r' = qr_relname r" using r(2) by (simp_all add: same_rte_def)
  show ?case by (simp only: r(1) search_loop.simps e Cons.IH [OF r(3)])
qed simp

lemma search_loop_in: "search_loop cat field tname rs j cnt found = Some (k, i) \<Longrightarrow> found = Some (k, i) \<or> (j \<le> k \<and> k < j + length rs)"
proof (induction rs arbitrary: j cnt found)
  case (Cons r rs)
  show ?case
  proof (cases "search_loop cat field tname (r # rs) j cnt found = search_loop cat field tname rs (Suc j) cnt found")
    case True
    then show ?thesis using Cons.IH [of "Suc j" cnt found] Cons.prems by auto
  next
    case False
    then show ?thesis using Cons.prems Cons.IH [of "Suc j" "Suc cnt"] by (fastforce split: option.splits if_splits)
  qed
qed simp

lemma column_te_in: "SearchColumDef cat field tname rs = Some (k, i) \<Longrightarrow> k < length rs"
  unfolding SearchColumDef_def by (auto dest: search_loop_in)

lemma noted_same: "list_all2 (noted N S) rs rs' \<Longrightarrow> list_all2 same_rte rs rs'"
  by (erule list_all2_mono) (simp add: noted_def)

lemma TargetNodeProcess_resolves:
  assumes r: "list_all2 (noted N S) rs (qs_rtable st)" "rtable_ok rs" and te: "column_te cat rs name field tname = Some te"
  shows "\<exists>st'. TargetNodeProcess cat name field tname st = (Some te, st') \<and> qs_rindex st' = te_rindex te \<and> te_rindex te \<in> set (map qr_rindex rs) \<and>
     list_all2 (noted (if querylevel st > 1 then N else insert (te_rindex te) N) (if querylevel st > 1 then insert (te_rindex te) S else S)) rs (qs_rtable st') \<and>
     st' = st\<lparr>qs_rindex := qs_rindex st', qs_rtable := qs_rtable st'\<rparr>"
proof -
  obtain k i where s: "SearchColumDef cat field tname rs = Some (k, i)" using te by (auto simp: column_te_def split: bind_splits)
  have k: "k < length rs" by (rule column_te_in [OF s])
  have s': "SearchColumDef cat field tname (qs_rtable st) = Some (k, i)"
    using s search_loop_same [OF noted_same [OF r(1)]] by (simp add: SearchColumDef_def)
  have len: "length (qs_rtable st) = length rs" using r(1) by (simp add: list_all2_lengthD)
  have nk: "noted N S (rs ! k) (qs_rtable st ! k)" using r(1) k by (simp add: list_all2_conv_all_nth)
  then have eq: "qr_rindex (qs_rtable st ! k) = qr_rindex (rs ! k)" "qr_tbl (qs_rtable st ! k) = qr_tbl (rs ! k)" by (simp_all add: noted_def same_rte_def)
  have te': "te = \<lparr>te_rindex = qr_rindex (rs ! k), te_attrIndex = int i, te_name = Some (text_of (case name of None \<Rightarrow> field | Some n \<Rightarrow> n)),
       te_field = text_of field, te_vt = cd_type (cat_cols cat (qr_tbl (rs ! k)) ! i)\<rparr>"
    using te s by (simp add: column_te_def)
  have ri: "te_rindex te = qr_rindex (rs ! k)" by (simp add: te')
  let ?N = "if querylevel st > 1 then N else insert (te_rindex te) N" and ?S = "if querylevel st > 1 then insert (te_rindex te) S else S"
  let ?rt = "(qs_rtable st)[k := set_used st (AddRangTblTargetEntry te (qs_rtable st ! k))]"
  have add: "same_rte r (AddRangTblTargetEntry te r) \<and> isNeeded (AddRangTblTargetEntry te r) = isNeeded r \<and> isScaned (AddRangTblTargetEntry te r) = isScaned r" for r
    by (simp add: AddRangTblTargetEntry_def same_rte_def)
  have "noted ?N ?S (rs ! j) (?rt ! j)" if j: "j < length rs" for j
  proof (cases "j = k")
    case True
    have "noted ?N ?S (rs ! k) (set_used st (AddRangTblTargetEntry te (qs_rtable st ! k)))"
      using nk add [of "qs_rtable st ! k"] ri by (simp add: noted_def set_used_def same_rte_def)
    then show ?thesis using True k len by simp
  next
    case False
    then have "qr_rindex (rs ! j) \<noteq> te_rindex te" using r(2) j k ri by (auto simp: rtable_ok_def distinct_conv_nth)
    then show ?thesis using False r(1) j len by (auto simp: noted_def list_all2_conv_all_nth)
  qed
  then have "list_all2 (noted ?N ?S) rs ?rt" using len by (simp add: list_all2_conv_all_nth)
  moreover have "TargetNodeProcess cat name field tname st = (Some te, st\<lparr>qs_rindex := te_rindex te, qs_rtable := ?rt\<rparr>)"
    using s' by (simp add: TargetNodeProcess_def Let_def eq te')
  ultimately show ?thesis using k ri by auto
qed

lemma repeated_rindex: "repeated tes te i \<Longrightarrow> i \<in> te_rindex ` set tes"
proof -
  have "QueryRangTblTarget tes n = Some te' \<Longrightarrow> te' \<in> set tes" for n te' by (induction tes) (auto split: if_splits)
  then show "repeated tes te i \<Longrightarrow> i \<in> te_rindex ` set tes" by (auto simp: repeated_def split: option.splits)
qed

lemma Merget_rindexes: "te_rindex ` set (MergetTargetList tes tes') = te_rindex ` set tes \<union> te_rindex ` set tes'"
proof (induction tes' arbitrary: tes)
  case (Cons te tes')
  show ?case
  proof (cases "repeated tes te (te_rindex te)")
    case True
    then have "te_rindex te \<in> te_rindex ` set tes" by (rule repeated_rindex)
    then show ?thesis using Cons.IH [of tes] True by auto
  next
    case False
    then show ?thesis using Cons.IH [of "tes @ [te]"] by auto
  qed
qed simp

text \<open>The state of the analysis of a condition over the range table \<open>rs\<close>.\<close>

definition analysing :: "QRte list \<Rightarrow> int set \<Rightarrow> int set \<Rightarrow> TargetEntry list \<Rightarrow> QueryState \<Rightarrow> bool" where
  "analysing rs N S tes st \<longleftrightarrow> list_all2 (noted N S) rs (qs_rtable st) \<and> rtable_ok rs \<and> querylevel st > 1 \<and> isJoin st = 0 \<and> processState st = 0 \<and>
     qualTargetList st = tes"

lemma SubExpr_column:
  assumes st: "analysing rs N S tes st" and te: "column_te cat rs (Some field) field tname = Some te"
  shows "\<exists>st'. SubExprNodeTargetProcess cat (ColumnOperand field tname) st = ([te], ColumnRef (te_vt te) (te_attrIndex te), st') \<and>
     analysing rs N (insert (te_rindex te) S) tes st' \<and> qs_rindex st' = te_rindex te \<and> 0 < te_rindex te"
proof -
  obtain st' where t: "TargetNodeProcess cat (Some field) field tname st = (Some te, st')" "qs_rindex st' = te_rindex te" "te_rindex te \<in> set (map qr_rindex rs)"
    "list_all2 (noted N (insert (te_rindex te) S)) rs (qs_rtable st')" "st' = st\<lparr>qs_rindex := qs_rindex st', qs_rtable := qs_rtable st'\<rparr>"
    using TargetNodeProcess_resolves [OF _ _ te, of N S st] st by (auto simp: analysing_def)
  have eqs: "querylevel st' = querylevel st" "isJoin st' = isJoin st" "processState st' = processState st" "qualTargetList st' = qualTargetList st"
    by (subst t(5), simp)+
  have "analysing rs N (insert (te_rindex te) S) tes st'" using st t(4) by (simp add: analysing_def eqs)
  moreover have "0 < te_rindex te" using t(3) st by (auto simp: analysing_def rtable_ok_def)
  ultimately show ?thesis using t(1,2) by simp
qed

text \<open>An operand of an expression: what the resolution says of it, and what the code makes of it.\<close>

definition resolve_operand :: "catalog \<Rightarrow> QRte list \<Rightarrow> pnode \<Rightarrow> TargetEntry list \<Rightarrow> (TargetEntry list \<times> qual \<times> TargetEntry list) option" where
  "resolve_operand cat rs p tes = (case p of
       PColumnRef field tname \<Rightarrow> do { te \<leftarrow> column_te cat rs (Some field) field tname; Some ([te], ColumnRef (te_vt te) (te_attrIndex te), tes) }
     | _ \<Rightarrow> do { (q, tes) \<leftarrow> resolve_cond cat rs p tes; Some ([], q, tes) })"

definition operand_of :: "catalog \<Rightarrow> pnode \<Rightarrow> QueryState \<Rightarrow> (operand \<times> QueryState) option" where
  "operand_of cat p st = (case p of PColumnRef field tname \<Rightarrow> Some (ColumnOperand field tname, st)
     | _ \<Rightarrow> do { (q, st) \<leftarrow> QualNodeProcess cat p st; Some (Operand q, st) })"

lemma resolve_expr: "resolve_cond cat rs (PA_Expr op p1 p2) tes = do {
     (lt, l, tes) \<leftarrow> resolve_operand cat rs p1 tes;
     (rt, r, tes) \<leftarrow> resolve_operand cat rs p2 tes;
     q \<leftarrow> resolved_expr op lt l rt r;
     Some (q, MergetTargetList tes (MergetTargetList lt rt)) }"
  by (simp add: resolve_operand_def)

lemma QualNode_expr: "QualNodeProcess cat (PA_Expr op p1 p2) st =
     (if p1 = PNull \<or> p2 = PNull then Some (NullNode, st)
      else do { (l, st) \<leftarrow> operand_of cat p1 st; (r, st) \<leftarrow> operand_of cat p2 st; Some (SimpleExprNodeProcess cat op l r st) })"
  by (simp add: operand_of_def)

text \<open>What the processing of an operand reaches: a column is noted later, by \<^verbatim>\<open>SimpleExprNodeProcess\<close>.\<close>

definition operand_done :: "catalog \<Rightarrow> QRte list \<Rightarrow> TargetEntry list \<Rightarrow> qual \<Rightarrow> operand \<Rightarrow> bool" where
  "operand_done cat rs ot q x \<longleftrightarrow> (case x of Operand q' \<Rightarrow> q' = q \<and> ot = []
     | ColumnOperand field tname \<Rightarrow> \<exists>te. column_te cat rs (Some field) field tname = Some te \<and> ot = [te] \<and> q = ColumnRef (te_vt te) (te_attrIndex te))"

lemma SubExpr_operand:
  assumes "analysing rs N S tes st" "operand_done cat rs ot q x"
  shows "\<exists>st'. SubExprNodeTargetProcess cat x st = (ot, q, st') \<and> analysing rs N (S \<union> te_rindex ` set ot) tes st' \<and>
     (case ot of [] \<Rightarrow> True | te # _ \<Rightarrow> qs_rindex st' = te_rindex te \<and> 0 < te_rindex te)"
  using assms SubExpr_column [OF assms(1)] by (cases x) (auto simp: operand_done_def)

lemma SimpleExpr_resolves:
  assumes "analysing rs N S tes st" "operand_done cat rs lt l x" "operand_done cat rs rt r y" "te_rindex ` set tes \<subseteq> S" "resolved_expr op lt l rt r = Some q"
  shows "\<exists>st'. SimpleExprNodeProcess cat op x y st = (q, st') \<and>
     analysing rs N (S \<union> te_rindex ` set (MergetTargetList tes (MergetTargetList lt rt))) (MergetTargetList tes (MergetTargetList lt rt)) st'"
proof -
  have "analysing rs N S [] (st\<lparr>qualTargetList := []\<rparr>)" using assms(1) by (simp add: analysing_def)
  from SubExpr_operand [OF this assms(2)] obtain st1 where s1: "SubExprNodeTargetProcess cat x (st\<lparr>qualTargetList := []\<rparr>) = (lt, l, st1)"
    "analysing rs N (S \<union> te_rindex ` set lt) [] st1" "case lt of [] \<Rightarrow> True | te # _ \<Rightarrow> qs_rindex st1 = te_rindex te \<and> 0 < te_rindex te" by blast
  have "analysing rs N (S \<union> te_rindex ` set lt) [] (st1\<lparr>qualTargetList := []\<rparr>)" using s1(2) by (simp add: analysing_def)
  from SubExpr_operand [OF this assms(3)] obtain st2 where s2: "SubExprNodeTargetProcess cat y (st1\<lparr>qualTargetList := []\<rparr>) = (rt, r, st2)"
    "analysing rs N (S \<union> te_rindex ` set lt \<union> te_rindex ` set rt) [] st2" "case rt of [] \<Rightarrow> True | te # _ \<Rightarrow> qs_rindex st2 = te_rindex te \<and> 0 < te_rindex te" by blast
  have "qualTargetList st = tes" using assms(1) by (simp add: analysing_def)
  then have "SimpleExprNodeProcess cat op x y st = (q, st2\<lparr>qualTargetList := MergetTargetList tes (MergetTargetList lt rt)\<rparr>)"
    using s1(3) s2(3) assms(5) by (auto simp: SimpleExprNodeProcess_def s1(1) s2(1) resolved_expr_def split: list.splits if_splits)
  moreover have "S \<union> te_rindex ` set (MergetTargetList tes (MergetTargetList lt rt)) = S \<union> te_rindex ` set lt \<union> te_rindex ` set rt"
    using assms(4) by (auto simp: Merget_rindexes)
  ultimately show ?thesis using s2(2) by (simp add: analysing_def)
qed

lemma resolve_operand_cases:
  assumes "resolve_operand cat rs p tes = Some (ot, q, tes')"
  obtains (column) field tname te where "p = PColumnRef field tname" "column_te cat rs (Some field) field tname = Some te" "ot = [te]"
      "q = ColumnRef (te_vt te) (te_attrIndex te)" "tes' = tes"
  | (cond) "resolve_cond cat rs p tes = Some (q, tes')" "ot = []"
      "\<And>st. operand_of cat p st = do { (q, st) \<leftarrow> QualNodeProcess cat p st; Some (Operand q, st) }"
  using assms unfolding resolve_operand_def operand_of_def by (cases p) (auto split: bind_splits)

lemma resolve_grows: "resolve_cond cat rs p tes = Some (q, tes') \<Longrightarrow> te_rindex ` set tes \<subseteq> te_rindex ` set tes'"
proof (induction p arbitrary: tes q tes')
  case (PBoolExpr bop args)
  then show ?case by (auto split: list.splits bind_splits)
next
  case (PA_Expr op p1 p2)
  obtain lt l tes1 rt r tes2 where o: "resolve_operand cat rs p1 tes = Some (lt, l, tes1)" "resolve_operand cat rs p2 tes1 = Some (rt, r, tes2)"
    "tes' = MergetTargetList tes2 (MergetTargetList lt rt)"
    using PA_Expr.prems unfolding resolve_expr by (auto split: bind_splits)
  have "te_rindex ` set tes \<subseteq> te_rindex ` set tes1" using o(1) by (cases rule: resolve_operand_cases) (simp_all add: PA_Expr.IH(1))
  moreover have "te_rindex ` set tes1 \<subseteq> te_rindex ` set tes2" using o(2) by (cases rule: resolve_operand_cases) (simp_all add: PA_Expr.IH(2))
  ultimately show ?case by (auto simp: o(3) Merget_rindexes)
qed auto

lemma resolve_operand_grows: "resolve_operand cat rs p tes = Some (ot, q, tes') \<Longrightarrow> te_rindex ` set tes \<subseteq> te_rindex ` set tes'"
  by (erule resolve_operand_cases) (auto dest: resolve_grows)

lemma QualNodeProcess_resolves:
  "resolve_cond cat rs p tes = Some (q, tes') \<Longrightarrow> analysing rs N S tes st \<Longrightarrow> te_rindex ` set tes \<subseteq> S \<Longrightarrow>
   \<exists>st'. QualNodeProcess cat p st = Some (q, st') \<and> analysing rs N (S \<union> te_rindex ` set tes') tes' st'"
proof (induction p arbitrary: tes q tes' S st)
  case (PConst cv)
  then have "q = ConstNode cv" "tes' = tes" by auto
  moreover have "S \<union> te_rindex ` set tes = S" using PConst.prems(3) by blast
  ultimately show ?case using PConst.prems(2) by simp
next
  case (PBoolExpr bop args)
  obtain a b args' l t1 r t2 where p: "args = a # b # args'" "resolve_cond cat rs a [] = Some (l, t1)" "resolve_cond cat rs b t1 = Some (r, t2)"
    "q = MergerEntry bop (-1) 0 l r" "tes' = tes @ t2" using PBoolExpr.prems(1) by (auto split: list.splits bind_splits)
  have ab: "a \<in> set args" "b \<in> set args" by (simp_all add: p(1))
  have "analysing rs N S [] (st\<lparr>qualTargetList := []\<rparr>)" using PBoolExpr.prems(2) by (simp add: analysing_def)
  from PBoolExpr.IH [OF ab(1) p(2) this] obtain st1 where s1: "QualNodeProcess cat a (st\<lparr>qualTargetList := []\<rparr>) = Some (l, st1)"
    "analysing rs N (S \<union> te_rindex ` set t1) t1 st1" by auto
  from PBoolExpr.IH [OF ab(2) p(3) s1(2)] obtain st2 where s2: "QualNodeProcess cat b st1 = Some (r, st2)"
    "analysing rs N (S \<union> te_rindex ` set t1 \<union> te_rindex ` set t2) t2 st2" by auto
  have sub: "te_rindex ` set t1 \<subseteq> te_rindex ` set t2" by (rule resolve_grows [OF p(3)])
  have "qualTargetList st = tes" "isJoin st2 = 0" using PBoolExpr.prems(2) s2(2) by (simp_all add: analysing_def)
  then have "QualNodeProcess cat (PBoolExpr bop args) st = Some (q, st2\<lparr>qualTargetList := tes @ t2\<rparr>)"
    using s1(1) s2 p(1,4) by (simp add: analysing_def)
  moreover have "S \<union> te_rindex ` set (tes @ t2) = S \<union> te_rindex ` set t1 \<union> te_rindex ` set t2" using sub PBoolExpr.prems(3) by auto
  ultimately show ?case using s2(2) by (simp add: analysing_def p(5))
next
  case (PA_Expr op p1 p2)
  obtain lt l tes1 rt r tes2 where o: "resolve_operand cat rs p1 tes = Some (lt, l, tes1)" "resolve_operand cat rs p2 tes1 = Some (rt, r, tes2)"
    "resolved_expr op lt l rt r = Some q" "tes' = MergetTargetList tes2 (MergetTargetList lt rt)"
    using PA_Expr.prems(1) unfolding resolve_expr by (auto split: bind_splits)
  have nn: "p1 \<noteq> PNull" "p2 \<noteq> PNull" using o(1,2) by (auto simp: resolve_operand_def)
  have step: "\<exists>x st'. operand_of cat p st = Some (x, st') \<and> operand_done cat rs ot q x \<and> analysing rs N (S \<union> te_rindex ` set tes') tes' st'"
    if ih: "\<And>tes q tes' S st. resolve_cond cat rs p tes = Some (q, tes') \<Longrightarrow> analysing rs N S tes st \<Longrightarrow> te_rindex ` set tes \<subseteq> S \<Longrightarrow>
       \<exists>st'. QualNodeProcess cat p st = Some (q, st') \<and> analysing rs N (S \<union> te_rindex ` set tes') tes' st'"
      and op: "resolve_operand cat rs p tes = Some (ot, q, tes')" "analysing rs N S tes st" "te_rindex ` set tes \<subseteq> S" for p tes ot q tes' S st
    using op(1)
  proof (cases rule: resolve_operand_cases)
    case (column field tname te)
    have "S \<union> te_rindex ` set tes = S" using op(3) by blast
    then show ?thesis using column op(2) by (simp add: operand_of_def operand_done_def)
  next
    case cond
    show ?thesis using ih [OF cond(1) op(2,3)] cond(2,3) by (auto simp: operand_done_def)
  qed
  have "\<exists>x st1. operand_of cat p1 st = Some (x, st1) \<and> operand_done cat rs lt l x \<and> analysing rs N (S \<union> te_rindex ` set tes1) tes1 st1"
    by (rule step [OF _ o(1) PA_Expr.prems(2,3)]) (erule (2) PA_Expr.IH(1))
  then obtain x st1 where s1: "operand_of cat p1 st = Some (x, st1)" "operand_done cat rs lt l x" "analysing rs N (S \<union> te_rindex ` set tes1) tes1 st1"
    by (elim exE conjE)
  have "\<exists>y st2. operand_of cat p2 st1 = Some (y, st2) \<and> operand_done cat rs rt r y \<and> analysing rs N (S \<union> te_rindex ` set tes1 \<union> te_rindex ` set tes2) tes2 st2"
    by (rule step [OF _ o(2) s1(3) Un_upper2]) (erule (2) PA_Expr.IH(2))
  then obtain y st2 where s2: "operand_of cat p2 st1 = Some (y, st2)" "operand_done cat rs rt r y" "analysing rs N (S \<union> te_rindex ` set tes1 \<union> te_rindex ` set tes2) tes2 st2"
    by (elim exE conjE)
  have "te_rindex ` set tes2 \<subseteq> S \<union> te_rindex ` set tes1 \<union> te_rindex ` set tes2" by (rule Un_upper2)
  from SimpleExpr_resolves [OF s2(3) s1(2) s2(2) this o(3), folded o(4)] obtain st3 where s3: "SimpleExprNodeProcess cat op x y st2 = (q, st3)"
    "analysing rs N (S \<union> te_rindex ` set tes1 \<union> te_rindex ` set tes2 \<union> te_rindex ` set tes') tes' st3" by (elim exE conjE)
  have "te_rindex ` set tes1 \<union> te_rindex ` set tes2 \<subseteq> te_rindex ` set tes'"
    using resolve_operand_grows [OF o(2)] by (auto simp: o(4) Merget_rindexes)
  then have "S \<union> te_rindex ` set tes1 \<union> te_rindex ` set tes2 \<union> te_rindex ` set tes' = S \<union> te_rindex ` set tes'" by blast
  then show ?case using s1(1) s2(1) s3 nn by (simp add: QualNode_expr del: QualNodeProcess.simps)
qed (auto)

section \<open>The targets of a query\<close>

definition all_targets :: "catalog \<Rightarrow> QRte list \<Rightarrow> TargetEntry list" where
  "all_targets cat rs = concat (map (TargetRewriteAllColumnsOneRte cat []) rs)"

fun resolve_targets :: "catalog \<Rightarrow> QRte list \<Rightarrow> ResTarget list \<Rightarrow> TargetEntry list option" where
  "resolve_targets cat rs [] = Some []"
| "resolve_targets cat rs (t # rest) =
     (case (res_setValue t, res_val t) of
        (PNull, PNull) \<Rightarrow> if res_all t then map_option (\<lambda>tes. all_targets cat rs @ tes) (resolve_targets cat rs rest) else None
      | (PNull, PColumnRef field tname) \<Rightarrow> do {
          te \<leftarrow> column_te cat rs (res_name t) field tname;
          tes \<leftarrow> resolve_targets cat rs rest;
          Some (te # tes) }
      | _ \<Rightarrow> None)"

definition tables_exist :: "catalog \<Rightarrow> QRte list \<Rightarrow> bool" where
  "tables_exist cat rs \<longleftrightarrow> (\<forall>r \<in> set rs. qr_tbl r \<noteq> 0 \<and> cat_cols cat (qr_tbl r) \<noteq> [])"

lemma OneRte_append: "TargetRewriteAllColumnsOneRte cat tes r = tes @ TargetRewriteAllColumnsOneRte cat [] r"
  by (simp add: TargetRewriteAllColumnsOneRte_def)

lemma OneRte_same: "same_rte r r' \<Longrightarrow> TargetRewriteAllColumnsOneRte cat tes r' = TargetRewriteAllColumnsOneRte cat tes r"
  by (simp add: TargetRewriteAllColumnsOneRte_def same_rte_def)

lemma OneRte_rindex: "qr_tbl r \<noteq> 0 \<Longrightarrow> cat_cols cat (qr_tbl r) \<noteq> [] \<Longrightarrow> te_rindex ` set (TargetRewriteAllColumnsOneRte cat [] r) = {qr_rindex r}"
  by (simp add: TargetRewriteAllColumnsOneRte_def image_image case_prod_beta image_constant_conv enumerate_eq_zip)

lemma all_targets_fold: "list_all2 same_rte rs rs' \<Longrightarrow> fold (\<lambda>r tes. TargetRewriteAllColumnsOneRte cat tes r) rs' tes = tes @ all_targets cat rs"
proof (induction rs arbitrary: rs' tes)
  case (Cons r rs)
  then obtain r' rs1 where r: "rs' = r' # rs1" "same_rte r r'" "list_all2 same_rte rs rs1" by (auto simp: list_all2_Cons1)
  show ?case using Cons.IH [OF r(3)] OneRte_append [of cat tes r] by (simp add: r(1) OneRte_same [OF r(2)] all_targets_def)
qed (simp add: all_targets_def)

lemma all_targets_rindexes: "tables_exist cat rs \<Longrightarrow> te_rindex ` set (all_targets cat rs) = set (map qr_rindex rs)"
  by (induction rs) (simp_all add: all_targets_def tables_exist_def image_Un OneRte_rindex)

lemma ProcessCheckTargetList_resolves:
  assumes "rtable_ok rs" "tables_exist cat rs"
  shows "resolve_targets cat rs targets = Some tes \<Longrightarrow> list_all2 (noted N {}) rs (qs_rtable st) \<Longrightarrow> querylevel st = 1 \<Longrightarrow>
    \<exists>st'. ProcessCheckTargetList cat targets acc st = Some (acc @ map (\<lambda>te. (te, NullNode)) tes, st') \<and>
      list_all2 (noted (N \<union> te_rindex ` set tes) {}) rs (qs_rtable st') \<and> querylevel st' = 1 \<and> isJoin st' = isJoin st \<and> processState st' = processState st"
proof (induction targets arbitrary: tes N st acc)
  case (Cons t rest)
  have "res_setValue t = PNull" using Cons.prems(1) by (cases "res_setValue t") (auto split: pnode.splits)
  then consider (all) tes1 where "res_val t = PNull" "res_all t" "resolve_targets cat rs rest = Some tes1" "tes = all_targets cat rs @ tes1" "res_setValue t = PNull"
    | (column) field tname te tes1 where "res_val t = PColumnRef field tname" "column_te cat rs (res_name t) field tname = Some te"
        "resolve_targets cat rs rest = Some tes1" "tes = te # tes1" "res_setValue t = PNull"
    using Cons.prems(1) by (auto split: pnode.splits if_splits bind_splits)
  then show ?case
  proof cases
    case all
    let ?st = "st\<lparr>qs_rtable := map (set_used st) (qs_rtable st)\<rparr>"
    have "list_all2 (noted (N \<union> set (map qr_rindex rs)) {}) rs (map (set_used st) (qs_rtable st))"
      using Cons.prems(2,3) by (auto simp: list_all2_conv_all_nth noted_def set_used_def same_rte_def)
    from Cons.IH [OF all(3), of "N \<union> set (map qr_rindex rs)" ?st "acc @ map (\<lambda>te. (te, NullNode)) (all_targets cat rs)"] this Cons.prems(3)
    obtain st' where st': "ProcessCheckTargetList cat rest (acc @ map (\<lambda>te. (te, NullNode)) (all_targets cat rs)) ?st = Some ((acc @ map (\<lambda>te. (te, NullNode)) (all_targets cat rs)) @ map (\<lambda>te. (te, NullNode)) tes1, st')"
      "list_all2 (noted (N \<union> set (map qr_rindex rs) \<union> te_rindex ` set tes1) {}) rs (qs_rtable st')" "querylevel st' = 1" "isJoin st' = isJoin st" "processState st' = processState st"
      by auto
    have "TargetRewriteAllColumns cat [] st = (all_targets cat rs, ?st)"
      using all_targets_fold [OF noted_same [OF Cons.prems(2)], of cat "[]"] by (simp add: TargetRewriteAllColumns_def)
    moreover have "N \<union> te_rindex ` set tes = N \<union> set (map qr_rindex rs) \<union> te_rindex ` set tes1"
      using all_targets_rindexes [OF assms(2)] all(4) by (simp add: image_Un Un_assoc)
    ultimately show ?thesis using st' all by simp
  next
    case column
    obtain st1 where s1: "TargetNodeProcess cat (res_name t) field tname st = (Some te, st1)" "list_all2 (noted (insert (te_rindex te) N) {}) rs (qs_rtable st1)"
      "st1 = st\<lparr>qs_rindex := qs_rindex st1, qs_rtable := qs_rtable st1\<rparr>"
      using TargetNodeProcess_resolves [OF Cons.prems(2) assms(1) column(2)] Cons.prems(3) by auto
    have e: "querylevel st1 = querylevel st" "isJoin st1 = isJoin st" "processState st1 = processState st" by (subst s1(3), simp)+
    from Cons.IH [OF column(3) s1(2), of "acc @ [(te, NullNode)]"] Cons.prems(3) e
    obtain st' where "ProcessCheckTargetList cat rest (acc @ [(te, NullNode)]) st1 = Some ((acc @ [(te, NullNode)]) @ map (\<lambda>te. (te, NullNode)) tes1, st')"
      "list_all2 (noted (insert (te_rindex te) N \<union> te_rindex ` set tes1) {}) rs (qs_rtable st')" "querylevel st' = 1" "isJoin st' = isJoin st" "processState st' = processState st"
      by auto
    then show ?thesis using column s1(1) by simp
  qed
qed simp

section \<open>The plan of a query\<close>

lemma From_rtable:
  "RangTblRewriteFromClause cat vs i = Some (rs, j) \<Longrightarrow> k < length rs \<Longrightarrow>
     qr_rindex (rs ! k) = i + int k \<and> \<not> isNeeded (rs ! k) \<and> \<not> isScaned (rs ! k) \<and> qr_targets (rs ! k) = [] \<and> qr_tbl (rs ! k) \<noteq> 0"
proof (induction vs arbitrary: i rs k)
  case (Cons v vs)
  obtain r rs1 where r: "GetRangTblNode cat (relname v) = Some r" "RangTblRewriteFromClause cat vs (i + 1) = Some (rs1, j)"
    "rs = r\<lparr>qr_rindex := i, qr_relname := (case rv_alias v of None \<Rightarrow> relname v | Some a \<Rightarrow> a)\<rparr> # rs1"
    using Cons.prems(1) by (auto split: bind_splits)
  show ?case using Cons.IH [OF r(2)] Cons.prems(2) r(1,3) by (cases k) (auto simp: GetRangTblNode_def split: if_splits)
qed simp

lemma From_ok:
  assumes "RangTblRewriteFromClause cat vs 1 = Some (rs, j)"
  shows "rtable_ok rs" "list_all2 (noted {} {}) rs rs" "k < length rs \<Longrightarrow> GetCellValueByIndex (Some (map f rs)) (qr_rindex (rs ! k)) = Some (f (rs ! k))"
proof -
  note r = From_rtable [OF assms]
  show "rtable_ok rs" using r by (auto simp: rtable_ok_def distinct_conv_nth in_set_conv_nth)
  show "list_all2 (noted {} {}) rs rs" using r by (auto simp: list_all2_conv_all_nth noted_def same_rte_def)
  show "k < length rs \<Longrightarrow> GetCellValueByIndex (Some (map f rs)) (qr_rindex (rs ! k)) = Some (f (rs ! k))"
    using r [of k] by (simp add: GetCellValueByIndex_def arr_get_def)
qed

text \<open>The columns that the plan reads of a table: those of the condition, or if it has none those of the targets, or if they have none all.\<close>

definition planned_columns :: "catalog \<Rightarrow> TargetEntry list \<Rightarrow> TargetEntry list \<Rightarrow> QRte \<Rightarrow> int list" where
  "planned_columns cat tes conds r = scan_columns cat r
     (if qr_rindex r \<in> te_rindex ` set conds then conds else if qr_rindex r \<in> te_rindex ` set tes then tes else TargetRewriteAllColumnsOneRte cat [] r)"

definition desc_for :: "catalog \<Rightarrow> TargetEntry list \<Rightarrow> TargetEntry list \<Rightarrow> QRte \<Rightarrow> table_desc \<Rightarrow> bool" where
  "desc_for cat tes conds r d \<longleftrightarrow> d_tbl d = qr_tbl r \<and> d_rindex d = qr_rindex r \<and> d_colNum d = length (cat_cols cat (qr_tbl r)) \<and> map int (d_cols d) = planned_columns cat tes conds r"

lemma scan_columns_tbl: "scan_columns cat r (GetTblTargetList tes (qr_rindex r)) = scan_columns cat r tes"
  by (simp add: scan_columns_def GetTblTargetList_def eq_commute)

lemma table_targets_columns:
  assumes "noted (te_rindex ` set tes) (te_rindex ` set conds) r r'"
  shows "scan_columns cat r' (table_targets cat tes conds r') = planned_columns cat tes conds r"
proof -
  have e: "qr_rindex r' = qr_rindex r" "qr_tbl r' = qr_tbl r" using assms by (simp_all add: noted_def same_rte_def)
  have "scan_columns cat r' ts = scan_columns cat r ts" for ts by (simp add: scan_columns_def e)
  moreover have "table_targets cat tes conds r' = (if qr_rindex r \<in> te_rindex ` set conds then GetTblTargetList conds (qr_rindex r)
     else if qr_rindex r \<in> te_rindex ` set tes then GetTblTargetList tes (qr_rindex r) else TargetRewriteAllColumnsOneRte cat [] r)"
    using assms by (simp add: table_targets_def noted_def e OneRte_same)
  ultimately show ?thesis by (simp add: planned_columns_def scan_columns_tbl)
qed

lemma join_tree_plan:
  assumes "\<And>k. k < Suc (length rs) \<Longrightarrow> ProcessScanNode cat q (qr_rindex ((r # rs) ! k)) (tg ((r # rs) ! k)) =
     Some (SeqScan (d_tbl ((d # ds) ! k)) (d_rindex ((d # ds) ! k)) (map int (d_cols ((d # ds) ! k))) (d_colNum ((d # ds) ! k)))" "length ds = length rs"
  shows "ProcessJoinTree cat q (fold (\<lambda>r t. AddJoinTblNode t r (tg r)) (r # rs) RtNull) = Some (tree_plan d (rev ds)) \<and>
    GetNodeRtNum (fold (\<lambda>r t. AddJoinTblNode t r (tg r)) (r # rs) RtNull) = Suc (length rs) \<and>
    (\<forall>t' tes'. AddJoinTblNode (fold (\<lambda>r t. AddJoinTblNode t r (tg r)) (r # rs) RtNull) t' tes' =
       (let left = fold (\<lambda>r t. AddJoinTblNode t r (tg r)) (r # rs) RtNull; right = AddNormalTblNode t' tes'
        in RtJoin (GetNodeRtNum left + GetNodeRtNum right) (MergeNodeTargetList left right) left right))"
  using assms
proof (induction rs arbitrary: ds rule: rev_induct)
  case Nil
  then show ?case using Nil(1) [of 0] by (simp add: AddNormalTblNode_def Let_def)
next
  case (snoc x rs)
  obtain e es where ds: "ds = es @ [e]" "length es = length rs" using snoc.prems(2) by (cases ds rule: rev_cases) auto
  have pr: "ProcessScanNode cat q (qr_rindex ((r # rs) ! k)) (tg ((r # rs) ! k)) =
     Some (SeqScan (d_tbl ((d # es) ! k)) (d_rindex ((d # es) ! k)) (map int (d_cols ((d # es) ! k))) (d_colNum ((d # es) ! k)))" if "k < Suc (length rs)" for k
  proof -
    have "(r # rs @ [x]) ! k = (r # rs) ! k" "(d # ds) ! k = (d # es) ! k" using that ds by (cases k; simp add: nth_append)+
    then show ?thesis using snoc.prems(1) [of k] that by simp
  qed
  let ?t = "fold (\<lambda>r t. AddJoinTblNode t r (tg r)) (r # rs) RtNull"
  have all: "ProcessJoinTree cat q ?t = Some (tree_plan d (rev es)) \<and> GetNodeRtNum ?t = Suc (length rs) \<and>
    (\<forall>t' tes'. AddJoinTblNode ?t t' tes' = (let left = ?t; right = AddNormalTblNode t' tes'
        in RtJoin (GetNodeRtNum left + GetNodeRtNum right) (MergeNodeTargetList left right) left right))"
    by (rule snoc.IH [OF _ ds(2)]) (rule pr)
  note ih = all [THEN conjunct1] all [THEN conjunct2, THEN conjunct1] all [THEN conjunct2, THEN conjunct2, rule_format]
  have sc: "ProcessScanNode cat q (qr_rindex x) (tg x) = Some (SeqScan (d_tbl e) (d_rindex e) (map int (d_cols e)) (d_colNum e))"
    using snoc.prems(1) [of "Suc (length rs)"] ds by (simp add: nth_append)
  have "fold (\<lambda>r t. AddJoinTblNode t r (tg r)) (r # rs @ [x]) RtNull = AddJoinTblNode ?t x (tg x)" by simp
  also have "\<dots> = RtJoin (Suc (Suc (length rs))) (MergeNodeTargetList ?t (AddNormalTblNode x (tg x))) ?t (AddNormalTblNode x (tg x))"
    by (simp only: ih(3) Let_def ih(2) AddNormalTblNode_def GetNodeRtNum.simps) simp
  finally have f: "fold (\<lambda>r t. AddJoinTblNode t r (tg r)) (r # rs @ [x]) RtNull =
     RtJoin (Suc (Suc (length rs))) (MergeNodeTargetList ?t (AddNormalTblNode x (tg x))) ?t (AddNormalTblNode x (tg x))" .
  show ?case unfolding f using ih(1) by (simp add: sc ds AddNormalTblNode_def Let_def)
qed

lemma resolve_cond_not_null: "resolve_cond cat rs w tes = Some (q, tes') \<Longrightarrow> q \<noteq> NullNode"
  by (cases w) (auto simp: resolved_expr_def split: list.splits bind_splits if_splits)

text \<open>The resolved condition evaluates to the value of the condition as it is written.\<close>

lemma resolve_operand_value:
  assumes "resolve_operand cat rs p tes = Some (ot, q, tes')"
    and "\<And>tes q tes' parent left. resolve_cond cat rs p tes = Some (q, tes') \<Longrightarrow> qeval look con q parent left = cond_value cat rs look con p"
    and "\<And>a as. ot = a # as \<Longrightarrow> (if left then i else j) = te_rindex a"
  shows "qeval look con q (Some (i, j)) left = cond_value cat rs look con p"
  using assms(1)
proof (cases rule: resolve_operand_cases)
  case (column field tname te)
  then show ?thesis using assms(3) by (auto simp: column_te_def split: bind_splits)
next
  case cond
  then show ?thesis using assms(2) by blast
qed

lemma resolve_cond_value: "resolve_cond cat rs p tes = Some (q, tes') \<Longrightarrow> qeval look con q parent left = cond_value cat rs look con p"
proof (induction p arbitrary: tes q tes' parent left)
  case (PBoolExpr bop args)
  obtain a b args' l t1 r t2 where p: "args = a # b # args'" "resolve_cond cat rs a [] = Some (l, t1)" "resolve_cond cat rs b t1 = Some (r, t2)"
    "q = MergerEntry bop (-1) 0 l r" using PBoolExpr.prems by (auto split: list.splits bind_splits)
  have ab: "a \<in> set args" "b \<in> set args" by (simp_all add: p(1))
  have "r \<noteq> NullNode" by (rule resolve_cond_not_null [OF p(3)])
  then show ?case by (cases bop) (simp_all add: p(1,4) PBoolExpr.IH [OF ab(1) p(2)] PBoolExpr.IH [OF ab(2) p(3)])
next
  case (PA_Expr op p1 p2)
  obtain lt l tes1 rt r tes2 where o: "resolve_operand cat rs p1 tes = Some (lt, l, tes1)" "resolve_operand cat rs p2 tes1 = Some (rt, r, tes2)"
    "resolved_expr op lt l rt r = Some q"
    using PA_Expr.prems(1) unfolding resolve_expr by (auto split: bind_splits)
  obtain i j where q: "q = ExprEntry op i j l r" "\<And>a as. lt = a # as \<Longrightarrow> i = te_rindex a" "\<And>a as. rt = a # as \<Longrightarrow> j = te_rindex a"
    using o(3) by (auto simp: resolved_expr_def split: list.splits if_splits)
  have "qeval look con l (Some (i, j)) True = cond_value cat rs look con p1"
    by (rule resolve_operand_value [OF o(1)]) (use PA_Expr.IH(1) q(2) in auto)
  moreover have "qeval look con r (Some (i, j)) False = cond_value cat rs look con p2"
    by (rule resolve_operand_value [OF o(2)]) (use PA_Expr.IH(2) q(3) in auto)
  ultimately show ?case by (simp add: q(1))
qed auto

text \<open>The rows that a select statement with the condition \<open>w\<close> answers with: those of the product of its tables for which the condition as it is written holds.\<close>

definition answer_of :: "catalog \<Rightarrow> QRte list \<Rightarrow> pnode \<Rightarrow> (ConstValue \<Rightarrow> sql_value option) \<Rightarrow> dbst \<Rightarrow> TargetEntry list \<Rightarrow> table_desc list \<Rightarrow> sql_value list list" where
  "answer_of cat rs w con db tes ds = (let rt = Some (map rte_of rs) in
     map (the \<circ> answer_row rt tes) (filter (\<lambda>r. Option.bind (cond_value cat rs (row_look rt r) con w) truth_of = Some True) (product_rows db ds)))"

lemma selected_answer:
  "resolve_cond cat rs w tes0 = Some (q, conds) \<Longrightarrow> selected db tes (Some (map rte_of rs)) [q] con ds = answer_of cat rs w con db tes ds"
  by (auto simp: selected_def answer_of_def passes_def qual_truth_def resolve_cond_value Let_def intro!: arg_cong [where f = "map _"] filter_cong)

lemma select_planned:
  assumes frm: "RangTblRewriteFromClause cat vs 1 = Some (rs, n)" and tabs: "\<forall>r \<in> set rs. cat_cols cat (qr_tbl r) \<noteq> []"
    and tes: "resolve_targets cat rs targets = Some tes" "tes \<noteq> []" and cond: "resolve_cond cat rs w [] = Some (q, conds)"
    and ds: "list_all2 (desc_for cat tes conds) rs (d # ds)"
  shows "\<exists>query. transformStmt cat (SelectStmt targets (Some vs) (Some [w])) = Some (Some query) \<and>
    SubPlanProcess cat query = Some (QueryRoot (select_plan tes (Some (map rte_of rs)) [q] d ds))"
proof -
  note ok = From_ok [OF frm]
  have ex: "tables_exist cat rs" using tabs From_rtable [OF frm] by (auto simp: tables_exist_def in_set_conv_nth)
  let ?st0 = "NewQueryState\<lparr>qs_rtable := rs, qs_rindex := n\<rparr>" and ?tgs = "map (\<lambda>te. (te, NullNode)) tes"
  obtain st1 where s1: "ProcessCheckTargetList cat targets [] ?st0 = Some (?tgs, st1)" "list_all2 (noted (te_rindex ` set tes) {}) rs (qs_rtable st1)"
    "querylevel st1 = 1" "isJoin st1 = 0" "processState st1 = 0"
    using ProcessCheckTargetList_resolves [OF ok(1) ex tes(1), of "{}" ?st0 "[]"] ok(2) by (auto simp: NewQueryState_def)
  let ?st1 = "st1\<lparr>querylevel := 2, qualTargetList := []\<rparr>"
  have "analysing rs (te_rindex ` set tes) {} [] ?st1" using s1 ok(1) by (simp add: analysing_def)
  from QualNodeProcess_resolves [OF cond this] obtain st2 where s2: "QualNodeProcess cat w ?st1 = Some (q, st2)"
    "analysing rs (te_rindex ` set tes) (te_rindex ` set conds) conds st2" by auto
  have nn: "q \<noteq> NullNode" by (rule resolve_cond_not_null [OF cond])
  have s2': "qualTargetList st2 = conds" "processState st2 = 0" "list_all2 (noted (te_rindex ` set tes) (te_rindex ` set conds)) rs (qs_rtable st2)"
    using s2(2) by (simp_all add: analysing_def)
  let ?rs = "map (\<lambda>r. r\<lparr>qr_targets := table_targets cat tes conds r\<rparr>) (qs_rtable st2)"
  let ?t = "fold (\<lambda>r t. AddJoinTblNode t r (qr_targets r)) ?rs RtNull"
  let ?q = "\<lparr>commandType = CMD_SELECT, q_targetList = ?tgs, q_rtable = ?rs, joinTree = [q], rtjoinTree = ?t, parserTree = None\<rparr>"
  have fst: "map fst ?tgs = tes" by (simp add: comp_def)
  have "where_query cat CMD_SELECT ?tgs (Some [w]) st1 = Some (Some ?q)"
    using s2(1) nn tes(2) s2'(1,2) by (simp add: where_query_def CommonQueryTransform_def comp_def Let_def)
  then have tr: "transformStmt cat (SelectStmt targets (Some vs) (Some [w])) = Some (Some ?q)"
    using frm s1(1) by (simp add: transformSelectStmt_def NewQueryState_def FIRST_RANGTABLE_INDEX_def)
  have rows: "map rte_of ?rs = map rte_of rs"
    using s2'(3) by (auto simp: list_all2_conv_all_nth noted_def same_rte_def rte_of_def intro!: nth_equalityI)
  have len: "length ?rs = Suc (length ds)" "length (qs_rtable st2) = length rs" "length rs = Suc (length ds)"
    using list_all2_lengthD [OF s2'(3)] list_all2_lengthD [OF ds] by simp_all
  obtain r0 rs0 where rs0: "?rs = r0 # rs0" using len(1) by (cases ?rs) simp_all
  have sc: "ProcessScanNode cat ?q (qr_rindex (?rs ! k)) (qr_targets (?rs ! k)) =
     Some (SeqScan (d_tbl ((d # ds) ! k)) (d_rindex ((d # ds) ! k)) (map int (d_cols ((d # ds) ! k))) (d_colNum ((d # ds) ! k)))" if k: "k < Suc (length ds)" for k
  proof -
    let ?r = "rs ! k" and ?r' = "?rs ! k"
    have nt: "noted (te_rindex ` set tes) (te_rindex ` set conds) ?r (qs_rtable st2 ! k)" using s2'(3) k len by (simp add: list_all2_conv_all_nth)
    have r': "?r' = (qs_rtable st2 ! k)\<lparr>qr_targets := table_targets cat tes conds (qs_rtable st2 ! k)\<rparr>" using k len by simp
    have e: "qr_rindex ?r' = qr_rindex ?r" "qr_tbl ?r' = qr_tbl ?r" "qr_targets ?r' = table_targets cat tes conds (qs_rtable st2 ! k)"
      using nt by (simp_all add: r' noted_def same_rte_def)
    have "GetCellValueByIndex (Some ?rs) (qr_rindex ?r) = Some ?r'"
      using From_rtable [OF frm, of k] k len by (simp add: GetCellValueByIndex_def arr_get_def)
    moreover have "scan_columns cat ?r' xs = scan_columns cat (qs_rtable st2 ! k) xs" for xs by (simp add: scan_columns_def r')
    moreover have "desc_for cat tes conds ?r ((d # ds) ! k)" using ds k len by (simp add: list_all2_conv_all_nth)
    ultimately show ?thesis using table_targets_columns [OF nt] by (simp add: ProcessScanNode_def e desc_for_def del: nth_map list.map nth_Cons_Suc)
  qed
  have "ProcessJoinTree cat ?q ?t = Some (tree_plan d (rev ds))"
    unfolding rs0 by (rule join_tree_plan [THEN conjunct1]) (use sc rs0 len(1) in \<open>simp_all del: nth_map list.map nth_Cons_Suc\<close>)
  then have "SubPlanProcess cat ?q = Some (QueryRoot (select_plan tes (Some (map rte_of rs)) [q] d ds))"
    using rows fst tes(2) by (simp add: SubPlanProcess_def subPlanSelectStmt_def row_plan_def ProcessTableScan_def ProcessSelectQual_def ProcessTopNode_def
        plan_rtable_def select_plan_def del: fold_map map_map list.map)
  then show ?thesis using tr by blast
qed

section \<open>A constant on the left\<close>

text \<open>The indexes of the tables, which the analysis of a statement does not change.\<close>

definition rindexes :: "QueryState \<Rightarrow> int list" where
  "rindexes st = map qr_rindex (qs_rtable st)"

lemma TargetNodeProcess_rindexes:
  assumes "TargetNodeProcess cat name field tname st = (x, st')"
  shows "rindexes st' = rindexes st"
proof (cases "SearchColumDef cat field tname (qs_rtable st)")
  case (Some ki)
  obtain k i where ki: "ki = (k, i)" by (cases ki)
  have "k < length (qs_rtable st)" using Some ki by (auto dest: column_te_in)
  then have "(map qr_rindex (qs_rtable st))[k := qr_rindex (qs_rtable st ! k)] = map qr_rindex (qs_rtable st)"
    by (simp flip: map_update)
  then show ?thesis using assms Some ki
    by (auto simp: TargetNodeProcess_def rindexes_def Let_def map_update set_used_def AddRangTblTargetEntry_def)
qed (use assms in \<open>auto simp: TargetNodeProcess_def rindexes_def\<close>)

lemma SubExpr_rindexes: "SubExprNodeTargetProcess cat x st = (tes, q, st') \<Longrightarrow> rindexes st' = rindexes st"
  by (cases x) (auto split: prod.splits option.splits dest: TargetNodeProcess_rindexes)

lemma rindexes_quals [simp]: "rindexes (st\<lparr>qualTargetList := tes\<rparr>) = rindexes st"
  by (simp add: rindexes_def)

lemma SimpleExpr_rindexes:
  assumes "SimpleExprNodeProcess cat op x y st = (q, st')"
  shows "rindexes st' = rindexes st"
proof -
  obtain ls l st1 where 1: "SubExprNodeTargetProcess cat x (st\<lparr>qualTargetList := []\<rparr>) = (ls, l, st1)" by (metis prod_cases3)
  obtain rs r st2 where 2: "SubExprNodeTargetProcess cat y (st1\<lparr>qualTargetList := []\<rparr>) = (rs, r, st2)" by (metis prod_cases3)
  have "\<exists>tes. st' = st2\<lparr>qualTargetList := tes\<rparr>" using assms by (auto simp: SimpleExprNodeProcess_def 1 2 Let_def)
  then show ?thesis using SubExpr_rindexes [OF 1] SubExpr_rindexes [OF 2] by auto
qed

lemma QualNodeProcess_rindexes: "QualNodeProcess cat p st = Some (q, st') \<Longrightarrow> rindexes st' = rindexes st"
proof (induction p arbitrary: q st st')
  case (PBoolExpr bop args)
  then obtain a b args' l st1 r st2 where p: "args = a # b # args'" "QualNodeProcess cat a (st\<lparr>qualTargetList := []\<rparr>) = Some (l, st1)"
    "QualNodeProcess cat b st1 = Some (r, st2)" "st' = st2\<lparr>qualTargetList := qualTargetList st @ qualTargetList st2\<rparr>"
    by (auto split: list.splits bind_splits)
  then show ?case using PBoolExpr.IH [of a, OF _ p(2)] PBoolExpr.IH [of b, OF _ p(3)] by (simp add: p(1,4))
next
  case (PA_Expr op p1 p2)
  show ?case
  proof (cases "p1 = PNull \<or> p2 = PNull")
    case False
    then obtain x st1 y st2 where o: "operand_of cat p1 st = Some (x, st1)" "operand_of cat p2 st1 = Some (y, st2)" "SimpleExprNodeProcess cat op x y st2 = (q, st')"
      using PA_Expr.prems unfolding QualNode_expr by (auto split: bind_splits)
    have "rindexes st1 = rindexes st" using o(1) PA_Expr.IH(1) unfolding operand_of_def by (cases p1) (auto split: bind_splits simp del: QualNodeProcess.simps)
    moreover have "rindexes st2 = rindexes st1" using o(2) PA_Expr.IH(2) unfolding operand_of_def by (cases p2) (auto split: bind_splits simp del: QualNodeProcess.simps)
    ultimately show ?thesis using SimpleExpr_rindexes [OF o(3)] by simp
  qed (use PA_Expr.prems in auto)
qed auto

lemma AllColumns_rindexes: "TargetRewriteAllColumns cat tes st = (all, st') \<Longrightarrow> rindexes st' = rindexes st"
  by (auto simp: TargetRewriteAllColumns_def rindexes_def set_used_def)

lemma ProcessCheck_rindexes: "ProcessCheckTargetList cat targets acc st = Some (tes, st') \<Longrightarrow> rindexes st' = rindexes st"
proof (induction targets arbitrary: acc st)
  case (Cons t rest)
  show ?case
  proof (cases "res_val t")
    case PNull
    then show ?thesis using Cons by (auto split: if_splits bind_splits prod.splits dest!: AllColumns_rindexes QualNodeProcess_rindexes)
  next
    case (PColumnRef field tname)
    then show ?thesis using Cons
      by (auto split: bind_splits prod.splits option.splits dest!: TargetNodeProcess_rindexes QualNodeProcess_rindexes)
  qed (use Cons.prems in auto)
qed simp

lemma mirrored_condition:
  assumes "\<forall>i \<in> set (rindexes st). 0 \<le> i"
  obtains (found) q st' where "QualNodeProcess cat (PA_Expr op (PConst c) (PColumnRef field tname)) st = Some (q, st')"
      "QualNodeProcess cat (PA_Expr op (PColumnRef field tname) (PConst c)) st = Some (q, st')"
  | (missing) q q' st' where "QualNodeProcess cat (PA_Expr op (PConst c) (PColumnRef field tname)) st = Some (q, st')"
      "QualNodeProcess cat (PA_Expr op (PColumnRef field tname) (PConst c)) st = Some (q', st')" "processState st' = -1" "q \<noteq> NullNode" "q' \<noteq> NullNode"
proof (cases "SearchColumDef cat field tname (qs_rtable st)")
  case None
  then have "TargetNodeProcess cat n field tname (st\<lparr>qualTargetList := []\<rparr>) = (None, st\<lparr>qualTargetList := [], processState := -1\<rparr>)" for n
    by (simp add: TargetNodeProcess_def)
  then show ?thesis using missing by (simp add: SimpleExprNodeProcess_def)
next
  case (Some ki)
  obtain k i where ki: "ki = (k, i)" by (cases ki)
  obtain te st1 where tn: "TargetNodeProcess cat (Some field) field tname (st\<lparr>qualTargetList := []\<rparr>) = (Some te, st1)" "qs_rindex st1 = qr_rindex (qs_rtable st ! k)"
    "qualTargetList st1 = []"
    using Some ki by (simp add: TargetNodeProcess_def Let_def)
  have "k < length (qs_rtable st)" using Some ki by (auto dest: column_te_in)
  then have "0 \<le> qs_rindex st1" using assms tn(2) by (auto simp: rindexes_def)
  moreover have "MergetTargetList [] [te] = [te]" by (simp add: repeated_def)
  moreover have "st1\<lparr>qualTargetList := []\<rparr> = st1" using tn(3) by simp
  ultimately show ?thesis using found tn(1) by (simp add: SimpleExprNodeProcess_def)
qed

lemma where_query_mirrored:
  assumes "\<forall>i \<in> set (rindexes st). 0 \<le> i"
  shows "where_query cat cmd targets (Some [PA_Expr op (PConst c) (PColumnRef field tname)]) st =
    where_query cat cmd targets (Some [PA_Expr op (PColumnRef field tname) (PConst c)]) st"
proof -
  let ?st = "st\<lparr>querylevel := 2, qualTargetList := []\<rparr>"
  have "\<forall>i \<in> set (rindexes ?st). 0 \<le> i" using assms by (simp add: rindexes_def)
  then show ?thesis
  proof (cases rule: mirrored_condition [of ?st cat op c field tname])
    case (found q st')
    then show ?thesis by (simp add: where_query_def del: QualNodeProcess.simps)
  next
    case (missing q q' st')
    then show ?thesis by (simp add: where_query_def CommonQueryTransform_def Let_def del: QualNodeProcess.simps)
  qed
qed

text \<open>C40: A condition with a constant on its left is analysed as the one with the operands exchanged and the same operator: \<open>5 < x\<close> selects as \<open>x < 5\<close> does.\<close>

theorem constant_on_the_left_is_swapped:
  "transformSelectStmt cat targets tables (Some [PA_Expr op (PConst c) (PColumnRef field tname)]) =
   transformSelectStmt cat targets tables (Some [PA_Expr op (PColumnRef field tname) (PConst c)])"
proof -
  have "where_query cat CMD_SELECT tes (Some [PA_Expr op (PConst c) (PColumnRef field tname)]) st =
      where_query cat CMD_SELECT tes (Some [PA_Expr op (PColumnRef field tname) (PConst c)]) st"
    if f: "RangTblRewriteFromClause cat vs 1 = Some (rs, n)" "ProcessCheckTargetList cat targets [] (NewQueryState\<lparr>qs_rtable := rs, qs_rindex := n\<rparr>) = Some (tes, st)"
    for vs rs n tes st
  proof (rule where_query_mirrored)
    show "\<forall>i \<in> set (rindexes st). 0 \<le> i"
      using ProcessCheck_rindexes [OF f(2)] From_rtable [OF f(1)] by (auto simp: rindexes_def in_set_conv_nth)
  qed
  then show ?thesis
    by (auto simp: transformSelectStmt_def NewQueryState_def FIRST_RANGTABLE_INDEX_def split: option.splits intro!: Option.bind_cong)
qed

section \<open>Two columns of one table\<close>

lemma set_used_same: "same_rte r (set_used st (AddRangTblTargetEntry te r))"
  by (simp add: same_rte_def set_used_def AddRangTblTargetEntry_def)

lemma TargetNodeProcess_found:
  assumes "SearchColumDef cat field tname (qs_rtable st) = Some (k, i)"
  obtains te st' where "TargetNodeProcess cat name field tname st = (Some te, st')" "qs_rindex st' = qr_rindex (qs_rtable st ! k)"
    "te_vt te = cd_type (cat_cols cat (qr_tbl (qs_rtable st ! k)) ! i)" "te_attrIndex te = int i" "list_all2 same_rte (qs_rtable st) (qs_rtable st')"
proof -
  obtain te where te: "TargetNodeProcess cat name field tname st =
      (Some te, st\<lparr>qs_rindex := te_rindex te, qs_rtable := (qs_rtable st)[k := set_used st (AddRangTblTargetEntry te (qs_rtable st ! k))]\<rparr>)"
    "te_rindex te = qr_rindex (qs_rtable st ! k)" "te_vt te = cd_type (cat_cols cat (qr_tbl (qs_rtable st ! k)) ! i)" "te_attrIndex te = int i"
    using assms by (simp add: TargetNodeProcess_def Let_def)
  have "k < length (qs_rtable st)" using assms by (auto dest: column_te_in)
  then have "list_all2 same_rte (qs_rtable st) ((qs_rtable st)[k := set_used st (AddRangTblTargetEntry te (qs_rtable st ! k))])"
    by (simp add: list_all2_conv_all_nth nth_list_update set_used_same) (simp add: same_rte_def)
  then show ?thesis using that [OF te(1)] te(2-4) by simp
qed

text \<open>
  C39: A condition on two columns of one table compares the left column with itself: the analysis gives the right operand no table, the
  executor does not find it and finds the left value in the result register.
\<close>

theorem columns_of_one_table_compare_left:
  assumes "SearchColumDef cat f t (qs_rtable st) = Some (k, i)" "SearchColumDef cat g u (qs_rtable st) = Some (k, j)" "0 < qr_rindex (qs_rtable st ! k)"
    and "sees env (q_db s) m0 look con" "blocks_free (q_addr env) m0 N" "mem_ok (q_addr env) m0 (q_mem s)" "blocks (q_mem s) < N"
    and "look (qr_rindex (qs_rtable st ! k)) (int i) (cd_type (cat_cols cat (qr_tbl (qs_rtable st ! k)) ! i)) = Some v" "apply_op op v v = Some (IntV r)"
  shows "\<exists>q st' s'. QualNodeProcess cat (PA_Expr op (PColumnRef f t) (PColumnRef g u)) st = Some (q, st') \<and>
     ExecSelectQual env q s = Some (True, s') \<and> getDataBool (q_floats env) (Some (resultExpreData s')) = (r \<noteq> 0)"
proof -
  let ?r = "qs_rtable st ! k"
  let ?vt = "\<lambda>i. cd_type (cat_cols cat (qr_tbl ?r) ! i)"
  have k: "k < length (qs_rtable st)" using assms(1) by (auto dest: column_te_in)
  let ?l = "ColumnRef (?vt i) (int i)" and ?g = "ColumnRef (?vt j) (int j)"
  have "SearchColumDef cat f t (qs_rtable (st\<lparr>qualTargetList := []\<rparr>)) = Some (k, i)" using assms(1) by simp
  from TargetNodeProcess_found [OF this, of "Some f"] obtain te1 st1 where t1: "TargetNodeProcess cat (Some f) f t (st\<lparr>qualTargetList := []\<rparr>) = (Some te1, st1)"
      "qs_rindex st1 = qr_rindex ?r" "te_vt te1 = ?vt i" "te_attrIndex te1 = int i" "list_all2 same_rte (qs_rtable st) (qs_rtable st1)" by auto
  have s1: "SearchColumDef cat g u (qs_rtable (st1\<lparr>qualTargetList := []\<rparr>)) = Some (k, j)"
    using assms(2) search_loop_same [OF t1(5)] by (simp add: SearchColumDef_def)
  have r1: "qr_rindex (qs_rtable st1 ! k) = qr_rindex ?r" "qr_tbl (qs_rtable st1 ! k) = qr_tbl ?r"
    using list_all2_nthD [OF t1(5) k] by (simp_all add: same_rte_def)
  obtain te2 st2 where t2: "TargetNodeProcess cat (Some g) g u (st1\<lparr>qualTargetList := []\<rparr>) = (Some te2, st2)"
      "qs_rindex st2 = qr_rindex ?r" "te_vt te2 = ?vt j" "te_attrIndex te2 = int j"
    by (rule TargetNodeProcess_found [OF s1, of "Some g"]) (simp add: r1)
  have "\<exists>st'. QualNodeProcess cat (PA_Expr op (PColumnRef f t) (PColumnRef g u)) st = Some (ExprEntry op (qr_rindex ?r) 0 ?l ?g, st')"
    using assms(3) t1 t2 by (simp add: SimpleExprNodeProcess_def)
  moreover have "\<exists>s'. ExecSelectQual env (ExprEntry op (qr_rindex ?r) 0 ?l ?g) s = Some (True, s') \<and> getDataBool (q_floats env) (Some (resultExpreData s')) = (r \<noteq> 0)"
  proof -
    have "qeval look con ?l (Some (qr_rindex ?r, 0)) True = Some v" using assms(8) by simp
    from ProcessQual_evaluates [OF assms(4,5) refl assms(6) _ this] assms(7) obtain s1 where s1:
      "ProcessQualExprNode env ?l (Some (qr_rindex ?r, 0)) True s = Some (True, s1)" "evaluated env m0 1 v s s1" by auto
    have "find_column env 0 (int j) (q_db s1) = Some (None, False, q_db s1)"
      by (simp add: find_column_def GetCellValueByIndex_def arr_get_def split: option.splits)
    then have s2: "ProcessQualExprNode env ?g (Some (qr_rindex ?r, 0)) False s1 = Some (False, s1)"
      by (simp add: GetExprDataColumnValue_def)
    have va: "value_at (edType (resultExpreData s1)) (wbytes (q_mem s1)) (edData (resultExpreData s1)) v" using s1(2) by (simp add: evaluated_def)
    from ComputeExpr_apply_op [OF assms(9) va va] obtain n where n: "in_int n" "r = n"
      "ComputeExpr (q_floats env) (wbytes (q_mem s1)) (resultExpreData s1) (resultExpreData s1) (resultExpreData s1) op = Some (True, int_result (of_int n) (resultExpreData s1))"
      by auto
    have "getDataBool (q_floats env) (Some (int_result (of_int n) e)) = (n \<noteq> 0)" for e
      by (rule truth_of_getDataBool [of "IntV n" _ _ "\<lambda>_. None"]) (use n(1) sint_of_int32 [of n] in \<open>auto simp: int_result_def is_int_def in_int_def\<close>)
    then show ?thesis using s1(1) s2 n(2,3) by (simp add: ExecSelectQual_def)
  qed
  ultimately show ?thesis by blast
qed

section \<open>Sample tables\<close>

text \<open>The tables \<open>a(x int)\<close>, \<open>b(x int)\<close> and \<open>people(name string, age int)\<close>.\<close>

definition sample_cat :: catalog where
  "sample_cat = \<lparr>cat_table = (\<lambda>name. if name = ''a'' then 7 else if name = ''b'' then 8 else if name = ''people'' then 9 else 0),
     cat_cols = (\<lambda>tbl. if tbl = 9 then [\<lparr>colName = ''name'', cd_type = VT_STRING\<rparr>, \<lparr>colName = ''age'', cd_type = VT_INT\<rparr>]
       else [\<lparr>colName = ''x'', cd_type = VT_INT\<rparr>])\<rparr>"

definition people_state :: QueryState where
  "people_state = NewQueryState\<lparr>qs_rtable := [\<lparr>qr_tbl = 9, qr_rindex = 1, qr_relname = ''people'', qr_targets = [], qr_values = None, isScaned = False, isNeeded = False\<rparr>], qs_rindex := 2\<rparr>"

theorem columns_of_one_table_compare_left_witness:
  "\<exists>q st' s'. QualNodeProcess sample_cat (PA_Expr EQUAL (PColumnRef ''name'' None) (PColumnRef ''age'' None)) people_state = Some (q, st') \<and>
     ExecSelectQual sample_env q sample_state = Some (True, s') \<and> getDataBool some_floats (Some (resultExpreData s')) = ((1 :: int) \<noteq> 0)"
proof -
  have s: "SearchColumDef sample_cat ''name'' None (qs_rtable people_state) = Some (0, 0)" "SearchColumDef sample_cat ''age'' None (qs_rtable people_state) = Some (0, 1)"
    by (simp_all add: SearchColumDef_def sample_cat_def people_state_def GetAttrDef_def)
  have "qr_rindex (qs_rtable people_state ! 0) = 1" "qr_tbl (qs_rtable people_state ! 0) = 9" by (simp_all add: people_state_def)
  then have "qs_rtable people_state \<noteq> [] \<and> 0 < qr_rindex (qs_rtable people_state ! 0)"
    "sample_look (qr_rindex (qs_rtable people_state ! 0)) (int 0) (cd_type (cat_cols sample_cat (qr_tbl (qs_rtable people_state ! 0)) ! 0)) = Some (StrV [97, 98])"
    by (simp_all add: sample_look_def sample_cat_def people_state_def)
  moreover have "apply_op EQUAL (StrV [97, 98]) (StrV [97, 98]) = Some (IntV 1)" by (simp add: str_holds_def)
  moreover have "mem_ok (q_addr sample_env) two_strings (q_mem sample_state)" "blocks (q_mem sample_state) < 1" by (simp_all add: mem_ok_def sample_state_def)
  moreover have "sees sample_env (q_db sample_state) two_strings sample_look sample_con" using sample_sees by (simp add: sample_state_def)
  moreover have "blocks_free (q_addr sample_env) two_strings 1" using sample_blocks [of 1] by (simp add: sample_env_def)
  moreover have "q_floats sample_env = some_floats" by (simp add: sample_env_def)
  ultimately show ?thesis
    using columns_of_one_table_compare_left [OF s, of sample_env sample_state two_strings sample_look sample_con 1 "StrV [97, 98]" EQUAL 1] by (auto simp del: QualNodeProcess.simps)
qed

text \<open>\<open>select a.x, b.x as y from a, b where a.x = b.x\<close>\<close>

definition xa_tree :: stmt where
  "xa_tree = SelectStmt [\<lparr>res_name = None, res_val = PColumnRef ''x'' (Some ''a''), res_setValue = PNull, res_all = False\<rparr>,
       \<lparr>res_name = Some ''y'', res_val = PColumnRef ''x'' (Some ''b''), res_setValue = PNull, res_all = False\<rparr>]
     (Some [\<lparr>relname = ''a'', rv_alias = None\<rparr>, \<lparr>relname = ''b'', rv_alias = None\<rparr>])
     (Some [PA_Expr EQUAL (PColumnRef ''x'' (Some ''a'')) (PColumnRef ''x'' (Some ''b''))])"


definition xa_rtable :: "QRte list" where
  "xa_rtable = [\<lparr>qr_tbl = 7, qr_rindex = 1, qr_relname = ''a'', qr_targets = [], qr_values = None, isScaned = False, isNeeded = False\<rparr>,
     \<lparr>qr_tbl = 8, qr_rindex = 2, qr_relname = ''b'', qr_targets = [], qr_values = None, isScaned = False, isNeeded = False\<rparr>]"

definition xa_targets :: "TargetEntry list" where
  "xa_targets = [\<lparr>te_rindex = 1, te_attrIndex = 0, te_name = Some [120], te_field = [120], te_vt = VT_INT\<rparr>,
     \<lparr>te_rindex = 2, te_attrIndex = 0, te_name = Some [121], te_field = [120], te_vt = VT_INT\<rparr>]"

lemma xa_columns:
  "SearchColumDef sample_cat ''x'' (Some ''a'') xa_rtable = Some (0, 0)" "SearchColumDef sample_cat ''x'' (Some ''b'') xa_rtable = Some (1, 0)"
  by (simp_all add: SearchColumDef_def sample_cat_def xa_rtable_def GetAttrDef_def hat_strcmp_def NAME_MAX_LEN_def)

lemma xa_resolved:
  "RangTblRewriteFromClause sample_cat [\<lparr>relname = ''a'', rv_alias = None\<rparr>, \<lparr>relname = ''b'', rv_alias = None\<rparr>] 1 = Some (xa_rtable, 3)"
  "resolve_targets sample_cat xa_rtable [\<lparr>res_name = None, res_val = PColumnRef ''x'' (Some ''a''), res_setValue = PNull, res_all = False\<rparr>,
       \<lparr>res_name = Some ''y'', res_val = PColumnRef ''x'' (Some ''b''), res_setValue = PNull, res_all = False\<rparr>] = Some xa_targets"
  "resolve_cond sample_cat xa_rtable (PA_Expr EQUAL (PColumnRef ''x'' (Some ''a'')) (PColumnRef ''x'' (Some ''b''))) [] =
     Some (ab_qual, [xa_targets ! 0, (xa_targets ! 1)\<lparr>te_name := Some [120]\<rparr>])"
  by (simp_all add: column_te_def xa_columns) (simp_all add: sample_cat_def xa_rtable_def xa_targets_def GetRangTblNode_def text_of_def resolved_expr_def
      ab_qual_def repeated_def target_name_def)

lemma char_x: "char_of (120 :: nat) = CHR ''x''"
  by (simp add: char_of_def bit_iff_odd)

lemma xa_descs: "list_all2 (desc_for sample_cat xa_targets [xa_targets ! 0, (xa_targets ! 1)\<lparr>te_name := Some [120]\<rparr>]) xa_rtable [table_a, table_b]"
  by (simp add: desc_for_def xa_rtable_def xa_targets_def table_a_def table_b_def planned_columns_def scan_columns_def sample_cat_def string_of_def GetAttrIndex_def char_x)

lemma xa_rtes: "map rte_of xa_rtable = the ab_rtable"
  by (simp add: xa_rtable_def ab_rtable_def rte_of_def)


end
