(* ===== verification/Modify.thy ===== *)
theory Modify
  imports TableInsert Planner "HOL-Library.Multiset" "HOL-Library.Sublist"
begin

text \<open>
  The execution of a statement that changes a table: \<^verbatim>\<open>src/sqlcore/executor/execModifyTable.c\<close>, the computation of the new values in
  \<^verbatim>\<open>src/sqlcore/executor/execSelect.c\<close>, the positions of columns that \<^verbatim>\<open>GetColRowDataEx\<close> gives and the search for space in the chain of
  one page (\<^verbatim>\<open>GetSpaceSpecifyPage\<close>).

  A page that is changed in its buffer is written through, as in \<open>TableInsert\<close>. The node that modifies a table is the root below \<^verbatim>\<open>Plan\<close>;
  its state has the state of the node that gives the rows, the result register of the node that computes the new values and the memory of the insertion.
\<close>

section \<open>Where a column lies\<close>

record HeapItemData =
  hi_pageno :: int
  hi_itemOffset :: int
  hi_item :: ItemData

definition zero_heap_item :: HeapItemData where
  "zero_heap_item = \<lparr>hi_pageno = 0, hi_itemOffset = 0, hi_item = \<lparr>it_offset = 0, it_len = 0, it_rowid = 0\<rparr>\<rparr>"

text \<open>The column of an item and its place; the place is only set when the column is read.\<close>

definition item_place :: "int \<Rightarrow> page \<Rightarrow> int \<Rightarrow> ItemData \<Rightarrow> HeapItemData \<Rightarrow> HeapItemData option" where
  "item_place pno p off it h =
     (if \<not> GetItemRedirect (it_len it) then Some \<lparr>hi_pageno = pno, hi_itemOffset = off, hi_item = it\<rparr>
      else let i = GET_CUR_ITEM_INDEX off in
        if GET_PAGE_TYPE (fld f_pageType p) \<noteq> PAGE_EXTDATA \<or> ITEM_END_CHECK (GET_ITEM_BY_INDEX i) p then Some h
        else do {
          it' \<leftarrow> get_item p (GET_ITEM_BY_INDEX i);
          Some (if GetItemValid (it_len it') then \<lparr>hi_pageno = pageNum p, hi_itemOffset = GET_ITEM_BY_INDEX i, hi_item = it'\<rparr> else h) })"

text \<open>\<^verbatim>\<open>GetRowDataFromPageByIndexEx\<close> for a caller that asks for the place.\<close>

definition GetRowDataPlace :: "int \<Rightarrow> int \<Rightarrow> HeapItemData \<Rightarrow> tblst \<Rightarrow> (RowColumnData option \<times> HeapItemData \<times> tblst) option" where
  "GetRowDataPlace pno poff h st =
     (case GetPageByIndex MAIN_FORK pno st of
        (None, st) \<Rightarrow> Some (None, h, st)
      | (Some n, st) \<Rightarrow> do {
          p \<leftarrow> pages st MAIN_FORK n;
          let st = LockPage MAIN_FORK n st;
          (c, h) \<leftarrow> (if poff > 0 \<and> \<not> ITEM_END_CHECK poff p then do {
                  it \<leftarrow> get_item p poff;
                  if GetItemValid (it_len it) then do { c \<leftarrow> item_column p poff it; h \<leftarrow> item_place pno p poff it h; Some (c, h) }
                  else Some (None, h) }
                else Some (None, h));
          Some (c, h, ReleasePage MAIN_FORK n (UnLockPage MAIN_FORK n st)) })"

text \<open>\<^verbatim>\<open>GetColRowDataEx\<close> for a caller that asks for the place.\<close>

definition GetColRowDataPlace :: "TableRowDataPosition \<Rightarrow> int \<Rightarrow> HeapItemData \<Rightarrow> dbst \<Rightarrow> (RowColumnData option \<times> HeapItemData \<times> dbst) option" where
  "GetColRowDataPlace tp attr h db =
     (if rowNum tp \<le> 0 \<or> attr < 0 then Some (None, h, db)
      else do {
        let sc = scanPostionInfo tp;
        i \<leftarrow> column_loop (colindexList sc) 0 (nat (pageListNum sc)) attr;
        case i of
          Some i \<Rightarrow> do {
            c \<leftarrow> arr_get (columnData (tp_rowData tp)) (int i);
            page \<leftarrow> arr_get (pageList sc) (int i);
            n \<leftarrow> page;
            p \<leftarrow> pages (db (tp_tblInfo tp)) MAIN_FORK n;
            sp \<leftarrow> arr_get (searchPageList sc) 0;
            it \<leftarrow> get_item p (item_offset sp);
            Some (c, \<lparr>hi_pageno = pageNum p, hi_itemOffset = item_offset sp, hi_item = it\<rparr>, db) }
        | None \<Rightarrow> do {
            off \<leftarrow> (if pageListNum sc > 0 then map_option item_offset (arr_get (searchPageList sc) 0) else Some (-1));
            pno \<leftarrow> GetPageNoFromGroupInfo (groupPageInfo sc) attr (db (tp_tblInfo tp));
            (c, h, st) \<leftarrow> GetRowDataPlace pno off h (db (tp_tblInfo tp));
            Some (c, h, db(tp_tblInfo tp := st)) } })"

section \<open>The new values of a row\<close>

record AttrDataPosition =
  headItem :: HeapItemData
  ad_column :: RowColumnData

text \<open>A column of a row with its place; \<open>None\<close> inside ends the loop over the targets.\<close>

definition target_place :: "ScanTableRowData \<Rightarrow> RangTblEntry list option \<Rightarrow> TargetEntry \<Rightarrow> HeapItemData \<Rightarrow> dbst \<Rightarrow> (RowColumnData option \<times> HeapItemData \<times> dbst) option" where
  "target_place row rt te h db =
     (case GetCellValueByIndex rt (te_rindex te) of
        None \<Rightarrow> Some (None, h, db)
      | Some rte \<Rightarrow> do {
          tp \<leftarrow> GetTblRowDataPosition (Some row) (rte_tblInfo rte) (rte_rindex rte);
          case tp of None \<Rightarrow> Some (None, h, db) | Some tp \<Rightarrow> GetColRowDataPlace tp (te_attrIndex te) h db })"

fun origin_loop :: "ScanTableRowData \<Rightarrow> RangTblEntry list option \<Rightarrow> (TargetEntry \<times> qual) list \<Rightarrow> HeapItemData \<Rightarrow> dbst \<Rightarrow> (AttrDataPosition list \<times> dbst) option" where
  "origin_loop row rt [] h db = Some ([], db)"
| "origin_loop row rt ((te, _) # tes) h db = do {
     (c, h, db) \<leftarrow> target_place row rt te h db;
     case c of
       None \<Rightarrow> Some ([], db)
     | Some c \<Rightarrow> do {
         (as, db) \<leftarrow> origin_loop row rt tes h db;
         Some (\<lparr>headItem = h, ad_column = c\<rparr> # as, db) } }"

text \<open>\<^verbatim>\<open>ProcessSetValueExpr\<close>: the value, if any, and the state of the evaluation.\<close>

definition ProcessSetValueExpr :: "xenv \<Rightarrow> RangTblEntry list option \<Rightarrow> ScanTableRowData \<Rightarrow> qual \<Rightarrow> qst \<Rightarrow> (ExprDataInfo option \<times> qst) option" where
  "ProcessSetValueExpr env rt row q s =
     (case q of
        ConstNode cv \<Rightarrow> do {
          (v, w) \<leftarrow> TransformConstExprValue (x_addr env) (x_fl_int env) 0 cv (q_mem s);
          Some (v, s\<lparr>q_mem := w\<rparr>) }
      | _ \<Rightarrow> do {
          (b, s) \<leftarrow> ExecSelectQual (select_env env rt row) q s;
          Some (if b then Some (resultExpreData s) else None, s) })"

text \<open>A target without a new value is passed over.\<close>

fun new_rows_loop :: "xenv \<Rightarrow> ScanTableRowData \<Rightarrow> RangTblEntry list option \<Rightarrow> (TargetEntry \<times> qual) list \<Rightarrow> HeapItemData \<Rightarrow> qst \<Rightarrow> (AttrDataPosition list \<times> qst) option" where
  "new_rows_loop env row rt [] h s = Some ([], s)"
| "new_rows_loop env row rt ((te, q) # tes) h s =
     (if q = NullNode then new_rows_loop env row rt tes h s
      else if GetCellValueByIndex rt (te_rindex te) = None then Some ([], s)
      else do {
        (v, s) \<leftarrow> ProcessSetValueExpr env rt row q s;
        if v = None then Some ([], s)
        else do {
          (c, h, db) \<leftarrow> target_place row rt te h (q_db s);
          let s = s\<lparr>q_db := db\<rparr>;
          if c = None then Some ([], s)
          else do {
            new \<leftarrow> transFormExpr2RowColumnData (x_blk env) (wbytes (q_mem s)) v (of_int (te_attrIndex te));
            new \<leftarrow> new;
            (as, s) \<leftarrow> new_rows_loop env row rt tes h s;
            Some (\<lparr>headItem = h, ad_column = new\<rparr> # as, s) } } })"

text \<open>
  \<^verbatim>\<open>ExecUpdateSelect\<close> with \<^verbatim>\<open>FormNewRowsPos\<close> and \<^verbatim>\<open>FormOriginRowsPos\<close>: the columns of all targets with their places, or the null pointer.
  The source keeps them in \<^verbatim>\<open>scanRowDataLeft\<close>, which the next row replaces.
\<close>

definition ExecUpdateSelect :: "xenv \<Rightarrow> CmdType \<Rightarrow> (TargetEntry \<times> qual) list \<Rightarrow> RangTblEntry list option \<Rightarrow> ExprDataInfo \<Rightarrow> ExecState \<Rightarrow>
    (AttrDataPosition list option \<times> ExprDataInfo \<times> ExecState) option" where
  "ExecUpdateSelect env cmd tes rt reg es =
     (case scanRowDataLeft es of
        None \<Rightarrow> Some (None, reg, es)
      | Some x \<Rightarrow>
          if tes = [] \<or> rt = None then Some (None, reg, es)
          else do {
            row \<leftarrow> as_scan_row x;
            (as, reg, es) \<leftarrow> (if cmd = CMD_UPDATE then do {
                 (as, s) \<leftarrow> new_rows_loop env row rt tes zero_heap_item \<lparr>resultExpreData = reg, q_mem = es_mem es, q_db = es_db es\<rparr>;
                 Some (as, resultExpreData s, es\<lparr>es_mem := q_mem s, es_db := q_db s\<rparr>) }
               else do { (as, db) \<leftarrow> origin_loop row rt tes zero_heap_item (es_db es); Some (as, reg, es\<lparr>es_db := db\<rparr>) });
            Some (if length as = length tes then Some as else None, reg, es) })"

section \<open>Space in the chain of a page\<close>

text \<open>
  The loop of \<^verbatim>\<open>GetSpaceSpecifyPage\<close>. It ends with a page that has space or a page of a wrong type (\<open>Inl\<close> of the result), or with the first page
  of the chain and the type of the page to be added.
\<close>

partial_function (option) chain_loop :: "int \<Rightarrow> ForkType \<Rightarrow> int option \<Rightarrow> int \<Rightarrow> nat \<Rightarrow> i32 \<Rightarrow> tblst \<Rightarrow> ((int option + int option \<times> i32) \<times> tblst) option" where
  "chain_loop sz f first start k pageType st =
     (case GetPageByIndex f start st of
        (None, st) \<Rightarrow> Some (Inr (first, pageType), st)
      | (Some n, st) \<Rightarrow> do {
          p \<leftarrow> pages st f n;
          let st = LockPage f n st;
          if first = None \<and> pageType = PAGE_UNDO then
            (let start = sint (fld f_undo_pageno p) in
             if start \<noteq> INVALID_PAGE_NUM \<and> k < 2 then chain_loop sz f (Some n) start k pageType st
             else Some (Inr (Some n, pageType), st))
          else do {
            let release = (\<lambda>st. case first of None \<Rightarrow> st | Some m \<Rightarrow> ReleasePage f m (UnLockPage f m st));
            if GET_PAGE_TYPE (fld f_pageType p) \<noteq> pageType then Some (Inl None, release (ReleasePage f n (UnLockPage f n st)))
            else if HasFreeSpace p sz then Some (Inl (Some n), release (UnLockPage f n st))
            else do {
              let (start, pageType, k) =
                (if pageType = PAGE_DATA then (sint (fld f_ext_pageno p), PAGE_EXTDATA, k) else (start, pageType, Suc k));
              let (first, st) = (case first of None \<Rightarrow> (Some n, st) | Some m \<Rightarrow> (Some m, if n \<noteq> m then ReleasePage f n (UnLockPage f n st) else st));
              if start \<noteq> INVALID_PAGE_NUM \<and> Suc k < 2 then chain_loop sz f first start (Suc k) pageType st
              else Some (Inr (first, pageType), st) } } })"

text \<open>A new page behind the first page of the chain.\<close>

definition link_page :: "ForkType \<Rightarrow> int \<Rightarrow> int \<Rightarrow> i32 \<Rightarrow> tblst \<Rightarrow> tblst option" where
  "link_page f first ext pageType st = do {
     a \<leftarrow> pages st f first;
     b \<leftarrow> pages st f ext;
     let b = set_fld f_pageType (SET_PAGE_TYPE (fld f_pageType b) pageType) b;
     let next = (if pageType = PAGE_EXTDATA then f_ext_pageno else f_undo_pageno);
     let st = WritePage f ext (set_fld next (fld next a) b) st;
     a \<leftarrow> pages st f first;
     Some (WritePage f first (set_fld next (of_int (pageNum b)) a) st) }"

definition GetSpaceSpecifyPage :: "int \<Rightarrow> PageOp \<Rightarrow> ForkType \<Rightarrow> int \<Rightarrow> i32 \<Rightarrow> tblst \<Rightarrow> TblMeta \<Rightarrow> (int option \<times> tblst \<times> TblMeta) option" where
  "GetSpaceSpecifyPage sz op f start pageType st m =
     (if sz + int PAGE_DATA_HEADER_SIZE \<ge> int PAGE_MAX_SIZE then Some (None, st, m)
      else do {
        (r, st) \<leftarrow> chain_loop sz f None start 0 pageType st;
        case r of
          Inl page \<Rightarrow> Some (page, st, m)
        | Inr (first, pageType) \<Rightarrow> do {
            (stop, ext, st, m) \<leftarrow>
              (if op = PAGE_NEW then do {
                 (ext, st, m) \<leftarrow> ExtensionTbl f 1 st (StartExtensionTbl m);
                 case ext of
                   None \<Rightarrow> Some (True, None, st, EndExtensionTbl m)
                 | Some e \<Rightarrow> do {
                     p \<leftarrow> pages st f e;
                     let st = LockPage f e st;
                     Some (False, Some e, WritePage f e (set_fld f_pageType (SET_PAGE_TYPE (fld f_pageType p) pageType) p) st, m) } }
               else Some (False, None, st, m));
            if stop then Some (None, st, m)
            else (case (first, ext) of
                (Some n, Some e) \<Rightarrow> do {
                  st \<leftarrow> link_page f n e pageType st;
                  Some (Some e, ReleasePage f n (UnLockPage f n (UnLockPage f e st)), EndExtensionTbl m) }
              | (Some n, None) \<Rightarrow> Some (None, ReleasePage f n (UnLockPage f n st), m)
              | (None, _) \<Rightarrow> Some (ext, st, m)) } })"

section \<open>Changing a row\<close>

definition unlock_release :: "int \<Rightarrow> tblst \<Rightarrow> tblst" where
  "unlock_release n st = ReleasePage MAIN_FORK n (UnLockPage MAIN_FORK n st)"

text \<open>The memory for one column of \<^verbatim>\<open>newRowData\<close>.\<close>

definition one_column :: "RowColumnData \<Rightarrow> RowData \<Rightarrow> RowData" where
  "one_column c row = row\<lparr>rowsData := (rowsData row)\<lparr>tr_num := 1, columnData := (columnData (rowsData row))[0 := Some c], tr_size := rc_size c\<rparr>\<rparr>"

text \<open>
  The new version of a column that is longer than the old one. Where there is room in the page of the column the item is moved within it;
  otherwise the column goes to an extension page and its item becomes a redirection. The page with the space stays locked and pinned for the caller.
\<close>

definition move_column :: "AttrDataPosition \<Rightarrow> int \<Rightarrow> RowData \<Rightarrow> tblst \<Rightarrow> TblMeta \<Rightarrow> (int \<times> int option \<times> RowData \<times> tblst \<times> TblMeta) option" where
  "move_column a d row st m = do {
     let sz = sint (rc_size (ad_column a)) + int ITEM_SIZE;
     p \<leftarrow> pages st MAIN_FORK d;
     (new, st, m) \<leftarrow> GetSpaceSpecifyPage sz PAGE_NEW MAIN_FORK (pageNum p) PAGE_DATA st m;
     case new of
       None \<Rightarrow> Some (-1, None, row, st, m)
     | Some n \<Rightarrow> do {
         q \<leftarrow> pages st MAIN_FORK n;
         p \<leftarrow> pages st MAIN_FORK d;
         let off = hi_itemOffset (headItem a);
         it \<leftarrow> get_item p off;
         if pageNum q = pageNum p then do {
           let it = it\<lparr>it_offset := fld f_dataEndOffset q - of_int sz\<rparr>;
           q \<leftarrow> wr off (enc_item it) q;
           let q = set_fld f_dataEndOffset (it_offset it) q;
           q \<leftarrow> WriteRowDataOnly q row it;
           Some (0, Some n, row, WritePage MAIN_FORK n q st, m) }
         else do {
           let st = LockPage MAIN_FORK n st;
           (q, row) \<leftarrow> WriteRowItemDataWithHeader q row;
           let st = WritePage MAIN_FORK n q st;
           p \<leftarrow> pages st MAIN_FORK d;
           let it = it\<lparr>it_len := it_len it OR ITEM_REDIRECT_MASK, it_offset := po_pageno (pageIndex (rowPos row))\<rparr>;
           let it = it\<lparr>it_len := SetItemSize (it_len it) (itemIndex (rowPos row))\<rparr>;
           p \<leftarrow> wr off (enc_item it) p;
           Some (0, Some n, row, UnLockPage MAIN_FORK n (WritePage MAIN_FORK d p st), m) } } }"

text \<open>One turn of the loop of \<^verbatim>\<open>pax_ExecUpdate\<close>; the flag says that the function returns at once.\<close>

definition update_column :: "txnst \<Rightarrow> AttrDataPosition \<Rightarrow> RowColumnData option \<Rightarrow> i32 \<Rightarrow> RowData \<Rightarrow> tblst \<Rightarrow> TblMeta \<Rightarrow> (int \<times> RowData \<times> tblst \<times> TblMeta) option" where
  "update_column txn a old oldSize row st m =
     (case GetPageByIndex MAIN_FORK (hi_pageno (headItem a)) st of
        (None, st) \<Rightarrow> Some (-1, row, st, m)
      | (Some d, st) \<Rightarrow> do {
          p \<leftarrow> pages st MAIN_FORK d;
          (u, st, m) \<leftarrow> GetSpaceSpecifyPage (int ITEM_SIZE + sint oldSize) PAGE_NEW MAIN_FORK (pageNum p) PAGE_UNDO st m;
          case u of
            None \<Rightarrow> Some (-1, row, st, m)
          | Some u \<Rightarrow> do {
              let st = LockPage MAIN_FORK u (LockPage MAIN_FORK d st);
              old \<leftarrow> old;
              tu \<leftarrow> TupleUpdateSatisfy (headerData old) txn;
              if tu \<noteq> TU_OK then Some (-1, row, unlock_release d (unlock_release u st), m)
              else do {
                (h, oldh) \<leftarrow> ComputeXmaxTupleHeader zero_header (headerData old) txn;
                q \<leftarrow> pages st MAIN_FORK u;
                (q, row) \<leftarrow> WriteRowItemDataWithHeader q (one_column (old\<lparr>headerData := oldh\<rparr>) row);
                let st = WritePage MAIN_FORK u q st;
                let c = (ad_column a)\<lparr>headerData := h\<lparr>undo := rowPos row\<rparr>\<rparr>;
                let row = one_column c row;
                (ret, new, row, st, m) \<leftarrow>
                  (if sint (rc_size c) \<le> sint (rc_size old) then do {
                     p \<leftarrow> pages st MAIN_FORK d;
                     p \<leftarrow> WriteRowDataOnly p row (hi_item (headItem a));
                     Some (0, None, row, WritePage MAIN_FORK d p st, m) }
                   else move_column a d row st m);
                let st = (case new of None \<Rightarrow> st | Some n \<Rightarrow> unlock_release n st);
                Some (ret, row, unlock_release d (unlock_release u st), m) } } })"

text \<open>\<open>olds\<close> are the columns of the row before, in the order of the targets.\<close>

fun update_columns :: "txnst \<Rightarrow> AttrDataPosition list \<Rightarrow> RowColumnData option list \<Rightarrow> i32 \<Rightarrow> RowData \<Rightarrow> tblst \<Rightarrow> TblMeta \<Rightarrow> int \<Rightarrow> (int \<times> RowData \<times> tblst \<times> TblMeta) option" where
  "update_columns txn [] olds sz row st m ret = Some (ret, row, st, m)"
| "update_columns txn (a # as) [] sz row st m ret = None"
| "update_columns txn (a # as) (old # olds) sz row st m ret = do {
     (ret, row, st, m) \<leftarrow> update_column txn a old sz row st m;
     if ret < 0 then Some (ret, row, st, m) else update_columns txn as olds sz row st m ret }"

definition pax_ExecUpdate :: "txnst \<Rightarrow> AttrDataPosition list \<Rightarrow> TableRowData \<Rightarrow> RowData \<Rightarrow> tblst \<Rightarrow> TblMeta \<Rightarrow> (int \<times> RowData \<times> tblst \<times> TblMeta) option" where
  "pax_ExecUpdate txn as old row st m =
     (if as = [] then Some (-1, row, st, m) else update_columns txn as (columnData old) (tr_size old) row st m 0)"

fun delete_columns :: "txnst \<Rightarrow> AttrDataPosition list \<Rightarrow> RowData \<Rightarrow> tblst \<Rightarrow> int \<Rightarrow> (int \<times> RowData \<times> tblst) option" where
  "delete_columns txn [] row st ret = Some (ret, row, st)"
| "delete_columns txn (a # as) row st ret =
     (case GetPageByIndex MAIN_FORK (hi_pageno (headItem a)) st of
        (None, st) \<Rightarrow> Some (-1, row, st)
      | (Some d, st) \<Rightarrow> do {
          let st = LockPage MAIN_FORK d st;
          tu \<leftarrow> TupleUpdateSatisfy (headerData (ad_column a)) txn;
          if tu \<noteq> TU_OK then Some (-1, row, unlock_release d st)
          else do {
            (_, h) \<leftarrow> ComputeXmaxTupleHeader zero_header (headerData (ad_column a)) txn;
            let row = one_column ((ad_column a)\<lparr>headerData := h\<rparr>) row;
            p \<leftarrow> pages st MAIN_FORK d;
            p \<leftarrow> ReplaceRowData p row (hi_item (headItem a));
            delete_columns txn as row (unlock_release d (WritePage MAIN_FORK d p st)) 0 } })"

definition pax_ExecDelete :: "txnst \<Rightarrow> AttrDataPosition list \<Rightarrow> RowData \<Rightarrow> tblst \<Rightarrow> (int \<times> RowData \<times> tblst) option" where
  "pax_ExecDelete txn as row st =
     (if as = [] then Some (-1, row, st)
      else delete_columns txn as (row\<lparr>rowsData := (rowsData row)\<lparr>tr_num := 1\<rparr>\<rparr>) st (-1))"

text \<open>The insertion under the NSM storage model.\<close>

definition nsm_ExecInsert :: "TableRowData \<Rightarrow> tblst \<Rightarrow> TblMeta \<Rightarrow> (int \<times> tblst \<times> TblMeta) option" where
  "nsm_ExecInsert ins st m = do {
     (page, st, m) \<leftarrow> GetSpacePage (sint (tr_size ins)) PAGE_NEW MAIN_FORK st m;
     n \<leftarrow> page;
     p \<leftarrow> pages st MAIN_FORK n;
     p \<leftarrow> WriteRowData p ins;
     Some (0, ReleasePage MAIN_FORK n (WritePage MAIN_FORK n p st), m) }"

section \<open>The node\<close>

datatype StorageType = ST_NSM | ST_PAX | ST_OTHER

record ModifyTblState =
  mt_left :: planState
  mt_reg :: ExprDataInfo
  mt_scan :: InsertInfo

record modify_env =
  me_cmd :: CmdType
  me_tbl :: nat
  me_storage :: StorageType
  me_colNum :: nat
  me_targets :: "(TargetEntry \<times> qual) list"
  me_rtable :: "RangTblEntry list option"

text \<open>What \<^verbatim>\<open>ExecModifyTable\<close> is given: the row of an insertion, or the columns with their places and the row before.\<close>

datatype row_change =
    InsertRow TableRowData
  | UpdateRow "AttrDataPosition list" TableRowData
  | DeleteRow "AttrDataPosition list"

definition nsm_ExecModifyTable :: "row_change \<Rightarrow> tblst \<Rightarrow> TblMeta \<Rightarrow> (int \<times> tblst \<times> TblMeta) option" where
  "nsm_ExecModifyTable ch st m = (case ch of InsertRow ins \<Rightarrow> nsm_ExecInsert ins st m | _ \<Rightarrow> Some (-1, st, m))"

definition pax_ExecModifyTable :: "txnst \<Rightarrow> nat \<Rightarrow> row_change \<Rightarrow> InsertInfo \<Rightarrow> tblst \<Rightarrow> TblMeta \<Rightarrow> (int \<times> InsertInfo \<times> tblst \<times> TblMeta) option" where
  "pax_ExecModifyTable txn colNum ch sc st m =
     (case ch of
        InsertRow ins \<Rightarrow> pax_ExecInsert txn colNum ins sc st m
      | UpdateRow as old \<Rightarrow> do {
          (ret, row, st, m) \<leftarrow> pax_ExecUpdate txn as old (ins_row sc) st m;
          Some (ret, sc\<lparr>ins_row := row\<rparr>, st, m) }
      | DeleteRow as \<Rightarrow> do {
          (ret, row, st) \<leftarrow> pax_ExecDelete txn as (ins_row sc) st;
          Some (ret, sc\<lparr>ins_row := row\<rparr>, st, m) })"

definition ExecModifyTable :: "xenv \<Rightarrow> modify_env \<Rightarrow> row_change \<Rightarrow> ModifyTblState \<Rightarrow> ExecState \<Rightarrow> TblMeta \<Rightarrow> (int \<times> ModifyTblState \<times> ExecState \<times> TblMeta) option" where
  "ExecModifyTable env me ch ms es m =
     (case me_storage me of
        ST_NSM \<Rightarrow> do {
          (ret, st, m) \<leftarrow> nsm_ExecModifyTable ch (es_db es (me_tbl me)) m;
          Some (ret, ms, es\<lparr>es_db := (es_db es)(me_tbl me := st)\<rparr>, m) }
      | ST_PAX \<Rightarrow> do {
          (ret, sc, st, m) \<leftarrow> pax_ExecModifyTable (x_txn env) (me_colNum me) ch (mt_scan ms) (es_db es (me_tbl me)) m;
          Some (ret, ms\<lparr>mt_scan := sc\<rparr>, es\<lparr>es_db := (es_db es)(me_tbl me := st)\<rparr>, m) }
      | ST_OTHER \<Rightarrow> Some (-1, ms, es, m))"

fun as_value_row :: "rowptr \<Rightarrow> TableRowData option" where
  "as_value_row (ValueRow r) = Some r"
| "as_value_row _ = None"

text \<open>
  One row. \<open>opRet\<close> keeps its value when the new values of a row cannot be formed. A command that does not modify a table ends the function at once,
  which is \<open>None\<close> inside.
\<close>

definition modify_row :: "xenv \<Rightarrow> modify_env \<Rightarrow> rowptr \<Rightarrow> int \<Rightarrow> ModifyTblState \<Rightarrow> ExecState \<Rightarrow> TblMeta \<Rightarrow> (int option \<times> ModifyTblState \<times> ExecState \<times> TblMeta) option" where
  "modify_row env me x opRet ms es m =
     (if me_cmd me = CMD_INSERT then do {
        r \<leftarrow> as_value_row x;
        (opRet, ms, es, m) \<leftarrow> ExecModifyTable env me (InsertRow r) ms es m;
        Some (Some opRet, ms, es, m) }
      else if me_cmd me \<in> {CMD_UPDATE, CMD_DELETE} then do {
        (as, reg, es) \<leftarrow> ExecUpdateSelect env (me_cmd me) (me_targets me) (me_rtable me) (mt_reg ms) es;
        let ms = ms\<lparr>mt_reg := reg\<rparr>;
        case as of
          None \<Rightarrow> Some (Some opRet, ms, es, m)
        | Some as \<Rightarrow>
            if retCode es < ExecRetCode_SUC then Some (Some opRet, ms, es, m)
            else do {
              ch \<leftarrow> (if me_cmd me = CMD_UPDATE then map_option (UpdateRow as) (as_proj_row x) else Some (DeleteRow as));
              (opRet, ms, es, m) \<leftarrow> ExecModifyTable env me ch ms es m;
              Some (Some opRet, ms, es, m) } }
      else Some (None, ms, es, m))"

text \<open>The loop over the rows; the flag says that it ended normally.\<close>

partial_function (option) modify_loop :: "xenv \<Rightarrow> modify_env \<Rightarrow> int \<Rightarrow> int \<Rightarrow> ModifyTblState \<Rightarrow> ExecState \<Rightarrow> TblMeta \<Rightarrow> (bool \<times> int \<times> ModifyTblState \<times> ExecState \<times> TblMeta) option" where
  "modify_loop env me opRet suc ms es m = do {
     (x, left, es) \<leftarrow> ExecNodeProc env (mt_left ms) es;
     let ms = ms\<lparr>mt_left := left\<rparr>;
     if retCode es < ExecRetCode_SUC then Some (True, suc, ms, es, m)
     else case x of
       None \<Rightarrow> Some (True, suc, ms, es, m)
     | Some x \<Rightarrow> do {
         (ret, ms, es, m) \<leftarrow> modify_row env me x opRet ms es m;
         case ret of
           None \<Rightarrow> Some (False, suc, ms, es, m)
         | Some opRet \<Rightarrow>
             if opRet < 0 then Some (True, suc, ms, es\<lparr>retCode := opRet\<rparr>, m)
             else modify_loop env me opRet (suc + 1) ms es m } }"

definition ExecTableModifyTbl :: "xenv \<Rightarrow> modify_env \<Rightarrow> ModifyTblState \<Rightarrow> ExecState \<Rightarrow> TblMeta \<Rightarrow> (ModifyTblState \<times> ExecState \<times> TblMeta) option" where
  "ExecTableModifyTbl env me ms es m =
     (if mt_left ms = NullState then Some (ms, es\<lparr>retCode := ExecRetCode_ERR\<rparr>, m)
      else do {
        (ended, suc, ms, es, m) \<leftarrow> modify_loop env me (-1) 0 ms es m;
        if \<not> ended then Some (ms, es, m)
        else do {
          let st = es_db es (me_tbl me);
          let st = (case sp_page (ins_search (mt_scan ms)) of None \<Rightarrow> st | Some n \<Rightarrow> ReleasePage GROUP_FORK n st);
          let es = es\<lparr>es_db := (es_db es)(me_tbl me := st)\<rparr>;
          Some (ms, if suc > 0 then es\<lparr>retCode := suc\<rparr> else es, m) } })"

section \<open>An insert statement\<close>

text \<open>The rows \<open>ys\<close> are the rows \<open>xs\<close>, in their order, with the rows \<open>new\<close> among them.\<close>

definition rows_added :: "'a list \<Rightarrow> 'a list \<Rightarrow> 'a list \<Rightarrow> bool" where
  "rows_added xs new ys \<longleftrightarrow> subseq xs ys \<and> mset ys = mset xs + mset new"

lemma rows_added_refl: "rows_added xs [] xs"
  by (simp add: rows_added_def)

lemma grown_rows_added: "grown xs r ys \<Longrightarrow> rows_added xs r ys"
proof -
  assume "grown xs r ys"
  then obtain b a where ba: "xs = b @ a" "ys = b @ r @ a" by (auto simp: grown_def)
  have "subseq (b @ [] @ a) (b @ r @ a)" by (intro list_emb_append_mono) simp_all
  then show "rows_added xs r ys" by (simp add: rows_added_def ba)
qed

lemma rows_added_trans: "rows_added xs r ys \<Longrightarrow> rows_added ys r' zs \<Longrightarrow> rows_added xs (r @ r') zs"
  by (auto simp: rows_added_def intro: subseq_order.trans)

definition insert_env :: "modify_env \<Rightarrow> nat \<Rightarrow> nat \<Rightarrow> bool" where
  "insert_env me tbl n \<longleftrightarrow> me_cmd me = CMD_INSERT \<and> me_tbl me = tbl \<and> me_storage me = ST_PAX \<and> me_colNum me = n"

text \<open>What a reader sees of the new rows.\<close>

definition new_rows :: "(RowColumnData \<Rightarrow> RowColumnData option) \<Rightarrow> XTID \<Rightarrow> nat list \<Rightarrow> RowColumnData list list \<Rightarrow> RowColumnData list list" where
  "new_rows V x cols css = concat (map (\<lambda>cs. visible_row V (map ((!) (map (inserted x) cs)) cols)) css)"

definition rows_inserted :: "nat \<Rightarrow> nat \<Rightarrow> XTID \<Rightarrow> RowColumnData list list \<Rightarrow> dbst \<Rightarrow> int list list list \<Rightarrow> dbst \<Rightarrow> int list list list \<Rightarrow> bool" where
  "rows_inserted tbl n x css db gss db' gss' \<longleftrightarrow> (\<forall>t. t \<noteq> tbl \<longrightarrow> db' t = db t) \<and>
     (\<forall>V cols. columns_ok n cols \<longrightarrow> rows_added (rows_of V (pages (db tbl)) cols (concat gss)) (new_rows V x cols css) (rows_of V (pages (db' tbl)) cols (concat gss')))"

lemma rows_inserted_refl: "rows_inserted tbl n x [] db gss db gss"
  by (simp add: rows_inserted_def new_rows_def rows_added_refl)

lemma rows_inserted_trans:
  "rows_inserted tbl n x css db gss db' gss' \<Longrightarrow> rows_inserted tbl n x css' db' gss' db'' gss'' \<Longrightarrow> rows_inserted tbl n x (css @ css') db gss db'' gss''"
  unfolding rows_inserted_def by (auto simp: new_rows_def elim!: allE impE intro: rows_added_trans)

lemma inserts_row:
  assumes "insert_env me tbl n" "store_ok n (es_db es tbl) m gss" "row_cols n r cs" "ins_at n gss (mt_scan ms) gs" "GetCurrentTransactionID (x_txn env) = Some x"
    and "int (length gss) < 2 ^ 31 - 2" "uint (pageCnt m MAIN_FORK) + int n < 2 ^ 31"
  shows "\<exists>sc' st' m' gss' gs'. modify_row env me (ValueRow r) opRet ms es m = Some (Some 1, ms\<lparr>mt_scan := sc'\<rparr>, es\<lparr>es_db := (es_db es)(tbl := st')\<rparr>, m') \<and>
     store_ok n st' m' gss' \<and> ins_at n gss' sc' gs' \<and> int (length gss') \<le> int (length gss) + 1 \<and> uint (pageCnt m' MAIN_FORK) \<le> uint (pageCnt m MAIN_FORK) + int n \<and>
     rows_inserted tbl n x [cs] (es_db es) gss ((es_db es)(tbl := st')) gss'"
proof -
  obtain sc' st' m' gss' where i: "pax_ExecInsert (x_txn env) n r (mt_scan ms) (es_db es tbl) m = Some (1, sc', st', m')"
    "insert_done n (map (inserted x) cs) (es_db es tbl) m gss (sc', st', m') gss'"
    using pax_ExecInsert_ok [OF assms(2-7)] by blast
  have "modify_row env me (ValueRow r) opRet ms es m = Some (Some 1, ms\<lparr>mt_scan := sc'\<rparr>, es\<lparr>es_db := (es_db es)(tbl := st')\<rparr>, m')"
    using assms(1) i(1) by (simp add: modify_row_def insert_env_def ExecModifyTable_def pax_ExecModifyTable_def)
  moreover have "rows_inserted tbl n x [cs] (es_db es) gss ((es_db es)(tbl := st')) gss'"
    using i(2) by (auto simp: rows_inserted_def new_rows_def insert_done_def dest: grown_rows_added)
  ultimately show ?thesis using i(2) unfolding insert_done_def by blast
qed

lemma value_scan_step:
  "ExecNodeProc env (ValueScanState ve (Some (r # rs))) es = Some (Some (ValueRow r), ValueScanState ve (Some rs), es)"
  "ExecNodeProc env (ValueScanState ve (Some [])) es = Some (None, ValueScanState ve (Some []), es\<lparr>retCode := ExecRetCode_SUC\<rparr>)"
  by (subst ExecNodeProc.simps, simp add: ValueScanNext_def)+

lemma insert_loop:
  assumes "insert_env me tbl n" "GetCurrentTransactionID (x_txn env) = Some x"
  shows "list_all2 (row_cols n) rs css \<Longrightarrow> mt_left ms = ValueScanState ve (Some rs) \<Longrightarrow> retCode es = 0 \<Longrightarrow> store_ok n (es_db es tbl) m gss \<Longrightarrow> ins_at n gss (mt_scan ms) gs \<Longrightarrow>
    int (length gss) + int (length rs) < 2 ^ 31 - 1 \<Longrightarrow> uint (pageCnt m MAIN_FORK) + int n * int (length rs) < 2 ^ 31 \<Longrightarrow>
    \<exists>ms' es' m' gss'. modify_loop env me opRet suc ms es m = Some (True, suc + int (length rs), ms', es', m') \<and> retCode es' = 0 \<and> es_mem es' = es_mem es \<and>
      store_ok n (es_db es' tbl) m' gss' \<and> rows_inserted tbl n x css (es_db es) gss (es_db es') gss'"
proof (induction rs arbitrary: css opRet suc ms es m gss gs)
  case Nil
  then show ?case
    by (subst modify_loop.simps) (auto simp: value_scan_step ExecRetCode_SUC_def rows_inserted_refl)
next
  case (Cons r rs)
  obtain cs css1 where c: "css = cs # css1" "row_cols n r cs" "list_all2 (row_cols n) rs css1" using Cons.prems(1) by (auto simp: list_all2_Cons1)
  let ?ms = "ms\<lparr>mt_left := ValueScanState ve (Some rs)\<rparr>"
  have "int n \<le> int n * int (length (r # rs))" by (simp add: distrib_left)
  then have lim: "int (length gss) < 2 ^ 31 - 2" "uint (pageCnt m MAIN_FORK) + int n < 2 ^ 31" using Cons.prems(6,7) by (simp_all only: list.size of_nat_Suc)
  obtain sc' st' m' gss' gs' where i: "modify_row env me (ValueRow r) opRet ?ms es m = Some (Some 1, ?ms\<lparr>mt_scan := sc'\<rparr>, es\<lparr>es_db := (es_db es)(tbl := st')\<rparr>, m')"
     "store_ok n st' m' gss'" "ins_at n gss' sc' gs'" "int (length gss') \<le> int (length gss) + 1" "uint (pageCnt m' MAIN_FORK) \<le> uint (pageCnt m MAIN_FORK) + int n"
     "rows_inserted tbl n x [cs] (es_db es) gss ((es_db es)(tbl := st')) gss'"
    using inserts_row [OF assms(1) Cons.prems(4) c(2) _ assms(2) lim, of ?ms gs opRet] Cons.prems(5) by (simp, blast)
  let ?es = "es\<lparr>es_db := (es_db es)(tbl := st')\<rparr>"
  have l: "int (length gss') + int (length rs) < 2 ^ 31 - 1" "uint (pageCnt m' MAIN_FORK) + int n * int (length rs) < 2 ^ 31"
    using Cons.prems(6,7) i(4,5) by (simp_all add: distrib_left)
  have "\<exists>ms2 es2 m2 gss2. modify_loop env me 1 (suc + 1) (?ms\<lparr>mt_scan := sc'\<rparr>) ?es m' = Some (True, suc + 1 + int (length rs), ms2, es2, m2) \<and>
     retCode es2 = 0 \<and> es_mem es2 = es_mem ?es \<and> store_ok n (es_db es2 tbl) m2 gss2 \<and> rows_inserted tbl n x css1 (es_db ?es) gss' (es_db es2) gss2"
    by (rule Cons.IH [OF c(3) _ _ _ _ l]) (use i(2,3) Cons.prems(3) in simp_all)
  then obtain ms2 es2 m2 gss2 where 2: "modify_loop env me 1 (suc + 1) (?ms\<lparr>mt_scan := sc'\<rparr>) ?es m' = Some (True, suc + 1 + int (length rs), ms2, es2, m2)"
     "retCode es2 = 0" "es_mem es2 = es_mem ?es" "store_ok n (es_db es2 tbl) m2 gss2" "rows_inserted tbl n x css1 (es_db ?es) gss' (es_db es2) gss2" by blast
  have "modify_loop env me opRet suc ms es m = modify_loop env me 1 (suc + 1) (?ms\<lparr>mt_scan := sc'\<rparr>) ?es m'"
    using Cons.prems(2,3) i(1) by (subst modify_loop.simps) (simp add: value_scan_step ExecRetCode_SUC_def)
  moreover have "rows_inserted tbl n x css (es_db es) gss (es_db es2) gss2"
    using rows_inserted_trans [OF i(6), of css1 "es_db es2" gss2] 2(5) by (simp add: c(1) del: fun_upd_apply)
  ultimately show ?case using 2 by auto
qed

lemma value_scan_start:
  assumes "transform_loop env cds (ve_targets ve) (ve_values ve) (wbytes (es_mem es)) = Some rs" "ve_columns ve = Some cds" "retCode es = 0"
  shows "ExecNodeProc env (ValueScanState ve None) es = ExecNodeProc env (ValueScanState ve (Some rs)) es"
  using assms by (cases rs; subst (1 2) ExecNodeProc.simps; simp add: ValueScanNext_def TransformValues_def ExecRetCode_SUC_def)

lemma insert_runs:
  assumes me: "insert_env me tbl n" and x: "GetCurrentTransactionID (x_txn env) = Some x" and rows: "list_all2 (row_cols n) rs css"
    and ve: "ve_columns ve = Some cds" "transform_loop env cds (ve_targets ve) (ve_values ve) (wbytes (es_mem es)) = Some rs"
    and ms: "mt_left ms = ValueScanState ve None" "mt_scan ms = InitInsertInfo k n" and es: "retCode es = 0"
    and st: "store_ok n (es_db es tbl) m gss" "int (length gss) + int (length rs) < 2 ^ 31 - 1" "uint (pageCnt m MAIN_FORK) + int n * int (length rs) < 2 ^ 31"
  shows "\<exists>ms' es' m' gss'. ExecTableModifyTbl env me ms es m = Some (ms', es', m') \<and> retCode es' = int (length rs) \<and> es_mem es' = es_mem es \<and>
     store_ok n (es_db es' tbl) m' gss' \<and> rows_inserted tbl n x css (es_db es) gss (es_db es') gss'"
proof -
  let ?ms = "ms\<lparr>mt_left := ValueScanState ve (Some rs)\<rparr>"
  have "modify_loop env me (-1) 0 ms es m = modify_loop env me (-1) 0 ?ms es m"
    using value_scan_start [OF ve(2,1) es] ms(1) by (subst (1 2) modify_loop.simps) simp
  moreover have "\<exists>ms' es' m' gss'. modify_loop env me (-1) 0 ?ms es m = Some (True, 0 + int (length rs), ms', es', m') \<and> retCode es' = 0 \<and> es_mem es' = es_mem es \<and>
      store_ok n (es_db es' tbl) m' gss' \<and> rows_inserted tbl n x css (es_db es) gss (es_db es') gss'"
    using InitInsertInfo_at [of n gss k] ms(2) by (intro insert_loop [OF me x rows _ es st(1) _ st(2,3)]) simp_all
  ultimately obtain ms' es' m' gss' where l: "modify_loop env me (-1) 0 ms es m = Some (True, int (length rs), ms', es', m')" "retCode es' = 0" "es_mem es' = es_mem es"
      "store_ok n (es_db es' tbl) m' gss'" "rows_inserted tbl n x css (es_db es) gss (es_db es') gss'" by auto
  let ?st = "case sp_page (ins_search (mt_scan ms')) of None \<Rightarrow> es_db es' tbl | Some k \<Rightarrow> ReleasePage GROUP_FORK k (es_db es' tbl)"
  have p: "pages ?st = pages (es_db es' tbl)" by (simp add: ReleasePage_def split: option.split)
  have "store_ok n ?st m' gss'" by (rule store_ok_cong [OF l(4) p refl])
  moreover have "rows_inserted tbl n x css (es_db es) gss ((es_db es')(tbl := ?st)) gss'" using l(5) p by (simp add: rows_inserted_def)
  moreover have "me_tbl me = tbl" using me by (simp add: insert_env_def)
  ultimately show ?thesis using l(1-3) ms(1) by (auto simp: ExecTableModifyTbl_def Let_def)
qed

end
