(* ===== verification/Statement.thy ===== *)
theory Statement
  imports Modify Server
begin

text \<open>
  A statement from its parse tree to its answer: \<open>ToadMainEntry\<close> of \<open>Server\<close> with the analysis, the planner and the executor of this
  development. The parser is a parameter, and so are the dictionary of the tables and the statements that create and drop them
  (\<open>ddl\<close>), which work on files.
\<close>

section \<open>The executor for all statements\<close>

text \<open>The state of the server with what it knows of the files of the tables.\<close>

record mworld = world +
  w_meta :: "nat \<Rightarrow> TblMeta"

definition with_world :: "world \<Rightarrow> mworld \<Rightarrow> mworld" where
  "with_world w' w = w\<lparr>w_db := w_db w', w_mem := w_mem w', w_txn := w_txn w', w_snap := w_snap w'\<rparr>"

definition modify_env_of :: "catalog \<Rightarrow> (nat \<Rightarrow> StorageType) \<Rightarrow> CmdType \<Rightarrow> QRte \<Rightarrow> ((TargetEntry \<times> qual) list \<times> RangTblEntry list) option \<Rightarrow> modify_env" where
  "modify_env_of cat stg cmd r right = \<lparr>me_cmd = cmd, me_tbl = qr_tbl r, me_storage = stg (qr_tbl r), me_colNum = length (cat_cols cat (qr_tbl r)),
     me_targets = (case right of None \<Rightarrow> [] | Some (tes, rt) \<Rightarrow> tes), me_rtable = map_option snd right\<rparr>"

text \<open>The answer of a statement that is not a utility statement.\<close>

definition send_result :: "int \<Rightarrow> Portal \<Rightarrow> Portal option" where
  "send_result ret p = do {
     buf \<leftarrow> snprintf_at 0 (int PORT_BUFFER_SIZE) (result_text ret) (p_body p);
     (_, p) \<leftarrow> FlushPortal (p\<lparr>p_body := buf\<rparr>);
     Some p }"

text \<open>\<open>targets\<close> is the number of the targets that the range table entry of the table has.\<close>

definition ExecutorModify :: "TransactionIsolationLevel \<Rightarrow> xenv \<Rightarrow> modify_env \<Rightarrow> plan \<Rightarrow> nat \<Rightarrow> mworld \<Rightarrow> Portal \<Rightarrow> (mworld \<times> Portal) option" where
  "ExecutorModify level env me pl targets w p = do {
     let p = InitPortal p;
     (sn, txn) \<leftarrow> GenerateSnapshot level (w_snap w) (w_txn w);
     let (left, p) = InitExecNode pl p;
     (ms, es, m) \<leftarrow> ExecTableModifyTbl (env\<lparr>x_snapshot := Some sn, x_txn := txn\<rparr>) me
       \<lparr>mt_left = left, mt_reg = zero_value, mt_scan = InitInsertInfo targets (me_colNum me)\<rparr>
       \<lparr>es_db = w_db w, es_mem = w_mem w, retCode = 0, scanRowDataLeft = None\<rparr> (w_meta w (me_tbl me));
     p \<leftarrow> send_result (retCode es) p;
     Some (w\<lparr>w_db := es_db es, w_mem := es_mem es, w_txn := txn, w_snap := sn, w_meta := (w_meta w)(me_tbl me := m)\<rparr>, p) }"

text \<open>
  \<^verbatim>\<open>ExecutorUtility\<close>: it leaves its text in the buffer of the portal. The analysis makes utility statements of no other parse trees.
\<close>

definition leave_text :: "string \<Rightarrow> Portal \<Rightarrow> Portal option" where
  "leave_text s p = do { buf \<leftarrow> snprintf_at 0 (int PORT_BUFFER_SIZE) (text_of s) (p_body p); Some (p\<lparr>p_body := buf\<rparr>) }"

definition ExecutorUtility :: "(stmt \<Rightarrow> mworld \<Rightarrow> (int \<times> mworld) option) \<Rightarrow> stmt \<Rightarrow> mworld \<Rightarrow> Portal \<Rightarrow> (mworld \<times> Portal) option" where
  "ExecutorUtility ddl s w p =
     (case s of
        CreateStmt name cols \<Rightarrow> do {
          (ret, w) \<leftarrow> ddl s w;
          p \<leftarrow> leave_text (''Create table result '' @ (if ret = 0 then ''success'' else ''failure'')) p;
          Some (w, p) }
      | DropStmt name \<Rightarrow> do {
          (ret, w) \<leftarrow> ddl s w;
          p \<leftarrow> leave_text (''Drop table result '' @ (if ret = 0 then ''success'' else ''failure'')) p;
          Some (w, p) }
      | TransactionStmt tag \<Rightarrow> do {
          (ret, txn) \<leftarrow> ExecTransaction tag (w_txn w);
          p \<leftarrow> (if ret \<noteq> 0 then leave_text ''result failure.'' p else Some p);
          Some (w\<lparr>w_txn := txn\<rparr>, p) }
      | _ \<Rightarrow> None)"

record dictionary =
  dic_cat :: "mworld \<Rightarrow> catalog"
  dic_storage :: "nat \<Rightarrow> StorageType"
  dic_ddl :: "stmt \<Rightarrow> mworld \<Rightarrow> (int \<times> mworld) option"

fun ExecutorStmt :: "TransactionIsolationLevel \<Rightarrow> xenv \<Rightarrow> dictionary \<Rightarrow> stmt_plan list \<Rightarrow> mworld \<Rightarrow> Portal \<Rightarrow> (mworld \<times> Portal) option" where
  "ExecutorStmt level env dic [] w p = Some (w, p)"
| "ExecutorStmt level env dic (pl # pls) w p = do {
     (w, p) \<leftarrow> (case pl of
         QueryRoot q \<Rightarrow> do { (w', p) \<leftarrow> ExecutorMain level env [Plan q NullPlan] (world.truncate w) p; Some (with_world w' w, p) }
       | EmptyPlan \<Rightarrow> do { (w', p) \<leftarrow> ExecutorMain level env [Plan NullPlan NullPlan] (world.truncate w) p; Some (with_world w' w, p) }
       | ModifyTbl cmd r q right \<Rightarrow> ExecutorModify level env (modify_env_of (dic_cat dic w) (dic_storage dic) cmd r right) q (length (qr_targets r)) w p
       | UtilityPlan s \<Rightarrow> do {
           (sn, txn) \<leftarrow> GenerateSnapshot level (w_snap w) (w_txn w);
           ExecutorUtility (dic_ddl dic) s (w\<lparr>w_txn := txn, w_snap := sn\<rparr>) (InitPortal p) });
     ExecutorStmt level env dic pls w p }"

definition QueryPlan :: "dictionary \<Rightarrow> Query \<Rightarrow> mworld \<Rightarrow> stmt_plan list option option" where
  "QueryPlan dic q w = do { pl \<leftarrow> SubPlanProcess (dic_cat dic w) q; Some (Some [pl]) }"

definition command_entry :: "TransactionIsolationLevel \<Rightarrow> xenv \<Rightarrow> dictionary \<Rightarrow> (byte list \<Rightarrow> stmt list option) \<Rightarrow> byte list \<Rightarrow> mworld \<Rightarrow> Portal \<Rightarrow> (int \<times> mworld \<times> Portal) option" where
  "command_entry level env dic parser =
     ToadMainEntry (x_fl_text env) (ExecutorStmt level env dic) parser (\<lambda>t w. QueryAnalyzeAndRewrite (dic_cat dic w) t) (QueryPlan dic)"

section \<open>A select statement\<close>

lemma exec_root_plan: "exec_root env n es p = Some (n', es', p') \<Longrightarrow> n \<noteq> NullState \<Longrightarrow> exec_root env (PlanState n NullState) es p = Some (PlanState n' NullState, es', p')"
  by simp

lemma Executor_plan:
  assumes "ExecutorMain level env [pl] w p = Some (w', p')" "fst (InitExecNode pl (InitPortal p)) \<noteq> NullState"
  shows "ExecutorMain level env [Plan pl NullPlan] w p = Some (w', p')"
proof -
  from assms(1) obtain env1 n es w1 p1 n2 es2 where
    s: "ExecutorStart level env pl w p = Some (env1, n, es, w1, p1)" "ExecutorPlan env1 n es p1 = Some (n2, es2, p')" "w' = w1\<lparr>w_db := es_db es2, w_mem := es_mem es2\<rparr>"
    by (auto split: bind_splits if_splits)
  have n: "n \<noteq> NullState" using s(1) assms(2) by (auto simp: ExecutorStart_def split: bind_splits prod.splits)
  have "ExecutorStart level env (Plan pl NullPlan) w p = Some (env1, PlanState n NullState, es, w1, p1)"
    using s(1) by (auto simp: ExecutorStart_def split: bind_splits prod.splits)
  moreover have "ExecutorPlan env1 (PlanState n NullState) es p1 = Some (PlanState n2 NullState, es2, p')"
    using s(2) n by (auto simp: ExecutorPlan_def split: bind_splits)
  ultimately show ?thesis using s(3) by simp
qed

lemma truncate_simps [simp]:
  "w_db (world.truncate w) = w_db w" "w_mem (world.truncate w) = w_mem w" "w_txn (world.truncate w) = w_txn w" "w_snap (world.truncate w) = w_snap w"
  by (simp_all add: world.truncate_def)

lemma statement_env_truncate: "statement_env level env (world.truncate w) = statement_env level env w"
  by (simp add: statement_env_def)

lemma select_runs:
  assumes "statement_env level env0 w = Some env" "query_ok env (w_db w) (w_mem w) tes rt qs con m0 N d ds" "idle_portal p"
  shows "\<exists>w' p'. ExecutorStmt level env0 dic [QueryRoot (select_plan tes rt qs d ds)] w p = Some (w', p') \<and> ready p' \<and>
     wire (p_sock p') = wire (p_sock p) @ stream (answer_messages tes (selected (w_db w) tes rt qs con (d # ds))) \<and>
     p_type p' = fold (\<lambda>_. next_type) (selected (w_db w) tes rt qs con (d # ds)) PORT_MSG_START \<and>
     w_txn w' = x_txn env \<and> db_pages (w_db w') = db_pages (w_db w)"
proof -
  from query_answers [of level env0 "world.truncate w" env, OF _ _ assms(3), of tes rt qs con m0 N d ds] assms(1,2) obtain w' p' where
    r: "ExecutorMain level env0 [select_plan tes rt qs d ds] (world.truncate w) p = Some (w', p')" "ready p'"
     "wire (p_sock p') = wire (p_sock p) @ stream (answer_messages tes (selected (w_db w) tes rt qs con (d # ds)))"
     "p_type p' = fold (\<lambda>_. next_type) (selected (w_db w) tes rt qs con (d # ds)) PORT_MSG_START"
     "w_txn w' = x_txn env" "db_pages (w_db w') = db_pages (w_db w)"
    by (auto simp: statement_env_truncate)
  have "titles_ok tes" using assms(2) by (simp add: query_ok_def)
  then have "fst (InitExecNode (select_plan tes rt qs d ds) (InitPortal p)) \<noteq> NullState"
    using InitSelectPortal_took [OF assms(3) \<open>titles_ok tes\<close>] by (auto simp: select_plan_def split: prod.splits)
  from Executor_plan [OF r(1) this] show ?thesis using r(2-) by (simp add: with_world_def)
qed

lemma select_command:
  assumes cmd: "command_env level env0 w = Some (txn, env)" "parser cmd = Some [SelectStmt targets (Some vs) (Some [c])]" "dic_cat dic (w\<lparr>w_txn := txn\<rparr>) = cat"
    and frm: "RangTblRewriteFromClause cat vs 1 = Some (rs, n)" "\<forall>r \<in> set rs. cat_cols cat (qr_tbl r) \<noteq> []"
    and tes: "resolve_targets cat rs targets = Some tes" and cond: "resolve_cond cat rs c [] = Some (q, conds)" and ds: "list_all2 (desc_for cat tes conds) rs (d # ds)"
    and ok: "query_ok env (w_db w) (w_mem w) tes (Some (map rte_of rs)) [q] con m0 N d ds"
  shows "answers (command_entry level env0 dic parser) cmd w (\<lambda>w'. db_pages (w_db w') = db_pages (w_db w))
     (answer_messages tes (selected (w_db w) tes (Some (map rte_of rs)) [q] con (d # ds)))
     (fold (\<lambda>_. next_type) (selected (w_db w) tes (Some (map rte_of rs)) [q] con (d # ds)) PORT_MSG_START)"
proof -
  obtain txn2 txn3 txn4 where x: "StartTransaction (w_txn w) = Some txn" "StartTransaction txn = Some txn2"
    "statement_env level env0 (w\<lparr>w_txn := txn2\<rparr>) = Some env" "FinishTransaction (x_txn env) = Some txn3" "FinishTransaction txn3 = Some txn4"
    using cmd(1) by (rule command_envE)
  have "tes \<noteq> []" using ok by (simp add: query_ok_def titles_ok_def)
  from select_planned [OF frm tes this cond ds] obtain query where
    an: "transformStmt cat (SelectStmt targets (Some vs) (Some [c])) = Some (Some query)"
    and pl: "SubPlanProcess cat query = Some (QueryRoot (select_plan tes (Some (map rte_of rs)) [q] d ds))" by blast
  show ?thesis unfolding command_entry_def
  proof (rule one_query_answers [of w txn txn2 parser cmd _ _ query _ _ _ _ _ "\<lambda>w'. db_pages (w_db w') = db_pages (w_db w)", OF x(1,2) cmd(2)])
    show "QueryAnalyzeAndRewrite (dic_cat dic (w\<lparr>w_txn := txn\<rparr>)) [SelectStmt targets (Some vs) (Some [c])] = Some (Some [query])" by (simp add: cmd(3) an del: transformStmt.simps)
    show "QueryPlan dic query (w\<lparr>w_txn := txn\<rparr>) = Some (Some [QueryRoot (select_plan tes (Some (map rte_of rs)) [q] d ds)])" by (simp add: QueryPlan_def cmd(3) pl)
  next
    fix p
    assume p: "idle_portal p"
    from select_runs [OF x(3) _ p, of tes "Some (map rte_of rs)" "[q]" con m0 N d ds dic] ok
    show "\<exists>w' p' txn3 txn4. ExecutorStmt level env0 dic [QueryRoot (select_plan tes (Some (map rte_of rs)) [q] d ds)] (w\<lparr>w_txn := txn2\<rparr>) p = Some (w', p') \<and> ready p' \<and>
       wire (p_sock p') = wire (p_sock p) @ stream (answer_messages tes (selected (w_db w) tes (Some (map rte_of rs)) [q] con (d # ds))) \<and>
       p_type p' = fold (\<lambda>_. next_type) (selected (w_db w) tes (Some (map rte_of rs)) [q] con (d # ds)) PORT_MSG_START \<and>
       FinishTransaction (w_txn w') = Some txn3 \<and> FinishTransaction txn3 = Some txn4 \<and> db_pages (w_db (w'\<lparr>w_txn := txn4\<rparr>)) = db_pages (w_db w)"
      using x(4,5) by fastforce
  qed
qed

section \<open>An insert statement\<close>

lemma text_round [simp]: "string_of (text_of s) = s"
proof -
  have "char_of (unat (of_char c :: byte)) = c" for c :: char
  proof -
    have "(of_char c :: byte) = of_nat (of_char c)" by (rule of_nat_of_char [symmetric])
    moreover have "(of_char c :: nat) < 2 ^ 8" using nat_of_char_less_256 [of c] by simp
    ultimately have "unat (of_char c :: byte) = of_char c" by (simp only: unat_of_nat take_bit_nat_eq_self_iff len_of_numeral_defs) simp
    then show ?thesis by simp
  qed
  then show ?thesis by (induction s) (simp_all add: string_of_def text_of_def)
qed

text \<open>The columns that an insert statement names, up to the first that the table does not have.\<close>

lemma insert_planned:
  assumes "cat_table cat name = t" "t \<noteq> 0" "insert_names cat t attrs \<noteq> []"
  shows "\<exists>query r. transformStmt cat (InsertStmt name attrs vals) = Some (Some query) \<and> qr_tbl r = t \<and>
    SubPlanProcess cat query = Some (ModifyTbl CMD_INSERT r
      (ValueScan \<lparr>ve_columns = Some (cat_cols cat t), ve_targets = Some (insert_names cat t attrs), ve_values = vals\<rparr>) None)"
  using assms by (simp add: transformInsertStmt_def GetRangTblNode_def SubPlanProcess_def subPlanInsertStmt_def insert_target_def comp_def)

lemma send_result_ok:
  assumes "ready p" "n < 2 ^ 31"
  shows "\<exists>q. send_result (int n) p = Some q \<and> ready q \<and> p_type q = p_type p \<and> wire (p_sock q) = wire (p_sock p) @ stream [(p_type p, result_text (int n) @ [0])]"
proof -
  let ?s = "result_text (int n)"
  note s = result_text_ok [OF assms(2)]
  have "snprintf_at (int (length ([] :: byte list))) (int PORT_BUFFER_SIZE) ?s (text_buf []) = Some (text_buf ([] @ ?s))"
    using s(2) by (intro snprintf_text_buf) (simp_all add: PORT_BUFFER_SIZE_def)
  then have buf: "snprintf_at 0 (int PORT_BUFFER_SIZE) ?s (p_body p) = Some (text_buf ?s)" using assms(1) by (simp add: ready_def text_buf_simps)
  obtain ret q where q: "FlushPortal (p\<lparr>p_body := text_buf ?s\<rparr>) = Some (ret, q)" "flushed [(p_type p, ?s @ [0])] (p\<lparr>p_body := text_buf ?s\<rparr>) q"
    using FlushPortal_text [of "p\<lparr>p_body := text_buf ?s\<rparr>" ?s] s assms(1) by (auto simp: ready_def connected_def PORT_BUFFER_SIZE_def)
  then show ?thesis using buf flushedD [OF q(2)] by (simp add: send_result_def)
qed

lemma insert_stmt_runs:
  assumes se: "statement_env level env0 w = Some env" and x: "GetCurrentTransactionID (x_txn env) = Some x"
    and tbl: "dic_storage dic t = ST_PAX" "n = length (cat_cols (dic_cat dic w) t)" "qr_tbl r = t"
    and ve: "ve_columns ve = Some cds" "transform_loop env cds (ve_targets ve) (ve_values ve) (wbytes (w_mem w)) = Some rs" and rows: "list_all2 (row_cols n) rs css"
    and st: "store_ok n (w_db w t) (w_meta w t) gss" "int (length gss) + int (length rs) < 2 ^ 31 - 1" "uint (pageCnt (w_meta w t) MAIN_FORK) + int n * int (length rs) < 2 ^ 31"
    and p: "idle_portal p" and len: "length rs < 2 ^ 31"
  shows "\<exists>w' p' gss'. ExecutorStmt level env0 dic [ModifyTbl CMD_INSERT r (ValueScan ve) None] w p = Some (w', p') \<and> ready p' \<and> p_type p' = PORT_MSG_START \<and>
     wire (p_sock p') = wire (p_sock p) @ stream [(PORT_MSG_START, result_text (int (length rs)) @ [0])] \<and> w_txn w' = x_txn env \<and>
     store_ok n (w_db w' t) (w_meta w' t) gss' \<and> rows_inserted t n x css (w_db w) gss (w_db w') gss'"
proof -
  obtain sn txn where g: "GenerateSnapshot level (w_snap w) (w_txn w) = Some (sn, txn)" "env = env0\<lparr>x_snapshot := Some sn, x_txn := txn\<rparr>"
    using se by (auto simp: statement_env_def split: bind_splits)
  let ?me = "modify_env_of (dic_cat dic w) (dic_storage dic) CMD_INSERT r None"
  let ?ms = "\<lparr>mt_left = ValueScanState ve None, mt_reg = zero_value, mt_scan = InitInsertInfo (length (qr_targets r)) n\<rparr>"
  let ?es = "\<lparr>es_db = w_db w, es_mem = w_mem w, retCode = 0, scanRowDataLeft = None\<rparr>"
  have me: "insert_env ?me t n" using tbl by (simp add: insert_env_def modify_env_of_def)
  have "\<exists>ms' es' m' gss'. ExecTableModifyTbl env ?me ?ms ?es (w_meta w t) = Some (ms', es', m') \<and> retCode es' = int (length rs) \<and> es_mem es' = es_mem ?es \<and>
     store_ok n (es_db es' t) m' gss' \<and> rows_inserted t n x css (es_db ?es) gss (es_db es') gss'"
    using ve st by (intro insert_runs [OF me x rows, where cds = cds and ve = ve and k = "length (qr_targets r)"]) simp_all
  then obtain ms' es' m' gss' where r: "ExecTableModifyTbl env ?me ?ms ?es (w_meta w t) = Some (ms', es', m')" "retCode es' = int (length rs)"
     "store_ok n (es_db es' t) m' gss'" "rows_inserted t n x css (w_db w) gss (es_db es') gss'" by auto
  have rp: "ready (InitPortal p)" "p_type (InitPortal p) = PORT_MSG_START" "p_sock (InitPortal p) = p_sock p"
    using p by (simp_all add: idle_portal_def ready_def connected_def InitPortal_def)
  obtain q where q: "send_result (int (length rs)) (InitPortal p) = Some q" "ready q" "p_type q = PORT_MSG_START"
     "wire (p_sock q) = wire (p_sock p) @ stream [(PORT_MSG_START, result_text (int (length rs)) @ [0])]"
    using send_result_ok [OF rp(1) len] rp by auto
  let ?w = "w\<lparr>w_db := es_db es', w_mem := es_mem es', w_txn := txn, w_snap := sn, w_meta := (w_meta w)(t := m')\<rparr>"
  have c: "me_tbl ?me = t" "me_colNum ?me = n" using tbl by (simp_all add: modify_env_of_def)
  have "ExecutorModify level env0 ?me (ValueScan ve) (length (qr_targets r)) w p = Some (?w, q)"
    using g r(1,2) q(1) by (simp add: ExecutorModify_def c)
  then show ?thesis using q r(3,4) g(2) by (intro exI [of _ ?w] exI [of _ q] exI [of _ gss']) simp
qed

text \<open>The state after an insert statement of the rows \<open>css\<close> by the transaction \<open>x\<close>.\<close>

definition has_inserted :: "nat \<Rightarrow> nat \<Rightarrow> XTID \<Rightarrow> RowColumnData list list \<Rightarrow> mworld \<Rightarrow> int list list list \<Rightarrow> mworld \<Rightarrow> bool" where
  "has_inserted t n x css w gss w' \<longleftrightarrow> (\<exists>gss'. store_ok n (w_db w' t) (w_meta w' t) gss' \<and> rows_inserted t n x css (w_db w) gss (w_db w') gss')"

lemma insert_command:
  assumes cmd: "command_env level env0 w = Some (txn, env)" "parser cmd = Some [InsertStmt name attrs vals]" "\<forall>txn. dic_cat dic (w\<lparr>w_txn := txn\<rparr>) = cat"
    and x: "GetCurrentTransactionID (x_txn env) = Some x"
    and tbl: "cat_table cat name = t" "t \<noteq> 0" "insert_names cat t attrs \<noteq> []" "dic_storage dic t = ST_PAX" "length (cat_cols cat t) = n"
    and rows: "transform_loop env (cat_cols cat t) (Some (insert_names cat t attrs)) vals (wbytes (w_mem w)) = Some rs" "list_all2 (row_cols n) rs css" "length rs < 2 ^ 31"
    and st: "store_ok n (w_db w t) (w_meta w t) gss" "int (length gss) + int (length rs) < 2 ^ 31 - 1" "uint (pageCnt (w_meta w t) MAIN_FORK) + int n * int (length rs) < 2 ^ 31"
  shows "answers (command_entry level env0 dic parser) cmd w (has_inserted t n x css w gss) [(PORT_MSG_START, result_text (int (length rs)) @ [0])] PORT_MSG_START"
proof -
  obtain txn2 txn3 txn4 where tx: "StartTransaction (w_txn w) = Some txn" "StartTransaction txn = Some txn2"
    "statement_env level env0 (w\<lparr>w_txn := txn2\<rparr>) = Some env" "FinishTransaction (x_txn env) = Some txn3" "FinishTransaction txn3 = Some txn4"
    using cmd(1) by (rule command_envE)
  let ?ve = "\<lparr>ve_columns = Some (cat_cols cat t), ve_targets = Some (insert_names cat t attrs), ve_values = vals\<rparr>"
  obtain query r where q: "transformStmt cat (InsertStmt name attrs vals) = Some (Some query)" "qr_tbl r = t" "SubPlanProcess cat query = Some (ModifyTbl CMD_INSERT r (ValueScan ?ve) None)"
    using insert_planned [OF tbl(1-3)] by blast
  show ?thesis unfolding command_entry_def
  proof (rule one_query_answers [of w txn txn2 parser cmd _ _ query _ _ _ _ _ "has_inserted t n x css w gss", OF tx(1,2) cmd(2)])
    show "QueryAnalyzeAndRewrite (dic_cat dic (w\<lparr>w_txn := txn\<rparr>)) [InsertStmt name attrs vals] = Some (Some [query])" using q(1) cmd(3) by (simp del: transformStmt.simps)
    show "QueryPlan dic query (w\<lparr>w_txn := txn\<rparr>) = Some (Some [ModifyTbl CMD_INSERT r (ValueScan ?ve) None])" using q(3) cmd(3) by (simp add: QueryPlan_def)
  next
    fix p
    assume p: "idle_portal p"
    have "\<exists>w' p' gss'. ExecutorStmt level env0 dic [ModifyTbl CMD_INSERT r (ValueScan ?ve) None] (w\<lparr>w_txn := txn2\<rparr>) p = Some (w', p') \<and> ready p' \<and> p_type p' = PORT_MSG_START \<and>
       wire (p_sock p') = wire (p_sock p) @ stream [(PORT_MSG_START, result_text (int (length rs)) @ [0])] \<and> w_txn w' = x_txn env \<and>
       store_ok n (w_db w' t) (w_meta w' t) gss' \<and> rows_inserted t n x css (w_db (w\<lparr>w_txn := txn2\<rparr>)) gss (w_db w') gss'"
      using tbl(4,5) cmd(3) q(2) rows st p by (intro insert_stmt_runs [OF tx(3) x, where cds = "cat_cols cat t"]) simp_all
    then show "\<exists>w' p' txn3 txn4. ExecutorStmt level env0 dic [ModifyTbl CMD_INSERT r (ValueScan ?ve) None] (w\<lparr>w_txn := txn2\<rparr>) p = Some (w', p') \<and> ready p' \<and>
       wire (p_sock p') = wire (p_sock p) @ stream [(PORT_MSG_START, result_text (int (length rs)) @ [0])] \<and> p_type p' = PORT_MSG_START \<and>
       FinishTransaction (w_txn w') = Some txn3 \<and> FinishTransaction txn3 = Some txn4 \<and> has_inserted t n x css w gss (w'\<lparr>w_txn := txn4\<rparr>)"
      using tx(4,5) by (fastforce simp: has_inserted_def)
  qed
qed

end
