(* ===== verification/Spec2Isabelle.thy ===== *)
theory Spec2Isabelle
  imports ResourceMgr Locks Hashtab BufferPool Transaction MemPool DataTypes Pages TableScan Tuples Expressions Executor Protocol Portal QueryExec Server TableInsert Planner Modify Statement
begin

text \<open>
  Verification of toadb, a relational database in C.

  \<^bold>\<open>The program.\<close> A server process accepts connections; a worker parses a statement, plans it and runs the
  plan. The plan is a tree of nodes that hand rows upwards one at a time. Tables are files of pages of
  4096 bytes that workers reach through a shared buffer pool; under the PAX storage model a table is a
  sequence of groups, and a group has a page for each column. Transactions read under a snapshot, and
  each column value carries the transaction ids that decide whether it is visible. Below that, there
  are memory contexts, lists, hash tables, locks and resource owners. All paths below are relative to
  \<^verbatim>\<open>src/src\<close>.

  \<^bold>\<open>The theories.\<close>

  \<^item> \<open>Toadb_Prelude\<close>: machine integers, arrays with their bounds, generic lemmas.
  \<^item> \<open>DList\<close>, for \<^verbatim>\<open>util/list\<close>: doubly linked lists in a heap; every operation acts on the list of the
    cells as the abstract operation does.
  \<^item> \<open>ResourceMgr\<close>, for the resource owner: it refines a sequence of resources, as long as its counters do not overflow.
  \<^item> \<open>Locks\<close>, for atomic operations, spin locks, reader/writer locks and the local lock table: mutual
    exclusion among workers that release only locks of their own tables, acquisition and release, what the release of
    another worker's lock does, and the second entry that a release forgets.
  \<^item> \<open>Hashtab\<close>, for the hash table: it refines a map, when it lies in the block it allocates; sizes and partitions.
  \<^item> \<open>BufferPool\<close>, for buffer descriptors, pins, the free list and the clock sweep: a victim is found, which is
    invalid or unpinned, and what happens when all buffers are pinned.
  \<^item> \<open>Transaction\<close>, for transaction ids, the active transactions, snapshots and the visibility of tuples;
    other workers run between the reads of a snapshot, and what happens when one is about to start.
  \<^item> \<open>MemPool\<close>, for memory pages, blocks and contexts: a scope returns its memory.
  \<^item> \<open>DataTypes\<close>, for \<^verbatim>\<open>sqlcore/dictionary\<close>: the operators of the types and their dispatch.
  \<^item> \<open>Pages\<close>, for \<^verbatim>\<open>sqlcore/storage/tables\<close> and the part of \<^verbatim>\<open>sqlcore/storage/buffer/buffer.c\<close> that works on one
    page: byte layout, insertion and replacement of rows.
  \<^item> \<open>Cursor\<close>: the contract between plan nodes as a locale; \<open>TableScan\<close> interprets it.
  \<^item> \<open>TableScan\<close>, for \<^verbatim>\<open>sqlcore/executor/scan/seqscan.c\<close>, \<^verbatim>\<open>sqlcore/storage/buffer/undopage.c\<close> and the search functions
    of \<^verbatim>\<open>buffer.c\<close>: a scan of columns in increasing order hands out exactly the visible rows; what a scan in another order and a
    second scan do.
  \<^item> \<open>Tuples\<close>, for \<^verbatim>\<open>sqlcore/storage/tuple/tuples.c\<close>: constants, values and columns.
  \<^item> \<open>Expressions\<close>, for \<^verbatim>\<open>sqlcore/executor/execExpre.c\<close>: a condition, evaluated through one result register,
    has the value of its tree.
  \<^item> \<open>Executor\<close>, for the nodes of a query in \<^verbatim>\<open>sqlcore/executor\<close>; \<open>QueryExec\<close> proves that a query over any number of
    tables sends exactly the rows of their product that satisfy the condition; \<open>query_ok\<close> lists what it relies on.
  \<^item> \<open>Protocol\<close>, for \<^verbatim>\<open>portal/netclient.c\<close>, \<^verbatim>\<open>interface/cinterface/toadInterface.c\<close> and the loops around \<^verbatim>\<open>recv\<close> and \<^verbatim>\<open>send\<close>:
    messages arrive complete and in order, and the chunks for which they do not.
  \<^item> \<open>Portal\<close>, for \<^verbatim>\<open>portal/portal.c\<close>: the text of rows and titles and the messages of an answer; the portal is a
    sink of rows, which \<open>row_sink\<close> states.
  \<^item> \<open>Server\<close>, for \<^verbatim>\<open>ToadMainEntry\<close> and \<^verbatim>\<open>ProcessQuery\<close>: a command in its transaction, and a session.
  \<^item> \<open>TableInsert\<close>, for \<^verbatim>\<open>pax_ExecInsert\<close> of \<^verbatim>\<open>sqlcore/executor/execModifyTable.c\<close> and the functions of \<^verbatim>\<open>buffer.c\<close> that
    find space in a table and extend its files: an insertion adds exactly its row to what a reader sees.
  \<^item> \<open>Planner\<close>, for \<^verbatim>\<open>sqlcore/plan\<close>: the analysis resolves names to columns, and the planner makes the plan that
    \<open>QueryExec\<close> runs, whose condition has the value of the condition as it is written (\<open>cond_value\<close>); what becomes of conditions on two columns of one table and with a constant on the left.
  \<^item> \<open>Modify\<close>, for the rest of \<^verbatim>\<open>execModifyTable.c\<close>, \<^verbatim>\<open>ExecUpdateSelect\<close> of \<^verbatim>\<open>execSelect.c\<close> and the chains of extension and undo
    pages in \<^verbatim>\<open>buffer.c\<close>: insertion of many rows, update and deletion.
  \<^item> \<open>Statement\<close>, for \<^verbatim>\<open>ExecutorMain\<close> on all statements and \<^verbatim>\<open>execUtility.c\<close>: a statement from its parse tree to its answer.
  \<^item> \<open>Spec2Isabelle\<close>, this theory: a client sends a statement and reads the answer.

  \<^bold>\<open>How code becomes definitions.\<close> A C function becomes a definition of the same name that takes and returns
  the state it reads and writes. A result of type \<open>option\<close> is \<open>None\<close> where the function does not return
  normally: an access outside an object, signed overflow, a loop without end, a wait that never ends. A
  null pointer that the code returns is a value of its own. Loops are recursive functions with a
  termination proof where one exists and partial functions otherwise; for those the theorems say that
  they return. There is no fuel.

  \<^bold>\<open>Parameters.\<close> Hash functions, floating point arithmetic and its text, the addresses that the operating system
  and the memory pool hand out, the bytes that lie behind an object in memory, and the results of \<^verbatim>\<open>recv\<close>
  and \<^verbatim>\<open>send\<close> are arguments. So are the parser, which gives the parse trees or fails, the dictionary of the tables with their
  columns, and the statements that create and drop a table.

  \<^bold>\<open>Not modelled.\<close> The generated parser (\<^verbatim>\<open>grammar.c\<close>, \<^verbatim>\<open>scanner.c\<close>) and the parse tree dump
  (\<^verbatim>\<open>parserNode.c\<close>), the creation of tables, sockets, files, threads, shared memory and semaphores of the operating
  system, the client tools, logging and configuration, and the vendored hash function. Writes to files do not fail, and a buffer
  and the page of the file that it holds are one: \<open>BufferPool\<close> is not below the pages of \<open>Pages\<close> and \<open>TableScan\<close>. Workers are
  interleaved in \<open>Locks\<close>, call by call, and in \<open>Transaction\<close>, where the scan for a snapshot is interrupted too; a statement runs alone. The release
  of memory is modelled in \<open>MemPool\<close> only.
\<close>

section \<open>A command and its answer\<close>

lemma client_gets_answer:
  assumes "holds st sc []" "st AND CS_BLOCK = 0" "cut chunks (frame PORT_MSG_REQUEST cmd)" "command_ok cmd" "idle_portal p"
    and "answers entry cmd w Q ms t" "\<forall>m \<in> set ms. fits m \<and> fst m \<noteq> PORT_MSG_FINISH" "t \<noteq> PORT_MSG_FINISH" "waiting CS_IDLE cc []"
  shows "\<exists>sc' w' p' bytes. process_loop entry (chunks @ rest) sc w p = process_loop entry rest sc' w' p' \<and>
     holds st sc' [] \<and> idle_portal p' \<and> Q w' \<and> wire (p_sock p') = wire (p_sock p) @ bytes \<and>
     (\<forall>chunks'. cut chunks' bytes \<longrightarrow> (\<exists>cc' out. ProcessClient chunks' cc = Some (0, [], cc', out) \<and> waiting CS_IDLE cc' [] \<and>
        filter (\<lambda>(b, n). 0 < n) out = map shows_msg (ms @ [(t, [0])])))"
proof -
  let ?ms = "ms @ [(t, [0])]"
  have ms: "\<forall>m \<in> set ?ms. fits m \<and> fst m \<noteq> PORT_MSG_FINISH"
    using assms(7,8) by (auto simp: fits_def [of "(_, [0])"] PORT_BUFFER_SIZE_def)
  have "\<exists>cc' out. ProcessClient chunks' cc = Some (0, [], cc', out) \<and> waiting CS_IDLE cc' [] \<and> filter (\<lambda>(b, n). 0 < n) out = map shows_msg ?ms"
    if c: "cut chunks' (stream (whole_answer ms t))" for chunks'
    using client_gets [OF assms(9), of chunks' ?ms] ms c by (auto simp: cut_def whole_answer_def MAX_COMMAND_LENGTH_def SOCKET_BUFFER_LEN_def)
  with process_command [OF assms(1-6), of rest] show ?thesis by blast
qed

text \<open>
  C1: A client that sends a select statement with a condition and reads the answer gets the titles if there is a row, the rows of the product of the tables for
  which the condition as it is written holds, and the count, in this order, and no other message with content. The statement runs through the analysis, the planner
  and the executor; the server is ready for the next command and the tables have not changed. The command and the answer may be
  cut into chunks of at least the size of a header. The statement is one that the code answers rightly: a comparison with a column on its right has a column of another
  table on its left, and the condition has a truth value for every row of the product, so it uses no \<open><\<close>; the columns of a table in the condition, or in the targets if the
  condition has none, come in increasing order, and targets of a table in the condition are among the columns of the condition; the tables after the first have one
  page of groups each, and no row has been moved to another page.
\<close>

theorem client_sees_query_answer:
  assumes "holds st sc []" "st AND CS_BLOCK = 0" "cut chunks (frame PORT_MSG_REQUEST cmd)" "command_ok cmd" "idle_portal p"
    and "command_env level env0 w = Some (txn, env)" "parser cmd = Some [SelectStmt targets (Some vs) (Some [c])]" "dic_cat dic (w\<lparr>w_txn := txn\<rparr>) = cat"
    and "RangTblRewriteFromClause cat vs 1 = Some (rs, n)" "\<forall>r \<in> set rs. cat_cols cat (qr_tbl r) \<noteq> []"
    and "resolve_targets cat rs targets = Some tes" "resolve_cond cat rs c [] = Some (q, conds)" "list_all2 (desc_for cat tes conds) rs (d # ds)"
    and "query_ok env (w_db w) (w_mem w) tes (Some (map rte_of rs)) [q] con m0 N d ds"
    and "vss = answer_of cat rs c con (w_db w) tes (d # ds)" "\<forall>m \<in> set (answer_messages tes vss). fits m" "waiting CS_IDLE cc []"
  shows "\<exists>sc' w' p' bytes. process_loop (command_entry level env0 dic parser) (chunks @ rest) sc w p = process_loop (command_entry level env0 dic parser) rest sc' w' p' \<and>
     holds st sc' [] \<and> idle_portal p' \<and> db_pages (w_db w') = db_pages (w_db w) \<and> wire (p_sock p') = wire (p_sock p) @ bytes \<and>
     (\<forall>chunks'. cut chunks' bytes \<longrightarrow> (\<exists>cc' out. ProcessClient chunks' cc = Some (0, [], cc', out) \<and> waiting CS_IDLE cc' [] \<and>
        filter (\<lambda>(b, n). 0 < n) out = map shows_msg (answer_messages tes vss @ [(fold (\<lambda>_. next_type) vss PORT_MSG_START, [0])])))"
proof -
  have "fold (\<lambda>_. next_type) vss PORT_MSG_START \<noteq> PORT_MSG_FINISH"
    using fold_next_type [of vss] by (auto simp: PORT_MSG_START_def PORT_MSG_BEGIN_def PORT_MSG_CONTINUE_def PORT_MSG_FINISH_def)
  moreover have "\<forall>m \<in> set (answer_messages tes vss). fits m \<and> fst m \<noteq> PORT_MSG_FINISH" using assms(16) answer_types by blast
  moreover have "answers (command_entry level env0 dic parser) cmd w (\<lambda>w'. db_pages (w_db w') = db_pages (w_db w)) (answer_messages tes vss) (fold (\<lambda>_. next_type) vss PORT_MSG_START)"
    unfolding assms(15) selected_answer [OF assms(12), symmetric] using assms(6-14) by (rule select_command)
  ultimately show ?thesis
    using client_gets_answer [OF assms(1-5) _ _ _ assms(17), of "command_entry level env0 dic parser" w "\<lambda>w'. db_pages (w_db w') = db_pages (w_db w)"
        "answer_messages tes vss" "fold (\<lambda>_. next_type) vss PORT_MSG_START" rest] by blast
qed

definition start_mworld :: mworld where
  "start_mworld = world.extend start_world \<lparr>w_meta = (\<lambda>_. empty_meta)\<rparr>"

definition sample_dictionary :: dictionary where
  "sample_dictionary = \<lparr>dic_cat = (\<lambda>_. sample_cat), dic_storage = (\<lambda>_. ST_PAX), dic_ddl = (\<lambda>_ w. Some (-1, w))\<rparr>"

definition select_text :: "byte list" where
  "select_text = text_of ''select a.x, b.x as y from a, b where a.x = b.x;''"

definition select_parser :: "byte list \<Rightarrow> stmt list option" where
  "select_parser cmd = (if cmd = select_text then Some [xa_tree] else None)"

definition select_entry :: "byte list \<Rightarrow> mworld \<Rightarrow> Portal \<Rightarrow> (int \<times> mworld \<times> Portal) option" where
  "select_entry = command_entry til_Read_Commited some_env sample_dictionary select_parser"

lemma start_mworld_simps [simp]:
  "w_db start_mworld = w_db start_world" "w_mem start_mworld = w_mem start_world" "w_txn start_mworld = w_txn start_world" "w_snap start_mworld = w_snap start_world"
  "w_meta start_mworld = (\<lambda>_. empty_meta)"
  by (simp_all add: start_mworld_def world.defs mworld.defs)

lemma command_env_cong:
  "w_txn w = w_txn w' \<Longrightarrow> w_snap w = w_snap w' \<Longrightarrow> command_env level env w = command_env level env w'"
  by (simp add: command_env_def statement_env_def)

lemma ab_answer_fits: "\<forall>m \<in> set (answer_messages ab_targets [[IntV 42, IntV 42], [IntV 42, IntV 42]]). fits m"
  by (simp add: answer_messages_def ab_targets_def fits_def head_text_def titles_text_def title_def row_text_def cells_text_def PORT_BUFFER_SIZE_def
    result_text_def text_of_def text_42 dec_text_def [of 2] digits.simps)

theorem client_sees_query_answer_witness:
  "\<exists>sc' w' p' bytes. process_loop select_entry [frame PORT_MSG_REQUEST select_text] zero_client start_mworld new_portal = process_loop select_entry [] sc' w' p' \<and>
     holds CS_IDLE sc' [] \<and> idle_portal p' \<and> db_pages (w_db w') = db_pages (w_db start_world) \<and> wire (p_sock p') = wire (p_sock new_portal) @ bytes \<and>
     (\<forall>chunks'. cut chunks' bytes \<longrightarrow> (\<exists>cc' out. ProcessClient chunks' zero_client = Some (0, [], cc', out) \<and> waiting CS_IDLE cc' [] \<and>
        filter (\<lambda>(b, n). 0 < n) out = map shows_msg (answer_messages ab_targets [[IntV 42, IntV 42], [IntV 42, IntV 42]] @
          [(fold (\<lambda>_. next_type) [[IntV 42, IntV 42], [IntV 42, IntV 42]] PORT_MSG_START, [0])])))"
proof -
  have 1: "holds CS_IDLE zero_client []" "CS_IDLE AND CS_BLOCK = 0" using waiting_zero by (auto simp: waiting_def)
  have 2: "cut [frame PORT_MSG_REQUEST select_text] (frame PORT_MSG_REQUEST select_text)" "command_ok select_text"
    by (simp_all add: cut_def command_ok_def fits_def select_text_def text_of_def MAX_COMMAND_LENGTH_def PORT_BUFFER_SIZE_def)
  have xa: "xa_targets = ab_targets" "Some (map rte_of xa_rtable) = ab_rtable" by (simp_all add: xa_targets_def ab_targets_def xa_rtes ab_rtable_def)
  have 3: "[[IntV 42, IntV 42], [IntV 42, IntV 42]] = answer_of sample_cat xa_rtable (PA_Expr EQUAL (PColumnRef ''x'' (Some ''a'')) (PColumnRef ''x'' (Some ''b'')))
      (\<lambda>_. None) (w_db start_mworld) ab_targets [table_a, table_b]"
    unfolding selected_answer [OF xa_resolved(3), symmetric] xa by (simp add: start_world_def some_world_def ab_selected)
  have 4: "command_env til_Read_Commited some_env start_mworld = Some (started_txn, reading_env)"
    using reading_command command_env_cong [of start_mworld start_world] by simp
  have 5: "\<forall>r \<in> set xa_rtable. cat_cols sample_cat (qr_tbl r) \<noteq> []" by (simp add: sample_cat_def)
  have 6: "query_ok reading_env (w_db start_mworld) (w_mem start_mworld) xa_targets (Some (map rte_of xa_rtable)) [ab_qual] (\<lambda>_. None) two_strings 4 table_a [table_b]"
    unfolding xa using reading_query_ok by simp
  have 7: "select_parser select_text = Some [xa_tree]" by (simp add: select_parser_def)
  have 8: "dic_cat sample_dictionary (start_mworld\<lparr>w_txn := started_txn\<rparr>) = sample_cat" by (simp add: sample_dictionary_def)
  show ?thesis unfolding select_entry_def
    using client_sees_query_answer [where parser = select_parser and dic = sample_dictionary and rest = "[]",
      OF 1 2 new_portal_idle 4 7 [unfolded xa_tree_def] 8 xa_resolved(1) 5 xa_resolved(2,3) xa_descs 6, unfolded xa, OF 3 ab_answer_fits waiting_zero] by simp
qed

text \<open>
  C2: A client that sends an insert statement is told how many rows were inserted, and by then the table has them: it is laid out as before, and every
  reader sees the rows that it saw before, in their order, and among them those of the new rows that are visible to it and no other. The
  other tables have not changed. The table has the PAX storage model; each row fits a page for each column, and page and group numbers do not overflow.
\<close>

theorem client_sees_insert_result:
  assumes "holds st sc []" "st AND CS_BLOCK = 0" "cut chunks (frame PORT_MSG_REQUEST cmd)" "command_ok cmd" "idle_portal p"
    and "command_env level env0 w = Some (txn, env)" "parser cmd = Some [InsertStmt name attrs vals]" "\<forall>txn. dic_cat dic (w\<lparr>w_txn := txn\<rparr>) = cat"
    and "GetCurrentTransactionID (x_txn env) = Some x"
    and "cat_table cat name = t" "t \<noteq> 0" "insert_names cat t attrs \<noteq> []" "dic_storage dic t = ST_PAX" "length (cat_cols cat t) = n"
    and "transform_loop env (cat_cols cat t) (Some (insert_names cat t attrs)) vals (wbytes (w_mem w)) = Some rs" "list_all2 (row_cols n) rs css" "length rs < 2 ^ 31"
    and "store_ok n (w_db w t) (w_meta w t) gss" "int (length gss) + int (length rs) < 2 ^ 31 - 1" "uint (pageCnt (w_meta w t) MAIN_FORK) + int n * int (length rs) < 2 ^ 31"
    and "waiting CS_IDLE cc []"
  shows "\<exists>sc' w' p' bytes gss'. process_loop (command_entry level env0 dic parser) (chunks @ rest) sc w p = process_loop (command_entry level env0 dic parser) rest sc' w' p' \<and>
     holds st sc' [] \<and> idle_portal p' \<and> store_ok n (w_db w' t) (w_meta w' t) gss' \<and> rows_inserted t n x css (w_db w) gss (w_db w') gss' \<and>
     wire (p_sock p') = wire (p_sock p) @ bytes \<and>
     (\<forall>chunks'. cut chunks' bytes \<longrightarrow> (\<exists>cc' out. ProcessClient chunks' cc = Some (0, [], cc', out) \<and> waiting CS_IDLE cc' [] \<and>
        filter (\<lambda>(b, n). 0 < n) out = map shows_msg [(PORT_MSG_START, result_text (int (length rs)) @ [0]), (PORT_MSG_START, [0])]))"
proof -
  let ?ms = "[(PORT_MSG_START, result_text (int (length rs)) @ [0])]"
  have "answers (command_entry level env0 dic parser) cmd w (has_inserted t n x css w gss) ?ms PORT_MSG_START"
    using assms(6-20) by (rule insert_command)
  moreover have "\<forall>m \<in> set ?ms. fits m \<and> fst m \<noteq> PORT_MSG_FINISH" "PORT_MSG_START \<noteq> PORT_MSG_FINISH"
    using result_text_ok [OF assms(17)] by (simp_all add: fits_def PORT_BUFFER_SIZE_def PORT_MSG_START_def PORT_MSG_FINISH_def)
  ultimately have "\<exists>sc' w' p' bytes. process_loop (command_entry level env0 dic parser) (chunks @ rest) sc w p = process_loop (command_entry level env0 dic parser) rest sc' w' p' \<and>
     holds st sc' [] \<and> idle_portal p' \<and> has_inserted t n x css w gss w' \<and> wire (p_sock p') = wire (p_sock p) @ bytes \<and>
     (\<forall>chunks'. cut chunks' bytes \<longrightarrow> (\<exists>cc' out. ProcessClient chunks' cc = Some (0, [], cc', out) \<and> waiting CS_IDLE cc' [] \<and>
        filter (\<lambda>(b, n). 0 < n) out = map shows_msg (?ms @ [(PORT_MSG_START, [0])])))"
    by (intro client_gets_answer [OF assms(1-5) _ _ _ assms(21)])
  then show ?thesis unfolding has_inserted_def by (simp only: append.simps) blast
qed

text \<open>\<open>insert into a (x) values (42), (7);\<close> into an empty table.\<close>

definition insert_text :: "byte list" where
  "insert_text = text_of ''insert into a (x) values (42), (7);''"

definition insert_parser :: "byte list \<Rightarrow> stmt list option" where
  "insert_parser cmd = (if cmd = insert_text then Some [InsertStmt ''a'' (Some [''x''])
     [[\<lparr>cv_val = 42, cv_vt = VT_INT, cv_isnull = 0\<rparr>], [\<lparr>cv_val = 7, cv_vt = VT_INT, cv_isnull = 0\<rparr>]]] else None)"

definition insert_entry :: "byte list \<Rightarrow> mworld \<Rightarrow> Portal \<Rightarrow> (int \<times> mworld \<times> Portal) option" where
  "insert_entry = command_entry til_Read_Commited some_env sample_dictionary insert_parser"

definition empty_mworld :: mworld where
  "empty_mworld = start_mworld\<lparr>w_db := (w_db start_world)(7 := empty_table)\<rparr>"

text \<open>A column of a new row, whose transaction ids are not set yet.\<close>

definition raw_int :: "i32 \<Rightarrow> RowColumnData" where
  "raw_int v = \<lparr>rc_size = 52, attrindex = 0, headerData = zero_header, rc_data = bytes_of 4 v\<rparr>"

lemma sample_values:
  "transform_loop reading_env (cat_cols sample_cat 7) (Some (insert_names sample_cat 7 (Some [''x''])))
     [[\<lparr>cv_val = 42, cv_vt = VT_INT, cv_isnull = 0\<rparr>], [\<lparr>cv_val = 7, cv_vt = VT_INT, cv_isnull = 0\<rparr>]] m =
   Some [\<lparr>tr_size = 68, tr_num = 1, columnData = [Some (raw_int 42)]\<rparr>, \<lparr>tr_size = 68, tr_num = 1, columnData = [Some (raw_int 7)]\<rparr>]"
  by (simp add: sample_cat_def insert_names_def reading_env_def some_env_def ValuesFormRowData_def GetColumnRefIndexByName_def GetDataByIndex_def arr_get_def
    TransformConstValueRowData_def new_column_def zero_blk_def raw_int_def put_data_def iData_def GetAttrIndex_def TABLE_ROW_HEADER_SIZE_def ROW_COLUMN_HEADER_SIZE_def)

theorem client_sees_insert_result_witness:
  "\<exists>sc' w' p' bytes gss'. process_loop insert_entry [frame PORT_MSG_REQUEST insert_text] zero_client empty_mworld new_portal = process_loop insert_entry [] sc' w' p' \<and>
     holds CS_IDLE sc' [] \<and> idle_portal p' \<and> store_ok 1 (w_db w' 7) (w_meta w' 7) gss' \<and>
     mset (rows_of Some (pages (w_db w' 7)) [0] (concat gss')) = {# [inserted 7 (raw_int 42)], [inserted 7 (raw_int 7)] #} \<and>
     wire (p_sock p') = wire (p_sock new_portal) @ bytes \<and>
     (\<forall>chunks'. cut chunks' bytes \<longrightarrow> (\<exists>cc' out. ProcessClient chunks' zero_client = Some (0, [], cc', out) \<and> waiting CS_IDLE cc' [] \<and>
        filter (\<lambda>(b, n). 0 < n) out = map shows_msg [(PORT_MSG_START, result_text 2 @ [0]), (PORT_MSG_START, [0])]))"
proof -
  let ?vals = "[[\<lparr>cv_val = 42, cv_vt = VT_INT, cv_isnull = 0\<rparr>], [\<lparr>cv_val = 7, cv_vt = VT_INT, cv_isnull = 0\<rparr>]]"
  let ?rs = "[\<lparr>tr_size = 68, tr_num = 1, columnData = [Some (raw_int 42)]\<rparr>, \<lparr>tr_size = 68, tr_num = 1, columnData = [Some (raw_int 7)]\<rparr>]"
  let ?css = "[[raw_int 42], [raw_int 7]]"
  have 1: "holds CS_IDLE zero_client []" "CS_IDLE AND CS_BLOCK = 0" using waiting_zero by (auto simp: waiting_def)
  have 2: "cut [frame PORT_MSG_REQUEST insert_text] (frame PORT_MSG_REQUEST insert_text)" "command_ok insert_text"
    by (simp_all add: cut_def command_ok_def fits_def insert_text_def text_of_def MAX_COMMAND_LENGTH_def PORT_BUFFER_SIZE_def)
  have 3: "command_env til_Read_Commited some_env empty_mworld = Some (started_txn, reading_env)"
    using reading_command command_env_cong [of empty_mworld start_world] by (simp add: empty_mworld_def)
  have 4: "insert_parser insert_text = Some [InsertStmt ''a'' (Some [''x'']) ?vals]" "\<forall>txn. dic_cat sample_dictionary (empty_mworld\<lparr>w_txn := txn\<rparr>) = sample_cat"
    by (simp_all add: insert_parser_def sample_dictionary_def)
  have 5: "GetCurrentTransactionID (x_txn reading_env) = Some 7"
    by (simp add: GetCurrentTransactionID_def reading_env_def reading_txn_def worker_txn_def my_ctx_def arr_get_def)
  have 6: "cat_table sample_cat ''a'' = 7" "(7 :: nat) \<noteq> 0" "insert_names sample_cat 7 (Some [''x'']) \<noteq> []" "dic_storage sample_dictionary 7 = ST_PAX"
    "length (cat_cols sample_cat 7) = 1"
    by (simp_all add: sample_cat_def insert_names_def GetAttrIndex_def sample_dictionary_def)
  have "row_cols 1 \<lparr>tr_size = 68, tr_num = 1, columnData = [Some (raw_int v)]\<rparr> [raw_int v]" for v
    using int_column_ok by (simp add: row_cols_def raw_int_def col_ok_def ROW_COLUMN_HEADER_SIZE_def)
  then have 7: "list_all2 (row_cols 1) ?rs ?css" "length ?rs < 2 ^ 31" by simp_all
  have 8: "store_ok 1 (w_db empty_mworld 7) (w_meta empty_mworld 7) []" "int (length ([] :: int list list list)) + int (length ?rs) < 2 ^ 31 - 1"
    "uint (pageCnt (w_meta empty_mworld 7) MAIN_FORK) + int 1 * int (length ?rs) < 2 ^ 31"
    using empty_store by (simp_all add: empty_mworld_def empty_meta_def)
  obtain sc' w' p' bytes gss' where r: "process_loop insert_entry ([frame PORT_MSG_REQUEST insert_text] @ []) zero_client empty_mworld new_portal = process_loop insert_entry [] sc' w' p'"
     "holds CS_IDLE sc' []" "idle_portal p'" "store_ok 1 (w_db w' 7) (w_meta w' 7) gss'" "rows_inserted 7 1 7 ?css (w_db empty_mworld) [] (w_db w') gss'"
     "wire (p_sock p') = wire (p_sock new_portal) @ bytes"
     "\<forall>chunks'. cut chunks' bytes \<longrightarrow> (\<exists>cc' out. ProcessClient chunks' zero_client = Some (0, [], cc', out) \<and> waiting CS_IDLE cc' [] \<and>
        filter (\<lambda>(b, n). 0 < n) out = map shows_msg [(PORT_MSG_START, result_text (int (length ?rs)) @ [0]), (PORT_MSG_START, [0])])"
    using client_sees_insert_result [where parser = insert_parser and dic = sample_dictionary and rest = "[]",
      OF 1 2 new_portal_idle 3 4 5 6 sample_values 7 8 waiting_zero] unfolding insert_entry_def by blast
  have "columns_ok 1 [0]" by (simp add: columns_ok_def)
  then have "rows_added (rows_of Some (pages (w_db empty_mworld 7)) [0] (concat [])) (new_rows Some 7 [0] ?css) (rows_of Some (pages (w_db w' 7)) [0] (concat gss'))"
    using r(5) unfolding rows_inserted_def by blast
  then have "mset (rows_of Some (pages (w_db w' 7)) [0] (concat gss')) = {# [inserted 7 (raw_int 42)], [inserted 7 (raw_int 7)] #}"
    by (simp add: rows_added_def rows_of_def new_rows_def visible_row_def)
  moreover have "result_text (int (length ?rs)) = result_text 2" by simp
  ultimately show ?thesis using r(1-4,6,7) by (simp only: append.simps) blast
qed

end
